(* ===== verification/Prelude.thy ===== *)
theory Prelude
  imports Main "HOL-Library.Word"
begin

text \<open>
  Shared vocabulary of the development.

  \<^item> The machine integers of the C and C++ sources (\<open>UINT8\<close> \<dots> \<open>UINT64\<close> of ACPICA,
    \<open>u8\<close> \<dots> \<open>u64\<close> of the kernel) are words of \<^verbatim>\<open>HOL-Library.Word\<close>, so that arithmetic wraps
    exactly as the compiled code does on the x86\_64 target selected by
    \<^verbatim>\<open>include/platform/acworkbenchos.h\<close> (\<^verbatim>\<open>ACPI_MACHINE_WIDTH\<close> is 64).
  \<^item> A flat byte memory \<open>mem\<close> maps every 64-bit address to a byte; \<open>copied\<close>, \<open>filled\<close> and
    \<open>cstr\<close> describe the memory regions that the string and memory routines read and write.
  \<^item> \<open>acpi_status\<close> lists the exception codes of \<^verbatim>\<open>include/acexcep.h\<close> that the modelled
    functions return.
  \<^item> The collections \<open>word_nat\<close> (from words to natural numbers) and \<open>mem_simps\<close> (memory
    regions) carry the proofs of the component theories.
\<close>

unbundle bit_operations_syntax

named_theorems word_nat \<open>rewriting word arithmetic to natural numbers\<close>
named_theorems mem_simps \<open>reading and writing regions of the byte memory\<close>

section \<open>Types\<close>

type_synonym u8 = "8 word"
type_synonym u16 = "16 word"
type_synonym u32 = "32 word"
type_synonym u64 = "64 word"
type_synonym addr = "64 word"
type_synonym mem = "64 word \<Rightarrow> 8 word"

text \<open>Exception codes of \<^verbatim>\<open>include/acexcep.h\<close>; only \<open>AE_OK\<close> is a success.\<close>

datatype acpi_status =
    AE_OK | AE_ERROR | AE_NO_MEMORY | AE_ALREADY_EXISTS | AE_BAD_PARAMETER
  | AE_OWNER_ID_LIMIT | AE_NUMERIC_OVERFLOW | AE_OCTAL_OVERFLOW | AE_DECIMAL_OVERFLOW
  | AE_HEX_OVERFLOW | AE_BAD_HEX_CONSTANT | AE_AML_DIVIDE_BY_ZERO | AE_AML_INTERNAL
  | AE_AML_NO_RETURN_VALUE | AE_AML_NO_OPERAND | AE_STACK_OVERFLOW | AE_STACK_UNDERFLOW
  | AE_BUFFER_OVERFLOW | AE_AML_OPERAND_TYPE | AE_AML_OPERAND_VALUE | AE_AML_REGION_LIMIT
  | AE_AML_INVALID_SPACE_ID | AE_AML_REGISTER_LIMIT | AE_NOT_FOUND | AE_NOT_EXIST | AE_TYPE | AE_AML_BUFFER_LIMIT | AE_AML_BAD_OPCODE | AE_BAD_PATHNAME | AE_NO_NAMESPACE | AE_CTRL_DEPTH | AE_CTRL_TERMINATE
  | AE_TIME | AE_LIMIT | AE_ALREADY_ACQUIRED | AE_NOT_ACQUIRED | AE_ACQUIRE_DEADLOCK | AE_RELEASE_DEADLOCK

definition ACPI_FAILURE :: "acpi_status \<Rightarrow> bool" where
  "ACPI_FAILURE s \<longleftrightarrow> s \<noteq> AE_OK"

lemma ACPI_FAILURE_OK [simp]: "\<not> ACPI_FAILURE AE_OK"
  by (simp add: ACPI_FAILURE_def)

section \<open>Words and natural numbers\<close>

lemma unat_pred [word_nat]: "x \<noteq> 0 \<Longrightarrow> unat (x - 1) = unat x - 1"
  for x :: "'a::len word"
  by (rule unat_minus_one)

lemma unat_pred_less [word_nat]: "x \<noteq> 0 \<Longrightarrow> unat (x - 1) < unat x"
  for x :: "'a::len word"
  by (simp add: unat_pred unat_gt_0)

lemma unat_pred2_less [word_nat]: "x \<noteq> 1 \<Longrightarrow> unat (x - 2) < unat (x - 1)"
  for x :: "'a::len word"
  using unat_pred_less [of "x - 1"] by (simp add: diff_diff_eq)

lemma unat_sub_le [word_nat]: "y \<le> x \<Longrightarrow> unat (x - y) = unat x - unat y"
  for x y :: "'a::len word"
  by (rule unat_sub)

lemma unat_add_nowrap [word_nat]:
  "unat x + unat y < 2 ^ LENGTH('a) \<Longrightarrow> unat (x + y) = unat x + unat y"
  for x y :: "'a::len word"
  by (simp add: unat_word_ariths)

lemma unat_of_nat_lt [word_nat]:
  "n < 2 ^ LENGTH('a) \<Longrightarrow> unat (of_nat n :: 'a::len word) = n"
  by (simp add: unat_of_nat)

lemma unat_lt64: "unat x < 2 ^ 64" for x :: u64
  using unsigned_less [of x] by simp

lemma unat_lt32: "unat x < 2 ^ 32" for x :: u32
  using unsigned_less [of x] by simp

lemma unat_lt8: "unat x < 256" for x :: u8
  using unsigned_less [of x] by simp

lemma unat_lt16: "unat x < 65536" for x :: u16
  using unsigned_less [of x] by simp

lemma unat_max64 [simp, word_nat]: "unat (- 1 :: 64 word) = 2 ^ 64 - 1"
  by (simp add: unsigned_minus_1_eq_mask mask_eq_exp_minus_1)

lemma unat_plus_nat [word_nat]: "unat p + i < 2 ^ 64 \<Longrightarrow> unat (p + of_nat i) = unat p + i"
  for p :: u64
  by (simp add: unat_add_nowrap unat_of_nat_lt)

lemma unat_diff_mod:
  "unat (x - y) = (if unat y \<le> unat x then unat x - unat y
     else 2 ^ LENGTH('a) + unat x - unat y)"
  for x y :: "'a::len word"
  by (simp add: unat_sub_if' add.commute)

lemma and_single_bit: "m AND 2 ^ k = 0 \<longleftrightarrow> \<not> bit m k" if "k < LENGTH('a)" for m :: "'a::len word"
proof -
  have "m AND 2 ^ k = (if bit m k then 2 ^ k else 0)"
    by (rule bit_word_eqI) (auto simp: bit_simps)
  moreover have "(2 ^ k :: 'a word) \<noteq> 0" using that by simp
  ultimately show ?thesis by simp
qed

section \<open>Regions of memory\<close>

text \<open>
  \<open>copied m d s n\<close> is the memory in which the \<open>n\<close> bytes from \<open>d\<close> on hold what \<open>m\<close> had
  from \<open>s\<close> on; \<open>filled m d v n\<close> has \<open>v\<close> there. The offset \<open>a - d\<close> is taken modulo \<open>2 ^ 64\<close>,
  as address arithmetic is.
\<close>

definition copied :: "mem \<Rightarrow> addr \<Rightarrow> addr \<Rightarrow> nat \<Rightarrow> mem" where
  "copied m d s n = (\<lambda>a. if unat (a - d) < n then m (s + (a - d)) else m a)"

definition filled :: "mem \<Rightarrow> addr \<Rightarrow> u8 \<Rightarrow> nat \<Rightarrow> mem" where
  "filled m d v n = (\<lambda>a. if unat (a - d) < n then v else m a)"

text \<open>A region that does not run past the end of the address space.\<close>

definition in_space :: "addr \<Rightarrow> nat \<Rightarrow> bool" where
  "in_space p n \<longleftrightarrow> unat p + n \<le> 2 ^ 64"

text \<open>The null-terminated string of bytes \<open>s\<close> stands at address \<open>p\<close>.\<close>

fun cstr :: "mem \<Rightarrow> addr \<Rightarrow> u8 list \<Rightarrow> bool" where
  "cstr m p [] = (m p = 0)"
| "cstr m p (c # cs) = (m p = c \<and> c \<noteq> 0 \<and> cstr m (p + 1) cs)"

lemma copied_0 [simp, mem_simps]: "copied m d s 0 = m"
  by (simp add: copied_def)

lemma filled_0 [simp, mem_simps]: "filled m d v 0 = m"
  by (simp add: filled_def)

lemma copied_self [simp, mem_simps]: "copied m d d n = m"
  by (auto simp: copied_def fun_eq_iff)

text \<open>The first address of a region is the only one at offset 0.\<close>

lemma offset_Suc: "unat (a - d) < Suc n \<longleftrightarrow> a = d \<or> unat (a - (d + 1)) < n \<and> a \<noteq> d"
  for a d :: "'a::len word"
proof (cases "a = d")
  case False
  then have "a - d \<noteq> 0" by simp
  then have "unat (a - d - 1) = unat (a - d) - 1" and "0 < unat (a - d)"
    by (simp_all add: unat_pred unat_gt_0)
  moreover have "a - (d + 1) = a - d - 1" by simp
  ultimately show ?thesis using False by (metis Suc_diff_1 not_less_eq)
qed simp

lemma filled_Suc [mem_simps]:
  "n < 2 ^ 64 \<Longrightarrow> filled (m(d := v)) (d + 1) v n = filled m d v (Suc n)"
  by (auto simp: filled_def fun_eq_iff offset_Suc)

text \<open>The memory that holds the bytes \<open>bs\<close> from address \<open>p\<close> on and zeros elsewhere.\<close>

definition mem_of :: "addr \<Rightarrow> u8 list \<Rightarrow> mem" where
  "mem_of p bs = (\<lambda>a. if unat (a - p) < length bs then bs ! unat (a - p) else 0)"

text \<open>The first \<open>n\<close> bytes of a value, least significant first, as they lie in memory on the target.\<close>

definition bytes_of :: "nat \<Rightarrow> u64 \<Rightarrow> u8 list" where
  "bytes_of n v = map (\<lambda>i. ucast (drop_bit (8 * i) v)) [0..<n]"

lemma length_bytes_of [simp]: "length (bytes_of n v) = n"
  by (simp add: bytes_of_def)

end
