(* ===== verification/Clib.thy ===== *)
theory Clib
  imports Prelude
begin

text \<open>
  The C library subset of ACPICA, \<^verbatim>\<open>components/utilities/utclib.c\<close>.

  Every routine is a function of the byte memory of \<^verbatim>\<open>Prelude\<close>: a \<open>char *\<close> is an address,
  reading through it applies the memory, storing through it updates the memory. Loops that
  are bounded by a count recurse with the count as measure; loops that run to a null byte are
  \<^theory_text>\<open>partial_function (option)\<close>, so that a string with no terminator gives \<open>None\<close>.
  \<open>NULL\<close> is address 0.
\<close>

section \<open>Memory blocks\<close>

definition ACPI_SIZE_MAX :: u64 where
  "ACPI_SIZE_MAX = - 1"

function memcmp_loop :: "mem \<Rightarrow> addr \<Rightarrow> addr \<Rightarrow> u64 \<Rightarrow> addr \<times> addr \<times> u64" where
  "memcmp_loop m Buffer1 Buffer2 Count =
     (if Count \<noteq> 0 \<and> m Buffer1 = m Buffer2
      then memcmp_loop m (Buffer1 + 1) (Buffer2 + 1) (Count - 1)
      else (Buffer1, Buffer2, Count - 1))"
  by pat_completeness auto
termination
  by (relation "measure (\<lambda>(m, b1, b2, c). unat c)") (auto simp: word_nat unat_gt_0)

definition memcmp :: "mem \<Rightarrow> addr \<Rightarrow> addr \<Rightarrow> u64 \<Rightarrow> int" where
  "memcmp m VBuffer1 VBuffer2 Count =
     (let (Buffer1, Buffer2, Count') = memcmp_loop m VBuffer1 VBuffer2 Count
      in if Count' = ACPI_SIZE_MAX then 0 else uint (m Buffer1) - uint (m Buffer2))"

text \<open>The forward and backward copy loops of \<open>memmove\<close>; \<open>memcpy\<close> has the forward one.\<close>

function copy_up :: "mem \<Rightarrow> addr \<Rightarrow> addr \<Rightarrow> u64 \<Rightarrow> mem" where
  "copy_up m New Old Count =
     (if Count \<noteq> 0 then copy_up (m(New := m Old)) (New + 1) (Old + 1) (Count - 1) else m)"
  by pat_completeness auto
termination
  by (relation "measure (\<lambda>(m, n, d, c). unat c)") (auto simp: word_nat unat_gt_0)

function copy_down :: "mem \<Rightarrow> addr \<Rightarrow> addr \<Rightarrow> u64 \<Rightarrow> mem" where
  "copy_down m New Old Count =
     (if Count \<noteq> 0 then copy_down (m(New := m Old)) (New - 1) (Old - 1) (Count - 1) else m)"
  by pat_completeness auto
termination
  by (relation "measure (\<lambda>(m, n, d, c). unat c)") (auto simp: word_nat unat_gt_0)

definition memmove :: "mem \<Rightarrow> addr \<Rightarrow> addr \<Rightarrow> u64 \<Rightarrow> addr \<times> mem" where
  "memmove m Dest Src Count =
     (if Src > Dest then (Dest, copy_up m Dest Src Count)
      else if Src < Dest then (Dest, copy_down m (Dest + Count - 1) (Src + Count - 1) Count)
      else (Dest, m))"

definition memcpy :: "mem \<Rightarrow> addr \<Rightarrow> addr \<Rightarrow> u64 \<Rightarrow> addr \<times> mem" where
  "memcpy m Dest Src Count = (Dest, copy_up m Dest Src Count)"

function memset_loop :: "mem \<Rightarrow> addr \<Rightarrow> u8 \<Rightarrow> u64 \<Rightarrow> mem" where
  "memset_loop m New v Count =
     (if Count \<noteq> 0 then memset_loop (m(New := v)) (New + 1) v (Count - 1) else m)"
  by pat_completeness auto
termination
  by (relation "measure (\<lambda>(m, n, v, c). unat c)") (auto simp: word_nat unat_gt_0)

definition memset :: "mem \<Rightarrow> addr \<Rightarrow> int \<Rightarrow> u64 \<Rightarrow> addr \<times> mem" where
  "memset m Dest Value Count = (Dest, memset_loop m Dest (word_of_int Value) Count)"

declare memcmp_loop.simps [simp del] copy_up.simps [simp del] copy_down.simps [simp del]
  memset_loop.simps [simp del]

section \<open>Null-terminated strings\<close>

partial_function (option) strlen_loop :: "mem \<Rightarrow> addr \<Rightarrow> u32 \<Rightarrow> u32 option" where
  "strlen_loop m String Length =
     (if m String \<noteq> 0 then strlen_loop m (String + 1) (Length + 1) else Some Length)"

text \<open>The counter is a \<open>UINT32\<close>; the result is widened to \<open>ACPI_SIZE\<close>.\<close>

definition strlen :: "mem \<Rightarrow> addr \<Rightarrow> u64 option" where
  "strlen m String = map_option ucast (strlen_loop m String 0)"

partial_function (option) is_delimiter :: "mem \<Rightarrow> u8 \<Rightarrow> addr \<Rightarrow> bool option" where
  "is_delimiter m c Delimiter =
     (if m Delimiter \<noteq> 0
      then (if c = m Delimiter then Some True else is_delimiter m c (Delimiter + 1))
      else Some False)"

partial_function (option) strpbrk :: "mem \<Rightarrow> addr \<Rightarrow> addr \<Rightarrow> addr option" where
  "strpbrk m String Delimiters =
     (if m String \<noteq> 0
      then Option.bind (is_delimiter m (m String) Delimiters)
             (\<lambda>hit. if hit then Some String else strpbrk m (String + 1) Delimiters)
      else Some 0)"

text \<open>
  \<open>strtok\<close> keeps its position in a static variable, here an argument and a result: the
  triple is the returned pointer, the memory and the new \<open>SavedPtr\<close>.
\<close>

partial_function (option) strtok_skip ::
  "mem \<Rightarrow> addr \<Rightarrow> addr \<Rightarrow> addr \<Rightarrow> (mem \<times> addr \<times> addr) option" where
  "strtok_skip m Begin SavedPtr Delimiters =
     (if SavedPtr = Begin
      then let m' = m(Begin := 0) in
           Option.bind (strpbrk m' (Begin + 1) Delimiters)
             (\<lambda>s. strtok_skip m' (Begin + 1) s Delimiters)
      else Some (m, Begin, SavedPtr))"

definition strtok ::
  "mem \<Rightarrow> addr \<Rightarrow> addr \<Rightarrow> addr \<Rightarrow> (addr \<times> mem \<times> addr) option" where
  "strtok m SavedPtr String Delimiters =
     (if String = 0 \<and> SavedPtr = 0 then Some (0, m, SavedPtr)
      else let Begin = (if String = 0 then SavedPtr else String) in
           Option.bind (strpbrk m Begin Delimiters) (\<lambda>s.
           Option.bind (strtok_skip m Begin s Delimiters) (\<lambda>(m', b, s').
             Some (if s' \<noteq> 0 then (b, m'(s' := 0), s' + 1) else (0, m', s')))))"

partial_function (option) strcpy_loop :: "mem \<Rightarrow> addr \<Rightarrow> addr \<Rightarrow> mem option" where
  "strcpy_loop m String SrcString =
     (if m SrcString \<noteq> 0
      then strcpy_loop (m(String := m SrcString)) (String + 1) (SrcString + 1)
      else Some (m(String := 0)))"

definition strcpy :: "mem \<Rightarrow> addr \<Rightarrow> addr \<Rightarrow> (addr \<times> mem) option" where
  "strcpy m DstString SrcString = map_option (Pair DstString) (strcpy_loop m DstString SrcString)"

text \<open>The copy loop of \<open>strncpy\<close> stores the terminator too and returns what is left of the count.\<close>

function strncpy_copy :: "mem \<Rightarrow> addr \<Rightarrow> addr \<Rightarrow> u64 \<Rightarrow> mem \<times> addr \<times> u64" where
  "strncpy_copy m String SrcString Count =
     (if Count \<noteq> 0
      then (if m SrcString \<noteq> 0
            then strncpy_copy (m(String := m SrcString)) (String + 1) (SrcString + 1) (Count - 1)
            else (m(String := 0), String + 1, Count - 1))
      else (m, String, Count))"
  by pat_completeness auto
termination
  by (relation "measure (\<lambda>(m, d, s, c). unat c)") (auto simp: word_nat unat_gt_0)

declare strncpy_copy.simps [simp del]

definition strncpy :: "mem \<Rightarrow> addr \<Rightarrow> addr \<Rightarrow> u64 \<Rightarrow> addr \<times> mem" where
  "strncpy m DstString SrcString Count =
     (let (m', String, Count') = strncpy_copy m DstString SrcString Count
      in (DstString, memset_loop m' String 0 Count'))"

partial_function (option) strcmp :: "mem \<Rightarrow> addr \<Rightarrow> addr \<Rightarrow> int option" where
  "strcmp m String1 String2 =
     (if m String1 = m String2
      then (if m String1 = 0 then Some 0 else strcmp m (String1 + 1) (String2 + 1))
      else Some (uint (m String1) - uint (m String2)))"

partial_function (option) strchr_loop :: "mem \<Rightarrow> addr \<Rightarrow> u8 \<Rightarrow> addr option" where
  "strchr_loop m String ch =
     (if m String \<noteq> 0
      then (if m String = ch then Some String else strchr_loop m (String + 1) ch)
      else Some 0)"

definition strchr :: "mem \<Rightarrow> addr \<Rightarrow> int \<Rightarrow> addr option" where
  "strchr m String ch = strchr_loop m String (word_of_int ch)"

function strncmp :: "mem \<Rightarrow> addr \<Rightarrow> addr \<Rightarrow> u64 \<Rightarrow> int" where
  "strncmp m String1 String2 Count =
     (if Count \<noteq> 0 \<and> m String1 = m String2
      then (if m String1 = 0 then 0 else strncmp m (String1 + 1) (String2 + 1) (Count - 1))
      else if Count - 1 = ACPI_SIZE_MAX then 0
      else uint (m String1) - uint (m String2))"
  by pat_completeness auto
termination
  by (relation "measure (\<lambda>(m, a, b, c). unat c)") (auto simp: word_nat unat_gt_0)

declare strncmp.simps [simp del]

text \<open>The first loop of \<open>strcat\<close> and \<open>strncat\<close>, with the \<open>--String\<close> that follows it.\<close>

partial_function (option) find_end :: "mem \<Rightarrow> addr \<Rightarrow> addr option" where
  "find_end m String = (if m String \<noteq> 0 then find_end m (String + 1) else Some String)"

definition strcat :: "mem \<Rightarrow> addr \<Rightarrow> addr \<Rightarrow> (addr \<times> mem) option" where
  "strcat m DstString SrcString =
     Option.bind (find_end m DstString) (\<lambda>String.
       map_option (Pair DstString) (strcpy_loop m String SrcString))"

text \<open>The copy loop of \<open>strncat\<close>: the stored byte ends it, or the decremented count does.\<close>

function strncat_copy :: "mem \<Rightarrow> addr \<Rightarrow> addr \<Rightarrow> u64 \<Rightarrow> mem \<times> addr \<times> u64" where
  "strncat_copy m String SrcString Count =
     (let m' = m(String := m SrcString) in
      if m SrcString \<noteq> 0
      then (if Count - 1 \<noteq> 0 then strncat_copy m' (String + 1) (SrcString + 1) (Count - 1)
            else (m', String + 1, Count - 1))
      else (m', String + 1, Count))"
  by pat_completeness auto
termination
  by (relation "measure (\<lambda>(m, d, s, c). unat (c - 1))") (auto simp: word_nat unat_gt_0)

declare strncat_copy.simps [simp del]

definition strncat :: "mem \<Rightarrow> addr \<Rightarrow> addr \<Rightarrow> u64 \<Rightarrow> (addr \<times> mem) option" where
  "strncat m DstString SrcString Count =
     (if Count \<noteq> 0
      then map_option (\<lambda>String.
             let (m', String', Count') = strncat_copy m String SrcString Count
             in (DstString, if Count' = 0 then m'(String' := 0) else m'))
           (find_end m DstString)
      else Some (DstString, m))"

partial_function (option) strstr_loop :: "mem \<Rightarrow> addr \<Rightarrow> addr \<Rightarrow> u64 \<Rightarrow> addr option" where
  "strstr_loop m String1 String2 Length =
     Option.bind (strlen m String1) (\<lambda>n.
       if n \<ge> Length
       then (if memcmp m String1 String2 Length = 0 then Some String1
             else strstr_loop m (String1 + 1) String2 Length)
       else Some 0)"

definition strstr :: "mem \<Rightarrow> addr \<Rightarrow> addr \<Rightarrow> addr option" where
  "strstr m String1 String2 =
     Option.bind (strlen m String2) (\<lambda>Length.
       if Length = 0 then Some String1 else strstr_loop m String1 String2 Length)"


section \<open>Memory blocks: what the loops leave in memory\<close>

text \<open>
  A forward copy is right unless the destination starts inside the source, a backward copy
  unless the source starts inside the destination; both conditions are about the distance of
  the two regions only, so they are kept by every iteration.
\<close>

lemma copied_step_up:
  assumes "n < 2 ^ 64" and "d = s \<or> Suc n \<le> unat (d - s)"
  shows "copied (m(d := m s)) (d + 1) (s + 1) n = copied m d s (Suc n)"
proof (rule ext)
  fix a
  have "s + (a - d) \<noteq> d" if "a \<noteq> d" "unat (a - d) < Suc n"
  proof
    assume "s + (a - d) = d"
    then have "a - d = d - s" by (metis add_diff_cancel_left')
    with that assms(2) show False by auto
  qed
  moreover have "s + 1 + (a - (d + 1)) = s + (a - d)" by (simp add: algebra_simps)
  moreover have "\<not> unat (d - (d + 1)) < n" using assms(1) by simp
  ultimately show "copied (m(d := m s)) (d + 1) (s + 1) n a = copied m d s (Suc n) a"
    by (auto simp: copied_def offset_Suc)
qed

lemma copy_up_copied:
  "d = s \<or> unat c \<le> unat (d - s) \<Longrightarrow> copy_up m d s c = copied m d s (unat c)"
proof (induction m d s c rule: copy_up.induct)
  case (1 m d s c)
  show ?case
  proof (cases "c = 0")
    case False
    then have c: "unat c = Suc (unat (c - 1))" by (simp add: word_nat unat_gt_0)
    have "copy_up (m(d := m s)) (d + 1) (s + 1) (c - 1)
        = copied (m(d := m s)) (d + 1) (s + 1) (unat (c - 1))"
      using 1 False c by (intro "1.IH") auto
    also have "\<dots> = copied m d s (unat c)"
      using "1.prems" unsigned_less [of "c - 1"] unfolding c by (intro copied_step_up) auto
    finally show ?thesis using False by (simp add: copy_up.simps [of m d s c])
  qed (simp add: copy_up.simps [of m d s 0])
qed

lemma offset_last:
  "n < 2 ^ 64 \<Longrightarrow> unat (a - d) < Suc n \<longleftrightarrow> unat (a - d) < n \<or> a = d + of_nat n"
  for a d :: addr
proof -
  assume n: "n < 2 ^ 64"
  have "a = d + of_nat n \<longleftrightarrow> a - d = of_nat n" by (metis add_diff_cancel_left' diff_add_cancel add.commute)
  also have "\<dots> \<longleftrightarrow> unat (a - d) = n"
    using n unat_of_nat_lt [of n, where ?'a = 64] by (auto simp: word_unat_eq_iff)
  finally show ?thesis by auto
qed

lemma copied_step_down:
  assumes n: "n < 2 ^ 64" and "d = s \<or> Suc n \<le> unat (s - d)"
  shows "copied (m(d + of_nat n := m (s + of_nat n))) d s n = copied m d s (Suc n)"
proof (rule ext)
  fix a
  have "s + (a - d) \<noteq> d + of_nat n" if less: "unat (a - d) < n"
  proof
    assume eq: "s + (a - d) = d + of_nat n"
    then have "s - d = of_nat n - (a - d)" by (simp add: algebra_simps)
    moreover have "unat (of_nat n - (a - d)) = n - unat (a - d)"
      using n less by (simp add: unat_diff_mod unat_of_nat_lt)
    ultimately have "unat (s - d) = n - unat (a - d)" by (simp only:)
    with less assms(2) eq show False by (cases "d = s") auto
  qed
  then show "copied (m(d + of_nat n := m (s + of_nat n))) d s n a = copied m d s (Suc n) a"
    using n by (auto simp: copied_def offset_last unat_of_nat_lt)
qed

lemma copy_down_copied:
  "d = s \<or> unat c \<le> unat (s - d) \<Longrightarrow>
   copy_down m (d + c - 1) (s + c - 1) c = copied m d s (unat c)"
proof (induction "unat c" arbitrary: m c)
  case 0
  then show ?case by (simp add: copy_down.simps [of m _ _ 0] unat_eq_zero)
next
  case (Suc n)
  then have "c \<noteq> 0" by auto
  with Suc have c: "c \<noteq> 0" "n = unat (c - 1)" using unat_pred [of c] by auto
  then have last: "c - 1 = of_nat n" by simp
  let ?m = "m(d + c - 1 := m (s + c - 1))"
  have "copy_down m (d + c - 1) (s + c - 1) c = copy_down ?m (d + (c - 1) - 1) (s + (c - 1) - 1) (c - 1)"
    using c(1) by (simp add: copy_down.simps [of m _ _ c] algebra_simps)
  also have "\<dots> = copied ?m d s n"
    using Suc(1)[of "c - 1" ?m] Suc.hyps(2) Suc.prems c(2) by auto
  also have "?m = m(d + of_nat n := m (s + of_nat n))"
    using last by (metis add_diff_eq)
  also have "copied \<dots> d s n = copied m d s (Suc n)"
    using Suc.prems Suc.hyps(2) unsigned_less [of "c - 1"] c(2) by (intro copied_step_down) auto
  also have "\<dots> = copied m d s (unat c)" using Suc.hyps(2) by simp
  finally show ?case .
qed

lemma memset_loop_filled: "memset_loop m d v c = filled m d v (unat c)"
proof (induction m d v c rule: memset_loop.induct)
  case (1 m d v c)
  show ?case
  proof (cases "c = 0")
    case False
    then have c: "unat c = Suc (unat (c - 1))" by (simp add: word_nat unat_gt_0)
    have "memset_loop m d v c = filled (m(d := v)) (d + 1) v (unat (c - 1))"
      using "1.IH" [OF False] False by (subst memset_loop.simps) (simp del: fun_upd_apply)
    also have "\<dots> = filled m d v (unat c)"
      unfolding c using unsigned_less [of "c - 1"] by (intro filled_Suc) simp
    finally show ?thesis .
  qed (simp add: memset_loop.simps [of m d v 0])
qed


lemma memmove_correct:
  assumes "in_space Dest (unat Count)" and "in_space Src (unat Count)"
  shows "memmove m Dest Src Count = (Dest, copied m Dest Src (unat Count))"
proof -
  have "unat Count \<le> unat (Dest - Src)" if "Src > Dest"
    using assms that by (auto simp: in_space_def unat_diff_mod word_less_nat_alt)
  moreover have "unat Count \<le> unat (Src - Dest)" if "Src < Dest"
    using assms that by (auto simp: in_space_def unat_diff_mod word_less_nat_alt)
  ultimately show ?thesis
    using copy_up_copied [of Dest Src Count m] copy_down_copied [of Dest Src Count m]
    by (auto simp: memmove_def)
qed

lemma memcpy_correct:
  assumes "in_space Dest (unat Count)" and "in_space Src (unat Count)"
    and "Dest \<le> Src \<or> unat Src + unat Count \<le> unat Dest"
  shows "memcpy m Dest Src Count = (Dest, copied m Dest Src (unat Count))"
proof -
  have "Dest = Src \<or> unat Count \<le> unat (Dest - Src)"
    using assms by (auto simp: in_space_def unat_diff_mod word_le_nat_alt word_unat_eq_iff)
  then show ?thesis by (simp add: memcpy_def copy_up_copied)
qed

lemma memset_correct: "memset m Dest Value Count = (Dest, filled m Dest (word_of_int Value) (unat Count))"
  by (simp add: memset_def memset_loop_filled)

section \<open>Comparison\<close>

definition bytes :: "mem \<Rightarrow> addr \<Rightarrow> nat \<Rightarrow> u8 list" where
  "bytes m p n = map (\<lambda>i. m (p + of_nat i)) [0..<n]"

lemma bytes_0 [simp]: "bytes m p 0 = []"
  by (simp add: bytes_def)

lemma bytes_Suc: "bytes m p (Suc n) = m p # bytes m (p + 1) n"
  unfolding bytes_def by (simp add: upt_conv_Cons map_Suc_upt [symmetric] algebra_simps del: upt_Suc)

lemma length_bytes [simp]: "length (bytes m p n) = n"
  by (simp add: bytes_def)

text \<open>Three-way comparison of byte strings as the C library defines it.\<close>

fun lex_cmp :: "u8 list \<Rightarrow> u8 list \<Rightarrow> int" where
  "lex_cmp [] [] = 0"
| "lex_cmp [] (d # ds) = - uint d"
| "lex_cmp (c # cs) [] = uint c"
| "lex_cmp (c # cs) (d # ds) = (if c = d then lex_cmp cs ds else uint c - uint d)"

lemma lex_cmp_refl [simp]: "lex_cmp s s = 0"
  by (induction s) auto

lemma lex_cmp_antisym: "lex_cmp s t = - lex_cmp t s"
  by (induction s t rule: lex_cmp.induct) auto

lemma lex_cmp_eq_0: "0 \<notin> set s \<Longrightarrow> 0 \<notin> set t \<Longrightarrow> lex_cmp s t = 0 \<longleftrightarrow> s = t"
  by (induction s t rule: lex_cmp.induct) (auto simp: uint_0_iff simp flip: word_uint_eq_iff)

lemma lex_cmp_eq_0_length: "length s = length t \<Longrightarrow> lex_cmp s t = 0 \<longleftrightarrow> s = t"
  by (induction s t rule: lex_cmp.induct) (auto simp flip: word_uint_eq_iff)

lemma memcmp_unfold:
  "memcmp m p q c = (if c = 0 then 0 else if m p = m q then memcmp m (p + 1) (q + 1) (c - 1)
     else uint (m p) - uint (m q))"
proof -
  have "c - 1 \<noteq> ACPI_SIZE_MAX" if "c \<noteq> 0" using that by (simp add: ACPI_SIZE_MAX_def)
  then show ?thesis
    unfolding memcmp_def by (subst memcmp_loop.simps) (auto simp: ACPI_SIZE_MAX_def)
qed

lemma memcmp_bytes: "memcmp m p q c = lex_cmp (bytes m p (unat c)) (bytes m q (unat c))"
proof (induction "unat c" arbitrary: p q c)
  case 0
  then show ?case by (simp add: memcmp_unfold unat_eq_zero)
next
  case (Suc n)
  then have "c \<noteq> 0" by auto
  with Suc.hyps(2) have "n = unat (c - 1)" using unat_pred [of c] by simp
  with Suc.hyps \<open>c \<noteq> 0\<close> show ?case
    by (subst memcmp_unfold) (simp add: Suc.hyps(2) [symmetric] bytes_Suc)
qed

section \<open>Strings in memory\<close>

lemma copied_1: "copied m d s (Suc 0) = m(d := m s)"
  by (auto simp: copied_def fun_eq_iff unat_eq_zero)

lemma cstr_no_0: "cstr m p s \<Longrightarrow> 0 \<notin> set s"
  by (induction s arbitrary: p) auto

lemma cstr_bytes: "cstr m p s \<longleftrightarrow> bytes m p (Suc (length s)) = s @ [0] \<and> 0 \<notin> set s"
  by (induction s arbitrary: p) (auto simp: bytes_Suc)

lemma bytes_append: "bytes m p (j + k) = bytes m p j @ bytes m (p + of_nat j) k"
  by (induction j arbitrary: p) (auto simp: bytes_Suc algebra_simps)

lemma bytes_take: "k \<le> n \<Longrightarrow> bytes m p k = take k (bytes m p n)"
  by (simp add: bytes_def take_map)

lemma cstr_take: "cstr m p s \<Longrightarrow> k \<le> length s \<Longrightarrow> bytes m p k = take k s"
  using bytes_take [of k "Suc (length s)" m p] by (simp add: cstr_bytes)

lemma bytes_copied:
  "k \<le> n \<Longrightarrow> n \<le> 2 ^ 64 \<Longrightarrow> bytes (copied m d s n) d k = bytes m s k"
  by (auto simp: bytes_def copied_def unat_of_nat_lt)

text \<open>Writes outside a region do not change it; \<open>apart\<close> is the distance condition.\<close>

lemma bytes_upd_outside: "k \<le> unat (a - p) \<Longrightarrow> bytes (m(a := v)) p k = bytes m p k"
  by (auto simp: bytes_def) (metis add_diff_cancel_left' leD le_unat_uoi nat_less_le order_less_le_trans)

lemma cstr_upd_outside: "length s < unat (a - p) \<Longrightarrow> cstr (m(a := v)) p s = cstr m p s"
  by (simp add: cstr_bytes bytes_upd_outside del: bytes_Suc)

lemma strlen_loop_cstr: "cstr m p s \<Longrightarrow> strlen_loop m p k = Some (k + of_nat (length s))"
  by (induction s arbitrary: p k) (subst strlen_loop.simps; simp add: algebra_simps)+

lemma find_end_cstr: "cstr m p s \<Longrightarrow> find_end m p = Some (p + of_nat (length s))"
  by (induction s arbitrary: p) (subst find_end.simps; simp add: algebra_simps)+

text \<open>
  One iteration of a copying loop, for a destination \<open>d\<close> that is the source \<open>s\<close> itself or far
  enough from it: the rest of the string is intact and the rest of the copy completes it.
\<close>

lemma far_step:
  assumes "d = s \<or> Suc (Suc n) \<le> unat (d - s)"
  shows "d + 1 = s + 1 \<or> Suc n \<le> unat (d + 1 - (s + 1))"
    and "d = s \<or> Suc n \<le> unat (d - (s + 1))"
  using assms unat_pred [of "d - s"] by (cases "d = s"; simp add: diff_diff_eq)+

lemma cstr_step:
  assumes "cstr m s (c # cs)" and "d = s \<or> Suc (length (c # cs)) \<le> unat (d - s)"
  shows "cstr (m(d := m s)) (s + 1) cs"
proof (cases "d = s")
  case False
  then have "length cs < unat (d - (s + 1))" using assms far_step(2) [of d s "length cs"] by simp
  with assms(1) show ?thesis by (simp add: cstr_upd_outside del: fun_upd_apply)
qed (use assms in \<open>simp add: fun_upd_idem\<close>)

lemma copied_step:
  assumes "d = s \<or> Suc n \<le> unat (d - s)"
  shows "copied (m(d := m s)) (d + 1) (s + 1) n = copied m d s (Suc n)"
proof (cases "d = s")
  case False
  with assms unat_lt64 [of "d - s"] show ?thesis by (intro copied_step_up) auto
qed (simp add: fun_upd_idem)

lemma strcpy_loop_copied:
  "cstr m s str \<Longrightarrow> d = s \<or> Suc (length str) \<le> unat (d - s) \<Longrightarrow>
   strcpy_loop m d s = Some (copied m d s (Suc (length str)))"
proof (induction str arbitrary: m d s)
  case Nil
  then show ?case by (subst strcpy_loop.simps) (simp add: copied_1)
next
  case (Cons c cs)
  have "strcpy_loop m d s = strcpy_loop (m(d := m s)) (d + 1) (s + 1)"
    using Cons.prems(1) by (subst strcpy_loop.simps) (simp del: fun_upd_apply)
  also have "\<dots> = Some (copied (m(d := m s)) (d + 1) (s + 1) (Suc (length cs)))"
    using far_step(1) Cons.prems(2) by (intro Cons.IH [OF cstr_step [OF Cons.prems]]) simp
  also have "\<dots> = Some (copied m d s (Suc (length (c # cs))))"
    using Cons.prems(2) copied_step by simp
  finally show ?case .
qed

lemma strlen_correct: "cstr m p s \<Longrightarrow> strlen m p = Some (ucast (of_nat (length s) :: u32))"
  by (simp add: strlen_def strlen_loop_cstr)

lemma strlen_exact: "cstr m p s \<Longrightarrow> length s < 2 ^ 32 \<Longrightarrow> strlen m p = Some (of_nat (length s))"
  by (simp add: strlen_correct word_unat_eq_iff unat_of_nat_lt unsigned_ucast_eq take_bit_nat_eq_self)

lemma strcmp_correct: "cstr m p s \<Longrightarrow> cstr m q t \<Longrightarrow> strcmp m p q = Some (lex_cmp s t)"
  by (induction s t arbitrary: p q rule: lex_cmp.induct) (subst strcmp.simps; auto)+

lemma strncmp_correct:
  "cstr m p s \<Longrightarrow> cstr m q t \<Longrightarrow> strncmp m p q c = lex_cmp (take (unat c) s) (take (unat c) t)"
proof (induction s t arbitrary: p q c rule: lex_cmp.induct)
  case (4 x s y t)
  show ?case
  proof (cases "c = 0")
    case False
    then have "unat c = Suc (unat (c - 1))" by (simp add: word_nat unat_gt_0)
    with 4 False show ?thesis by (subst strncmp.simps) (auto simp: ACPI_SIZE_MAX_def)
  qed (subst strncmp.simps; simp add: ACPI_SIZE_MAX_def)
qed (subst strncmp.simps; auto simp: ACPI_SIZE_MAX_def take_Cons' unat_eq_zero)+

lemma strchr_loop_cstr:
  "cstr m p s \<Longrightarrow> strchr_loop m p ch =
     Some (if ch \<in> set s then p + of_nat (length (takeWhile (\<lambda>c. c \<noteq> ch) s)) else 0)"
  by (induction s arbitrary: p) (subst strchr_loop.simps; auto simp: algebra_simps)+

lemma is_delimiter_cstr: "cstr m q ds \<Longrightarrow> is_delimiter m c q = Some (c \<in> set ds)"
  by (induction ds arbitrary: q) (subst is_delimiter.simps; auto)+

lemma strpbrk_cstr:
  "cstr m p s \<Longrightarrow> cstr m q ds \<Longrightarrow> strpbrk m p q =
     Some (if set s \<inter> set ds = {} then 0 else p + of_nat (length (takeWhile (\<lambda>c. c \<notin> set ds) s)))"
  by (induction s arbitrary: p) (subst strpbrk.simps; auto simp: is_delimiter_cstr algebra_simps)+

lemma cstr_copied: "cstr m s str \<Longrightarrow> length str < 2 ^ 64 \<Longrightarrow> cstr (copied m d s (Suc (length str))) d str"
  by (simp add: cstr_bytes bytes_copied)

text \<open>Two regions, given by start and size, that do not overlap.\<close>

definition disjoint :: "addr \<Rightarrow> nat \<Rightarrow> addr \<Rightarrow> nat \<Rightarrow> bool" where
  "disjoint p n q k \<longleftrightarrow> unat p + n \<le> unat q \<or> unat q + k \<le> unat p"

lemma disjoint_far:
  assumes "disjoint d n s k" and "in_space s k" "in_space d n" and "i + k \<le> n" "0 < k"
  shows "k \<le> unat (d + of_nat i - s)"
proof -
  have "unat (d + of_nat i) = unat d + i"
    using assms by (intro unat_plus_nat) (auto simp: in_space_def)
  with assms show ?thesis
    by (auto simp: disjoint_def in_space_def unat_diff_mod [of "d + of_nat i"])
qed

lemma strcpy_correct:
  assumes "cstr m s str" and "in_space d (Suc (length str))" and "in_space s (Suc (length str))"
    and "disjoint d (Suc (length str)) s (Suc (length str))"
  shows "strcpy m d s = Some (d, copied m d s (Suc (length str)))"
  using assms disjoint_far [of d "Suc (length str)" s "Suc (length str)" 0]
  by (simp add: strcpy_def strcpy_loop_copied)

lemma unat_offset_before:
  "x < j \<Longrightarrow> j < 2 ^ 64 \<Longrightarrow> unat (d + of_nat x - (d + of_nat j)) = 2 ^ 64 + x - j"
  for d :: addr
  by (simp add: unat_diff_mod [of "of_nat x"] unat_of_nat_lt)

lemma bytes_copied_before:
  assumes "j + n \<le> 2 ^ 64"
  shows "bytes (copied m (d + of_nat j) s n) d j = bytes m d j"
proof (cases "j < 2 ^ 64")
  case True
  have "\<not> unat (d + of_nat x - (d + of_nat j)) < n" if "x < j" for x
    using that assms True by (simp only: unat_offset_before)
  then show ?thesis by (auto simp: bytes_def copied_def simp del: add_diff_cancel_left)
next
  case False
  with assms have "n = 0" by simp
  then show ?thesis by simp
qed

lemma strcat_correct:
  assumes x: "cstr m d x" and y: "cstr m s y"
    and "in_space d (length x + Suc (length y))" and "in_space s (Suc (length y))"
    and "disjoint d (length x + Suc (length y)) s (Suc (length y))"
  shows "strcat m d s = Some (d, copied m (d + of_nat (length x)) s (Suc (length y)))"
    and "cstr (copied m (d + of_nat (length x)) s (Suc (length y))) d (x @ y)"
proof -
  let ?d = "d + of_nat (length x)" and ?n = "Suc (length y)"
  have "?n \<le> unat (?d - s)" using assms by (intro disjoint_far) auto
  then show "strcat m d s = Some (d, copied m ?d s ?n)"
    using x y by (simp add: strcat_def find_end_cstr strcpy_loop_copied)
  have "bytes (copied m ?d s ?n) d (length x) = x"
    using assms cstr_take [OF x, of "length x"] by (subst bytes_copied_before) (auto simp: in_space_def)
  moreover have "bytes (copied m ?d s ?n) ?d ?n = y @ [0]"
    using assms y by (subst bytes_copied) (auto simp: in_space_def cstr_bytes)
  ultimately show "cstr (copied m ?d s ?n) d (x @ y)"
    using x y bytes_append [of "copied m ?d s ?n" d "length x" ?n] by (simp add: cstr_bytes)
qed

section \<open>Counted string routines\<close>

lemma strncpy_copy_copied:
  "cstr m s str \<Longrightarrow> d = s \<or> Suc (length str) \<le> unat (d - s) \<Longrightarrow>
   strncpy_copy m d s c =
     (let k = min (unat c) (Suc (length str)) in (copied m d s k, d + of_nat k, c - of_nat k))"
proof (induction str arbitrary: m d s c)
  case Nil
  show ?case
  proof (cases "c = 0")
    case False
    then have "0 < unat c" by (simp add: unat_gt_0)
    then have "min (unat c) (Suc 0) = Suc 0" by simp
    with Nil False show ?thesis by (subst strncpy_copy.simps) (simp add: copied_1)
  qed (subst strncpy_copy.simps; simp)
next
  case (Cons b bs)
  show ?case
  proof (cases "c = 0")
    case False
    let ?m = "m(d := m s)" and ?k = "min (unat (c - 1)) (Suc (length bs))"
    have c: "unat c = Suc (unat (c - 1))" using False by (simp add: word_nat unat_gt_0)
    have k: "min (unat c) (Suc (length (b # bs))) = Suc ?k" by (simp add: c)
    have "strncpy_copy m d s c = strncpy_copy ?m (d + 1) (s + 1) (c - 1)"
      using Cons.prems(1) False by (subst strncpy_copy.simps) (simp del: fun_upd_apply)
    also have "\<dots> = (copied ?m (d + 1) (s + 1) ?k, d + 1 + of_nat ?k, c - 1 - of_nat ?k)"
      using far_step(1) Cons.prems(2)
      by (subst Cons.IH [OF cstr_step [OF Cons.prems]]) (simp_all only: Let_def, simp)
    also have "copied ?m (d + 1) (s + 1) ?k = copied m d s (Suc ?k)"
      using Cons.prems(2) by (intro copied_step) auto
    finally show ?thesis unfolding k by (simp add: algebra_simps)
  qed (subst strncpy_copy.simps; simp)
qed

lemma bytes_filled:
  assumes "j + n \<le> 2 ^ 64"
  shows "bytes (filled m (d + of_nat j) v n) d (j + n) = bytes m d j @ replicate n v"
proof -
  let ?f = "filled m (d + of_nat j) v n"
  have "?f (d + of_nat x) = m (d + of_nat x)" if "x < j" for x
  proof (cases "n = 0")
    case False
    then have "\<not> unat (d + of_nat x - (d + of_nat j)) < n"
      using that assms by (simp only: unat_offset_before)
    then show ?thesis by (simp add: filled_def)
  qed simp
  then have "bytes ?f d j = bytes m d j" by (simp add: bytes_def)
  moreover have "bytes ?f (d + of_nat j) n = replicate n v"
    using assms by (auto simp: bytes_def filled_def unat_of_nat_lt intro!: nth_equalityI)
  ultimately show ?thesis by (simp add: bytes_append)
qed

lemma strncpy_correct:
  assumes str: "cstr m s str" and far: "d = s \<or> Suc (length str) \<le> unat (d - s)"
  shows "\<exists>m'. strncpy m d s c = (d, m')
           \<and> bytes m' d (unat c) = take (unat c) (str @ replicate (unat c) 0)"
proof -
  let ?k = "min (unat c) (Suc (length str))"
  let ?m = "copied m d s ?k"
  let ?m' = "filled ?m (d + of_nat ?k) 0 (unat c - ?k)"
  have "unat (of_nat ?k :: u64) = ?k" using unat_lt64 [of c] by (intro unat_of_nat_lt) auto
  then have rest: "unat (c - of_nat ?k) = unat c - ?k"
    by (simp add: unat_sub word_le_nat_alt)
  have "strncpy m d s c = (d, ?m')"
    using strncpy_copy_copied [OF str far, of c] rest
    by (simp add: strncpy_def memset_loop_filled Let_def)
  moreover have "bytes ?m d ?k = take ?k (str @ [0])"
    using str bytes_take [of ?k "Suc (length str)" m s] unat_lt64 [of c]
    by (subst bytes_copied) (auto simp: cstr_bytes)
  moreover have "bytes ?m' d (?k + (unat c - ?k)) = bytes ?m d ?k @ replicate (unat c - ?k) 0"
    using unat_lt64 [of c] by (intro bytes_filled) auto
  moreover have "take ?k (str @ [0]) @ replicate (unat c - ?k) 0
      = take (unat c) (str @ replicate (unat c) 0)"
    by (auto simp: min_def take_Cons' not_le replicate_append_same intro!: nth_equalityI simp: nth_append nth_Cons')
  ultimately show ?thesis by auto
qed

lemma strncat_copy_copied:
  "cstr m s str \<Longrightarrow> d = s \<or> Suc (length str) \<le> unat (d - s) \<Longrightarrow> c \<noteq> 0 \<Longrightarrow>
   strncat_copy m d s c =
     (if length str < unat c
      then (copied m d s (Suc (length str)), d + of_nat (Suc (length str)), c - of_nat (length str))
      else (copied m d s (unat c), d + c, 0))"
proof (induction str arbitrary: m d s c)
  case Nil
  then have "0 < unat c" by (simp add: unat_gt_0)
  with Nil show ?case by (subst strncat_copy.simps) (simp add: copied_1 Let_def)
next
  case (Cons b bs)
  let ?m = "m(d := m s)"
  have c: "unat c = Suc (unat (c - 1))" using Cons.prems(3) by (simp add: word_nat unat_gt_0)
  show ?case
  proof (cases "c - 1 = 0")
    case True
    then show ?thesis
      using Cons.prems(1) c
      by (subst strncat_copy.simps) (simp add: Let_def copied_1)
  next
    case False
    have "strncat_copy m d s c = strncat_copy ?m (d + 1) (s + 1) (c - 1)"
      using Cons.prems(1) False by (subst strncat_copy.simps) (simp add: Let_def del: fun_upd_apply)
    also have "\<dots> = (if length bs < unat (c - 1)
        then (copied ?m (d + 1) (s + 1) (Suc (length bs)), d + 1 + of_nat (Suc (length bs)),
              c - 1 - of_nat (length bs))
        else (copied ?m (d + 1) (s + 1) (unat (c - 1)), d + 1 + (c - 1), 0))"
      using far_step(1) Cons.prems(2) False
      by (intro Cons.IH [OF cstr_step [OF Cons.prems(1,2)]]) simp_all
    also have "\<dots> = (if length (b # bs) < unat c
        then (copied m d s (Suc (length (b # bs))), d + of_nat (Suc (length (b # bs))),
              c - of_nat (length (b # bs)))
        else (copied m d s (unat c), d + c, 0))"
      using Cons.prems(2) c copied_step [of d s "Suc (length bs)"] copied_step [of d s "unat (c - 1)"]
      by (auto simp del: fun_upd_apply)
    finally show ?thesis .
  qed
qed

text \<open>After \<open>strncat\<close> the destination holds the concatenation with at most \<open>Count\<close> bytes of the source.\<close>

lemma bytes_upd_at_end:
  "j < 2 ^ 64 \<Longrightarrow> bytes (m(d + of_nat j := v)) d (Suc j) = bytes m d j @ [v]"
  using bytes_append [of "m(d + of_nat j := v)" d j 1]
  by (simp add: bytes_Suc bytes_upd_outside unat_of_nat_lt)

lemma strncat_correct:
  assumes x: "cstr m d x" and y: "cstr m s y" and "Count \<noteq> 0"
    and "in_space d (length x + Suc (length y))" and "in_space s (Suc (length y))"
    and "disjoint d (length x + Suc (length y)) s (Suc (length y))"
  shows "\<exists>m'. strncat m d s Count = Some (d, m') \<and> cstr m' d (x @ take (unat Count) y)"
proof -
  let ?d = "d + of_nat (length x)" and ?n = "Suc (length y)"
  have far: "?d = s \<or> ?n \<le> unat (?d - s)" using assms by (intro disjI2 disjoint_far) auto
  show ?thesis
  proof (cases "length y < unat Count")
    case True
    then have "Count - of_nat (length y) \<noteq> 0"
      using unat_lt64 [of Count] unat_of_nat_lt [of "length y", where ?'a = 64] by auto
    then have "strncat m d s Count = Some (d, copied m ?d s ?n)"
      using strncat_copy_copied [OF y far \<open>Count \<noteq> 0\<close>] True x \<open>Count \<noteq> 0\<close>
      by (simp add: strncat_def find_end_cstr)
    moreover have "cstr (copied m ?d s ?n) d (x @ y)"
      by (rule strcat_correct(2)) (use assms in auto)
    ultimately show ?thesis using True by auto
  next
    case False
    let ?c = "copied m ?d s (unat Count)" and ?j = "length x + unat Count"
    let ?m = "?c(d + of_nat ?j := 0)"
    have j: "?j < 2 ^ 64" using False assms(4) by (simp add: in_space_def)
    have "bytes ?c d (length x) = x"
      using j cstr_take [OF x, of "length x"] by (subst bytes_copied_before) auto
    moreover have "bytes ?c ?d (unat Count) = take (unat Count) y"
      using False unat_lt64 [of Count] cstr_take [OF y, of "unat Count"] by (subst bytes_copied) auto
    ultimately have "bytes ?m d (Suc ?j) = (x @ take (unat Count) y) @ [0]"
      using bytes_upd_at_end [OF j, of ?c d 0] bytes_append [of ?c d "length x" "unat Count"]
      by (simp del: fun_upd_apply)
    then have "cstr ?m d (x @ take (unat Count) y)"
      using False cstr_no_0 [OF x] cstr_no_0 [OF y] by (auto simp: cstr_bytes min_def dest: in_set_takeD)
    moreover have "strncat m d s Count = Some (d, ?m)"
      using strncat_copy_copied [OF y far \<open>Count \<noteq> 0\<close>] False x \<open>Count \<noteq> 0\<close>
      by (simp add: strncat_def find_end_cstr algebra_simps)
    ultimately show ?thesis by blast
  qed
qed

text \<open>The index of the first occurrence of one string in another.\<close>

fun find_sub :: "u8 list \<Rightarrow> u8 list \<Rightarrow> nat option" where
  "find_sub t s = (if take (length t) s = t then Some 0
     else case s of [] \<Rightarrow> None | _ # s' \<Rightarrow> map_option Suc (find_sub t s'))"

declare find_sub.simps [simp del]

lemma find_sub_None: "find_sub t s = None \<longleftrightarrow> (\<forall>k. take (length t) (drop k s) \<noteq> t)"
proof (induction t s rule: find_sub.induct)
  case (1 t s)
  show ?case
  proof (cases s)
    case Nil
    then show ?thesis by (subst find_sub.simps) auto
  next
    case (Cons a s')
    show ?thesis
    proof (cases "take (length t) s = t")
      case True
      then show ?thesis by (subst find_sub.simps) (auto intro!: exI [of _ 0])
    next
      case False
      have "(\<forall>k. take (length t) (drop k s) \<noteq> t) \<longleftrightarrow> (\<forall>k. take (length t) (drop k s') \<noteq> t)"
        using False Cons by (metis drop0 drop_Suc_Cons old.nat.exhaust)
      with False Cons 1 show ?thesis by (subst find_sub.simps) auto
    qed
  qed
qed

lemma find_sub_Some:
  "find_sub t s = Some k \<longleftrightarrow> take (length t) (drop k s) = t \<and> k \<le> length s
     \<and> (\<forall>j < k. take (length t) (drop j s) \<noteq> t)"
proof (induction s arbitrary: k)
  case Nil
  then show ?case by (subst find_sub.simps) auto
next
  case (Cons a s)
  show ?case
  proof (cases "take (length t) (a # s) = t")
    case True
    then show ?thesis by (subst find_sub.simps) (auto intro: gr0I)
  next
    case False
    with Cons show ?thesis by (subst find_sub.simps) (cases k; auto simp: less_Suc_eq_0_disj)
  qed
qed

lemma strstr_loop_cstr:
  assumes t: "cstr m q t" "t \<noteq> []" and L: "length t < 2 ^ 32"
  shows "cstr m p s \<Longrightarrow> length s < 2 ^ 32 \<Longrightarrow>
    strstr_loop m p q (of_nat (length t)) =
      Some (case find_sub t s of None \<Rightarrow> 0 | Some k \<Rightarrow> p + of_nat k)"
proof (induction s arbitrary: p)
  case Nil
  then show ?case
    using t L by (subst strstr_loop.simps)
      (auto simp: strlen_exact [OF Nil(1)] find_sub.simps [of t] word_le_nat_alt unat_of_nat_lt)
next
  case (Cons a s)
  have len: "(of_nat (length t) \<le> (of_nat (length (a # s)) :: u64)) = (length t \<le> length (a # s))"
    using L Cons.prems by (simp only: word_le_nat_alt unat_of_nat_lt) (simp add: unat_of_nat_lt del: of_nat_Suc)
  have eq: "memcmp m p q (of_nat (length t)) = 0 \<longleftrightarrow> take (length t) (a # s) = t"
    if "length t \<le> length (a # s)"
  proof -
    have "bytes m p (length t) = take (length t) (a # s)" "bytes m q (length t) = t"
      using that cstr_take [OF Cons.prems(1)] cstr_take [OF t(1)] by auto
    then show ?thesis
      using L that by (simp add: memcmp_bytes unat_of_nat_lt lex_cmp_eq_0_length del: take_Cons_numeral)
  qed
  have IH: "strstr_loop m (p + 1) q (of_nat (length t)) =
      Some (case find_sub t s of None \<Rightarrow> 0 | Some k \<Rightarrow> p + 1 + of_nat k)"
    using Cons.IH [of "p + 1"] Cons.prems by auto
  show ?case
  proof (cases "length t \<le> length (a # s)")
    case True
    then show ?thesis
      using IH eq len strlen_exact [OF Cons.prems] by (subst strstr_loop.simps)
        (auto simp: find_sub.simps [of t "a # s"] algebra_simps split: option.split)
  next
    case False
    then have "find_sub t (a # s) = None" by (auto simp: find_sub_None dest!: arg_cong [where f = length])
    with False show ?thesis
      using len strlen_exact [OF Cons.prems] by (subst strstr_loop.simps) auto
  qed
qed

text \<open>\<open>strstr\<close> returns the first occurrence of the second string, \<open>NULL\<close> when there is none.\<close>

lemma strstr_correct:
  assumes "cstr m p s" and "cstr m q t" and "length s < 2 ^ 32" and "length t < 2 ^ 32"
  shows "strstr m p q = Some (case find_sub t s of None \<Rightarrow> 0 | Some k \<Rightarrow> p + of_nat k)"
proof (cases "t = []")
  case True
  then show ?thesis using strlen_exact [OF assms(2,4)] by (simp add: strstr_def find_sub.simps)
next
  case False
  then have "(of_nat (length t) :: u64) \<noteq> 0"
    using assms(4) unat_of_nat_lt [of "length t", where ?'a = 64] by auto
  then show ?thesis
    using strstr_loop_cstr [OF assms(2) False assms(4,1,3)] strlen_exact [OF assms(2,4)]
    by (simp add: strstr_def)
qed

section \<open>Tokens\<close>

lemma takeWhile_no_delim: "set tok \<inter> set ds = {} \<Longrightarrow> d \<in> set ds \<Longrightarrow>
  takeWhile (\<lambda>c. c \<notin> set ds) (tok @ d # rest) = tok"
  by (induction tok) auto

lemma strpbrk_first:
  assumes "cstr m p (tok @ d # rest)" and "cstr m q ds"
    and "set tok \<inter> set ds = {}" and "d \<in> set ds"
  shows "strpbrk m p q = Some (p + of_nat (length tok))"
  using assms by (auto simp: strpbrk_cstr takeWhile_no_delim)

lemma strtok_skip_done: "SavedPtr \<noteq> Begin \<Longrightarrow> strtok_skip m Begin SavedPtr q = Some (m, Begin, SavedPtr)"
  by (subst strtok_skip.simps) simp

lemma strtok_token:
  assumes str: "cstr m p (tok @ d # rest)" and q: "cstr m q ds"
    and "set tok \<inter> set ds = {}" and "d \<in> set ds" and "tok \<noteq> []"
    and "p \<noteq> 0" and "unat p + length tok < 2 ^ 64"
  shows "strtok m saved p q
    = Some (p, m(p + of_nat (length tok) := 0), p + of_nat (length tok) + 1)"
proof -
  let ?s = "p + of_nat (length tok)"
  have s: "unat ?s = unat p + length tok" using assms(7) by (rule unat_plus_nat)
  have "?s \<noteq> p" using s \<open>tok \<noteq> []\<close> by auto
  moreover have "?s \<noteq> 0" using s \<open>p \<noteq> 0\<close> by (metis add_is_0 unat_0 unat_eq_zero)
  ultimately show ?thesis
    using assms(6) strpbrk_first [OF assms(1-4)] by (simp add: strtok_def strtok_skip_done)
qed

lemma strtok_no_delimiter:
  assumes "cstr m p s" and "cstr m q ds" and "set s \<inter> set ds = {}" and "p \<noteq> 0"
  shows "strtok m saved p q = Some (0, m, 0)"
  using assms by (simp add: strtok_def strpbrk_cstr strtok_skip_done)

section \<open>Properties\<close>

text \<open>
  C23. \<open>memmove\<close> leaves in memory the copy of the original source bytes and changes nothing
  else, also where the two regions overlap in either direction; it returns the destination.
\<close>

theorem memmove_overlap_safe:
  assumes "in_space Dest (unat Count)" and "in_space Src (unat Count)"
  shows "memmove m Dest Src Count =
    (Dest, \<lambda>a. if unat (a - Dest) < unat Count then m (Src + (a - Dest)) else m a)"
  using memmove_correct [OF assms] by (simp add: copied_def)

theorem memmove_overlap_safe_witness:
  "snd (memmove (mem_of 0x1000 [1, 2, 3, 4, 0]) 0x1001 0x1000 4) 0x1004 = 4
   \<and> snd (memmove (mem_of 0x1000 [1, 2, 3, 4, 0]) 0x1000 0x1001 3) 0x1000 = 2"
  using memmove_overlap_safe [where Dest = "0x1001" and Src = "0x1000" and Count = 4
      and m = "mem_of 0x1000 [1, 2, 3, 4, 0]"]
    memmove_overlap_safe [where Dest = "0x1000" and Src = "0x1001" and Count = 3
      and m = "mem_of 0x1000 [1, 2, 3, 4, 0]"]
  by (simp add: in_space_def mem_of_def)

text \<open>
  On two null-terminated strings \<open>strcmp\<close> and \<open>strncmp\<close> return, and the result is the
  lexicographic comparison of the strings (of their first \<open>Count\<close> bytes); \<open>strcmp\<close> gives 0
  exactly on equal strings and its sign flips when the arguments are exchanged.
\<close>

theorem strcmp_lexicographic:
  assumes "cstr m p s" and "cstr m q t"
  shows "strcmp m p q = Some (lex_cmp s t)
    \<and> strncmp m p q c = lex_cmp (take (unat c) s) (take (unat c) t)
    \<and> (strcmp m p q = Some 0 \<longleftrightarrow> s = t)
    \<and> strcmp m q p = Some (- lex_cmp s t)"
  using assms strcmp_correct [OF assms] strcmp_correct [OF assms(2,1)] strncmp_correct [OF assms]
    lex_cmp_eq_0 [of s t] lex_cmp_antisym [of t s] by (simp add: cstr_no_0)

theorem strcmp_lexicographic_witness:
  "strcmp (mem_of 0x1000 [65, 66, 0, 65, 67, 0]) 0x1000 0x1003 = Some (- 1)
   \<and> strncmp (mem_of 0x1000 [65, 66, 0, 65, 67, 0]) 0x1000 0x1003 1 = 0"
  using strcmp_lexicographic [where m = "mem_of 0x1000 [65, 66, 0, 65, 67, 0]" and p = "0x1000"
      and s = "[65, 66]" and q = "0x1003" and t = "[65, 67]" and c = 1]
  by (simp add: mem_of_def)

text \<open>
  \<open>strncpy\<close> from a string that the destination does not overlap fills exactly \<open>Count\<close> bytes:
  the string cut at \<open>Count\<close> and padded with nulls (so the result has no terminator when the
  string is \<open>Count\<close> bytes long or longer).
\<close>

theorem strncpy_cuts_and_pads:
  assumes "cstr m s str" and "Suc (length str) \<le> unat (d - s)"
  shows "\<exists>m'. strncpy m d s c = (d, m')
           \<and> bytes m' d (unat c) = take (unat c) (str @ replicate (unat c) 0)"
  using assms by (intro strncpy_correct) auto

lemma replicate_4: "replicate 4 x = [x, x, x, x]"
  by (simp add: numeral_eq_Suc)

theorem strncpy_cuts_and_pads_witness:
  "\<exists>m'. strncpy (mem_of 0x1000 [65, 66, 0, 1, 1, 1, 1]) 0x1003 0x1000 4 = (0x1003, m')
     \<and> bytes m' 0x1003 4 = [65, 66, 0, 0]"
  using strncpy_cuts_and_pads [where m = "mem_of 0x1000 [65, 66, 0, 1, 1, 1, 1]" and s = "0x1000"
      and str = "[65, 66]" and d = "0x1003" and c = 4]
  by (simp add: mem_of_def replicate_4)

text \<open>
  \<open>strncat\<close> terminates and leaves at the destination the null-terminated concatenation of
  the old string with at most \<open>Count\<close> bytes of the source, when the two buffers do not overlap.
\<close>

theorem strncat_appends:
  assumes "cstr m d x" and "cstr m s y" and "Count \<noteq> 0"
    and "in_space d (length x + Suc (length y))" and "in_space s (Suc (length y))"
    and "disjoint d (length x + Suc (length y)) s (Suc (length y))"
  shows "\<exists>m'. strncat m d s Count = Some (d, m') \<and> cstr m' d (x @ take (unat Count) y)"
  using assms by (rule strncat_correct)

theorem strncat_appends_witness:
  "\<exists>m'. strncat (mem_of 0x1000 [65, 0, 0, 0, 66, 67, 0]) 0x1000 0x1004 1 = Some (0x1000, m')
     \<and> cstr m' 0x1000 [65, 66]"
  using strncat_appends [where m = "mem_of 0x1000 [65, 0, 0, 0, 66, 67, 0]" and d = "0x1000"
      and x = "[65]" and s = "0x1004" and y = "[66, 67]" and Count = 1]
  by (simp add: mem_of_def in_space_def disjoint_def)

text \<open>
  \<open>strstr\<close> terminates on null-terminated strings shorter than \<open>2 ^ 32\<close> bytes and returns the
  address of the first occurrence of the second string in the first one, and \<open>NULL\<close> exactly
  when there is no occurrence.
\<close>

theorem strstr_first_occurrence:
  assumes "cstr m p s" and "cstr m q t" and "length s < 2 ^ 32" and "length t < 2 ^ 32"
  shows "(\<forall>k. take (length t) (drop k s) \<noteq> t) \<and> strstr m p q = Some 0
    \<or> (\<exists>k \<le> length s. take (length t) (drop k s) = t \<and> (\<forall>j < k. take (length t) (drop j s) \<noteq> t)
        \<and> strstr m p q = Some (p + of_nat k))"
proof (cases "find_sub t s")
  case None
  then have "\<forall>k. take (length t) (drop k s) \<noteq> t" by (simp add: find_sub_None)
  with None show ?thesis using strstr_correct [OF assms] by simp
next
  case (Some k)
  then have "strstr m p q = Some (p + of_nat k)" using strstr_correct [OF assms] by simp
  with find_sub_Some [THEN iffD1, OF Some] show ?thesis by blast
qed

theorem strstr_first_occurrence_witness:
  "strstr (mem_of 0x1000 [65, 66, 0, 66, 0]) 0x1000 0x1003 = Some 0x1001"
proof -
  let ?m = "mem_of 0x1000 [65, 66, 0, 66, 0]"
  have "cstr ?m 0x1000 [65, 66]" "cstr ?m 0x1003 [66]" by (simp_all add: mem_of_def)
  note spec = strstr_first_occurrence [OF this, simplified]
  have hit: "take (Suc 0) (drop 1 [65, 66]) = [66 :: u8]" by simp
  with spec obtain k where "strstr ?m 0x1000 0x1003 = Some (0x1000 + of_nat k)"
    and k: "take (Suc 0) (drop k [65, 66]) = [66 :: u8]" "\<not> 1 < k"
    by blast
  moreover from k have "k = 1" by (cases k) auto
  ultimately show ?thesis by simp
qed

text \<open>
  \<open>strtok\<close> loses the last token: on a string with no delimiter left it returns \<open>NULL\<close>
  (and a null saved pointer) instead of the remaining token, although the tokens that are
  followed by a delimiter are returned and terminated in place.
\<close>

theorem strtok_loses_last_token:
  assumes "cstr m q ds" and "p \<noteq> 0"
  shows "(cstr m p s \<longrightarrow> set s \<inter> set ds = {} \<longrightarrow> strtok m saved p q = Some (0, m, 0))
    \<and> (cstr m p (tok @ d # rest) \<longrightarrow> set tok \<inter> set ds = {} \<longrightarrow> d \<in> set ds \<longrightarrow> tok \<noteq> []
        \<longrightarrow> unat p + length tok < 2 ^ 64
        \<longrightarrow> strtok m saved p q = Some (p, m(p + of_nat (length tok) := 0), p + of_nat (length tok) + 1))"
  using assms strtok_no_delimiter strtok_token by blast

theorem strtok_loses_last_token_witness:
  "strtok (mem_of 0x1000 [65, 66, 0, 44, 0]) 0 0x1000 0x1003 = Some (0, mem_of 0x1000 [65, 66, 0, 44, 0], 0)"
  using strtok_loses_last_token [where m = "mem_of 0x1000 [65, 66, 0, 44, 0]" and q = "0x1003"
      and ds = "[44]" and p = "0x1000" and s = "[65, 66]" and saved = 0]
  by (simp add: mem_of_def)

end
