(* ===== verification/Ctype.thy ===== *)
theory Ctype
  imports Prelude
begin

text \<open>
  Character classification of \<^verbatim>\<open>utclib.c\<close>: the \<open>AcpiGbl_Ctypes\<close> table, the \<open>is*\<close> macros of
  \<^verbatim>\<open>include/acclib.h\<close> over it, \<open>toupper\<close> and \<open>tolower\<close>. A C \<open>int\<close> argument is an integer; the
  macros index the table with its low byte, as the \<open>(unsigned char)\<close> cast does.
\<close>

definition ACPI_XS :: u8 where "ACPI_XS = 0x40"
definition ACPI_CN :: u8 where "ACPI_CN = 0x20"
definition ACPI_DI :: u8 where "ACPI_DI = 0x04"
definition ACPI_LO :: u8 where "ACPI_LO = 0x02"
definition ACPI_PU :: u8 where "ACPI_PU = 0x10"
definition ACPI_SP :: u8 where "ACPI_SP = 0x08"
definition ACPI_UP :: u8 where "ACPI_UP = 0x01"
definition ACPI_XD :: u8 where "ACPI_XD = 0x80"

lemmas ctype_bits = ACPI_XS_def ACPI_CN_def ACPI_DI_def ACPI_LO_def ACPI_PU_def ACPI_SP_def
  ACPI_UP_def ACPI_XD_def

definition AcpiGbl_Ctypes :: "u8 list" where
  "AcpiGbl_Ctypes =
    [
      ACPI_CN, ACPI_CN, ACPI_CN, ACPI_CN, ACPI_CN, ACPI_CN, ACPI_CN, ACPI_CN,
      ACPI_CN, ACPI_CN OR ACPI_SP, ACPI_CN OR ACPI_SP, ACPI_CN OR ACPI_SP, ACPI_CN OR ACPI_SP, ACPI_CN OR ACPI_SP, ACPI_CN, ACPI_CN,
      ACPI_CN, ACPI_CN, ACPI_CN, ACPI_CN, ACPI_CN, ACPI_CN, ACPI_CN, ACPI_CN,
      ACPI_CN, ACPI_CN, ACPI_CN, ACPI_CN, ACPI_CN, ACPI_CN, ACPI_CN, ACPI_CN,
      ACPI_XS OR ACPI_SP, ACPI_PU, ACPI_PU, ACPI_PU, ACPI_PU, ACPI_PU, ACPI_PU, ACPI_PU,
      ACPI_PU, ACPI_PU, ACPI_PU, ACPI_PU, ACPI_PU, ACPI_PU, ACPI_PU, ACPI_PU,
      ACPI_XD OR ACPI_DI, ACPI_XD OR ACPI_DI, ACPI_XD OR ACPI_DI, ACPI_XD OR ACPI_DI, ACPI_XD OR ACPI_DI, ACPI_XD OR ACPI_DI, ACPI_XD OR ACPI_DI, ACPI_XD OR ACPI_DI,
      ACPI_XD OR ACPI_DI, ACPI_XD OR ACPI_DI, ACPI_PU, ACPI_PU, ACPI_PU, ACPI_PU, ACPI_PU, ACPI_PU,
      ACPI_PU, ACPI_XD OR ACPI_UP, ACPI_XD OR ACPI_UP, ACPI_XD OR ACPI_UP, ACPI_XD OR ACPI_UP, ACPI_XD OR ACPI_UP, ACPI_XD OR ACPI_UP, ACPI_UP,
      ACPI_UP, ACPI_UP, ACPI_UP, ACPI_UP, ACPI_UP, ACPI_UP, ACPI_UP, ACPI_UP,
      ACPI_UP, ACPI_UP, ACPI_UP, ACPI_UP, ACPI_UP, ACPI_UP, ACPI_UP, ACPI_UP,
      ACPI_UP, ACPI_UP, ACPI_UP, ACPI_PU, ACPI_PU, ACPI_PU, ACPI_PU, ACPI_PU,
      ACPI_PU, ACPI_XD OR ACPI_LO, ACPI_XD OR ACPI_LO, ACPI_XD OR ACPI_LO, ACPI_XD OR ACPI_LO, ACPI_XD OR ACPI_LO, ACPI_XD OR ACPI_LO, ACPI_LO,
      ACPI_LO, ACPI_LO, ACPI_LO, ACPI_LO, ACPI_LO, ACPI_LO, ACPI_LO, ACPI_LO,
      ACPI_LO, ACPI_LO, ACPI_LO, ACPI_LO, ACPI_LO, ACPI_LO, ACPI_LO, ACPI_LO,
      ACPI_LO, ACPI_LO, ACPI_LO, ACPI_PU, ACPI_PU, ACPI_PU, ACPI_PU, ACPI_CN,
      0, 0, 0, 0, 0, 0, 0, 0, 0, 0, 0, 0, 0, 0, 0, 0,
      0, 0, 0, 0, 0, 0, 0, 0, 0, 0, 0, 0, 0, 0, 0, 0,
      0, 0, 0, 0, 0, 0, 0, 0, 0, 0, 0, 0, 0, 0, 0, 0,
      0, 0, 0, 0, 0, 0, 0, 0, 0, 0, 0, 0, 0, 0, 0, 0,
      0, 0, 0, 0, 0, 0, 0, 0, 0, 0, 0, 0, 0, 0, 0, 0,
      0, 0, 0, 0, 0, 0, 0, 0, 0, 0, 0, 0, 0, 0, 0, 0,
      0, 0, 0, 0, 0, 0, 0, 0, 0, 0, 0, 0, 0, 0, 0, 0,
      0, 0, 0, 0, 0, 0, 0, 0, 0, 0, 0, 0, 0, 0, 0, 0,
      0
    ]"

definition ctype :: "int \<Rightarrow> u8 \<Rightarrow> bool" where
  "ctype c bits \<longleftrightarrow> AcpiGbl_Ctypes ! nat (c mod 256) AND bits \<noteq> 0"

definition isdigit :: "int \<Rightarrow> bool" where "isdigit c = ctype c ACPI_DI"
definition isspace :: "int \<Rightarrow> bool" where "isspace c = ctype c ACPI_SP"
definition isxdigit :: "int \<Rightarrow> bool" where "isxdigit c = ctype c ACPI_XD"
definition isupper :: "int \<Rightarrow> bool" where "isupper c = ctype c ACPI_UP"
definition islower :: "int \<Rightarrow> bool" where "islower c = ctype c ACPI_LO"
definition isprint :: "int \<Rightarrow> bool" where
  "isprint c = ctype c (ACPI_LO OR ACPI_UP OR ACPI_DI OR ACPI_XS OR ACPI_PU)"
definition isalpha :: "int \<Rightarrow> bool" where "isalpha c = ctype c (ACPI_LO OR ACPI_UP)"

definition toupper :: "int \<Rightarrow> int" where
  "toupper c = (if islower c then c - 0x20 else c)"

definition tolower :: "int \<Rightarrow> int" where
  "tolower c = (if isupper c then c + 0x20 else c)"

section \<open>The table as a classification of ASCII\<close>

text \<open>What the class bits of a code are meant to be.\<close>

definition ascii_class :: "nat \<Rightarrow> u8" where
  "ascii_class n =
     (if 48 \<le> n \<and> n \<le> 57 then 0x84
      else if 65 \<le> n \<and> n \<le> 70 then 0x81 else if 71 \<le> n \<and> n \<le> 90 then 0x01
      else if 97 \<le> n \<and> n \<le> 102 then 0x82 else if 103 \<le> n \<and> n \<le> 122 then 0x02
      else if 9 \<le> n \<and> n \<le> 13 then 0x28 else if n = 32 then 0x48
      else if n < 32 \<or> n = 127 then 0x20 else if n < 127 then 0x10 else 0)"

lemma Ctypes_eq: "AcpiGbl_Ctypes = map ascii_class [0..<257]"
  by code_simp

lemma ctype_class: "ctype c bits \<longleftrightarrow> ascii_class (nat (c mod 256)) AND bits \<noteq> 0"
proof -
  have "nat (c mod 256) < 257" by (simp add: nat_less_iff pos_mod_bound order_less_trans [of _ 256])
  then show ?thesis unfolding ctype_def Ctypes_eq by (simp del: upt_conv_Cons upt_rec_numeral)
qed

lemma ascii_class_table:
  "ascii_class n AND ACPI_DI \<noteq> 0 \<longleftrightarrow> 48 \<le> n \<and> n \<le> 57"
  "ascii_class n AND ACPI_XD \<noteq> 0 \<longleftrightarrow> 48 \<le> n \<and> n \<le> 57 \<or> 65 \<le> n \<and> n \<le> 70
      \<or> 97 \<le> n \<and> n \<le> 102"
  "ascii_class n AND ACPI_UP \<noteq> 0 \<longleftrightarrow> 65 \<le> n \<and> n \<le> 90"
  "ascii_class n AND ACPI_LO \<noteq> 0 \<longleftrightarrow> 97 \<le> n \<and> n \<le> 122"
  "ascii_class n AND ACPI_SP \<noteq> 0 \<longleftrightarrow> 9 \<le> n \<and> n \<le> 13 \<or> n = 32"
  "ascii_class n AND (ACPI_LO OR ACPI_UP OR ACPI_DI OR ACPI_XS OR ACPI_PU) \<noteq> 0
     \<longleftrightarrow> 32 \<le> n \<and> n \<le> 126"
  by (auto simp: ascii_class_def ctype_bits)

lemmas class_defs = isdigit_def isspace_def isxdigit_def isupper_def islower_def isprint_def isalpha_def

lemma isdigit_iff: "isdigit c \<longleftrightarrow> 48 \<le> c mod 256 \<and> c mod 256 \<le> 57"
  unfolding class_defs ctype_class ascii_class_table(1) by (simp add: le_nat_iff nat_le_iff)

lemma isxdigit_iff: "isxdigit c \<longleftrightarrow> 48 \<le> c mod 256 \<and> c mod 256 \<le> 57
    \<or> 65 \<le> c mod 256 \<and> c mod 256 \<le> 70 \<or> 97 \<le> c mod 256 \<and> c mod 256 \<le> 102"
  unfolding class_defs ctype_class ascii_class_table(2) by (simp add: le_nat_iff nat_le_iff)

lemma isupper_iff: "isupper c \<longleftrightarrow> 65 \<le> c mod 256 \<and> c mod 256 \<le> 90"
  unfolding class_defs ctype_class ascii_class_table(3) by (simp add: le_nat_iff nat_le_iff)

lemma islower_iff: "islower c \<longleftrightarrow> 97 \<le> c mod 256 \<and> c mod 256 \<le> 122"
  unfolding class_defs ctype_class ascii_class_table(4) by (simp add: le_nat_iff nat_le_iff)

lemma isspace_iff: "isspace c \<longleftrightarrow> 9 \<le> c mod 256 \<and> c mod 256 \<le> 13 \<or> c mod 256 = 32"
  unfolding class_defs ctype_class ascii_class_table(5) by (auto simp: le_nat_iff nat_le_iff)

lemma isprint_iff: "isprint c \<longleftrightarrow> 32 \<le> c mod 256 \<and> c mod 256 \<le> 126"
  unfolding class_defs ctype_class ascii_class_table(6) by (simp add: le_nat_iff nat_le_iff)

lemma ctype_or: "ctype c (x OR y) \<longleftrightarrow> ctype c x \<or> ctype c y"
  by (simp add: ctype_def bit.conj_disj_distrib bit.conj_disj_distrib or_eq_0_iff)

lemma isalpha_iff: "isalpha c \<longleftrightarrow> isupper c \<or> islower c"
  by (auto simp: isalpha_def isupper_def islower_def ctype_or)

lemma mod_shift:
  "0 \<le> c mod 256 + d \<Longrightarrow> c mod 256 + d < 256 \<Longrightarrow> (c + d) mod 256 = c mod 256 + d" for c d :: int
  by (metis mod_add_left_eq mod_pos_pos_trivial)

lemma toupper_tolower: "isupper c \<Longrightarrow> toupper (tolower c) = c"
  using mod_shift [of c 32] by (auto simp: toupper_def tolower_def isupper_iff islower_iff)

lemma tolower_toupper: "islower c \<Longrightarrow> tolower (toupper c) = c"
  using mod_shift [of c "-32"] by (auto simp: toupper_def tolower_def isupper_iff islower_iff)

section \<open>Properties\<close>

text \<open>
  The 257-entry table classifies exactly the ASCII codes: the \<open>is*\<close> macros hold of the
  decimal digits, hexadecimal digits, letters, blanks and printable characters only, for any
  \<open>int\<close> argument taken modulo 256; the case conversions are inverse to each other.
\<close>

theorem ctype_classifies_ascii:
  "length AcpiGbl_Ctypes = 257
   \<and> isdigit c = (c mod 256 \<in> {48..57})
   \<and> isxdigit c = (c mod 256 \<in> {48..57} \<union> {65..70} \<union> {97..102})
   \<and> isupper c = (c mod 256 \<in> {65..90})
   \<and> islower c = (c mod 256 \<in> {97..122})
   \<and> isspace c = (c mod 256 \<in> {9..13} \<union> {32})
   \<and> isprint c = (c mod 256 \<in> {32..126})
   \<and> toupper (tolower (toupper c)) = toupper c"
  using mod_shift [of c "-32"] mod_shift [of c 32]
  by (auto simp: Ctypes_eq isdigit_iff isxdigit_iff isupper_iff islower_iff isspace_iff isprint_iff
      toupper_def tolower_def)

end
