(* ===== verification/Math64.thy ===== *)
theory Math64
  imports Prelude
begin

text \<open>
  64-bit arithmetic of \<^verbatim>\<open>components/utilities/utmath.c\<close>, in both build variants.

  The portable versions (no suffix) compute on the two 32-bit halves of a
  \<open>UINT64_OVERLAY\<close> with the machine macros of \<^verbatim>\<open>include/platform/acmsvc.h\<close>; the versions with
  the suffix \<open>_native\<close> are those that \<^verbatim>\<open>include/platform/acworkbenchos.h\<close> selects with
  \<open>ACPI_USE_NATIVE_DIVIDE\<close> and \<open>ACPI_USE_NATIVE_MATH64\<close>.
  A pointer argument for a result is a flag that says whether it is non-null; the result
  holds \<open>Some v\<close> for what was stored and \<open>None\<close> where nothing was. The outer option of the
  division routines is \<open>None\<close> on a divide error of the processor, that of the native
  shifts on a shift count that C leaves undefined.
\<close>

section \<open>The overlay and the machine macros\<close>

definition Part_Hi :: "u64 \<Rightarrow> u32" where
  "Part_Hi Full = ucast (drop_bit 32 Full)"

definition Part_Lo :: "u64 \<Rightarrow> u32" where
  "Part_Lo Full = ucast Full"

definition overlay :: "u32 \<Rightarrow> u32 \<Rightarrow> u64" where
  "overlay Hi Lo = push_bit 32 (ucast Hi) OR ucast Lo"

text \<open>The \<open>div\<close> instruction: quotient and remainder of \<open>edx:eax\<close>, or a divide error.\<close>

definition ACPI_DIV_64_BY_32 :: "u32 \<Rightarrow> u32 \<Rightarrow> u32 \<Rightarrow> (u32 \<times> u32) option" where
  "ACPI_DIV_64_BY_32 n_hi n_lo d32 =
     (let n = overlay n_hi n_lo; d = ucast d32 :: u64
      in if d32 = 0 \<or> Part_Hi (n div d) \<noteq> 0 then None
         else Some (Part_Lo (n div d), Part_Lo (n mod d)))"

text \<open>The \<open>mul\<close> instruction: low and high half of \<open>eax * m32\<close>.\<close>

definition ACPI_MUL_64_BY_32 :: "u32 \<Rightarrow> u32 \<Rightarrow> u32 \<Rightarrow> u32 \<times> u32" where
  "ACPI_MUL_64_BY_32 n_hi n_lo m32 =
     (let p = ucast n_lo * ucast m32 :: u64 in (Part_Lo p, Part_Hi p))"

definition ACPI_SHIFT_LEFT_64_BY_32 :: "u32 \<Rightarrow> u32 \<Rightarrow> u32 \<Rightarrow> u32 \<times> u32" where
  "ACPI_SHIFT_LEFT_64_BY_32 n_hi n_lo s32 =
     (let cl = unat (s32 AND 31)
      in (push_bit cl n_hi OR drop_bit (32 - cl) n_lo, push_bit cl n_lo))"

definition ACPI_SHIFT_RIGHT_64_BY_32 :: "u32 \<Rightarrow> u32 \<Rightarrow> u32 \<Rightarrow> u32 \<times> u32" where
  "ACPI_SHIFT_RIGHT_64_BY_32 n_hi n_lo s32 =
     (let cl = unat (s32 AND 31)
      in (drop_bit cl n_hi, drop_bit cl n_lo OR push_bit (32 - cl) n_hi))"

definition ACPI_SHIFT_RIGHT_64 :: "u64 \<Rightarrow> u64" where
  "ACPI_SHIFT_RIGHT_64 n =
     overlay (drop_bit 1 (Part_Hi n)) (drop_bit 1 (Part_Lo n) OR push_bit 31 (Part_Hi n AND 1))"

section \<open>Multiply and shift\<close>

definition AcpiUtShortMultiply :: "u64 \<Rightarrow> u32 \<Rightarrow> bool \<Rightarrow> acpi_status \<times> u64 option" where
  "AcpiUtShortMultiply Multiplicand Multiplier OutProduct =
     (let (ProductHi, Carry32) = ACPI_MUL_64_BY_32 0 (Part_Hi Multiplicand) Multiplier;
          (ProductLo, Carry32) = ACPI_MUL_64_BY_32 0 (Part_Lo Multiplicand) Multiplier;
          ProductHi = ProductHi + Carry32
      in (AE_OK, if OutProduct then Some (overlay ProductHi ProductLo) else None))"

definition AcpiUtShortShiftLeft :: "u64 \<Rightarrow> u32 \<Rightarrow> bool \<Rightarrow> acpi_status \<times> u64 option" where
  "AcpiUtShortShiftLeft Operand Count OutResult =
     (let (Hi, Lo, Count') = (if Count AND 63 \<ge> 32 then (Part_Lo Operand, 0, (Count AND 63) - 32)
                              else (Part_Hi Operand, Part_Lo Operand, Count));
          (Hi, Lo) = ACPI_SHIFT_LEFT_64_BY_32 Hi Lo Count'
      in (AE_OK, if OutResult then Some (overlay Hi Lo) else None))"

definition AcpiUtShortShiftRight :: "u64 \<Rightarrow> u32 \<Rightarrow> bool \<Rightarrow> acpi_status \<times> u64 option" where
  "AcpiUtShortShiftRight Operand Count OutResult =
     (let (Hi, Lo, Count') = (if Count AND 63 \<ge> 32 then (0, Part_Hi Operand, (Count AND 63) - 32)
                              else (Part_Hi Operand, Part_Lo Operand, Count));
          (Hi, Lo) = ACPI_SHIFT_RIGHT_64_BY_32 Hi Lo Count'
      in (AE_OK, if OutResult then Some (overlay Hi Lo) else None))"

definition AcpiUtShortMultiply_native :: "u64 \<Rightarrow> u32 \<Rightarrow> bool \<Rightarrow> acpi_status \<times> u64 option" where
  "AcpiUtShortMultiply_native Multiplicand Multiplier OutProduct =
     (AE_OK, if OutProduct then Some (Multiplicand * ucast Multiplier) else None)"

definition AcpiUtShortShiftLeft_native ::
  "u64 \<Rightarrow> u32 \<Rightarrow> bool \<Rightarrow> (acpi_status \<times> u64 option) option" where
  "AcpiUtShortShiftLeft_native Operand Count OutResult =
     (if OutResult
      then (if unat Count < 64 then Some (AE_OK, Some (push_bit (unat Count) Operand)) else None)
      else Some (AE_OK, None))"

definition AcpiUtShortShiftRight_native ::
  "u64 \<Rightarrow> u32 \<Rightarrow> bool \<Rightarrow> (acpi_status \<times> u64 option) option" where
  "AcpiUtShortShiftRight_native Operand Count OutResult =
     (if OutResult
      then (if unat Count < 64 then Some (AE_OK, Some (drop_bit (unat Count) Operand)) else None)
      else Some (AE_OK, None))"

section \<open>Divide\<close>

definition AcpiUtShortDivide ::
  "u64 \<Rightarrow> u32 \<Rightarrow> bool \<Rightarrow> bool \<Rightarrow> (acpi_status \<times> u64 option \<times> u32 option) option" where
  "AcpiUtShortDivide Dividend Divisor OutQuotient OutRemainder =
     (if Divisor = 0 then Some (AE_AML_DIVIDE_BY_ZERO, None, None)
      else Option.bind (ACPI_DIV_64_BY_32 0 (Part_Hi Dividend) Divisor) (\<lambda>(QuotientHi, Remainder32).
           Option.bind (ACPI_DIV_64_BY_32 Remainder32 (Part_Lo Dividend) Divisor) (\<lambda>(QuotientLo, Remainder32').
             Some (AE_OK,
                   if OutQuotient then Some (overlay QuotientHi QuotientLo) else None,
                   if OutRemainder then Some Remainder32' else None))))"

text \<open>The normalising loop of \<open>AcpiUtDivide\<close>: at least one shift, until the divisor has 32 bits.\<close>

lemma Part_Hi_nonzero: "Part_Hi x \<noteq> 0 \<Longrightarrow> x \<noteq> 0"
  by (auto simp: Part_Hi_def)

lemma unat_Part_Hi: "unat (Part_Hi x) = unat x div 2 ^ 32"
proof -
  have "unat (Part_Hi x) = take_bit 32 (drop_bit 32 (unat x))"
    by (simp only: Part_Hi_def unsigned_ucast_eq unat_drop_bit_eq) simp
  also have "\<dots> = unat x div 2 ^ 32"
    using unat_lt64 [of x] by (simp add: drop_bit_eq_div take_bit_nat_eq_self)
  finally show ?thesis .
qed

lemma unat_Part_Lo: "unat (Part_Lo x) = unat x mod 2 ^ 32"
  unfolding Part_Lo_def by (simp add: unsigned_ucast_eq take_bit_eq_mod)

lemma Part_Hi_overlay [simp]: "Part_Hi (overlay hi lo) = hi"
  by (rule bit_eqI) (auto simp: Part_Hi_def overlay_def bit_simps dest: bit_imp_le_length)

lemma Part_Lo_overlay [simp]: "Part_Lo (overlay hi lo) = lo"
  by (rule bit_eqI) (auto simp: Part_Lo_def overlay_def bit_simps)

lemma unat_overlay: "unat (overlay hi lo) = unat hi * 2 ^ 32 + unat lo"
  using unat_Part_Hi [of "overlay hi lo"] unat_Part_Lo [of "overlay hi lo"]
    div_mult_mod_eq [of "unat (overlay hi lo)" "2 ^ 32"] by simp

lemma bit_0x80000000: "bit (0x80000000 :: u32) n \<longleftrightarrow> n = 31"
  using bit_exp_iff [of 31 n, where ?'a = "32 word"] by auto

lemma overlay_eqI: "Part_Hi x = hi \<Longrightarrow> Part_Lo x = lo \<Longrightarrow> overlay hi lo = x"
  using unat_Part_Hi [of x] unat_Part_Lo [of x] div_mult_mod_eq [of "unat x" "2 ^ 32"]
  by (simp add: word_unat_eq_iff unat_overlay)

lemma ACPI_SHIFT_RIGHT_64_drop_bit: "ACPI_SHIFT_RIGHT_64 n = drop_bit 1 n"
  unfolding ACPI_SHIFT_RIGHT_64_def
proof (rule overlay_eqI; rule bit_word_eqI)
  fix k
  show "bit (Part_Hi (drop_bit 1 n)) k = bit (drop_bit 1 (Part_Hi n)) k"
    by (auto simp: Part_Hi_def bit_simps dest: bit_imp_le_length)
next
  fix k assume "k < LENGTH(32)"
  then show "bit (Part_Lo (drop_bit 1 n)) k
      = bit (drop_bit 1 (Part_Lo n) OR push_bit 31 (Part_Hi n AND 1)) k"
    by (cases "k = 31") (auto simp: Part_Hi_def Part_Lo_def bit_simps bit_0x80000000)
qed

lemma unat_SHIFT_RIGHT_64: "unat (ACPI_SHIFT_RIGHT_64 n) = unat n div 2"
  by (simp only: ACPI_SHIFT_RIGHT_64_drop_bit unat_drop_bit_eq) (simp add: drop_bit_eq_div)

function divide_normalize :: "u64 \<Rightarrow> u64 \<Rightarrow> u64 \<times> u64" where
  "divide_normalize NormalizedDividend NormalizedDivisor =
     (let NormalizedDivisor = ACPI_SHIFT_RIGHT_64 NormalizedDivisor;
          NormalizedDividend = ACPI_SHIFT_RIGHT_64 NormalizedDividend
      in if Part_Hi NormalizedDivisor \<noteq> 0 then divide_normalize NormalizedDividend NormalizedDivisor
         else (NormalizedDividend, NormalizedDivisor))"
  by pat_completeness auto
termination
proof (relation "measure (\<lambda>(a, b). unat b)", goal_cases)
  case (2 a b x xa)
  then have "unat (ACPI_SHIFT_RIGHT_64 b) \<noteq> 0"
    using unat_Part_Hi [of x] by (metis Part_Hi_nonzero unat_eq_zero)
  then show ?case using 2 by (simp add: unat_SHIFT_RIGHT_64)
qed auto

declare divide_normalize.simps [simp del]

text \<open>The general case of \<open>AcpiUtDivide\<close>: quotient and remainder for a divisor above 32 bits.\<close>

definition divide_general :: "u64 \<Rightarrow> u64 \<Rightarrow> (u64 \<times> u64) option" where
  "divide_general Dividend Divisor =
     (let (NormalizedDividend, NormalizedDivisor) = divide_normalize Dividend Divisor
      in Option.bind (ACPI_DIV_64_BY_32 (Part_Hi NormalizedDividend) (Part_Lo NormalizedDividend)
                        (Part_Lo NormalizedDivisor)) (\<lambda>(QuotientLo, _).
           let Partial1 = QuotientLo * Part_Hi Divisor;
               Partial2 = ucast QuotientLo * ucast (Part_Lo Divisor) :: u64;
               Partial3 = ucast (Part_Hi Partial2) + ucast Partial1 :: u64;
               Remainder = overlay (Part_Lo Partial3) (Part_Lo Partial2)
           in if Part_Hi Partial3 = 0
              then let (QuotientLo, Remainder) =
                         (if Part_Lo Partial3 \<ge> Part_Hi Dividend
                          then if Part_Lo Partial3 = Part_Hi Dividend
                               then if Part_Lo Partial2 > Part_Lo Dividend
                                    then (QuotientLo - 1, Remainder - Divisor)
                                    else (QuotientLo, Remainder)
                               else (QuotientLo - 1, Remainder - Divisor)
                          else (QuotientLo, Remainder));
                       Remainder = Remainder - Dividend;
                       RemainderHi = - Part_Hi Remainder;
                       RemainderLo = - Part_Lo Remainder;
                       RemainderHi = (if RemainderLo \<noteq> 0 then RemainderHi - 1 else RemainderHi)
                   in Some (overlay 0 QuotientLo, overlay RemainderHi RemainderLo)
              else Some (overlay 0 QuotientLo, Remainder)))"

definition AcpiUtDivide ::
  "u64 \<Rightarrow> u64 \<Rightarrow> bool \<Rightarrow> bool \<Rightarrow> (acpi_status \<times> u64 option \<times> u64 option) option" where
  "AcpiUtDivide InDividend InDivisor OutQuotient OutRemainder =
     (if InDivisor = 0 then Some (AE_AML_DIVIDE_BY_ZERO, None, None)
      else map_option (\<lambda>(Quotient, Remainder).
             (AE_OK, if OutQuotient then Some Quotient else None,
                     if OutRemainder then Some Remainder else None))
           (if Part_Hi InDivisor = 0
            then Option.bind (ACPI_DIV_64_BY_32 0 (Part_Hi InDividend) (Part_Lo InDivisor))
                   (\<lambda>(QuotientHi, Partial1).
                   Option.bind (ACPI_DIV_64_BY_32 Partial1 (Part_Lo InDividend) (Part_Lo InDivisor))
                     (\<lambda>(QuotientLo, RemainderLo).
                       Some (overlay QuotientHi QuotientLo, overlay 0 RemainderLo)))
            else divide_general InDividend InDivisor))"

definition AcpiUtShortDivide_native ::
  "u64 \<Rightarrow> u32 \<Rightarrow> bool \<Rightarrow> bool \<Rightarrow> acpi_status \<times> u64 option \<times> u32 option" where
  "AcpiUtShortDivide_native InDividend Divisor OutQuotient OutRemainder =
     (if Divisor = 0 then (AE_AML_DIVIDE_BY_ZERO, None, None)
      else (AE_OK, if OutQuotient then Some (InDividend div ucast Divisor) else None,
                   if OutRemainder then Some (ucast (InDividend mod ucast Divisor)) else None))"

definition AcpiUtDivide_native ::
  "u64 \<Rightarrow> u64 \<Rightarrow> bool \<Rightarrow> bool \<Rightarrow> acpi_status \<times> u64 option \<times> u64 option" where
  "AcpiUtDivide_native InDividend InDivisor OutQuotient OutRemainder =
     (if InDivisor = 0 then (AE_AML_DIVIDE_BY_ZERO, None, None)
      else (AE_OK, if OutQuotient then Some (InDividend div InDivisor) else None,
                   if OutRemainder then Some (InDividend mod InDivisor) else None))"

section \<open>The divide instruction\<close>

lemma unat_up: "unat (ucast x :: u64) = unat x" for x :: u32
  by (simp add: unsigned_ucast_eq take_bit_nat_eq_self order_less_trans [OF unsigned_less])

lemma DIV_64_BY_32:
  assumes "d \<noteq> 0" and "unat n_hi < unat d"
  shows "\<exists>q r. ACPI_DIV_64_BY_32 n_hi n_lo d = Some (q, r)
    \<and> unat q = (unat n_hi * 2 ^ 32 + unat n_lo) div unat d
    \<and> unat r = (unat n_hi * 2 ^ 32 + unat n_lo) mod unat d"
proof -
  let ?n = "unat n_hi * 2 ^ 32 + unat n_lo"
  have d: "0 < unat d" "unat d < 2 ^ 32" using assms(1) unsigned_less [of d] by (auto simp: unat_gt_0)
  have q: "unat (overlay n_hi n_lo div ucast d) = ?n div unat d"
    and r: "unat (overlay n_hi n_lo mod ucast d) = ?n mod unat d"
    by (simp_all only: unat_div unat_mod unat_overlay unat_up)
  have "?n < (unat n_hi + 1) * 2 ^ 32" using unsigned_less [of n_lo] by simp
  also have "\<dots> \<le> unat d * 2 ^ 32" using assms(2) by (intro mult_right_mono) auto
  finally have small: "?n div unat d < 2 ^ 32" using d(1) by (simp add: less_mult_imp_div_less mult.commute)
  have "?n mod unat d < 2 ^ 32" using d by (meson mod_less_divisor order_less_trans)
  moreover have "Part_Hi (overlay n_hi n_lo div ucast d) = 0"
    using small q by (simp add: word_unat_eq_iff unat_Part_Hi)
  ultimately show ?thesis
    using assms(1) small q r
    by (auto simp: ACPI_DIV_64_BY_32_def Let_def unat_Part_Lo intro!: exI)
qed

section \<open>Multiply and shift: the portable and the native variant agree\<close>

lemma overlay_Parts: "overlay (Part_Hi x) (Part_Lo x) = x"
  by (rule overlay_eqI) simp_all

lemma overlay_plus: "overlay h l = ucast h * 0x100000000 + ucast l"
proof -
  have "overlay h l = of_nat (unat h * 2 ^ 32 + unat l)"
    using unat_overlay [of h l] by (metis of_nat_unat ucast_id)
  then show ?thesis by (simp add: of_nat_unat)
qed

lemma MUL_64_BY_32:
  "ACPI_MUL_64_BY_32 n_hi n_lo m32 = (p, c) \<Longrightarrow> ucast c * 0x100000000 + ucast p = (ucast n_lo * ucast m32 :: u64)"
  using overlay_Parts [of "ucast n_lo * ucast m32"]
  by (auto simp: ACPI_MUL_64_BY_32_def Let_def overlay_plus)

text \<open>Carries out of the high half vanish modulo \<open>2 ^ 64\<close>.\<close>

lemma high_half_add: "ucast (x + y) * 0x100000000 = (ucast x + ucast y) * (0x100000000 :: u64)"
  for x y :: u32
proof -
  have "unat (ucast (x + y) * 0x100000000 :: u64) = (unat x + unat y) mod 2 ^ 32 * 2 ^ 32 mod 2 ^ 64"
    by (simp add: unat_word_ariths unat_up)
  also have "\<dots> = (unat x + unat y) * 2 ^ 32 mod 2 ^ 64"
    using mod_mult_mult2 [of "unat x + unat y" "2 ^ 32" "2 ^ 32"] by simp
  also have "\<dots> = unat ((ucast x + ucast y) * 0x100000000 :: u64)"
    by (simp add: unat_word_ariths unat_up mod_mult_left_eq del: distrib_right_numeral)
  finally show ?thesis by (simp only: word_unat_eq_iff)
qed

lemma high_half_vanishes: "(ucast c * 0x100000000 + p) * 0x100000000 = p * (0x100000000 :: u64)"
  for c :: u32
proof -
  have "(0x100000000 * 0x100000000 :: u64) = 0" by simp
  then show ?thesis by (simp only: distrib_right mult.assoc mult_zero_right add_0)
qed

lemma short_multiply_eq: "AcpiUtShortMultiply a m out = AcpiUtShortMultiply_native a m out"
proof -
  obtain ph ch where h: "ACPI_MUL_64_BY_32 0 (Part_Hi a) m = (ph, ch)" by fastforce
  obtain pl cl where l: "ACPI_MUL_64_BY_32 0 (Part_Lo a) m = (pl, cl)" by fastforce
  have hi: "ucast ph * 0x100000000 = ucast (Part_Hi a) * ucast m * (0x100000000 :: u64)"
    using MUL_64_BY_32 [OF h, symmetric] by (simp only: high_half_vanishes)
  have "overlay (ph + cl) pl = ucast ph * 0x100000000 + (ucast cl * 0x100000000 + ucast pl)"
    by (simp only: overlay_plus high_half_add distrib_right add.assoc)
  also have "\<dots> = (ucast (Part_Hi a) * 0x100000000 + ucast (Part_Lo a)) * ucast m"
    by (simp only: hi MUL_64_BY_32 [OF l] distrib_right) (simp add: ac_simps)
  also have "\<dots> = a * ucast m" by (simp only: overlay_plus [symmetric] overlay_Parts)
  finally show ?thesis
    by (simp add: AcpiUtShortMultiply_def AcpiUtShortMultiply_native_def h l)
qed

lemma unat_and_63: "unat (c AND 63) = unat c mod 64" for c :: u32
proof -
  have "c AND 63 = take_bit 6 c" by (simp add: take_bit_eq_mask mask_eq_exp_minus_1)
  then show ?thesis by (simp only: unsigned_take_bit_eq) (simp add: take_bit_eq_mod)
qed

lemma unat_and_31: "unat (c AND 31) = unat c mod 32" for c :: u32
proof -
  have "c AND 31 = take_bit 5 c" by (simp add: take_bit_eq_mask mask_eq_exp_minus_1)
  then show ?thesis by (simp only: unsigned_take_bit_eq) (simp add: take_bit_eq_mod)
qed

lemma shift_left_halves:
  assumes "k < 32"
  shows "overlay (push_bit k hi OR drop_bit (32 - k) lo) (push_bit k lo) = push_bit k (overlay hi lo)"
proof (rule overlay_eqI; rule bit_word_eqI)
  fix n assume "n < LENGTH(32)"
  then show "bit (Part_Hi (push_bit k (overlay hi lo))) n = bit (push_bit k hi OR drop_bit (32 - k) lo) n"
    using assms by (auto simp: Part_Hi_def overlay_def bit_simps dest: bit_imp_le_length)
next
  fix n assume "n < LENGTH(32)"
  then show "bit (Part_Lo (push_bit k (overlay hi lo))) n = bit (push_bit k lo) n"
    by (auto simp: Part_Lo_def overlay_def bit_simps dest: bit_imp_le_length)
qed

lemma shift_right_halves:
  assumes "k < 32"
  shows "overlay (drop_bit k hi) (drop_bit k lo OR push_bit (32 - k) hi) = drop_bit k (overlay hi lo)"
proof (rule overlay_eqI; rule bit_word_eqI)
  fix n assume "n < LENGTH(32)"
  then show "bit (Part_Hi (drop_bit k (overlay hi lo))) n = bit (drop_bit k hi) n"
    using assms by (auto simp: Part_Hi_def overlay_def bit_simps dest: bit_imp_le_length)
next
  fix n assume "n < LENGTH(32)"
  then show "bit (Part_Lo (drop_bit k (overlay hi lo))) n = bit (drop_bit k lo OR push_bit (32 - k) hi) n"
    using assms by (auto simp: Part_Lo_def overlay_def bit_simps add.commute dest: bit_imp_le_length)
qed

lemma overlay_low_to_high: "overlay (Part_Lo x) 0 = push_bit 32 x"
  by (rule overlay_eqI; rule bit_word_eqI) (auto simp: Part_Hi_def Part_Lo_def bit_simps)

lemma overlay_high_to_low: "overlay 0 (Part_Hi x) = drop_bit 32 x"
  by (rule overlay_eqI; rule bit_word_eqI) (auto simp: Part_Hi_def Part_Lo_def bit_simps dest: bit_imp_le_length)

lemma count_high: "32 \<le> c AND 63 \<longleftrightarrow> 32 \<le> unat c mod 64"
  "32 \<le> c AND 63 \<Longrightarrow> unat (((c AND 63) - 32) AND 31) = unat c mod 64 - 32" for c :: u32
  by (auto simp: word_le_nat_alt unat_and_63 unat_and_31 unat_sub)

lemma count_low: "unat c mod 64 < 32 \<Longrightarrow> unat c mod 32 = unat c mod 64" for c :: u32
  by (metis mod_less mod_mod_cancel dvd_triv_right numeral_Bit0 mult_2)

lemma short_shift_left_eq:
  "AcpiUtShortShiftLeft a c out = (AE_OK, if out then Some (push_bit (unat c mod 64) a) else None)"
proof (cases "32 \<le> c AND 63")
  case True
  let ?k = "unat c mod 64 - 32"
  have "?k < 32" by simp
  then have "overlay (push_bit ?k (Part_Lo a) OR drop_bit (32 - ?k) 0) (push_bit ?k 0) = push_bit ?k (push_bit 32 a)"
    by (simp only: shift_left_halves overlay_low_to_high)
  also have "\<dots> = push_bit (unat c mod 64) a" using True by (simp add: count_high(1))
  finally show ?thesis
    using True count_high(2) [OF True] by (simp add: AcpiUtShortShiftLeft_def ACPI_SHIFT_LEFT_64_BY_32_def Let_def)
next
  case False
  then have "unat c mod 64 < 32" by (simp add: count_high(1) not_le)
  then show ?thesis
    using False shift_left_halves [of "unat c mod 64" "Part_Hi a" "Part_Lo a"]
    by (simp add: AcpiUtShortShiftLeft_def ACPI_SHIFT_LEFT_64_BY_32_def Let_def unat_and_31 count_low overlay_Parts)
qed

lemma short_shift_right_eq:
  "AcpiUtShortShiftRight a c out = (AE_OK, if out then Some (drop_bit (unat c mod 64) a) else None)"
proof (cases "32 \<le> c AND 63")
  case True
  let ?k = "unat c mod 64 - 32"
  have "?k < 32" by simp
  then have "overlay (drop_bit ?k 0) (drop_bit ?k (Part_Hi a) OR push_bit (32 - ?k) 0) = drop_bit ?k (drop_bit 32 a)"
    by (simp only: shift_right_halves overlay_high_to_low)
  also have "\<dots> = drop_bit (unat c mod 64) a" using True by (simp add: count_high(1))
  finally show ?thesis
    using True count_high(2) [OF True] by (simp add: AcpiUtShortShiftRight_def ACPI_SHIFT_RIGHT_64_BY_32_def Let_def)
next
  case False
  then have "unat c mod 64 < 32" by (simp add: count_high(1) not_le)
  then show ?thesis
    using False shift_right_halves [of "unat c mod 64" "Part_Hi a" "Part_Lo a"]
    by (simp add: AcpiUtShortShiftRight_def ACPI_SHIFT_RIGHT_64_BY_32_def Let_def unat_and_31 count_low overlay_Parts)
qed

section \<open>Divide\<close>

lemma divide_normalize_shifts:
  "Part_Hi b \<noteq> 0 \<Longrightarrow> \<exists>k a' b'. divide_normalize a b = (a', b') \<and> 1 \<le> k
     \<and> unat a' = unat a div 2 ^ k \<and> unat b' = unat b div 2 ^ k \<and> 2 ^ 31 \<le> unat b' \<and> unat b' < 2 ^ 32"
proof (induction a b rule: divide_normalize.induct)
  case (1 a b)
  let ?a = "ACPI_SHIFT_RIGHT_64 a" and ?b = "ACPI_SHIFT_RIGHT_64 b"
  have b: "2 ^ 32 \<le> unat b"
    using 1(2) div_less [of "unat b" "2 ^ 32"] by (auto simp: word_unat_eq_iff unat_Part_Hi not_less)
  show ?case
  proof (cases "Part_Hi ?b = 0")
    case True
    then have "unat ?b < 2 ^ 32" by (simp add: word_unat_eq_iff unat_Part_Hi)
    with True b show ?thesis
      by (intro exI [of _ 1] exI [of _ ?a] exI [of _ ?b])
        (simp add: divide_normalize.simps [of a b] unat_SHIFT_RIGHT_64)
  next
    case False
    then obtain k a' b' where IH: "divide_normalize ?a ?b = (a', b')" "1 \<le> k"
      "unat a' = unat ?a div 2 ^ k" "unat b' = unat ?b div 2 ^ k" "2 ^ 31 \<le> unat b'" "unat b' < 2 ^ 32"
      using 1(1) [of ?b ?a] by blast
    then show ?thesis
      using False by (intro exI [of _ "Suc k"] exI [of _ a'] exI [of _ b'])
        (simp add: divide_normalize.simps [of a b] unat_SHIFT_RIGHT_64 Let_def div_mult2_eq)
  qed
qed

text \<open>The quotient of the shifted operands is exact or one too large.\<close>

lemma quotient_estimate:
  fixes a b k :: nat
  assumes a: "a < 2 ^ 64" and b: "2 ^ 32 \<le> b" and k: "1 \<le> k" and norm: "2 ^ 31 \<le> b div 2 ^ k"
  defines "q \<equiv> a div 2 ^ k div (b div 2 ^ k)"
  shows "a div b \<le> q" and "q \<le> a div b + 1" and "q < 2 ^ 32"
proof -
  define c where "c = 2 ^ k * (b div 2 ^ k)"
  have q: "q = a div c" by (simp add: q_def c_def div_mult2_eq)
  have c: "c \<le> b" "b < c + 2 ^ k" "2 ^ k * 2 ^ 31 \<le> c"
    using norm dividend_less_div_times [of "2 ^ k" b] by (simp_all add: c_def ac_simps)
  have pos: "0 < c" using c(3) by (rule order_less_le_trans [rotated]) simp
  have qc: "q * c \<le> a" by (simp add: q)
  show "a div b \<le> q" unfolding q using c(1) pos by (rule div_le_mono2 [rotated])
  have "q * 2 ^ k * 2 ^ 31 \<le> q * c" using c(3) by (simp add: mult.assoc mult_le_mono2)
  also have "\<dots> < 2 ^ 64" using qc a by simp
  also have "(2 :: nat) ^ 64 = 2 ^ 33 * 2 ^ 31" by simp
  finally have "q * 2 ^ k * 2 ^ 31 < 2 ^ 33 * 2 ^ 31" .
  then have qk: "q * 2 ^ k < 2 ^ 33" by (simp only: mult_less_cancel2)
  have "q * 2 \<le> q * 2 ^ k" using k by (intro mult_le_mono2) (metis power_increasing power_one_right one_le_numeral)
  from this qk have "q * 2 < 2 ^ 33" by (rule le_less_trans)
  then show q32: "q < 2 ^ 32" by simp
  have rest: "q * (b - c) \<le> b"
  proof (cases "k = 1")
    case True
    then have "b - c \<le> 1" using c(2) by simp
    then have "q * (b - c) \<le> q * 1" by (intro mult_le_mono2)
    also have "\<dots> \<le> b" using q32 b by simp
    finally show ?thesis .
  next
    case False
    then have "2 \<le> k" using k by simp
    then have "2 ^ 2 * 2 ^ 31 \<le> 2 ^ k * (2 ^ 31 :: nat)" by (intro mult_le_mono1 power_increasing) simp_all
    with c have "2 ^ 33 \<le> b" by simp
    moreover have "q * (b - c) \<le> q * 2 ^ k" using c(2) by (intro mult_le_mono2) simp
    ultimately show ?thesis using qk by (meson le_less_trans less_imp_le order_less_le_trans)
  qed
  have "q * b = q * c + q * (b - c)" using c(1) by (simp add: diff_mult_distrib2)
  with qc rest have "q * b \<le> a + b" by simp
  then have "(q - 1) * b \<le> a" by (simp add: diff_mult_distrib)
  then have "q - 1 \<le> a div b" using b by (simp add: less_eq_div_iff_mult_less_eq)
  then show "q \<le> a div b + 1" by simp
qed

text \<open>The closing steps of \<open>divide_general\<close> negate the remainder half by half.\<close>

lemma high_half_neg: "ucast (- h) * 0x100000000 = - (ucast h * (0x100000000 :: u64))" for h :: u32
  using high_half_add [of "- h" h] by (simp add: distrib_right eq_neg_iff_add_eq_0)

lemma low_half_neg: "l \<noteq> 0 \<Longrightarrow> (ucast (- l) :: u64) = 0x100000000 - ucast l" for l :: u32
proof -
  assume "l \<noteq> 0"
  then have "unat (- l) = 2 ^ 32 - unat l" using unat_diff_mod [of 0 l] by (simp add: unat_eq_zero)
  moreover have "unat (0x100000000 - ucast l :: u64) = 2 ^ 32 - unat l"
    using unat_lt32 [of l] by (subst unat_sub) (auto simp: word_le_nat_alt unat_up)
  ultimately show ?thesis by (simp add: word_unat_eq_iff unat_up)
qed

lemma neg_halves:
  "overlay (if - Part_Lo x \<noteq> 0 then - Part_Hi x - 1 else - Part_Hi x) (- Part_Lo x) = - x"
proof -
  have x: "x = ucast (Part_Hi x) * 0x100000000 + ucast (Part_Lo x)"
    by (simp only: overlay_plus [symmetric] overlay_Parts)
  show ?thesis
  proof (cases "Part_Lo x = 0")
    case True
    then show ?thesis using x by (simp add: overlay_plus high_half_neg)
  next
    case False
    have "- Part_Hi x - 1 = - (Part_Hi x + 1)" by simp
    then have "overlay (- Part_Hi x - 1) (- Part_Lo x)
        = - ((ucast (Part_Hi x) + 1) * 0x100000000) + (0x100000000 - ucast (Part_Lo x))"
      by (simp only: overlay_plus high_half_neg high_half_add low_half_neg [OF False]) simp
    also have "\<dots> = - x" by (subst (3) x) (simp add: algebra_simps)
    finally show ?thesis using False by simp
  qed
qed

lemma neg_halves_cases:
  "Part_Lo x \<noteq> 0 \<Longrightarrow> overlay (- Part_Hi x - 1) (- Part_Lo x) = - x"
  "Part_Lo x = 0 \<Longrightarrow> overlay (- Part_Hi x) 0 = - x"
  using neg_halves [of x] by simp_all

lemma halves_less:
  "(if hi \<ge> Part_Hi a then if hi = Part_Hi a then if lo > Part_Lo a then x else y else x else y)
    = (if overlay hi lo > a then x else y)"
proof -
  have "a < overlay hi lo \<longleftrightarrow> unat (Part_Hi a) < unat hi
      \<or> unat (Part_Hi a) = unat hi \<and> unat (Part_Lo a) < unat lo"
    using unat_overlay [of hi lo] unat_overlay [of "Part_Hi a" "Part_Lo a"]
      unat_lt32 [of lo] unat_lt32 [of "Part_Lo a"]
    by (auto simp: overlay_Parts word_less_nat_alt)
  then show ?thesis by (auto simp: word_less_nat_alt word_le_nat_alt word_unat_eq_iff)
qed

lemma partial_products:
  fixes Q :: u32 and b :: u64
  defines "P1 \<equiv> Q * Part_Hi b" and "P2 \<equiv> ucast Q * ucast (Part_Lo b) :: u64"
  defines "P3 \<equiv> ucast (Part_Hi P2) + ucast P1 :: u64"
  assumes fits: "unat Q * unat b < 2 ^ 64"
  shows "Part_Hi P3 = 0" and "overlay (Part_Lo P3) (Part_Lo P2) = ucast Q * b"
proof -
  let ?h = "unat b div 2 ^ 32" and ?l = "unat b mod 2 ^ 32"
  have qb: "unat Q * unat b = unat Q * ?h * 2 ^ 32 + unat Q * ?l"
    by (metis div_mult_mod_eq distrib_left mult.assoc)
  with fits have h: "unat Q * ?h < 2 ^ 32" by simp
  have "unat Q * ?l < 2 ^ 64" using fits qb by simp
  then have P2: "unat P2 = unat Q * ?l"
    by (simp add: P2_def unat_word_ariths unat_up unat_Part_Lo)
  have P1: "unat P1 = unat Q * ?h" using h by (simp add: P1_def unat_word_ariths unat_Part_Hi)
  have "unat P3 = unat (Part_Hi P2) + unat P1"
    using h unat_lt32 [of "Part_Hi P2"] P1 by (simp add: P3_def unat_word_ariths unat_up)
  then have "unat P3 = unat Q * ?l div 2 ^ 32 + unat Q * ?h"
    by (simp only: P1 P2 unat_Part_Hi)
  also have "\<dots> = unat Q * unat b div 2 ^ 32" by (simp add: qb)
  finally have P3: "unat P3 = unat Q * unat b div 2 ^ 32" .
  then show "Part_Hi P3 = 0" using fits by (simp add: word_unat_eq_iff unat_Part_Hi)
  have "unat P2 mod 2 ^ 32 = unat Q * unat b mod 2 ^ 32" by (simp add: P2 qb)
  moreover have "unat P3 mod 2 ^ 32 = unat Q * unat b div 2 ^ 32"
    using P3 fits by (intro mod_less [THEN trans]) auto
  ultimately have "unat (overlay (Part_Lo P3) (Part_Lo P2)) = unat Q * unat b"
    by (simp only: unat_overlay unat_Part_Lo div_mult_mod_eq)
  moreover have "unat (ucast Q * b) = unat Q * unat b" using fits by (simp add: unat_word_ariths unat_up)
  ultimately show "overlay (Part_Lo P3) (Part_Lo P2) = ucast Q * b" by (simp add: word_unat_eq_iff)
qed

lemma Part_Hi_ge: "Part_Hi b \<noteq> 0 \<Longrightarrow> 2 ^ 32 \<le> unat b"
  using div_less [of "unat b" "2 ^ 32"] by (auto simp: word_unat_eq_iff unat_Part_Hi not_less)

text \<open>
  The trial quotient: both operands are shifted to the right by as many bits as the divisor has above 32, and
  divided.
\<close>

fun excess_bits :: "nat \<Rightarrow> nat" where
  "excess_bits d = (if d < 2 ^ 32 then 0 else Suc (excess_bits (d div 2)))"

definition trial_quotient :: "nat \<Rightarrow> nat \<Rightarrow> nat" where
  "trial_quotient a d = (let k = excess_bits d in a div 2 ^ k div (d div 2 ^ k))"

declare excess_bits.simps [simp del]

lemma excess_bits_eq: "2 ^ 31 \<le> d div 2 ^ k \<Longrightarrow> d div 2 ^ k < 2 ^ 32 \<Longrightarrow> excess_bits d = k"
proof (induction k arbitrary: d)
  case (Suc k)
  have "(2 ^ 32 :: nat) \<le> 2 * (d div 2 ^ Suc k)" using Suc.prems(1) by simp
  also have "\<dots> \<le> 2 ^ Suc k * (d div 2 ^ Suc k)" by (intro mult_le_mono1) simp
  also have "\<dots> \<le> d" by (rule times_div_less_eq_dividend)
  finally have "\<not> d < 2 ^ 32" by simp
  then show ?case using Suc.IH [of "d div 2"] Suc.prems by (simp add: excess_bits.simps [of d] div_mult2_eq)
qed (simp add: excess_bits.simps)

text \<open>The partial divide cannot fault, and its quotient is exact or one too large.\<close>

lemma general_quotient:
  assumes hi: "Part_Hi b \<noteq> 0"
  shows "\<exists>a' b' Q r. divide_normalize a b = (a', b')
    \<and> ACPI_DIV_64_BY_32 (Part_Hi a') (Part_Lo a') (Part_Lo b') = Some (Q, r)
    \<and> unat Q = trial_quotient (unat a) (unat b) \<and> unat a div unat b \<le> unat Q \<and> unat Q \<le> unat a div unat b + 1"
proof -
  obtain k a' b' where norm: "divide_normalize a b = (a', b')" and k: "1 \<le> k"
    and a': "unat a' = unat a div 2 ^ k" and b': "unat b' = unat b div 2 ^ k"
    and b'_bounds: "2 ^ 31 \<le> unat b'" "unat b' < 2 ^ 32"
    using divide_normalize_shifts [OF hi] by blast
  note est = quotient_estimate [OF unat_lt64 [of a] Part_Hi_ge [OF hi] k, folded a' b', OF b'_bounds(1)]
  have b'lo: "unat (Part_Lo b') = unat b'" using b'_bounds by (simp add: unat_Part_Lo)
  have "unat a' \<le> unat a div 2 ^ 1" unfolding a' using k by (intro div_le_mono2 power_increasing) simp_all
  then have "unat a' < 2 ^ 63" using unat_lt64 [of a] by simp
  then have "unat (Part_Hi a') < unat (Part_Lo b')"
    using b'_bounds(1) b'lo by (simp add: unat_Part_Hi)
  moreover have "Part_Lo b' \<noteq> 0" using b'lo b'_bounds(1) by auto
  ultimately obtain Q r where div: "ACPI_DIV_64_BY_32 (Part_Hi a') (Part_Lo a') (Part_Lo b') = Some (Q, r)"
    and "unat Q = (unat (Part_Hi a') * 2 ^ 32 + unat (Part_Lo a')) div unat (Part_Lo b')"
    using DIV_64_BY_32 by blast
  then have Q: "unat Q = unat a' div unat b'" using b'_bounds(2) by (simp add: unat_Part_Hi unat_Part_Lo)
  have "excess_bits (unat b) = k" using b'_bounds b' by (intro excess_bits_eq) simp_all
  then have "unat Q = trial_quotient (unat a) (unat b)" using Q a' b' by (simp add: trial_quotient_def)
  with norm div est Q show ?thesis by auto
qed

lemma divide_general_step:
  assumes "divide_normalize a b = (a', b')"
    and "ACPI_DIV_64_BY_32 (Part_Hi a') (Part_Lo a') (Part_Lo b') = Some (Q, r)"
    and "unat Q * unat b < 2 ^ 64"
  shows "divide_general a b =
      (if ucast Q * b > a then Some (overlay 0 (Q - 1), a - (ucast Q * b - b))
       else Some (overlay 0 Q, a - ucast Q * b))"
  unfolding divide_general_def assms(1) using assms(2) partial_products [OF assms(3)]
  by (simp add: Let_def halves_less neg_halves_cases split: prod.split)

lemma small_quotient:
  assumes "unat Q = unat a div unat b"
  shows "ucast Q = a div b" and "overlay 0 Q = a div b"
  using assms by (simp_all add: word_unat_eq_iff unat_up unat_overlay unat_div)

lemma divide_general_correct:
  assumes hi: "Part_Hi b \<noteq> 0" and nowrap: "trial_quotient (unat a) (unat b) * unat b < 2 ^ 64"
  shows "divide_general a b = Some (a div b, a mod b)"
proof -
  obtain a' b' Q r where norm: "divide_normalize a b = (a', b')"
    and div: "ACPI_DIV_64_BY_32 (Part_Hi a') (Part_Lo a') (Part_Lo b') = Some (Q, r)"
    and Q: "unat Q = trial_quotient (unat a) (unat b)"
    and est: "unat a div unat b \<le> unat Q" "unat Q \<le> unat a div unat b + 1"
    using general_quotient [OF hi] by blast
  have b: "0 < unat b" using Part_Hi_ge [OF hi] by (rule order_less_le_trans [rotated]) simp
  have fits: "unat Q * unat b < 2 ^ 64" using nowrap Q by simp
  then have R: "unat (ucast Q * b) = unat Q * unat b" by (simp add: unat_word_ariths unat_up)
  note step = divide_general_step [OF norm div fits]
  show ?thesis
  proof (cases "ucast Q * b > a")
    case True
    then have "\<not> unat Q \<le> unat a div unat b" using b R by (simp add: word_less_nat_alt less_eq_div_iff_mult_less_eq)
    with est(2) have Q: "unat Q = Suc (unat a div unat b)" by simp
    then have "Q \<noteq> 0" by auto
    with Q have "unat (Q - 1) = unat a div unat b" by (simp add: unat_pred)
    note q = small_quotient [OF this] and Q1 = this
    have "unat (ucast (Q - 1) + 1 :: u64) = unat (Q - 1) + 1"
      using unat_lt32 [of "Q - 1"] by (simp add: unat_word_ariths unat_up)
    then have "ucast Q = (ucast (Q - 1) + 1 :: u64)"
      using Q Q1 by (simp add: word_unat_eq_iff unat_up)
    then have "ucast Q * b - b = a div b * b" using q(1) by (simp only: distrib_right) simp
    then show ?thesis
      using True step q(2) minus_div_mult_eq_mod [of a b] by simp
  next
    case False
    then have "unat Q \<le> unat a div unat b" using b R by (simp add: word_less_nat_alt less_eq_div_iff_mult_less_eq)
    with est(1) have "unat Q = unat a div unat b" by simp
    then show ?thesis
      using False step small_quotient minus_div_mult_eq_mod [of a b] by simp
  qed
qed

text \<open>The product does not exceed 64 bits if the sum of the operands does not.\<close>

lemma trial_product_le_sum: "Part_Hi b \<noteq> 0 \<Longrightarrow> trial_quotient (unat a) (unat b) * unat b \<le> unat a + unat b"
  for a b :: u64
proof -
  assume "Part_Hi b \<noteq> 0"
  then have "trial_quotient (unat a) (unat b) \<le> unat a div unat b + 1" using general_quotient [of b a] by auto
  then have "trial_quotient (unat a) (unat b) * unat b \<le> (unat a div unat b + 1) * unat b" by (rule mult_le_mono1)
  also have "\<dots> \<le> unat a + unat b" by (simp add: distrib_right)
  finally show ?thesis .
qed

text \<open>The partial products give the trial product modulo \<open>2 ^ 64\<close>, also if it exceeds 64 bits.\<close>

lemma high_half_mult: "ucast (x * y) * 0x100000000 = ucast x * ucast y * (0x100000000 :: u64)"
  for x y :: u32
proof -
  have "unat (ucast (x * y) * 0x100000000 :: u64) = (unat x * unat y) mod 2 ^ 32 * 2 ^ 32 mod 2 ^ 64"
    by (simp add: unat_word_ariths unat_up)
  also have "\<dots> = unat x * unat y * 2 ^ 32 mod 2 ^ 64"
    using mod_mult_mult2 [of "unat x * unat y" "2 ^ 32" "2 ^ 32"] by simp
  also have "\<dots> = unat (ucast x * ucast y * 0x100000000 :: u64)"
    by (simp add: unat_word_ariths unat_up mod_mult_left_eq)
  finally show ?thesis by (simp only: word_unat_eq_iff)
qed

lemma high_half_Lo: "ucast (Part_Lo x) * 0x100000000 = x * (0x100000000 :: u64)"
  using high_half_vanishes [of "Part_Hi x" "ucast (Part_Lo x)"] by (simp only: overlay_plus [symmetric] overlay_Parts)

lemma trial_product:
  "overlay (Part_Lo (ucast (Part_Hi (ucast Q * ucast (Part_Lo b))) + ucast (Q * Part_Hi b))) (Part_Lo (ucast Q * ucast (Part_Lo b)))
     = ucast Q * b"
proof -
  define P2 where "P2 = (ucast Q * ucast (Part_Lo b) :: u64)"
  have "overlay (Part_Lo (ucast (Part_Hi P2) + ucast (Q * Part_Hi b))) (Part_Lo P2)
      = ucast (Part_Hi P2) * 0x100000000 + ucast (Part_Lo P2) + ucast (Q * Part_Hi b) * 0x100000000"
    by (simp only: overlay_plus high_half_Lo distrib_right add_ac)
  also have "\<dots> = P2 + ucast Q * ucast (Part_Hi b) * 0x100000000"
    by (simp only: overlay_plus [symmetric] overlay_Parts high_half_mult)
  also have "\<dots> = ucast Q * (ucast (Part_Hi b) * 0x100000000 + ucast (Part_Lo b))"
    unfolding P2_def by (simp only: distrib_left mult.assoc add.commute)
  also have "\<dots> = ucast Q * b" by (simp only: overlay_plus [symmetric] overlay_Parts)
  finally show ?thesis unfolding P2_def .
qed

lemma divide_general_overflow:
  assumes hi: "Part_Hi b \<noteq> 0" and big: "2 ^ 64 \<le> trial_quotient (unat a) (unat b) * unat b"
  shows "\<exists>r. divide_general a b = Some (a div b + 1, r)"
proof -
  obtain a' b' Q r where norm: "divide_normalize a b = (a', b')"
    and div: "ACPI_DIV_64_BY_32 (Part_Hi a') (Part_Lo a') (Part_Lo b') = Some (Q, r)"
    and Q: "unat Q = trial_quotient (unat a) (unat b)"
    and est: "unat a div unat b \<le> unat Q" "unat Q \<le> unat a div unat b + 1"
    using general_quotient [OF hi] by blast
  have b: "0 < unat b" using Part_Hi_ge [OF hi] by (rule order_less_le_trans [rotated]) simp
  have "unat a < unat Q * unat b" using big Q unat_lt64 [of a] by simp
  then have "unat Q \<noteq> unat a div unat b" using div_times_less_eq_dividend [of "unat a" "unat b"] by (metis not_less)
  with est have Q1: "unat Q = unat a div unat b + 1" by simp
  have "unat Q * unat b - 2 ^ 64 \<le> unat a"
    using trial_product_le_sum [OF hi, of a] Q unat_lt64 [of b] by simp
  moreover have "unat (ucast Q * b) = unat Q * unat b - 2 ^ 64"
  proof -
    have "unat Q * unat b < 2 * 2 ^ 64"
      using trial_product_le_sum [OF hi, of a] Q unat_lt64 [of b] unat_lt64 [of a] by simp
    then have "unat Q * unat b mod 2 ^ 64 = unat Q * unat b - 2 ^ 64"
      using big Q by (simp add: le_mod_geq)
    then show ?thesis by (simp add: unat_word_ariths unat_up)
  qed
  ultimately have "\<not> ucast Q * b > a" by (simp add: word_less_nat_alt not_less)
  then have "\<exists>r. divide_general a b = Some (overlay 0 Q, r)"
    unfolding divide_general_def norm using div
    by (simp add: Let_def halves_less trial_product split: prod.split)
  moreover have "overlay 0 Q = a div b + 1"
  proof -
    have "unat (a div b + 1) = unat a div unat b + 1"
      using Q1 unat_lt32 [of Q] unat_add_nowrap [of "a div b" 1] by (simp add: unat_div)
    then show ?thesis by (simp add: word_unat_eq_iff unat_overlay Q1)
  qed
  ultimately show ?thesis by simp
qed

lemma long_division:
  fixes a d :: nat
  assumes "0 < d"
  defines "n \<equiv> (a div 2 ^ 32 mod d) * 2 ^ 32 + a mod 2 ^ 32"
  shows "a div d = (a div 2 ^ 32 div d) * 2 ^ 32 + n div d" and "a mod d = n mod d"
proof -
  define h where "h = a div 2 ^ 32"
  have "a = h * 2 ^ 32 + a mod 2 ^ 32" by (simp add: h_def)
  moreover have "h * 2 ^ 32 = (h div d * d + h mod d) * 2 ^ 32" by (simp only: div_mult_mod_eq)
  moreover have "\<dots> = (h div d) * 2 ^ 32 * d + (h mod d) * 2 ^ 32" by (simp only: distrib_right ac_simps)
  ultimately have a: "a = (a div 2 ^ 32 div d) * 2 ^ 32 * d + n"
    unfolding n_def h_def [symmetric] by linarith
  show "a div d = (a div 2 ^ 32 div d) * 2 ^ 32 + n div d"
    using assms(1) by (subst a) simp
  show "a mod d = n mod d" by (subst a) simp
qed

lemma two_step_divide:
  assumes d: "d \<noteq> 0"
  shows "\<exists>qh r ql r'. ACPI_DIV_64_BY_32 0 (Part_Hi a) d = Some (qh, r)
    \<and> ACPI_DIV_64_BY_32 r (Part_Lo a) d = Some (ql, r')
    \<and> overlay qh ql = a div ucast d \<and> unat r' = unat a mod unat d"
proof -
  have pos: "0 < unat d" using d by (simp add: unat_gt_0)
  obtain qh r where 1: "ACPI_DIV_64_BY_32 0 (Part_Hi a) d = Some (qh, r)"
    "unat qh = unat a div 2 ^ 32 div unat d" "unat r = unat a div 2 ^ 32 mod unat d"
    using DIV_64_BY_32 [OF d, of 0 "Part_Hi a"] pos by (auto simp: unat_Part_Hi)
  then have "unat r < unat d" using pos by simp
  then obtain ql r' where 2: "ACPI_DIV_64_BY_32 r (Part_Lo a) d = Some (ql, r')"
    "unat ql = (unat r * 2 ^ 32 + unat a mod 2 ^ 32) div unat d"
    "unat r' = (unat r * 2 ^ 32 + unat a mod 2 ^ 32) mod unat d"
    using DIV_64_BY_32 [OF d, of r "Part_Lo a"] by (auto simp: unat_Part_Lo)
  have "unat (overlay qh ql) = unat (a div ucast d)"
    using long_division(1) [OF pos, of "unat a"] 1 2 by (simp only: unat_overlay unat_div unat_up)
  moreover have "unat r' = unat a mod unat d"
    using long_division(2) [OF pos, of "unat a"] 1 2 by (simp only:)
  ultimately show ?thesis using 1(1) 2(1) by (auto simp: word_unat_eq_iff)
qed

lemma short_divide_eq:
  "AcpiUtShortDivide a d outq outr = Some (AcpiUtShortDivide_native a d outq outr)"
proof (cases "d = 0")
  case False
  then obtain qh r ql r' where *: "ACPI_DIV_64_BY_32 0 (Part_Hi a) d = Some (qh, r)"
    "ACPI_DIV_64_BY_32 r (Part_Lo a) d = Some (ql, r')"
    "overlay qh ql = a div ucast d" "unat r' = unat a mod unat d"
    using two_step_divide by blast
  have "unat (ucast (a mod ucast d) :: u32) = unat a mod unat d"
    using False unat_lt32 [of d] by (simp add: unsigned_ucast_eq unat_mod unat_up take_bit_nat_eq_self
        order_less_trans [OF mod_less_divisor] unat_gt_0)
  then have "r' = ucast (a mod ucast d)" using *(4) by (simp add: word_unat_eq_iff)
  with * False show ?thesis by (simp add: AcpiUtShortDivide_def AcpiUtShortDivide_native_def)
qed (simp add: AcpiUtShortDivide_def AcpiUtShortDivide_native_def)

lemma divide_32_bit:
  assumes "Part_Hi d = 0" and "d \<noteq> 0"
  shows "AcpiUtDivide a d outq outr = Some (AcpiUtDivide_native a d outq outr)"
proof -
  have d: "ucast (Part_Lo d) = d"
    using overlay_Parts [of d] assms(1) by (simp add: overlay_plus)
  with assms(2) have "Part_Lo d \<noteq> 0" by auto
  then obtain qh r ql r' where *: "ACPI_DIV_64_BY_32 0 (Part_Hi a) (Part_Lo d) = Some (qh, r)"
    "ACPI_DIV_64_BY_32 r (Part_Lo a) (Part_Lo d) = Some (ql, r')"
    "overlay qh ql = a div d" "unat r' = unat a mod unat (Part_Lo d)"
    using two_step_divide [of "Part_Lo d" a] d by auto
  have "unat (Part_Lo d) = unat d" using d unat_up [of "Part_Lo d"] by simp
  then have "overlay 0 r' = a mod d" using *(4) by (simp add: word_unat_eq_iff unat_overlay unat_mod)
  with * assms show ?thesis by (simp add: AcpiUtDivide_def AcpiUtDivide_native_def)
qed

lemma divide_eq:
  assumes "Part_Hi d = 0 \<or> trial_quotient (unat a) (unat d) * unat d < 2 ^ 64"
  shows "AcpiUtDivide a d outq outr = Some (AcpiUtDivide_native a d outq outr)"
proof (cases "Part_Hi d = 0")
  case True
  then show ?thesis
    using divide_32_bit [OF True] by (cases "d = 0") (auto simp: AcpiUtDivide_def AcpiUtDivide_native_def)
next
  case False
  then show ?thesis
    using assms divide_general_correct [OF False]
    by (auto simp: AcpiUtDivide_def AcpiUtDivide_native_def dest: Part_Hi_nonzero)
qed

text \<open>No build of \<open>AcpiUtDivide\<close> raises a divide error.\<close>

lemma divide_total: "\<exists>r. AcpiUtDivide a d outq outr = Some r"
proof (cases "Part_Hi d = 0")
  case True
  then show ?thesis using divide_eq by blast
next
  case False
  obtain a' b' Q r where "divide_normalize a d = (a', b')"
    "ACPI_DIV_64_BY_32 (Part_Hi a') (Part_Lo a') (Part_Lo b') = Some (Q, r)"
    using general_quotient [OF False] by blast
  then have "\<exists>x. divide_general a d = Some x" by (simp add: divide_general_def Let_def split: prod.split)
  with False show ?thesis by (auto simp: AcpiUtDivide_def dest: Part_Hi_nonzero)
qed

section \<open>Properties\<close>

text \<open>
  The portable multiply and shifts, which work on 32-bit halves, compute the same as
  the native 64-bit operations: the product modulo \<open>2 ^ 64\<close>, and the shifts for every count
  below 64; above that they shift by the count modulo 64, where C leaves the native shift
  undefined.
\<close>

theorem portable_math_equals_native:
  "AcpiUtShortMultiply a m out = AcpiUtShortMultiply_native a m out
   \<and> AcpiUtShortShiftLeft a c True = (AE_OK, Some (push_bit (unat c mod 64) a))
   \<and> AcpiUtShortShiftRight a c True = (AE_OK, Some (drop_bit (unat c mod 64) a))
   \<and> AcpiUtShortShiftLeft_native a c True
      = (if unat c < 64 then Some (AcpiUtShortShiftLeft a c True) else None)
   \<and> AcpiUtShortShiftRight_native a c True
      = (if unat c < 64 then Some (AcpiUtShortShiftRight a c True) else None)"
  by (simp add: short_multiply_eq short_shift_left_eq short_shift_right_eq
      AcpiUtShortShiftLeft_native_def AcpiUtShortShiftRight_native_def)

text \<open>
  The portable 64-by-32-bit division never raises a divide error and returns the
  quotient and remainder of the native one; a zero divisor is reported as
  \<open>AE_AML_DIVIDE_BY_ZERO\<close> with nothing stored.
\<close>

theorem portable_short_divide_equals_native:
  "AcpiUtShortDivide a d outq outr = Some (AcpiUtShortDivide_native a d outq outr)
   \<and> AcpiUtShortDivide a 0 outq outr = Some (AE_AML_DIVIDE_BY_ZERO, None, None)"
  using short_divide_eq [of a d outq outr] by (simp add: AcpiUtShortDivide_def)

text \<open>
  C24. The portable 64-by-64-bit division always returns, and it returns quotient and remainder of the native one exactly
  if the divisor has 32 bits or the trial product, the trial quotient times the divisor, has 64 bits;
  that is so if the sum of the operands has 64 bits. Otherwise the quotient is one too large.
\<close>

theorem portable_divide_equals_native:
  "(if unat d < 2 ^ 32 \<or> trial_quotient (unat a) (unat d) * unat d < 2 ^ 64
    then AcpiUtDivide a d outq outr = Some (AcpiUtDivide_native a d outq outr)
    else \<exists>r. AcpiUtDivide a d True outr = Some (AE_OK, Some (a div d + 1), r))
   \<and> (unat a + unat d < 2 ^ 64 \<longrightarrow> unat d < 2 ^ 32 \<or> trial_quotient (unat a) (unat d) * unat d < 2 ^ 64)"
proof -
  have hi: "Part_Hi d = 0 \<longleftrightarrow> unat d < 2 ^ 32" by (auto simp: word_unat_eq_iff unat_Part_Hi)
  have "\<exists>r. AcpiUtDivide a d True outr = Some (AE_OK, Some (a div d + 1), r)"
    if "\<not> (unat d < 2 ^ 32 \<or> trial_quotient (unat a) (unat d) * unat d < 2 ^ 64)"
  proof -
    have "Part_Hi d \<noteq> 0" using that hi by blast
    moreover have "2 ^ 64 \<le> trial_quotient (unat a) (unat d) * unat d" using that by linarith
    ultimately obtain r where "divide_general a d = Some (a div d + 1, r)"
      using divide_general_overflow by blast
    then show ?thesis using \<open>Part_Hi d \<noteq> 0\<close> by (auto simp: AcpiUtDivide_def dest: Part_Hi_nonzero)
  qed
  then show ?thesis using divide_eq [of d a outq outr] trial_product_le_sum [of d a] hi by fastforce
qed

text \<open>A trial product that fits although the sum of the operands does not.\<close>

theorem portable_divide_equals_native_witness:
  "trial_quotient 0xFFFFFFFFFFFFFFFF 0x200000000 * 0x200000000 < 2 ^ 64
   \<and> AcpiUtDivide 0xFFFFFFFFFFFFFFFF 0x200000000 True True = Some (AE_OK, Some 0x7FFFFFFF, Some 0x1FFFFFFFF)"
proof -
  have t: "trial_quotient 0xFFFFFFFFFFFFFFFF 0x200000000 * 0x200000000 < 2 ^ 64"
    by (simp add: trial_quotient_def excess_bits.simps)
  then show ?thesis
    using portable_divide_equals_native [THEN conjunct1, of "0x200000000" "0xFFFFFFFFFFFFFFFF" True True]
    by (simp add: AcpiUtDivide_native_def)
qed

text \<open>
  Outside that range the portable division is wrong: the estimated quotient times the
  divisor can exceed 64 bits (\<open>Partial3.Part.Hi\<close> is then not zero), and the code then skips
  the correction of the quotient and the computation of the remainder.
\<close>

theorem portable_divide_wrong_on_overflow:
  "AcpiUtDivide 0xFFFFFFFFFFFFFFFF 0x100000003 True True = Some (AE_OK, Some 0xFFFFFFFE, Some 0xFFFFFFFA)
   \<and> AcpiUtDivide_native 0xFFFFFFFFFFFFFFFF 0x100000003 True True = (AE_OK, Some 0xFFFFFFFD, Some 8)"
  by code_simp

end
