(* ===== verification/StrConv.thy ===== *)
theory StrConv
  imports Ctype Math64
begin

text \<open>
  String and integer conversion: \<^verbatim>\<open>uthex.c\<close>, \<^verbatim>\<open>utstrsuppt.c\<close>, \<^verbatim>\<open>utstrtoul64.c\<close> and the
  \<open>strtoul\<close> of \<^verbatim>\<open>utclib.c\<close>.

  A \<open>char *\<close> that only moves forward is the list of the bytes from it to the end of its
  buffer; \<open>deref\<close> reads the byte it points to (the null terminator at the end) and moving
  the pointer drops bytes. The global \<open>AcpiGbl_IntegerBitWidth\<close> is an argument, and a result
  of the one function that changes it. The functions are those of the run-time build
  (\<open>ACPI_ASL_COMPILER\<close> undefined) with the native 64-bit arithmetic.
\<close>

section \<open>Characters\<close>

definition deref :: "u8 list \<Rightarrow> u8" where
  "deref s = (case s of [] \<Rightarrow> 0 | c # _ \<Rightarrow> c)"

definition ACPI_ASCII_ZERO :: u8 where
  "ACPI_ASCII_ZERO = 0x30"

definition ACPI_IS_OCTAL_DIGIT :: "int \<Rightarrow> bool" where
  "ACPI_IS_OCTAL_DIGIT d \<longleftrightarrow> 48 \<le> d \<and> d \<le> 55"

definition AcpiGbl_HexToAscii :: "u8 list" where
  "AcpiGbl_HexToAscii = [48, 49, 50, 51, 52, 53, 54, 55, 56, 57, 65, 66, 67, 68, 69, 70]"

definition AcpiUtHexToAsciiChar :: "u64 \<Rightarrow> u32 \<Rightarrow> u8 option" where
  "AcpiUtHexToAsciiChar Integer Position =
     (case AcpiUtShortShiftRight_native Integer Position True of
        Some (_, Some Index) \<Rightarrow> Some (AcpiGbl_HexToAscii ! unat (Index AND 0xF))
      | _ \<Rightarrow> None)"

definition AcpiUtAsciiCharToHex :: "int \<Rightarrow> u8" where
  "AcpiUtAsciiCharToHex HexChar =
     (if HexChar \<le> 57 then word_of_int (HexChar - 48)
      else if HexChar \<le> 70 then word_of_int (HexChar - 0x37)
      else word_of_int (HexChar - 0x57))"

definition AcpiUtAsciiToHexByte :: "u8 \<Rightarrow> u8 \<Rightarrow> acpi_status \<times> u8 option" where
  "AcpiUtAsciiToHexByte Char0 Char1 =
     (if \<not> isxdigit (sint Char0) \<or> \<not> isxdigit (sint Char1) then (AE_BAD_HEX_CONSTANT, None)
      else (AE_OK, Some (AcpiUtAsciiCharToHex (sint Char1)
                           OR push_bit 4 (AcpiUtAsciiCharToHex (sint Char0)))))"

section \<open>Accumulating digits\<close>

definition ACPI_UINT32_MAX :: u64 where "ACPI_UINT32_MAX = 0xFFFFFFFF"
definition ACPI_UINT64_MAX :: u64 where "ACPI_UINT64_MAX = 0xFFFFFFFFFFFFFFFF"

definition AcpiUtStrtoulMultiply64 :: "u8 \<Rightarrow> u64 \<Rightarrow> u32 \<Rightarrow> acpi_status \<times> u64" where
  "AcpiUtStrtoulMultiply64 IntegerBitWidth Multiplicand Base =
     (if Multiplicand = 0 \<or> Base = 0 then (AE_OK, 0)
      else case AcpiUtShortDivide_native ACPI_UINT64_MAX Base True False of
        (_, OutQuotient, _) \<Rightarrow>
          (case OutQuotient of
             Some q \<Rightarrow>
               if Multiplicand > q then (AE_NUMERIC_OVERFLOW, 0)
               else let Product = Multiplicand * ucast Base
                    in if IntegerBitWidth = 32 \<and> Product > ACPI_UINT32_MAX
                       then (AE_NUMERIC_OVERFLOW, 0)
                       else (AE_OK, Product)
           | None \<Rightarrow> (AE_AML_DIVIDE_BY_ZERO, 0)))"

text \<open>\<open>None\<close> in the second component: the sum was not stored.\<close>

definition AcpiUtStrtoulAdd64 :: "u8 \<Rightarrow> u64 \<Rightarrow> u32 \<Rightarrow> acpi_status \<times> u64 option" where
  "AcpiUtStrtoulAdd64 IntegerBitWidth Addend1 Digit =
     (if Addend1 > 0 \<and> ucast Digit > ACPI_UINT64_MAX - Addend1 then (AE_NUMERIC_OVERFLOW, None)
      else let Sum = Addend1 + ucast Digit
           in if IntegerBitWidth = 32 \<and> Sum > ACPI_UINT32_MAX then (AE_NUMERIC_OVERFLOW, None)
              else (AE_OK, Some Sum))"

definition AcpiUtInsertDigit :: "u8 \<Rightarrow> u64 \<Rightarrow> u32 \<Rightarrow> int \<Rightarrow> acpi_status \<times> u64" where
  "AcpiUtInsertDigit IntegerBitWidth AccumulatedValue Base AsciiDigit =
     (let (Status, Product) = AcpiUtStrtoulMultiply64 IntegerBitWidth AccumulatedValue Base
      in if ACPI_FAILURE Status then (Status, AccumulatedValue)
         else let (Status, Sum) = AcpiUtStrtoulAdd64 IntegerBitWidth Product
                                    (ucast (AcpiUtAsciiCharToHex AsciiDigit))
              in (Status, case Sum of Some v \<Rightarrow> v | None \<Rightarrow> AccumulatedValue))"

text \<open>
  The loop that the three conversion routines share but for the digit test, the base and
  the overflow code.
\<close>

fun convert_loop ::
  "(int \<Rightarrow> bool) \<Rightarrow> u32 \<Rightarrow> acpi_status \<Rightarrow> u8 \<Rightarrow> u64 \<Rightarrow> u8 list \<Rightarrow> acpi_status \<times> u64" where
  "convert_loop IsDigit Base Overflow w AccumulatedValue [] = (AE_OK, AccumulatedValue)"
| "convert_loop IsDigit Base Overflow w AccumulatedValue (c # cs) =
     (if c = 0 then (AE_OK, AccumulatedValue)
      else if \<not> IsDigit (sint c) then (AE_OK, AccumulatedValue)
      else let (Status, AccumulatedValue) = AcpiUtInsertDigit w AccumulatedValue Base (sint c)
           in if ACPI_FAILURE Status then (Overflow, AccumulatedValue)
              else convert_loop IsDigit Base Overflow w AccumulatedValue cs)"

definition AcpiUtConvertOctalString :: "u8 \<Rightarrow> u8 list \<Rightarrow> acpi_status \<times> u64" where
  "AcpiUtConvertOctalString w String = convert_loop ACPI_IS_OCTAL_DIGIT 8 AE_OCTAL_OVERFLOW w 0 String"

definition AcpiUtConvertDecimalString :: "u8 \<Rightarrow> u8 list \<Rightarrow> acpi_status \<times> u64" where
  "AcpiUtConvertDecimalString w String = convert_loop isdigit 10 AE_DECIMAL_OVERFLOW w 0 String"

definition AcpiUtConvertHexString :: "u8 \<Rightarrow> u8 list \<Rightarrow> acpi_status \<times> u64" where
  "AcpiUtConvertHexString w String = convert_loop isxdigit 16 AE_HEX_OVERFLOW w 0 String"

section \<open>Prefixes\<close>

fun AcpiUtRemoveLeadingZeros :: "u8 list \<Rightarrow> u8 \<times> u8 list" where
  "AcpiUtRemoveLeadingZeros [] = (0, [])"
| "AcpiUtRemoveLeadingZeros (c # cs) =
     (if c = ACPI_ASCII_ZERO then AcpiUtRemoveLeadingZeros cs else (c, c # cs))"

fun AcpiUtRemoveWhitespace :: "u8 list \<Rightarrow> u8 \<times> u8 list" where
  "AcpiUtRemoveWhitespace [] = (0, [])"
| "AcpiUtRemoveWhitespace (c # cs) =
     (if isspace (uint c) then AcpiUtRemoveWhitespace cs else (c, c # cs))"

definition AcpiUtRemoveHexPrefix :: "u8 list \<Rightarrow> u8 list" where
  "AcpiUtRemoveHexPrefix String =
     (if deref String = ACPI_ASCII_ZERO \<and> tolower (sint (deref (drop 1 String))) = 120
      then drop 2 String else String)"

definition AcpiUtDetectHexPrefix :: "u8 list \<Rightarrow> bool \<times> u8 list" where
  "AcpiUtDetectHexPrefix String =
     (let String' = AcpiUtRemoveHexPrefix String
      in (length String' \<noteq> length String, String'))"

definition AcpiUtDetectOctalPrefix :: "u8 list \<Rightarrow> bool \<times> u8 list" where
  "AcpiUtDetectOctalPrefix String =
     (if deref String = ACPI_ASCII_ZERO then (True, drop 1 String) else (False, String))"

section \<open>The conversion interfaces\<close>

text \<open>Status, \<open>*ReturnValue\<close> and \<open>AcpiGbl_IntegerBitWidth\<close> on return.\<close>

definition AcpiUtStrtoul64 :: "u8 \<Rightarrow> u8 list \<Rightarrow> acpi_status \<times> u64 \<times> u8" where
  "AcpiUtStrtoul64 IntegerBitWidth String =
     (if deref String = 0 then (AE_OK, 0, IntegerBitWidth)
      else let (c, String) = AcpiUtRemoveWhitespace String in
        if c = 0 then (AE_OK, 0, IntegerBitWidth)
        else let (hex, String) = AcpiUtDetectHexPrefix String;
                 (octal, String) = (if hex then (False, String) else AcpiUtDetectOctalPrefix String);
                 Base = (if hex then 16 else if octal then 8 else 10 :: nat);
                 (c, String) = AcpiUtRemoveLeadingZeros String
             in if c = 0 then (AE_OK, 0, IntegerBitWidth)
                else let OriginalBitWidth = IntegerBitWidth;
                         IntegerBitWidth = 64;
                         (Status, ReturnValue) =
                           (if Base = 8 then AcpiUtConvertOctalString IntegerBitWidth String
                            else if Base = 10 then AcpiUtConvertDecimalString IntegerBitWidth String
                            else AcpiUtConvertHexString IntegerBitWidth String)
                     in (Status, ReturnValue, OriginalBitWidth))"

definition AcpiUtImplicitStrtoul64 :: "u8 \<Rightarrow> u8 list \<Rightarrow> u64" where
  "AcpiUtImplicitStrtoul64 IntegerBitWidth String =
     (let (c, String) = AcpiUtRemoveWhitespace String in
      if c = 0 then 0
      else let String = AcpiUtRemoveHexPrefix String;
               (c, String) = AcpiUtRemoveLeadingZeros String
           in if c = 0 then 0 else snd (AcpiUtConvertHexString IntegerBitWidth String))"

definition AcpiUtExplicitStrtoul64 :: "u8 \<Rightarrow> u8 list \<Rightarrow> u64" where
  "AcpiUtExplicitStrtoul64 IntegerBitWidth String =
     (let (c, String) = AcpiUtRemoveWhitespace String in
      if c = 0 then 0
      else let (hex, String) = AcpiUtDetectHexPrefix String;
               (c, String) = AcpiUtRemoveLeadingZeros String
           in if c = 0 then 0
              else if hex then snd (AcpiUtConvertHexString IntegerBitWidth String)
              else snd (AcpiUtConvertDecimalString IntegerBitWidth String))"

section \<open>The 32-bit \<open>strtoul\<close>\<close>

text \<open>
  The main loop: \<open>Status = AE_ERROR\<close> is sticky, the value is reset on an overflow. The result
  is the pointer at which the loop stopped, \<open>ReturnValue\<close>, \<open>converted\<close> and whether the
  status is \<open>AE_ERROR\<close>.
\<close>

fun strtoul_loop :: "u32 \<Rightarrow> u8 list \<Rightarrow> u32 \<Rightarrow> bool \<Rightarrow> bool \<Rightarrow> u8 list \<times> u32 \<times> bool \<times> bool" where
  "strtoul_loop Base [] ReturnValue converted error = ([], ReturnValue, converted, error)"
| "strtoul_loop Base (c # cs) ReturnValue converted error =
     (if c = 0 then (c # cs, ReturnValue, converted, error)
      else let index = (if isdigit (sint c) then Some (ucast c - 48)
                        else let i = word_of_int (toupper (sint c)) :: u32
                             in if isupper (uint i) then Some (i - 65 + 10) else None)
           in case index of
                None \<Rightarrow> (c # cs, ReturnValue, converted, error)
              | Some index \<Rightarrow>
                  if index \<ge> Base then (c # cs, ReturnValue, converted, error)
                  else if ReturnValue > (0xFFFFFFFF - index) div Base
                  then strtoul_loop Base cs 0 converted True
                  else strtoul_loop Base cs (ReturnValue * Base + index) True error)"

fun strtoul_space :: "u8 list \<Rightarrow> u8 list" where
  "strtoul_space [] = []"
| "strtoul_space (c # cs) = (if isspace (sint c) \<or> c = 9 then strtoul_space cs else c # cs)"

text \<open>The value and what is stored through \<open>Terminator\<close>.\<close>

definition strtoul :: "u8 list \<Rightarrow> u32 \<Rightarrow> u32 \<times> u8 list" where
  "strtoul StringStart Base =
     (let String = strtoul_space StringStart;
          (negative, String) = (if deref String = 45 then (True, drop 1 String)
                                else if deref String = 43 then (False, drop 1 String)
                                else (False, String));
          (Base, String, valid) =
            (if Base = 0
             then if deref String = 48
                  then let String = drop 1 String
                       in if tolower (sint (deref String)) = 120 then (16, drop 1 String, True)
                          else (8, String, True)
                  else (10, String, True)
             else if Base < 2 \<or> Base > 36 then (Base, String, False)
             else (Base, String, True));
          (String, ReturnValue, converted, error) =
            (if \<not> valid then (String, 0, False, False)
             else let String = (if Base = 8 \<and> deref String = 48 then drop 1 String else String);
                      String = (if Base = 16 \<and> deref String = 48
                                then let String = drop 1 String
                                     in if tolower (sint (deref String)) = 120 then drop 1 String
                                        else String
                                else String)
                  in strtoul_loop Base String 0 False False);
          Terminator = (if \<not> converted \<and> ReturnValue = 0 then StringStart else String);
          ReturnValue = (if error then 0xFFFFFFFF else ReturnValue)
      in (if negative then (0xFFFFFFFF - ReturnValue) + 1 else ReturnValue, Terminator))"

section \<open>Digits and their values\<close>

text \<open>The value of a character as a hexadecimal digit, and of a digit string in a base.\<close>

definition digit_val :: "u8 \<Rightarrow> nat" where
  "digit_val c = unat (AcpiUtAsciiCharToHex (sint c))"

definition value_of :: "nat \<Rightarrow> nat \<Rightarrow> u8 list \<Rightarrow> nat" where
  "value_of base acc ds = foldl (\<lambda>a c. a * base + digit_val c) acc ds"

lemma value_of_simps [simp]:
  "value_of base acc [] = acc"
  "value_of base acc (c # cs) = value_of base (acc * base + digit_val c) cs"
  by (simp_all add: value_of_def)

lemma value_of_mono: "acc \<le> value_of base acc ds" if "0 < base"
proof (induction ds arbitrary: acc)
  case (Cons c cs)
  have "acc \<le> acc * base + digit_val c" using that by (simp add: trans_le_add1)
  also have "\<dots> \<le> value_of base (acc * base + digit_val c) cs" by (rule Cons)
  finally show ?case by simp
qed simp

text \<open>Both integer widths that the global can hold.\<close>

definition width_ok :: "u8 \<Rightarrow> bool" where
  "width_ok w \<longleftrightarrow> w = 32 \<or> w = 64"

lemma multiply64_spec:
  assumes "width_ok w" and "Base \<noteq> 0"
  shows "AcpiUtStrtoulMultiply64 w a Base =
    (if unat a * unat Base < 2 ^ unat w then (AE_OK, a * ucast Base) else (AE_NUMERIC_OVERFLOW, 0))"
proof (cases "a = 0")
  case False
  have pos: "0 < unat Base" using assms(2) by (simp add: unat_gt_0)
  have q: "a > ACPI_UINT64_MAX div ucast Base \<longleftrightarrow> 2 ^ 64 \<le> unat a * unat Base"
  proof -
    have "unat a \<le> (2 ^ 64 - 1) div unat Base \<longleftrightarrow> unat a * unat Base \<le> 2 ^ 64 - 1"
      using pos by (rule less_eq_div_iff_mult_less_eq)
    then show ?thesis
      by (auto simp: word_less_nat_alt unat_div unat_up ACPI_UINT64_MAX_def)
  qed
  show ?thesis
  proof (cases "unat a * unat Base < 2 ^ 64")
    case True
    then have "unat (a * ucast Base) = unat a * unat Base" by (simp add: unat_word_ariths unat_up)
    with True False q assms show ?thesis
      by (auto simp: AcpiUtStrtoulMultiply64_def AcpiUtShortDivide_native_def width_ok_def Let_def
          ACPI_UINT32_MAX_def word_less_nat_alt)
  next
    case big: False
    then have "\<not> unat a * unat Base < 2 ^ unat w"
      using assms(1) by (auto simp: width_ok_def)
    then show ?thesis
      using big False q assms(2)
      by (auto simp: AcpiUtStrtoulMultiply64_def AcpiUtShortDivide_native_def)
  qed
qed (simp add: AcpiUtStrtoulMultiply64_def)

lemma add64_spec:
  assumes "width_ok w" and "unat p < 2 ^ unat w"
  shows "AcpiUtStrtoulAdd64 w p d =
    (if unat p + unat d < 2 ^ unat w then (AE_OK, Some (p + ucast d))
     else (AE_NUMERIC_OVERFLOW, None))"
proof -
  have wrap: "p > 0 \<and> ucast d > ACPI_UINT64_MAX - p \<longleftrightarrow> 2 ^ 64 \<le> unat p + unat d"
    using unat_lt64 [of p] unat_lt32 [of d]
    by (auto simp: word_less_nat_alt unat_up ACPI_UINT64_MAX_def unat_sub word_le_nat_alt unat_gt_0)
  have "unat (p + ucast d) = unat p + unat d" if "unat p + unat d < 2 ^ 64"
    using that by (simp add: unat_word_ariths unat_up)
  then show ?thesis
    using wrap assms by (auto simp: AcpiUtStrtoulAdd64_def width_ok_def Let_def ACPI_UINT32_MAX_def
        word_less_nat_alt)
qed

lemma insert_digit_spec:
  assumes w: "width_ok w" and "Base \<noteq> 0" and acc: "unat acc < 2 ^ unat w"
  shows "AcpiUtInsertDigit w acc Base (sint c) =
    (let v = unat acc * unat Base + digit_val c
     in if v < 2 ^ unat w then (AE_OK, of_nat v) else (AE_NUMERIC_OVERFLOW, acc))"
proof (cases "unat acc * unat Base < 2 ^ unat w")
  case True
  let ?d = "ucast (AcpiUtAsciiCharToHex (sint c)) :: u32"
  have d: "unat ?d = digit_val c"
    by (simp add: digit_val_def unsigned_ucast_eq take_bit_nat_eq_self order_less_trans [OF unsigned_less])
  have "(2 :: nat) ^ unat w \<le> 2 ^ 64" using w by (auto simp: width_ok_def)
  then have p: "unat (acc * ucast Base) = unat acc * unat Base"
    using True by (simp add: unat_word_ariths unat_up)
  have sum: "acc * ucast Base + ucast ?d = of_nat (unat acc * unat Base + unat ?d)"
    by (simp add: of_nat_unat)
  show ?thesis
    using True p d sum add64_spec [OF w, of "acc * ucast Base" ?d] multiply64_spec [OF w assms(2), of acc]
    by (simp add: AcpiUtInsertDigit_def Let_def ACPI_FAILURE_def)
next
  case False
  then have "\<not> unat acc * unat Base + digit_val c < 2 ^ unat w" by simp
  with False show ?thesis
    using multiply64_spec [OF w assms(2), of acc] by (simp add: AcpiUtInsertDigit_def ACPI_FAILURE_def)
qed

text \<open>The value of the longest prefix of the digits that stays below a limit.\<close>

fun fit_prefix :: "nat \<Rightarrow> nat \<Rightarrow> nat \<Rightarrow> u8 list \<Rightarrow> nat" where
  "fit_prefix base lim acc [] = acc"
| "fit_prefix base lim acc (c # cs) =
     (let v = acc * base + digit_val c in if v < lim then fit_prefix base lim v cs else acc)"

lemma fit_prefix_all: "0 < base \<Longrightarrow> value_of base acc ds < lim \<Longrightarrow> fit_prefix base lim acc ds = value_of base acc ds"
proof (induction ds arbitrary: acc)
  case (Cons c cs)
  then have "acc * base + digit_val c < lim"
    using value_of_mono [of base "acc * base + digit_val c" cs] by simp
  with Cons show ?case by (simp add: Let_def)
qed simp

lemma fit_prefix_take:
  "\<exists>k \<le> length ds. fit_prefix base lim acc ds = value_of base acc (take k ds)
     \<and> (k < length ds \<longrightarrow> lim \<le> value_of base acc (take (Suc k) ds))"
proof (induction ds arbitrary: acc)
  case (Cons c cs)
  show ?case
  proof (cases "acc * base + digit_val c < lim")
    case True
    then show ?thesis using Cons [of "acc * base + digit_val c"] by (force simp: Let_def intro: exI [of _ "Suc _"])
  next
    case False
    then show ?thesis by (intro exI [of _ 0]) (simp add: Let_def)
  qed
qed simp

text \<open>A string of digits and what follows it.\<close>

definition digits :: "(int \<Rightarrow> bool) \<Rightarrow> u8 list \<Rightarrow> bool" where
  "digits IsDigit ds \<longleftrightarrow> (\<forall>c \<in> set ds. c \<noteq> 0 \<and> IsDigit (sint c))"

definition stops :: "(int \<Rightarrow> bool) \<Rightarrow> u8 list \<Rightarrow> bool" where
  "stops IsDigit rest \<longleftrightarrow> deref rest = 0 \<or> \<not> IsDigit (sint (deref rest))"

lemma convert_loop_stops: "stops D rest \<Longrightarrow> convert_loop D B ovf w acc rest = (AE_OK, acc)"
  by (cases rest) (auto simp: stops_def deref_def)

lemma convert_loop_spec:
  assumes w: "width_ok w" and B: "Base \<noteq> 0"
  shows "digits D ds \<Longrightarrow> stops D rest \<Longrightarrow> acc < 2 ^ unat w \<Longrightarrow>
    convert_loop D Base ovf w (of_nat acc) (ds @ rest) =
      (if value_of (unat Base) acc ds < 2 ^ unat w then AE_OK else ovf,
       of_nat (fit_prefix (unat Base) (2 ^ unat w) acc ds))"
proof (induction ds arbitrary: acc)
  case Nil
  then show ?case by (simp add: convert_loop_stops)
next
  case (Cons c cs)
  let ?v = "acc * unat Base + digit_val c"
  have "(2 :: nat) ^ unat w \<le> 2 ^ 64" using w by (auto simp: width_ok_def)
  then have acc: "unat (of_nat acc :: u64) = acc"
    using Cons.prems(3) by (simp add: unat_of_nat_lt)
  have c: "c \<noteq> 0" "D (sint c)" using Cons.prems(1) by (auto simp: digits_def)
  have pos: "0 < unat Base" using B by (simp add: unat_gt_0)
  note ins = insert_digit_spec [OF w B, of "of_nat acc" c, unfolded acc, OF Cons.prems(3)]
  show ?case
  proof (cases "?v < 2 ^ unat w")
    case True
    then show ?thesis
      using Cons.IH [OF _ Cons.prems(2) True] Cons.prems(1) c ins
      by (simp add: digits_def Let_def ACPI_FAILURE_def)
  next
    case False
    then have "\<not> value_of (unat Base) ?v cs < 2 ^ unat w"
      using value_of_mono [OF pos, of ?v cs] by simp
    with False show ?thesis using c ins by (simp add: Let_def ACPI_FAILURE_def)
  qed
qed

section \<open>Conversions with prefixes\<close>

lemma RemoveLeadingZeros_stop: "deref s \<noteq> 48 \<Longrightarrow> AcpiUtRemoveLeadingZeros s = (deref s, s)"
  by (cases s) (auto simp: deref_def ACPI_ASCII_ZERO_def)

text \<open>The tail of the three interfaces: skip leading zeros, return 0 at the end, else convert.\<close>

definition skip_and_convert ::
  "(int \<Rightarrow> bool) \<Rightarrow> u32 \<Rightarrow> acpi_status \<Rightarrow> u8 \<Rightarrow> u8 list \<Rightarrow> acpi_status \<times> u64" where
  "skip_and_convert D Base ovf w s =
     (let (c, s') = AcpiUtRemoveLeadingZeros s in if c = 0 then (AE_OK, 0) else convert_loop D Base ovf w 0 s')"

lemma skip_and_convert_spec:
  assumes w: "width_ok w" and B: "Base \<noteq> 0" and D: "D 48"
  shows "digits D ds \<Longrightarrow> stops D rest \<Longrightarrow> skip_and_convert D Base ovf w (ds @ rest) =
      (if value_of (unat Base) 0 ds < 2 ^ unat w then AE_OK else ovf,
       of_nat (fit_prefix (unat Base) (2 ^ unat w) 0 ds))"
proof (induction ds)
  case Nil
  then have "deref rest \<noteq> 48" using D by (auto simp: stops_def)
  with Nil show ?case by (simp add: skip_and_convert_def RemoveLeadingZeros_stop convert_loop_stops)
next
  case (Cons c cs)
  show ?case
  proof (cases "c = 48")
    case True
    then have "digit_val c = 0" by (simp add: digit_val_def AcpiUtAsciiCharToHex_def)
    with True Cons show ?thesis
      by (simp add: skip_and_convert_def ACPI_ASCII_ZERO_def digits_def Let_def)
  next
    case False
    then have "AcpiUtRemoveLeadingZeros (c # cs @ rest) = (c, c # cs @ rest)"
      by (simp add: ACPI_ASCII_ZERO_def)
    moreover have "c \<noteq> 0" using Cons.prems(1) by (simp add: digits_def)
    ultimately show ?thesis
      using convert_loop_spec [OF w B Cons.prems, of 0 ovf] by (simp add: skip_and_convert_def)
  qed
qed

lemma sint_mod: "sint c mod 256 = uint c" for c :: u8
proof -
  have "uint (word_of_int (sint c) :: u8) = sint c mod 2 ^ LENGTH(8)" by (rule uint_word_of_int)
  then show ?thesis by simp
qed

lemma not_space_zero: "\<not> isspace 48" by (simp add: isspace_iff)

lemma hex_prefix: "tolower (sint x) = 120 \<Longrightarrow> AcpiUtDetectHexPrefix (48 # x # s) = (True, s)"
  by (simp add: AcpiUtDetectHexPrefix_def AcpiUtRemoveHexPrefix_def deref_def ACPI_ASCII_ZERO_def Let_def)

lemma no_hex_prefix:
  "deref s \<noteq> 48 \<or> tolower (sint (deref (drop 1 s))) \<noteq> 120 \<Longrightarrow> AcpiUtDetectHexPrefix s = (False, s)"
  by (auto simp: AcpiUtDetectHexPrefix_def AcpiUtRemoveHexPrefix_def ACPI_ASCII_ZERO_def)

lemma strtoul64_hex:
  assumes "tolower (sint x) = 120" and "digits isxdigit ds" and "stops isxdigit rest"
  shows "AcpiUtStrtoul64 w (48 # x # ds @ rest) =
    (if value_of 16 0 ds < 2 ^ 64 then AE_OK else AE_HEX_OVERFLOW, of_nat (fit_prefix 16 (2 ^ 64) 0 ds), w)"
proof -
  have "AcpiUtStrtoul64 w (48 # x # ds @ rest) =
      (let (st, v) = skip_and_convert isxdigit 16 AE_HEX_OVERFLOW 64 (ds @ rest) in (st, v, w))"
    using not_space_zero hex_prefix [OF assms(1)]
    by (simp add: AcpiUtStrtoul64_def deref_def skip_and_convert_def AcpiUtConvertHexString_def Let_def
        split: prod.split)
  then show ?thesis
    using skip_and_convert_spec [of 64 16 isxdigit ds rest AE_HEX_OVERFLOW] assms
    by (simp add: width_ok_def isxdigit_iff)
qed

lemma strtoul64_octal:
  assumes "digits ACPI_IS_OCTAL_DIGIT ds" and "stops ACPI_IS_OCTAL_DIGIT rest"
    and "tolower (sint (deref (ds @ rest))) \<noteq> 120"
  shows "AcpiUtStrtoul64 w (48 # ds @ rest) =
    (if value_of 8 0 ds < 2 ^ 64 then AE_OK else AE_OCTAL_OVERFLOW, of_nat (fit_prefix 8 (2 ^ 64) 0 ds), w)"
proof -
  have "AcpiUtDetectHexPrefix (48 # ds @ rest) = (False, 48 # ds @ rest)"
    using assms(3) by (intro no_hex_prefix) simp
  then have "AcpiUtStrtoul64 w (48 # ds @ rest) =
      (let (st, v) = skip_and_convert ACPI_IS_OCTAL_DIGIT 8 AE_OCTAL_OVERFLOW 64 (ds @ rest) in (st, v, w))"
    using not_space_zero
    by (simp add: AcpiUtStrtoul64_def deref_def skip_and_convert_def AcpiUtConvertOctalString_def Let_def
        AcpiUtDetectOctalPrefix_def ACPI_ASCII_ZERO_def split: prod.split)
  then show ?thesis
    using skip_and_convert_spec [of 64 8 ACPI_IS_OCTAL_DIGIT ds rest AE_OCTAL_OVERFLOW] assms
    by (simp add: width_ok_def ACPI_IS_OCTAL_DIGIT_def)
qed

lemma strtoul64_decimal:
  assumes "digits isdigit (d # ds)" and "stops isdigit rest" and "d \<noteq> 48"
  shows "AcpiUtStrtoul64 w (d # ds @ rest) =
    (if value_of 10 0 (d # ds) < 2 ^ 64 then AE_OK else AE_DECIMAL_OVERFLOW,
     of_nat (fit_prefix 10 (2 ^ 64) 0 (d # ds)), w)"
proof -
  have "AcpiUtDetectHexPrefix (d # ds @ rest) = (False, d # ds @ rest)"
    using assms(3) by (intro no_hex_prefix) (simp add: deref_def)
  moreover have "\<not> isspace (uint d)" "d \<noteq> 0"
    using assms(1) by (auto simp: digits_def isdigit_iff isspace_iff sint_mod)
  ultimately have "AcpiUtStrtoul64 w (d # ds @ rest) =
      (let (st, v) = skip_and_convert isdigit 10 AE_DECIMAL_OVERFLOW 64 ((d # ds) @ rest) in (st, v, w))"
    using assms(3)
    by (simp add: AcpiUtStrtoul64_def deref_def skip_and_convert_def AcpiUtConvertDecimalString_def Let_def
        AcpiUtDetectOctalPrefix_def ACPI_ASCII_ZERO_def split: prod.split)
  then show ?thesis
    using skip_and_convert_spec [of 64 10 isdigit "d # ds" rest AE_DECIMAL_OVERFLOW] assms
    by (simp add: width_ok_def isdigit_iff)
qed

section \<open>Hexadecimal digits\<close>

lemma hex_char_table:
  "list_all (\<lambda>k. let c = AcpiGbl_HexToAscii ! k in AcpiUtAsciiCharToHex (sint c) = of_nat k
      \<and> 48 \<le> uint c \<and> uint c \<le> 57 \<or> AcpiUtAsciiCharToHex (sint c) = of_nat k \<and> 65 \<le> uint c \<and> uint c \<le> 70) [0..<16]"
  by code_simp

lemma hex_char:
  assumes "k < 16"
  shows "AcpiUtAsciiCharToHex (sint (AcpiGbl_HexToAscii ! k)) = of_nat k"
    and "digit_val (AcpiGbl_HexToAscii ! k) = k"
    and "isxdigit (sint (AcpiGbl_HexToAscii ! k))" and "AcpiGbl_HexToAscii ! k \<noteq> 0"
proof -
  have "k \<in> set [0..<16]" using assms by simp
  note * = hex_char_table [unfolded list_all_iff, rule_format, OF this, unfolded Let_def]
  then show 1: "AcpiUtAsciiCharToHex (sint (AcpiGbl_HexToAscii ! k)) = of_nat k" by blast
  show "digit_val (AcpiGbl_HexToAscii ! k) = k"
    using assms by (simp add: digit_val_def 1 unat_of_nat)
  show "isxdigit (sint (AcpiGbl_HexToAscii ! k))" using * by (auto simp: isxdigit_iff sint_mod)
  show "AcpiGbl_HexToAscii ! k \<noteq> 0" using * by auto
qed

lemma unat_and_15: "unat (x AND 15) = unat x mod 16" for x :: u64
proof -
  have "x AND 15 = take_bit 4 x" by (simp add: take_bit_eq_mask mask_eq_exp_minus_1)
  then show ?thesis by (simp only: unsigned_take_bit_eq) (simp add: take_bit_eq_mod)
qed

lemma HexToAsciiChar_spec:
  "unat p < 64 \<Longrightarrow> AcpiUtHexToAsciiChar v p = Some (AcpiGbl_HexToAscii ! (unat v div 2 ^ unat p mod 16))"
  by (simp add: AcpiUtHexToAsciiChar_def AcpiUtShortShiftRight_native_def unat_and_15 unat_drop_bit_eq
      del: drop_bit_eq_div) (simp add: drop_bit_eq_div)

text \<open>The digits of a number, most significant first.\<close>

definition hex_digits :: "nat \<Rightarrow> nat \<Rightarrow> u8 list" where
  "hex_digits n v = map (\<lambda>i. AcpiGbl_HexToAscii ! (v div 16 ^ (n - Suc i) mod 16)) [0..<n]"

lemma hex_digits_Suc: "hex_digits (Suc n) v = hex_digits n (v div 16) @ [AcpiGbl_HexToAscii ! (v mod 16)]"
proof -
  have "v div 16 ^ (n - i) = v div 16 div 16 ^ (n - Suc i)" if "i < n" for i
  proof -
    have "16 ^ (n - i) = (16 :: nat) * 16 ^ (n - Suc i)"
      using that by (metis Suc_diff_Suc power_Suc)
    then show ?thesis by (simp add: div_mult2_eq)
  qed
  then show ?thesis by (simp add: hex_digits_def)
qed

lemma value_hex_digits: "value_of 16 0 (hex_digits n v) = v mod 16 ^ n"
proof (induction n arbitrary: v)
  case 0
  then show ?case by (simp add: hex_digits_def)
next
  case (Suc n)
  have "value_of 16 0 (hex_digits (Suc n) v) = (v div 16 mod 16 ^ n) * 16 + v mod 16"
    using Suc [of "v div 16"] hex_char(2) [of "v mod 16"] by (simp add: hex_digits_Suc value_of_def)
  also have "\<dots> = v mod 16 ^ Suc n" by (simp add: mod_mult2_eq)
  finally show ?case .
qed

lemma digits_hex_digits: "digits isxdigit (hex_digits n v)"
  using hex_char(3,4) by (fastforce simp: digits_def hex_digits_def)

lemma RemoveWhitespace_spaces [simp]:
  "list_all (\<lambda>c. isspace (uint c)) sp \<Longrightarrow> AcpiUtRemoveWhitespace (sp @ s) = AcpiUtRemoveWhitespace s"
  by (induction sp) simp_all

lemma not_space_null: "\<not> isspace 0"
  by (simp add: isspace_iff)

lemma strtoul64_spaces:
  assumes sp: "list_all (\<lambda>c. isspace (uint c)) sp"
  shows "AcpiUtStrtoul64 w (sp @ s) = AcpiUtStrtoul64 w s"
proof (cases sp)
  case (Cons c cs)
  then have "deref (sp @ s) \<noteq> 0" using sp not_space_null by (auto simp: deref_def)
  moreover have "AcpiUtStrtoul64 w s = (AE_OK, 0, w)" and "fst (AcpiUtRemoveWhitespace s) = 0" if "deref s = 0"
    using that not_space_null by (cases s; simp add: AcpiUtStrtoul64_def deref_def)+
  ultimately show ?thesis
    using sp by (cases "deref s = 0") (auto simp: AcpiUtStrtoul64_def split: prod.splits)
qed simp

lemma fit_prefix_less: "acc < lim \<Longrightarrow> fit_prefix base lim acc ds < lim"
  by (induction ds arbitrary: acc) (simp_all add: Let_def)

text \<open>The literals that \<open>AcpiUtStrtoul64\<close> recognises: prefix, base, digit test and overflow code.\<close>

definition literal ::
  "u8 list \<Rightarrow> u8 list \<Rightarrow> u8 list \<Rightarrow> nat \<Rightarrow> (int \<Rightarrow> bool) \<Rightarrow> acpi_status \<Rightarrow> bool" where
  "literal pre ds rest base IsDigit ovf \<longleftrightarrow> digits IsDigit ds \<and> stops IsDigit rest \<and>
     ((pre = [48, 120] \<or> pre = [48, 88]) \<and> base = 16 \<and> IsDigit = isxdigit \<and> ovf = AE_HEX_OVERFLOW
      \<or> pre = [48] \<and> tolower (sint (deref (ds @ rest))) \<noteq> 120 \<and> base = 8
          \<and> IsDigit = ACPI_IS_OCTAL_DIGIT \<and> ovf = AE_OCTAL_OVERFLOW
      \<or> pre = [] \<and> ds \<noteq> [] \<and> hd ds \<noteq> 48 \<and> base = 10 \<and> IsDigit = isdigit \<and> ovf = AE_DECIMAL_OVERFLOW)"

lemma tolower_x [simp]: "tolower 120 = 120" "tolower 88 = 120"
  by (simp_all add: tolower_def isupper_iff)

lemma strtoul64_literal:
  assumes "literal pre ds rest base IsDigit ovf" and "list_all (\<lambda>c. isspace (uint c)) sp"
  shows "AcpiUtStrtoul64 w (sp @ pre @ ds @ rest) =
    (if value_of base 0 ds < 2 ^ 64 then AE_OK else ovf, of_nat (fit_prefix base (2 ^ 64) 0 ds), w)"
proof -
  have d: "digits IsDigit ds" "stops IsDigit rest" using assms(1) by (auto simp: literal_def)
  from assms(1) consider (hex) x where "pre = [48, x]" "tolower (sint x) = 120" "base = 16"
        "IsDigit = isxdigit" "ovf = AE_HEX_OVERFLOW"
    | (octal) "pre = [48]" "tolower (sint (deref (ds @ rest))) \<noteq> 120" "base = 8"
        "IsDigit = ACPI_IS_OCTAL_DIGIT" "ovf = AE_OCTAL_OVERFLOW"
    | (decimal) d' ds' where "pre = []" "ds = d' # ds'" "d' \<noteq> 48" "base = 10" "IsDigit = isdigit"
        "ovf = AE_DECIMAL_OVERFLOW"
    by (cases ds) (auto simp: literal_def tolower_x)
  then show ?thesis
  proof cases
    case hex
    then show ?thesis using strtoul64_hex [of x ds rest w] d by (simp add: strtoul64_spaces [OF assms(2)])
  next
    case octal
    then show ?thesis using strtoul64_octal [of ds rest w] d by (simp add: strtoul64_spaces [OF assms(2)])
  next
    case decimal
    then show ?thesis using strtoul64_decimal [of d' ds' rest w] d by (simp add: strtoul64_spaces [OF assms(2)])
  qed
qed

text \<open>
  C22. \<open>AcpiUtStrtoul64\<close> converts every hexadecimal (\<open>0x\<close>), octal (\<open>0\<close>) and decimal literal,
  after any white space and up to the first character that is not a digit: if the value fits in
  64 bits it is returned with \<open>AE_OK\<close>; otherwise the status is the overflow code of the base and
  the value is that of the longest prefix of the digits that fits. The global integer width is
  as before the call in both cases.
\<close>

theorem strtoul64_converts_literals:
  assumes "literal pre ds rest base IsDigit ovf" and "list_all (\<lambda>c. isspace (uint c)) sp"
  shows "\<exists>k \<le> length ds. value_of base 0 (take k ds) < 2 ^ 64
    \<and> (k < length ds \<longrightarrow> 2 ^ 64 \<le> value_of base 0 (take (Suc k) ds))
    \<and> AcpiUtStrtoul64 w (sp @ pre @ ds @ rest) =
        (if k = length ds then AE_OK else ovf, of_nat (value_of base 0 (take k ds)), w)"
proof -
  obtain k where k: "k \<le> length ds" "fit_prefix base (2 ^ 64) 0 ds = value_of base 0 (take k ds)"
      "k < length ds \<longrightarrow> 2 ^ 64 \<le> value_of base 0 (take (Suc k) ds)"
    using fit_prefix_take by blast
  have less: "value_of base 0 (take k ds) < 2 ^ 64" using fit_prefix_less [of 0 "2 ^ 64" base ds] k(2) by simp
  have "0 < base" using assms(1) by (auto simp: literal_def)
  have "2 ^ 64 \<le> value_of base 0 ds" if "k < length ds"
  proof -
    have "value_of base 0 (take (Suc k) ds @ drop (Suc k) ds) =
        value_of base (value_of base 0 (take (Suc k) ds)) (drop (Suc k) ds)"
      unfolding value_of_def foldl_append ..
    then have "value_of base 0 (take (Suc k) ds) \<le> value_of base 0 ds"
      using value_of_mono [OF \<open>0 < base\<close>] by (metis append_take_drop_id)
    with k(3) that show ?thesis by simp
  qed
  then have "value_of base 0 ds < 2 ^ 64 \<longleftrightarrow> k = length ds" using k(1) less by force
  then show ?thesis using strtoul64_literal [OF assms, of w] k less by auto
qed

theorem strtoul64_converts_literals_witness:
  "\<exists>k \<le> length [49, 70 :: u8]. value_of 16 0 (take k [49, 70]) < 2 ^ 64
    \<and> (k < length [49, 70 :: u8] \<longrightarrow> 2 ^ 64 \<le> value_of 16 0 (take (Suc k) [49, 70]))
    \<and> AcpiUtStrtoul64 32 ([32] @ [48, 120] @ [49, 70] @ [0]) =
        (if k = length [49, 70 :: u8] then AE_OK else AE_HEX_OVERFLOW, of_nat (value_of 16 0 (take k [49, 70])), 32)"
proof (rule strtoul64_converts_literals)
  show "literal [48, 120] [49, 70] [0] 16 isxdigit AE_HEX_OVERFLOW"
    by (simp add: literal_def digits_def stops_def isxdigit_iff deref_def)
  show "list_all (\<lambda>c :: u8. isspace (uint c)) [32]" by (simp add: isspace_iff)
qed

text \<open>The sixteen digits that a caller prints from the top nibble down.\<close>

definition print64 :: "u64 \<Rightarrow> u8 option list" where
  "print64 v = map (\<lambda>p. AcpiUtHexToAsciiChar v p) [60, 56, 52, 48, 44, 40, 36, 32, 28, 24, 20, 16, 12, 8, 4, 0]"

lemma print64_digits: "print64 v = map Some (hex_digits 16 (unat v))"
  by (simp add: print64_def HexToAsciiChar_spec hex_digits_def upt_rec)

text \<open>
  Printing any 64-bit value with \<open>AcpiUtHexToAsciiChar\<close>, one character for each of the
  sixteen nibbles, and reading the characters back with \<open>AcpiUtStrtoul64\<close> after a \<open>0x\<close>
  gives the value, with \<open>AE_OK\<close>; no character is missing.
\<close>

theorem hex_print_parse_roundtrip:
  "None \<notin> set (print64 v) \<and> AcpiUtStrtoul64 w (48 # 120 # map the (print64 v)) = (AE_OK, v, w)"
proof -
  have "value_of 16 0 (hex_digits 16 (unat v)) = unat v"
    using value_hex_digits [of 16 "unat v"] unat_lt64 [of v] by simp
  then show ?thesis
    using strtoul64_hex [of 120 "hex_digits 16 (unat v)" "[]" w] digits_hex_digits [of 16 "unat v"] unat_lt64 [of v]
      fit_prefix_all [of 16 0 "hex_digits 16 (unat v)" "2 ^ 64"]
    by (simp add: print64_digits stops_def deref_def tolower_x comp_def)
qed

text \<open>
  \<open>AcpiUtAsciiToHexByte\<close> inverts the printing of a byte as two hexadecimal characters,
  and fails with \<open>AE_BAD_HEX_CONSTANT\<close>, storing nothing, exactly when one of the two characters
  is not a hexadecimal digit.
\<close>

theorem hex_byte_roundtrip:
  "AcpiUtAsciiToHexByte (AcpiGbl_HexToAscii ! (unat b div 16)) (AcpiGbl_HexToAscii ! (unat b mod 16)) = (AE_OK, Some b)
   \<and> (fst (AcpiUtAsciiToHexByte c0 c1) = AE_OK \<longleftrightarrow> isxdigit (sint c0) \<and> isxdigit (sint c1))
   \<and> (AcpiUtAsciiToHexByte c0 c1 = (AE_BAD_HEX_CONSTANT, None) \<longleftrightarrow> \<not> (isxdigit (sint c0) \<and> isxdigit (sint c1)))"
proof -
  have hi: "unat b div 16 < 16" using unat_lt8 [of b] by simp
  have lo: "unat b mod 16 < 16" by simp
  have "(of_nat (unat b mod 16) :: u8) OR push_bit 4 (of_nat (unat b div 16)) = b"
  proof -
    have 1: "(of_nat (unat b mod 16) :: u8) = take_bit 4 b"
      by (simp add: word_unat_eq_iff unat_of_nat take_bit_eq_mod unat_mod)
    have 2: "(of_nat (unat b div 16) :: u8) = drop_bit 4 b"
      using unat_lt8 [of b] by (simp add: word_unat_eq_iff unat_of_nat drop_bit_eq_div unat_div)
    show ?thesis unfolding 1 2
      by (rule bit_word_eqI) (auto simp: bit_simps, metis le_add_diff_inverse linorder_not_less)
  qed
  then show ?thesis
    using hex_char(1,3) [OF hi] hex_char(1,3) [OF lo] by (simp add: AcpiUtAsciiToHexByte_def)
qed

section \<open>AML conversions\<close>

text \<open>The digits that the two AML conversions read, after an optional \<open>0x\<close>.\<close>

lemma hex_prefix_x: "x = 120 \<or> x = 88 \<Longrightarrow> AcpiUtRemoveHexPrefix (48 # x # s) = s"
  by (auto simp: AcpiUtRemoveHexPrefix_def deref_def ACPI_ASCII_ZERO_def)

lemma no_hex_prefix_remove:
  "deref s \<noteq> 48 \<or> tolower (sint (deref (drop 1 s))) \<noteq> 120 \<Longrightarrow> AcpiUtRemoveHexPrefix s = s"
  by (auto simp: AcpiUtRemoveHexPrefix_def ACPI_ASCII_ZERO_def)

lemma RemoveWhitespace_stop: "\<not> isspace (uint (deref s)) \<Longrightarrow> AcpiUtRemoveWhitespace s = (deref s, s)"
  by (cases s) (simp_all add: deref_def)

lemma digits_start:
  assumes "digits isxdigit ds" and "ds \<noteq> []"
  shows "deref (ds @ rest) \<noteq> 0" and "\<not> isspace (uint (deref (ds @ rest)))"
  using assms by (cases ds; auto simp: digits_def deref_def isxdigit_iff isspace_iff sint_mod)+

lemma tolower_not_x: "isxdigit i \<Longrightarrow> tolower i \<noteq> 120"
  by (auto simp: tolower_def isxdigit_iff isupper_iff)


definition aml_number :: "u8 list \<Rightarrow> u8 list \<Rightarrow> u8 list \<Rightarrow> (int \<Rightarrow> bool) \<Rightarrow> bool" where
  "aml_number pre ds rest IsDigit \<longleftrightarrow> digits IsDigit ds \<and> stops IsDigit rest \<and> ds \<noteq> []
     \<and> (pre = [48, 120] \<or> pre = [48, 88]
        \<or> pre = [] \<and> (ds = [48] \<longrightarrow> tolower (sint (deref rest)) \<noteq> 120))"

lemma aml_number_prefix:
  assumes "aml_number pre ds rest D" and "\<And>i. D i \<Longrightarrow> isxdigit i"
  shows "AcpiUtDetectHexPrefix (pre @ ds @ rest) = (pre \<noteq> [], ds @ rest)"
    and "AcpiUtRemoveHexPrefix (pre @ ds @ rest) = ds @ rest"
    and "AcpiUtRemoveWhitespace (pre @ ds @ rest) = (deref (pre @ ds @ rest), pre @ ds @ rest)"
    and "deref (pre @ ds @ rest) \<noteq> 0"
proof -
  have ds: "digits isxdigit ds" "ds \<noteq> []" using assms by (auto simp: aml_number_def digits_def)
  have second: "tolower (sint (deref (drop 1 (ds @ rest)))) \<noteq> 120" if "pre = []" "deref (ds @ rest) = 48"
  proof (cases ds rule: remdups_adj.cases)
    case (3 a b xs)
    then show ?thesis using ds(1) tolower_not_x by (auto simp: digits_def deref_def)
  qed (use ds that assms(1) in \<open>auto simp: aml_number_def deref_def\<close>)
  then show "AcpiUtDetectHexPrefix (pre @ ds @ rest) = (pre \<noteq> [], ds @ rest)"
    and "AcpiUtRemoveHexPrefix (pre @ ds @ rest) = ds @ rest"
    using assms(1) no_hex_prefix [of "ds @ rest"] no_hex_prefix_remove [of "ds @ rest"]
    by (auto simp: aml_number_def hex_prefix hex_prefix_x)
  show "AcpiUtRemoveWhitespace (pre @ ds @ rest) = (deref (pre @ ds @ rest), pre @ ds @ rest)"
    using assms(1) digits_start [OF ds] not_space_zero
    by (intro RemoveWhitespace_stop) (auto simp: aml_number_def deref_def)
  show "deref (pre @ ds @ rest) \<noteq> 0"
    using assms(1) digits_start [OF ds] by (auto simp: aml_number_def deref_def)
qed

lemma implicit_skip:
  assumes "aml_number pre ds rest isxdigit" and "list_all (\<lambda>c. isspace (uint c)) sp"
  shows "AcpiUtImplicitStrtoul64 w (sp @ pre @ ds @ rest) =
    snd (skip_and_convert isxdigit 16 AE_HEX_OVERFLOW w (ds @ rest))"
  using aml_number_prefix [OF assms(1)] assms(2)
  by (simp add: AcpiUtImplicitStrtoul64_def skip_and_convert_def AcpiUtConvertHexString_def Let_def
      split: prod.split)

lemma explicit_skip:
  assumes "aml_number pre ds rest (if pre = [] then isdigit else isxdigit)"
    and "list_all (\<lambda>c. isspace (uint c)) sp"
  shows "AcpiUtExplicitStrtoul64 w (sp @ pre @ ds @ rest) =
    snd (if pre = [] then skip_and_convert isdigit 10 AE_DECIMAL_OVERFLOW w (ds @ rest)
         else skip_and_convert isxdigit 16 AE_HEX_OVERFLOW w (ds @ rest))"
proof -
  have "isxdigit i" if "(if pre = [] then isdigit else isxdigit) i" for i
    using that by (auto simp: isdigit_iff isxdigit_iff split: if_splits)
  note P = aml_number_prefix [OF assms(1) this]
  show ?thesis
    using P assms(2)
    by (simp add: AcpiUtExplicitStrtoul64_def skip_and_convert_def AcpiUtConvertHexString_def
        AcpiUtConvertDecimalString_def Let_def split: prod.split)
qed

text \<open>
  The AML conversions of strings to integers never fail: the implicit conversion reads
  hexadecimal digits with or without \<open>0x\<close>, the explicit one hexadecimal digits after \<open>0x\<close>
  and decimal digits otherwise, and the result is the value of the longest prefix of the digits
  that fits in the integer width (32 or 64 bits) of the AML table.
\<close>

theorem aml_string_to_integer:
  assumes "width_ok w" and "list_all (\<lambda>c. isspace (uint c)) sp"
  shows "(aml_number pre ds rest isxdigit \<longrightarrow>
      AcpiUtImplicitStrtoul64 w (sp @ pre @ ds @ rest) = of_nat (fit_prefix 16 (2 ^ unat w) 0 ds))
    \<and> (aml_number pre ds rest (if pre = [] then isdigit else isxdigit) \<longrightarrow>
      AcpiUtExplicitStrtoul64 w (sp @ pre @ ds @ rest) =
        of_nat (fit_prefix (if pre = [] then 10 else 16) (2 ^ unat w) 0 ds))"
  using implicit_skip [OF _ assms(2)] explicit_skip [OF _ assms(2)]
    skip_and_convert_spec [OF assms(1), of 16 isxdigit] skip_and_convert_spec [OF assms(1), of 10 isdigit]
  by (auto simp: aml_number_def isxdigit_iff isdigit_iff)

theorem aml_string_to_integer_witness:
  "AcpiUtImplicitStrtoul64 32 ([32] @ [] @ [49, 50] @ [71]) = of_nat (fit_prefix 16 (2 ^ unat (32 :: u8)) 0 [49, 50])
   \<and> AcpiUtExplicitStrtoul64 32 ([32] @ [] @ [49, 50] @ [71]) = of_nat (fit_prefix 10 (2 ^ unat (32 :: u8)) 0 [49, 50])"
proof -
  have "width_ok 32" by (simp add: width_ok_def)
  moreover have "list_all (\<lambda>c :: u8. isspace (uint c)) [32]" by (simp add: isspace_iff)
  moreover have "aml_number [] [49, 50] [71] isxdigit" "aml_number [] [49, 50] [71] isdigit"
    by (simp_all add: aml_number_def digits_def stops_def deref_def isxdigit_iff isdigit_iff)
  ultimately show ?thesis using aml_string_to_integer [of 32 "[32]" "[]" "[49, 50]" "[71]"] by simp
qed

section \<open>\<open>strtoul\<close>\<close>

text \<open>The value of a character as a digit in bases up to 36, and of a digit string.\<close>

definition digit36 :: "u8 \<Rightarrow> nat" where
  "digit36 c = (if isdigit (sint c) then unat c - 48 else nat (toupper (sint c)) - 55)"

definition digits36 :: "nat \<Rightarrow> u8 list \<Rightarrow> bool" where
  "digits36 b ds \<longleftrightarrow> (\<forall>c \<in> set ds. (isdigit (sint c) \<or> isalpha (sint c)) \<and> digit36 c < b)"

definition value36 :: "nat \<Rightarrow> nat \<Rightarrow> u8 list \<Rightarrow> nat" where
  "value36 b acc ds = foldl (\<lambda>a c. a * b + digit36 c) acc ds"

definition stops36 :: "nat \<Rightarrow> u8 list \<Rightarrow> bool" where
  "stops36 b rest \<longleftrightarrow> \<not> (isdigit (sint (deref rest)) \<or> isalpha (sint (deref rest))) \<or> b \<le> digit36 (deref rest)"

definition index_of :: "u8 \<Rightarrow> u32 option" where
  "index_of c = (if isdigit (sint c) then Some (ucast c - 48)
     else let i = word_of_int (toupper (sint c)) :: u32
          in if isupper (uint i) then Some (i - 65 + 10) else None)"

lemma index_of_spec:
  "list_all (\<lambda>n. let c = of_nat n :: u8 in
     (case index_of c of
        None \<Rightarrow> \<not> (isdigit (sint c) \<or> isalpha (sint c))
      | Some i \<Rightarrow> (isdigit (sint c) \<or> isalpha (sint c)) \<and> unat i = digit36 c)) [0..<256]"
  by code_simp

lemma index_of_cases:
  "case index_of c of
     None \<Rightarrow> \<not> (isdigit (sint c) \<or> isalpha (sint c))
   | Some i \<Rightarrow> (isdigit (sint c) \<or> isalpha (sint c)) \<and> unat i = digit36 c"
proof -
  have "unat c \<in> set [0..<256]" using unat_lt8 [of c] by simp
  from index_of_spec [unfolded list_all_iff, rule_format, OF this] show ?thesis
    by (simp add: Let_def)
qed

lemma null_not_alnum: "\<not> isdigit 0" "\<not> isalpha 0"
  by (simp_all add: isdigit_iff isalpha_iff isupper_iff islower_iff)

lemma strtoul_loop_Cons:
  "c \<noteq> 0 \<Longrightarrow> strtoul_loop Base (c # cs) r conv err =
     (case index_of c of
        None \<Rightarrow> (c # cs, r, conv, err)
      | Some index \<Rightarrow>
          if index \<ge> Base then (c # cs, r, conv, err)
          else if r > (0xFFFFFFFF - index) div Base then strtoul_loop Base cs 0 conv True
          else strtoul_loop Base cs (r * Base + index) True err)"
  by (simp add: index_of_def)

lemma strtoul_loop_stops: "stops36 (unat Base) rest \<Longrightarrow> strtoul_loop Base rest r conv err = (rest, r, conv, err)"
proof (cases rest)
  case (Cons c cs)
  assume "stops36 (unat Base) rest"
  with Cons show ?thesis
    using index_of_cases [of c] strtoul_loop_Cons [of c Base cs]
    by (cases "c = 0") (auto simp: stops36_def deref_def word_le_nat_alt split: option.splits)
qed simp

text \<open>The range test of the loop is exact.\<close>

lemma strtoul_range_test:
  fixes r Base index :: u32
  assumes "Base \<noteq> 0"
  shows "r > (0xFFFFFFFF - index) div Base \<longleftrightarrow> 2 ^ 32 \<le> unat r * unat Base + unat index"
proof -
  have pos: "0 < unat Base" using assms by (simp add: unat_gt_0)
  have max: "unat (0xFFFFFFFF - index) = 2 ^ 32 - 1 - unat index"
    using unat_lt32 [of index] by (subst unat_sub) (simp_all add: word_le_nat_alt)
  have "unat r \<le> (2 ^ 32 - 1 - unat index) div unat Base \<longleftrightarrow> unat r * unat Base \<le> 2 ^ 32 - 1 - unat index"
    using pos by (rule less_eq_div_iff_mult_less_eq)
  then show ?thesis using unat_lt32 [of index] by (simp add: word_less_nat_alt unat_div max not_le [symmetric]) linarith
qed

lemma value36_simps [simp]:
  "value36 b acc [] = acc" "value36 b acc (c # cs) = value36 b (acc * b + digit36 c) cs"
  by (simp_all add: value36_def)

lemma value36_mono: "0 < b \<Longrightarrow> acc \<le> value36 b acc ds"
proof (induction ds arbitrary: acc)
  case (Cons c cs)
  have "acc \<le> acc * b + digit36 c" using Cons.prems by (simp add: trans_le_add1)
  also have "\<dots> \<le> value36 b (acc * b + digit36 c) cs" using Cons by blast
  finally show ?case by simp
qed simp

lemma strtoul_loop_spec:
  assumes B: "Base \<noteq> 0" and rest: "stops36 (unat Base) rest"
  shows "digits36 (unat Base) ds \<Longrightarrow> \<exists>r c e. strtoul_loop Base (ds @ rest) v conv err = (rest, r, c, e)
    \<and> (value36 (unat Base) (unat v) ds < 2 ^ 32 \<longrightarrow>
         unat r = value36 (unat Base) (unat v) ds \<and> c = (conv \<or> ds \<noteq> []) \<and> e = err)
    \<and> (2 ^ 32 \<le> value36 (unat Base) (unat v) ds \<or> err \<longrightarrow> e)
    \<and> (conv \<or> v = 0 \<and> ds \<noteq> [] \<longrightarrow> c)"
proof (induction ds arbitrary: v conv err)
  case Nil
  then show ?case using strtoul_loop_stops [OF rest] unat_lt32 [of v] by simp
next
  case (Cons c cs)
  have c: "isdigit (sint c) \<or> isalpha (sint c)" "digit36 c < unat Base" and cs: "digits36 (unat Base) cs"
    using Cons.prems by (auto simp: digits36_def)
  have "c \<noteq> 0" using c(1) null_not_alnum by auto
  obtain i where i: "index_of c = Some i" "unat i = digit36 c"
    using index_of_cases [of c] c(1) by (auto split: option.splits)
  have less: "\<not> i \<ge> Base" using i c(2) by (simp add: word_le_nat_alt)
  have pos: "0 < unat Base" using B by (simp add: unat_gt_0)
  let ?v = "unat v * unat Base + digit36 c"
  show ?case
  proof (cases "?v < 2 ^ 32")
    case True
    then have "unat (v * Base + i) = ?v"
      using i(2) by (simp add: unat_word_ariths mod_less)
    moreover have "\<not> v > (0xFFFFFFFF - i) div Base" using True i(2) strtoul_range_test [OF B, of i v] by simp
    ultimately show ?thesis
      using Cons.IH [OF cs, of "v * Base + i" True err] strtoul_loop_Cons [OF \<open>c \<noteq> 0\<close>, of Base "cs @ rest" v] i(1) less
      by (simp del: strtoul_loop.simps) blast
  next
    case False
    then have "v \<noteq> 0" using c(2) unat_lt32 [of Base] by auto
    from False have "v > (0xFFFFFFFF - i) div Base" using i(2) strtoul_range_test [OF B, of i v] by simp
    moreover have "\<not> value36 (unat Base) ?v cs < 2 ^ 32"
      using value36_mono [OF pos, of ?v cs] False by simp
    ultimately show ?thesis
      using Cons.IH [OF cs, of 0 conv True] strtoul_loop_Cons [OF \<open>c \<noteq> 0\<close>, of Base "cs @ rest" v] i(1) less \<open>v \<noteq> 0\<close>
      by (simp del: strtoul_loop.simps) blast
  qed
qed


lemma strtoul_space_skip: "list_all (\<lambda>c. isspace (sint c)) sp \<Longrightarrow> strtoul_space (sp @ s) = strtoul_space s"
  by (induction sp) simp_all

lemma strtoul_space_stop: "\<not> isspace (sint (deref s)) \<Longrightarrow> deref s \<noteq> 9 \<Longrightarrow> strtoul_space s = s"
  by (cases s) (simp_all add: deref_def)

text \<open>
  \<open>strtoul\<close> with an explicit base from 2 to 36 skips white space and an optional sign, reads
  the digits of that base up to the first other character, and returns the value if it is
  below 2^32 and \<open>0xFFFFFFFF\<close> otherwise, negated modulo 2^32 after a minus sign; the
  terminator then points behind the digits, provided the first digit is not a zero.
\<close>

theorem strtoul_converts:
  assumes "2 \<le> Base" and "Base \<le> 36" and "list_all (\<lambda>c. isspace (sint c)) sp"
    and "sign = [] \<or> sign = [43] \<or> sign = [45]"
    and "digits36 (unat Base) ds" and "ds \<noteq> []" and "stops36 (unat Base) rest" and "hd ds \<noteq> 48"
  shows "strtoul (sp @ sign @ ds @ rest) Base =
    (let v = (if value36 (unat Base) 0 ds < 2 ^ 32 then of_nat (value36 (unat Base) 0 ds) else 0xFFFFFFFF)
     in if sign = [45] then - v else v, rest)"
proof -
  obtain d ds' where ds: "ds = d # ds'" using assms(6) by (cases ds) auto
  have d: "isdigit (sint d) \<or> isalpha (sint d)" "d \<noteq> 48" using assms(5,8) ds by (auto simp: digits36_def)
  then have "d \<noteq> 0" "d \<noteq> 9" "d \<noteq> 43" "d \<noteq> 45" "\<not> isspace (sint d)"
    by (auto simp: isdigit_iff isalpha_iff isupper_iff islower_iff isspace_iff)
  then have space: "strtoul_space (sp @ sign @ ds @ rest) = sign @ ds @ rest"
    using assms(4) strtoul_space_skip [OF assms(3)]
    by (auto simp: ds deref_def isspace_iff intro!: strtoul_space_stop)
  have "Base \<noteq> 0" using assms(1) by auto
  from strtoul_loop_spec [OF this assms(7,5), of 0 False False]
  obtain r c e where loop: "strtoul_loop Base (ds @ rest) 0 False False = (rest, r, c, e)" "c"
      and fits: "value36 (unat Base) 0 ds < 2 ^ 32 \<Longrightarrow> unat r = value36 (unat Base) 0 ds \<and> \<not> e"
      and big: "2 ^ 32 \<le> value36 (unat Base) 0 ds \<Longrightarrow> e"
    using assms(6) by auto
  have val: "(if e then 0xFFFFFFFF else r) =
      (if value36 (unat Base) 0 ds < 2 ^ 32 then of_nat (value36 (unat Base) 0 ds) else 0xFFFFFFFF)"
    using fits big by (auto simp: not_less word_unat_eq_iff unat_of_nat)
  have sign: "(if deref (sign @ ds @ rest) = 45 then (True, drop 1 (sign @ ds @ rest))
      else if deref (sign @ ds @ rest) = 43 then (False, drop 1 (sign @ ds @ rest))
      else (False, sign @ ds @ rest)) = (sign = [45], ds @ rest)"
    using assms(4) \<open>d \<noteq> 43\<close> \<open>d \<noteq> 45\<close> by (auto simp: ds deref_def)
  have zero: "deref (ds @ rest) \<noteq> 48" using d(2) by (simp add: ds deref_def)
  have base: "\<not> (Base < 2 \<or> Base > 36)" using assms(1,2) by auto
  have neg: "(0xFFFFFFFF - v) + 1 = - v" for v :: u32 by simp
  show ?thesis
    unfolding strtoul_def Let_def space sign prod.case
    by (simp only: if_not_P [OF \<open>Base \<noteq> 0\<close>] if_not_P [OF base] prod.case zero simp_thms if_False if_True
        loop val neg)
qed


theorem strtoul_converts_witness:
  "strtoul ([32] @ [45] @ [50, 70] @ [33]) 16 =
    (let v = (if value36 16 0 [50, 70] < 2 ^ 32 then of_nat (value36 16 0 [50, 70]) else 0xFFFFFFFF)
     in if [45 :: u8] = [45] then - v else v, [33])"
  using strtoul_converts [of 16 "[32]" "[45]" "[50, 70]" "[33]"]
  by (simp add: isspace_iff digits36_def stops36_def digit36_def isdigit_iff isalpha_iff isupper_iff
      islower_iff toupper_def deref_def)

text \<open>
  A single zero with base 0 is taken as the octal prefix and then as no number at all: the
  terminator is the start of the string although the digit was read.
\<close>

lemma strtoul_zero_terminator: "strtoul [48, 0] 0 = (0, [48, 0]) \<and> strtoul [49, 0] 0 = (1, [0])"
  by code_simp

end
