(* ===== verification/Pool.thy ===== *)
theory Pool
  imports Prelude
begin

text \<open>
  The contract that the allocators of the system share: a pool of identifiers of which some are
  in use. ACPICA's owner IDs (\<^verbatim>\<open>utownerid.c\<close>) and the kernel's physical page bitmap
  (\<^verbatim>\<open>Kernel/Memory/Bitmap.cpp\<close>) implement it; what their clients rely on is proved here once.

  The locale fixes the state invariant, the set of identifiers in use, the identifiers that
  can be allocated, and the two operations. Its laws are those a provider has to discharge:
  an allocation returns an identifier that was free and marks exactly this one, it fails only if
  nothing is free, and a release frees exactly its argument.
\<close>

section \<open>Sequences of operations\<close>

fun alloc_n :: "('s \<Rightarrow> ('i \<times> 's) option) \<Rightarrow> nat \<Rightarrow> 's \<Rightarrow> ('i list \<times> 's) option" where
  "alloc_n alloc 0 s = Some ([], s)"
| "alloc_n alloc (Suc n) s =
     (case alloc s of
        None \<Rightarrow> None
      | Some (i, s') \<Rightarrow> (case alloc_n alloc n s' of None \<Rightarrow> None | Some (is, s'') \<Rightarrow> Some (i # is, s'')))"

text \<open>One step of a client: allocate, or release an identifier that is in use.\<close>

inductive pool_step ::
  "('s \<Rightarrow> ('i \<times> 's) option) \<Rightarrow> ('i \<Rightarrow> 's \<Rightarrow> 's) \<Rightarrow> 's \<times> 'i set \<Rightarrow> 's \<times> 'i set \<Rightarrow> bool"
  for alloc release where
  step_alloc: "alloc s = Some (i, s') \<Longrightarrow> pool_step alloc release (s, held) (s', insert i held)"
| step_release: "i \<in> held \<Longrightarrow> pool_step alloc release (s, held) (release i s, held - {i})"

inductive_cases pool_stepE: "pool_step alloc release (s, held) (s', held')"

section \<open>The contract\<close>

locale id_pool =
  fixes inv :: "'s \<Rightarrow> bool"
    and used :: "'s \<Rightarrow> 'i set"
    and universe :: "'s \<Rightarrow> 'i set"
    and alloc :: "'s \<Rightarrow> ('i \<times> 's) option"
    and release :: "'i \<Rightarrow> 's \<Rightarrow> 's"
  assumes finite_universe: "inv s \<Longrightarrow> finite (universe s)"
    and alloc_inv: "inv s \<Longrightarrow> alloc s = Some (i, s') \<Longrightarrow> inv s'"
    and alloc_universe: "inv s \<Longrightarrow> alloc s = Some (i, s') \<Longrightarrow> universe s' = universe s"
    and alloc_fresh: "inv s \<Longrightarrow> alloc s = Some (i, s') \<Longrightarrow> i \<in> universe s - used s"
    and alloc_used: "inv s \<Longrightarrow> alloc s = Some (i, s') \<Longrightarrow> used s' = insert i (used s)"
    and alloc_none: "inv s \<Longrightarrow> alloc s = None \<Longrightarrow> universe s \<subseteq> used s"
    and release_inv: "inv s \<Longrightarrow> i \<in> universe s \<Longrightarrow> i \<in> used s \<Longrightarrow> inv (release i s)"
    and release_universe:
      "inv s \<Longrightarrow> i \<in> universe s \<Longrightarrow> i \<in> used s \<Longrightarrow> universe (release i s) = universe s"
    and release_used: "inv s \<Longrightarrow> i \<in> universe s \<Longrightarrow> i \<in> used s \<Longrightarrow> used (release i s) = used s - {i}"
begin

lemma alloc_succeeds_iff: "inv s \<Longrightarrow> (\<exists>i s'. alloc s = Some (i, s')) \<longleftrightarrow> \<not> universe s \<subseteq> used s"
  using alloc_none [of s] alloc_fresh [of s] by (cases "alloc s") auto

lemma free_decreases:
  assumes "inv s" and "alloc s = Some (i, s')"
  shows "card (universe s' - used s') = card (universe s - used s) - 1" and "0 < card (universe s - used s)"
proof -
  have i: "i \<in> universe s - used s" using alloc_fresh assms by blast
  have "universe s' - used s' = (universe s - used s) - {i}"
    using alloc_universe [OF assms] alloc_used [OF assms] by auto
  then show "card (universe s' - used s') = card (universe s - used s) - 1"
    using i finite_universe [OF assms(1)] by simp
  show "0 < card (universe s - used s)" using i finite_universe [OF assms(1)] by (auto simp: card_gt_0_iff)
qed

lemma alloc_n_result:
  "inv s \<Longrightarrow> alloc_n alloc n s = Some (is, s') \<Longrightarrow>
     inv s' \<and> universe s' = universe s \<and> length is = n \<and> distinct is
     \<and> set is \<subseteq> universe s - used s \<and> used s' = used s \<union> set is"
proof (induction n arbitrary: s "is")
  case (Suc n)
  then obtain i s1 is' where a: "alloc s = Some (i, s1)" "alloc_n alloc n s1 = Some (is', s')" "is = i # is'"
    by (auto split: option.splits)
  have "inv s1" using alloc_inv Suc.prems(1) a(1) by blast
  from Suc.IH [OF this a(2)] show ?case
    using alloc_fresh [OF Suc.prems(1) a(1)] alloc_used [OF Suc.prems(1) a(1)]
      alloc_universe [OF Suc.prems(1) a(1)] a(3) by auto
qed simp

lemma alloc_n_succeeds_iff: "inv s \<Longrightarrow> alloc_n alloc n s \<noteq> None \<longleftrightarrow> n \<le> card (universe s - used s)"
proof (induction n arbitrary: s)
  case (Suc n)
  show ?case
  proof (cases "alloc s")
    case None
    then have "universe s - used s = {}" using alloc_none [OF Suc.prems] by blast
    with None show ?thesis by (simp only: alloc_n.simps) simp
  next
    case (Some p)
    then obtain i s1 where a: "alloc s = Some (i, s1)" by (cases p) auto
    have "inv s1" using alloc_inv [OF Suc.prems a] .
    from Suc.IH [OF this] show ?thesis
      using a free_decreases [OF Suc.prems a] by (auto split: option.splits)
  qed
qed simp

lemma release_alloc: "inv s \<Longrightarrow> alloc s = Some (i, s') \<Longrightarrow> used (release i s') = used s"
  using alloc_inv [of s i s'] alloc_fresh [of s i s'] alloc_used [of s i s'] alloc_universe [of s i s']
    release_used [of s' i] by auto

lemma release_all:
  "inv s \<Longrightarrow> distinct is \<Longrightarrow> set is \<subseteq> universe s \<inter> used s \<Longrightarrow>
     inv (fold release is s) \<and> used (fold release is s) = used s - set is"
proof (induction "is" arbitrary: s)
  case (Cons i "is")
  have i: "i \<in> universe s" "i \<in> used s" using Cons.prems(3) by auto
  have "inv (release i s)" "set is \<subseteq> universe (release i s) \<inter> used (release i s)"
    using release_inv [OF Cons.prems(1) i] release_universe [OF Cons.prems(1) i]
      release_used [OF Cons.prems(1) i] Cons.prems by auto
  then show ?case
    using Cons.IH [of "release i s"] Cons.prems(2) release_used [OF Cons.prems(1) i] by auto
qed simp

text \<open>
  A client that only releases what it holds: after any number of steps the pool's set of used
  identifiers is what was used at the start and what the client holds, and no identifier is held
  that the start state had in use.
\<close>

lemma step_held:
  assumes "pool_step alloc release (s, held) (s', held')"
    and "inv s" and "held \<subseteq> universe s" and "used s = base \<union> held" and "base \<inter> held = {}"
  shows "inv s' \<and> universe s' = universe s \<and> held' \<subseteq> universe s' \<and> used s' = base \<union> held' \<and> base \<inter> held' = {}"
proof -
  from assms(1) consider (al) i where "alloc s = Some (i, s')" "held' = insert i held"
    | (re) i where "i \<in> held" "s' = release i s" "held' = held - {i}"
    by (rule pool_stepE) blast+
  then show ?thesis
  proof cases
    case al
    then show ?thesis
      using alloc_inv [OF assms(2)] alloc_universe [OF assms(2)] alloc_fresh [OF assms(2)] alloc_used [OF assms(2)] assms(3-5)
      by blast
  next
    case re
    have i: "i \<in> universe s" "i \<in> used s" using re assms(3,4) by auto
    show ?thesis
      using re release_inv [OF assms(2) i] release_universe [OF assms(2) i] release_used [OF assms(2) i] assms(3-5)
      by blast
  qed
qed

lemma run_held:
  assumes "(pool_step alloc release)\<^sup>*\<^sup>* (s, {}) (s', held)" and "inv s"
  shows "inv s' \<and> universe s' = universe s \<and> held \<subseteq> universe s' \<and> used s' = used s \<union> held \<and> used s \<inter> held = {}"
proof -
  have "(\<lambda>(s', held). inv s' \<and> universe s' = universe s \<and> held \<subseteq> universe s' \<and> used s' = used s \<union> held
      \<and> used s \<inter> held = {}) (s', held)"
    using assms(1)
  proof (induction rule: rtranclp_induct)
    case base
    then show ?case using assms(2) by simp
  next
    case (step y z)
    then show ?case using step_held [of "fst y" "snd y" "fst z" "snd z" "used s"] by (auto simp: split_def)
  qed
  then show ?thesis by blast
qed

end

end
