(* ===== verification/OwnerId.thy ===== *)
theory OwnerId
  imports Pool
begin

text \<open>
  Table and method owner IDs: \<^verbatim>\<open>utownerid.c\<close> with the initial values of \<^verbatim>\<open>AcpiUtInitGlobals\<close>
  (\<^verbatim>\<open>utinit.c\<close>). The state is the bit mask of the allocated IDs and the position of the search.
  What \<open>AcpiUtAcquireMutex (ACPI_MTX_CACHES)\<close> returned is the argument \<open>acquire\<close>. The loop counters,
  which stay below 130, are natural numbers. An access behind the mask array is \<open>None\<close>.
\<close>

record owner_state =
  OwnerIdMask :: "u32 list"
  LastOwnerIdIndex :: u8
  NextOwnerIdOffset :: u8

definition ACPI_NUM_OWNERID_MASKS :: nat where
  "ACPI_NUM_OWNERID_MASKS = 128"

definition OwnerId_init :: owner_state where
  "OwnerId_init =
     \<lparr>OwnerIdMask = (replicate ACPI_NUM_OWNERID_MASKS 0)[ACPI_NUM_OWNERID_MASKS - 1 := 0x80000000],
      LastOwnerIdIndex = 0, NextOwnerIdOffset = 0\<rparr>"

text \<open>The inner loop over the bits of one mask.\<close>

function scan_mask :: "u32 \<Rightarrow> nat \<Rightarrow> nat option" where
  "scan_mask Mask k =
     (if k < 32
      then if Mask = 0xFFFFFFFF then None
           else if Mask AND push_bit k 1 = 0 then Some k
           else scan_mask Mask (k + 1)
      else None)"
  by pat_completeness auto

termination by (relation "measure (\<lambda>(_, k). 32 - k)") auto

declare scan_mask.simps [simp del]

text \<open>The outer loop: \<open>i\<close> counts the iterations, \<open>j\<close> is the mask.\<close>

function scan_masks :: "nat \<Rightarrow> nat \<Rightarrow> owner_state \<Rightarrow> u16 option \<times> owner_state" where
  "scan_masks i j s =
     (if i < ACPI_NUM_OWNERID_MASKS + 1
      then let j = (if j \<ge> ACPI_NUM_OWNERID_MASKS then 0 else j)
           in case scan_mask (OwnerIdMask s ! j) (unat (NextOwnerIdOffset s)) of
                Some k \<Rightarrow>
                  (Some (of_nat ((k + 1) + j * 32)),
                   s\<lparr>OwnerIdMask := (OwnerIdMask s)[j := OwnerIdMask s ! j OR push_bit k 1],
                     LastOwnerIdIndex := of_nat j,
                     NextOwnerIdOffset := of_nat (k + 1)\<rparr>)
              | None \<Rightarrow> scan_masks (i + 1) (j + 1) (s\<lparr>NextOwnerIdOffset := 0\<rparr>)
      else (None, s))"
  by pat_completeness auto

termination by (relation "measure (\<lambda>(i, _, _). 200 - i)") (auto simp: ACPI_NUM_OWNERID_MASKS_def)

declare scan_masks.simps [simp del]

definition AcpiUtAllocateOwnerId ::
  "acpi_status \<Rightarrow> u16 \<Rightarrow> owner_state \<Rightarrow> acpi_status \<times> u16 \<times> owner_state" where
  "AcpiUtAllocateOwnerId acquire OwnerId s =
     (if OwnerId \<noteq> 0 then (AE_ALREADY_EXISTS, OwnerId, s)
      else if ACPI_FAILURE acquire then (acquire, OwnerId, s)
      else case scan_masks 0 (unat (LastOwnerIdIndex s)) s of
             (Some n, s') \<Rightarrow> (AE_OK, n, s')
           | (None, s') \<Rightarrow> (AE_OWNER_ID_LIMIT, OwnerId, s'))"

definition AcpiUtReleaseOwnerId :: "acpi_status \<Rightarrow> u16 \<Rightarrow> owner_state \<Rightarrow> (u16 \<times> owner_state) option" where
  "AcpiUtReleaseOwnerId acquire OwnerId s =
     (if OwnerId = 0 then Some (0, s)
      else if ACPI_FAILURE acquire then Some (0, s)
      else let OwnerId = OwnerId - 1;
               Index = unat (drop_bit 5 OwnerId);
               Bit = push_bit (unat (OwnerId AND 0x1F)) 1
           in if Index \<ge> length (OwnerIdMask s) then None
              else if OwnerIdMask s ! Index AND Bit \<noteq> 0
              then Some (0, s\<lparr>OwnerIdMask := (OwnerIdMask s)[Index := OwnerIdMask s ! Index XOR Bit]\<rparr>)
              else Some (0, s))"

section \<open>The invariant and the abstract set of IDs\<close>

definition owner_inv :: "owner_state \<Rightarrow> bool" where
  "owner_inv s \<longleftrightarrow> length (OwnerIdMask s) = 128 \<and> unat (LastOwnerIdIndex s) < 128
     \<and> unat (NextOwnerIdOffset s) \<le> 32 \<and> bit (OwnerIdMask s ! 127) 31"

definition owner_used :: "owner_state \<Rightarrow> nat set" where
  "owner_used s = {n. 1 \<le> n \<and> n \<le> 4096 \<and> bit (OwnerIdMask s ! ((n - 1) div 32)) ((n - 1) mod 32)}"

definition owner_ids :: "nat set" where
  "owner_ids = {1..4095}"

lemma scan_mask_Some:
  "scan_mask Mask k = Some b \<Longrightarrow> k \<le> b \<and> b < 32 \<and> \<not> bit Mask b"
proof (induction Mask k rule: scan_mask.induct)
  case (1 Mask k)
  then show ?case using scan_mask.simps [of Mask k] by (auto simp: and_single_bit split: if_splits)
qed

lemma scan_mask_None:
  assumes "scan_mask Mask 0 = None" and "n < 32"
  shows "bit Mask n"
proof -
  have "scan_mask Mask k = None \<Longrightarrow> Mask \<noteq> 0xFFFFFFFF \<Longrightarrow> k \<le> n \<Longrightarrow> n < 32 \<Longrightarrow> bit Mask n" for k
  proof (induction Mask k rule: scan_mask.induct)
    case (1 Mask k)
    then show ?case
      using scan_mask.simps [of Mask k] by (cases "k = n") (auto simp: and_single_bit split: if_splits)
  qed
  moreover have "bit (0xFFFFFFFF :: u32) n"
  proof -
    have "(0xFFFFFFFF :: u32) = - 1" by simp
    then show ?thesis using assms(2) by (simp only: bit_minus_1_iff) simp
  qed
  ultimately show ?thesis using assms by (cases "Mask = 0xFFFFFFFF") auto
qed


text \<open>A search that succeeds marks one free bit; nothing else changes in the masks.\<close>

definition owner_marked :: "nat \<Rightarrow> nat \<Rightarrow> owner_state \<Rightarrow> owner_state" where
  "owner_marked j k s = s\<lparr>OwnerIdMask := (OwnerIdMask s)[j := OwnerIdMask s ! j OR push_bit k 1],
     LastOwnerIdIndex := of_nat j, NextOwnerIdOffset := of_nat (k + 1)\<rparr>"

lemma scan_masks_Some:
  "scan_masks i j s = (Some n, s') \<Longrightarrow> j \<le> 128 \<Longrightarrow>
     \<exists>j' k. j' < 128 \<and> k < 32 \<and> \<not> bit (OwnerIdMask s ! j') k \<and> n = of_nat (k + 1 + j' * 32)
       \<and> s' = owner_marked j' k s"
proof (induction i j s rule: scan_masks.induct)
  case (1 i j s)
  let ?j = "if j \<ge> 128 then 0 else j"
  show ?case
  proof (cases "scan_mask (OwnerIdMask s ! ?j) (unat (NextOwnerIdOffset s))")
    case (Some k)
    then have "n = of_nat (k + 1 + ?j * 32)" "s' = owner_marked ?j k s"
      using 1(2) scan_masks.simps [of i j s]
      by (auto simp: ACPI_NUM_OWNERID_MASKS_def owner_marked_def Let_def split: if_splits)
    then show ?thesis using scan_mask_Some [OF Some] by (intro exI [of _ ?j] exI [of _ k]) simp
  next
    case None
    then have "scan_masks (i + 1) (?j + 1) (s\<lparr>NextOwnerIdOffset := 0\<rparr>) = (Some n, s')" "i < 129"
      using 1(2) scan_masks.simps [of i j s] by (auto simp: ACPI_NUM_OWNERID_MASKS_def Let_def split: if_splits)
    moreover have "owner_marked j' k (s\<lparr>NextOwnerIdOffset := 0\<rparr>) = owner_marked j' k s" for j' k
      by (simp add: owner_marked_def)
    ultimately show ?thesis
      using 1(1) [of ?j] None by (simp add: ACPI_NUM_OWNERID_MASKS_def)
  qed
qed

lemma scan_masks_None_state:
  "scan_masks i j s = (None, s') \<Longrightarrow> s' = s \<or> s' = s\<lparr>NextOwnerIdOffset := 0\<rparr>"
proof (induction i j s rule: scan_masks.induct)
  case (1 i j s)
  then show ?case using scan_masks.simps [of i j s]
    by (fastforce simp: Let_def split: if_splits option.splits)
qed

lemma scan_masks_None:
  "scan_masks i j s = (None, s') \<Longrightarrow> NextOwnerIdOffset s = 0 \<Longrightarrow> j \<le> 128 \<Longrightarrow> i + t < 129 \<Longrightarrow>
     scan_mask (OwnerIdMask s ! ((j + t) mod 128)) 0 = None"
proof (induction i j s arbitrary: t rule: scan_masks.induct)
  case (1 i j s)
  let ?j = "if j \<ge> 128 then 0 else j"
  have mod: "(j + u) mod 128 = (?j + u) mod 128" "?j mod 128 = ?j" for u using 1(4) by auto
  have now: "scan_mask (OwnerIdMask s ! ?j) 0 = None"
    and later: "scan_masks (i + 1) (?j + 1) (s\<lparr>NextOwnerIdOffset := 0\<rparr>) = (None, s')"
    using 1(2,3,5) scan_masks.simps [of i j s]
    by (auto simp: ACPI_NUM_OWNERID_MASKS_def Let_def split: if_splits option.splits)
  show ?case
  proof (cases t)
    case 0
    then show ?thesis using now mod(1) [of 0] mod(2) by simp
  next
    case (Suc u)
    then have "scan_mask (OwnerIdMask s ! ((?j + 1 + u) mod 128)) 0 = None"
      using 1(1) [of ?j u] 1(3,5) now later by (simp add: ACPI_NUM_OWNERID_MASKS_def)
    then show ?thesis using Suc mod(1) [of "Suc u"] by simp
  qed
qed

lemma scan_masks_full:
  assumes "scan_masks 0 j s = (None, s')" and "j < 128" and "m < 128" and "n < 32"
  shows "bit (OwnerIdMask s ! m) n"
proof -
  have "scan_masks 1 (j + 1) (s\<lparr>NextOwnerIdOffset := 0\<rparr>) = (None, s')"
    using assms(1,2) scan_masks.simps [of 0 j s]
    by (auto simp: ACPI_NUM_OWNERID_MASKS_def Let_def split: if_splits option.splits)
  from scan_masks_None [OF this, of "(m + 127 - j) mod 128"]
  have "scan_mask (OwnerIdMask s ! ((j + 1 + (m + 127 - j) mod 128) mod 128)) 0 = None"
    using assms(2) by simp
  moreover have "(j + 1 + (m + 127 - j) mod 128) mod 128 = m"
  proof -
    have "(j + 1 + (m + 127 - j) mod 128) mod 128 = (j + 1 + (m + 127 - j)) mod 128" by (rule mod_add_right_eq)
    also have "j + 1 + (m + 127 - j) = m + 128" using assms(2) by simp
    finally show ?thesis using assms(3) by simp
  qed
  ultimately show ?thesis using scan_mask_None assms(4) by simp
qed

lemma owner_marked_used:
  assumes "owner_inv s" and "j < 128" and "k < 32"
  shows "owner_used (owner_marked j k s) = insert (k + 1 + j * 32) (owner_used s)"
    and "owner_inv (owner_marked j k s)"
proof -
  have len: "length (OwnerIdMask s) = 128" using assms(1) by (simp add: owner_inv_def)
  have "n = k + 1 + j * 32 \<longleftrightarrow> (n - 1) div 32 = j \<and> (n - 1) mod 32 = k" if "1 \<le> n" for n
    using that assms(3) by auto
  moreover have "k + 1 + j * 32 \<le> 4096" using assms(2,3) by simp
  ultimately show "owner_used (owner_marked j k s) = insert (k + 1 + j * 32) (owner_used s)"
    using assms(2,3) len
    by (auto simp: owner_used_def owner_marked_def nth_list_update bit_simps)
  have "unat (1 + of_nat k :: u8) \<le> 32"
    using unat_of_nat_lt [of "k + 1", where 'a = 8] assms(3) by simp
  then show "owner_inv (owner_marked j k s)"
    using assms len by (auto simp: owner_inv_def owner_marked_def nth_list_update bit_simps unat_of_nat)
qed


section \<open>Allocation and release as operations on the set of IDs\<close>

lemma allocate_cases:
  assumes "owner_inv s" and "\<not> ACPI_FAILURE acquire"
  shows "case AcpiUtAllocateOwnerId acquire 0 s of
     (st, n, s') \<Rightarrow> owner_inv s' \<and>
       (st = AE_OK \<and> unat n \<in> owner_ids - owner_used s \<and> owner_used s' = insert (unat n) (owner_used s)
        \<or> st = AE_OWNER_ID_LIMIT \<and> n = 0 \<and> owner_ids \<subseteq> owner_used s \<and> owner_used s' = owner_used s)"
proof -
  have j: "unat (LastOwnerIdIndex s) < 128" using assms(1) by (simp add: owner_inv_def)
  obtain r s' where scan: "scan_masks 0 (unat (LastOwnerIdIndex s)) s = (r, s')" by force
  show ?thesis
  proof (cases r)
    case None
    have "s' = s \<or> s' = s\<lparr>NextOwnerIdOffset := 0\<rparr>" using scan_masks_None_state scan None by blast
    then have "owner_inv s'" "owner_used s' = owner_used s"
      using assms(1) by (auto simp: owner_inv_def owner_used_def)
    moreover have "owner_ids \<subseteq> owner_used s"
      using scan_masks_full [OF scan [unfolded None] j] by (auto simp: owner_ids_def owner_used_def)
    ultimately show ?thesis using assms(2) scan None by (simp add: AcpiUtAllocateOwnerId_def)
  next
    case (Some n)
    then obtain j' k where k: "j' < 128" "k < 32" "\<not> bit (OwnerIdMask s ! j') k"
        "n = of_nat (k + 1 + j' * 32)" "s' = owner_marked j' k s"
      using scan_masks_Some [of 0 "unat (LastOwnerIdIndex s)" s n s'] scan j by auto
    have n: "unat n = k + 1 + j' * 32" unfolding k(4) using k(1,2) by (intro unat_of_nat_lt) simp
    have "\<not> (j' = 127 \<and> k = 31)" using k(3) assms(1) by (auto simp: owner_inv_def)
    then have "unat n \<in> owner_ids" using k(1,2) n by (auto simp: owner_ids_def)
    moreover have "unat n \<notin> owner_used s" using k(2,3) n by (auto simp: owner_used_def)
    ultimately show ?thesis
      using assms(2) scan Some owner_marked_used [OF assms(1) k(1,2)] n k(5)
      by (simp add: AcpiUtAllocateOwnerId_def)
  qed
qed

lemma release_in_range:
  assumes "owner_inv s" and "\<not> ACPI_FAILURE acquire" and "1 \<le> unat n" and "unat n \<le> 4096"
  shows "\<exists>s'. AcpiUtReleaseOwnerId acquire n s = Some (0, s') \<and> owner_used s' = owner_used s - {unat n}
     \<and> LastOwnerIdIndex s' = LastOwnerIdIndex s \<and> NextOwnerIdOffset s' = NextOwnerIdOffset s
     \<and> length (OwnerIdMask s') = 128 \<and> (unat n \<notin> owner_used s \<longrightarrow> s' = s)"
proof -
  let ?m = "unat n - 1"
  have "n \<noteq> 0" using assms(3) by auto
  then have pred: "unat (n - 1) = ?m" by (rule unat_pred)
  have index: "unat (drop_bit 5 (n - 1)) = ?m div 32"
    using pred by (simp add: drop_bit_eq_div unat_div)
  have offset: "unat ((n - 1) AND 31) = ?m mod 32"
  proof -
    have "(n - 1) AND 31 = take_bit 5 (n - 1)" by (simp add: take_bit_eq_mask mask_eq_exp_minus_1)
    then show ?thesis using pred by (simp only: unsigned_take_bit_eq) (simp add: take_bit_eq_mod)
  qed
  have len: "length (OwnerIdMask s) = 128" using assms(1) by (simp add: owner_inv_def)
  have m: "?m div 32 < 128" using assms(4) by simp
  have other: "k \<noteq> unat n \<Longrightarrow> 1 \<le> k \<Longrightarrow> (k - 1) div 32 = ?m div 32 \<Longrightarrow> (k - 1) mod 32 \<noteq> ?m mod 32" for k
    using assms(3) by (metis div_mult_mod_eq le_add_diff_inverse)
  show ?thesis
  proof (cases "bit (OwnerIdMask s ! (?m div 32)) (?m mod 32)")
    case True
    let ?s = "s\<lparr>OwnerIdMask := (OwnerIdMask s)[?m div 32 := OwnerIdMask s ! (?m div 32) XOR 2 ^ (?m mod 32)]\<rparr>"
    have "AcpiUtReleaseOwnerId acquire n s = Some (0, ?s)"
      using \<open>n \<noteq> 0\<close> assms(2) True len m
      by (simp add: AcpiUtReleaseOwnerId_def index offset Let_def and_single_bit)
    moreover have "owner_used ?s = owner_used s - {unat n}"
      using True len m other assms(3,4) by (auto simp: owner_used_def nth_list_update bit_simps)
    moreover have "unat n \<in> owner_used s" using True assms(3,4) by (simp add: owner_used_def)
    ultimately show ?thesis using len by (intro exI [of _ ?s]) simp
  next
    case False
    then have "AcpiUtReleaseOwnerId acquire n s = Some (0, s)"
      using \<open>n \<noteq> 0\<close> assms(2) len m
      by (simp add: AcpiUtReleaseOwnerId_def index offset Let_def and_single_bit)
    moreover have "unat n \<notin> owner_used s" using False by (simp add: owner_used_def)
    ultimately show ?thesis using len by auto
  qed
qed

lemma owner_inv_used: "length (OwnerIdMask s) = 128 \<Longrightarrow> bit (OwnerIdMask s ! 127) 31 \<longleftrightarrow> 4096 \<in> owner_used s"
  by (simp add: owner_used_def)

lemma release_spec:
  assumes "owner_inv s" and "\<not> ACPI_FAILURE acquire" and "unat n \<in> owner_ids"
  shows "\<exists>s'. AcpiUtReleaseOwnerId acquire n s = Some (0, s') \<and> owner_used s' = owner_used s - {unat n}
    \<and> owner_inv s' \<and> (unat n \<notin> owner_used s \<longrightarrow> s' = s)"
proof -
  obtain s' where s': "AcpiUtReleaseOwnerId acquire n s = Some (0, s')" "owner_used s' = owner_used s - {unat n}"
      "LastOwnerIdIndex s' = LastOwnerIdIndex s" "NextOwnerIdOffset s' = NextOwnerIdOffset s"
      "length (OwnerIdMask s') = 128" "unat n \<notin> owner_used s \<longrightarrow> s' = s"
    using release_in_range [OF assms(1,2), of n] assms(3) by (auto simp: owner_ids_def)
  have "4096 \<in> owner_used s'"
    using s'(2) assms(1,3) owner_inv_used [of s] by (auto simp: owner_inv_def owner_ids_def)
  then have "owner_inv s'" using s'(3-5) assms(1) owner_inv_used [OF s'(5)] by (simp add: owner_inv_def)
  with s' show ?thesis by auto
qed

section \<open>Owner IDs are a pool of identifiers\<close>

definition owner_alloc :: "owner_state \<Rightarrow> (nat \<times> owner_state) option" where
  "owner_alloc s = (case AcpiUtAllocateOwnerId AE_OK 0 s of
     (st, n, s') \<Rightarrow> if st = AE_OK then Some (unat n, s') else None)"

definition owner_release :: "nat \<Rightarrow> owner_state \<Rightarrow> owner_state" where
  "owner_release n s = (case AcpiUtReleaseOwnerId AE_OK (of_nat n) s of Some (_, s') \<Rightarrow> s' | None \<Rightarrow> s)"

lemma owner_alloc_Some:
  assumes "owner_inv s" and "owner_alloc s = Some (n, s')"
  shows "owner_inv s'" and "n \<in> owner_ids - owner_used s" and "owner_used s' = insert n (owner_used s)"
  using allocate_cases [OF assms(1), of AE_OK] assms(2)
  by (auto simp: owner_alloc_def split: prod.splits if_splits)

lemma owner_alloc_None: "owner_inv s \<Longrightarrow> owner_alloc s = None \<Longrightarrow> owner_ids \<subseteq> owner_used s"
  using allocate_cases [of s AE_OK] by (auto simp: owner_alloc_def split: prod.splits if_splits)

lemma owner_release_spec:
  assumes "owner_inv s" and "n \<in> owner_ids"
  shows "owner_inv (owner_release n s)" and "owner_used (owner_release n s) = owner_used s - {n}"
proof -
  have n: "unat (of_nat n :: u16) = n" using assms(2) by (intro unat_of_nat_lt) (simp add: owner_ids_def)
  obtain s' where "AcpiUtReleaseOwnerId AE_OK (of_nat n) s = Some (0, s')"
      "owner_used s' = owner_used s - {n}" "owner_inv s'"
    using release_spec [OF assms(1), of AE_OK "of_nat n"] assms(2) unfolding n by auto
  then show "owner_inv (owner_release n s)" and "owner_used (owner_release n s) = owner_used s - {n}"
    by (simp_all add: owner_release_def)
qed

lemma finite_owner_ids: "finite owner_ids"
  by (simp add: owner_ids_def)

interpretation owner_pool: id_pool owner_inv owner_used "\<lambda>_. owner_ids" owner_alloc owner_release
proof
  show "finite owner_ids" by (rule finite_owner_ids)
  show "owner_inv s'" and "i \<in> owner_ids - owner_used s" and "owner_used s' = insert i (owner_used s)"
    if "owner_inv s" and "owner_alloc s = Some (i, s')" for s i s'
    using owner_alloc_Some [OF that] by blast+
  show "owner_ids \<subseteq> owner_used s" if "owner_inv s" and "owner_alloc s = None" for s
    using owner_alloc_None [OF that] .
  show "owner_inv (owner_release i s)" and "owner_used (owner_release i s) = owner_used s - {i}"
    if "owner_inv s" and "i \<in> owner_ids" for s i
    using owner_release_spec [OF that] by blast+
qed (rule refl)+

lemma owner_inv_init: "owner_inv OwnerId_init"
  by (simp add: owner_inv_def OwnerId_init_def ACPI_NUM_OWNERID_MASKS_def bit_numeral_rec)

lemma OwnerIdMask_init: "m < 128 \<Longrightarrow> OwnerIdMask OwnerId_init ! m = (if m = 127 then 0x80000000 else 0)"
  by (auto simp: OwnerId_init_def ACPI_NUM_OWNERID_MASKS_def nth_list_update)

lemma owner_used_init: "owner_used OwnerId_init = {4096}"
proof -
  have "(0x80000000 :: u32) = 2 ^ 31" by simp
  then have "bit (0x80000000 :: u32) k \<longleftrightarrow> k = 31" for k
    by (simp only: bit_exp_iff) auto
  then have set_bits: "bit (OwnerIdMask OwnerId_init ! m) k \<longleftrightarrow> m = 127 \<and> k = 31" if "m < 128" for m k
    using OwnerIdMask_init [OF that] by simp
  have last: "(n - 1) div 32 = 127 \<and> (n - 1) mod 32 = 31 \<longleftrightarrow> n = 4096" for n :: nat
  proof
    assume "(n - 1) div 32 = 127 \<and> (n - 1) mod 32 = 31"
    then have "n - 1 = 127 * 32 + 31" using div_mult_mod_eq [of "n - 1" 32] by metis
    then show "n = 4096" by simp
  qed simp
  have "bit (OwnerIdMask OwnerId_init ! ((n - 1) div 32)) ((n - 1) mod 32) \<longleftrightarrow> n = 4096"
    if "n \<le> 4096" for n
  proof -
    have "(n - 1) div 32 < 128" using that by simp
    then show ?thesis by (simp only: set_bits last)
  qed
  then have "n \<in> owner_used OwnerId_init \<longleftrightarrow> n = 4096" for n
    unfolding owner_used_def mem_Collect_eq by (metis one_le_numeral order_refl)
  then show ?thesis by blast
qed

lemma owner_ids_free_init: "\<not> owner_ids \<subseteq> owner_used OwnerId_init"
proof -
  have "(1 :: nat) \<in> owner_ids" by (simp add: owner_ids_def)
  then show ?thesis by (auto simp: owner_used_init)
qed

section \<open>Properties\<close>

text \<open>
  C21. A successful \<open>AcpiUtAllocateOwnerId\<close> returns an ID from 1 to 4095 that was not allocated and
  marks exactly this ID as allocated; \<open>AE_OWNER_ID_LIMIT\<close> is returned exactly when all 4095 IDs
  are allocated, with the caller's variable still zero. A caller whose variable already holds an ID gets
  \<open>AE_ALREADY_EXISTS\<close> and a failure to acquire the mutex is passed on, both without a change of
  state. The invariant of the global tables is kept on every path.
\<close>

theorem owner_id_allocate:
  assumes "owner_inv s" and "AcpiUtAllocateOwnerId acquire OwnerId s = (st, n, s')"
  shows "owner_inv s' \<and>
    (if OwnerId \<noteq> 0 then st = AE_ALREADY_EXISTS \<and> n = OwnerId \<and> s' = s
     else if ACPI_FAILURE acquire then st = acquire \<and> n = 0 \<and> s' = s
     else if owner_ids \<subseteq> owner_used s
     then st = AE_OWNER_ID_LIMIT \<and> n = 0 \<and> owner_used s' = owner_used s
     else st = AE_OK \<and> 1 \<le> unat n \<and> unat n \<le> 4095 \<and> unat n \<notin> owner_used s
          \<and> owner_used s' = insert (unat n) (owner_used s))"
proof (cases "OwnerId \<noteq> 0 \<or> ACPI_FAILURE acquire")
  case True
  then show ?thesis using assms by (auto simp: AcpiUtAllocateOwnerId_def)
next
  case False
  then show ?thesis
    using allocate_cases [OF assms(1), of acquire] assms(2) by (auto simp: owner_ids_def)
qed

theorem owner_id_allocate_witness:
  "owner_inv (snd (snd (AcpiUtAllocateOwnerId AE_OK 0 OwnerId_init)))
    \<and> 1 \<le> unat (fst (snd (AcpiUtAllocateOwnerId AE_OK 0 OwnerId_init)))"
  using owner_id_allocate [of OwnerId_init AE_OK 0 "fst (AcpiUtAllocateOwnerId AE_OK 0 OwnerId_init)"
      "fst (snd (AcpiUtAllocateOwnerId AE_OK 0 OwnerId_init))" "snd (snd (AcpiUtAllocateOwnerId AE_OK 0 OwnerId_init))"]
    owner_inv_init owner_ids_free_init
  by (simp add: Suc_le_eq)

text \<open>
  Releasing an allocated ID makes exactly this ID free again and clears the caller's
  variable; releasing 0 or an ID that is not allocated changes nothing; no release of an ID up to
  4095 reads outside the mask array.
\<close>

theorem owner_id_release:
  assumes "owner_inv s" and "\<not> ACPI_FAILURE acquire" and "unat n \<le> 4095"
  shows "\<exists>s'. AcpiUtReleaseOwnerId acquire n s = Some (0, s') \<and> owner_inv s'
    \<and> owner_used s' = owner_used s - {unat n} \<and> (unat n \<notin> owner_used s \<longrightarrow> s' = s)"
proof (cases "n = 0")
  case True
  then show ?thesis using assms(1) by (auto simp: AcpiUtReleaseOwnerId_def owner_used_def)
next
  case False
  then have n: "unat n \<in> owner_ids" using assms(3) by (simp add: owner_ids_def unat_gt_0 Suc_le_eq)
  then show ?thesis using release_spec [OF assms(1,2)] by blast
qed

theorem owner_id_release_witness:
  "\<exists>s'. AcpiUtReleaseOwnerId AE_OK 5 OwnerId_init = Some (0, s') \<and> owner_inv s'
    \<and> owner_used s' = owner_used OwnerId_init - {unat (5 :: u16)}
    \<and> (unat (5 :: u16) \<notin> owner_used OwnerId_init \<longrightarrow> s' = OwnerId_init)"
  by (rule owner_id_release) (simp_all add: owner_inv_init)

text \<open>
  From the initial state exactly 4095 consecutive allocations succeed; they return all IDs
  from 1 to 4095, each once. Releasing all of them again leaves the set of allocated IDs as it
  was at the start.
\<close>

theorem owner_id_capacity:
  "\<exists>ns s. alloc_n owner_alloc 4095 OwnerId_init = Some (ns, s) \<and> distinct ns \<and> set ns = {1..4095}
     \<and> alloc_n owner_alloc 4096 OwnerId_init = None
     \<and> owner_used (fold owner_release ns s) = owner_used OwnerId_init"
proof -
  have free: "owner_ids - owner_used OwnerId_init = {1..4095}"
    by (auto simp: owner_used_init owner_ids_def)
  then obtain ns s where a: "alloc_n owner_alloc 4095 OwnerId_init = Some (ns, s)"
    using owner_pool.alloc_n_succeeds_iff [OF owner_inv_init, of 4095] by (auto simp del: alloc_n.simps)
  note r = owner_pool.alloc_n_result [OF owner_inv_init a]
  have "set ns = {1..4095}"
    using r free by (intro card_subset_eq) (auto simp: distinct_card)
  moreover have "alloc_n owner_alloc 4096 OwnerId_init = None"
    using owner_pool.alloc_n_succeeds_iff [OF owner_inv_init, of 4096] free
    by (cases "alloc_n owner_alloc 4096 OwnerId_init") (simp_all del: alloc_n.simps)
  moreover have "owner_used (fold owner_release ns s) = owner_used s - set ns"
    using owner_pool.release_all [of s ns] r by auto
  ultimately show ?thesis using a r free by (intro exI [of _ ns] exI [of _ s]) auto
qed

text \<open>
  C31. A client that only releases IDs that it holds, in any interleaving of allocations and
  releases from a state satisfying the invariant: the allocated IDs are always those of the
  start and those that the client holds, and none of the client's IDs was in use at the start.
\<close>

theorem owner_id_client:
  assumes "(pool_step owner_alloc owner_release)\<^sup>*\<^sup>* (s, {}) (s', held)" and "owner_inv s"
  shows "owner_inv s' \<and> held \<subseteq> {1..4095} \<and> owner_used s' = owner_used s \<union> held \<and> owner_used s \<inter> held = {}"
  using owner_pool.run_held [OF assms] by (auto simp: owner_ids_def)

theorem owner_id_client_witness:
  "\<exists>n s'. owner_alloc OwnerId_init = Some (n, s') \<and> owner_inv s' \<and> owner_used s' = owner_used OwnerId_init \<union> {n}"
proof -
  obtain n s' where a: "owner_alloc OwnerId_init = Some (n, s')"
    using owner_ids_free_init owner_pool.alloc_succeeds_iff [OF owner_inv_init] by auto
  then have "(pool_step owner_alloc owner_release)\<^sup>*\<^sup>* (OwnerId_init, {}) (s', {n})"
    by (blast intro: step_alloc)
  from owner_id_client [OF this owner_inv_init] show ?thesis using a by blast
qed

end
