(* ===== verification/KString.thy ===== *)
theory KString
  imports Prelude
begin

text \<open>
  The memory routines that the kernel itself is linked with, \<^verbatim>\<open>Libraries/LibStd/CString.cpp\<close>.
  Loop counters of type \<open>int\<close> that are compared with a \<open>size_t\<close> are natural numbers: the model
  agrees with the code for counts below 2^31. A pointer is a 64-bit address, \<open>nullptr\<close> is 0.
\<close>

section \<open>The routines\<close>

function kmemcmp_loop :: "mem \<Rightarrow> addr \<Rightarrow> addr \<Rightarrow> nat \<Rightarrow> nat \<Rightarrow> int" where
  "kmemcmp_loop m b1 b2 n i =
     (if i < n
      then if m (b1 + of_nat i) \<noteq> m (b2 + of_nat i) then 1 else kmemcmp_loop m b1 b2 n (i + 1)
      else 0)"
  by pat_completeness auto

termination by (relation "measure (\<lambda>(_, _, _, n, i). n - i)") auto

definition kmemcmp :: "mem \<Rightarrow> addr \<Rightarrow> addr \<Rightarrow> u64 \<Rightarrow> int" where
  "kmemcmp m s1 s2 n = kmemcmp_loop m s1 s2 (unat n) 0"

function kmemset_loop :: "mem \<Rightarrow> addr \<Rightarrow> u8 \<Rightarrow> nat \<Rightarrow> nat \<Rightarrow> mem" where
  "kmemset_loop m buffer value count i =
     (if i < count then kmemset_loop (m(buffer + of_nat i := value)) buffer value count (i + 1) else m)"
  by pat_completeness auto

termination by (relation "measure (\<lambda>(_, _, _, n, i). n - i)") auto

definition kmemset :: "mem \<Rightarrow> addr \<Rightarrow> int \<Rightarrow> u64 \<Rightarrow> mem \<times> addr" where
  "kmemset m buffer value count = (kmemset_loop m buffer (word_of_int value) (unat count) 0, buffer)"

text \<open>
  One assignment \<open>dst[i] = src[i]\<close> of a \<open>w\<close>-byte integer: all its bytes are read before the
  first one is written.
\<close>

definition move_unit :: "mem \<Rightarrow> addr \<Rightarrow> addr \<Rightarrow> nat \<Rightarrow> mem" where
  "move_unit m d s w = (\<lambda>a. if unat (a - d) < w then m (s + (a - d)) else m a)"

function copy_units :: "mem \<Rightarrow> addr \<Rightarrow> addr \<Rightarrow> nat \<Rightarrow> nat \<Rightarrow> nat \<Rightarrow> mem" where
  "copy_units m d s w n i =
     (if i < n
      then copy_units (move_unit m (d + of_nat (w * i)) (s + of_nat (w * i)) w) d s w n (i + 1)
      else m)"
  by pat_completeness auto

termination by (relation "measure (\<lambda>(_, _, _, _, n, i). n - i)") auto

declare kmemcmp_loop.simps [simp del] kmemset_loop.simps [simp del] copy_units.simps [simp del]

definition kmemcpy :: "mem \<Rightarrow> addr \<Rightarrow> addr \<Rightarrow> u64 \<Rightarrow> mem \<times> addr" where
  "kmemcpy m destination source num =
     (if destination = 0 \<or> source = 0 then (m, 0)
      else if source mod 8 = 0 \<and> destination mod 8 = 0 \<and> num mod 8 = 0
      then (copy_units m destination source 8 (unat (num div 8)) 0, destination)
      else if source mod 4 = 0 \<and> destination mod 4 = 0 \<and> num mod 4 = 0
      then (copy_units m destination source 4 (unat (num div 4)) 0, destination)
      else (copy_units m destination source 1 (unat num) 0, destination))"

definition kmemmove :: "mem \<Rightarrow> addr \<Rightarrow> addr \<Rightarrow> u64 \<Rightarrow> mem \<times> addr" where
  "kmemmove m destination source num =
     (if source mod 8 = 0 \<and> destination mod 8 = 0 \<and> num mod 8 = 0
      then (copy_units m destination source 8 (unat (num div 8)) 0, 0)
      else (m, 0))"

text \<open>As many steps as there are characters; \<open>None\<close> if no null byte ends the string.\<close>

partial_function (option) kstrlen_loop :: "mem \<Rightarrow> addr \<Rightarrow> u64 \<Rightarrow> u64 option" where
  "kstrlen_loop m str count =
     (if m str \<noteq> 0 then kstrlen_loop m (str + 1) (count + 1) else Some count)"

definition kstrlen :: "mem \<Rightarrow> addr \<Rightarrow> u64 option" where
  "kstrlen m str = kstrlen_loop m str 0"

section \<open>Copying regions\<close>

lemma kmemset_loop_filled:
  "i \<le> count \<Longrightarrow> count \<le> 2 ^ 64 \<Longrightarrow>
     kmemset_loop m buffer v count i = filled m (buffer + of_nat i) v (count - i)"
proof (induction m buffer v count i rule: kmemset_loop.induct)
  case (1 m buffer v count i)
  show ?case
  proof (cases "i < count")
    case True
    have "kmemset_loop m buffer v count i = kmemset_loop (m(buffer + of_nat i := v)) buffer v count (i + 1)"
      using True by (subst kmemset_loop.simps) (simp only: if_True)
    also have "\<dots> = filled (m(buffer + of_nat i := v)) (buffer + of_nat (i + 1)) v (count - (i + 1))"
      using True 1(3) by (intro 1(1)) simp_all
    also have "buffer + of_nat (i + 1) = buffer + of_nat i + 1" by simp
    also have "filled (m(buffer + of_nat i := v)) (buffer + of_nat i + 1) v (count - (i + 1)) =
        filled m (buffer + of_nat i) v (Suc (count - (i + 1)))"
      using True 1(3) by (intro filled_Suc) simp
    also have "Suc (count - (i + 1)) = count - i" using True by simp
    finally show ?thesis .
  next
    case False
    then show ?thesis using 1(2) by (subst kmemset_loop.simps) simp
  qed
qed

lemma kmemset_filled: "kmemset m buffer v count = (filled m buffer (word_of_int v) (unat count), buffer)"
  using kmemset_loop_filled [of 0 "unat count" m buffer "word_of_int v"] unat_lt64 [of count]
  by (simp add: kmemset_def)

text \<open>Two regions of \<open>n\<close> bytes that do not overlap, modulo the size of the address space.\<close>

definition disjoint :: "addr \<Rightarrow> addr \<Rightarrow> nat \<Rightarrow> bool" where
  "disjoint d s n \<longleftrightarrow> (\<forall>a. \<not> (unat (a - d) < n \<and> unat (a - s) < n))"

lemma disjoint_mono: "disjoint d s n \<Longrightarrow> k \<le> n \<Longrightarrow> disjoint d s k"
  unfolding disjoint_def by (meson order.strict_trans2)

lemma copied_extend:
  assumes "disjoint d s (k + w)" and "k + w < 2 ^ 64"
  shows "move_unit (copied m d s k) (d + of_nat k) (s + of_nat k) w = copied m d s (k + w)"
proof
  fix a
  have off: "unat (a - (d + of_nat k)) < w \<longleftrightarrow> k \<le> unat (a - d) \<and> unat (a - d) < k + w"
  proof -
    have "unat (a - (d + of_nat k)) = unat ((a - d) - of_nat k)" by (simp only: diff_diff_eq)
    moreover have "unat ((a - d) - of_nat k) = (if k \<le> unat (a - d) then unat (a - d) - k
        else 2 ^ 64 + unat (a - d) - k)"
      using unat_diff_mod [of "a - d" "of_nat k"] assms(2) by (simp add: unat_of_nat_lt)
    ultimately show ?thesis using assms(2) by (simp only:) auto
  qed
  have src: "copied m d s k (s + (a - d)) = m (s + (a - d))" if "unat (a - d) < k + w"
  proof -
    have "\<not> unat (s + (a - d) - d) < k + w"
      using assms(1) that unfolding disjoint_def by (metis add_diff_cancel_left')
    then show ?thesis by (simp add: copied_def)
  qed
  have "s + of_nat k + (a - (d + of_nat k)) = s + (a - d)" by simp
  then show "move_unit (copied m d s k) (d + of_nat k) (s + of_nat k) w a = copied m d s (k + w) a"
    using off src by (auto simp: move_unit_def copied_def)
qed

lemma copy_units_copied:
  assumes "disjoint d s (w * n)" and "w * n < 2 ^ 64"
  shows "i \<le> n \<Longrightarrow> copy_units (copied m d s (w * i)) d s w n i = copied m d s (w * n)"
proof (induction "n - i" arbitrary: i)
  case 0
  then show ?case by (subst copy_units.simps) simp
next
  case (Suc x)
  then have i: "i < n" by simp
  then have "w * i + w \<le> w * n" by (metis Suc_leI mult_Suc_right mult_le_mono2 add.commute)
  then have "move_unit (copied m d s (w * i)) (d + of_nat (w * i)) (s + of_nat (w * i)) w = copied m d s (w * (i + 1))"
    using copied_extend [of d s "w * i" w m] disjoint_mono [OF assms(1)] assms(2) by (simp add: algebra_simps)
  then have "copy_units (copied m d s (w * i)) d s w n i = copy_units (copied m d s (w * (i + 1))) d s w n (i + 1)"
    using i by (subst copy_units.simps) (simp only: if_True)
  then show ?case using i Suc.hyps(1) [of "i + 1"] Suc.hyps(2) by simp
qed

lemma units_times_width: "x mod y = 0 \<Longrightarrow> unat y * unat (x div y) = unat x" for x y :: u64
  by (metis add.right_neutral mult_div_mod_eq unat_0 unat_div unat_mod)

lemma kmemcpy_copied:
  assumes "d \<noteq> 0" and "s \<noteq> 0" and "disjoint d s (unat n)"
  shows "kmemcpy m d s n = (copied m d s (unat n), d)"
proof -
  have "copy_units m d s (unat w) (unat (n div w)) 0 = copied m d s (unat n)" if "n mod w = 0" for w
    using copy_units_copied [of d s "unat w" "unat (n div w)" 0 m] units_times_width [OF that] assms(3)
      unat_lt64 [of n] by simp
  from this [of 8] this [of 4] this [of 1] show ?thesis using assms(1,2) by (simp add: kmemcpy_def)
qed

lemma kstrlen_loop_cstr: "cstr m p s \<Longrightarrow> kstrlen_loop m p c = Some (c + of_nat (length s))"
proof (induction s arbitrary: p c)
  case Nil
  then show ?case by (subst kstrlen_loop.simps) simp
next
  case (Cons x s)
  then show ?case by (subst kstrlen_loop.simps) (simp add: add.assoc)
qed

lemma kmemcmp_loop_zero: "kmemcmp_loop m b1 b2 n i = (if \<forall>k. i \<le> k \<and> k < n \<longrightarrow> m (b1 + of_nat k) = m (b2 + of_nat k) then 0 else 1)"
proof (induction m b1 b2 n i rule: kmemcmp_loop.induct)
  case (1 m b1 b2 n i)
  show ?case
  proof (cases "i < n")
    case True
    then have "(\<forall>k. i \<le> k \<and> k < n \<longrightarrow> P k) \<longleftrightarrow> P i \<and> (\<forall>k. i + 1 \<le> k \<and> k < n \<longrightarrow> P k)" for P
      by (metis Suc_eq_plus1 Suc_leD le_neq_implies_less less_eq_Suc_le order_refl)
    with True show ?thesis using 1 [OF True] by (subst kmemcmp_loop.simps) (simp only: if_True simp_thms, simp)
  qed (subst kmemcmp_loop.simps, simp)
qed

text \<open>
  The kernel's \<open>memcpy\<close>, whichever of its three copy loops the alignment of the arguments
  selects, copies exactly \<open>num\<close> bytes between regions that do not overlap and returns the
  destination; \<open>memset\<close> fills exactly \<open>count\<close> bytes; \<open>strlen\<close> terminates on a null-terminated
  string and returns its length; \<open>memcmp\<close> is 0 exactly on equal regions. A null pointer makes
  \<open>memcpy\<close> return null and change nothing.
\<close>

theorem kernel_memory_routines:
  "(d \<noteq> 0 \<and> s \<noteq> 0 \<and> disjoint d s (unat num) \<longrightarrow> kmemcpy m d s num = (copied m d s (unat num), d))
   \<and> (d = 0 \<or> s = 0 \<longrightarrow> kmemcpy m d s num = (m, 0))
   \<and> kmemset m d v num = (filled m d (word_of_int v) (unat num), d)
   \<and> (cstr m s cs \<longrightarrow> kstrlen m s = Some (of_nat (length cs)))
   \<and> (kmemcmp m d s num = 0 \<longleftrightarrow> (\<forall>k < unat num. m (d + of_nat k) = m (s + of_nat k)))"
  using kmemcpy_copied [of d s num m] kstrlen_loop_cstr [of m s cs 0]
  by (auto simp: kmemcpy_def kmemset_filled kstrlen_def kmemcmp_def kmemcmp_loop_zero)

theorem kernel_memory_routines_witness:
  "kmemcpy (mem_of 0x1000 [1, 2, 3]) 0x2000 0x1000 3 = (copied (mem_of 0x1000 [1, 2, 3]) 0x2000 0x1000 (unat (3 :: u64)), 0x2000)
   \<and> kstrlen (mem_of 0x1000 [1, 2, 3]) 0x1000 = Some (of_nat (length [1, 2, 3 :: u8]))"
proof -
  have "disjoint 0x2000 0x1000 (unat (3 :: u64))"
    unfolding disjoint_def
  proof (intro allI notI, elim conjE)
    fix a :: addr
    assume *: "unat (a - 0x2000) < unat (3 :: u64)" "unat (a - 0x1000) < unat (3 :: u64)"
    have "unat (x + 0x1000) = unat x + 0x1000" if "unat x < 3" for x :: u64
      using that by (simp add: unat_add_nowrap)
    note plus = this
    have three: "unat (3 :: u64) = 3" and shift: "a - 0x2000 + 0x1000 = a - 0x1000" by simp_all
    have "unat (a - 0x1000) = unat (a - 0x2000) + 0x1000"
      using plus [of "a - 0x2000"] * unfolding three shift by blast
    then show False using * unfolding three by linarith
  qed
  moreover have "cstr (mem_of 0x1000 [1, 2, 3]) 0x1000 [1, 2, 3]"
    by (simp add: mem_of_def)
  ultimately show ?thesis
    using kernel_memory_routines [of "0x2000" "0x1000" 3 "mem_of 0x1000 [1, 2, 3]" 0 "[1, 2, 3]"] by simp
qed

section \<open>Upward copies between overlapping regions\<close>

text \<open>
  What an upward copy of \<open>n\<close> bytes leaves: with a destination \<open>D\<close> bytes above the source, the first \<open>D\<close> bytes of the
  source are repeated. (\<open>k mod 0 = k\<close>.)
\<close>

definition repeated :: "mem \<Rightarrow> addr \<Rightarrow> addr \<Rightarrow> nat \<Rightarrow> mem" where
  "repeated m d s n = (\<lambda>a. if unat (a - d) < n then m (s + of_nat (unat (a - d) mod unat (d - s))) else m a)"

lemma repeated_extend:
  assumes D: "unat (d - s) mod w = 0" "0 < w" "w * i + w < 2 ^ 64"
  shows "move_unit (repeated m d s (w * i)) (d + of_nat (w * i)) (s + of_nat (w * i)) w = repeated m d s (w * (i + 1))"
proof
  fix a
  define o1 where "o1 = unat (a - d)"
  define D1 where "D1 = unat (d - s)"
  have off: "unat (a - (d + of_nat (w * i))) < w \<longleftrightarrow> w * i \<le> o1 \<and> o1 < w * i + w"
  proof -
    have "unat (a - (d + of_nat (w * i))) = unat ((a - d) - of_nat (w * i))" by (simp only: diff_diff_eq)
    moreover have "unat ((a - d) - of_nat (w * i)) = (if w * i \<le> o1 then o1 - w * i else 2 ^ 64 + o1 - w * i)"
      using unat_diff_mod [of "a - d" "of_nat (w * i)"] D(3) by (simp add: unat_of_nat_lt o1_def del: of_nat_mult)
    ultimately show ?thesis using D(3) by (simp only:) auto
  qed
  have src: "repeated m d s (w * i) (s + (a - d)) = m (s + of_nat (o1 mod D1))" if o: "w * i \<le> o1" "o1 < w * i + w"
  proof -
    have eq: "s + (a - d) - d = (a - d) - (d - s)" by simp
    have diff: "unat (x - y) = (if unat y \<le> unat x then unat x - unat y else 2 ^ 64 + unat x - unat y)" for x y :: addr
      using unat_diff_mod [of x y] by simp
    have u: "unat (s + (a - d) - d) = (if D1 \<le> o1 then o1 - D1 else 2 ^ 64 + o1 - D1)"
      unfolding eq o1_def D1_def by (rule diff)
    have sa: "s + (a - d) = s + of_nat o1" by (simp add: o1_def)
    consider "D1 = 0" | "0 < D1" "D1 \<le> o1" | "o1 < D1" by linarith
    then show ?thesis
    proof cases
      case 1
      then show ?thesis using u o sa by (simp add: repeated_def)
    next
      case 2
      then have "w \<le> D1" using D(1) by (simp add: D1_def dvd_imp_le mod_eq_0_iff_dvd)
      then have "o1 - D1 < w * i" using o 2 by linarith
      then show ?thesis using u 2 by (simp add: repeated_def D1_def [symmetric] le_mod_geq)
    next
      case 3
      have "\<not> 2 ^ 64 + o1 - D1 < w * i" using o unat_lt64 [of "d - s"] unfolding D1_def by linarith
      then show ?thesis using u 3 sa by (simp add: repeated_def)
    qed
  qed
  have "s + of_nat (w * i) + (a - (d + of_nat (w * i))) = s + (a - d)" by simp
  then show "move_unit (repeated m d s (w * i)) (d + of_nat (w * i)) (s + of_nat (w * i)) w a = repeated m d s (w * (i + 1)) a"
    unfolding move_unit_def using off src
    by (auto simp: repeated_def o1_def [symmetric] D1_def [symmetric] simp del: of_nat_mult)
qed

lemma copy_units_repeated:
  assumes "unat (d - s) mod w = 0" "0 < w" "w * n < 2 ^ 64"
  shows "i \<le> n \<Longrightarrow> copy_units (repeated m d s (w * i)) d s w n i = repeated m d s (w * n)"
proof (induction "n - i" arbitrary: i)
  case 0
  then show ?case by (subst copy_units.simps) simp
next
  case (Suc x)
  then have i: "i < n" by simp
  then have "w * i + w \<le> w * n" by (metis Suc_leI mult_Suc_right mult_le_mono2 add.commute)
  then have "move_unit (repeated m d s (w * i)) (d + of_nat (w * i)) (s + of_nat (w * i)) w = repeated m d s (w * (i + 1))"
    using repeated_extend [OF assms(1,2), of i m] assms(3) by (meson le_less_trans)
  then have "copy_units (repeated m d s (w * i)) d s w n i = copy_units (repeated m d s (w * (i + 1))) d s w n (i + 1)"
    using i by (subst copy_units.simps) (simp only: if_True)
  then show ?case using i Suc.hyps(1) [of "i + 1"] Suc.hyps(2) by simp
qed

lemma repeated_copied: "repeated m d s n = copied m d s n \<longleftrightarrow> (\<forall>k < n. m (s + of_nat (k mod unat (d - s))) = m (s + of_nat k))"
  if "n < 2 ^ 64"
proof
  assume *: "repeated m d s n = copied m d s n"
  show "\<forall>k < n. m (s + of_nat (k mod unat (d - s))) = m (s + of_nat k)"
  proof (intro allI impI)
    fix k assume "k < n"
    moreover have "unat (d + of_nat k - d) = k" using \<open>k < n\<close> that by (simp add: unat_of_nat_lt)
    ultimately show "m (s + of_nat (k mod unat (d - s))) = m (s + of_nat k)"
      using fun_cong [OF *, of "d + of_nat k"] by (simp add: repeated_def copied_def)
  qed
next
  assume *: "\<forall>k < n. m (s + of_nat (k mod unat (d - s))) = m (s + of_nat k)"
  have "of_nat (unat (a - d)) = a - d" for a by simp
  with * show "repeated m d s n = copied m d s n" by (intro ext) (simp add: repeated_def copied_def)
qed

definition aligned :: "addr \<Rightarrow> addr \<Rightarrow> u64 \<Rightarrow> bool" where
  "aligned s d num \<longleftrightarrow> s mod 8 = 0 \<and> d mod 8 = 0 \<and> num mod 8 = 0"

text \<open>
  C32. The kernel's \<open>memmove\<close>, for sizes below 2^34, where its \<open>int\<close> loop counter does not overflow: it moves nothing unless both pointers
  and the size are multiples of 8. For such arguments it leaves the first \<open>d - s\<close> bytes of the source repeated over the destination, which
  is the copy that \<open>memmove\<close> has to make exactly if the source has this period; in particular if the destination is not above the source within the
  size, but for an overlapping destination above the source only if the source happens to repeat itself. It always returns a null pointer.
\<close>

theorem kmemmove_not_memmove:
  assumes "unat num < 2 ^ 34"
  shows "kmemmove m d s num = (if aligned s d num then repeated m d s (unat num) else m, 0)
    \<and> (aligned s d num \<longrightarrow> (fst (kmemmove m d s num) = copied m d s (unat num)
          \<longleftrightarrow> (\<forall>k < unat num. m (s + of_nat (k mod unat (d - s))) = m (s + of_nat k))))
    \<and> (aligned s d num \<and> (d = s \<or> unat num \<le> unat (d - s)) \<longrightarrow> fst (kmemmove m d s num) = copied m d s (unat num))"
proof -
  have run: "kmemmove m d s num = (if aligned s d num then repeated m d s (unat num) else m, 0)"
  proof (cases "aligned s d num")
    case True
    then have al: "unat s mod 8 = 0" "unat d mod 8 = 0" "num mod 8 = 0"
      unfolding aligned_def by (simp_all add: word_unat_eq_iff unat_mod)
    have "unat (d - s) mod 8 = 0"
      using al(1,2) unat_diff_mod [of d s] unat_lt64 [of s] by (simp add: mod_eq_0_iff_dvd) 
    moreover have "8 * unat (num div 8) = unat num" using units_times_width [OF al(3)] by simp
    moreover have "repeated m d s 0 = m" by (rule ext) (simp add: repeated_def)
    ultimately have "copy_units m d s 8 (unat (num div 8)) 0 = repeated m d s (unat num)"
      using copy_units_repeated [of d s 8 "unat (num div 8)" 0 m] unat_lt64 [of num] by simp
    then show ?thesis using True unfolding aligned_def by (simp add: kmemmove_def)
  next
    case False
    then show ?thesis unfolding aligned_def kmemmove_def by auto
  qed
  moreover have "m (s + of_nat (k mod unat (d - s))) = m (s + of_nat k)" if "d = s \<or> unat num \<le> unat (d - s)" "k < unat num" for k
    using that by (cases "d = s") auto
  ultimately show ?thesis using repeated_copied [OF unat_lt64, of m d s num] by simp
qed

text \<open>Three words of eight bytes, and a destination one word above the source: the second word is lost.\<close>

theorem kmemmove_not_memmove_witness:
  "fst (kmemmove (mem_of 0x1000 (replicate 8 1 @ replicate 8 2 @ replicate 8 3)) 0x1008 0x1000 16)
     \<noteq> copied (mem_of 0x1000 (replicate 8 1 @ replicate 8 2 @ replicate 8 3)) 0x1008 0x1000 16"
proof -
  let ?m = "mem_of 0x1000 (replicate 8 1 @ replicate 8 2 @ replicate 8 3)"
  have "?m (0x1000 + of_nat (8 mod unat (0x1008 - 0x1000 :: addr))) \<noteq> ?m (0x1000 + of_nat 8)" by code_simp
  then have "\<not> (\<forall>k < unat (16 :: u64). ?m (0x1000 + of_nat (k mod unat (0x1008 - 0x1000 :: addr))) = ?m (0x1000 + of_nat k))"
    by (intro notI) (drule spec [of _ 8], simp)
  moreover have "aligned 0x1000 0x1008 16" "unat (16 :: u64) < 2 ^ 34" by (simp_all add: aligned_def)
  ultimately have "fst (kmemmove ?m 0x1008 0x1000 16) \<noteq> copied ?m 0x1008 0x1000 (unat (16 :: u64))"
    using kmemmove_not_memmove [of 16 ?m "0x1008" "0x1000"] by blast
  then show ?thesis by simp
qed

end
