(* ===== verification/Bitmap.thy ===== *)
theory Bitmap
  imports Pool KString
begin

text \<open>
  The allocator of physical pages, \<^verbatim>\<open>Kernel/Memory/Bitmap.{h,cpp}\<close>. The object is a record with
  the members of the class; the array at \<open>m_storage\<close> is a list of blocks of 64 pages, kept apart
  from the byte memory of the pages themselves, in which an allocated page is cleared through
  the physical mapping (\<^verbatim>\<open>Library/PhysicalAddress.h\<close>). A \<open>Std::Result\<close> is a sum type with the error on
  the left. Outside of the result, \<open>None\<close> is what the C++ code leaves undefined: an access
  outside of the storage array, a division by zero and a shift by 64 or more.
\<close>

datatype bitmap_error =
  InitInvalidPageSize | InitNoPages | NoFreeMemory | AllocationFailure | Range | DoubleFree | Full

record bitmap =
  m_page_size :: u64
  m_total_pages :: u64
  m_free_pages :: u64
  m_block_count :: u64
  m_block_full_size :: u64
  m_storage :: "u64 list"
  m_base_address :: u64

definition BITMAP_FULL :: u64 where
  "BITMAP_FULL = 0xffffffffffffffff"


definition PHYSICAL_MAPPING_BASE :: u64 where
  "PHYSICAL_MAPPING_BASE = 0xffffff0000000000"

definition as_mapped_address :: "u64 \<Rightarrow> addr" where
  "as_mapped_address address = address + PHYSICAL_MAPPING_BASE"

section \<open>Operations\<close>




definition address_to_block_and_offset :: "u64 \<Rightarrow> bitmap \<Rightarrow> (u64 \<times> u64) option" where
  "address_to_block_and_offset address bm =
     (if m_block_full_size bm = 0 \<or> m_page_size bm = 0 then None
      else let address_adjusted = address - m_base_address bm
           in Some (address_adjusted div m_block_full_size bm,
                    address_adjusted mod m_block_full_size bm div m_page_size bm))"

definition set_allocated_at :: "u64 \<Rightarrow> u64 \<Rightarrow> bitmap \<Rightarrow> bitmap option" where
  "set_allocated_at block offset bm =
     (if unat block \<ge> length (m_storage bm) \<or> unat offset \<ge> 64 then None
      else Some (bm\<lparr>m_storage := (m_storage bm)[unat block := m_storage bm ! unat block OR push_bit (unat offset) 1],
                    m_free_pages := m_free_pages bm - 1\<rparr>))"

definition set_allocated :: "u64 \<Rightarrow> bitmap \<Rightarrow> bitmap option" where
  "set_allocated address bm =
     (case address_to_block_and_offset address bm of
        None \<Rightarrow> None
      | Some (block, offset) \<Rightarrow> set_allocated_at block offset bm)"

definition is_allocated :: "u64 \<Rightarrow> bitmap \<Rightarrow> bool option" where
  "is_allocated address bm =
     (case address_to_block_and_offset address bm of
        None \<Rightarrow> None
      | Some (block, offset) \<Rightarrow>
          if unat block \<ge> length (m_storage bm) \<or> unat offset \<ge> 64 then None
          else Some (m_storage bm ! unat block AND push_bit (unat offset) 1 \<noteq> 0))"

function find_free_from :: "u64 \<Rightarrow> nat \<Rightarrow> bitmap_error + nat" where
  "find_free_from bits i =
     (if i < 64 then if bits AND push_bit i 1 = 0 then Inr i else find_free_from bits (i + 1)
      else Inl NoFreeMemory)"
  by pat_completeness auto

termination by (relation "measure (\<lambda>(_, i). 64 - i)") auto

declare find_free_from.simps [simp del]

definition find_free :: "u64 \<Rightarrow> bitmap_error + nat" where
  "find_free bits = find_free_from bits 0"

text \<open>Clearing the page through the physical mapping.\<close>

definition clear_page :: "u64 \<Rightarrow> bitmap \<Rightarrow> mem \<Rightarrow> mem" where
  "clear_page address bm m = fst (kmemset m (as_mapped_address address) 0 (m_page_size bm))"

definition block_address :: "nat \<Rightarrow> nat \<Rightarrow> bitmap \<Rightarrow> u64" where
  "block_address i offset bm =
     m_base_address bm + of_nat i * m_block_full_size bm + of_nat offset * m_page_size bm"

function allocate_from :: "nat \<Rightarrow> bitmap \<Rightarrow> mem \<Rightarrow> ((bitmap_error + u64) \<times> bitmap \<times> mem) option" where
  "allocate_from i bm m =
     (if i < unat (m_block_count bm)
      then if i \<ge> length (m_storage bm) then None
           else if m_storage bm ! i \<noteq> BITMAP_FULL
           then case find_free (m_storage bm ! i) of
                  Inl _ \<Rightarrow> allocate_from (i + 1) bm m
                | Inr offset \<Rightarrow>
                    (case set_allocated_at (of_nat i) (of_nat offset) bm of
                       None \<Rightarrow> None
                     | Some bm' \<Rightarrow>
                         let address = block_address i offset bm'
                         in Some (Inr address, bm', clear_page address bm' m))
           else allocate_from (i + 1) bm m
      else Some (Inl AllocationFailure, bm, m))"
  by pat_completeness auto

termination by (relation "measure (\<lambda>(i, bm, _). unat (m_block_count bm) - i)") auto

declare allocate_from.simps [simp del]

definition allocate :: "bitmap \<Rightarrow> mem \<Rightarrow> ((bitmap_error + u64) \<times> bitmap \<times> mem) option" where
  "allocate bm m =
     (if m_free_pages bm = 0 then Some (Inl NoFreeMemory, bm, m) else allocate_from 0 bm m)"

definition free_page :: "u64 \<Rightarrow> bitmap \<Rightarrow> ((bitmap_error + unit) \<times> bitmap) option" where
  "free_page address bm =
     (case is_allocated address bm of
        None \<Rightarrow> None
      | Some False \<Rightarrow> Some (Inl DoubleFree, bm)
      | Some True \<Rightarrow>
          (case address_to_block_and_offset address bm of
             None \<Rightarrow> None
           | Some (block, offset) \<Rightarrow>
               Some (Inr (), bm\<lparr>m_storage := (m_storage bm)[unat block := m_storage bm ! unat block AND NOT (push_bit (unat offset) 1)],
                                m_free_pages := m_free_pages bm + 1\<rparr>)))"

definition make_mask :: "int \<Rightarrow> u64" where
  "make_mask n = (if n \<ge> 64 then NOT 0 else push_bit (nat n) 1 - 1)"

text \<open>\<open>iterations\<close> is an \<open>int\<close> that the comparison with \<open>i\<close> converts to \<open>size_t\<close>.\<close>

function find_n_free_from :: "u64 \<Rightarrow> u64 \<Rightarrow> u64 \<Rightarrow> nat \<Rightarrow> bitmap_error + nat" where
  "find_n_free_from bits Mask iterations i =
     (if i < unat iterations
      then if Mask AND bits = 0 then Inr i
           else find_n_free_from bits (push_bit 1 Mask) iterations (i + 1)
      else Inl NoFreeMemory)"
  by pat_completeness auto

termination by (relation "measure (\<lambda>(_, _, iterations, i). unat iterations - i)") auto

declare find_n_free_from.simps [simp del]

definition find_n_free :: "u64 \<Rightarrow> u8 \<Rightarrow> bitmap_error + nat" where
  "find_n_free bits n = find_n_free_from bits (make_mask (uint n)) (word_of_int (64 - uint n + 1)) 0"

definition set_n_allocated :: "u64 \<Rightarrow> u64 \<Rightarrow> u8 \<Rightarrow> bitmap \<Rightarrow> bitmap option" where
  "set_n_allocated block offset n bm =
     (if unat block \<ge> length (m_storage bm) \<or> unat offset \<ge> 64 then None
      else Some (bm\<lparr>m_storage := (m_storage bm)[unat block := m_storage bm ! unat block
                                     OR push_bit (unat offset) (make_mask (uint n))],
                    m_free_pages := m_free_pages bm - ucast n\<rparr>))"

function allocate_contiguous_from ::
  "u64 \<Rightarrow> nat \<Rightarrow> bitmap \<Rightarrow> mem \<Rightarrow> ((bitmap_error + u64) \<times> bitmap \<times> mem) option" where
  "allocate_contiguous_from pages i bm m =
     (if i < unat (m_block_count bm)
      then if i \<ge> length (m_storage bm) then None
           else case find_n_free (m_storage bm ! i) (ucast pages) of
                  Inl _ \<Rightarrow> allocate_contiguous_from pages (i + 1) bm m
                | Inr offset \<Rightarrow>
                    (case set_n_allocated (of_nat i) (of_nat offset) (ucast pages) bm of
                       None \<Rightarrow> None
                     | Some bm' \<Rightarrow>
                         let address = block_address i offset bm'
                         in Some (Inr address, bm', clear_page address bm' m))
      else Some (Inl NoFreeMemory, bm, m))"
  by pat_completeness auto

termination by (relation "measure (\<lambda>(_, i, bm, _). unat (m_block_count bm) - i)") auto

declare allocate_contiguous_from.simps [simp del]

definition allocate_contiguous ::
  "u64 \<Rightarrow> bitmap \<Rightarrow> mem \<Rightarrow> ((bitmap_error + u64) \<times> bitmap \<times> mem) option" where
  "allocate_contiguous pages bm m =
     (if m_free_pages bm = 0 then Some (Inl NoFreeMemory, bm, m)
      else allocate_contiguous_from pages 0 bm m)"

section \<open>The pages in use and the invariant\<close>

definition pages_used :: "bitmap \<Rightarrow> nat set" where
  "pages_used bm = {n. n < 64 * length (m_storage bm) \<and> bit (m_storage bm ! (n div 64)) (n mod 64)}"

definition bitmap_inv :: "bitmap \<Rightarrow> bool" where
  "bitmap_inv bm \<longleftrightarrow> m_page_size bm \<noteq> 0
     \<and> m_block_full_size bm = m_page_size bm * 64 \<and> 64 * unat (m_page_size bm) < 2 ^ 64
     \<and> m_block_count bm = m_total_pages bm div 64 \<and> length (m_storage bm) = unat (m_block_count bm)
     \<and> unat (m_base_address bm) + unat (m_total_pages bm) * unat (m_page_size bm) < 2 ^ 64
     \<and> unat (m_free_pages bm) + card (pages_used bm) = unat (m_total_pages bm)"

definition page_address :: "bitmap \<Rightarrow> nat \<Rightarrow> u64" where
  "page_address bm n = m_base_address bm + of_nat n * m_page_size bm"

definition page_count :: "bitmap \<Rightarrow> nat" where
  "page_count bm = 64 * length (m_storage bm)"

section \<open>Single pages\<close>

lemma find_free_from_spec:
  "case find_free_from bits i of
     Inr k \<Rightarrow> i \<le> k \<and> k < 64 \<and> \<not> bit bits k \<and> (\<forall>l. i \<le> l \<and> l < k \<longrightarrow> bit bits l)
   | Inl e \<Rightarrow> e = NoFreeMemory \<and> (\<forall>l. i \<le> l \<and> l < 64 \<longrightarrow> bit bits l)"
proof (induction bits i rule: find_free_from.induct)
  case (1 bits i)
  show ?case
  proof (cases "i < 64 \<and> bit bits i")
    case True
    then have "find_free_from bits i = find_free_from bits (i + 1)"
      by (subst find_free_from.simps) (simp add: and_single_bit)
    moreover have "(\<forall>l. i \<le> l \<and> l < k \<longrightarrow> bit bits l) \<longleftrightarrow> (\<forall>l. i + 1 \<le> l \<and> l < k \<longrightarrow> bit bits l)" for k
      using True by (metis Suc_eq_plus1 Suc_leD le_neq_implies_less less_eq_Suc_le)
    ultimately show ?thesis
      using 1 True by (auto simp: and_single_bit split: sum.splits)
  next
    case False
    then show ?thesis by (subst find_free_from.simps) (auto simp: and_single_bit)
  qed
qed

lemma BITMAP_FULL_bits: "bits = BITMAP_FULL \<longleftrightarrow> (\<forall>k < 64. bit bits k)"
proof -
  have "BITMAP_FULL = - 1" by (simp add: BITMAP_FULL_def)
  then show ?thesis by (auto simp: bit_eq_iff)
qed

lemma find_free_cases:
  "case find_free bits of
     Inr k \<Rightarrow> k < 64 \<and> \<not> bit bits k \<and> (\<forall>l < k. bit bits l)
   | Inl e \<Rightarrow> bits = BITMAP_FULL"
  using find_free_from_spec [where bits = bits and i = 0] by (auto simp: find_free_def BITMAP_FULL_bits split: sum.splits)

text \<open>The members that no operation but \<open>init\<close> changes.\<close>

definition same_geometry :: "bitmap \<Rightarrow> bitmap \<Rightarrow> bool" where
  "same_geometry bm bm' \<longleftrightarrow> m_page_size bm' = m_page_size bm \<and> m_total_pages bm' = m_total_pages bm
     \<and> m_block_count bm' = m_block_count bm \<and> m_block_full_size bm' = m_block_full_size bm
     \<and> m_base_address bm' = m_base_address bm \<and> length (m_storage bm') = length (m_storage bm)"

lemma same_geometry_page: "same_geometry bm bm' \<Longrightarrow> page_address bm' = page_address bm \<and> page_count bm' = page_count bm"
  by (auto simp: same_geometry_def page_address_def page_count_def)

lemma same_geometry_inv:
  "same_geometry bm bm' \<Longrightarrow> bitmap_inv bm \<Longrightarrow>
     unat (m_free_pages bm') + card (pages_used bm') = unat (m_total_pages bm) \<Longrightarrow> bitmap_inv bm'"
  by (simp add: same_geometry_def bitmap_inv_def)

lemma finite_pages_used [simp]: "finite (pages_used bm)"
  by (simp add: pages_used_def)

lemma pages_used_count: "n \<in> pages_used bm \<Longrightarrow> n < page_count bm"
  by (simp add: pages_used_def page_count_def)

lemma pages_used_bit:
  "i < length (m_storage bm) \<Longrightarrow> k < 64 \<Longrightarrow> 64 * i + k \<in> pages_used bm \<longleftrightarrow> bit (m_storage bm ! i) k"
  by (auto simp: pages_used_def)

lemma page_split: "n = 64 * i + k \<longleftrightarrow> n div 64 = i \<and> n mod 64 = k" if "k < 64" for n i k :: nat
  using that by auto

text \<open>Storing a block changes the pages of this block only.\<close>

lemma pages_used_update:
  assumes "i < length (m_storage bm)"
  shows "n \<in> pages_used (bm\<lparr>m_storage := (m_storage bm)[i := v], m_free_pages := f\<rparr>) \<longleftrightarrow>
    (if n div 64 = i then bit v (n mod 64) else n \<in> pages_used bm)"
  using assms by (auto simp: pages_used_def nth_list_update)

lemma pages_used_block:
  "n div 64 = i \<Longrightarrow> i < length (m_storage bm) \<Longrightarrow> n \<in> pages_used bm \<longleftrightarrow> bit (m_storage bm ! i) (n mod 64)"
  by (auto simp: pages_used_def)

lemma storage_index:
  "bitmap_inv bm \<Longrightarrow> i < length (m_storage bm) \<Longrightarrow> unat (of_nat i :: u64) = i"
  using unat_lt64 [of "m_block_count bm"] by (intro unat_of_nat_lt) (simp add: bitmap_inv_def)

lemma unat_small: "k < 64 \<Longrightarrow> unat (of_nat k :: u64) = k"
  by (intro unat_of_nat_lt) simp

text \<open>The number of pages still free, from the counter.\<close>

lemma free_pages_positive:
  assumes "bitmap_inv bm" and "n < page_count bm" and "n \<notin> pages_used bm"
  shows "m_free_pages bm \<noteq> 0"
proof
  assume "m_free_pages bm = 0"
  then have "card (pages_used bm) = unat (m_total_pages bm)" using assms(1) by (simp add: bitmap_inv_def)
  moreover have "card (pages_used bm) < card {..<page_count bm}"
    using assms(2,3) pages_used_count by (intro psubset_card_mono) auto
  moreover have "page_count bm \<le> unat (m_total_pages bm)"
    using assms(1) by (simp add: bitmap_inv_def page_count_def unat_div)
  ultimately show False by simp
qed

lemma set_allocated_at_spec:
  assumes "bitmap_inv bm" and "i < length (m_storage bm)" and "k < 64" and "64 * i + k \<notin> pages_used bm"
  shows "\<exists>bm'. set_allocated_at (of_nat i) (of_nat k) bm = Some bm' \<and> same_geometry bm bm'
    \<and> bitmap_inv bm' \<and> pages_used bm' = insert (64 * i + k) (pages_used bm)"
proof -
  let ?v = "m_storage bm ! i OR push_bit k 1"
  let ?bm = "bm\<lparr>m_storage := (m_storage bm)[i := ?v], m_free_pages := m_free_pages bm - 1\<rparr>"
  have geo: "same_geometry bm ?bm" by (simp add: same_geometry_def)
  have "n \<in> pages_used ?bm \<longleftrightarrow> n \<in> insert (64 * i + k) (pages_used bm)" for n
    using assms(2,3) pages_used_block [of n i bm] page_split [OF assms(3), of n i]
    unfolding pages_used_update [OF assms(2)] by (auto simp: bit_simps)
  then have used: "pages_used ?bm = insert (64 * i + k) (pages_used bm)" by blast
  have "64 * i + k < page_count bm" using assms(2,3) by (simp add: page_count_def)
  then have free: "m_free_pages bm \<noteq> 0" using free_pages_positive [OF assms(1) _ assms(4)] by blast
  then have "0 < unat (m_free_pages bm)" by (simp add: unat_gt_0)
  then have "unat (m_free_pages ?bm) + card (pages_used ?bm) = unat (m_total_pages bm)"
    using free assms(1,4) unfolding used by (simp add: unat_pred bitmap_inv_def)
  moreover have "set_allocated_at (of_nat i) (of_nat k) bm = Some ?bm"
    using assms(2,3) by (simp add: set_allocated_at_def storage_index [OF assms(1,2)] unat_small)
  ultimately show ?thesis using geo used same_geometry_inv [OF geo assms(1)] by blast
qed

lemma block_address_page:
  "m_block_full_size bm = m_page_size bm * 64 \<Longrightarrow> block_address i k bm = page_address bm (64 * i + k)"
  by (simp add: block_address_def page_address_def algebra_simps)

text \<open>The search takes the lowest free page.\<close>

lemma allocate_from_spec:
  assumes inv: "bitmap_inv bm"
  shows "(\<forall>n < 64 * i. n \<in> pages_used bm) \<Longrightarrow>
    (if {..<page_count bm} \<subseteq> pages_used bm
     then allocate_from i bm m = Some (Inl AllocationFailure, bm, m)
     else \<exists>bm'. let n = (LEAST n. n \<notin> pages_used bm); a = page_address bm n in
       allocate_from i bm m = Some (Inr a, bm', clear_page a bm m) \<and> n < page_count bm
       \<and> same_geometry bm bm' \<and> bitmap_inv bm' \<and> pages_used bm' = insert n (pages_used bm))"
proof (induction "unat (m_block_count bm) - i" arbitrary: i)
  case 0
  have len: "length (m_storage bm) = unat (m_block_count bm)" using inv by (simp add: bitmap_inv_def)
  then have "{..<page_count bm} \<subseteq> pages_used bm" using 0 by (auto simp: page_count_def)
  moreover have "allocate_from i bm m = Some (Inl AllocationFailure, bm, m)"
    using 0 by (subst allocate_from.simps) simp
  ultimately show ?case by simp
next
  case (Suc x)
  have len: "length (m_storage bm) = unat (m_block_count bm)" using inv by (simp add: bitmap_inv_def)
  have i: "i < length (m_storage bm)" using Suc(2) len by simp
  show ?case
  proof (cases "find_free (m_storage bm ! i)")
    case (Inl e)
    then have full: "m_storage bm ! i = BITMAP_FULL" using find_free_cases [of "m_storage bm ! i"] by simp
    then have used: "n \<in> pages_used bm" if "n < 64 * (i + 1)" for n
    proof (cases "n < 64 * i")
      case False
      then have "n div 64 = i" using that by auto
      then show ?thesis using pages_used_block [of n i bm] i full BITMAP_FULL_bits [of "m_storage bm ! i"] by simp
    qed (use Suc.prems in blast)
    have step: "allocate_from i bm m = allocate_from (i + 1) bm m"
      using i full len by (subst allocate_from.simps) simp
    have "x = unat (m_block_count bm) - (i + 1)" using Suc(2) by simp
    from Suc(1) [OF this] used show ?thesis unfolding step by blast
  next
    case (Inr k)
    then have k: "k < 64" "\<not> bit (m_storage bm ! i) k" "\<forall>l < k. bit (m_storage bm ! i) l"
      using find_free_cases [of "m_storage bm ! i"] by simp_all
    let ?n = "64 * i + k"
    have new: "?n \<notin> pages_used bm" "?n < page_count bm"
      using pages_used_bit [OF i k(1)] k i by (auto simp: page_count_def)
    have least: "(LEAST n. n \<notin> pages_used bm) = ?n"
    proof (rule Least_equality)
      fix n assume "n \<notin> pages_used bm"
      have "64 * i \<le> n" using Suc.prems \<open>n \<notin> pages_used bm\<close> by (meson linorder_not_less)
      then obtain l where l: "n = 64 * i + l" using le_Suc_ex by blast
      have "\<not> l < k" using \<open>n \<notin> pages_used bm\<close> k(1,3) pages_used_bit [OF i, of l] l by auto
      then show "?n \<le> n" using l by simp
    qed (rule new)
    obtain bm' where bm': "set_allocated_at (of_nat i) (of_nat k) bm = Some bm'" "same_geometry bm bm'"
        "bitmap_inv bm'" "pages_used bm' = insert ?n (pages_used bm)"
      using set_allocated_at_spec [OF inv i k(1) new(1)] by blast
    have "m_storage bm ! i \<noteq> BITMAP_FULL" using k(1,2) BITMAP_FULL_bits by blast
    moreover have "block_address i k bm' = page_address bm ?n"
      using block_address_page [of bm' i k] bm'(3) same_geometry_page [OF bm'(2)] by (simp add: bitmap_inv_def)
    moreover have "clear_page a bm' m = clear_page a bm m" for a
      using bm'(2) by (simp add: clear_page_def same_geometry_def)
    ultimately have "allocate_from i bm m = Some (Inr (page_address bm ?n), bm', clear_page (page_address bm ?n) bm m)"
      using i len Inr bm'(1) by (subst allocate_from.simps) (simp add: Let_def)
    then show ?thesis using new bm' least by (auto simp: Let_def)
  qed
qed

section \<open>Addresses of pages\<close>

lemma page_count_total: "bitmap_inv bm \<Longrightarrow> page_count bm \<le> unat (m_total_pages bm)"
  by (simp add: bitmap_inv_def page_count_def unat_div)

lemma page_offset:
  assumes "bitmap_inv bm" and "n < page_count bm" and "unat r < unat (m_page_size bm)"
  shows "unat (of_nat n * m_page_size bm + r) = n * unat (m_page_size bm) + unat r"
    and "unat (m_base_address bm) + (n * unat (m_page_size bm) + unat r) < 2 ^ 64"
proof -
  let ?ps = "unat (m_page_size bm)"
  have n: "Suc n \<le> unat (m_total_pages bm)" using page_count_total [OF assms(1)] assms(2) by simp
  have "Suc n * ?ps \<le> unat (m_total_pages bm) * ?ps" using n by (rule mult_le_mono1)
  then have lt: "n * ?ps + unat r < unat (m_total_pages bm) * ?ps" using assms(3) by simp
  then show 2: "unat (m_base_address bm) + (n * ?ps + unat r) < 2 ^ 64" using assms(1) by (simp add: bitmap_inv_def)
  have "of_nat n * m_page_size bm + r = of_nat (n * ?ps + unat r)" by simp
  moreover have "n * ?ps + unat r < 2 ^ LENGTH(64)" using 2 by simp
  ultimately show "unat (of_nat n * m_page_size bm + r) = n * ?ps + unat r" by (simp only: unat_of_nat_lt)
qed

lemma decode_page:
  assumes "bitmap_inv bm" and "n < page_count bm" and "r < m_page_size bm"
  shows "address_to_block_and_offset (page_address bm n + r) bm = Some (of_nat (n div 64), of_nat (n mod 64))"
proof -
  let ?ps = "unat (m_page_size bm)" and ?x = "of_nat n * m_page_size bm + r"
  have r: "unat r < ?ps" using assms(3) by (simp add: word_less_nat_alt)
  have x: "unat ?x = n * ?ps + unat r" using page_offset [OF assms(1,2) r] by blast
  have full: "unat (m_block_full_size bm) = ?ps * 64" "m_page_size bm \<noteq> 0"
    using assms(1) by (simp_all add: bitmap_inv_def unat_word_ariths mult.commute)
  then have "m_block_full_size bm \<noteq> 0" by (metis mult_is_0 unat_0 unat_eq_zero zero_neq_numeral)
  have page: "(n * ?ps + unat r) div ?ps = n" using r by simp
  have "unat (?x div m_block_full_size bm) = n div 64"
    unfolding unat_div x full(1) div_mult2_eq page ..
  moreover have "unat (?x mod m_block_full_size bm div m_page_size bm) = n mod 64"
    unfolding unat_div unat_mod x full(1) mod_mult2_eq page using r by simp
  moreover have "?x div m_block_full_size bm = of_nat (unat (?x div m_block_full_size bm))"
    and "?x mod m_block_full_size bm div m_page_size bm = of_nat (unat (?x mod m_block_full_size bm div m_page_size bm))"
    by simp_all
  ultimately have "?x div m_block_full_size bm = of_nat (n div 64)"
      "?x mod m_block_full_size bm div m_page_size bm = of_nat (n mod 64)" by (simp_all only:)
  moreover have "page_address bm n + r - m_base_address bm = ?x" by (simp add: page_address_def)
  ultimately show ?thesis
    using \<open>m_block_full_size bm \<noteq> 0\<close> full(2) by (simp only: address_to_block_and_offset_def Let_def) simp
qed


lemma is_allocated_page:
  assumes "bitmap_inv bm" and "n < page_count bm" and "r < m_page_size bm"
  shows "is_allocated (page_address bm n + r) bm = Some (n \<in> pages_used bm)"
proof -
  have i: "n div 64 < length (m_storage bm)" using assms(2) by (auto simp: page_count_def)
  then show ?thesis
    using pages_used_block [OF refl i]
    by (simp add: is_allocated_def decode_page [OF assms] storage_index [OF assms(1)] unat_small and_single_bit)
qed

lemma free_page_spec:
  assumes "bitmap_inv bm" and "n < page_count bm" and "r < m_page_size bm"
  shows "if n \<in> pages_used bm
    then \<exists>bm'. free_page (page_address bm n + r) bm = Some (Inr (), bm') \<and> same_geometry bm bm'
           \<and> bitmap_inv bm' \<and> pages_used bm' = pages_used bm - {n}
    else free_page (page_address bm n + r) bm = Some (Inl DoubleFree, bm)"
proof (cases "n \<in> pages_used bm")
  case True
  let ?i = "n div 64" and ?k = "n mod 64"
  have i: "?i < length (m_storage bm)" using assms(2) by (auto simp: page_count_def)
  let ?v = "m_storage bm ! ?i AND NOT (push_bit ?k 1)"
  let ?bm = "bm\<lparr>m_storage := (m_storage bm)[?i := ?v], m_free_pages := m_free_pages bm + 1\<rparr>"
  have geo: "same_geometry bm ?bm" by (simp add: same_geometry_def)
  have "q \<in> pages_used ?bm \<longleftrightarrow> q \<in> pages_used bm - {n}" for q
  proof -
    have "q = n \<longleftrightarrow> q div 64 = ?i \<and> q mod 64 = ?k" by (metis div_mult_mod_eq)
    then show ?thesis
      using pages_used_block [of q ?i bm] i unfolding pages_used_update [OF i] by (auto simp: bit_simps)
  qed
  then have used: "pages_used ?bm = pages_used bm - {n}" by blast
  have pos: "0 < card (pages_used bm)" using True by (auto simp: card_gt_0_iff)
  then have "unat (m_free_pages bm) + 1 \<le> unat (m_total_pages bm)" using assms(1) by (simp add: bitmap_inv_def)
  then have "unat (m_free_pages bm + 1) = unat (m_free_pages bm) + 1"
    using unat_lt64 [of "m_total_pages bm"] unat_add_nowrap [of "m_free_pages bm" 1] by simp
  then have "unat (m_free_pages ?bm) + card (pages_used ?bm) = unat (m_total_pages bm)"
    using True pos assms(1) unfolding used by (simp add: bitmap_inv_def)
  moreover have "free_page (page_address bm n + r) bm = Some (Inr (), ?bm)"
    using True i by (simp add: free_page_def is_allocated_page [OF assms] decode_page [OF assms]
        storage_index [OF assms(1)] unat_small)
  ultimately show ?thesis using True geo used same_geometry_inv [OF geo assms(1)] by auto
next
  case False
  then show ?thesis by (simp add: free_page_def is_allocated_page [OF assms])
qed

section \<open>Runs of pages\<close>

definition run :: "nat \<Rightarrow> nat \<Rightarrow> nat set" where
  "run p n = {p..<p + n}"

lemma make_mask_mask: "0 \<le> n \<Longrightarrow> n \<le> 64 \<Longrightarrow> make_mask n = mask (nat n)"
  by (cases "n = 64") (auto simp: make_mask_def mask_eq_exp_minus_1)

lemma make_mask_u8: "make_mask (uint n) = mask (unat n)" if "unat n \<le> 64" for n :: u8
proof -
  have "int (unat n) = uint n" by simp
  then have "uint n \<le> 64" using that by linarith
  then show ?thesis using make_mask_mask [of "uint n"] by simp
qed

lemma bit_run_mask:
  "k + n \<le> 64 \<Longrightarrow> bit (push_bit k (mask n) :: u64) l \<longleftrightarrow> k \<le> l \<and> l < k + n"
  by (auto simp: bit_simps)

lemma run_mask_free:
  assumes "k + n \<le> 64"
  shows "push_bit k (mask n) AND bits = (0 :: u64) \<longleftrightarrow> (\<forall>l. k \<le> l \<and> l < k + n \<longrightarrow> \<not> bit bits l)"
  using bit_run_mask [OF assms] by (auto simp: bit_eq_iff bit_simps)

lemma find_n_free_from_spec:
  "Mask = push_bit i (mask n) \<Longrightarrow> unat iterations + n \<le> 65 \<Longrightarrow>
   (case find_n_free_from bits Mask iterations i of
      Inr k \<Rightarrow> k < unat iterations \<and> push_bit k (mask n) AND bits = 0
    | Inl e \<Rightarrow> (\<forall>k. i \<le> k \<and> k < unat iterations \<longrightarrow> push_bit k (mask n) AND bits \<noteq> 0))"
proof (induction bits Mask iterations i rule: find_n_free_from.induct)
  case (1 bits Mask iterations i)
  show ?case
  proof (cases "i < unat iterations \<and> Mask AND bits \<noteq> 0")
    case True
    then have step: "find_n_free_from bits Mask iterations i = find_n_free_from bits (push_bit 1 Mask) iterations (i + 1)"
      by (subst find_n_free_from.simps) simp
    have IH: "case find_n_free_from bits (push_bit 1 Mask) iterations (i + 1) of
        Inr k \<Rightarrow> k < unat iterations \<and> push_bit k (mask n) AND bits = 0
      | Inl e \<Rightarrow> (\<forall>k. i + 1 \<le> k \<and> k < unat iterations \<longrightarrow> push_bit k (mask n) AND bits \<noteq> 0)"
      using True 1(2,3) by (intro 1(1)) (simp_all add: push_bit_push_bit)
    have "(\<forall>k. i \<le> k \<and> k < unat iterations \<longrightarrow> push_bit k (mask n) AND bits \<noteq> 0)
        \<longleftrightarrow> (\<forall>k. i + 1 \<le> k \<and> k < unat iterations \<longrightarrow> push_bit k (mask n) AND bits \<noteq> 0)"
      using True 1(2) by (metis Suc_eq_plus1 Suc_leD le_neq_implies_less less_eq_Suc_le)
    then show ?thesis using IH unfolding step by (simp split: sum.splits)
  next
    case False
    then show ?thesis using 1(2) by (subst find_n_free_from.simps) auto
  qed
qed

lemma find_n_free_cases:
  assumes "1 \<le> unat n" and "unat n \<le> 64"
  shows "case find_n_free bits n of
      Inr k \<Rightarrow> k + unat n \<le> 64 \<and> (\<forall>l. k \<le> l \<and> l < k + unat n \<longrightarrow> \<not> bit bits l)
    | Inl e \<Rightarrow> (\<forall>k. k + unat n \<le> 64 \<longrightarrow> (\<exists>l. k \<le> l \<and> l < k + unat n \<and> bit bits l))"
proof -
  let ?it = "word_of_int (64 - uint n + 1) :: u64"
  have u: "uint n = int (unat n)" by simp
  have it: "unat ?it = 65 - unat n"
  proof -
    have "64 - uint n + 1 = int (65 - unat n)" using assms(2) u by linarith
    then have "?it = of_nat (65 - unat n)" by (simp only: of_int_of_nat_eq)
    then show ?thesis by (simp only:) (rule unat_of_nat_lt, simp)
  qed
  have "make_mask (uint n) = mask (unat n)" using make_mask_u8 assms(2) by blast
  then have "find_n_free bits n = find_n_free_from bits (mask (unat n)) ?it 0" by (simp add: find_n_free_def)
  moreover have "k < 65 - unat n \<longleftrightarrow> k + unat n \<le> 64" for k using assms by auto
  moreover have "push_bit k (mask (unat n)) AND bits = 0 \<longleftrightarrow> (\<forall>l. k \<le> l \<and> l < k + unat n \<longrightarrow> \<not> bit bits l)"
    if "k + unat n \<le> 64" for k using run_mask_free [OF that] .
  ultimately show ?thesis
    using find_n_free_from_spec [of "mask (unat n)" 0 "unat n" ?it bits] it assms(2)
    by (auto split: sum.splits)
qed

lemma run_block:
  assumes "k + n \<le> 64" and "q \<in> run (64 * i + k) n"
  shows "q div 64 = i" and "k \<le> q mod 64" and "q mod 64 < k + n"
proof -
  obtain l where l: "q = 64 * i + l" "k \<le> l" "l < k + n"
    using assms(2) unfolding run_def by (metis add_le_imp_le_left atLeastLessThan_iff le_Suc_ex
        nat_add_left_cancel_less add.assoc le_add1 order.trans)
  then show "q div 64 = i" and "k \<le> q mod 64" and "q mod 64 < k + n" using assms(1) by auto
qed

lemma run_block_iff:
  "k + n \<le> 64 \<Longrightarrow> q \<in> run (64 * i + k) n \<longleftrightarrow> q div 64 = i \<and> k \<le> q mod 64 \<and> q mod 64 < k + n"
proof
  assume "k + n \<le> 64" and "q div 64 = i \<and> k \<le> q mod 64 \<and> q mod 64 < k + n"
  then show "q \<in> run (64 * i + k) n"
    using div_mult_mod_eq [of q 64] unfolding run_def atLeastLessThan_iff by linarith
qed (use run_block [of k n q i] in blast)

lemma run_free_iff:
  assumes "i < length (m_storage bm)" and "k + n \<le> 64"
  shows "run (64 * i + k) n \<inter> pages_used bm = {} \<longleftrightarrow>
    (\<forall>l. k \<le> l \<and> l < k + n \<longrightarrow> \<not> bit (m_storage bm ! i) l)"
proof -
  have used: "q \<in> pages_used bm \<longleftrightarrow> bit (m_storage bm ! i) (q mod 64)" if "q \<in> run (64 * i + k) n" for q
    using pages_used_block [OF _ assms(1)] run_block(1) [OF assms(2) that] by blast
  have "64 * i + l \<in> run (64 * i + k) n \<and> (64 * i + l) mod 64 = l" if "k \<le> l" "l < k + n" for l
    using that assms(2) by (simp add: run_def)
  moreover have "k \<le> q mod 64 \<and> q mod 64 < k + n" if "q \<in> run (64 * i + k) n" for q
    using run_block(2,3) [OF assms(2) that] by blast
  ultimately show ?thesis using used unfolding disjoint_iff by metis
qed

lemma set_n_allocated_spec:
  assumes "bitmap_inv bm" and "i < length (m_storage bm)" and "1 \<le> unat n" and "k + unat n \<le> 64"
    and "run (64 * i + k) (unat n) \<inter> pages_used bm = {}"
  shows "\<exists>bm'. set_n_allocated (of_nat i) (of_nat k) n bm = Some bm' \<and> same_geometry bm bm'
    \<and> bitmap_inv bm' \<and> pages_used bm' = pages_used bm \<union> run (64 * i + k) (unat n)"
proof -
  let ?run = "run (64 * i + k) (unat n)"
  let ?v = "m_storage bm ! i OR push_bit k (make_mask (uint n))"
  let ?bm = "bm\<lparr>m_storage := (m_storage bm)[i := ?v], m_free_pages := m_free_pages bm - ucast n\<rparr>"
  have geo: "same_geometry bm ?bm" by (simp add: same_geometry_def)
  have "make_mask (uint n) = mask (unat n)" using make_mask_u8 [of n] assms(4) by simp
  then have "bit ?v l \<longleftrightarrow> bit (m_storage bm ! i) l \<or> k \<le> l \<and> l < k + unat n" for l
    using bit_run_mask [OF assms(4), of l] by (simp only: bit_or_iff)
  then have "q \<in> pages_used ?bm \<longleftrightarrow> q \<in> pages_used bm \<union> ?run" for q
    using assms(2) pages_used_block [of q i bm] run_block_iff [OF assms(4), of q i]
    unfolding pages_used_update [OF assms(2)] by auto
  then have used: "pages_used ?bm = pages_used bm \<union> ?run" by blast
  have card: "card (pages_used bm \<union> ?run) = card (pages_used bm) + unat n"
    using assms(5) by (subst card_Un_disjoint) (auto simp: run_def)
  have "?run \<subseteq> {..<page_count bm}"
    using assms(2) run_block [OF assms(4), of _ i] by (fastforce simp: page_count_def)
  then have "card (pages_used bm \<union> ?run) \<le> card {..<page_count bm}"
    using pages_used_count by (intro card_mono) auto
  then have le: "unat n \<le> unat (m_free_pages bm)"
    using page_count_total [OF assms(1)] card assms(1) by (simp add: bitmap_inv_def)
  have "unat (ucast n :: u64) = unat n" by (simp add: unsigned_ucast_eq take_bit_nat_eq_self order.strict_trans [OF unat_lt8])
  then have "unat (m_free_pages bm - ucast n) = unat (m_free_pages bm) - unat n"
    using le by (simp add: unat_sub_le word_le_nat_alt)
  then have "unat (m_free_pages ?bm) + card (pages_used ?bm) = unat (m_total_pages bm)"
    unfolding used card using le assms(1) by (simp add: bitmap_inv_def)
  moreover have "k < 64" using assms(3,4) by simp
  then have "set_n_allocated (of_nat i) (of_nat k) n bm = Some ?bm"
    using assms(2) by (simp add: set_n_allocated_def storage_index [OF assms(1,2)] unat_small)
  ultimately show ?thesis using geo used same_geometry_inv [OF geo assms(1)] by blast
qed

lemma allocate_contiguous_from_spec:
  assumes inv: "bitmap_inv bm" and n: "1 \<le> unat pages" "unat pages \<le> 64"
  shows "(\<exists>j k bm'. i \<le> j \<and> j < length (m_storage bm) \<and> k + unat pages \<le> 64
       \<and> run (64 * j + k) (unat pages) \<inter> pages_used bm = {}
       \<and> allocate_contiguous_from pages i bm m =
           Some (Inr (page_address bm (64 * j + k)), bm', clear_page (page_address bm (64 * j + k)) bm m)
       \<and> same_geometry bm bm' \<and> bitmap_inv bm'
       \<and> pages_used bm' = pages_used bm \<union> run (64 * j + k) (unat pages))
     \<or> allocate_contiguous_from pages i bm m = Some (Inl NoFreeMemory, bm, m)
       \<and> (\<forall>j k. i \<le> j \<and> j < length (m_storage bm) \<and> k + unat pages \<le> 64 \<longrightarrow>
            run (64 * j + k) (unat pages) \<inter> pages_used bm \<noteq> {})"
proof (induction "unat (m_block_count bm) - i" arbitrary: i)
  case 0
  then have "allocate_contiguous_from pages i bm m = Some (Inl NoFreeMemory, bm, m)"
    by (subst allocate_contiguous_from.simps) simp
  moreover have "length (m_storage bm) \<le> i" using 0 inv by (simp add: bitmap_inv_def)
  ultimately show ?case by auto
next
  case (Suc x)
  have len: "length (m_storage bm) = unat (m_block_count bm)" using inv by (simp add: bitmap_inv_def)
  have i: "i < length (m_storage bm)" using Suc(2) len by simp
  have u8: "unat (ucast pages :: u8) = unat pages"
    using n(2) by (simp add: unsigned_ucast_eq take_bit_nat_eq_self)
  note find = find_n_free_cases [of "ucast pages" "m_storage bm ! i", unfolded u8, OF n]
  show ?case
  proof (cases "find_n_free (m_storage bm ! i) (ucast pages)")
    case (Inl e)
    then have step: "allocate_contiguous_from pages i bm m = allocate_contiguous_from pages (i + 1) bm m"
      using i len by (subst allocate_contiguous_from.simps) simp
    have no: "run (64 * i + k) (unat pages) \<inter> pages_used bm \<noteq> {}" if "k + unat pages \<le> 64" for k
      using find Inl that run_free_iff [OF i that] by simp
    have x: "x = unat (m_block_count bm) - (i + 1)" using Suc(2) by simp
    have "i \<le> j \<longleftrightarrow> j = i \<or> i + 1 \<le> j" for j by auto
    with Suc(1) [OF x] no show ?thesis unfolding step by metis
  next
    case (Inr k)
    then have k: "k + unat pages \<le> 64" "run (64 * i + k) (unat pages) \<inter> pages_used bm = {}"
      using find run_free_iff [OF i, of k] by simp_all
    obtain bm' where bm': "set_n_allocated (of_nat i) (of_nat k) (ucast pages) bm = Some bm'"
        "same_geometry bm bm'" "bitmap_inv bm'" "pages_used bm' = pages_used bm \<union> run (64 * i + k) (unat pages)"
      using set_n_allocated_spec [OF inv i, of "ucast pages" k, unfolded u8] n(1) k by blast
    have "block_address i k bm' = page_address bm (64 * i + k)"
      using block_address_page [of bm' i k] bm'(3) same_geometry_page [OF bm'(2)] by (simp add: bitmap_inv_def)
    moreover have "clear_page a bm' m = clear_page a bm m" for a
      using bm'(2) by (simp add: clear_page_def same_geometry_def)
    ultimately have "allocate_contiguous_from pages i bm m =
        Some (Inr (page_address bm (64 * i + k)), bm', clear_page (page_address bm (64 * i + k)) bm m)"
      using i len Inr bm'(1) by (subst allocate_contiguous_from.simps) (simp add: Let_def)
    then show ?thesis using k bm' i by blast
  qed
qed

text \<open>A run of free pages implies that the counter is not 0.\<close>

lemma run_counter:
  assumes "bitmap_inv bm" and "j < length (m_storage bm)" and "k + n \<le> 64" and "1 \<le> n"
    and "m_free_pages bm = 0"
  shows "run (64 * j + k) n \<inter> pages_used bm \<noteq> {}"
proof -
  have "64 * j + k < page_count bm" using assms(2-4) by (simp add: page_count_def)
  then have "64 * j + k \<in> pages_used bm" using free_pages_positive [OF assms(1)] assms(5) by blast
  moreover have "64 * j + k \<in> run (64 * j + k) n" using assms(4) by (simp add: run_def)
  ultimately show ?thesis by blast
qed

section \<open>Initialisation\<close>




section \<open>The bitmap is a pool of page addresses\<close>





lemma allocate_spec:
  assumes inv: "bitmap_inv bm"
  shows "if {..<page_count bm} \<subseteq> pages_used bm
     then \<exists>e. allocate bm m = Some (Inl e, bm, m) \<and> e = (if m_free_pages bm = 0 then NoFreeMemory else AllocationFailure)
     else \<exists>bm'. let n = (LEAST n. n \<notin> pages_used bm); a = page_address bm n in
       allocate bm m = Some (Inr a, bm', clear_page a bm m) \<and> n < page_count bm
       \<and> same_geometry bm bm' \<and> bitmap_inv bm' \<and> pages_used bm' = insert n (pages_used bm)"
proof (cases "m_free_pages bm = 0")
  case True
  then have "{..<page_count bm} \<subseteq> pages_used bm" using free_pages_positive [OF inv] by blast
  with True show ?thesis by (simp add: allocate_def)
next
  case False
  then show ?thesis using allocate_from_spec [OF inv, of 0 m] by (simp add: allocate_def)
qed







section \<open>Properties\<close>

text \<open>A bitmap over 130 pages of 4 KiB from address 0x100000 on, of which pages 0 and 1 are in use.\<close>

definition bitmap_example :: bitmap where
  "bitmap_example = \<lparr>m_page_size = 0x1000, m_total_pages = 130, m_free_pages = 128, m_block_count = 2,
     m_block_full_size = 0x40000, m_storage = [3, 0], m_base_address = 0x100000\<rparr>"

lemma bits_3: "bit (3 :: u64) k \<longleftrightarrow> k < 2"
proof -
  have "(3 :: u64) = mask 2" by (simp add: mask_eq_exp_minus_1)
  then show ?thesis by (simp only: bit_mask_iff) (auto dest: order.strict_trans2)
qed

lemma bitmap_example_used: "pages_used bitmap_example = {0, 1}"
proof -
  have "n \<in> pages_used bitmap_example \<longleftrightarrow> n < 2" for n
  proof (cases "n < 64")
    case True
    then have "n \<in> pages_used bitmap_example \<longleftrightarrow> bit (3 :: u64) n"
      by (simp add: pages_used_def bitmap_example_def)
    then show ?thesis by (simp only: bits_3)
  next
    case False
    have "n \<notin> pages_used bitmap_example"
    proof
      assume used: "n \<in> pages_used bitmap_example"
      then have "n < 128" by (simp add: pages_used_def bitmap_example_def)
      then have "n div 64 = 1" using False by (intro div_nat_eqI) simp_all
      moreover have "bit ([3, 0 :: u64] ! (n div 64)) (n mod 64)"
        using used by (simp only: pages_used_def bitmap_example_def mem_Collect_eq bitmap.simps)
      ultimately show False by simp
    qed
    then show ?thesis using False by simp
  qed
  then have "n \<in> pages_used bitmap_example \<longleftrightarrow> n = 0 \<or> n = 1" for n by (simp add: less_2_cases_iff)
  then show ?thesis by blast
qed

lemma bitmap_example_inv: "bitmap_inv bitmap_example"
  unfolding bitmap_inv_def bitmap_example_used by (simp add: bitmap_example_def)

lemma clear_page_filled: "clear_page a bm m = filled m (as_mapped_address a) 0 (unat (m_page_size bm))"
  by (simp add: clear_page_def kmemset_filled)

text \<open>
  C20. \<open>Bitmap::allocate\<close> returns the address of the lowest free page, marks exactly this page,
  clears exactly its bytes through the physical mapping, and keeps the invariant, the count of free
  pages included. It fails exactly if every page of a complete block is in use, with \<open>NoFreeMemory\<close>
  if the count of free pages is 0 and \<open>AllocationFailure\<close> otherwise, changing nothing; it never
  accesses the storage out of bounds.
\<close>

theorem page_allocate_lowest_free:
  assumes "bitmap_inv bm"
  shows "if {..<page_count bm} \<subseteq> pages_used bm
    then allocate bm m = Some (Inl (if m_free_pages bm = 0 then NoFreeMemory else AllocationFailure), bm, m)
    else \<exists>n bm'. n < page_count bm \<and> n \<notin> pages_used bm \<and> {..<n} \<subseteq> pages_used bm
      \<and> allocate bm m = Some (Inr (page_address bm n), bm',
            filled m (as_mapped_address (page_address bm n)) 0 (unat (m_page_size bm)))
      \<and> bitmap_inv bm' \<and> pages_used bm' = insert n (pages_used bm) \<and> same_geometry bm bm'"
proof (cases "{..<page_count bm} \<subseteq> pages_used bm")
  case True
  then show ?thesis using allocate_spec [OF assms, of m] by auto
next
  case False
  let ?n = "LEAST n. n \<notin> pages_used bm"
  have "?n \<notin> pages_used bm" by (rule LeastI_ex) (use False in blast)
  moreover have "{..<?n} \<subseteq> pages_used bm" using not_less_Least by blast
  ultimately show ?thesis
    using allocate_spec [OF assms, of m] False
    by (simp add: clear_page_filled Let_def) blast
qed

theorem page_allocate_lowest_free_witness:
  "\<exists>n bm'. n < page_count bitmap_example \<and> n \<notin> {0, 1} \<and> {..<n} \<subseteq> {0, 1}
      \<and> allocate bitmap_example (\<lambda>_. 7) = Some (Inr (page_address bitmap_example n), bm',
            filled (\<lambda>_. 7) (as_mapped_address (page_address bitmap_example n)) 0 (unat (m_page_size bitmap_example)))
      \<and> bitmap_inv bm' \<and> pages_used bm' = insert n {0, 1} \<and> same_geometry bitmap_example bm'"
proof -
  have "\<not> {..<page_count bitmap_example} \<subseteq> {0, 1}"
  proof
    assume "{..<page_count bitmap_example} \<subseteq> {0, 1}"
    then have "(2 :: nat) \<in> {0, 1}" by (rule subsetD) (simp add: page_count_def bitmap_example_def)
    then show False by simp
  qed
  then show ?thesis
    using page_allocate_lowest_free [OF bitmap_example_inv, of "\<lambda>_. 7"] unfolding bitmap_example_used by (simp only: if_False)
qed

text \<open>
  \<open>Bitmap::free\<close> of any address inside an allocated page frees exactly this page, counts
  it as free again and keeps the invariant; for an address inside a page that is not allocated the
  result is \<open>DoubleFree\<close> and nothing changes.
\<close>

theorem page_free_exact:
  assumes "bitmap_inv bm" and "n < page_count bm" and "r < m_page_size bm"
  shows "if n \<in> pages_used bm
    then \<exists>bm'. free_page (page_address bm n + r) bm = Some (Inr (), bm') \<and> bitmap_inv bm'
           \<and> pages_used bm' = pages_used bm - {n} \<and> same_geometry bm bm'
    else free_page (page_address bm n + r) bm = Some (Inl DoubleFree, bm)"
  using free_page_spec [OF assms] by auto

theorem page_free_exact_witness:
  "\<exists>bm'. free_page (page_address bitmap_example 1 + 5) bitmap_example = Some (Inr (), bm') \<and> bitmap_inv bm'
     \<and> pages_used bm' = {0, 1} - {1} \<and> same_geometry bitmap_example bm'"
  using page_free_exact [OF bitmap_example_inv, of 1 5]
  by (simp add: bitmap_example_used) (simp add: page_count_def bitmap_example_def)

text \<open>
  \<open>Bitmap::allocate_contiguous\<close> for 1 to 64 pages returns the address of a run of that many
  free pages inside one block, marks exactly these pages and keeps the invariant, or fails with
  \<open>NoFreeMemory\<close>, changing nothing, if no block has such a run.
\<close>

theorem page_allocate_contiguous:
  assumes "bitmap_inv bm" and "1 \<le> unat pages" and "unat pages \<le> 64"
  shows "(\<exists>j k bm' m'. j < length (m_storage bm) \<and> k + unat pages \<le> 64
       \<and> run (64 * j + k) (unat pages) \<inter> pages_used bm = {}
       \<and> allocate_contiguous pages bm m = Some (Inr (page_address bm (64 * j + k)), bm', m')
       \<and> bitmap_inv bm' \<and> same_geometry bm bm'
       \<and> pages_used bm' = pages_used bm \<union> run (64 * j + k) (unat pages))
     \<or> allocate_contiguous pages bm m = Some (Inl NoFreeMemory, bm, m)
       \<and> (\<forall>j k. j < length (m_storage bm) \<and> k + unat pages \<le> 64 \<longrightarrow>
            run (64 * j + k) (unat pages) \<inter> pages_used bm \<noteq> {})"
proof (cases "m_free_pages bm = 0")
  case True
  then show ?thesis
    using run_counter [OF assms(1) _ _ assms(2)] by (simp add: allocate_contiguous_def)
next
  case False
  then show ?thesis
    using allocate_contiguous_from_spec [OF assms, of 0 m] by (simp add: allocate_contiguous_def) blast
qed

theorem page_allocate_contiguous_witness:
  "(\<exists>j k bm' m'. j < length (m_storage bitmap_example) \<and> k + unat (62 :: u64) \<le> 64
       \<and> run (64 * j + k) (unat (62 :: u64)) \<inter> {0, 1} = {}
       \<and> allocate_contiguous 62 bitmap_example (\<lambda>_. 0) = Some (Inr (page_address bitmap_example (64 * j + k)), bm', m')
       \<and> bitmap_inv bm' \<and> same_geometry bitmap_example bm'
       \<and> pages_used bm' = {0, 1} \<union> run (64 * j + k) (unat (62 :: u64)))"
proof -
  have "run (64 * 1 + 0) (unat (62 :: u64)) \<inter> {0, 1} = {}" by (auto simp: run_def)
  moreover have "1 < length (m_storage bitmap_example)" by (simp add: bitmap_example_def)
  moreover have "1 \<le> unat (62 :: u64)" "unat (62 :: u64) \<le> 64" "0 + unat (62 :: u64) \<le> 64" by simp_all
  ultimately show ?thesis
    using page_allocate_contiguous [OF bitmap_example_inv, of 62 "\<lambda>_. 0"] unfolding bitmap_example_used by blast
qed



lemma contiguous_first_block:
  assumes "bitmap_inv bm" and "m_free_pages bm \<noteq> 0" and "0 < page_count bm"
    and "find_n_free (m_storage bm ! 0) (ucast pages) = Inr 0"
  shows "\<exists>m'. allocate_contiguous pages bm m = Some (Inr (m_base_address bm),
    bm\<lparr>m_storage := (m_storage bm)[0 := m_storage bm ! 0 OR make_mask (uint (ucast pages :: u8))],
       m_free_pages := m_free_pages bm - ucast (ucast pages :: u8)\<rparr>, m')"
proof -
  have "0 < length (m_storage bm)" using assms(3) by (simp add: page_count_def)
  moreover have "0 < unat (m_block_count bm)" using assms(1) calculation by (simp add: bitmap_inv_def)
  ultimately show ?thesis
    using assms(2,4) unfolding allocate_contiguous_def
    by (subst allocate_contiguous_from.simps) (simp add: set_n_allocated_def block_address_def Let_def)
qed

text \<open>
  C34. A request for more than 64 contiguous pages is not refused. For 256 pages the count is cut
  to the 8 bits of the parameter of \<open>find_n_free\<close>: the result is the first page of the memory and nothing is
  marked, so that the next allocation can return the same page. For 128 pages a free block is
  found and marked, only 64 pages, and the count of free pages is decreased by 128.
\<close>

theorem contiguous_over_64_pages:
  "(\<forall>bm m. bitmap_inv bm \<and> m_free_pages bm \<noteq> 0 \<and> 0 < page_count bm \<longrightarrow>
      (\<exists>m'. allocate_contiguous 256 bm m = Some (Inr (m_base_address bm), bm, m')))
   \<and> (\<forall>bm m. bitmap_inv bm \<and> m_free_pages bm \<noteq> 0 \<and> 0 < page_count bm \<and> m_storage bm ! 0 = 0 \<longrightarrow>
      (\<exists>m'. allocate_contiguous 128 bm m =
         Some (Inr (m_base_address bm),
               bm\<lparr>m_storage := (m_storage bm)[0 := BITMAP_FULL], m_free_pages := m_free_pages bm - 128\<rparr>, m')))"
proof (intro conjI allI impI)
  fix bm :: bitmap and m :: mem
  assume bm: "bitmap_inv bm \<and> m_free_pages bm \<noteq> 0 \<and> 0 < page_count bm"
  have cut: "(ucast (256 :: u64) :: u8) = 0" by simp
  have "find_n_free (m_storage bm ! 0) (ucast (256 :: u64)) = Inr 0"
    unfolding find_n_free_def cut by (subst find_n_free_from.simps) (simp add: make_mask_def)
  moreover have "bm\<lparr>m_storage := (m_storage bm)[0 := m_storage bm ! 0 OR make_mask (uint (0 :: u8))],
      m_free_pages := m_free_pages bm - ucast (0 :: u8)\<rparr> = bm"
    by (simp add: make_mask_def)
  ultimately show "\<exists>m'. allocate_contiguous 256 bm m = Some (Inr (m_base_address bm), bm, m')"
    using contiguous_first_block [of bm 256 m] bm unfolding cut by (simp only:) blast
next
  fix bm :: bitmap and m :: mem
  assume bm: "bitmap_inv bm \<and> m_free_pages bm \<noteq> 0 \<and> 0 < page_count bm \<and> m_storage bm ! 0 = 0"
  have cut: "(ucast (128 :: u64) :: u8) = 128" by simp
  have "find_n_free (m_storage bm ! 0) (ucast (128 :: u64)) = Inr 0"
    using bm unfolding find_n_free_def cut by (subst find_n_free_from.simps) simp
  moreover have "m_storage bm ! 0 OR make_mask (uint (128 :: u8)) = BITMAP_FULL" "ucast (128 :: u8) = (128 :: u64)"
    using bm by (simp_all add: make_mask_def BITMAP_FULL_def)
  ultimately show "\<exists>m'. allocate_contiguous 128 bm m =
      Some (Inr (m_base_address bm),
            bm\<lparr>m_storage := (m_storage bm)[0 := BITMAP_FULL], m_free_pages := m_free_pages bm - 128\<rparr>, m')"
    using contiguous_first_block [of bm 128 m] bm unfolding cut by (simp only:) blast
qed

theorem contiguous_over_64_pages_witness:
  "\<exists>m'. allocate_contiguous 256 bitmap_example (\<lambda>_. 0) = Some (Inr 0x100000, bitmap_example, m')"
  using contiguous_over_64_pages bitmap_example_inv
  by (auto simp: page_count_def bitmap_example_def)

end
