(* ===== verification/Cache.thy ===== *)
theory Cache
  imports Prelude
begin

text \<open>
  Object caches, \<^verbatim>\<open>utcache.c\<close>, and the contract that the users of \<open>AcpiOsAcquireObject\<close> and
  \<open>AcpiOsReleaseObject\<close> rely on.

  The heap maps the address of every allocated block to its contents: a live object, or an
  object that waits in a cache, of which only the link in its first word (\<open>CommonPointer\<close>) has a
  meaning. Address 0 is \<open>NULL\<close>. The host's \<open>AcpiOsAllocate\<close> is a parameter \<open>pick\<close>, an arbitrary function that
  proposes an address; a proposal that is null or already allocated counts as a failure of the
  allocation. The results of acquiring and releasing the mutex \<open>ACPI_MTX_CACHES\<close> are arguments.
\<close>

datatype 'a cell = Cached addr | Object 'a

type_synonym 'a heap = "addr \<Rightarrow> 'a cell option"

record memory_list =
  ListHead :: addr
  ObjectSize :: u16
  MaxDepth :: u16
  CurrentDepth :: u16

definition AcpiOsAllocate :: "('a heap \<Rightarrow> addr) \<Rightarrow> 'a heap \<Rightarrow> addr" where
  "AcpiOsAllocate pick h = (let a = pick h in if a = 0 \<or> h a \<noteq> None then 0 else a)"

text \<open>\<open>CommonPointer\<close> of a block; a block that is not cached has no meaningful link.\<close>

definition descriptor_ptr :: "'a heap \<Rightarrow> addr \<Rightarrow> addr option" where
  "descriptor_ptr h a = (case h a of Some (Cached n) \<Rightarrow> Some n | _ \<Rightarrow> None)"

section \<open>Operations\<close>

text \<open>The arguments that must not be null are given by whether they are.\<close>

definition AcpiOsCreateCache ::
  "bool \<Rightarrow> u16 \<Rightarrow> u16 \<Rightarrow> bool \<Rightarrow> bool \<Rightarrow> acpi_status \<times> memory_list option" where
  "AcpiOsCreateCache CacheName Size Depth ReturnCache allocated =
     (if \<not> CacheName \<or> \<not> ReturnCache \<or> Size = 0 then (AE_BAD_PARAMETER, None)
      else if \<not> allocated then (AE_NO_MEMORY, None)
      else (AE_OK, Some \<lparr>ListHead = 0, ObjectSize = Size, MaxDepth = Depth, CurrentDepth = 0\<rparr>))"

text \<open>
  The loop of \<open>AcpiOsPurgeCache\<close>; \<open>None\<close> if a link is read from a block that is not a cached
  object, as it would be on a list with a cycle.
\<close>

partial_function (option) purge_loop :: "memory_list \<Rightarrow> 'a heap \<Rightarrow> (memory_list \<times> 'a heap) option" where
  "purge_loop c h =
     (if ListHead c \<noteq> 0
      then case descriptor_ptr h (ListHead c) of
             None \<Rightarrow> None
           | Some Next \<Rightarrow>
               purge_loop (c\<lparr>ListHead := Next, CurrentDepth := CurrentDepth c - 1\<rparr>) (h(ListHead c := None))
      else Some (c, h))"

definition AcpiOsPurgeCache ::
  "acpi_status \<Rightarrow> memory_list option \<Rightarrow> 'a heap \<Rightarrow> (acpi_status \<times> memory_list option \<times> 'a heap) option" where
  "AcpiOsPurgeCache acquire Cache h =
     (case Cache of
        None \<Rightarrow> Some (AE_BAD_PARAMETER, None, h)
      | Some c \<Rightarrow>
          if ACPI_FAILURE acquire then Some (acquire, Some c, h)
          else case purge_loop c h of None \<Rightarrow> None | Some (c', h') \<Rightarrow> Some (AE_OK, Some c', h'))"

definition AcpiOsDeleteCache ::
  "acpi_status \<Rightarrow> memory_list option \<Rightarrow> 'a heap \<Rightarrow> (acpi_status \<times> memory_list option \<times> 'a heap) option" where
  "AcpiOsDeleteCache acquire Cache h =
     (case AcpiOsPurgeCache acquire Cache h of
        None \<Rightarrow> None
      | Some (Status, Cache, h) \<Rightarrow>
          if ACPI_FAILURE Status then Some (Status, Cache, h) else Some (AE_OK, None, h))"

definition AcpiOsReleaseObject ::
  "acpi_status \<Rightarrow> memory_list option \<Rightarrow> addr \<Rightarrow> 'a heap \<Rightarrow> acpi_status \<times> memory_list option \<times> 'a heap" where
  "AcpiOsReleaseObject acquire Cache Obj h =
     (case Cache of
        None \<Rightarrow> (AE_BAD_PARAMETER, None, h)
      | Some c \<Rightarrow>
          if Obj = 0 then (AE_BAD_PARAMETER, Some c, h)
          else if CurrentDepth c \<ge> MaxDepth c then (AE_OK, Some c, h(Obj := None))
          else if ACPI_FAILURE acquire then (acquire, Some c, h)
          else (AE_OK, Some (c\<lparr>ListHead := Obj, CurrentDepth := CurrentDepth c + 1\<rparr>),
                h(Obj \<mapsto> Cached (ListHead c))))"

text \<open>\<open>zero\<close> is an object whose bytes are all zero.\<close>

definition AcpiOsAcquireObject ::
  "('a heap \<Rightarrow> addr) \<Rightarrow> 'a \<Rightarrow> acpi_status \<Rightarrow> acpi_status \<Rightarrow> memory_list option \<Rightarrow> 'a heap \<Rightarrow>
     (addr \<times> memory_list option \<times> 'a heap) option" where
  "AcpiOsAcquireObject pick zero acquire release Cache h =
     (case Cache of
        None \<Rightarrow> Some (0, None, h)
      | Some c \<Rightarrow>
          if ACPI_FAILURE acquire then Some (0, Some c, h)
          else if ListHead c \<noteq> 0
          then case descriptor_ptr h (ListHead c) of
                 None \<Rightarrow> None
               | Some Next \<Rightarrow>
                   let Obj = ListHead c; c = c\<lparr>ListHead := Next, CurrentDepth := CurrentDepth c - 1\<rparr>
                   in if ACPI_FAILURE release then Some (0, Some c, h)
                      else Some (Obj, Some c, h(Obj \<mapsto> Object zero))
          else if ACPI_FAILURE release then Some (0, Some c, h)
          else let Obj = AcpiOsAllocate pick h
               in if Obj = 0 then Some (0, Some c, h) else Some (Obj, Some c, h(Obj \<mapsto> Object zero)))"

section \<open>The list of cached objects\<close>

fun chain :: "'a heap \<Rightarrow> addr \<Rightarrow> addr list \<Rightarrow> bool" where
  "chain h p [] \<longleftrightarrow> p = 0"
| "chain h p (a # as) \<longleftrightarrow> p = a \<and> a \<noteq> 0 \<and> (\<exists>n. h a = Some (Cached n) \<and> chain h n as)"

text \<open>
  A well-formed cache: its list is finite and without repetition, its length is the current depth and
  at most the maximum depth.
\<close>

definition cache_inv :: "memory_list \<Rightarrow> 'a heap \<Rightarrow> bool" where
  "cache_inv c h \<longleftrightarrow> h 0 = None \<and> (\<exists>as. chain h (ListHead c) as \<and> distinct as
     \<and> length as = unat (CurrentDepth c) \<and> length as \<le> unat (MaxDepth c))"

definition live :: "'a heap \<Rightarrow> addr \<Rightarrow> 'a option" where
  "live h a = (case h a of Some (Object x) \<Rightarrow> Some x | _ \<Rightarrow> None)"

lemma chain_cached: "chain h p as \<Longrightarrow> a \<in> set as \<Longrightarrow> \<exists>n. h a = Some (Cached n)"
  by (induction as arbitrary: p) auto

lemma chain_update [simp]: "a \<notin> set as \<Longrightarrow> chain (h(a := v)) p as \<longleftrightarrow> chain h p as"
  by (induction as arbitrary: p) auto

lemma live_update [simp]:
  "live (h(a \<mapsto> Object x)) = (live h)(a \<mapsto> x)"
  "live (h(a \<mapsto> Cached n)) = (live h)(a := None)"
  "live (h(a := None)) = (live h)(a := None)"
  by (auto simp: live_def fun_eq_iff)

lemma chain_not_live: "chain h p as \<Longrightarrow> live h a \<noteq> None \<Longrightarrow> a \<notin> set as"
  using chain_cached [of h p as a] by (auto simp: live_def)

lemma purge_loop_chain:
  "chain h (ListHead c) as \<Longrightarrow> distinct as \<Longrightarrow> length as = unat (CurrentDepth c) \<Longrightarrow>
     \<exists>h'. purge_loop c h = Some (c\<lparr>ListHead := 0, CurrentDepth := 0\<rparr>, h')
       \<and> (\<forall>a. h' a = (if a \<in> set as then None else h a))"
proof (induction as arbitrary: c h)
  case Nil
  then have "CurrentDepth c = 0" by (simp add: unat_eq_zero)
  with Nil show ?case by (subst purge_loop.simps) simp
next
  case (Cons a as)
  then obtain n where n: "ListHead c = a" "a \<noteq> 0" "h a = Some (Cached n)" "chain h n as" by auto
  let ?c = "c\<lparr>ListHead := n, CurrentDepth := CurrentDepth c - 1\<rparr>"
  have "CurrentDepth c \<noteq> 0" using Cons.prems(3) by auto
  then have "length as = unat (CurrentDepth ?c)" using Cons.prems(3) by (simp add: unat_pred)
  moreover have "chain (h(a := None)) (ListHead ?c) as" "distinct as"
    using n(4) Cons.prems(2) chain_update [of a as h None n] by (simp_all del: fun_upd_apply)
  ultimately obtain h' where "purge_loop ?c (h(a := None)) = Some (c\<lparr>ListHead := 0, CurrentDepth := 0\<rparr>, h')"
      "\<forall>b. h' b = (if b \<in> set as then None else (h(a := None)) b)"
    using Cons.IH [of "h(a := None)" ?c] by (simp del: fun_upd_apply) blast
  then show ?case using n by (subst purge_loop.simps) (auto simp: descriptor_ptr_def)
qed


lemma purge_cache:
  assumes "cache_inv c h"
  shows "\<exists>h'. purge_loop c h = Some (c\<lparr>ListHead := 0, CurrentDepth := 0\<rparr>, h') \<and> live h' = live h
    \<and> cache_inv (c\<lparr>ListHead := 0, CurrentDepth := 0\<rparr>) h'"
proof -
  obtain as where as: "chain h (ListHead c) as" "distinct as" "length as = unat (CurrentDepth c)" "h 0 = None"
    using assms by (auto simp: cache_inv_def)
  obtain h' where h': "purge_loop c h = Some (c\<lparr>ListHead := 0, CurrentDepth := 0\<rparr>, h')"
      "\<forall>a. h' a = (if a \<in> set as then None else h a)"
    using purge_loop_chain [OF as(1-3)] by blast
  have "live h' a = live h a" for a using h'(2) chain_cached [OF as(1), of a] by (auto simp: live_def)
  moreover have "cache_inv (c\<lparr>ListHead := 0, CurrentDepth := 0\<rparr>) h'"
    using h'(2) as(4) by (auto simp: cache_inv_def intro: exI [of _ "[]"])
  ultimately show ?thesis using h'(1) by auto
qed

lemma acquire_object:
  assumes "cache_inv c h"
  shows "\<exists>a c' h'. AcpiOsAcquireObject pick zero acquire release (Some c) h = Some (a, Some c', h')
    \<and> cache_inv c' h' \<and> (a = 0 \<longrightarrow> live h' = live h)
    \<and> (a \<noteq> 0 \<longrightarrow> live h a = None \<and> live h' = (live h)(a \<mapsto> zero))"
proof -
  obtain as where as: "chain h (ListHead c) as" "distinct as" "length as = unat (CurrentDepth c)" "h 0 = None"
      "length as \<le> unat (MaxDepth c)"
    using assms by (auto simp: cache_inv_def)
  show ?thesis
  proof (cases as)
    case Nil
    let ?a = "AcpiOsAllocate pick h"
    have inv: "cache_inv c (h(?a \<mapsto> Object zero))" if "?a \<noteq> 0"
      using that as Nil by (auto simp: cache_inv_def intro: exI [of _ "[]"])
    have "live h ?a = None" if "?a \<noteq> 0"
      using that by (auto simp: AcpiOsAllocate_def live_def Let_def split: if_splits)
    with inv show ?thesis
      using as(1) Nil assms by (auto simp: AcpiOsAcquireObject_def Let_def)
  next
    case (Cons a bs)
    then obtain n where n: "ListHead c = a" "a \<noteq> 0" "h a = Some (Cached n)" "chain h n bs" using as(1) by auto
    let ?c = "c\<lparr>ListHead := n, CurrentDepth := CurrentDepth c - 1\<rparr>"
    have "CurrentDepth c \<noteq> 0" using as(3) Cons by auto
    then have "length bs = unat (CurrentDepth ?c)" using as(3) Cons by (simp add: unat_pred)
    then have "cache_inv ?c h" "cache_inv ?c (h(a \<mapsto> Object zero))"
      using n as(2,4,5) Cons by (auto simp: cache_inv_def intro!: exI [of _ bs])
    moreover have "live h a = None" using n(3) by (simp add: live_def)
    ultimately show ?thesis using n assms by (auto simp: AcpiOsAcquireObject_def descriptor_ptr_def Let_def)
  qed
qed

lemma release_object:
  assumes "cache_inv c h" and "live h a \<noteq> None"
  shows "\<exists>st c' h'. AcpiOsReleaseObject acquire (Some c) a h = (st, Some c', h') \<and> cache_inv c' h'
    \<and> (if ACPI_FAILURE st then st = acquire \<and> h' = h \<and> c' = c else st = AE_OK \<and> live h' = (live h)(a := None))"
proof -
  obtain as where as: "chain h (ListHead c) as" "distinct as" "length as = unat (CurrentDepth c)" "h 0 = None"
      "length as \<le> unat (MaxDepth c)"
    using assms(1) by (auto simp: cache_inv_def)
  have a: "a \<notin> set as" "a \<noteq> 0" using chain_not_live [OF as(1) assms(2)] assms(2) as(4) by (auto simp: live_def)
  show ?thesis
  proof (cases "CurrentDepth c \<ge> MaxDepth c")
    case True
    have "cache_inv c (h(a := None))" using as a by (auto simp: cache_inv_def intro!: exI [of _ as])
    with True a show ?thesis by (simp add: AcpiOsReleaseObject_def)
  next
    case False
    then have lt: "unat (CurrentDepth c) < unat (MaxDepth c)" by (simp add: not_le word_less_nat_alt)
    then have "unat (CurrentDepth c + 1) = unat (CurrentDepth c) + 1"
      using unat_lt16 [of "MaxDepth c"] unat_add_nowrap [of "CurrentDepth c" 1] by simp
    then have "cache_inv (c\<lparr>ListHead := a, CurrentDepth := CurrentDepth c + 1\<rparr>) (h(a \<mapsto> Cached (ListHead c)))"
      using as a lt by (auto simp: cache_inv_def intro!: exI [of _ "a # as"])
    with False a assms(1) show ?thesis by (simp add: AcpiOsReleaseObject_def ACPI_FAILURE_def)
  qed
qed

section \<open>Linked lists of live objects\<close>

text \<open>The live objects on the list that starts at an address, linked by the member \<open>nx\<close>.\<close>

fun linked :: "('a \<Rightarrow> addr) \<Rightarrow> 'a heap \<Rightarrow> addr \<Rightarrow> addr list \<Rightarrow> bool" where
  "linked nx h p [] \<longleftrightarrow> p = 0"
| "linked nx h p (a # as) \<longleftrightarrow> p = a \<and> a \<noteq> 0 \<and> (\<exists>s. live h a = Some s \<and> linked nx h (nx s) as)"

lemma linked_cong:
  "(\<And>a. a \<in> set as \<Longrightarrow> live h' a = live h a) \<Longrightarrow> linked nx h' p as \<longleftrightarrow> linked nx h p as"
  by (induction as arbitrary: p) auto

lemma linked_other: "linked nx h p as \<Longrightarrow> live h' = (live h)(a := v) \<Longrightarrow> a \<notin> set as \<Longrightarrow> linked nx h' p as"
proof -
  assume "linked nx h p as" and l: "live h' = (live h)(a := v)" and a: "a \<notin> set as"
  moreover have "live h' b = live h b" if "b \<in> set as" for b using that l a by auto
  ultimately show ?thesis using linked_cong [of as h' h nx p] by blast
qed

lemma linked_deleted:
  "linked nx h p bs \<Longrightarrow> live h' = (\<lambda>a. if a \<in> set as then None else live h a) \<Longrightarrow> set as \<inter> set bs = {} \<Longrightarrow> linked nx h' p bs"
proof -
  assume "linked nx h p bs" and l: "live h' = (\<lambda>a. if a \<in> set as then None else live h a)" and "set as \<inter> set bs = {}"
  moreover from this have "live h' b = live h b" if "b \<in> set bs" for b using that by auto
  ultimately show ?thesis using linked_cong [of bs h' h nx p] by blast
qed

lemma linked_live: "linked nx h p as \<Longrightarrow> a \<in> set as \<Longrightarrow> live h a \<noteq> None"
  by (induction as arbitrary: p) auto

lemma linked_empty: "linked nx h 0 as \<longleftrightarrow> as = []"
  by (cases as) auto

lemma linked_head: "linked nx h p as \<Longrightarrow> p = (case as of [] \<Rightarrow> 0 | a # _ \<Rightarrow> a)"
  by (cases as) auto

section \<open>The contract of a cache\<close>

text \<open>
  What a user of a cache relies on: \<open>acquire\<close> fails or returns a new object, cleared, and leaves
  all live objects alone; \<open>release\<close> makes exactly one object dead.  The user may write to live objects.
\<close>

locale object_cache =
  fixes inv :: "'c \<Rightarrow> 'a heap \<Rightarrow> bool"
    and zero :: 'a
    and acquire :: "'c \<Rightarrow> 'a heap \<Rightarrow> (addr \<times> 'c \<times> 'a heap) option"
    and release :: "addr \<Rightarrow> 'c \<Rightarrow> 'a heap \<Rightarrow> 'c \<times> 'a heap"
  assumes acquire_total: "inv c h \<Longrightarrow> \<exists>a c' h'. acquire c h = Some (a, c', h')"
    and acquire_inv: "inv c h \<Longrightarrow> acquire c h = Some (a, c', h') \<Longrightarrow> inv c' h'"
    and acquire_null: "inv c h \<Longrightarrow> acquire c h = Some (0, c', h') \<Longrightarrow> live h' = live h"
    and acquire_fresh: "inv c h \<Longrightarrow> acquire c h = Some (a, c', h') \<Longrightarrow> a \<noteq> 0 \<Longrightarrow> live h a = None"
    and acquire_live: "inv c h \<Longrightarrow> acquire c h = Some (a, c', h') \<Longrightarrow> a \<noteq> 0 \<Longrightarrow> live h' = (live h)(a \<mapsto> zero)"
    and release_inv: "inv c h \<Longrightarrow> live h a \<noteq> None \<Longrightarrow> release a c h = (c', h') \<Longrightarrow> inv c' h'"
    and release_live: "inv c h \<Longrightarrow> live h a \<noteq> None \<Longrightarrow> release a c h = (c', h') \<Longrightarrow> live h' = (live h)(a := None)"
    and write_inv: "inv c h \<Longrightarrow> live h a \<noteq> None \<Longrightarrow> inv c (h(a \<mapsto> Object x))"
    and null_dead: "inv c h \<Longrightarrow> live h 0 = None"

text \<open>The cache of \<^verbatim>\<open>utcache.c\<close> with a mutex that does not fail.\<close>

definition cache_acquire ::
  "('a heap \<Rightarrow> addr) \<Rightarrow> 'a \<Rightarrow> memory_list \<Rightarrow> 'a heap \<Rightarrow> (addr \<times> memory_list \<times> 'a heap) option" where
  "cache_acquire pick zero c h =
     (case AcpiOsAcquireObject pick zero AE_OK AE_OK (Some c) h of
        Some (a, Some c', h') \<Rightarrow> Some (a, c', h') | _ \<Rightarrow> None)"

definition cache_release :: "addr \<Rightarrow> memory_list \<Rightarrow> 'a heap \<Rightarrow> memory_list \<times> 'a heap" where
  "cache_release a c h =
     (case AcpiOsReleaseObject AE_OK (Some c) a h of (_, Some c', h') \<Rightarrow> (c', h') | _ \<Rightarrow> (c, h))"

lemma cache_acquire_cases:
  assumes "cache_inv c h"
  shows "\<exists>a c' h'. cache_acquire pick zero c h = Some (a, c', h') \<and> cache_inv c' h'
    \<and> (a = 0 \<longrightarrow> live h' = live h) \<and> (a \<noteq> 0 \<longrightarrow> live h a = None \<and> live h' = (live h)(a \<mapsto> zero))"
proof -
  obtain a c' h' where a: "AcpiOsAcquireObject pick zero AE_OK AE_OK (Some c) h = Some (a, Some c', h')"
    and *: "cache_inv c' h'" "a = 0 \<longrightarrow> live h' = live h" "a \<noteq> 0 \<longrightarrow> live h a = None \<and> live h' = (live h)(a \<mapsto> zero)"
    using acquire_object [OF assms, of pick zero AE_OK AE_OK] by blast
  from a have "cache_acquire pick zero c h = Some (a, c', h')" by (simp add: cache_acquire_def)
  with * show ?thesis by blast
qed

lemma cache_release_cases:
  assumes "cache_inv c h" and "live h a \<noteq> None"
  shows "\<exists>c' h'. cache_release a c h = (c', h') \<and> cache_inv c' h' \<and> live h' = (live h)(a := None)"
proof -
  obtain st c' h' where a: "AcpiOsReleaseObject AE_OK (Some c) a h = (st, Some c', h')"
    and *: "cache_inv c' h'" "if ACPI_FAILURE st then st = AE_OK \<and> h' = h \<and> c' = c else st = AE_OK \<and> live h' = (live h)(a := None)"
    using release_object [OF assms, of AE_OK] by blast
  from a have "cache_release a c h = (c', h')" by (simp add: cache_release_def)
  moreover have "live h' = (live h)(a := None)" using *(2) by (metis ACPI_FAILURE_def)
  ultimately show ?thesis using *(1) by blast
qed

lemma cache_write:
  assumes "cache_inv c h" and "live h a \<noteq> None"
  shows "cache_inv c (h(a \<mapsto> Object x))"
proof -
  obtain as where as: "chain h (ListHead c) as" "distinct as" "length as = unat (CurrentDepth c)" "h 0 = None"
      "length as \<le> unat (MaxDepth c)"
    using assms(1) by (auto simp: cache_inv_def)
  moreover have "a \<notin> set as" "a \<noteq> 0" using chain_not_live [OF as(1) assms(2)] assms(2) as(4) by (auto simp: live_def)
  ultimately show ?thesis by (auto simp: cache_inv_def intro!: exI [of _ as])
qed

interpretation state_cache: object_cache cache_inv zero "cache_acquire pick zero" cache_release for pick zero
proof
  fix c :: memory_list and h :: "'a heap" and a c' h'
  assume inv: "cache_inv c h"
  show "\<exists>a c' h'. cache_acquire pick zero c h = Some (a, c', h')" using cache_acquire_cases [OF inv] by blast
  show "live h 0 = None" using inv by (simp add: cache_inv_def live_def)
  show "cache_inv c' h'" if "cache_acquire pick zero c h = Some (a, c', h')"
    using cache_acquire_cases [OF inv, of pick zero] that by auto
  show "live h' = live h" if "cache_acquire pick zero c h = Some (0, c', h')"
    using cache_acquire_cases [OF inv, of pick zero] that by auto
  show "live h a = None" "live h' = (live h)(a \<mapsto> zero)" if "cache_acquire pick zero c h = Some (a, c', h')" "a \<noteq> 0"
    using cache_acquire_cases [OF inv, of pick zero] that by auto
  show "cache_inv c' h'" "live h' = (live h)(a := None)" if "live h a \<noteq> None" "cache_release a c h = (c', h')"
    using cache_release_cases [OF inv that(1)] that(2) by auto
  show "cache_inv c (h(a \<mapsto> Object x))" if "live h a \<noteq> None" for x
    using cache_write [OF inv that] .
qed

section \<open>Clients of a cache\<close>

text \<open>
  A call of a client: an acquisition, with the address the host would hand out and the results of
  the two mutex calls; a release of the object the client holds at a position; a write to such an
  object; a purge. The client keeps the objects it holds, with what it last knew of their contents:
  an acquired object is cleared. A release that reports a failure leaves the object with the client.
  \<open>None\<close> only if one of the routines reads a link that is none.
\<close>

datatype 'a cache_call =
  Acquire addr acpi_status acpi_status
| Release nat acpi_status
| Write nat 'a
| Purge acpi_status

fun remove_nth :: "nat \<Rightarrow> 'b list \<Rightarrow> 'b list" where
  "remove_nth n [] = []"
| "remove_nth 0 (x # xs) = xs"
| "remove_nth (Suc n) (x # xs) = x # remove_nth n xs"

definition cache_step :: "'a \<Rightarrow> 'a cache_call \<Rightarrow> (addr \<times> 'a) list \<times> memory_list option \<times> 'a heap \<Rightarrow>
    ((addr \<times> 'a) list \<times> memory_list option \<times> 'a heap) option" where
  "cache_step zero call s =
     (let (held, Cache, h) = s
      in case call of
           Acquire proposed acquire release \<Rightarrow>
             (case AcpiOsAcquireObject (\<lambda>_. proposed) zero acquire release Cache h of
                None \<Rightarrow> None
              | Some (Obj, Cache, h) \<Rightarrow> Some (if Obj = 0 then held else (Obj, zero) # held, Cache, h))
         | Release n acquire \<Rightarrow>
             if n < length held
             then (case AcpiOsReleaseObject acquire Cache (fst (held ! n)) h of
                     (Status, Cache, h) \<Rightarrow> Some (if ACPI_FAILURE Status then held else remove_nth n held, Cache, h))
             else Some s
         | Write n x \<Rightarrow>
             Some (if n < length held then (held[n := (fst (held ! n), x)], Cache, h(fst (held ! n) \<mapsto> Object x)) else s)
         | Purge acquire \<Rightarrow>
             (case AcpiOsPurgeCache acquire Cache h of None \<Rightarrow> None | Some (_, Cache, h) \<Rightarrow> Some (held, Cache, h)))"

fun cache_run :: "'a \<Rightarrow> 'a cache_call list \<Rightarrow> (addr \<times> 'a) list \<times> memory_list option \<times> 'a heap \<Rightarrow>
    ((addr \<times> 'a) list \<times> memory_list option \<times> 'a heap) option" where
  "cache_run zero [] s = Some s"
| "cache_run zero (call # calls) s = (case cache_step zero call s of None \<Rightarrow> None | Some s \<Rightarrow> cache_run zero calls s)"

text \<open>
  What holds after any calls, relative to the objects \<open>l0\<close> that were live before: the client holds
  every object once, none of them was live before, and the live objects are those of before and those held,
  with the contents that the client knows.
\<close>

definition holds :: "(addr \<rightharpoonup> 'a) \<Rightarrow> (addr \<times> 'a) list \<times> memory_list option \<times> 'a heap \<Rightarrow> bool" where
  "holds l0 s \<longleftrightarrow> (\<exists>held c h. s = (held, Some c, h) \<and> cache_inv c h \<and> distinct (map fst held)
     \<and> (\<forall>a \<in> set (map fst held). a \<noteq> 0 \<and> l0 a = None) \<and> live h = l0 ++ map_of held)"

lemma map_remove_nth: "map f (remove_nth n xs) = remove_nth n (map f xs)"
  by (induction n xs rule: remove_nth.induct) auto

lemma remove_nth_member: "x \<in> set (remove_nth n xs) \<Longrightarrow> x \<in> set xs"
  by (induction n xs rule: remove_nth.induct) auto

lemma map_of_remove_nth:
  "n < length xs \<Longrightarrow> distinct (map fst xs) \<Longrightarrow>
     distinct (map fst (remove_nth n xs)) \<and> map_of (remove_nth n xs) = (map_of xs)(fst (xs ! n) := None)"
proof (induction n xs rule: remove_nth.induct)
  case (2 x xs)
  then show ?case by (cases x) (auto simp: fun_eq_iff map_of_eq_None_iff)
next
  case (3 n x xs)
  then have "fst x \<noteq> fst (xs ! n)" by auto
  with 3 show ?case
    by (cases x) (auto simp: fun_upd_twist dest!: remove_nth_member)
qed simp

lemma map_of_write:
  "n < length xs \<Longrightarrow> distinct (map fst xs) \<Longrightarrow>
     map fst (xs[n := (fst (xs ! n), x)]) = map fst xs \<and> map_of (xs[n := (fst (xs ! n), x)]) = (map_of xs)(fst (xs ! n) \<mapsto> x)"
proof (induction xs arbitrary: n)
  case (Cons y ys)
  show ?case
  proof (cases n)
    case (Suc m)
    then have "fst y \<noteq> fst (ys ! m)" using Cons.prems by auto
    with Suc Cons show ?thesis by (cases y) (auto simp: fun_upd_twist)
  qed (cases y, auto simp: fun_eq_iff)
qed simp

lemma holds_live: "holds l0 (held, Some c, h) \<Longrightarrow> n < length held \<Longrightarrow> live h (fst (held ! n)) \<noteq> None"
  unfolding holds_def map_add_None map_of_eq_None_iff by (auto simp: map_of_eq_None_iff simp del: not_None_eq)

lemma map_add_upd_left: "l0 a = None \<Longrightarrow> (l0 ++ m)(a := v) = l0 ++ (m(a := v))"
  by (cases v) (auto simp: map_add_def fun_eq_iff)

lemma cache_step_holds:
  assumes "holds l0 s"
  shows "\<exists>s'. cache_step zero call s = Some s' \<and> holds l0 s'"
proof -
  obtain held c h where s: "s = (held, Some c, h)" and inv: "cache_inv c h" and d: "distinct (map fst held)"
    and f: "\<forall>a \<in> set (map fst held). a \<noteq> 0 \<and> l0 a = None" and l: "live h = l0 ++ map_of held"
    using assms unfolding holds_def by blast
  have member: "fst (held ! n) \<in> set (map fst held)" if "n < length held" for n using that by auto
  show ?thesis
  proof (cases call)
    case (Acquire proposed acquire release)
    obtain a c' h' where a: "AcpiOsAcquireObject (\<lambda>_. proposed) zero acquire release (Some c) h = Some (a, Some c', h')"
      and *: "cache_inv c' h'" "a = 0 \<longrightarrow> live h' = live h" "a \<noteq> 0 \<longrightarrow> live h a = None \<and> live h' = (live h)(a \<mapsto> zero)"
      using acquire_object [OF inv, of "\<lambda>_. proposed" zero acquire release] by blast
    have "holds l0 (if a = 0 then held else (a, zero) # held, Some c', h')"
    proof (cases "a = 0")
      case False
      then have "l0 a = None" "a \<notin> fst ` set held" using *(3) l by (auto simp: map_of_eq_None_iff)
      with False show ?thesis using * d f l by (simp add: holds_def)
    qed (use * d f l in \<open>simp add: holds_def\<close>)
    then show ?thesis using a s Acquire by (simp add: cache_step_def)
  next
    case (Release n acquire)
    show ?thesis
    proof (cases "n < length held")
      case True
      obtain st c' h' where r: "AcpiOsReleaseObject acquire (Some c) (fst (held ! n)) h = (st, Some c', h')" "cache_inv c' h'"
        "if ACPI_FAILURE st then st = acquire \<and> h' = h \<and> c' = c else st = AE_OK \<and> live h' = (live h)(fst (held ! n) := None)"
        using release_object [OF inv holds_live [OF assms [unfolded s] True], of acquire] by blast
      have "holds l0 (if ACPI_FAILURE st then held else remove_nth n held, Some c', h')"
      proof (cases "ACPI_FAILURE st")
        case False
        have "\<forall>a \<in> set (map fst (remove_nth n held)). a \<noteq> 0 \<and> l0 a = None" using f by (auto dest!: remove_nth_member)
        with False r(2,3) l map_of_remove_nth [OF True d] f member [OF True] show ?thesis
          unfolding holds_def by (simp add: map_add_upd_left del: set_map)
      qed (use r(2,3) d f l in \<open>simp add: holds_def\<close>)
      then show ?thesis using r(1) s Release True by (simp add: cache_step_def)
    qed (use assms s Release in \<open>simp add: cache_step_def\<close>)
  next
    case (Write n x)
    show ?thesis
    proof (cases "n < length held")
      case True
      then have "holds l0 (held[n := (fst (held ! n), x)], Some c, h(fst (held ! n) \<mapsto> Object x))"
        using d f l map_of_write [OF True d, of x] member [OF True] cache_write [OF inv holds_live [OF assms [unfolded s] True]]
        unfolding holds_def by (simp add: map_add_upd_left del: map_add_upd set_map)
      then show ?thesis using s Write True by (simp add: cache_step_def)
    qed (use assms s Write in \<open>simp add: cache_step_def\<close>)
  next
    case (Purge acquire)
    obtain h' where p: "purge_loop c h = Some (c\<lparr>ListHead := 0, CurrentDepth := 0\<rparr>, h')" "live h' = live h"
        "cache_inv (c\<lparr>ListHead := 0, CurrentDepth := 0\<rparr>) h'"
      using purge_cache [OF inv] by blast
    then have "holds l0 (held, Some (c\<lparr>ListHead := 0, CurrentDepth := 0\<rparr>), h')" using d f l by (simp add: holds_def)
    then show ?thesis using p(1) s Purge assms by (simp add: cache_step_def AcpiOsPurgeCache_def)
  qed
qed

lemma cache_run_holds: "holds l0 s \<Longrightarrow> \<exists>s'. cache_run zero calls s = Some s' \<and> holds l0 s'"
proof (induction calls arbitrary: s)
  case (Cons call calls)
  then obtain s' where "cache_step zero call s = Some s'" "holds l0 s'" using cache_step_holds [of l0 s zero call] by blast
  with Cons.IH show ?case by simp
qed simp

section \<open>Properties\<close>

text \<open>
  C15. A cache keeps its objects apart, for every sequence of acquisitions, releases, writes
  to held objects and purges from a cache that \<open>AcpiOsCreateCache\<close> made, with any
  results of the mutex and any proposals of the host's allocator: no call reads a link that is none;
  all objects that the client holds are different from each other and from the objects that were live before; every
  held object has the contents that the client last wrote, or zeros since it was acquired; the
  objects of others are as before and nothing else is live; the list of free objects is
  well-formed, its depth counted correctly and within the limit. Deleting the cache at the end frees the free
  objects and none that is held.
\<close>

theorem cache_objects_disjoint:
  assumes "AcpiOsCreateCache True Size Depth True True = (AE_OK, Some c)" and "h 0 = None"
  shows "\<exists>held c' h'. cache_run zero calls ([], Some c, h) = Some (held, Some c', h') \<and> cache_inv c' h'
    \<and> distinct (map fst held) \<and> (\<forall>(a, x) \<in> set held. a \<noteq> 0 \<and> live h a = None \<and> live h' a = Some x)
    \<and> (\<forall>a. a \<notin> set (map fst held) \<longrightarrow> live h' a = live h a)
    \<and> (\<exists>h''. AcpiOsDeleteCache AE_OK (Some c') h' = Some (AE_OK, None, h'') \<and> live h'' = live h')"
proof -
  have "cache_inv c h" using assms by (auto simp: AcpiOsCreateCache_def cache_inv_def intro: exI [of _ "[]"] split: if_splits)
  then have "holds (live h) ([], Some c, h)" by (simp add: holds_def)
  then obtain s where s: "cache_run zero calls ([], Some c, h) = Some s" "holds (live h) s"
    using cache_run_holds [of "live h" _ zero calls] by blast
  then obtain held c' h' where r: "s = (held, Some c', h')" "cache_inv c' h'" "distinct (map fst held)"
    "\<forall>a \<in> set (map fst held). a \<noteq> 0 \<and> live h a = None" "live h' = live h ++ map_of held"
    unfolding holds_def by blast
  have "\<forall>(a, x) \<in> set held. a \<noteq> 0 \<and> live h a = None \<and> live h' a = Some x"
    using r(3-5) by (force simp: map_add_find_right)
  moreover have "live h' a = live h a" if "a \<notin> set (map fst held)" for a
    using r(5) that map_of_eq_None_iff [of held a] by (simp add: map_add_def)
  moreover have "\<exists>h''. AcpiOsDeleteCache AE_OK (Some c') h' = Some (AE_OK, None, h'') \<and> live h'' = live h'"
    using purge_cache [OF r(2)] by (auto simp: AcpiOsDeleteCache_def AcpiOsPurgeCache_def)
  ultimately show ?thesis using s(1) r(1-3) by blast
qed

text \<open>Two objects are taken and written, the first is released and taken again by a third acquisition.\<close>

theorem cache_objects_disjoint_witness:
  "\<exists>held c' h'. cache_run (0 :: nat) [Acquire 0x1000 AE_OK AE_OK, Acquire 0x2000 AE_OK AE_OK, Write 0 5, Write 1 6,
       Release 1 AE_OK, Acquire 0x3000 AE_OK AE_OK]
       ([], Some \<lparr>ListHead = 0, ObjectSize = 64, MaxDepth = 4, CurrentDepth = 0\<rparr>, Map.empty) = Some (held, Some c', h')
     \<and> held = [(0x1000, 0), (0x2000, 5)] \<and> distinct (map fst held) \<and> live h' 0x2000 = Some 5"
proof -
  let ?c = "\<lparr>ListHead = 0, ObjectSize = 64, MaxDepth = 4, CurrentDepth = 0\<rparr>"
  let ?calls = "[Acquire 0x1000 AE_OK AE_OK, Acquire 0x2000 AE_OK AE_OK, Write 0 5, Write 1 6, Release 1 AE_OK, Acquire 0x3000 AE_OK AE_OK]"
  have "AcpiOsCreateCache True 64 4 True True = (AE_OK, Some ?c)" by (simp add: AcpiOsCreateCache_def)
  from cache_objects_disjoint [OF this refl, of "0 :: nat" ?calls]
  obtain held c' h' where r: "cache_run (0 :: nat) ?calls ([], Some ?c, Map.empty) = Some (held, Some c', h')"
    "distinct (map fst held)" "\<forall>(a, x) \<in> set held. a \<noteq> 0 \<and> live (Map.empty :: nat heap) a = None \<and> live h' a = Some x"
    by (elim exE conjE) (rule that)
  moreover have "held = [(0x1000, 0), (0x2000, 5)]"
    using r(1) by (simp add: cache_step_def AcpiOsAcquireObject_def AcpiOsReleaseObject_def AcpiOsAllocate_def
        descriptor_ptr_def Let_def)
  ultimately show ?thesis by (intro exI [of _ held] exI [of _ c'] exI [of _ h']) auto
qed

end
