(* ===== verification/GenericState.thy ===== *)
theory GenericState
  imports Cache
begin

text \<open>
  Generic state objects and the stacks made of them, \<^verbatim>\<open>utstate.c\<close>. The union
  \<open>ACPI_GENERIC_STATE\<close> is a record with the members of all its views that the modelled code uses;
  each state object is used through one view only. The objects live in a heap of cells
  (theory Cache); a pointer is an address, and reading or writing a member of an object that is not
  live is \<open>None\<close>. The object cache \<open>AcpiGbl_StateCache\<close> is the pair of functions \<open>acq\<close> and \<open>rel\<close>, which
  stand for \<open>AcpiOsAcquireObject\<close> and \<open>AcpiOsReleaseObject\<close>, and its state \<open>c\<close>.
\<close>

record generic_state =
  Next :: addr
  DescriptorType :: u8
  Value :: u16
  State :: u16
  \<comment> \<open>\<open>ACPI_RESULT_VALUES\<close>\<close>
  ObjDesc :: "addr list"
  \<comment> \<open>\<open>ACPI_UPDATE_STATE\<close>\<close>
  Update_Object :: addr
  \<comment> \<open>\<open>ACPI_PKG_STATE\<close>\<close>
  SourceObject :: addr
  DestObject :: addr
  Index :: u32
  NumPackages :: u32
  \<comment> \<open>\<open>ACPI_SCOPE_STATE\<close>\<close>
  Node :: addr
  \<comment> \<open>\<open>ACPI_PSCOPE_STATE\<close>\<close>
  ArgCount :: u32
  Op :: addr
  ArgEnd :: addr
  PkgEnd :: addr
  ArgList :: u32
  \<comment> \<open>\<open>ACPI_THREAD_STATE\<close>\<close>
  ThreadId :: u64

definition ACPI_RESULTS_FRAME_OBJ_NUM :: nat where
  "ACPI_RESULTS_FRAME_OBJ_NUM = 8"

text \<open>A cleared object.\<close>

definition zero_state :: generic_state where
  "zero_state = \<lparr>Next = 0, DescriptorType = 0, Value = 0, State = 0,
     ObjDesc = replicate ACPI_RESULTS_FRAME_OBJ_NUM 0, Update_Object = 0, SourceObject = 0, DestObject = 0,
     Index = 0, NumPackages = 0, Node = 0, ArgCount = 0, Op = 0, ArgEnd = 0, PkgEnd = 0, ArgList = 0, ThreadId = 0\<rparr>"

definition ACPI_DESC_TYPE_STATE :: u8 where "ACPI_DESC_TYPE_STATE = 0x02"
definition ACPI_DESC_TYPE_STATE_UPDATE :: u8 where "ACPI_DESC_TYPE_STATE_UPDATE = 0x03"
definition ACPI_DESC_TYPE_STATE_PACKAGE :: u8 where "ACPI_DESC_TYPE_STATE_PACKAGE = 0x04"
definition ACPI_DESC_TYPE_STATE_CONTROL :: u8 where "ACPI_DESC_TYPE_STATE_CONTROL = 0x05"
definition ACPI_DESC_TYPE_STATE_RPSCOPE :: u8 where "ACPI_DESC_TYPE_STATE_RPSCOPE = 0x06"
definition ACPI_DESC_TYPE_STATE_PSCOPE :: u8 where "ACPI_DESC_TYPE_STATE_PSCOPE = 0x07"
definition ACPI_DESC_TYPE_STATE_WSCOPE :: u8 where "ACPI_DESC_TYPE_STATE_WSCOPE = 0x08"
definition ACPI_DESC_TYPE_STATE_RESULT :: u8 where "ACPI_DESC_TYPE_STATE_RESULT = 0x09"
definition ACPI_DESC_TYPE_STATE_THREAD :: u8 where "ACPI_DESC_TYPE_STATE_THREAD = 0x0B"
definition ACPI_CONTROL_CONDITIONAL_EXECUTING :: u16 where "ACPI_CONTROL_CONDITIONAL_EXECUTING = 0xC1"

type_synonym sheap = "generic_state heap"
type_synonym 'c acquire = "'c \<Rightarrow> sheap \<Rightarrow> (addr \<times> 'c \<times> sheap) option"
type_synonym 'c release = "addr \<Rightarrow> 'c \<Rightarrow> sheap \<Rightarrow> 'c \<times> sheap"

text \<open>Writing members of the object at an address.\<close>

definition modify :: "addr \<Rightarrow> (generic_state \<Rightarrow> generic_state) \<Rightarrow> sheap \<Rightarrow> sheap option" where
  "modify a f h = (case live h a of Some s \<Rightarrow> Some (h(a \<mapsto> Object (f s))) | None \<Rightarrow> None)"

section \<open>Operations\<close>

text \<open>The heap and the new value of \<open>*ListHead\<close>.\<close>

definition AcpiUtPushGenericState :: "addr \<Rightarrow> addr \<Rightarrow> sheap \<Rightarrow> (sheap \<times> addr) option" where
  "AcpiUtPushGenericState Head St h =
     (case modify St (\<lambda>s. s\<lparr>Next := Head\<rparr>) h of
        Some h' \<Rightarrow> Some (h', St) | None \<Rightarrow> None)"

text \<open>The popped state and the new value of \<open>*ListHead\<close>.\<close>

definition AcpiUtPopGenericState :: "addr \<Rightarrow> sheap \<Rightarrow> (addr \<times> addr) option" where
  "AcpiUtPopGenericState Head h =
     (if Head \<noteq> 0
      then case live h Head of Some s \<Rightarrow> Some (Head, Next s) | None \<Rightarrow> None
      else Some (Head, Head))"

text \<open>The creation of a state with given members; 0 if there is no memory.\<close>

definition create_with ::
  "'c acquire \<Rightarrow> (generic_state \<Rightarrow> generic_state) \<Rightarrow> 'c \<Rightarrow> sheap \<Rightarrow> (addr \<times> 'c \<times> sheap) option" where
  "create_with acq init c h =
     (case acq c h of
        None \<Rightarrow> None
      | Some (St, c, h) \<Rightarrow>
          if St \<noteq> 0 then (case modify St init h of Some h' \<Rightarrow> Some (St, c, h') | None \<Rightarrow> None)
          else Some (0, c, h))"

definition AcpiUtCreateGenericState :: "'c acquire \<Rightarrow> 'c \<Rightarrow> sheap \<Rightarrow> (addr \<times> 'c \<times> sheap) option" where
  "AcpiUtCreateGenericState acq = create_with acq (\<lambda>s. s\<lparr>DescriptorType := ACPI_DESC_TYPE_STATE\<rparr>)"

definition AcpiUtCreateThreadState :: "'c acquire \<Rightarrow> u64 \<Rightarrow> 'c \<Rightarrow> sheap \<Rightarrow> (addr \<times> 'c \<times> sheap) option" where
  "AcpiUtCreateThreadState acq os_thread_id =
     create_with (AcpiUtCreateGenericState acq)
       (\<lambda>s. s\<lparr>DescriptorType := ACPI_DESC_TYPE_STATE_THREAD,
              ThreadId := (if os_thread_id = 0 then 1 else os_thread_id)\<rparr>)"

definition AcpiUtCreateUpdateState ::
  "'c acquire \<Rightarrow> addr \<Rightarrow> u16 \<Rightarrow> 'c \<Rightarrow> sheap \<Rightarrow> (addr \<times> 'c \<times> sheap) option" where
  "AcpiUtCreateUpdateState acq Obj Action =
     create_with (AcpiUtCreateGenericState acq)
       (\<lambda>s. s\<lparr>DescriptorType := ACPI_DESC_TYPE_STATE_UPDATE, Update_Object := Obj, Value := Action\<rparr>)"

definition AcpiUtCreatePkgState ::
  "'c acquire \<Rightarrow> addr \<Rightarrow> addr \<Rightarrow> u32 \<Rightarrow> 'c \<Rightarrow> sheap \<Rightarrow> (addr \<times> 'c \<times> sheap) option" where
  "AcpiUtCreatePkgState acq InternalObject ExternalObject i =
     create_with (AcpiUtCreateGenericState acq)
       (\<lambda>s. s\<lparr>DescriptorType := ACPI_DESC_TYPE_STATE_PACKAGE, SourceObject := InternalObject,
              DestObject := ExternalObject, Index := i, NumPackages := 1\<rparr>)"

definition AcpiUtCreateControlState :: "'c acquire \<Rightarrow> 'c \<Rightarrow> sheap \<Rightarrow> (addr \<times> 'c \<times> sheap) option" where
  "AcpiUtCreateControlState acq =
     create_with (AcpiUtCreateGenericState acq)
       (\<lambda>s. s\<lparr>DescriptorType := ACPI_DESC_TYPE_STATE_CONTROL, State := ACPI_CONTROL_CONDITIONAL_EXECUTING\<rparr>)"

definition AcpiUtDeleteGenericState :: "'c release \<Rightarrow> addr \<Rightarrow> 'c \<Rightarrow> sheap \<Rightarrow> 'c \<times> sheap" where
  "AcpiUtDeleteGenericState rel St c h = (if St \<noteq> 0 then rel St c h else (c, h))"

section \<open>Stacks of states\<close>

text \<open>The states on a stack with the given head, from the top down.\<close>

abbreviation slist :: "sheap \<Rightarrow> addr \<Rightarrow> addr list \<Rightarrow> bool" where
  "slist \<equiv> linked Next"

lemmas slist_cong = linked_cong [where nx = Next]
lemmas slist_other = linked_other [where nx = Next]
lemmas slist_deleted = linked_deleted [where nx = Next]
lemmas slist_live = linked_live [where nx = Next]
lemmas slist_empty = linked_empty [where nx = Next]
lemmas slist_head = linked_head [where nx = Next]

lemma modify_live: "live h a = Some s \<Longrightarrow> modify a f h = Some (h(a \<mapsto> Object (f s)))"
  by (simp add: modify_def)

text \<open>
  The objects that state cache and stacks are made of: a cache of cleared states. What a user of
  the cache finds after each operation is stated in terms of the live objects only.
\<close>

locale state_pool = object_cache inv zero_state acquire release
  for inv :: "'c \<Rightarrow> sheap \<Rightarrow> bool" and acquire :: "'c acquire" and release :: "'c release"
begin

lemma create_with_acquire:
  assumes "inv c h"
  shows "\<exists>a c' h'. create_with acquire f c h = Some (a, c', h') \<and> inv c' h'
    \<and> (a = 0 \<longrightarrow> live h' = live h) \<and> (a \<noteq> 0 \<longrightarrow> live h a = None \<and> live h' = (live h)(a \<mapsto> f zero_state))"
proof -
  obtain a c' h' where a: "acquire c h = Some (a, c', h')" using acquire_total [OF assms] by blast
  show ?thesis
  proof (cases "a = 0")
    case True
    then show ?thesis
      using a acquire_inv [OF assms a] acquire_null [OF assms] by (auto simp: create_with_def)
  next
    case False
    have l: "live h' = (live h)(a \<mapsto> zero_state)" using acquire_live [OF assms a False] .
    then have "modify a f h' = Some (h'(a \<mapsto> Object (f zero_state)))" by (simp add: modify_live)
    moreover have "inv c' (h'(a \<mapsto> Object (f zero_state)))"
      using write_inv [OF acquire_inv [OF assms a]] l by simp
    moreover have "live (h'(a \<mapsto> Object (f zero_state))) = (live h)(a \<mapsto> f zero_state)"
      unfolding live_update l by simp
    ultimately show ?thesis using a False acquire_fresh [OF assms a False] by (simp add: create_with_def)
  qed
qed

text \<open>A state created with further members, as all callers of \<open>AcpiUtCreateGenericState\<close> do.\<close>

lemma create_with_state:
  assumes "inv c h"
  shows "\<exists>a c' h'. create_with (AcpiUtCreateGenericState acquire) f c h = Some (a, c', h') \<and> inv c' h'
    \<and> (a = 0 \<longrightarrow> live h' = live h)
    \<and> (a \<noteq> 0 \<longrightarrow> live h a = None \<and> live h' = (live h)(a \<mapsto> f (zero_state\<lparr>DescriptorType := ACPI_DESC_TYPE_STATE\<rparr>)))"
proof -
  let ?z = "zero_state\<lparr>DescriptorType := ACPI_DESC_TYPE_STATE\<rparr>"
  obtain a c' h' where a: "AcpiUtCreateGenericState acquire c h = Some (a, c', h')" and inv: "inv c' h'"
      and null: "a = 0 \<longrightarrow> live h' = live h" and new: "a \<noteq> 0 \<longrightarrow> live h a = None \<and> live h' = (live h)(a \<mapsto> ?z)"
    using create_with_acquire [OF assms] unfolding AcpiUtCreateGenericState_def by blast
  show ?thesis
  proof (cases "a = 0")
    case True
    then show ?thesis using a inv null by (auto simp: create_with_def)
  next
    case False
    with new have l: "live h' = (live h)(a \<mapsto> ?z)" "live h a = None" by simp_all
    then have "modify a f h' = Some (h'(a \<mapsto> Object (f ?z)))" by (simp add: modify_live)
    moreover have "inv c' (h'(a \<mapsto> Object (f ?z)))" using write_inv [OF inv] l(1) by simp
    moreover have "live (h'(a \<mapsto> Object (f ?z))) = (live h)(a \<mapsto> f ?z)" unfolding live_update l(1) by simp
    ultimately show ?thesis using a False l(2) by (simp add: create_with_def)
  qed
qed

lemma delete_state:
  assumes "inv c h" and "live h a \<noteq> None"
  shows "\<exists>c' h'. AcpiUtDeleteGenericState release a c h = (c', h') \<and> inv c' h' \<and> live h' = (live h)(a := None)"
proof -
  have "a \<noteq> 0" using null_dead [OF assms(1)] assms(2) by auto
  obtain c' h' where r: "release a c h = (c', h')" by force
  show ?thesis
    using release_inv [OF assms r] release_live [OF assms r] r \<open>a \<noteq> 0\<close> by (simp add: AcpiUtDeleteGenericState_def)
qed

lemma push_state:
  assumes "inv c h" and "live h a = Some s" and "slist h p as" and "a \<notin> set as"
  shows "\<exists>h'. AcpiUtPushGenericState p a h = Some (h', a) \<and> inv c h'
    \<and> live h' = (live h)(a \<mapsto> s\<lparr>Next := p\<rparr>) \<and> slist h' a (a # as)"
proof -
  let ?h = "h(a \<mapsto> Object (s\<lparr>Next := p\<rparr>))"
  have "a \<noteq> 0" using null_dead [OF assms(1)] assms(2) by auto
  have l: "live ?h = (live h)(a \<mapsto> s\<lparr>Next := p\<rparr>)" by (rule live_update)
  have "slist ?h p as \<longleftrightarrow> slist h p as" unfolding l [symmetric] using assms(4) l by (intro slist_cong) auto
  moreover have "inv c ?h" using write_inv [OF assms(1)] assms(2) by simp
  ultimately show ?thesis
    using assms(2,3) l \<open>a \<noteq> 0\<close> by (simp add: AcpiUtPushGenericState_def modify_live)
qed

end

lemma pop_state:
  "slist h p (a # as) \<Longrightarrow> \<exists>s. live h a = Some s \<and> AcpiUtPopGenericState p h = Some (a, Next s) \<and> slist h (Next s) as"
  by (auto simp: AcpiUtPopGenericState_def)

interpretation acpi_state: state_pool cache_inv "cache_acquire pick zero_state" cache_release for pick
  by unfold_locales

end
