(* ===== verification/ResultStack.thy ===== *)
theory ResultStack
  imports GenericState
begin

text \<open>
  The stacks of the AML interpreter's walk state, \<^verbatim>\<open>dswstate.c\<close>: the stack of intermediate results,
  made of frames of eight object pointers that are linked generic states, and the operand stack. An
  operand object is its address; the objects that \<open>AcpiDsObjStackPopAndDelete\<close> drops a reference to are returned
  as a list. An index outside of \<open>Operands\<close> is \<open>None\<close>.
\<close>

record walk_state =
  Results :: addr
  ResultSize :: u8
  ResultCount :: u8
  Operands :: "addr list"
  NumOperands :: u8
  OperandIndex :: u8

definition ACPI_RESULTS_OBJ_NUM_MAX :: nat where "ACPI_RESULTS_OBJ_NUM_MAX = 255"
definition ACPI_OBJ_NUM_OPERANDS :: u8 where "ACPI_OBJ_NUM_OPERANDS = 8"

section \<open>The result stack\<close>

definition AcpiDsResultStackPush ::
  "'c acquire \<Rightarrow> walk_state \<Rightarrow> 'c \<Rightarrow> sheap \<Rightarrow> (acpi_status \<times> walk_state \<times> 'c \<times> sheap) option" where
  "AcpiDsResultStackPush acq ws c h =
     (if unat (ResultSize ws) + ACPI_RESULTS_FRAME_OBJ_NUM > ACPI_RESULTS_OBJ_NUM_MAX
      then Some (AE_STACK_OVERFLOW, ws, c, h)
      else case create_with (AcpiUtCreateGenericState acq)
                  (\<lambda>s. s\<lparr>DescriptorType := ACPI_DESC_TYPE_STATE_RESULT\<rparr>) c h of
             None \<Rightarrow> None
           | Some (St, c, h) \<Rightarrow>
               if St = 0 then Some (AE_NO_MEMORY, ws, c, h)
               else case AcpiUtPushGenericState (Results ws) St h of
                      None \<Rightarrow> None
                    | Some (h, head) \<Rightarrow>
                        Some (AE_OK, ws\<lparr>Results := head,
                                        ResultSize := ResultSize ws + of_nat ACPI_RESULTS_FRAME_OBJ_NUM\<rparr>, c, h))"

definition AcpiDsResultStackPop ::
  "'c release \<Rightarrow> walk_state \<Rightarrow> 'c \<Rightarrow> sheap \<Rightarrow> (acpi_status \<times> walk_state \<times> 'c \<times> sheap) option" where
  "AcpiDsResultStackPop rel ws c h =
     (if Results ws = 0 then Some (AE_AML_NO_OPERAND, ws, c, h)
      else if unat (ResultSize ws) < ACPI_RESULTS_FRAME_OBJ_NUM then Some (AE_AML_INTERNAL, ws, c, h)
      else case AcpiUtPopGenericState (Results ws) h of
             None \<Rightarrow> None
           | Some (St, head) \<Rightarrow>
               let (c, h) = AcpiUtDeleteGenericState rel St c h
               in Some (AE_OK, ws\<lparr>Results := head,
                                  ResultSize := ResultSize ws - of_nat ACPI_RESULTS_FRAME_OBJ_NUM\<rparr>, c, h))"

definition AcpiDsResultPush ::
  "'c acquire \<Rightarrow> addr \<Rightarrow> walk_state \<Rightarrow> 'c \<Rightarrow> sheap \<Rightarrow> (acpi_status \<times> walk_state \<times> 'c \<times> sheap) option" where
  "AcpiDsResultPush acq Obj ws c h =
     (if ResultCount ws > ResultSize ws then Some (AE_AML_INTERNAL, ws, c, h)
      else case (if ResultCount ws = ResultSize ws then AcpiDsResultStackPush acq ws c h
                 else Some (AE_OK, ws, c, h)) of
             None \<Rightarrow> None
           | Some (Status, ws, c, h) \<Rightarrow>
               if ACPI_FAILURE Status then Some (Status, ws, c, h)
               else if \<not> ResultCount ws < ResultSize ws then Some (AE_AML_INTERNAL, ws, c, h)
               else if Results ws = 0 then Some (AE_AML_INTERNAL, ws, c, h)
               else if Obj = 0 then Some (AE_BAD_PARAMETER, ws, c, h)
               else let i = unat (ResultCount ws) mod ACPI_RESULTS_FRAME_OBJ_NUM
                    in case modify (Results ws) (\<lambda>s. s\<lparr>ObjDesc := (ObjDesc s)[i := Obj]\<rparr>) h of
                         None \<Rightarrow> None
                       | Some h \<Rightarrow> Some (AE_OK, ws\<lparr>ResultCount := ResultCount ws + 1\<rparr>, c, h))"

text \<open>The second component is \<open>*Object\<close>, 0 where the function returns without storing it.\<close>

definition AcpiDsResultPop ::
  "'c release \<Rightarrow> walk_state \<Rightarrow> 'c \<Rightarrow> sheap \<Rightarrow> (acpi_status \<times> addr \<times> walk_state \<times> 'c \<times> sheap) option" where
  "AcpiDsResultPop rel ws c h =
     (if Results ws \<noteq> 0 \<and> ResultCount ws = 0 then Some (AE_AML_INTERNAL, 0, ws, c, h)
      else if Results ws = 0 \<and> ResultCount ws \<noteq> 0 then Some (AE_AML_INTERNAL, 0, ws, c, h)
      else if Results ws = 0 then Some (AE_AML_NO_RETURN_VALUE, 0, ws, c, h)
      else let ws = ws\<lparr>ResultCount := ResultCount ws - 1\<rparr>;
               i = unat (ResultCount ws) mod ACPI_RESULTS_FRAME_OBJ_NUM
           in case live h (Results ws) of
                None \<Rightarrow> None
              | Some s \<Rightarrow>
                  let Obj = ObjDesc s ! i
                  in if Obj = 0 then Some (AE_AML_NO_RETURN_VALUE, 0, ws, c, h)
                     else case modify (Results ws) (\<lambda>s. s\<lparr>ObjDesc := (ObjDesc s)[i := 0]\<rparr>) h of
                            None \<Rightarrow> None
                          | Some h \<Rightarrow>
                              if i = 0
                              then case AcpiDsResultStackPop rel ws c h of
                                     None \<Rightarrow> None
                                   | Some (Status, ws, c, h) \<Rightarrow> Some (Status, Obj, ws, c, h)
                              else Some (AE_OK, Obj, ws, c, h))"

section \<open>The operand stack\<close>

definition AcpiDsObjStackPush :: "addr \<Rightarrow> walk_state \<Rightarrow> (acpi_status \<times> walk_state) option" where
  "AcpiDsObjStackPush Obj ws =
     (if NumOperands ws \<ge> ACPI_OBJ_NUM_OPERANDS then Some (AE_STACK_OVERFLOW, ws)
      else if unat (OperandIndex ws) \<ge> length (Operands ws) then None
      else Some (AE_OK, ws\<lparr>Operands := (Operands ws)[unat (OperandIndex ws) := Obj],
                           NumOperands := NumOperands ws + 1, OperandIndex := OperandIndex ws + 1\<rparr>))"

fun AcpiDsObjStackPop :: "nat \<Rightarrow> walk_state \<Rightarrow> (acpi_status \<times> walk_state) option" where
  "AcpiDsObjStackPop 0 ws = Some (AE_OK, ws)"
| "AcpiDsObjStackPop (Suc n) ws =
     (if NumOperands ws = 0 then Some (AE_STACK_UNDERFLOW, ws)
      else let k = NumOperands ws - 1
           in if unat k \<ge> length (Operands ws) then None
              else AcpiDsObjStackPop n (ws\<lparr>NumOperands := k, Operands := (Operands ws)[unat k := 0]\<rparr>))"

text \<open>The argument \<open>n\<close> is \<open>i + 1\<close> of the loop.\<close>

fun AcpiDsObjStackPopAndDelete :: "nat \<Rightarrow> walk_state \<Rightarrow> (addr list \<times> walk_state) option" where
  "AcpiDsObjStackPopAndDelete 0 ws = Some ([], ws)"
| "AcpiDsObjStackPopAndDelete (Suc i) ws =
     (if NumOperands ws = 0 then Some ([], ws)
      else if i \<ge> length (Operands ws) then None
      else let ws = ws\<lparr>NumOperands := NumOperands ws - 1\<rparr>; Obj = Operands ws ! i
           in if Obj \<noteq> 0
              then case AcpiDsObjStackPopAndDelete i (ws\<lparr>Operands := (Operands ws)[i := 0]\<rparr>) of
                     None \<Rightarrow> None | Some (ds, ws) \<Rightarrow> Some (Obj # ds, ws)
              else AcpiDsObjStackPopAndDelete i ws)"

section \<open>The result stack as a list\<close>

definition frame :: "sheap \<Rightarrow> addr \<Rightarrow> addr list" where
  "frame h a = (case live h a of Some s \<Rightarrow> ObjDesc s | None \<Rightarrow> [])"

text \<open>The slots of all frames from the bottom up.\<close>

definition slots :: "sheap \<Rightarrow> addr list \<Rightarrow> addr list" where
  "slots h as = concat (map (frame h) (rev as))"

text \<open>
  The result stack holds the objects \<open>xs\<close>, the last one on top: the slots of the frames are
  \<open>xs\<close> followed by nulls, and the top frame is not empty.
\<close>

definition result_frames :: "sheap \<Rightarrow> walk_state \<Rightarrow> addr list \<Rightarrow> addr list \<Rightarrow> bool" where
  "result_frames h ws as xs \<longleftrightarrow> slist h (Results ws) as \<and> distinct as
     \<and> (\<forall>a \<in> set as. length (frame h a) = 8) \<and> unat (ResultSize ws) = 8 * length as
     \<and> unat (ResultCount ws) = length xs \<and> 0 \<notin> set xs
     \<and> slots h as = xs @ replicate (8 * length as - length xs) 0
     \<and> length xs \<le> 8 * length as"

definition result_stack :: "sheap \<Rightarrow> walk_state \<Rightarrow> addr list \<Rightarrow> addr list \<Rightarrow> bool" where
  "result_stack h ws as xs \<longleftrightarrow> result_frames h ws as xs \<and> 8 * length as < length xs + 8"

definition results :: "sheap \<Rightarrow> walk_state \<Rightarrow> addr list \<Rightarrow> bool" where
  "results h ws xs \<longleftrightarrow> (\<exists>as. result_stack h ws as xs)"

text \<open>
  The states from \<open>h\<close> to \<open>h'\<close> differ only in the frames, \<open>as\<close> before and \<open>as'\<close> after: a frame that is
  no longer in use is dead, one that is new was not live before, and every other state is as before.
\<close>

definition only_frames :: "sheap \<Rightarrow> addr list \<Rightarrow> sheap \<Rightarrow> addr list \<Rightarrow> bool" where
  "only_frames h as h' as' \<longleftrightarrow> (\<forall>b. if b \<in> set as' then b \<in> set as \<or> live h b = None
     else if b \<in> set as then live h' b = None else live h' b = live h b)"

lemma slots_Cons: "slots h (a # as) = slots h as @ frame h a"
  by (simp add: slots_def)

lemma slots_cong: "(\<And>a. a \<in> set as \<Longrightarrow> live h' a = live h a) \<Longrightarrow> slots h' as = slots h as"
  unfolding slots_def by (auto simp: frame_def intro!: arg_cong [where f = concat] map_cong)

lemma length_slots: "(\<forall>a \<in> set as. length (frame h a) = 8) \<Longrightarrow> length (slots h as) = 8 * length as"
  by (induction as) (auto simp: slots_def)

lemma mod_frame: "8 * n \<le> k \<Longrightarrow> k < 8 * Suc n \<Longrightarrow> k mod 8 = k - 8 * n" for k n :: nat
proof -
  assume "8 * n \<le> k" "k < 8 * Suc n"
  then have "k div 8 = n" by (intro div_nat_eqI) auto
  then show ?thesis using minus_mult_div_eq_mod [of k 8] by (metis mult.commute)
qed

text \<open>Writing the slot \<open>i\<close> of the top frame writes the corresponding one of all slots.\<close>

lemma slots_update:
  assumes "live h a = Some s" and "live h' = (live h)(a \<mapsto> s\<lparr>ObjDesc := (ObjDesc s)[i := v]\<rparr>)"
    and "a \<notin> set as" and "\<forall>b \<in> set (a # as). length (frame h b) = 8"
  shows "slots h' (a # as) = (slots h (a # as))[8 * length as + i := v]"
    and "\<forall>b \<in> set (a # as). length (frame h' b) = 8"
proof -
  have "slots h' as = slots h as" using assms(2,3) by (intro slots_cong) auto
  moreover have "frame h' a = (frame h a)[i := v]" using assms(1,2) by (simp add: frame_def)
  ultimately show "slots h' (a # as) = (slots h (a # as))[8 * length as + i := v]"
    using length_slots [of as h] assms(4) by (simp add: slots_Cons list_update_append)
  have "frame h' b = frame h b" if "b \<in> set as" for b using that assms(2,3) by (auto simp: frame_def)
  then show "\<forall>b \<in> set (a # as). length (frame h' b) = 8"
    using assms(4) \<open>frame h' a = (frame h a)[i := v]\<close> by auto
qed


lemma result_frames_top:
  assumes "result_frames h ws as xs" and "as \<noteq> []"
  obtains a bs s where "as = a # bs" "Results ws = a" "a \<noteq> 0" "live h a = Some s" "a \<notin> set bs"
    "slist h (Next s) bs" "length (ObjDesc s) = 8"
  using assms by (cases as) (auto simp: result_frames_def frame_def)

lemma slist_write_top:
  assumes "slist h a (a # bs)" and "live h a = Some s" and "Next s' = Next s" and "a \<notin> set bs"
  shows "slist (h(a \<mapsto> Object s')) a (a # bs)"
proof -
  have "slist (h(a \<mapsto> Object s')) (Next s) bs \<longleftrightarrow> slist h (Next s) bs"
    using assms(4) by (intro slist_cong) (auto simp: live_def)
  then show ?thesis using assms(1-3) by (auto simp: live_def)
qed

text \<open>No state can be created only if the cache gives none.\<close>

lemma create_with_null: "create_with (AcpiUtCreateGenericState acq) f c h = Some (0, c', h') \<Longrightarrow> acq c h = Some (0, c', h')"
  by (auto simp: create_with_def AcpiUtCreateGenericState_def split: option.splits if_splits prod.splits)

context state_pool
begin

lemma store_result:
  assumes "inv c h" and rel: "result_frames h ws as xs" and "length xs < 8 * length as"
    and top: "8 * length as \<le> length xs + 8" and "length as < 32" and "Obj \<noteq> 0"
  shows "\<exists>h'. modify (Results ws) (\<lambda>s. s\<lparr>ObjDesc := (ObjDesc s)[unat (ResultCount ws) mod 8 := Obj]\<rparr>) h = Some h'
    \<and> inv c h' \<and> result_frames h' (ws\<lparr>ResultCount := ResultCount ws + 1\<rparr>) as (xs @ [Obj])
    \<and> (\<forall>b. b \<notin> set as \<longrightarrow> live h' b = live h b)"
proof -
  have "as \<noteq> []" using assms(3) by auto
  with rel obtain a bs s where a: "as = a # bs" "Results ws = a" "a \<noteq> 0" "live h a = Some s" "a \<notin> set bs"
      "slist h (Next s) bs" "length (ObjDesc s) = 8"
    by (rule result_frames_top)
  note r = rel [unfolded result_frames_def]
  let ?i = "length xs mod 8"
  have i: "?i = length xs - 8 * length bs" "8 * length bs \<le> length xs"
    using mod_frame [of "length bs" "length xs"] a(1) assms(3) top by auto
  let ?s = "s\<lparr>ObjDesc := (ObjDesc s)[?i := Obj]\<rparr>"
  let ?h = "h(a \<mapsto> Object ?s)"
  have l: "live ?h = (live h)(a \<mapsto> ?s)" by (rule live_update)
  have "inv c ?h" using write_inv [OF assms(1)] a(4) by simp
  moreover have "slist ?h a (a # bs)"
    using slist_write_top [of h a bs s ?s] r a by simp
  moreover have "slots ?h as = xs @ [Obj] @ replicate (8 * length as - length (xs @ [Obj])) 0"
    and "\<forall>b \<in> set as. length (frame ?h b) = 8"
  proof -
    have 1: "slots ?h as = (slots h as)[8 * length bs + ?i := Obj]" and 2: "\<forall>b \<in> set as. length (frame ?h b) = 8"
      using slots_update [OF a(4) l a(5)] r a(1) by blast+
    note 1
    also have "8 * length bs + ?i = length xs" using i by simp
    also have "(slots h as)[length xs := Obj] = xs @ (replicate (8 * length as - length xs) 0)[0 := Obj]"
      using r by (simp add: list_update_append)
    also have "8 * length as - length xs = Suc (8 * length as - length (xs @ [Obj]))" using assms(3) by simp
    finally show "slots ?h as = xs @ [Obj] @ replicate (8 * length as - length (xs @ [Obj])) 0"
      by (simp del: fun_upd_apply)
    show "\<forall>b \<in> set as. length (frame ?h b) = 8" by (rule 2)
  qed
  moreover have "unat (ResultCount ws + 1) = length xs + 1"
    using r assms(3,5) unat_add_nowrap [of "ResultCount ws" 1] by simp
  ultimately have "result_frames ?h (ws\<lparr>ResultCount := ResultCount ws + 1\<rparr>) as (xs @ [Obj])"
    using r a assms(3,6) unfolding result_frames_def by simp
  moreover have "unat (ResultCount ws) = length xs" using r by simp
  moreover have "\<forall>b. b \<notin> set as \<longrightarrow> live ?h b = live h b" using a(1) l by simp
  ultimately show ?thesis using \<open>inv c ?h\<close> a by (simp add: modify_live)
qed

lemma extend_results:
  assumes "inv c h" and rel: "result_frames h ws as xs" and "length xs = 8 * length as" and "length as \<le> 30"
  shows "\<exists>st ws' c' h'. AcpiDsResultStackPush acquire ws c h = Some (st, ws', c', h') \<and> inv c' h'
    \<and> (st = AE_NO_MEMORY \<and> ws' = ws \<and> live h' = live h \<and> acquire c h = Some (0, c', h')
       \<or> st = AE_OK \<and> Results ws' \<noteq> 0 \<and> ResultCount ws' = ResultCount ws
         \<and> (\<exists>a. result_frames h' ws' (a # as) xs \<and> live h a = None \<and> (\<forall>b. b \<notin> set (a # as) \<longrightarrow> live h' b = live h b)))"
proof -
  note r = rel [unfolded result_frames_def]
  let ?f = "\<lambda>s :: generic_state. s\<lparr>DescriptorType := ACPI_DESC_TYPE_STATE_RESULT\<rparr>"
  let ?s = "?f (zero_state\<lparr>DescriptorType := ACPI_DESC_TYPE_STATE\<rparr>)"
  obtain a c' h' where a: "create_with (AcpiUtCreateGenericState acquire) ?f c h = Some (a, c', h')"
      and inv: "inv c' h'" and null: "a = 0 \<longrightarrow> live h' = live h"
      and new: "a \<noteq> 0 \<longrightarrow> live h a = None \<and> live h' = (live h)(a \<mapsto> ?s)"
    using create_with_state [OF assms(1), of ?f] by blast
  have size: "\<not> unat (ResultSize ws) + ACPI_RESULTS_FRAME_OBJ_NUM > ACPI_RESULTS_OBJ_NUM_MAX"
    using r assms(4) by (simp add: ACPI_RESULTS_FRAME_OBJ_NUM_def ACPI_RESULTS_OBJ_NUM_MAX_def)
  show ?thesis
  proof (cases "a = 0")
    case True
    then show ?thesis using a create_with_null [OF a [unfolded True]] inv null size by (simp add: AcpiDsResultStackPush_def)
  next
    case False
    with new have n: "live h a = None" "live h' = (live h)(a \<mapsto> ?s)" by simp_all
    have notin: "a \<notin> set as" using slist_live [of h "Results ws" as a] r n(1) by blast
    have "slist h' (Results ws) as \<longleftrightarrow> slist h (Results ws) as" using notin n(2) by (intro slist_cong) auto
    then obtain h2 where h2: "AcpiUtPushGenericState (Results ws) a h' = Some (h2, a)" "inv c' h2"
        "live h2 = (live h')(a \<mapsto> ?s\<lparr>Next := Results ws\<rparr>)" "slist h2 a (a # as)"
      using push_state [OF inv _ _ notin, of ?s "Results ws"] r n(2) by auto
    have l: "live h2 b = live h b" if "b \<in> set as" for b using that notin h2(3) n(2) by auto
    have "frame h2 a = replicate 8 0"
      using h2(3) by (simp add: frame_def zero_state_def ACPI_RESULTS_FRAME_OBJ_NUM_def)
    moreover have "slots h2 as = slots h as" using l by (rule slots_cong)
    moreover have "frame h2 b = frame h b" if "b \<in> set as" for b using l [OF that] by (simp add: frame_def)
    moreover have "unat (ResultSize ws + 8) = 8 * length (a # as)"
      using r assms(4) unat_add_nowrap [of "ResultSize ws" 8] by simp
    ultimately have "result_frames h2 (ws\<lparr>Results := a, ResultSize := ResultSize ws + 8\<rparr>) (a # as) xs"
      using r h2(4) notin assms(3) unfolding result_frames_def by (simp add: slots_Cons)
    moreover have "\<forall>b. b \<notin> set (a # as) \<longrightarrow> live h2 b = live h b" using h2(3) n(2) by simp
    ultimately show ?thesis
      using a False size h2(1,2) n(1) by (auto simp: AcpiDsResultStackPush_def ACPI_RESULTS_FRAME_OBJ_NUM_def)
  qed
qed

lemma push_result:
  assumes "inv c h" and "result_stack h ws as xs" and "Obj \<noteq> 0" and "length xs < 248"
  shows "\<exists>st ws' c' h'. AcpiDsResultPush acquire Obj ws c h = Some (st, ws', c', h') \<and> inv c' h'
    \<and> (st = AE_OK \<and> (\<exists>as'. result_stack h' ws' as' (xs @ [Obj]) \<and> only_frames h as h' as')
       \<or> st = AE_NO_MEMORY \<and> ws' = ws \<and> live h' = live h \<and> length xs = 8 * length as \<and> acquire c h = Some (0, c', h'))"
proof -
  have rel: "result_frames h ws as xs" and top: "8 * length as < length xs + 8"
    using assms(2) by (simp_all add: result_stack_def)
  note r = rel [unfolded result_frames_def]
  show ?thesis
  proof (cases "length xs = 8 * length as")
    case False
    then have lt: "length xs < 8 * length as" using r by linarith
    have "length as < 32" using top assms(4) by linarith
    then obtain h' where h': "modify (Results ws) (\<lambda>s. s\<lparr>ObjDesc := (ObjDesc s)[unat (ResultCount ws) mod 8 := Obj]\<rparr>) h = Some h'"
        "inv c h'" "result_frames h' (ws\<lparr>ResultCount := ResultCount ws + 1\<rparr>) as (xs @ [Obj])"
        "\<forall>b. b \<notin> set as \<longrightarrow> live h' b = live h b"
      using store_result [OF assms(1) rel lt _ _ assms(3)] top by auto
    have "ResultCount ws < ResultSize ws" using r lt by (simp add: word_less_nat_alt)
    then have "ResultCount ws < ResultSize ws" "ResultCount ws \<noteq> ResultSize ws" "\<not> ResultSize ws < ResultCount ws" by auto
    moreover have "Results ws \<noteq> 0" using r lt by (auto simp: slist_empty)
    ultimately have "AcpiDsResultPush acquire Obj ws c h = Some (AE_OK, ws\<lparr>ResultCount := ResultCount ws + 1\<rparr>, c, h')"
      using h'(1) assms(3) by (simp add: AcpiDsResultPush_def ACPI_RESULTS_FRAME_OBJ_NUM_def Let_def)
    moreover have "result_stack h' (ws\<lparr>ResultCount := ResultCount ws + 1\<rparr>) as (xs @ [Obj])" "only_frames h as h' as"
      using h'(3,4) top unfolding result_stack_def only_frames_def by auto
    ultimately show ?thesis using h'(2) by blast
  next
    case True
    then have eq: "ResultCount ws = ResultSize ws" using r by (simp add: word_unat_eq_iff)
    have "length as \<le> 30" using True assms(4) by linarith
    then obtain st ws' c' h' where e: "AcpiDsResultStackPush acquire ws c h = Some (st, ws', c', h')" "inv c' h'"
        "st = AE_NO_MEMORY \<and> ws' = ws \<and> live h' = live h \<and> acquire c h = Some (0, c', h')
         \<or> st = AE_OK \<and> Results ws' \<noteq> 0 \<and> ResultCount ws' = ResultCount ws
           \<and> (\<exists>a. result_frames h' ws' (a # as) xs \<and> live h a = None \<and> (\<forall>b. b \<notin> set (a # as) \<longrightarrow> live h' b = live h b))"
      using extend_results [OF assms(1) rel True] by blast
    from e(3) show ?thesis
    proof (elim disjE conjE exE)
      assume "st = AE_NO_MEMORY" "ws' = ws" "live h' = live h" "acquire c h = Some (0, c', h')"
      then show ?thesis using e(1,2) eq True by (simp add: AcpiDsResultPush_def ACPI_FAILURE_def)
    next
      fix a assume st: "st = AE_OK" "Results ws' \<noteq> 0" and f: "result_frames h' ws' (a # as) xs"
        and new: "live h a = None" "\<forall>b. b \<notin> set (a # as) \<longrightarrow> live h' b = live h b"
      then obtain h2 where h2: "modify (Results ws') (\<lambda>s. s\<lparr>ObjDesc := (ObjDesc s)[unat (ResultCount ws') mod 8 := Obj]\<rparr>) h' = Some h2"
          "inv c' h2" "result_frames h2 (ws'\<lparr>ResultCount := ResultCount ws' + 1\<rparr>) (a # as) (xs @ [Obj])"
          "\<forall>b. b \<notin> set (a # as) \<longrightarrow> live h2 b = live h' b"
        using store_result [OF e(2) f _ _ _ assms(3)] True \<open>length as \<le> 30\<close> by auto
      have "ResultCount ws' < ResultSize ws'"
        using f True unfolding result_frames_def by (simp add: word_less_nat_alt)
      then have "AcpiDsResultPush acquire Obj ws c h = Some (AE_OK, ws'\<lparr>ResultCount := ResultCount ws' + 1\<rparr>, c', h2)"
        using e(1) st h2(1) eq assms(3) by (simp add: AcpiDsResultPush_def ACPI_RESULTS_FRAME_OBJ_NUM_def Let_def)
      moreover have "result_stack h2 (ws'\<lparr>ResultCount := ResultCount ws' + 1\<rparr>) (a # as) (xs @ [Obj])"
        "only_frames h as h2 (a # as)"
        using h2(3,4) True new unfolding result_stack_def only_frames_def by auto
      ultimately show ?thesis using h2(2) by blast
    qed
  qed
qed

lemma drop_frame:
  assumes "inv c h" and rel: "result_frames h ws (a # bs) xs" and "length xs = 8 * length bs"
  shows "\<exists>ws' c' h'. AcpiDsResultStackPop release ws c h = Some (AE_OK, ws', c', h') \<and> inv c' h'
    \<and> result_frames h' ws' bs xs \<and> live h' = (live h)(a := None) \<and> a \<notin> set bs"
proof -
  obtain s where a: "Results ws = a" "a \<noteq> 0" "live h a = Some s" "a \<notin> set bs" "slist h (Next s) bs"
    using rel by (rule result_frames_top) auto
  note r = rel [unfolded result_frames_def]
  obtain c' h' where d: "AcpiUtDeleteGenericState release a c h = (c', h')" "inv c' h'" "live h' = (live h)(a := None)"
    using delete_state [OF assms(1)] a(3) by blast
  have l: "live h' b = live h b" if "b \<in> set bs" for b using that a(4) d(3) by auto
  have "slist h' (Next s) bs" using a(5) slist_cong [of bs h' h] l by blast
  moreover have "slots h' bs = slots h bs" using l by (rule slots_cong)
  moreover have "slots h bs = xs"
    using r assms(3) length_slots [of bs h] by (auto simp: slots_Cons append_eq_append_conv)
  moreover have "frame h' b = frame h b" if "b \<in> set bs" for b using l [OF that] by (simp add: frame_def)
  moreover have "unat (ResultSize ws - 8) = 8 * length bs"
    using r unat_sub_le [of 8 "ResultSize ws"] by (simp add: word_le_nat_alt)
  ultimately have "result_frames h' (ws\<lparr>Results := Next s, ResultSize := ResultSize ws - 8\<rparr>) bs xs"
    using r assms(3) unfolding result_frames_def by simp
  moreover have "AcpiDsResultStackPop release ws c h =
      Some (AE_OK, ws\<lparr>Results := Next s, ResultSize := ResultSize ws - 8\<rparr>, c', h')"
    using a d(1) r by (simp add: AcpiDsResultStackPop_def AcpiUtPopGenericState_def ACPI_RESULTS_FRAME_OBJ_NUM_def)
  ultimately show ?thesis using d(2,3) a(4) by blast
qed

lemma pop_result:
  assumes "inv c h" and "result_stack h ws as (xs @ [x])"
  shows "\<exists>ws' c' h'. AcpiDsResultPop release ws c h = Some (AE_OK, x, ws', c', h') \<and> inv c' h'
    \<and> (\<exists>as'. result_stack h' ws' as' xs \<and> only_frames h as h' as')"
proof -
  have rel: "result_frames h ws as (xs @ [x])" and top: "8 * length as < length xs + 9"
    using assms(2) by (simp_all add: result_stack_def)
  note r = rel [unfolded result_frames_def]
  have "as \<noteq> []" using r by auto
  with rel obtain a bs s where a: "as = a # bs" "Results ws = a" "a \<noteq> 0" "live h a = Some s" "a \<notin> set bs"
      "slist h (Next s) bs" "length (ObjDesc s) = 8"
    by (rule result_frames_top)
  let ?i = "length xs mod 8" and ?ws = "ws\<lparr>ResultCount := ResultCount ws - 1\<rparr>"
  have i: "?i = length xs - 8 * length bs" "8 * length bs \<le> length xs" "length xs < 8 * length as"
    using mod_frame [of "length bs" "length xs"] a(1) r top by auto
  have "ResultCount ws \<noteq> 0" using r by auto
  then have count: "unat (ResultCount ws - 1) = length xs" using r by (simp add: unat_pred)
  have x: "ObjDesc s ! ?i = x"
  proof -
    have "slots h as ! length xs = x" using r i by (simp add: nth_append)
    moreover have sp: "slots h as = slots h bs @ ObjDesc s" using a by (simp add: slots_Cons frame_def)
    have "length (slots h bs) = 8 * length bs" using length_slots [of bs h] r a(1) by simp
    then have "slots h as ! length xs = ObjDesc s ! ?i" unfolding sp i(1) using i(2) by (simp add: nth_append)
    ultimately show ?thesis by simp
  qed
  let ?s = "s\<lparr>ObjDesc := (ObjDesc s)[?i := 0]\<rparr>"
  let ?h = "h(a \<mapsto> Object ?s)"
  have l: "live ?h = (live h)(a \<mapsto> ?s)" by (rule live_update)
  have inv: "inv c ?h" using write_inv [OF assms(1)] a(4) by simp
  have rel': "result_frames ?h ?ws as xs"
  proof -
    have 1: "slots ?h as = (slots h as)[8 * length bs + ?i := 0]" and 2: "\<forall>b \<in> set as. length (frame ?h b) = 8"
      using slots_update [OF a(4) l a(5)] r a(1) by blast+
    note 1
    also have "8 * length bs + ?i = length xs" using i by simp
    also have "(slots h as)[length xs := 0] = xs @ 0 # replicate (8 * length as - Suc (length xs)) 0"
      using r by (simp add: list_update_append)
    also have "\<dots> = xs @ replicate (8 * length as - length xs) 0"
      using i(3) by (metis Suc_diff_Suc replicate_Suc)
    finally have "slots ?h as = xs @ replicate (8 * length as - length xs) 0" .
    moreover have "slist ?h a (a # bs)" using slist_write_top [of h a bs s ?s] r a by simp
    ultimately show ?thesis
      using r 2 a(1,2,5) i(3) count unfolding result_frames_def by (simp del: fun_upd_apply)
  qed
  have body: "AcpiDsResultPop release ws c h = (if ?i = 0 then case AcpiDsResultStackPop release ?ws c ?h of
      None \<Rightarrow> None | Some (st, ws', c', h') \<Rightarrow> Some (st, x, ws', c', h') else Some (AE_OK, x, ?ws, c, ?h))"
    using a x count \<open>ResultCount ws \<noteq> 0\<close> r
    by (simp add: AcpiDsResultPop_def modify_live ACPI_RESULTS_FRAME_OBJ_NUM_def Let_def)
  show ?thesis
  proof (cases "?i = 0")
    case True
    then have "length xs = 8 * length bs" using i by simp
    from drop_frame [OF inv rel' [unfolded a(1)] this]
    obtain ws' c' h' where "AcpiDsResultStackPop release ?ws c ?h = Some (AE_OK, ws', c', h')" "inv c' h'"
        "result_frames h' ws' bs xs" "live h' = (live ?h)(a := None)" "a \<notin> set bs" by blast
    moreover from this have "only_frames h as h' bs" using a(1) l by (simp add: only_frames_def)
    ultimately show ?thesis using True body \<open>length xs = 8 * length bs\<close> unfolding result_stack_def by auto
  next
    case False
    then have "8 * length as < length xs + 8" using i a(1) by simp
    moreover have "only_frames h as ?h as" using a(1) l by (simp add: only_frames_def)
    ultimately show ?thesis using False body inv rel' unfolding result_stack_def by auto
  qed
qed

end

lemma results_empty: "results h ws [] \<longleftrightarrow> Results ws = 0 \<and> ResultCount ws = 0 \<and> ResultSize ws = 0"
  by (auto simp: results_def result_stack_def result_frames_def unat_eq_zero slots_def intro: exI [of _ "[]"])

lemma pop_empty: "results h ws [] \<Longrightarrow> AcpiDsResultPop rel ws c h = Some (AE_AML_NO_RETURN_VALUE, 0, ws, c, h)"
  by (simp add: results_empty AcpiDsResultPop_def)

lemma push_full:
  assumes "results h ws xs" and "length xs = 248"
  shows "AcpiDsResultPush acq Obj ws c h = Some (AE_STACK_OVERFLOW, ws, c, h)"
proof -
  obtain as where rel: "result_frames h ws as xs" and top: "8 * length as < length xs + 8"
    using assms(1) by (auto simp: results_def result_stack_def)
  then have "unat (ResultSize ws) = 248" "unat (ResultCount ws) = 248"
    using assms(2) by (auto simp: result_frames_def)
  then show ?thesis
    by (simp add: AcpiDsResultPush_def AcpiDsResultStackPush_def word_less_nat_alt word_unat_eq_iff
        ACPI_RESULTS_FRAME_OBJ_NUM_def ACPI_RESULTS_OBJ_NUM_MAX_def ACPI_FAILURE_def)
qed


section \<open>The operand stack as a list\<close>

definition operands :: "walk_state \<Rightarrow> addr list \<Rightarrow> bool" where
  "operands ws xs \<longleftrightarrow> unat (NumOperands ws) = length xs \<and> length xs \<le> 8
     \<and> Operands ws = xs @ replicate (9 - length xs) 0"

lemma replicate_9: "n < 9 \<Longrightarrow> replicate (9 - n) x = x # replicate (8 - n) x"
proof -
  assume "n < 9"
  then have "9 - n = Suc (8 - n)" by simp
  then show ?thesis by simp
qed

lemma operands_pop_one:
  assumes "operands ws (xs @ [x])"
  shows "operands (ws\<lparr>NumOperands := NumOperands ws - 1, Operands := (Operands ws)[unat (NumOperands ws - 1) := 0]\<rparr>) xs"
    and "NumOperands ws \<noteq> 0" and "unat (NumOperands ws - 1) = length xs" and "length (Operands ws) = 9"
proof -
  note o = assms [unfolded operands_def]
  show "NumOperands ws \<noteq> 0" using o by auto
  then show n: "unat (NumOperands ws - 1) = length xs" using o by (simp add: unat_pred)
  have "length xs < 9" using o by simp
  then show "operands (ws\<lparr>NumOperands := NumOperands ws - 1, Operands := (Operands ws)[unat (NumOperands ws - 1) := 0]\<rparr>) xs"
    using o n by (simp add: operands_def list_update_append replicate_9)
  show "length (Operands ws) = 9" using o by simp
qed

lemma operands_pop:
  "operands ws xs \<Longrightarrow> \<exists>ws'. AcpiDsObjStackPop n ws = Some (if n \<le> length xs then AE_OK else AE_STACK_UNDERFLOW, ws')
     \<and> operands ws' (take (length xs - n) xs)"
proof (induction n arbitrary: ws xs)
  case (Suc n)
  show ?case
  proof (cases xs rule: rev_cases)
    case Nil
    then have "NumOperands ws = 0" using Suc.prems by (simp add: operands_def unat_eq_zero)
    with Nil Suc.prems show ?thesis by simp
  next
    case (snoc ys y)
    note p = operands_pop_one [OF Suc.prems [unfolded snoc]]
    have "length ys < 9" using Suc.prems snoc by (simp add: operands_def)
    with Suc.IH [OF p(1)] p(2-4) snoc show ?thesis by (simp add: Let_def)
  qed
qed simp

lemma operands_push:
  assumes "operands ws xs" and "OperandIndex ws = NumOperands ws" and "length xs < 8"
  shows "\<exists>ws'. AcpiDsObjStackPush Obj ws = Some (AE_OK, ws') \<and> operands ws' (xs @ [Obj]) \<and> OperandIndex ws' = NumOperands ws'"
proof -
  note o = assms(1) [unfolded operands_def]
  have "unat (NumOperands ws + 1) = length xs + 1" using o assms(3) unat_add_nowrap [of "NumOperands ws" 1] by simp
  moreover have "(xs @ replicate (9 - length xs) 0)[length xs := Obj] = xs @ Obj # replicate (8 - length xs) 0"
    using assms(3) by (simp add: list_update_append replicate_9)
  moreover have "\<not> NumOperands ws \<ge> ACPI_OBJ_NUM_OPERANDS"
    using o assms(3) by (simp add: ACPI_OBJ_NUM_OPERANDS_def word_le_nat_alt)
  ultimately show ?thesis using o assms(2,3) by (simp add: AcpiDsObjStackPush_def operands_def)
qed

section \<open>Properties\<close>

text \<open>An empty cache and heap, and a host allocator with three blocks.\<close>

definition empty_cache :: memory_list where
  "empty_cache = \<lparr>ListHead = 0, ObjectSize = 80, MaxDepth = 96, CurrentDepth = 0\<rparr>"

definition three_blocks :: "'a heap \<Rightarrow> addr" where
  "three_blocks h = (if h 0x1000 = None then 0x1000 else if h 0x2000 = None then 0x2000
     else if h 0x3000 = None then 0x3000 else 0)"

definition walk_start :: walk_state where
  "walk_start = \<lparr>Results = 0, ResultSize = 0, ResultCount = 0, Operands = replicate 9 0, NumOperands = 0, OperandIndex = 0\<rparr>"

lemma empty_cache_inv: "cache_inv empty_cache (\<lambda>_. None)"
  by (simp add: cache_inv_def empty_cache_def)

lemma walk_start_results: "results h walk_start []"
  by (simp add: results_empty walk_start_def)

text \<open>
  C19. The result stack is a stack: pushing an object onto the results \<open>xs\<close> in the frames \<open>as\<close> gives the results
  \<open>xs\<close> with the object on top, or \<open>AE_NO_MEMORY\<close> with nothing changed, only if a new frame is needed and the state
  cache gives none, or \<open>AE_STACK_OVERFLOW\<close> exactly at 248 results; popping returns the top object, and
  \<open>AE_AML_NO_RETURN_VALUE\<close> on an empty stack. After each operation there are as few frames as the results need
  (\<open>result_stack\<close>), a frame that has become empty is released, a new one is a state that was not live, and no state that is not a
  frame changes (\<open>only_frames\<close>); no member of a dead state is ever accessed. The state cache is that of
  \<^verbatim>\<open>utcache.c\<close> over any host allocator.
\<close>

theorem result_stack_refines_list:
  assumes "cache_inv c h" and "result_stack h ws as xs"
  shows "(Obj \<noteq> 0 \<and> length xs < 248 \<longrightarrow>
      (\<exists>st ws' c' h'. AcpiDsResultPush (cache_acquire pick zero_state) Obj ws c h = Some (st, ws', c', h') \<and> cache_inv c' h'
         \<and> (st = AE_OK \<and> (\<exists>as'. result_stack h' ws' as' (xs @ [Obj]) \<and> only_frames h as h' as')
            \<or> st = AE_NO_MEMORY \<and> ws' = ws \<and> live h' = live h
              \<and> length xs = 8 * length as \<and> cache_acquire pick zero_state c h = Some (0, c', h'))))
    \<and> (length xs = 248 \<longrightarrow>
      AcpiDsResultPush (cache_acquire pick zero_state) Obj ws c h = Some (AE_STACK_OVERFLOW, ws, c, h))
    \<and> (xs \<noteq> [] \<longrightarrow>
      (\<exists>ws' c' h'. AcpiDsResultPop cache_release ws c h = Some (AE_OK, last xs, ws', c', h') \<and> cache_inv c' h'
         \<and> (\<exists>as'. result_stack h' ws' as' (butlast xs) \<and> only_frames h as h' as')))
    \<and> (xs = [] \<longrightarrow> AcpiDsResultPop cache_release ws c h = Some (AE_AML_NO_RETURN_VALUE, 0, ws, c, h))"
proof (intro conjI impI)
  assume "Obj \<noteq> 0 \<and> length xs < 248"
  then show "\<exists>st ws' c' h'. AcpiDsResultPush (cache_acquire pick zero_state) Obj ws c h = Some (st, ws', c', h') \<and> cache_inv c' h'
      \<and> (st = AE_OK \<and> (\<exists>as'. result_stack h' ws' as' (xs @ [Obj]) \<and> only_frames h as h' as')
         \<or> st = AE_NO_MEMORY \<and> ws' = ws \<and> live h' = live h
           \<and> length xs = 8 * length as \<and> cache_acquire pick zero_state c h = Some (0, c', h'))"
    using acpi_state.push_result [OF assms] by blast
next
  assume "xs \<noteq> []"
  then have "result_stack h ws as (butlast xs @ [last xs])" using assms(2) by simp
  from acpi_state.pop_result [OF assms(1) this]
  show "\<exists>ws' c' h'. AcpiDsResultPop cache_release ws c h = Some (AE_OK, last xs, ws', c', h') \<and> cache_inv c' h'
      \<and> (\<exists>as'. result_stack h' ws' as' (butlast xs) \<and> only_frames h as h' as')" .
next
  assume "length xs = 248"
  then show "AcpiDsResultPush (cache_acquire pick zero_state) Obj ws c h = Some (AE_STACK_OVERFLOW, ws, c, h)"
    using assms(2) by (intro push_full [of h ws xs]) (auto simp: results_def)
next
  assume "xs = []"
  then show "AcpiDsResultPop cache_release ws c h = Some (AE_AML_NO_RETURN_VALUE, 0, ws, c, h)"
    using assms(2) by (intro pop_empty) (auto simp: results_def)
qed

text \<open>One result in one frame: popping it releases the frame.\<close>

theorem result_stack_refines_list_witness:
  "\<exists>ws' c' h' as'. AcpiDsResultPop cache_release (walk_start\<lparr>Results := 0x1000, ResultSize := 8, ResultCount := 1\<rparr>) empty_cache
       [0x1000 \<mapsto> Object (zero_state\<lparr>ObjDesc := [0x5000, 0, 0, 0, 0, 0, 0, 0]\<rparr>)] = Some (AE_OK, 0x5000, ws', c', h')
     \<and> result_stack h' ws' as' [] \<and> live h' 0x1000 = None"
proof -
  let ?h = "[0x1000 \<mapsto> Object (zero_state\<lparr>ObjDesc := [0x5000, 0, 0, 0, 0, 0, 0, 0]\<rparr>)]"
  let ?ws = "walk_start\<lparr>Results := 0x1000, ResultSize := 8, ResultCount := 1\<rparr>"
  have "cache_inv empty_cache ?h" by (simp add: cache_inv_def empty_cache_def)
  moreover have "result_stack ?h ?ws [0x1000] [0x5000]"
    by (simp add: result_stack_def result_frames_def slots_def frame_def live_def zero_state_def)
       (simp add: eval_nat_numeral)
  ultimately obtain ws' c' h' as' where
    r: "AcpiDsResultPop cache_release ?ws empty_cache ?h = Some (AE_OK, 0x5000, ws', c', h')" "result_stack h' ws' as' []"
      "only_frames ?h [0x1000] h' as'"
    using result_stack_refines_list [THEN conjunct2, THEN conjunct2, THEN conjunct1, of empty_cache ?h ?ws "[0x1000]" "[0x5000]"]
    by auto
  from r(2) have "as' = []" by (simp add: result_stack_def)
  with r(3) have "live h' 0x1000 = None" by (simp add: only_frames_def)
  with r(1,2) show ?thesis by blast
qed

text \<open>
  Pushing a null object when all frames are full is refused with \<open>AE_BAD_PARAMETER\<close>, but a new
  frame has already been linked: with eight results on the stack the next \<open>AcpiDsResultPop\<close> reads a
  null slot of the empty frame and reports \<open>AE_AML_NO_RETURN_VALUE\<close>, although there are results, and
  counts one result as gone.
\<close>

theorem null_push_breaks_result_stack:
  "\<exists>h ws h1 ws1 ws2. results h ws [1, 2, 3, 4, 5, 6, 7, 8]
     \<and> AcpiDsResultPush (cache_acquire three_blocks zero_state) 0 ws empty_cache h = Some (AE_BAD_PARAMETER, ws1, empty_cache, h1)
     \<and> AcpiDsResultPop cache_release ws1 empty_cache h1 = Some (AE_AML_NO_RETURN_VALUE, 0, ws2, empty_cache, h1)
     \<and> ResultCount ws2 = 7"
proof -
  let ?s = "zero_state\<lparr>DescriptorType := ACPI_DESC_TYPE_STATE_RESULT, ObjDesc := [1, 2, 3, 4, 5, 6, 7, 8]\<rparr>"
  let ?h = "[0x1000 \<mapsto> Object ?s]"
  let ?ws = "walk_start\<lparr>Results := 0x1000, ResultSize := 8, ResultCount := 8\<rparr>"
  let ?new = "zero_state\<lparr>DescriptorType := ACPI_DESC_TYPE_STATE_RESULT, Next := 0x1000\<rparr>"
  let ?h1 = "?h(0x2000 \<mapsto> Object ?new)" and ?ws1 = "?ws\<lparr>Results := 0x2000, ResultSize := 16\<rparr>"
  have "results ?h ?ws [1, 2, 3, 4, 5, 6, 7, 8]"
    unfolding results_def result_stack_def result_frames_def
    by (intro exI [of _ "[0x1000]"]) (simp add: live_def frame_def slots_def zero_state_def)
  moreover have "AcpiDsResultPush (cache_acquire three_blocks zero_state) 0 ?ws empty_cache ?h = Some (AE_BAD_PARAMETER, ?ws1, empty_cache, ?h1)"
    by (simp add: AcpiDsResultPush_def AcpiDsResultStackPush_def create_with_def AcpiUtCreateGenericState_def
        cache_acquire_def AcpiOsAcquireObject_def AcpiOsAllocate_def three_blocks_def empty_cache_def Let_def
        modify_def live_def AcpiUtPushGenericState_def ACPI_RESULTS_FRAME_OBJ_NUM_def ACPI_RESULTS_OBJ_NUM_MAX_def)
  moreover have "AcpiDsResultPop cache_release ?ws1 empty_cache ?h1 =
      Some (AE_AML_NO_RETURN_VALUE, 0, ?ws1\<lparr>ResultCount := 7\<rparr>, empty_cache, ?h1)"
    by (simp add: AcpiDsResultPop_def live_def Let_def ACPI_RESULTS_FRAME_OBJ_NUM_def zero_state_def)
  ultimately show ?thesis by (intro exI conjI) (assumption | simp)+
qed

text \<open>
  The operand stack: after pushing onto operands \<open>xs\<close> that lie in the first slots, the object
  is behind them; at eight operands the push fails with \<open>AE_STACK_OVERFLOW\<close>. \<open>AcpiDsObjStackPop\<close>
  removes the last \<open>n\<close> operands, or all of them with \<open>AE_STACK_UNDERFLOW\<close> if there are fewer; no
  access is outside of the array.
\<close>

theorem operand_stack:
  assumes "operands ws xs"
  shows "(OperandIndex ws = NumOperands ws \<and> length xs < 8 \<longrightarrow>
      (\<exists>ws'. AcpiDsObjStackPush Obj ws = Some (AE_OK, ws') \<and> operands ws' (xs @ [Obj]) \<and> OperandIndex ws' = NumOperands ws'))
    \<and> (length xs = 8 \<longrightarrow> AcpiDsObjStackPush Obj ws = Some (AE_STACK_OVERFLOW, ws))
    \<and> (\<exists>ws'. AcpiDsObjStackPop n ws = Some (if n \<le> length xs then AE_OK else AE_STACK_UNDERFLOW, ws')
        \<and> operands ws' (take (length xs - n) xs))"
proof (intro conjI impI)
  show "AcpiDsObjStackPush Obj ws = Some (AE_STACK_OVERFLOW, ws)" if "length xs = 8"
    using assms that by (simp add: operands_def AcpiDsObjStackPush_def ACPI_OBJ_NUM_OPERANDS_def word_le_nat_alt)
qed (use operands_push [OF assms] operands_pop [OF assms] in blast)+

theorem operand_stack_witness:
  "\<exists>ws'. AcpiDsObjStackPush 0x5000 walk_start = Some (AE_OK, ws') \<and> operands ws' ([] @ [0x5000]) \<and> OperandIndex ws' = NumOperands ws'"
  using operand_stack [of walk_start "[]" "0x5000"] by (simp add: operands_def walk_start_def)

text \<open>
  A deviation of \<open>AcpiDsObjStackPopAndDelete\<close> from its comment, which says that the objects are deleted
  as they are popped: it deletes the operands from slot \<open>PopCount - 1\<close> down whatever the number of
  operands is. With three operands and a count of 1 it deletes the first one and keeps the last
  one out of reach of the count.
\<close>

lemma pop_and_delete_wrong_operand:
  "AcpiDsObjStackPopAndDelete 1 (walk_start\<lparr>Operands := [7, 8, 9, 0, 0, 0, 0, 0, 0], NumOperands := 3\<rparr>) =
     Some ([7], walk_start\<lparr>Operands := [0, 8, 9, 0, 0, 0, 0, 0, 0], NumOperands := 2\<rparr>)"
  by (simp add: Let_def)

end
