(* ===== verification/ScopeStack.thy ===== *)
theory ScopeStack
  imports ResultStack
begin

text \<open>
  The scope stacks of the AML parser and of the dispatcher, \<^verbatim>\<open>psscope.c\<close> and \<^verbatim>\<open>dswscope.c\<close>, and the deletion of a
  walk state, \<^verbatim>\<open>AcpiDsDeleteWalkState\<close>. The stacks are lists of generic states in the heap
  of theory GenericState; debug output is left out.
\<close>

record parse_state =
  ps_Aml :: addr
  ps_AmlEnd :: addr
  ps_PkgEnd :: addr
  ps_StartOp :: addr
  ps_Scope :: addr

definition ACPI_VAR_ARGS :: u32 where "ACPI_VAR_ARGS = 0xFFFFFFFF"
definition ACPI_MAX_PTR :: addr where "ACPI_MAX_PTR = 0xFFFFFFFFFFFFFFFF"

section \<open>Parser scopes\<close>

definition AcpiPsGetParentScope :: "parse_state \<Rightarrow> sheap \<Rightarrow> addr option" where
  "AcpiPsGetParentScope ps h = (case live h (ps_Scope ps) of Some s \<Rightarrow> Some (Op s) | None \<Rightarrow> None)"

definition AcpiPsHasCompletedScope :: "parse_state \<Rightarrow> sheap \<Rightarrow> bool option" where
  "AcpiPsHasCompletedScope ps h =
     (case live h (ps_Scope ps) of
        Some s \<Rightarrow> Some (ps_Aml ps \<ge> ArgEnd s \<or> ArgCount s = 0) | None \<Rightarrow> None)"

definition AcpiPsInitScope ::
  "'c acquire \<Rightarrow> addr \<Rightarrow> parse_state \<Rightarrow> 'c \<Rightarrow> sheap \<Rightarrow> (acpi_status \<times> parse_state \<times> 'c \<times> sheap) option" where
  "AcpiPsInitScope acq RootOp ps c h =
     (case create_with (AcpiUtCreateGenericState acq)
             (\<lambda>s. s\<lparr>DescriptorType := ACPI_DESC_TYPE_STATE_RPSCOPE, Op := RootOp, ArgCount := ACPI_VAR_ARGS,
                    ArgEnd := ps_AmlEnd ps, PkgEnd := ps_AmlEnd ps\<rparr>) c h of
        None \<Rightarrow> None
      | Some (Scope, c, h) \<Rightarrow>
          if Scope = 0 then Some (AE_NO_MEMORY, ps, c, h)
          else Some (AE_OK, ps\<lparr>ps_Scope := Scope, ps_StartOp := RootOp\<rparr>, c, h))"

definition AcpiPsPushScope ::
  "'c acquire \<Rightarrow> addr \<Rightarrow> u32 \<Rightarrow> u32 \<Rightarrow> parse_state \<Rightarrow> 'c \<Rightarrow> sheap \<Rightarrow> (acpi_status \<times> parse_state \<times> 'c \<times> sheap) option" where
  "AcpiPsPushScope acq NewOp RemainingArgs Args ps c h =
     (case create_with (AcpiUtCreateGenericState acq)
             (\<lambda>s. s\<lparr>DescriptorType := ACPI_DESC_TYPE_STATE_PSCOPE, Op := NewOp, ArgList := RemainingArgs,
                    ArgCount := Args, PkgEnd := ps_PkgEnd ps\<rparr>) c h of
        None \<Rightarrow> None
      | Some (Scope, c, h) \<Rightarrow>
          if Scope = 0 then Some (AE_NO_MEMORY, ps, c, h)
          else case AcpiUtPushGenericState (ps_Scope ps) Scope h of
                 None \<Rightarrow> None
               | Some (h, head) \<Rightarrow>
                   (case modify Scope (\<lambda>s. s\<lparr>ArgEnd := (if Args = ACPI_VAR_ARGS then ps_PkgEnd ps else ACPI_MAX_PTR)\<rparr>) h of
                      None \<Rightarrow> None
                    | Some h \<Rightarrow> Some (AE_OK, ps\<lparr>ps_Scope := head\<rparr>, c, h)))"

text \<open>\<open>*Op\<close>, \<open>*ArgList\<close> and \<open>*ArgCount\<close>, and the state.\<close>

definition AcpiPsPopScope ::
  "'c release \<Rightarrow> parse_state \<Rightarrow> 'c \<Rightarrow> sheap \<Rightarrow> ((addr \<times> u32 \<times> u32) \<times> parse_state \<times> 'c \<times> sheap) option" where
  "AcpiPsPopScope rel ps c h =
     (case live h (ps_Scope ps) of
        None \<Rightarrow> None
      | Some t \<Rightarrow>
          if Next t \<noteq> 0
          then case AcpiUtPopGenericState (ps_Scope ps) h of
                 None \<Rightarrow> None
               | Some (Scope, head) \<Rightarrow>
                   (case live h Scope of
                      None \<Rightarrow> None
                    | Some s \<Rightarrow>
                        let (c, h) = AcpiUtDeleteGenericState rel Scope c h
                        in Some ((Op s, ArgList s, ArgCount s), ps\<lparr>ps_Scope := head, ps_PkgEnd := PkgEnd s\<rparr>, c, h))
          else Some ((0, 0, 0), ps, c, h))"

text \<open>The loop that pops and deletes every state of a list.\<close>

partial_function (option) delete_states :: "'c release \<Rightarrow> addr \<Rightarrow> 'c \<Rightarrow> sheap \<Rightarrow> ('c \<times> sheap) option" where
  "delete_states rel Head c h =
     (if Head \<noteq> 0
      then case live h Head of
             None \<Rightarrow> None
           | Some s \<Rightarrow> (case AcpiUtDeleteGenericState rel Head c h of (c, h) \<Rightarrow> delete_states rel (Next s) c h)
      else Some (c, h))"

definition AcpiPsCleanupScope ::
  "'c release \<Rightarrow> parse_state \<Rightarrow> 'c \<Rightarrow> sheap \<Rightarrow> (parse_state \<times> 'c \<times> sheap) option" where
  "AcpiPsCleanupScope rel ps c h =
     (case delete_states rel (ps_Scope ps) c h of
        None \<Rightarrow> None | Some (c, h) \<Rightarrow> Some (ps\<lparr>ps_Scope := 0\<rparr>, c, h))"

section \<open>Dispatcher scopes\<close>

record scope_info =
  ScopeInfo :: addr
  ScopeDepth :: u8

definition AcpiDsScopeStackClear ::
  "'c release \<Rightarrow> scope_info \<Rightarrow> 'c \<Rightarrow> sheap \<Rightarrow> (scope_info \<times> 'c \<times> sheap) option" where
  "AcpiDsScopeStackClear rel si c h =
     (case delete_states rel (ScopeInfo si) c h of
        None \<Rightarrow> None | Some (c, h) \<Rightarrow> Some (si\<lparr>ScopeInfo := 0\<rparr>, c, h))"

definition AcpiDsScopeStackPush ::
  "'c acquire \<Rightarrow> addr \<Rightarrow> u32 \<Rightarrow> scope_info \<Rightarrow> 'c \<Rightarrow> sheap \<Rightarrow> (acpi_status \<times> scope_info \<times> 'c \<times> sheap) option" where
  "AcpiDsScopeStackPush acq NewNode Type si c h =
     (if NewNode = 0 then Some (AE_BAD_PARAMETER, si, c, h)
      else case create_with (AcpiUtCreateGenericState acq)
                  (\<lambda>s. s\<lparr>DescriptorType := ACPI_DESC_TYPE_STATE_WSCOPE, Node := NewNode, Value := ucast Type\<rparr>) c h of
             None \<Rightarrow> None
           | Some (St, c, h) \<Rightarrow>
               if St = 0 then Some (AE_NO_MEMORY, si, c, h)
               else case AcpiUtPushGenericState (ScopeInfo si) St h of
                      None \<Rightarrow> None
                    | Some (h, head) \<Rightarrow>
                        Some (AE_OK, si\<lparr>ScopeDepth := ScopeDepth si + 1, ScopeInfo := head\<rparr>, c, h))"

definition AcpiDsScopeStackPop ::
  "'c release \<Rightarrow> scope_info \<Rightarrow> 'c \<Rightarrow> sheap \<Rightarrow> (acpi_status \<times> scope_info \<times> 'c \<times> sheap) option" where
  "AcpiDsScopeStackPop rel si c h =
     (case AcpiUtPopGenericState (ScopeInfo si) h of
        None \<Rightarrow> None
      | Some (St, head) \<Rightarrow>
          if St = 0 then Some (AE_STACK_UNDERFLOW, si\<lparr>ScopeInfo := head\<rparr>, c, h)
          else let (c, h) = AcpiUtDeleteGenericState rel St c h
               in Some (AE_OK, si\<lparr>ScopeInfo := head, ScopeDepth := ScopeDepth si - 1\<rparr>, c, h))"

section \<open>Deleting a walk state\<close>

text \<open>
  The heads of the four lists that a walk state owns; \<open>valid\<close> is the test of the descriptor
  type. The walk state itself is then freed.
\<close>

record walk_lists =
  wl_valid :: bool
  wl_ParserScope :: addr
  wl_ControlState :: addr
  wl_ScopeInfo :: addr
  wl_Results :: addr

definition AcpiDsDeleteWalkState :: "'c release \<Rightarrow> walk_lists option \<Rightarrow> 'c \<Rightarrow> sheap \<Rightarrow> ('c \<times> sheap) option" where
  "AcpiDsDeleteWalkState rel WalkState c h =
     (case WalkState of
        None \<Rightarrow> Some (c, h)
      | Some ws \<Rightarrow>
          if \<not> wl_valid ws then Some (c, h)
          else case (if wl_ParserScope ws \<noteq> 0 then delete_states rel (wl_ParserScope ws) c h else Some (c, h)) of
                 None \<Rightarrow> None
               | Some (c, h) \<Rightarrow>
                   (case delete_states rel (wl_ControlState ws) c h of
                      None \<Rightarrow> None
                    | Some (c, h) \<Rightarrow>
                        (case delete_states rel (wl_ScopeInfo ws) c h of
                           None \<Rightarrow> None
                         | Some (c, h) \<Rightarrow> delete_states rel (wl_Results ws) c h)))"

section \<open>The stacks as lists\<close>

text \<open>A view of the states of a stack, from the top down.\<close>

definition stack_view :: "(generic_state \<Rightarrow> 'v) \<Rightarrow> sheap \<Rightarrow> addr \<Rightarrow> 'v list \<Rightarrow> bool" where
  "stack_view f h p vs \<longleftrightarrow> (\<exists>as. slist h p as \<and> distinct as \<and> map (map_option f \<circ> live h) as = map Some vs)"

type_synonym pscope = "addr \<times> u32 \<times> u32 \<times> addr \<times> addr"

definition pscope_of :: "generic_state \<Rightarrow> pscope" where
  "pscope_of s = (Op s, ArgList s, ArgCount s, PkgEnd s, ArgEnd s)"

definition scope_of :: "generic_state \<Rightarrow> addr \<times> u16" where
  "scope_of s = (Node s, Value s)"

lemma stack_view_Nil [simp]: "stack_view f h p [] \<longleftrightarrow> p = 0"
  by (auto simp: stack_view_def)

lemma stack_view_null: "stack_view f h 0 vs \<longleftrightarrow> vs = []"
  by (auto simp: stack_view_def slist_empty)

lemma stack_view_ConsE:
  assumes "stack_view f h p (v # vs)"
  obtains s as where "p \<noteq> 0" "live h p = Some s" "f s = v" "slist h (Next s) as" "distinct as" "p \<notin> set as"
    "map (map_option f \<circ> live h) as = map Some vs"
proof -
  obtain as where "slist h p as" "distinct as" "map (map_option f \<circ> live h) as = map Some (v # vs)"
    using assms unfolding stack_view_def by blast
  then show thesis using that by (cases as) auto
qed

context state_pool
begin

lemma push_view:
  assumes "inv c h" and "stack_view f h p vs" and "live h a = None"
    and "inv c' h'" and "live h' = (live h)(a \<mapsto> s)" and "a \<noteq> 0"
  shows "\<exists>h2 as. AcpiUtPushGenericState p a h' = Some (h2, a) \<and> inv c' h2
    \<and> live h2 = (live h)(a \<mapsto> s\<lparr>Next := p\<rparr>) \<and> slist h2 a (a # as) \<and> distinct (a # as)
    \<and> map (map_option f \<circ> live h2) as = map Some vs"
proof -
  obtain as where as: "slist h p as" "distinct as" "map (map_option f \<circ> live h) as = map Some vs"
    using assms(2) by (auto simp: stack_view_def)
  have a: "a \<notin> set as" using slist_live [OF as(1)] assms(3) by blast
  then have "slist h' p as" using slist_other [OF as(1) assms(5)] by blast
  then obtain h2 where h2: "AcpiUtPushGenericState p a h' = Some (h2, a)" "inv c' h2"
      "live h2 = (live h')(a \<mapsto> s\<lparr>Next := p\<rparr>)" "slist h2 a (a # as)"
    using push_state [OF assms(4) _ _ a, of s p] assms(5) by auto
  have "map (map_option f \<circ> live h2) as = map (map_option f \<circ> live h) as"
    using a h2(3) assms(5) by (intro map_cong) auto
  then show ?thesis using h2 a as(2,3) assms(5) by auto
qed

lemma pop_view:
  assumes "inv c h" and "stack_view f h p (v # vs)"
  shows "\<exists>s c' h'. live h p = Some s \<and> f s = v \<and> AcpiUtPopGenericState p h = Some (p, Next s) \<and> p \<noteq> 0
    \<and> AcpiUtDeleteGenericState release p c h = (c', h') \<and> inv c' h' \<and> live h' = (live h)(p := None)
    \<and> stack_view f h' (Next s) vs"
proof -
  obtain s as where s: "p \<noteq> 0" "live h p = Some s" "f s = v" "slist h (Next s) as" "distinct as" "p \<notin> set as"
      "map (map_option f \<circ> live h) as = map Some vs"
    using assms(2) by (rule stack_view_ConsE)
  obtain c' h' where d: "AcpiUtDeleteGenericState release p c h = (c', h')" "inv c' h'" "live h' = (live h)(p := None)"
    using delete_state [OF assms(1)] s(2) by blast
  have "slist h' (Next s) as" using slist_other [OF s(4) d(3) s(6)] .
  moreover have "map (map_option f \<circ> live h') as = map (map_option f \<circ> live h) as"
    using s(6) d(3) by (intro map_cong) auto
  ultimately have "stack_view f h' (Next s) vs" using s(5,7) by (auto simp: stack_view_def)
  then show ?thesis using s d by (simp add: AcpiUtPopGenericState_def)
qed

text \<open>Deleting a list terminates and makes exactly its states dead.\<close>

lemma delete_list:
  "inv c h \<Longrightarrow> slist h p as \<Longrightarrow> distinct as \<Longrightarrow>
     \<exists>c' h'. delete_states release p c h = Some (c', h') \<and> inv c' h'
       \<and> live h' = (\<lambda>a. if a \<in> set as then None else live h a)"
proof (induction as arbitrary: p c h)
  case Nil
  then show ?case by (subst delete_states.simps) simp
next
  case (Cons a as)
  then obtain s where s: "p = a" "a \<noteq> 0" "live h a = Some s" "slist h (Next s) as" "a \<notin> set as" by auto
  obtain c1 h1 where d: "AcpiUtDeleteGenericState release a c h = (c1, h1)" "inv c1 h1" "live h1 = (live h)(a := None)"
    using delete_state [OF Cons.prems(1)] s(3) by blast
  have "slist h1 (Next s) as" using slist_other [OF s(4) d(3) s(5)] .
  from Cons.IH [OF d(2) this] Cons.prems(3) obtain c' h' where "delete_states release (Next s) c1 h1 = Some (c', h')" "inv c' h'"
      "live h' = (\<lambda>b. if b \<in> set as then None else live h1 b)"
    by auto
  then show ?case using s d by (subst delete_states.simps) (auto simp: fun_eq_iff)
qed

lemma push_pscope:
  assumes "inv c h" and "stack_view pscope_of h (ps_Scope ps) vs"
  shows "\<exists>st ps' c' h'. AcpiPsPushScope acquire NewOp Remaining Args ps c h = Some (st, ps', c', h') \<and> inv c' h'
    \<and> (st = AE_NO_MEMORY \<and> ps' = ps \<and> live h' = live h
       \<or> st = AE_OK \<and> ps' = ps\<lparr>ps_Scope := ps_Scope ps'\<rparr>
         \<and> stack_view pscope_of h' (ps_Scope ps') ((NewOp, Remaining, Args, ps_PkgEnd ps,
              if Args = ACPI_VAR_ARGS then ps_PkgEnd ps else ACPI_MAX_PTR) # vs))"
proof -
  let ?f = "\<lambda>s :: generic_state. s\<lparr>DescriptorType := ACPI_DESC_TYPE_STATE_PSCOPE, Op := NewOp, ArgList := Remaining,
      ArgCount := Args, PkgEnd := ps_PkgEnd ps\<rparr>"
  let ?e = "if Args = ACPI_VAR_ARGS then ps_PkgEnd ps else ACPI_MAX_PTR"
  let ?s = "?f (zero_state\<lparr>DescriptorType := ACPI_DESC_TYPE_STATE\<rparr>)"
  obtain a c' h' where a: "create_with (AcpiUtCreateGenericState acquire) ?f c h = Some (a, c', h')"
      and inv: "inv c' h'" and null: "a = 0 \<longrightarrow> live h' = live h"
      and new: "a \<noteq> 0 \<longrightarrow> live h a = None \<and> live h' = (live h)(a \<mapsto> ?s)"
    using create_with_state [OF assms(1), of ?f] by blast
  show ?thesis
  proof (cases "a = 0")
    case True
    then show ?thesis using a inv null by (simp add: AcpiPsPushScope_def)
  next
    case False
    with new have n: "live h a = None" "live h' = (live h)(a \<mapsto> ?s)" by simp_all
    obtain h2 as where h2: "AcpiUtPushGenericState (ps_Scope ps) a h' = Some (h2, a)" "inv c' h2"
        "live h2 = (live h)(a \<mapsto> ?s\<lparr>Next := ps_Scope ps\<rparr>)" "slist h2 a (a # as)" "distinct (a # as)"
        "map (map_option pscope_of \<circ> live h2) as = map Some vs"
      using push_view [OF assms(1,2) n(1) inv n(2) False] by blast
    let ?t = "?s\<lparr>Next := ps_Scope ps, ArgEnd := ?e\<rparr>"
    let ?h = "h2(a \<mapsto> Object ?t)"
    have l: "live h2 a = Some (?s\<lparr>Next := ps_Scope ps\<rparr>)" using h2(3) by simp
    have m: "modify a (\<lambda>s. s\<lparr>ArgEnd := ?e\<rparr>) h2 = Some ?h" using modify_live [OF l] by simp
    have "slist ?h a (a # as)" using slist_write_top [OF h2(4) l, of ?t] h2(5) by simp
    moreover have "map (map_option pscope_of \<circ> live ?h) as = map (map_option pscope_of \<circ> live h2) as"
      unfolding live_update using h2(5) by (intro map_cong) auto
    moreover have "(map_option pscope_of \<circ> live ?h) a = Some (NewOp, Remaining, Args, ps_PkgEnd ps, ?e)"
      unfolding live_update by (simp add: pscope_of_def)
    ultimately have "stack_view pscope_of ?h a ((NewOp, Remaining, Args, ps_PkgEnd ps, ?e) # vs)"
      using h2(5,6) unfolding stack_view_def by (intro exI [of _ "a # as"]) (simp only: list.map)
    moreover have "inv c' ?h" using write_inv [OF h2(2)] l by simp
    ultimately show ?thesis
      using a False h2(1) m by (auto simp: AcpiPsPushScope_def simp del: fun_upd_apply)
  qed
qed

lemma pop_pscope:
  assumes "inv c h" and "stack_view pscope_of h (ps_Scope ps) ((o1, al, ac, pe, ae) # v # vs)"
  shows "\<exists>ps' c' h'. AcpiPsPopScope release ps c h = Some ((o1, al, ac), ps', c', h') \<and> inv c' h'
    \<and> ps' = ps\<lparr>ps_Scope := ps_Scope ps', ps_PkgEnd := pe\<rparr> \<and> stack_view pscope_of h' (ps_Scope ps') (v # vs)"
proof -
  obtain s c' h' where s: "live h (ps_Scope ps) = Some s" "pscope_of s = (o1, al, ac, pe, ae)"
      "AcpiUtPopGenericState (ps_Scope ps) h = Some (ps_Scope ps, Next s)"
      "AcpiUtDeleteGenericState release (ps_Scope ps) c h = (c', h')" "inv c' h'"
      "stack_view pscope_of h' (Next s) (v # vs)"
    using pop_view [OF assms] by blast
  have "Next s \<noteq> 0" using s(6) by (auto simp: stack_view_null)
  then show ?thesis using s by (auto simp: AcpiPsPopScope_def pscope_of_def)
qed

lemma pop_pscope_moved:
  assumes "inv c h" and "stack_view pscope_of h (ps_Scope ps) ((o1, al, ac, pe, ae) # v # vs)"
  shows "\<exists>ps' c' h'. AcpiPsPopScope release (ps\<lparr>ps_Aml := aml, ps_PkgEnd := pkg\<rparr>) c h = Some ((o1, al, ac), ps', c', h')
    \<and> inv c' h' \<and> ps_PkgEnd ps' = pe \<and> stack_view pscope_of h' (ps_Scope ps') (v # vs)"
proof -
  let ?ps = "ps\<lparr>ps_Aml := aml, ps_PkgEnd := pkg\<rparr>"
  have "stack_view pscope_of h (ps_Scope ?ps) ((o1, al, ac, pe, ae) # v # vs)" using assms(2) by simp
  from pop_pscope [OF assms(1) this]
  obtain ps' c' h' where "AcpiPsPopScope release ?ps c h = Some ((o1, al, ac), ps', c', h')" "inv c' h'"
      and ps': "ps' = ?ps\<lparr>ps_Scope := ps_Scope ps', ps_PkgEnd := pe\<rparr>" "stack_view pscope_of h' (ps_Scope ps') (v # vs)"
    by blast
  moreover have "ps_PkgEnd ps' = pe" by (subst ps'(1)) simp
  ultimately show ?thesis by blast
qed

lemma push_scope:
  assumes "inv c h" and "stack_view scope_of h (ScopeInfo si) vs" and "NewNode \<noteq> 0"
  shows "\<exists>st si' c' h'. AcpiDsScopeStackPush acquire NewNode Type si c h = Some (st, si', c', h') \<and> inv c' h'
    \<and> (st = AE_NO_MEMORY \<and> si' = si \<and> live h' = live h
       \<or> st = AE_OK \<and> ScopeDepth si' = ScopeDepth si + 1 \<and> stack_view scope_of h' (ScopeInfo si') ((NewNode, ucast Type) # vs))"
proof -
  let ?f = "\<lambda>s :: generic_state. s\<lparr>DescriptorType := ACPI_DESC_TYPE_STATE_WSCOPE, Node := NewNode, Value := ucast Type\<rparr>"
  let ?s = "?f (zero_state\<lparr>DescriptorType := ACPI_DESC_TYPE_STATE\<rparr>)"
  obtain a c' h' where a: "create_with (AcpiUtCreateGenericState acquire) ?f c h = Some (a, c', h')"
      and inv: "inv c' h'" and null: "a = 0 \<longrightarrow> live h' = live h"
      and new: "a \<noteq> 0 \<longrightarrow> live h a = None \<and> live h' = (live h)(a \<mapsto> ?s)"
    using create_with_state [OF assms(1), of ?f] by blast
  show ?thesis
  proof (cases "a = 0")
    case True
    then show ?thesis using a inv null assms(3) by (simp add: AcpiDsScopeStackPush_def)
  next
    case False
    with new have n: "live h a = None" "live h' = (live h)(a \<mapsto> ?s)" by simp_all
    obtain h2 as where h2: "AcpiUtPushGenericState (ScopeInfo si) a h' = Some (h2, a)" "inv c' h2"
        "live h2 = (live h)(a \<mapsto> ?s\<lparr>Next := ScopeInfo si\<rparr>)" "slist h2 a (a # as)" "distinct (a # as)"
        "map (map_option scope_of \<circ> live h2) as = map Some vs"
      using push_view [OF assms(1,2) n(1) inv n(2) False] by blast
    have "(map_option scope_of \<circ> live h2) a = Some (NewNode, ucast Type)" using h2(3) by (simp add: scope_of_def)
    then have "stack_view scope_of h2 a ((NewNode, ucast Type) # vs)"
      using h2(4-6) unfolding stack_view_def by (intro exI [of _ "a # as"]) (simp only: list.map)
    then show ?thesis using a False h2(1,2) assms(3) by (auto simp: AcpiDsScopeStackPush_def)
  qed
qed

lemma pop_scope:
  assumes "inv c h" and "stack_view scope_of h (ScopeInfo si) (v # vs)"
  shows "\<exists>si' c' h'. AcpiDsScopeStackPop release si c h = Some (AE_OK, si', c', h') \<and> inv c' h'
    \<and> ScopeDepth si' = ScopeDepth si - 1 \<and> stack_view scope_of h' (ScopeInfo si') vs"
  using pop_view [OF assms] by (auto simp: AcpiDsScopeStackPop_def)

end

lemma pop_root_scope:
  "stack_view pscope_of h (ps_Scope ps) [v] \<Longrightarrow> AcpiPsPopScope rel ps c h = Some ((0, 0, 0), ps, c, h)"
  by (erule stack_view_ConsE) (auto simp: AcpiPsPopScope_def)


section \<open>Properties\<close>

text \<open>A parser state with the root scope and the scope of a method body.\<close>

definition root_scope :: generic_state where
  "root_scope = zero_state\<lparr>DescriptorType := ACPI_DESC_TYPE_STATE_RPSCOPE, Op := 0x100, ArgCount := ACPI_VAR_ARGS,
     ArgEnd := 0x9000, PkgEnd := 0x9000\<rparr>"

definition parser_example :: parse_state where
  "parser_example = \<lparr>ps_Aml = 0x8000, ps_AmlEnd = 0x9000, ps_PkgEnd = 0x9000, ps_StartOp = 0x100, ps_Scope = 0x1000\<rparr>"

lemma parser_example_scopes:
  "stack_view pscope_of [0x1000 \<mapsto> Object root_scope] (ps_Scope parser_example) [(0x100, 0, ACPI_VAR_ARGS, 0x9000, 0x9000)]"
  "cache_inv empty_cache [0x1000 \<mapsto> Object root_scope]"
  by (simp_all add: stack_view_def parser_example_def cache_inv_def empty_cache_def)
    (rule exI [of _ "[0x1000]"], simp add: live_def root_scope_def zero_state_def pscope_of_def)

text \<open>
  The parser's scope stack brackets: after \<open>AcpiPsPushScope\<close> has succeeded on a stack \<open>vs\<close>, whatever the
  parser then does to its position and package end, \<open>AcpiPsPopScope\<close> returns exactly the op,
  the remaining arguments and the argument count that were pushed, restores the package end that the parser had
  when it pushed, and leaves the stack \<open>vs\<close>. A failed push (\<open>AE_NO_MEMORY\<close>) changes nothing. Popping
  the root scope returns a null op and keeps the scope.
\<close>

theorem parser_scope_push_pop:
  assumes "cache_inv c h" and "stack_view pscope_of h (ps_Scope ps) (v # vs)"
  shows "(\<exists>st ps1 c1 h1. AcpiPsPushScope (cache_acquire pick zero_state) NewOp Remaining Args ps c h = Some (st, ps1, c1, h1)
      \<and> cache_inv c1 h1
      \<and> (st = AE_NO_MEMORY \<and> ps1 = ps \<and> live h1 = live h
         \<or> st = AE_OK \<and> AcpiPsGetParentScope ps1 h1 = Some NewOp
           \<and> (\<forall>aml pkg. \<exists>ps2 c2 h2. AcpiPsPopScope cache_release (ps1\<lparr>ps_Aml := aml, ps_PkgEnd := pkg\<rparr>) c1 h1 =
                Some ((NewOp, Remaining, Args), ps2, c2, h2) \<and> cache_inv c2 h2
                \<and> ps_PkgEnd ps2 = ps_PkgEnd ps \<and> stack_view pscope_of h2 (ps_Scope ps2) (v # vs))))
    \<and> (vs = [] \<longrightarrow> AcpiPsPopScope cache_release ps c h = Some ((0, 0, 0), ps, c, h))"
proof (intro conjI impI)
  obtain st ps1 c1 h1 where p: "AcpiPsPushScope (cache_acquire pick zero_state) NewOp Remaining Args ps c h = Some (st, ps1, c1, h1)"
      "cache_inv c1 h1" and r: "st = AE_NO_MEMORY \<and> ps1 = ps \<and> live h1 = live h
       \<or> st = AE_OK \<and> ps1 = ps\<lparr>ps_Scope := ps_Scope ps1\<rparr>
         \<and> stack_view pscope_of h1 (ps_Scope ps1) ((NewOp, Remaining, Args, ps_PkgEnd ps,
              if Args = ACPI_VAR_ARGS then ps_PkgEnd ps else ACPI_MAX_PTR) # v # vs)"
    using acpi_state.push_pscope [OF assms, of pick NewOp Remaining Args] by blast
  moreover have "AcpiPsGetParentScope ps1 h1 = Some NewOp"
    if "stack_view pscope_of h1 (ps_Scope ps1) ((NewOp, Remaining, Args, ps_PkgEnd ps, e) # v # vs)" for e
    using that by (rule stack_view_ConsE) (simp add: AcpiPsGetParentScope_def pscope_of_def)
  moreover note acpi_state.pop_pscope_moved [OF p(2)]
  ultimately show "\<exists>st ps1 c1 h1. AcpiPsPushScope (cache_acquire pick zero_state) NewOp Remaining Args ps c h = Some (st, ps1, c1, h1)
      \<and> cache_inv c1 h1
      \<and> (st = AE_NO_MEMORY \<and> ps1 = ps \<and> live h1 = live h
         \<or> st = AE_OK \<and> AcpiPsGetParentScope ps1 h1 = Some NewOp
           \<and> (\<forall>aml pkg. \<exists>ps2 c2 h2. AcpiPsPopScope cache_release (ps1\<lparr>ps_Aml := aml, ps_PkgEnd := pkg\<rparr>) c1 h1 =
                Some ((NewOp, Remaining, Args), ps2, c2, h2) \<and> cache_inv c2 h2
                \<and> ps_PkgEnd ps2 = ps_PkgEnd ps \<and> stack_view pscope_of h2 (ps_Scope ps2) (v # vs)))" by blast
next
  assume "vs = []"
  then show "AcpiPsPopScope cache_release ps c h = Some ((0, 0, 0), ps, c, h)"
    using pop_root_scope [of h ps v] assms(2) by simp
qed

theorem parser_scope_push_pop_witness:
  "AcpiPsPopScope cache_release parser_example empty_cache [0x1000 \<mapsto> Object root_scope] =
     Some ((0, 0, 0), parser_example, empty_cache, [0x1000 \<mapsto> Object root_scope])"
  using parser_scope_push_pop [OF parser_example_scopes(2,1)] by blast

text \<open>
  The dispatcher's scope stack: a push of a node puts it with its type on top and counts it, or
  changes nothing (\<open>AE_NO_MEMORY\<close>; \<open>AE_BAD_PARAMETER\<close> for a null node); a pop removes the top and
  fails with \<open>AE_STACK_UNDERFLOW\<close> exactly on the empty stack; clearing the stack terminates and
  empties it, deleting its states and no other.
\<close>

theorem dispatcher_scope_stack:
  assumes "cache_inv c h" and "stack_view scope_of h (ScopeInfo si) vs"
  shows "(\<exists>st si' c' h'. AcpiDsScopeStackPush (cache_acquire pick zero_state) NewNode Type si c h = Some (st, si', c', h')
      \<and> cache_inv c' h'
      \<and> (if NewNode = 0 then st = AE_BAD_PARAMETER \<and> si' = si \<and> h' = h
         else st = AE_NO_MEMORY \<and> si' = si \<and> live h' = live h
           \<or> st = AE_OK \<and> ScopeDepth si' = ScopeDepth si + 1
             \<and> stack_view scope_of h' (ScopeInfo si') ((NewNode, ucast Type) # vs)))
    \<and> (\<exists>st si' c' h'. AcpiDsScopeStackPop cache_release si c h = Some (st, si', c', h') \<and> cache_inv c' h'
      \<and> (if vs = [] then st = AE_STACK_UNDERFLOW \<and> si' = si \<and> h' = h
         else st = AE_OK \<and> ScopeDepth si' = ScopeDepth si - 1 \<and> stack_view scope_of h' (ScopeInfo si') (tl vs)))
    \<and> (\<exists>as c' h'. AcpiDsScopeStackClear cache_release si c h = Some (si\<lparr>ScopeInfo := 0\<rparr>, c', h') \<and> cache_inv c' h'
      \<and> slist h (ScopeInfo si) as \<and> live h' = (\<lambda>a. if a \<in> set as then None else live h a))"
proof (intro conjI)
  show "\<exists>st si' c' h'. AcpiDsScopeStackPush (cache_acquire pick zero_state) NewNode Type si c h = Some (st, si', c', h')
      \<and> cache_inv c' h'
      \<and> (if NewNode = 0 then st = AE_BAD_PARAMETER \<and> si' = si \<and> h' = h
         else st = AE_NO_MEMORY \<and> si' = si \<and> live h' = live h
           \<or> st = AE_OK \<and> ScopeDepth si' = ScopeDepth si + 1
             \<and> stack_view scope_of h' (ScopeInfo si') ((NewNode, ucast Type) # vs))"
    using acpi_state.push_scope [OF assms, of NewNode pick Type] assms(1)
    by (cases "NewNode = 0") (simp_all add: AcpiDsScopeStackPush_def [of _ 0])
  show "\<exists>st si' c' h'. AcpiDsScopeStackPop cache_release si c h = Some (st, si', c', h') \<and> cache_inv c' h'
      \<and> (if vs = [] then st = AE_STACK_UNDERFLOW \<and> si' = si \<and> h' = h
         else st = AE_OK \<and> ScopeDepth si' = ScopeDepth si - 1 \<and> stack_view scope_of h' (ScopeInfo si') (tl vs))"
  proof (cases vs)
    case Nil
    then have "ScopeInfo si = 0" using assms(2) by simp
    then show ?thesis using Nil assms(1) by (simp add: AcpiDsScopeStackPop_def AcpiUtPopGenericState_def)
  next
    case (Cons v ws)
    then show ?thesis using acpi_state.pop_scope [OF assms(1) assms(2) [unfolded Cons]] by auto
  qed
  obtain as where as: "slist h (ScopeInfo si) as" "distinct as" using assms(2) by (auto simp: stack_view_def)
  then show "\<exists>as c' h'. AcpiDsScopeStackClear cache_release si c h = Some (si\<lparr>ScopeInfo := 0\<rparr>, c', h') \<and> cache_inv c' h'
      \<and> slist h (ScopeInfo si) as \<and> live h' = (\<lambda>a. if a \<in> set as then None else live h a)"
    using acpi_state.delete_list [OF assms(1) as] unfolding AcpiDsScopeStackClear_def by fastforce
qed

theorem dispatcher_scope_stack_witness:
  "\<exists>as c' h'. AcpiDsScopeStackClear cache_release \<lparr>ScopeInfo = 0x1000, ScopeDepth = 1\<rparr> empty_cache [0x1000 \<mapsto> Object root_scope] =
       Some (\<lparr>ScopeInfo = 0, ScopeDepth = 1\<rparr>, c', h') \<and> cache_inv c' h'
     \<and> slist [0x1000 \<mapsto> Object root_scope] 0x1000 as
     \<and> live h' = (\<lambda>a. if a \<in> set as then None else live [0x1000 \<mapsto> Object root_scope] a)"
proof -
  have "stack_view scope_of [0x1000 \<mapsto> Object root_scope] (ScopeInfo \<lparr>ScopeInfo = 0x1000, ScopeDepth = 1\<rparr>) [(0, 0)]"
    by (simp add: stack_view_def)
      (rule exI [of _ "[0x1000]"], simp add: live_def root_scope_def zero_state_def scope_of_def)
  from dispatcher_scope_stack [OF parser_example_scopes(2) this] show ?thesis by simp
qed

text \<open>
  C35. \<open>AcpiDsDeleteWalkState\<close> on a walk state whose parser scope, control, scope and result lists are
  well-formed and share no state terminates and deletes exactly the states of these four lists.
\<close>

theorem delete_walk_state_exact:
  assumes "cache_inv c h" and "wl_valid ws"
    and "slist h (wl_ParserScope ws) as" and "slist h (wl_ControlState ws) bs"
    and "slist h (wl_ScopeInfo ws) cs" and "slist h (wl_Results ws) ds"
    and "distinct (as @ bs @ cs @ ds)"
  shows "\<exists>c' h'. AcpiDsDeleteWalkState cache_release (Some ws) c h = Some (c', h') \<and> cache_inv c' h'
    \<and> live h' = (\<lambda>a. if a \<in> set (as @ bs @ cs @ ds) then None else live h a)"
proof -
  obtain c1 h1 where 1: "delete_states cache_release (wl_ParserScope ws) c h = Some (c1, h1)" "cache_inv c1 h1"
      "live h1 = (\<lambda>a. if a \<in> set as then None else live h a)"
    using acpi_state.delete_list [OF assms(1,3)] assms(7) by auto
  have disj: "set as \<inter> set bs = {}" "set as \<inter> set cs = {}" "set as \<inter> set ds = {}" "set bs \<inter> set cs = {}"
      "set bs \<inter> set ds = {}" "set cs \<inter> set ds = {}" using assms(7) by auto
  have dist: "distinct bs" "distinct cs" "distinct ds" using assms(7) by auto
  note del1 = slist_deleted [OF _ 1(3)]
  have "slist h1 (wl_ControlState ws) bs" using del1 [OF assms(4) disj(1)] .
  then obtain c2 h2 where 2: "delete_states cache_release (wl_ControlState ws) c1 h1 = Some (c2, h2)" "cache_inv c2 h2"
      "live h2 = (\<lambda>a. if a \<in> set bs then None else live h1 a)"
    using acpi_state.delete_list [OF 1(2) _ dist(1)] by blast
  note del2 = slist_deleted [OF _ 2(3)]
  have "slist h2 (wl_ScopeInfo ws) cs" using del2 [OF del1 [OF assms(5) disj(2)] disj(4)] .
  then obtain c3 h3 where 3: "delete_states cache_release (wl_ScopeInfo ws) c2 h2 = Some (c3, h3)" "cache_inv c3 h3"
      "live h3 = (\<lambda>a. if a \<in> set cs then None else live h2 a)"
    using acpi_state.delete_list [OF 2(2) _ dist(2)] by blast
  have "slist h3 (wl_Results ws) ds"
    using slist_deleted [OF del2 [OF del1 [OF assms(6) disj(3)] disj(5)] 3(3) disj(6)] .
  then obtain c4 h4 where 4: "delete_states cache_release (wl_Results ws) c3 h3 = Some (c4, h4)" "cache_inv c4 h4"
      "live h4 = (\<lambda>a. if a \<in> set ds then None else live h3 a)"
    using acpi_state.delete_list [OF 3(2) _ dist(3)] by blast
  have "(if wl_ParserScope ws \<noteq> 0 then delete_states cache_release (wl_ParserScope ws) c h else Some (c, h)) = Some (c1, h1)"
    using 1(1) by (auto simp: delete_states.simps)
  then have "AcpiDsDeleteWalkState cache_release (Some ws) c h = Some (c4, h4)"
    using assms(2) 2(1) 3(1) 4(1) by (simp add: AcpiDsDeleteWalkState_def)
  then show ?thesis using 4(2,3) 3(3) 2(3) 1(3) by auto
qed

theorem delete_walk_state_exact_witness:
  "\<exists>c' h'. AcpiDsDeleteWalkState cache_release
       (Some \<lparr>wl_valid = True, wl_ParserScope = 0x1000, wl_ControlState = 0, wl_ScopeInfo = 0, wl_Results = 0\<rparr>)
       empty_cache [0x1000 \<mapsto> Object root_scope] = Some (c', h') \<and> cache_inv c' h'
     \<and> live h' = (\<lambda>a. if a \<in> set ([0x1000] @ [] @ [] @ []) then None else live [0x1000 \<mapsto> Object root_scope] a)"
  by (rule delete_walk_state_exact [OF parser_example_scopes(2)])
    (simp_all add: live_def root_scope_def zero_state_def)

end
