(* ===== verification/AddressRange.thy ===== *)
theory AddressRange
  imports Cache
begin

text \<open>
  The ranges of the operation regions in system memory and I/O space, \<^verbatim>\<open>utaddress.c\<close>: two
  singly-linked lists of range objects in the heap of theory Cache. A physical address is a 64-bit word; the
  list heads are indexed by the address space identifier. An access to an object that is not allocated is \<open>None\<close>.
\<close>

record address_range =
  ar_Next :: addr
  ar_RegionNode :: addr
  ar_StartAddress :: u64
  ar_EndAddress :: u64

record range_lists =
  AddressRangeList :: "addr list"
  range_heap :: "address_range heap"

definition ACPI_ADR_SPACE_SYSTEM_MEMORY :: u8 where "ACPI_ADR_SPACE_SYSTEM_MEMORY = 0"
definition ACPI_ADR_SPACE_SYSTEM_IO :: u8 where "ACPI_ADR_SPACE_SYSTEM_IO = 1"
definition ACPI_ADDRESS_RANGE_MAX :: nat where "ACPI_ADDRESS_RANGE_MAX = 2"

definition AcpiUtAddAddressRange ::
  "(address_range heap \<Rightarrow> addr) \<Rightarrow> u8 \<Rightarrow> u64 \<Rightarrow> u32 \<Rightarrow> addr \<Rightarrow> range_lists \<Rightarrow> acpi_status \<times> range_lists" where
  "AcpiUtAddAddressRange pick SpaceId Address Length RegionNode rl =
     (if SpaceId \<noteq> ACPI_ADR_SPACE_SYSTEM_MEMORY \<and> SpaceId \<noteq> ACPI_ADR_SPACE_SYSTEM_IO then (AE_OK, rl)
      else let RangeInfo = AcpiOsAllocate pick (range_heap rl)
           in if RangeInfo = 0 then (AE_NO_MEMORY, rl)
              else (AE_OK, rl\<lparr>range_heap := (range_heap rl)(RangeInfo \<mapsto>
                        Object \<lparr>ar_Next = AddressRangeList rl ! unat SpaceId, ar_RegionNode = RegionNode,
                                ar_StartAddress = Address, ar_EndAddress = Address + ucast Length - 1\<rparr>),
                      AddressRangeList := (AddressRangeList rl)[unat SpaceId := RangeInfo]\<rparr>))"

partial_function (option) remove_loop :: "u8 \<Rightarrow> addr \<Rightarrow> addr \<Rightarrow> addr \<Rightarrow> range_lists \<Rightarrow> range_lists option" where
  "remove_loop SpaceId Node Prev RangeInfo rl =
     (if RangeInfo \<noteq> 0
      then case live (range_heap rl) RangeInfo of
             None \<Rightarrow> None
           | Some r \<Rightarrow>
               if ar_RegionNode r = Node
               then if RangeInfo = Prev
                    then Some (rl\<lparr>AddressRangeList := (AddressRangeList rl)[unat SpaceId := ar_Next r],
                                  range_heap := (range_heap rl)(RangeInfo := None)\<rparr>)
                    else case live (range_heap rl) Prev of
                           None \<Rightarrow> None
                         | Some q \<Rightarrow>
                             Some (rl\<lparr>range_heap := ((range_heap rl)(Prev \<mapsto> Object (q\<lparr>ar_Next := ar_Next r\<rparr>)))
                                                      (RangeInfo := None)\<rparr>)
               else remove_loop SpaceId Node RangeInfo (ar_Next r) rl
      else Some rl)"

definition AcpiUtRemoveAddressRange :: "u8 \<Rightarrow> addr \<Rightarrow> range_lists \<Rightarrow> range_lists option" where
  "AcpiUtRemoveAddressRange SpaceId Node rl =
     (if SpaceId \<noteq> ACPI_ADR_SPACE_SYSTEM_MEMORY \<and> SpaceId \<noteq> ACPI_ADR_SPACE_SYSTEM_IO then Some rl
      else let RangeInfo = AddressRangeList rl ! unat SpaceId
           in remove_loop SpaceId Node RangeInfo RangeInfo rl)"

partial_function (option) check_loop ::
  "u64 \<Rightarrow> u64 \<Rightarrow> addr \<Rightarrow> address_range heap \<Rightarrow> u32 \<Rightarrow> u32 option" where
  "check_loop Address EndAddress RangeInfo h OverlapCount =
     (if RangeInfo \<noteq> 0
      then case live h RangeInfo of
             None \<Rightarrow> None
           | Some r \<Rightarrow>
               check_loop Address EndAddress (ar_Next r) h
                 (if Address \<le> ar_EndAddress r \<and> EndAddress \<ge> ar_StartAddress r
                  then OverlapCount + 1 else OverlapCount)
      else Some OverlapCount)"

definition AcpiUtCheckAddressRange :: "u8 \<Rightarrow> u64 \<Rightarrow> u32 \<Rightarrow> range_lists \<Rightarrow> u32 option" where
  "AcpiUtCheckAddressRange SpaceId Address Length rl =
     (if SpaceId \<noteq> ACPI_ADR_SPACE_SYSTEM_MEMORY \<and> SpaceId \<noteq> ACPI_ADR_SPACE_SYSTEM_IO then Some 0
      else check_loop Address (Address + ucast Length - 1) (AddressRangeList rl ! unat SpaceId) (range_heap rl) 0)"

partial_function (option) free_ranges :: "addr \<Rightarrow> address_range heap \<Rightarrow> address_range heap option" where
  "free_ranges Head h =
     (if Head \<noteq> 0
      then case live h Head of None \<Rightarrow> None | Some r \<Rightarrow> free_ranges (ar_Next r) (h(Head := None))
      else Some h)"

function delete_from :: "nat \<Rightarrow> range_lists \<Rightarrow> range_lists option" where
  "delete_from i rl =
     (if i < ACPI_ADDRESS_RANGE_MAX
      then case free_ranges (AddressRangeList rl ! i) (range_heap rl) of
             None \<Rightarrow> None
           | Some h \<Rightarrow> delete_from (i + 1) (rl\<lparr>range_heap := h, AddressRangeList := (AddressRangeList rl)[i := 0]\<rparr>)
      else Some rl)"
  by pat_completeness auto

termination by (relation "measure (\<lambda>(i, _). 2 - i)") (auto simp: ACPI_ADDRESS_RANGE_MAX_def)

declare delete_from.simps [simp del]

definition AcpiUtDeleteAddressLists :: "range_lists \<Rightarrow> range_lists option" where
  "AcpiUtDeleteAddressLists rl = delete_from 0 rl"

section \<open>The lists of ranges\<close>

text \<open>An entry: the region and its first and last address.\<close>

type_synonym range_entry = "addr \<times> u64 \<times> u64"

definition entry :: "address_range \<Rightarrow> range_entry" where
  "entry r = (ar_RegionNode r, ar_StartAddress r, ar_EndAddress r)"

abbreviation rlist :: "address_range heap \<Rightarrow> addr \<Rightarrow> addr list \<Rightarrow> bool" where
  "rlist \<equiv> linked ar_Next"

definition entries :: "address_range heap \<Rightarrow> addr list \<Rightarrow> range_entry list" where
  "entries h as = map (\<lambda>a. entry (the (live h a))) as"

text \<open>
  The global state holds the memory ranges \<open>ms\<close> and the I/O ranges \<open>ios\<close>, newest first, and
  nothing else.
\<close>

definition ranges :: "range_lists \<Rightarrow> range_entry list \<Rightarrow> range_entry list \<Rightarrow> bool" where
  "ranges rl ms ios \<longleftrightarrow> (\<exists>p q as bs. AddressRangeList rl = [p, q] \<and> rlist (range_heap rl) p as \<and> rlist (range_heap rl) q bs
     \<and> distinct (as @ bs) \<and> entries (range_heap rl) as = ms \<and> entries (range_heap rl) bs = ios
     \<and> (\<forall>a. live (range_heap rl) a \<noteq> None \<longrightarrow> a \<in> set (as @ bs)))"

lemma rangesI:
  assumes "AddressRangeList rl = [p, q]" and "rlist (range_heap rl) p as" and "rlist (range_heap rl) q bs"
    and "distinct (as @ bs)" and "entries (range_heap rl) as = ms" and "entries (range_heap rl) bs = ios"
    and "\<forall>a. live (range_heap rl) a \<noteq> None \<longrightarrow> a \<in> set as \<union> set bs"
  shows "ranges rl ms ios"
  using assms unfolding ranges_def set_append by blast

fun remove_first :: "addr \<Rightarrow> range_entry list \<Rightarrow> range_entry list" where
  "remove_first n [] = []"
| "remove_first n (e # es) = (if fst e = n then es else e # remove_first n es)"


lemma entries_simps [simp]: "entries h [] = []" "entries h (a # as) = entry (the (live h a)) # entries h as"
  by (simp_all add: entries_def)

lemma entries_cong: "(\<And>a. a \<in> set as \<Longrightarrow> live h' a = live h a) \<Longrightarrow> entries h' as = entries h as"
  by (simp add: entries_def)

definition overlaps :: "u64 \<Rightarrow> u64 \<Rightarrow> range_entry \<Rightarrow> bool" where
  "overlaps A E = (\<lambda>(n, s, e). A \<le> e \<and> E \<ge> s)"

lemma check_loop_count:
  "rlist h p as \<Longrightarrow> check_loop A E p h c = Some (c + of_nat (length (filter (overlaps A E) (entries h as))))"
proof (induction as arbitrary: p c)
  case Nil
  then show ?case by (subst check_loop.simps) simp
next
  case (Cons a as)
  then show ?case by (subst check_loop.simps) (auto simp: overlaps_def entry_def)
qed

lemma free_ranges_list:
  "rlist h p as \<Longrightarrow> distinct as \<Longrightarrow>
     \<exists>h'. free_ranges p h = Some h' \<and> live h' = (\<lambda>a. if a \<in> set as then None else live h a)"
proof (induction as arbitrary: p h)
  case Nil
  then show ?case by (subst free_ranges.simps) simp
next
  case (Cons a as)
  then obtain r where r: "p = a" "a \<noteq> 0" "live h a = Some r" "rlist h (ar_Next r) as" "a \<notin> set as" by auto
  define h1 where "h1 = h(a := None)"
  have l: "live h1 = (live h)(a := None)" unfolding h1_def by (rule live_update)
  have "rlist h1 (ar_Next r) as" using linked_other [OF r(4) l r(5)] .
  from Cons.IH [OF this] Cons.prems(2)
  obtain h' where h': "free_ranges (ar_Next r) h1 = Some h'" "live h' = (\<lambda>b. if b \<in> set as then None else live h1 b)" by auto
  have "free_ranges p h = Some h'" using r h'(1) unfolding h1_def by (subst free_ranges.simps) simp
  then show ?case using h'(2) l by (auto simp: fun_eq_iff)
qed

text \<open>What a removal does to a list: the first entry of the node goes, with its object.\<close>

definition removed :: "addr \<Rightarrow> address_range heap \<Rightarrow> addr list \<Rightarrow> address_range heap \<Rightarrow> addr list \<Rightarrow> bool" where
  "removed n h as h' as' \<longleftrightarrow> distinct as' \<and> set as' \<subseteq> set as \<and> entries h' as' = remove_first n (entries h as)
     \<and> (\<forall>a. a \<notin> set as \<longrightarrow> live h' a = live h a) \<and> (\<forall>a \<in> set as. live h' a \<noteq> None \<longrightarrow> a \<in> set as')"

lemma remove_tail:
  "live (range_heap rl) b = Some q \<Longrightarrow> rlist (range_heap rl) (ar_Next q) cs \<Longrightarrow> distinct (b # cs) \<Longrightarrow> b \<noteq> 0 \<Longrightarrow>
     \<exists>h' cs'. remove_loop i n b (ar_Next q) rl = Some (rl\<lparr>range_heap := h'\<rparr>)
       \<and> (\<exists>q'. live h' b = Some q' \<and> entry q' = entry q \<and> rlist h' (ar_Next q') cs')
       \<and> (\<forall>a. a \<notin> set (b # cs) \<longrightarrow> live h' a = live (range_heap rl) a)
       \<and> distinct cs' \<and> set cs' \<subseteq> set cs \<and> entries h' cs' = remove_first n (entries (range_heap rl) cs)
       \<and> (\<forall>a \<in> set cs. live h' a \<noteq> None \<longrightarrow> a \<in> set cs')"
proof (induction cs arbitrary: b q)
  case Nil
  then show ?case
    by (intro exI [of _ "range_heap rl"] exI [of _ "[]"]) (subst remove_loop.simps, simp)
next
  case (Cons c ds)
  let ?h = "range_heap rl"
  obtain r where r: "ar_Next q = c" "c \<noteq> 0" "live ?h c = Some r" "rlist ?h (ar_Next r) ds"
    using Cons.prems(2) by auto
  have d: "b \<noteq> c" "b \<notin> set ds" "c \<notin> set ds" "distinct ds" using Cons.prems(3) by auto
  show ?case
  proof (cases "ar_RegionNode r = n")
    case True
    let ?q = "q\<lparr>ar_Next := ar_Next r\<rparr>"
    define h1 where "h1 = ?h(b \<mapsto> Object ?q)"
    define h' where "h' = h1(c := None)"
    have l1: "live h1 = (live ?h)(b \<mapsto> ?q)" unfolding h1_def by (rule live_update)
    have l: "live h' = (live h1)(c := None)" unfolding h'_def by (rule live_update)
    have "remove_loop i n b (ar_Next q) rl = Some (rl\<lparr>range_heap := h'\<rparr>)"
      using r True Cons.prems(1) d(1) unfolding h'_def h1_def by (subst remove_loop.simps) simp
    moreover have "rlist h' (ar_Next r) ds" using linked_other [OF linked_other [OF r(4) l1] l] d by blast
    moreover have "entries h' ds = entries ?h ds" using d l l1 by (intro entries_cong) auto
    moreover have "entry ?q = entry q" by (simp add: entry_def)
    ultimately show ?thesis
      using l l1 d r(3) True by (intro exI [of _ h'] exI [of _ ds]) (auto simp: entry_def)
  next
    case False
    obtain h' ds' where h': "remove_loop i n c (ar_Next r) rl = Some (rl\<lparr>range_heap := h'\<rparr>)"
        "\<exists>q'. live h' c = Some q' \<and> entry q' = entry r \<and> rlist h' (ar_Next q') ds'"
        "\<forall>a. a \<notin> set (c # ds) \<longrightarrow> live h' a = live ?h a" "distinct ds'" "set ds' \<subseteq> set ds"
        "entries h' ds' = remove_first n (entries ?h ds)" "\<forall>a \<in> set ds. live h' a \<noteq> None \<longrightarrow> a \<in> set ds'"
      using Cons.IH [OF r(3,4)] r(2) d by auto
    have step: "remove_loop i n b (ar_Next q) rl = remove_loop i n c (ar_Next r) rl"
      using r False by (subst remove_loop.simps) simp
    have "live h' b = Some q" using h'(3) d Cons.prems(1) by auto
    moreover have "rlist h' (ar_Next q) (c # ds')" using h'(2) r(1,2) by auto
    moreover have "entries h' (c # ds') = remove_first n (entries ?h (c # ds))"
      using h'(2,6) r(3) False by (auto simp: entry_def)
    ultimately show ?thesis
      using h'(1,3,4,5,7) d step by (intro exI [of _ h'] exI [of _ "c # ds'"]) auto
  qed
qed

lemma remove_list:
  assumes "rlist (range_heap rl) p as" and "distinct as" and "AddressRangeList rl ! unat i = p"
  shows "\<exists>p' h' as'. remove_loop i n p p rl =
      Some (rl\<lparr>range_heap := h', AddressRangeList := (AddressRangeList rl)[unat i := p']\<rparr>)
    \<and> rlist h' p' as' \<and> removed n (range_heap rl) as h' as'"
proof (cases as)
  case Nil
  have "rl = rl\<lparr>range_heap := range_heap rl, AddressRangeList := (AddressRangeList rl)[unat i := p]\<rparr>"
    using list_update_id [of "AddressRangeList rl" "unat i"] assms(3) by simp
  moreover have "remove_loop i n p p rl = Some rl" using Nil assms(1) by (subst remove_loop.simps) simp
  ultimately show ?thesis
    using Nil assms(1) by (intro exI [of _ p] exI [of _ "range_heap rl"] exI [of _ "[]"]) (simp add: removed_def)
next
  case (Cons a cs)
  let ?h = "range_heap rl"
  obtain r where r: "p = a" "a \<noteq> 0" "live ?h a = Some r" "rlist ?h (ar_Next r) cs" "a \<notin> set cs" "distinct cs"
    using assms(1,2) Cons by auto
  show ?thesis
  proof (cases "ar_RegionNode r = n")
    case True
    define h1 where "h1 = ?h(a := None)"
    have l: "live h1 = (live ?h)(a := None)" unfolding h1_def by (rule live_update)
    have "remove_loop i n p p rl = Some (rl\<lparr>AddressRangeList := (AddressRangeList rl)[unat i := ar_Next r], range_heap := h1\<rparr>)"
      using r True unfolding h1_def by (subst remove_loop.simps) simp
    moreover have "rlist h1 (ar_Next r) cs" using linked_other [OF r(4) l r(5)] .
    moreover have "entries h1 cs = entries ?h cs" using l r(5) by (intro entries_cong) auto
    ultimately show ?thesis
      using r True Cons l unfolding removed_def
      by (intro exI [of _ "ar_Next r"] exI [of _ h1] exI [of _ cs]) (auto simp: entry_def)
  next
    case False
    obtain h' cs' where h': "remove_loop i n a (ar_Next r) rl = Some (rl\<lparr>range_heap := h'\<rparr>)"
        "\<exists>q'. live h' a = Some q' \<and> entry q' = entry r \<and> rlist h' (ar_Next q') cs'"
        "\<forall>b. b \<notin> set (a # cs) \<longrightarrow> live h' b = live ?h b" "distinct cs'" "set cs' \<subseteq> set cs"
        "entries h' cs' = remove_first n (entries ?h cs)" "\<forall>b \<in> set cs. live h' b \<noteq> None \<longrightarrow> b \<in> set cs'"
      using remove_tail [OF r(3,4), of i n] r by auto
    have "remove_loop i n p p rl = remove_loop i n a (ar_Next r) rl"
      using r False by (subst remove_loop.simps) simp
    moreover have "rlist h' a (a # cs')" using h'(2) r(2) by auto
    moreover have "removed n ?h as h' (a # cs')"
      using h'(2-7) r(3,5) False Cons unfolding removed_def by (auto simp: entry_def)
    moreover have "rl\<lparr>range_heap := h', AddressRangeList := (AddressRangeList rl)[unat i := a]\<rparr> = rl\<lparr>range_heap := h'\<rparr>"
      using list_update_id [of "AddressRangeList rl" "unat i"] assms(3) r(1) by simp
    ultimately show ?thesis
      using h'(1) r(1) by (intro exI [of _ a] exI [of _ h'] exI [of _ "a # cs'"]) simp
  qed
qed


section \<open>The global lists\<close>

text \<open>Replacing one of two lists: the objects of the other list are not touched.\<close>

lemma removed_other:
  assumes "removed n h as h' as'" and "set as \<inter> set bs = {}" and "rlist h q bs"
  shows "rlist h' q bs" and "entries h' bs = entries h bs"
proof -
  have same: "live h' b = live h b" if "b \<in> set bs" for b using assms(1,2) that by (auto simp: removed_def)
  then show "rlist h' q bs" using linked_cong [of bs h' h ar_Next q] assms(3) by blast
  show "entries h' bs = entries h bs" using same by (rule entries_cong)
qed

lemma removed_only:
  assumes "removed n h as h' as'" and "\<forall>a. live h a \<noteq> None \<longrightarrow> a \<in> set as \<union> set bs"
  shows "\<forall>a. live h' a \<noteq> None \<longrightarrow> a \<in> set as' \<union> set bs"
  using assms unfolding removed_def by (metis Un_iff)

lemma remove_range:
  assumes "ranges rl ms ios"
  shows "\<exists>rl'. AcpiUtRemoveAddressRange 0 n rl = Some rl' \<and> ranges rl' (remove_first n ms) ios"
    and "\<exists>rl'. AcpiUtRemoveAddressRange 1 n rl = Some rl' \<and> ranges rl' ms (remove_first n ios)"
proof -
  obtain p q as bs where rl: "AddressRangeList rl = [p, q]" "rlist (range_heap rl) p as" "rlist (range_heap rl) q bs"
      "distinct (as @ bs)" "entries (range_heap rl) as = ms" "entries (range_heap rl) bs = ios"
      "\<forall>a. live (range_heap rl) a \<noteq> None \<longrightarrow> a \<in> set as \<union> set bs"
    using assms by (auto simp: ranges_def)
  note space = ACPI_ADR_SPACE_SYSTEM_MEMORY_def ACPI_ADR_SPACE_SYSTEM_IO_def
  have disj: "set as \<inter> set bs = {}" "set bs \<inter> set as = {}" "distinct as" "distinct bs" using rl(4) by auto
  obtain p' h' as' where r: "remove_loop 0 n p p rl = Some (rl\<lparr>range_heap := h', AddressRangeList := [p', q]\<rparr>)"
      "rlist h' p' as'" "removed n (range_heap rl) as h' as'"
    using remove_list [OF rl(2) disj(3), of 0 n] rl(1) by auto
  have "ranges (rl\<lparr>range_heap := h', AddressRangeList := [p', q]\<rparr>) (remove_first n ms) ios"
    using r(2,3) removed_other [OF r(3) disj(1) rl(3)] removed_only [OF r(3) rl(7)] disj rl(5,6)
    by (intro rangesI [of _ p' q as' bs]) (auto simp: removed_def)
  then show "\<exists>rl'. AcpiUtRemoveAddressRange 0 n rl = Some rl' \<and> ranges rl' (remove_first n ms) ios"
    using r(1) rl(1) by (simp add: AcpiUtRemoveAddressRange_def space Let_def)
  obtain q' h' bs' where r: "remove_loop 1 n q q rl = Some (rl\<lparr>range_heap := h', AddressRangeList := [p, q']\<rparr>)"
      "rlist h' q' bs'" "removed n (range_heap rl) bs h' bs'"
    using remove_list [OF rl(3) disj(4), of 1 n] rl(1) by auto
  have "\<forall>a. live (range_heap rl) a \<noteq> None \<longrightarrow> a \<in> set bs \<union> set as" using rl(7) by blast
  then have "ranges (rl\<lparr>range_heap := h', AddressRangeList := [p, q']\<rparr>) ms (remove_first n ios)"
    using r(2,3) removed_other [OF r(3) disj(2) rl(2)] removed_only [OF r(3), of as] disj rl(5,6)
    by (intro rangesI [of _ p q' as bs']) (auto simp: removed_def)
  then show "\<exists>rl'. AcpiUtRemoveAddressRange 1 n rl = Some rl' \<and> ranges rl' ms (remove_first n ios)"
    using r(1) rl(1) by (simp add: AcpiUtRemoveAddressRange_def space Let_def)
qed

lemma new_range:
  assumes "AcpiOsAllocate pick h \<noteq> 0" and "rlist h p as" and "rlist h q bs" and "distinct (as @ bs)"
    and only: "\<forall>a. live h a \<noteq> None \<longrightarrow> a \<in> set as \<union> set bs" and h': "h' = h(AcpiOsAllocate pick h \<mapsto> Object r)"
    and "ar_Next r = p"
  shows "rlist h' (AcpiOsAllocate pick h) (AcpiOsAllocate pick h # as)" and "rlist h' q bs"
    and "entries h' (AcpiOsAllocate pick h # as) = entry r # entries h as" and "entries h' bs = entries h bs"
    and "distinct ((AcpiOsAllocate pick h # as) @ bs)"
    and "\<forall>a. live h' a \<noteq> None \<longrightarrow> a \<in> set (AcpiOsAllocate pick h # as) \<union> set bs"
proof -
  let ?a = "AcpiOsAllocate pick h"
  have l: "live h' = (live h)(?a \<mapsto> r)" unfolding h' by (rule live_update)
  have "live h ?a = None" using assms(1) by (auto simp: AcpiOsAllocate_def live_def Let_def split: if_splits)
  then have a: "?a \<notin> set as" "?a \<notin> set bs" using linked_live [OF assms(2)] linked_live [OF assms(3)] by blast+
  show "rlist h' q bs" using linked_other [OF assms(3) l a(2)] .
  show "rlist h' ?a (?a # as)" using linked_other [OF assms(2) l a(1)] l assms(1,7) by simp
  show "entries h' (?a # as) = entry r # entries h as" "entries h' bs = entries h bs"
    using l a by (auto simp: entries_def)
  show "distinct ((?a # as) @ bs)" using a assms(4) by simp
  show "\<forall>b. live h' b \<noteq> None \<longrightarrow> b \<in> set (?a # as) \<union> set bs" using l only by auto
qed

lemma add_range:
  assumes "ranges rl ms ios" and "i = 0 \<or> i = 1"
  shows "\<exists>st rl'. AcpiUtAddAddressRange pick i A L n rl = (st, rl')
    \<and> (st = AE_NO_MEMORY \<and> rl' = rl
       \<or> st = AE_OK \<and> (if i = 0 then ranges rl' ((n, A, A + ucast L - 1) # ms) ios else ranges rl' ms ((n, A, A + ucast L - 1) # ios)))"
proof -
  obtain p q as bs where rl: "AddressRangeList rl = [p, q]" "rlist (range_heap rl) p as" "rlist (range_heap rl) q bs"
      "distinct (as @ bs)" "entries (range_heap rl) as = ms" "entries (range_heap rl) bs = ios"
      "\<forall>a. live (range_heap rl) a \<noteq> None \<longrightarrow> a \<in> set as \<union> set bs"
    using assms by (auto simp: ranges_def)
  let ?a = "AcpiOsAllocate pick (range_heap rl)"
  note space = ACPI_ADR_SPACE_SYSTEM_MEMORY_def ACPI_ADR_SPACE_SYSTEM_IO_def
  show ?thesis
  proof (cases "?a = 0")
    case True
    then show ?thesis using assms(2) by (auto simp: AcpiUtAddAddressRange_def space Let_def)
  next
    case False
    let ?r = "\<lparr>ar_Next = (if i = 0 then p else q), ar_RegionNode = n, ar_StartAddress = A, ar_EndAddress = A + ucast L - 1\<rparr>"
    define h' where "h' = (range_heap rl)(?a \<mapsto> Object ?r)"
    have entry: "entry ?r = (n, A, A + ucast L - 1)" by (simp add: entry_def)
    have "AcpiUtAddAddressRange pick i A L n rl =
        (AE_OK, rl\<lparr>range_heap := h', AddressRangeList := (if i = 0 then [?a, q] else [p, ?a])\<rparr>)"
      using False assms(2) rl(1) unfolding h'_def by (auto simp: AcpiUtAddAddressRange_def space Let_def)
    moreover have "ranges (rl\<lparr>range_heap := h', AddressRangeList := [?a, q]\<rparr>) ((n, A, A + ucast L - 1) # ms) ios" if "i = 0"
      using new_range [OF False rl(2,3,4,7) h'_def] that rl(5,6) entry
      by (intro rangesI [of _ ?a q "?a # as" bs]) simp_all
    moreover have "ranges (rl\<lparr>range_heap := h', AddressRangeList := [p, ?a]\<rparr>) ms ((n, A, A + ucast L - 1) # ios)" if "i \<noteq> 0"
    proof -
      have "distinct (bs @ as)" "\<forall>a. live (range_heap rl) a \<noteq> None \<longrightarrow> a \<in> set bs \<union> set as" using rl(4,7) by auto
      from new_range [OF False rl(3,2) this h'_def] that show ?thesis
        using rl(5,6) entry by (intro rangesI [of _ p ?a as "?a # bs"]) auto
    qed
    ultimately show ?thesis by simp
  qed
qed


lemma delete_ranges:
  assumes "ranges rl ms ios"
  shows "\<exists>rl'. AcpiUtDeleteAddressLists rl = Some rl' \<and> ranges rl' [] [] \<and> live (range_heap rl') = (\<lambda>_. None)"
proof -
  obtain p q as bs where rl: "AddressRangeList rl = [p, q]" "rlist (range_heap rl) p as" "rlist (range_heap rl) q bs"
      "distinct (as @ bs)" "\<forall>a. live (range_heap rl) a \<noteq> None \<longrightarrow> a \<in> set as \<union> set bs"
    using assms by (auto simp: ranges_def)
  have disj: "set as \<inter> set bs = {}" "distinct as" "distinct bs" using rl(4) by auto
  obtain h1 where h1: "free_ranges p (range_heap rl) = Some h1"
      "live h1 = (\<lambda>a. if a \<in> set as then None else live (range_heap rl) a)"
    using free_ranges_list [OF rl(2) disj(2)] by blast
  obtain h2 where h2: "free_ranges q h1 = Some h2" "live h2 = (\<lambda>a. if a \<in> set bs then None else live h1 a)"
    using free_ranges_list [OF linked_deleted [OF rl(3) h1(2) disj(1)] disj(3)] by blast
  have "live h2 a = None" for a using h1(2) h2(2) rl(5) by auto
  then have none: "live h2 = (\<lambda>_. None)" by blast
  have "AcpiUtDeleteAddressLists rl = Some (rl\<lparr>range_heap := h2, AddressRangeList := [0, 0]\<rparr>)"
    unfolding AcpiUtDeleteAddressLists_def using rl(1) h1(1) h2(1)
    by (simp add: delete_from.simps [of 0] delete_from.simps [of "Suc 0"] delete_from.simps [of "Suc (Suc 0)"]
        ACPI_ADDRESS_RANGE_MAX_def eval_nat_numeral)
  moreover have "ranges (rl\<lparr>range_heap := h2, AddressRangeList := [0, 0]\<rparr>) [] []"
    using none by (intro rangesI [of _ 0 0 "[]" "[]"]) simp_all
  ultimately show ?thesis using none by auto
qed

lemma check_range:
  assumes "ranges rl ms ios" and "i = 0 \<or> i = 1"
  shows "AcpiUtCheckAddressRange i A L rl =
    Some (of_nat (length (filter (overlaps A (A + ucast L - 1)) (if i = 0 then ms else ios))))"
proof -
  obtain p q as bs where "AddressRangeList rl = [p, q]" "rlist (range_heap rl) p as" "rlist (range_heap rl) q bs"
      "entries (range_heap rl) as = ms" "entries (range_heap rl) bs = ios"
    using assms(1) by (auto simp: ranges_def)
  then show ?thesis
    using assms(2) check_loop_count [of "range_heap rl" p as A "A + ucast L - 1" 0]
      check_loop_count [of "range_heap rl" q bs A "A + ucast L - 1" 0]
    by (auto simp: AcpiUtCheckAddressRange_def ACPI_ADR_SPACE_SYSTEM_MEMORY_def ACPI_ADR_SPACE_SYSTEM_IO_def)
qed

text \<open>For ranges that do not wrap, the test of the two ends says whether an address is shared.\<close>

lemma overlaps_shared_address:
  fixes L :: u32
  assumes "0 < L" and "unat A + unat L \<le> 2 ^ 64" and "s \<le> e"
  shows "overlaps A (A + ucast L - 1) (n, s, e) \<longleftrightarrow> (\<exists>x. s \<le> x \<and> x \<le> e \<and> unat A \<le> unat x \<and> unat x < unat A + unat L)"
proof -
  have L: "unat (ucast L :: u64) = unat L" for L :: u32
    by (simp add: unsigned_ucast_eq take_bit_nat_eq_self order.strict_trans [OF unat_lt32])
  have "unat (A + ucast L - 1) = unat A + unat L - 1"
  proof -
    have pos: "0 < unat L" using assms(1) by (simp add: word_less_nat_alt)
    have "(ucast L :: u64) \<noteq> 0" using pos L [of L] by auto
    then have u: "unat (ucast L - 1 :: u64) = unat L - 1" using L [of L] by (simp add: unat_pred)
    have "unat (A + (ucast L - 1)) = unat A + (unat L - 1)"
      using u assms(2) pos unat_add_nowrap [of A "ucast L - 1"] by simp
    then show ?thesis using pos by (simp add: algebra_simps)
  qed
  note last = this
  show ?thesis
  proof
    assume "overlaps A (A + ucast L - 1) (n, s, e)"
    then have "unat A \<le> unat e" "unat s \<le> unat A + unat L - 1"
      using last by (auto simp: overlaps_def word_le_nat_alt)
    then show "\<exists>x. s \<le> x \<and> x \<le> e \<and> unat A \<le> unat x \<and> unat x < unat A + unat L"
      using assms by (intro exI [of _ "max A s"]) (auto simp: word_le_nat_alt word_less_nat_alt max_def)
  next
    assume "\<exists>x. s \<le> x \<and> x \<le> e \<and> unat A \<le> unat x \<and> unat x < unat A + unat L"
    then show "overlaps A (A + ucast L - 1) (n, s, e)" using last by (auto simp: overlaps_def word_le_nat_alt)
  qed
qed

section \<open>Properties\<close>

definition no_ranges :: range_lists where
  "no_ranges = \<lparr>AddressRangeList = [0, 0], range_heap = (\<lambda>_. None)\<rparr>"

lemma no_ranges_empty: "ranges no_ranges [] []"
  by (intro rangesI [of _ 0 0 "[]" "[]"]) (simp_all add: no_ranges_def live_def)

text \<open>
  The two lists of operation regions behave as lists, newest first: adding a range puts it in
  front of the list of its address space or, without memory, changes nothing; removing a node unlinks its newest range,
  wherever it is in the list, and frees this object alone; deleting the lists frees every range.
  Other address spaces are ignored. All loops terminate and access allocated ranges only.
\<close>

theorem address_ranges_refine_lists:
  assumes "ranges rl ms ios"
  shows "(\<exists>st rl'. AcpiUtAddAddressRange pick 0 A L n rl = (st, rl')
      \<and> (st = AE_NO_MEMORY \<and> rl' = rl \<or> st = AE_OK \<and> ranges rl' ((n, A, A + ucast L - 1) # ms) ios))
    \<and> (\<exists>st rl'. AcpiUtAddAddressRange pick 1 A L n rl = (st, rl')
      \<and> (st = AE_NO_MEMORY \<and> rl' = rl \<or> st = AE_OK \<and> ranges rl' ms ((n, A, A + ucast L - 1) # ios)))
    \<and> (\<exists>rl'. AcpiUtRemoveAddressRange 0 n rl = Some rl' \<and> ranges rl' (remove_first n ms) ios)
    \<and> (\<exists>rl'. AcpiUtRemoveAddressRange 1 n rl = Some rl' \<and> ranges rl' ms (remove_first n ios))
    \<and> (\<exists>rl'. AcpiUtDeleteAddressLists rl = Some rl' \<and> ranges rl' [] [] \<and> live (range_heap rl') = (\<lambda>_. None))
    \<and> (1 < i \<longrightarrow> AcpiUtAddAddressRange pick i A L n rl = (AE_OK, rl) \<and> AcpiUtRemoveAddressRange i n rl = Some rl)"
proof -
  have "i \<noteq> 0 \<and> i \<noteq> 1" if "1 < i" using that by auto
  then show ?thesis
    using add_range [OF assms, of 0 pick A L n] add_range [OF assms, of 1 pick A L n] remove_range [OF assms]
      delete_ranges [OF assms]
    by (simp add: AcpiUtAddAddressRange_def [of _ i] AcpiUtRemoveAddressRange_def [of i]
        ACPI_ADR_SPACE_SYSTEM_MEMORY_def ACPI_ADR_SPACE_SYSTEM_IO_def)
qed

theorem address_ranges_refine_lists_witness:
  "\<exists>st rl'. AcpiUtAddAddressRange (\<lambda>_. 0x4000) 0 0x1000 16 7 no_ranges = (st, rl')
     \<and> (st = AE_NO_MEMORY \<and> rl' = no_ranges \<or> st = AE_OK \<and> ranges rl' [(7, 0x1000, 0x1000 + ucast (16 :: u32) - 1)] [])"
  using address_ranges_refine_lists [OF no_ranges_empty, of "\<lambda>_. 0x4000" "0x1000" 16 7] by blast

text \<open>
  \<open>AcpiUtCheckAddressRange\<close> counts, modulo 2^32, exactly the operation regions of the address
  space that share at least one address with the given range, provided that the range is not
  empty and that neither it nor a region runs past the end of the address space; for other address spaces it
  returns 0.
\<close>

theorem check_counts_conflicts:
  assumes "ranges rl ms ios" and "0 < L" and "unat A + unat L \<le> 2 ^ 64" and "\<forall>(n, s, e) \<in> set ms. s \<le> e"
  shows "AcpiUtCheckAddressRange 0 A L rl = Some (of_nat (length (filter
      (\<lambda>(n, s, e). \<exists>x. s \<le> x \<and> x \<le> e \<and> unat A \<le> unat x \<and> unat x < unat A + unat L) ms)))"
proof -
  have "filter (overlaps A (A + ucast L - 1)) ms =
      filter (\<lambda>(n, s, e). \<exists>x. s \<le> x \<and> x \<le> e \<and> unat A \<le> unat x \<and> unat x < unat A + unat L) ms"
    using assms(4) overlaps_shared_address [OF assms(2,3)] by (intro filter_cong) (auto split: prod.splits)
  then show ?thesis using check_range [OF assms(1), of 0 A L] by simp
qed

theorem check_counts_conflicts_witness:
  "AcpiUtCheckAddressRange 0 0x1000 16 \<lparr>AddressRangeList = [0x4000, 0],
       range_heap = [0x4000 \<mapsto> Object \<lparr>ar_Next = 0, ar_RegionNode = 7, ar_StartAddress = 0x1008, ar_EndAddress = 0x100F\<rparr>]\<rparr> =
     Some (of_nat (length (filter
       (\<lambda>(n, s, e). \<exists>x. s \<le> x \<and> x \<le> e \<and> unat (0x1000 :: u64) \<le> unat x \<and> unat x < unat (0x1000 :: u64) + unat (16 :: u32))
       [(7 :: addr, 0x1008 :: u64, 0x100F :: u64)])))"
proof (rule check_counts_conflicts)
  show "ranges \<lparr>AddressRangeList = [0x4000, 0],
       range_heap = [0x4000 \<mapsto> Object \<lparr>ar_Next = 0, ar_RegionNode = 7, ar_StartAddress = 0x1008, ar_EndAddress = 0x100F\<rparr>]\<rparr>
     [(7, 0x1008, 0x100F)] []"
    by (rule rangesI [of _ "0x4000" 0 "[0x4000]" "[]"]) (auto simp: live_def entry_def split: if_splits)
qed simp_all

end
