(* ===== verification/Semaphore.thy ===== *)
theory Semaphore
  imports Prelude
begin

text \<open>
  The mutexes that the host gives to ACPICA. \<^verbatim>\<open>include/actypes.h\<close> maps the mutex interface of the
  host layer to binary semaphores, and \<^verbatim>\<open>os_specific/service_layers/osunixxf.c\<close> implements these on
  POSIX semaphores, which are counters here. The locale \<open>os_mutex\<close> is the contract the reader/writer
  locks (\<open>RwLock\<close>) and the mutex table (\<open>Mutex\<close>) rely on; it is interpreted on the semaphores.

  A call that does not return, because the caller is suspended, has the result \<open>None\<close>.
\<close>

section \<open>POSIX semaphores\<close>

text \<open>A block of the host heap that holds a semaphore with its units, or one that was destroyed.\<close>

datatype sem_cell = Units nat | Destroyed

type_synonym sems = "addr \<Rightarrow> sem_cell option"

definition SEM_VALUE_MAX :: nat where "SEM_VALUE_MAX = 2 ^ 31 - 1"

definition sem_trywait :: "addr \<Rightarrow> sems \<Rightarrow> bool \<times> sems" where
  "sem_trywait h s = (case s h of Some (Units (Suc n)) \<Rightarrow> (True, s(h \<mapsto> Units n)) | _ \<Rightarrow> (False, s))"

definition sem_wait :: "addr \<Rightarrow> sems \<Rightarrow> (bool \<times> sems) option" where
  "sem_wait h s = (if s h = Some (Units 0) then None else Some (sem_trywait h s))"

definition sem_timedwait :: "bool \<Rightarrow> addr \<Rightarrow> sems \<Rightarrow> (bool \<times> sems) option" where
  "sem_timedwait expired h s = (if s h = Some (Units 0) \<and> \<not> expired then None else Some (sem_trywait h s))"

definition sem_post :: "addr \<Rightarrow> sems \<Rightarrow> bool \<times> sems" where
  "sem_post h s = (case s h of
     Some (Units n) \<Rightarrow> if n < SEM_VALUE_MAX then (True, s(h \<mapsto> Units (Suc n))) else (False, s)
   | _ \<Rightarrow> (False, s))"

section \<open>Semaphores of the host layer\<close>

definition ACPI_WAIT_FOREVER :: u16 where "ACPI_WAIT_FOREVER = 0xFFFF"

text \<open>The block comes from the host allocator, which picks an unused one or fails with 0.\<close>

definition new_block :: "(sems \<Rightarrow> addr) \<Rightarrow> sems \<Rightarrow> addr" where
  "new_block pick s = (if s (pick s) = None then pick s else 0)"

definition AcpiOsCreateSemaphore ::
  "(sems \<Rightarrow> addr) \<Rightarrow> u32 \<Rightarrow> u32 \<Rightarrow> bool \<Rightarrow> sems \<Rightarrow> acpi_status \<times> addr option \<times> sems" where
  "AcpiOsCreateSemaphore pick MaxUnits InitialUnits OutHandle s =
     (if \<not> OutHandle then (AE_BAD_PARAMETER, None, s)
      else let Sem = new_block pick s
           in if Sem = 0 then (AE_NO_MEMORY, None, s)
              else if unat InitialUnits > SEM_VALUE_MAX then (AE_BAD_PARAMETER, None, s)
              else (AE_OK, Some Sem, s(Sem \<mapsto> Units (unat InitialUnits))))"

definition AcpiOsDeleteSemaphore :: "addr \<Rightarrow> sems \<Rightarrow> acpi_status \<times> sems" where
  "AcpiOsDeleteSemaphore Handle s =
     (if Handle = 0 then (AE_BAD_PARAMETER, s)
      else case s Handle of
             Some (Units n) \<Rightarrow> (AE_OK, s(Handle \<mapsto> Destroyed))
           | _ \<Rightarrow> (AE_BAD_PARAMETER, s))"

text \<open>
  \<open>clock\<close> says if \<open>clock_gettime\<close> succeeds, \<open>expired\<close> if the deadline is over. A wait with a
  timeout is the one on \<open>sem_timedwait\<close>, not the polling loop of \<^verbatim>\<open>ACPI_USE_ALTERNATE_TIMEOUT\<close>.
\<close>

definition AcpiOsWaitSemaphore ::
  "bool \<Rightarrow> bool \<Rightarrow> addr \<Rightarrow> u32 \<Rightarrow> u16 \<Rightarrow> sems \<Rightarrow> (acpi_status \<times> sems) option" where
  "AcpiOsWaitSemaphore clock expired Handle NumUnits MsecTimeout s =
     (let status = \<lambda>(got, s). (if got then AE_OK else AE_TIME, s)
      in if Handle = 0 then Some (AE_BAD_PARAMETER, s)
         else if MsecTimeout = 0 then Some (status (sem_trywait Handle s))
         else if MsecTimeout = ACPI_WAIT_FOREVER then map_option status (sem_wait Handle s)
         else if \<not> clock then Some (AE_TIME, s)
         else map_option status (sem_timedwait expired Handle s))"

definition AcpiOsSignalSemaphore :: "addr \<Rightarrow> u32 \<Rightarrow> sems \<Rightarrow> acpi_status \<times> sems" where
  "AcpiOsSignalSemaphore Handle NumUnits s =
     (if Handle = 0 then (AE_BAD_PARAMETER, s)
      else case sem_post Handle s of (ok, s) \<Rightarrow> (if ok then AE_OK else AE_LIMIT, s))"

definition AcpiOsCreateLock :: "(sems \<Rightarrow> addr) \<Rightarrow> sems \<Rightarrow> acpi_status \<times> addr option \<times> sems" where
  "AcpiOsCreateLock pick s = AcpiOsCreateSemaphore pick 1 1 True s"

definition AcpiOsDeleteLock :: "addr \<Rightarrow> sems \<Rightarrow> sems" where
  "AcpiOsDeleteLock Handle s = snd (AcpiOsDeleteSemaphore Handle s)"

definition AcpiOsAcquireLock :: "addr \<Rightarrow> sems \<Rightarrow> (u64 \<times> sems) option" where
  "AcpiOsAcquireLock Handle s =
     (case AcpiOsWaitSemaphore True False Handle 1 0xFFFF s of None \<Rightarrow> None | Some (_, s) \<Rightarrow> Some (0, s))"

definition AcpiOsReleaseLock :: "addr \<Rightarrow> u64 \<Rightarrow> sems \<Rightarrow> sems" where
  "AcpiOsReleaseLock Handle Flags s = snd (AcpiOsSignalSemaphore Handle 1 s)"

section \<open>Mutexes as binary semaphores\<close>

definition AcpiOsCreateMutex :: "(sems \<Rightarrow> addr) \<Rightarrow> sems \<Rightarrow> acpi_status \<times> addr option \<times> sems" where
  "AcpiOsCreateMutex pick s = AcpiOsCreateSemaphore pick 1 1 True s"

definition AcpiOsDeleteMutex :: "addr \<Rightarrow> sems \<Rightarrow> sems" where
  "AcpiOsDeleteMutex Handle s = snd (AcpiOsDeleteSemaphore Handle s)"

definition AcpiOsAcquireMutex :: "addr \<Rightarrow> sems \<Rightarrow> (acpi_status \<times> sems) option" where
  "AcpiOsAcquireMutex Handle s = AcpiOsWaitSemaphore True False Handle 1 ACPI_WAIT_FOREVER s"

definition AcpiOsReleaseMutex :: "addr \<Rightarrow> sems \<Rightarrow> sems" where
  "AcpiOsReleaseMutex Handle s = snd (AcpiOsSignalSemaphore Handle 1 s)"

text \<open>A handle of a mutex, and one that can be acquired without waiting.\<close>

definition mutex_valid :: "sems \<Rightarrow> addr \<Rightarrow> bool" where
  "mutex_valid s h \<longleftrightarrow> h \<noteq> 0 \<and> (s h = Some (Units 0) \<or> s h = Some (Units 1))"

definition mutex_free :: "sems \<Rightarrow> addr \<Rightarrow> bool" where
  "mutex_free s h \<longleftrightarrow> h \<noteq> 0 \<and> s h = Some (Units 1)"

lemmas semaphore_defs =
  AcpiOsAcquireMutex_def AcpiOsReleaseMutex_def AcpiOsCreateMutex_def AcpiOsDeleteMutex_def
  AcpiOsCreateSemaphore_def AcpiOsDeleteSemaphore_def AcpiOsWaitSemaphore_def AcpiOsSignalSemaphore_def
  sem_wait_def sem_trywait_def sem_post_def new_block_def ACPI_WAIT_FOREVER_def SEM_VALUE_MAX_def

section \<open>The contract of the host mutexes\<close>

locale os_mutex =
  fixes create :: "'o \<Rightarrow> acpi_status \<times> addr option \<times> 'o"
    and acquire :: "addr \<Rightarrow> 'o \<Rightarrow> (acpi_status \<times> 'o) option"
    and release :: "addr \<Rightarrow> 'o \<Rightarrow> 'o"
    and valid :: "'o \<Rightarrow> addr \<Rightarrow> bool"
    and free :: "'o \<Rightarrow> addr \<Rightarrow> bool"
  assumes create_ok: "create s = (AE_OK, r, s') \<Longrightarrow>
      \<exists>h. r = Some h \<and> h \<noteq> 0 \<and> \<not> valid s h \<and> valid s' = (valid s)(h := True) \<and> free s' = (free s)(h := True)"
    and create_fail: "create s = (st, r, s') \<Longrightarrow> st \<noteq> AE_OK \<Longrightarrow> r = None \<and> s' = s"
    and valid_null: "\<not> valid s 0"
    and acquire_free: "valid s h \<Longrightarrow> free s h \<Longrightarrow>
      \<exists>s'. acquire h s = Some (AE_OK, s') \<and> valid s' = valid s \<and> free s' = (free s)(h := False)"
    and acquire_held: "valid s h \<Longrightarrow> \<not> free s h \<Longrightarrow> acquire h s = None"
    and release_held: "valid s h \<Longrightarrow> \<not> free s h \<Longrightarrow>
      valid (release h s) = valid s \<and> free (release h s) = (free s)(h := True)"
begin

lemma acquire_iff:
  "valid s h \<Longrightarrow> acquire h s = Some (st, s') \<Longrightarrow>
     st = AE_OK \<and> free s h \<and> valid s' = valid s \<and> free s' = (free s)(h := False)"
  using acquire_free [of s h] acquire_held [of s h] by (cases "free s h") auto

end

lemma acquire_mutex_cases:
  "h \<noteq> 0 \<Longrightarrow> s h = Some (Units 1) \<Longrightarrow> AcpiOsAcquireMutex h s = Some (AE_OK, s(h \<mapsto> Units 0))"
  "h \<noteq> 0 \<Longrightarrow> s h = Some (Units 0) \<Longrightarrow> AcpiOsAcquireMutex h s = None"
  by (simp_all add: semaphore_defs)

lemma release_mutex:
  "h \<noteq> 0 \<Longrightarrow> s h = Some (Units 0) \<Longrightarrow> AcpiOsReleaseMutex h s = s(h \<mapsto> Units 1)"
  by (simp add: semaphore_defs)

lemma create_mutex:
  "AcpiOsCreateMutex pick s =
     (if pick s \<noteq> 0 \<and> s (pick s) = None then (AE_OK, Some (pick s), s(pick s \<mapsto> Units 1)) else (AE_NO_MEMORY, None, s))"
  by (auto simp: semaphore_defs Let_def)

interpretation binary_semaphore:
  os_mutex "AcpiOsCreateMutex pick" AcpiOsAcquireMutex AcpiOsReleaseMutex mutex_valid mutex_free for pick
proof
  fix s :: sems and h
  show "\<not> mutex_valid s 0" by (simp add: mutex_valid_def)
  show "\<exists>s'. AcpiOsAcquireMutex h s = Some (AE_OK, s') \<and> mutex_valid s' = mutex_valid s
          \<and> mutex_free s' = (mutex_free s)(h := False)" if "mutex_free s h"
    by (rule exI [of _ "s(h \<mapsto> Units 0)"])
      (use that in \<open>auto simp: acquire_mutex_cases mutex_valid_def mutex_free_def fun_eq_iff\<close>)
  show "AcpiOsAcquireMutex h s = None" if "mutex_valid s h" "\<not> mutex_free s h"
    using that acquire_mutex_cases(2) [of h s] by (auto simp: mutex_valid_def mutex_free_def)
  show "mutex_valid (AcpiOsReleaseMutex h s) = mutex_valid s
          \<and> mutex_free (AcpiOsReleaseMutex h s) = (mutex_free s)(h := True)" if "mutex_valid s h" "\<not> mutex_free s h"
    using that release_mutex [of h s] by (auto simp: mutex_valid_def mutex_free_def fun_eq_iff)
next
  fix s s' r assume "AcpiOsCreateMutex pick s = (AE_OK, r, s')"
  then have "r = Some (pick s)" "pick s \<noteq> 0" "s (pick s) = None" "s' = s(pick s \<mapsto> Units 1)"
    by (simp_all add: create_mutex split: if_splits)
  then show "\<exists>h. r = Some h \<and> h \<noteq> 0 \<and> \<not> mutex_valid s h \<and> mutex_valid s' = (mutex_valid s)(h := True)
          \<and> mutex_free s' = (mutex_free s)(h := True)"
    by (intro exI [of _ "pick s"] conjI ext) (simp_all add: mutex_valid_def mutex_free_def)
next
  fix s s' r st assume "AcpiOsCreateMutex pick s = (st, r, s')" and "st \<noteq> AE_OK"
  then show "r = None \<and> s' = s" by (auto simp: create_mutex split: if_splits)
qed

text \<open>
  Deleting a semaphore destroys it but does not give its block back: no later allocation returns it.
\<close>

lemma deleted_semaphore_leaks:
  assumes "s h = Some (Units n)" and "h \<noteq> 0"
  shows "AcpiOsDeleteSemaphore h s = (AE_OK, s(h \<mapsto> Destroyed))"
    and "AcpiOsCreateSemaphore pick mx i oh (s(h \<mapsto> Destroyed)) = (st, Some h', s') \<Longrightarrow> h' \<noteq> h"
proof -
  show "AcpiOsDeleteSemaphore h s = (AE_OK, s(h \<mapsto> Destroyed))"
    using assms by (simp add: AcpiOsDeleteSemaphore_def)
  show "AcpiOsCreateSemaphore pick mx i oh (s(h \<mapsto> Destroyed)) = (st, Some h', s') \<Longrightarrow> h' \<noteq> h"
    by (auto simp: AcpiOsCreateSemaphore_def new_block_def Let_def split: if_splits)
qed

end
