(* ===== verification/Draining.thy ===== *)
theory Draining
  imports Main
begin

text \<open>
  A system of threads drains if every call that has been started is completed under every schedule.
  The locale states what a lock has to show for this: its steps keep an invariant and decrease a
  measure, the work that is left, and as long as the system is not quiet some thread can go on.
  The reader/writer lock and the mutex table interpret it.
\<close>

section \<open>Work of a set of threads\<close>

definition work :: "('p \<Rightarrow> nat) \<Rightarrow> 't set \<Rightarrow> ('t \<Rightarrow> 'p) \<Rightarrow> nat" where
  "work w T pc = (\<Sum>t\<in>T. w (pc t))"

lemma work_update:
  assumes "finite T" and "t \<in> T"
  shows "work w T (pc(t := x)) + w (pc t) = work w T pc + w x"
proof -
  have "(\<Sum>u\<in>T - {t}. w ((pc(t := x)) u)) = (\<Sum>u\<in>T - {t}. w (pc u))" by (rule sum.cong) auto
  then show ?thesis using assms by (simp add: work_def sum.remove [of T t])
qed

lemma work_decreases:
  "finite T \<Longrightarrow> t \<in> T \<Longrightarrow> w x < w (pc t) \<Longrightarrow> work w T (pc(t := x)) < work w T pc"
  using work_update [of T t w pc x] by linarith

text \<open>The threads whose program counter satisfies a predicate.\<close>

definition threads :: "('p \<Rightarrow> bool) \<Rightarrow> ('t \<Rightarrow> 'p) \<Rightarrow> 't set" where
  "threads P pc = {t. P (pc t)}"

lemma in_threads [simp]: "t \<in> threads P pc \<longleftrightarrow> P (pc t)"
  by (simp add: threads_def)

lemma threads_same [simp]: "P x = P (pc t) \<Longrightarrow> threads P (pc(t := x)) = threads P pc"
  by (auto simp: threads_def)

lemma threads_add [simp]: "P x \<Longrightarrow> \<not> P (pc t) \<Longrightarrow> threads P (pc(t := x)) = insert t (threads P pc)"
  by (auto simp: threads_def split: if_splits)

lemma threads_del [simp]: "\<not> P x \<Longrightarrow> P (pc t) \<Longrightarrow> threads P (pc(t := x)) = threads P pc - {t}"
  by (auto simp: threads_def split: if_splits)

lemma only_thread: "\<exists>u. threads P pc \<subseteq> {u} \<Longrightarrow> P (pc t) \<Longrightarrow> threads P pc = {t}"
  by (auto simp: threads_def)

lemma threads_empty: "threads P pc = {} \<longleftrightarrow> (\<forall>t. \<not> P (pc t))"
  by auto

section \<open>Systems that drain\<close>

locale draining =
  fixes inv :: "'s \<Rightarrow> bool"
    and step :: "'s \<Rightarrow> 's \<Rightarrow> bool"
    and left :: "'s \<Rightarrow> nat"
    and quiet :: "'s \<Rightarrow> bool"
  assumes step_inv: "inv s \<Longrightarrow> step s s' \<Longrightarrow> inv s'"
    and step_left: "inv s \<Longrightarrow> step s s' \<Longrightarrow> left s' < left s"
    and step_enabled: "inv s \<Longrightarrow> \<not> quiet s \<Longrightarrow> \<exists>s'. step s s'"
begin

lemma run_inv: "step\<^sup>*\<^sup>* s s' \<Longrightarrow> inv s \<Longrightarrow> inv s'"
  by (induction rule: rtranclp_induct) (auto intro: step_inv)

lemma run_bounded: "(step ^^ n) s s' \<Longrightarrow> inv s \<Longrightarrow> inv s' \<and> n + left s' \<le> left s"
proof (induction n arbitrary: s')
  case (Suc n)
  then obtain t where "(step ^^ n) s t" and "step t s'" by auto
  then show ?case using Suc step_inv [of t s'] step_left [of t s'] by fastforce
qed auto

lemma stuck_quiet: "inv s \<Longrightarrow> \<nexists>s'. step s s' \<Longrightarrow> quiet s"
  using step_enabled by blast

lemma drains: "inv s \<Longrightarrow> \<exists>s'. step\<^sup>*\<^sup>* s s' \<and> quiet s'"
proof (induction "left s" arbitrary: s rule: less_induct)
  case less
  show ?case
  proof (cases "quiet s")
    case False
    then obtain t where t: "step s t" using less step_enabled by blast
    then obtain s' where "step\<^sup>*\<^sup>* t s'" and "quiet s'" using less step_left step_inv by blast
    then show ?thesis using t by (meson converse_rtranclp_into_rtranclp)
  qed auto
qed

end

end
