(* ===== verification/RwLock.thy ===== *)
theory RwLock
  imports Semaphore Draining
begin

text \<open>
  The reader/writer lock of \<^verbatim>\<open>components/utilities/utlock.c\<close>, which ACPICA uses for the namespace.
  The host mutexes are arguments (\<open>acquire\<close>, \<open>release\<close>, \<dots>), with the contract \<open>os_mutex\<close>.

  The second section has every routine as one function; it describes an undisturbed call. In the
  third one the calls of several threads interleave: each thread has a program counter and a step
  is one host call or one access to the shared counter, in the order of the code.
\<close>

section \<open>The lock\<close>

record rw_lock =
  WriterMutex :: addr
  ReaderMutex :: addr
  NumReaders :: u32

section \<open>Operations\<close>

definition AcpiUtCreateRwLock ::
  "('o \<Rightarrow> acpi_status \<times> addr option \<times> 'o) \<Rightarrow> rw_lock \<Rightarrow> 'o \<Rightarrow> acpi_status \<times> rw_lock \<times> 'o" where
  "AcpiUtCreateRwLock create Lock os =
     (let Lock = Lock\<lparr>NumReaders := 0\<rparr>
      in case create os of
           (Status, r, os) \<Rightarrow>
             let Lock = (case r of Some h \<Rightarrow> Lock\<lparr>ReaderMutex := h\<rparr> | None \<Rightarrow> Lock)
             in if ACPI_FAILURE Status then (Status, Lock, os)
                else case create os of
                       (Status, r, os) \<Rightarrow>
                         (Status, (case r of Some h \<Rightarrow> Lock\<lparr>WriterMutex := h\<rparr> | None \<Rightarrow> Lock), os))"

definition AcpiUtDeleteRwLock :: "(addr \<Rightarrow> 'o \<Rightarrow> 'o) \<Rightarrow> rw_lock \<Rightarrow> 'o \<Rightarrow> rw_lock \<times> 'o" where
  "AcpiUtDeleteRwLock delete Lock os =
     (let os = delete (ReaderMutex Lock) os; os = delete (WriterMutex Lock) os
      in (Lock\<lparr>NumReaders := 0, ReaderMutex := 0, WriterMutex := 0\<rparr>, os))"

definition AcpiUtAcquireReadLock ::
  "(addr \<Rightarrow> 'o \<Rightarrow> (acpi_status \<times> 'o) option) \<Rightarrow> (addr \<Rightarrow> 'o \<Rightarrow> 'o) \<Rightarrow> rw_lock \<Rightarrow> 'o \<Rightarrow>
     (acpi_status \<times> rw_lock \<times> 'o) option" where
  "AcpiUtAcquireReadLock acquire release Lock os =
     (case acquire (ReaderMutex Lock) os of
        None \<Rightarrow> None
      | Some (Status, os) \<Rightarrow>
          if ACPI_FAILURE Status then Some (Status, Lock, os)
          else let Lock = Lock\<lparr>NumReaders := NumReaders Lock + 1\<rparr>
               in case (if NumReaders Lock = 1 then acquire (WriterMutex Lock) os else Some (Status, os)) of
                    None \<Rightarrow> None
                  | Some (Status, os) \<Rightarrow> Some (Status, Lock, release (ReaderMutex Lock) os))"

definition AcpiUtReleaseReadLock ::
  "(addr \<Rightarrow> 'o \<Rightarrow> (acpi_status \<times> 'o) option) \<Rightarrow> (addr \<Rightarrow> 'o \<Rightarrow> 'o) \<Rightarrow> rw_lock \<Rightarrow> 'o \<Rightarrow>
     (acpi_status \<times> rw_lock \<times> 'o) option" where
  "AcpiUtReleaseReadLock acquire release Lock os =
     (case acquire (ReaderMutex Lock) os of
        None \<Rightarrow> None
      | Some (Status, os) \<Rightarrow>
          if ACPI_FAILURE Status then Some (Status, Lock, os)
          else let Lock = Lock\<lparr>NumReaders := NumReaders Lock - 1\<rparr>;
                   os = (if NumReaders Lock = 0 then release (WriterMutex Lock) os else os)
               in Some (Status, Lock, release (ReaderMutex Lock) os))"

definition AcpiUtAcquireWriteLock ::
  "(addr \<Rightarrow> 'o \<Rightarrow> (acpi_status \<times> 'o) option) \<Rightarrow> rw_lock \<Rightarrow> 'o \<Rightarrow> (acpi_status \<times> 'o) option" where
  "AcpiUtAcquireWriteLock acquire Lock os = acquire (WriterMutex Lock) os"

definition AcpiUtReleaseWriteLock :: "(addr \<Rightarrow> 'o \<Rightarrow> 'o) \<Rightarrow> rw_lock \<Rightarrow> 'o \<Rightarrow> 'o" where
  "AcpiUtReleaseWriteLock release Lock os = release (WriterMutex Lock) os"

section \<open>Interleaved calls\<close>

text \<open>
  Program counters: outside; in \<open>AcpiUtAcquireReadLock\<close> before the reader mutex, before the counter,
  before the writer mutex, before the release of the reader mutex; reading; the corresponding points of
  \<open>AcpiUtReleaseReadLock\<close>; before the writer mutex; writing.
\<close>

datatype rw_pc =
    Out | RWait | RCount | RFirst | RLeave | Reading | SWait | SCount | SLast | SLeave | WWait | Writing

record 'o rw_system =
  Lk :: rw_lock
  Os :: 'o
  Pc :: "u64 \<Rightarrow> rw_pc"

definition goto :: "u64 \<Rightarrow> rw_pc \<Rightarrow> 'o rw_system \<Rightarrow> 'o rw_system" where
  "goto t p s = s\<lparr>Pc := (Pc s)(t := p)\<rparr>"

inductive rw_call :: "u64 set \<Rightarrow> 'o rw_system \<Rightarrow> 'o rw_system \<Rightarrow> bool" for T where
  call_read: "t \<in> T \<Longrightarrow> Pc s t = Out \<Longrightarrow> rw_call T s (goto t RWait s)"
| call_write: "t \<in> T \<Longrightarrow> Pc s t = Out \<Longrightarrow> rw_call T s (goto t WWait s)"

inductive rw_proceed ::
  "(addr \<Rightarrow> 'o \<Rightarrow> (acpi_status \<times> 'o) option) \<Rightarrow> (addr \<Rightarrow> 'o \<Rightarrow> 'o) \<Rightarrow> 'o rw_system \<Rightarrow> 'o rw_system \<Rightarrow> bool"
  for acquire release where
  r_enter: "Pc s t = RWait \<Longrightarrow> acquire (ReaderMutex (Lk s)) (Os s) = Some (AE_OK, z)
              \<Longrightarrow> rw_proceed acquire release s (goto t RCount (s\<lparr>Os := z\<rparr>))"
| r_count: "Pc s t = RCount \<Longrightarrow> n = NumReaders (Lk s) + 1
              \<Longrightarrow> rw_proceed acquire release s (goto t (if n = 1 then RFirst else RLeave) (s\<lparr>Lk := (Lk s)\<lparr>NumReaders := n\<rparr>\<rparr>))"
| r_first: "Pc s t = RFirst \<Longrightarrow> acquire (WriterMutex (Lk s)) (Os s) = Some (AE_OK, z)
              \<Longrightarrow> rw_proceed acquire release s (goto t RLeave (s\<lparr>Os := z\<rparr>))"
| r_leave: "Pc s t = RLeave
              \<Longrightarrow> rw_proceed acquire release s (goto t Reading (s\<lparr>Os := release (ReaderMutex (Lk s)) (Os s)\<rparr>))"
| s_call: "Pc s t = Reading \<Longrightarrow> rw_proceed acquire release s (goto t SWait s)"
| s_enter: "Pc s t = SWait \<Longrightarrow> acquire (ReaderMutex (Lk s)) (Os s) = Some (AE_OK, z)
              \<Longrightarrow> rw_proceed acquire release s (goto t SCount (s\<lparr>Os := z\<rparr>))"
| s_count: "Pc s t = SCount \<Longrightarrow> n = NumReaders (Lk s) - 1
              \<Longrightarrow> rw_proceed acquire release s (goto t (if n = 0 then SLast else SLeave) (s\<lparr>Lk := (Lk s)\<lparr>NumReaders := n\<rparr>\<rparr>))"
| s_last: "Pc s t = SLast
              \<Longrightarrow> rw_proceed acquire release s (goto t SLeave (s\<lparr>Os := release (WriterMutex (Lk s)) (Os s)\<rparr>))"
| s_leave: "Pc s t = SLeave
              \<Longrightarrow> rw_proceed acquire release s (goto t Out (s\<lparr>Os := release (ReaderMutex (Lk s)) (Os s)\<rparr>))"
| w_enter: "Pc s t = WWait \<Longrightarrow> acquire (WriterMutex (Lk s)) (Os s) = Some (AE_OK, z)
              \<Longrightarrow> rw_proceed acquire release s (goto t Writing (s\<lparr>Os := z\<rparr>))"
| w_leave: "Pc s t = Writing
              \<Longrightarrow> rw_proceed acquire release s (goto t Out (s\<lparr>Os := release (WriterMutex (Lk s)) (Os s)\<rparr>))"

inductive_cases rw_callE: "rw_call T s s'"
inductive_cases rw_proceedE: "rw_proceed acquire release s s'"

text \<open>Threads that are counted, that own the reader mutex, and that rely on the writer mutex.\<close>

fun counted :: "rw_pc \<Rightarrow> bool" where
  "counted RFirst = True" | "counted RLeave = True" | "counted Reading = True" | "counted SWait = True"
| "counted SCount = True" | "counted _ = False"

fun in_gate :: "rw_pc \<Rightarrow> bool" where
  "in_gate RCount = True" | "in_gate RFirst = True" | "in_gate RLeave = True" | "in_gate SCount = True"
| "in_gate SLast = True" | "in_gate SLeave = True" | "in_gate _ = False"

fun shares :: "rw_pc \<Rightarrow> bool" where
  "shares RLeave = True" | "shares Reading = True" | "shares SWait = True" | "shares SCount = True"
| "shares SLast = True" | "shares _ = False"

text \<open>
  The invariant relates the program counters to the two mutexes, of which \<open>rfree\<close> and \<open>wfree\<close> say if they
  are free, and to the counter.
\<close>

definition rw_ok :: "u64 set \<Rightarrow> bool \<Rightarrow> bool \<Rightarrow> u32 \<Rightarrow> (u64 \<Rightarrow> rw_pc) \<Rightarrow> bool" where
  "rw_ok T rfree wfree n pc \<longleftrightarrow>
     (let gate = threads in_gate pc; readers = threads counted pc; sharing = threads shares pc;
          writing = threads ((=) Writing) pc; first = threads ((=) RFirst) pc; last = threads ((=) SLast) pc
      in threads (\<lambda>p. p \<noteq> Out) pc \<subseteq> T \<and> unat n = card readers
         \<and> (\<exists>t. gate \<subseteq> {t}) \<and> (rfree \<longleftrightarrow> gate = {})
         \<and> (\<exists>t. writing \<subseteq> {t}) \<and> (writing = {} \<or> sharing = {}) \<and> (wfree \<longleftrightarrow> writing = {} \<and> sharing = {})
         \<and> (first = {} \<or> readers = first) \<and> (last = {} \<or> readers = {}))"

definition rw_inv :: "('o \<Rightarrow> addr \<Rightarrow> bool) \<Rightarrow> ('o \<Rightarrow> addr \<Rightarrow> bool) \<Rightarrow> u64 set \<Rightarrow> 'o rw_system \<Rightarrow> bool" where
  "rw_inv valid free T s \<longleftrightarrow> finite T \<and> card T < 2 ^ 32
     \<and> valid (Os s) (ReaderMutex (Lk s)) \<and> valid (Os s) (WriterMutex (Lk s)) \<and> ReaderMutex (Lk s) \<noteq> WriterMutex (Lk s)
     \<and> rw_ok T (free (Os s) (ReaderMutex (Lk s))) (free (Os s) (WriterMutex (Lk s))) (NumReaders (Lk s)) (Pc s)"

text \<open>The number of steps a thread needs at most to get outside.\<close>

fun rw_weight :: "rw_pc \<Rightarrow> nat" where
  "rw_weight Out = 0" | "rw_weight SLeave = 1" | "rw_weight SLast = 2" | "rw_weight SCount = 3"
| "rw_weight SWait = 4" | "rw_weight Reading = 5" | "rw_weight RLeave = 6" | "rw_weight RFirst = 7"
| "rw_weight RCount = 8" | "rw_weight RWait = 9" | "rw_weight Writing = 1" | "rw_weight WWait = 2"

definition rw_left :: "u64 set \<Rightarrow> 'o rw_system \<Rightarrow> nat" where
  "rw_left T s = work rw_weight T (Pc s)"

definition rw_quiet :: "('o \<Rightarrow> addr \<Rightarrow> bool) \<Rightarrow> 'o rw_system \<Rightarrow> bool" where
  "rw_quiet free s \<longleftrightarrow> (\<forall>t. Pc s t = Out) \<and> free (Os s) (ReaderMutex (Lk s)) \<and> free (Os s) (WriterMutex (Lk s))
     \<and> NumReaders (Lk s) = 0"

section \<open>The invariant\<close>


lemma ok_call: "rw_ok T rfree wfree n pc \<Longrightarrow> pc t = Out \<Longrightarrow> t \<in> T \<Longrightarrow> x = RWait \<or> x = WWait \<Longrightarrow> rw_ok T rfree wfree n (pc(t := x))"
  by (elim disjE) (simp_all add: rw_ok_def Let_def)

lemma ok_enter:
  "rw_ok T True wfree n pc \<Longrightarrow> (pc t, x) = (RWait, RCount) \<or> (pc t, x) = (SWait, SCount) \<Longrightarrow> rw_ok T False wfree n (pc(t := x))"
  by (elim disjE) (simp_all add: rw_ok_def Let_def)


lemma ok_leave:
  "rw_ok T rfree wfree n pc \<Longrightarrow> (pc t, x) = (RLeave, Reading) \<or> (pc t, x) = (SLeave, Out) \<Longrightarrow>
     \<not> rfree \<and> rw_ok T True wfree n (pc(t := x))"
  using only_thread [of in_gate pc t] by (elim disjE) (auto simp: rw_ok_def Let_def)

lemma ok_call_release: "rw_ok T rfree wfree n pc \<Longrightarrow> pc t = Reading \<Longrightarrow> rw_ok T rfree wfree n (pc(t := SWait))"
  by (simp add: rw_ok_def Let_def)

lemma ok_active: "rw_ok T rfree wfree n pc \<Longrightarrow> pc t \<noteq> Out \<Longrightarrow> t \<in> T"
  unfolding rw_ok_def Let_def threads_def by blast

lemma ok_free:
  assumes "rw_ok T rfree wfree n pc"
  shows "rfree \<longleftrightarrow> (\<forall>t. \<not> in_gate (pc t))" and "wfree \<longleftrightarrow> (\<forall>t. pc t \<noteq> Writing \<and> \<not> shares (pc t))"
proof -
  show "rfree \<longleftrightarrow> (\<forall>t. \<not> in_gate (pc t))"
    using assms unfolding rw_ok_def Let_def threads_empty by blast
  have "wfree \<longleftrightarrow> (\<forall>t. Writing \<noteq> pc t) \<and> (\<forall>t. \<not> shares (pc t))"
    using assms unfolding rw_ok_def Let_def threads_empty by blast
  then show "wfree \<longleftrightarrow> (\<forall>t. pc t \<noteq> Writing \<and> \<not> shares (pc t))" by metis
qed

lemma ok_counted_sub: "rw_ok T rfree wfree n pc \<Longrightarrow> threads counted pc \<subseteq> T"
proof
  fix t assume "rw_ok T rfree wfree n pc" and "t \<in> threads counted pc"
  then show "t \<in> T" using ok_active [of T rfree wfree n pc t] by (cases "pc t") auto
qed

lemma gate_alone:
  assumes "rw_ok T rfree wfree n pc" and "in_gate (pc t)"
  shows "threads in_gate pc = {t}"
    and "in_gate p \<Longrightarrow> threads ((=) p) pc = (if p = pc t then {t} else {})"
proof -
  show gate: "threads in_gate pc = {t}"
    using assms only_thread [of in_gate pc t] by (simp add: rw_ok_def Let_def)
  show "threads ((=) p) pc = (if p = pc t then {t} else {})" if "in_gate p"
  proof -
    have "threads ((=) p) pc \<subseteq> threads in_gate pc" using that by (auto simp: threads_def)
    then show ?thesis using gate by (auto simp: threads_def)
  qed
qed

lemma ok_writer_enter:
  assumes "rw_ok T rfree True n pc" and "(pc t, x) = (RFirst, RLeave) \<or> (pc t, x) = (WWait, Writing)"
  shows "rw_ok T rfree False n (pc(t := x))"
proof (cases "pc t = RFirst")
  case True
  have "threads ((=) RFirst) pc = {t}" "threads ((=) SLast) pc = {}"
    using gate_alone [OF assms(1), of t] True by simp_all
  then show ?thesis using assms True by (simp add: rw_ok_def Let_def)
next
  case False
  then show ?thesis using assms by (simp add: rw_ok_def Let_def)
qed

lemma shares_counted: "threads shares pc \<subseteq> threads counted pc \<union> threads ((=) SLast) pc"
proof
  fix t assume "t \<in> threads shares pc"
  then show "t \<in> threads counted pc \<union> threads ((=) SLast) pc" by (cases "pc t") auto
qed

lemma ok_writer_leave:
  assumes "rw_ok T rfree wfree n pc" and "(pc t, x) = (SLast, SLeave) \<or> (pc t, x) = (Writing, Out)"
  shows "\<not> wfree \<and> rw_ok T rfree True n (pc(t := x))"
proof (cases "pc t = SLast")
  case True
  have last: "threads ((=) SLast) pc = {t}" "threads ((=) RFirst) pc = {}"
    using gate_alone [OF assms(1), of t] True by simp_all
  have readers: "threads counted pc = {}" using assms(1) last by (simp add: rw_ok_def Let_def)
  have "threads shares pc = {t}"
  proof
    show "threads shares pc \<subseteq> {t}" using shares_counted [of pc] readers last by simp
    show "{t} \<subseteq> threads shares pc" using True by simp
  qed
  then show ?thesis using assms True last by (simp add: rw_ok_def Let_def)
next
  case False
  then have "pc t = Writing" "x = Out" using assms by auto
  moreover have "threads ((=) Writing) pc = {t}"
    using assms(1) \<open>pc t = Writing\<close> only_thread [of "(=) Writing" pc t] by (simp add: rw_ok_def Let_def)
  ultimately show ?thesis using assms(1) by (auto simp: rw_ok_def Let_def)
qed

text \<open>The counter: with fewer than \<open>2\<^sup>3\<^sup>2\<close> threads it does not wrap.\<close>

lemma ok_count_up:
  assumes ok: "rw_ok T rfree wfree n pc" and t: "pc t = RCount" and T: "finite T" "card T < 2 ^ 32"
  shows "rw_ok T rfree wfree (n + 1) (pc(t := (if n + 1 = 1 then RFirst else RLeave)))"
proof -
  note gate = gate_alone [OF ok, of t]
  have sub: "insert t (threads counted pc) \<subseteq> T"
    using ok_counted_sub [OF ok] ok_active [OF ok, of t] t by simp
  have fin: "finite (threads counted pc)" by (rule finite_subset [OF ok_counted_sub [OF ok] T(1)])
  have "card (insert t (threads counted pc)) < 2 ^ 32" using card_mono [OF T(1) sub] T(2) by linarith
  moreover have n: "unat n = card (threads counted pc)" using ok by (simp add: rw_ok_def Let_def)
  ultimately have n1: "unat (n + 1) = card (insert t (threads counted pc))"
    using fin t by (simp add: unat_add_nowrap)
  have first: "threads ((=) RFirst) pc = {}" "threads ((=) SLast) pc = {}"
    using gate(2) t by simp_all
  show ?thesis
  proof (cases "n = 0")
    case True
    then have "threads counted pc = {}" using n fin by simp
    then show ?thesis using ok t True n1 first by (simp add: rw_ok_def Let_def)
  next
    case False
    have "threads counted pc \<noteq> {}" using n False by (auto simp: unat_eq_0)
    then obtain u where u: "counted (pc u)" by (auto simp: threads_def)
    have "u \<noteq> t" using u t by auto
    then have "\<not> in_gate (pc u)" using gate(1) t by (metis in_gate.simps in_threads singletonD)
    then have "shares (pc u)" using u by (cases "pc u") auto
    then have "threads shares pc \<noteq> {}" by (auto simp: threads_def)
    then show ?thesis using ok t False n1 first by (simp add: rw_ok_def Let_def)
  qed
qed

lemma ok_count_down:
  assumes ok: "rw_ok T rfree wfree n pc" and t: "pc t = SCount" and T: "finite T"
  shows "rw_ok T rfree wfree (n - 1) (pc(t := (if n - 1 = 0 then SLast else SLeave)))"
proof -
  note gate = gate_alone [OF ok, of t]
  have fin: "finite (threads counted pc)"
    using ok_counted_sub [OF ok] T by (rule finite_subset)
  have n: "unat n = card (threads counted pc)" using ok by (simp add: rw_ok_def Let_def)
  have "n \<noteq> 0" using n fin t by (metis card_eq_0_iff counted.simps(5) empty_iff in_threads unat_0)
  then have n1: "unat (n - 1) = card (threads counted pc - {t})" using n t fin by (simp add: unat_pred)
  have first: "threads ((=) RFirst) pc = {}" "threads ((=) SLast) pc = {}"
    using gate(2) t by simp_all
  show ?thesis
  proof (cases "n - 1 = 0")
    case True
    then have "threads counted pc - {t} = {}" using n1 fin by (metis card_0_eq finite_Diff unat_0)
    then show ?thesis using ok t True n1 first by (simp add: rw_ok_def Let_def)
  next
    case False
    have "threads counted pc - {t} \<noteq> {}" using n1 False by (metis card.empty unat_eq_0)
    then obtain u where u: "counted (pc u)" "u \<noteq> t" by (auto simp: threads_def)
    then have "\<not> in_gate (pc u)" using gate(1) t by (metis in_gate.simps in_threads singletonD)
    then have "shares (pc u)" using u by (cases "pc u") auto
    then have "threads shares pc - {t} \<noteq> {}" using u by (auto simp: threads_def)
    then show ?thesis using ok t False n1 first by (auto simp: rw_ok_def Let_def)
  qed
qed

section \<open>Steps on mutexes that keep the contract\<close>

lemma goto_simps [simp]:
  "Lk (goto t p s) = Lk s" "Os (goto t p s) = Os s" "Pc (goto t p s) = (Pc s)(t := p)"
  by (simp_all add: goto_def)

context os_mutex
begin

lemma rw_call_inv:
  assumes "rw_inv valid free T s" and "rw_call T s s'"
  shows "rw_inv valid free T s'"
  using assms(2,1) by cases (auto simp: rw_inv_def intro!: ok_call)

lemma inv_enter:
  assumes "rw_inv valid free T s" and "acquire (ReaderMutex (Lk s)) (Os s) = Some (AE_OK, z)"
    and "(Pc s t, x) = (RWait, RCount) \<or> (Pc s t, x) = (SWait, SCount)"
  shows "rw_inv valid free T (goto t x (s\<lparr>Os := z\<rparr>))"
  using assms ok_enter [where pc = "Pc s" and t = t and x = x] acquire_iff [OF _ assms(2)] by (auto simp: rw_inv_def)

lemma inv_writer_enter:
  assumes "rw_inv valid free T s" and "acquire (WriterMutex (Lk s)) (Os s) = Some (AE_OK, z)"
    and "(Pc s t, x) = (RFirst, RLeave) \<or> (Pc s t, x) = (WWait, Writing)"
  shows "rw_inv valid free T (goto t x (s\<lparr>Os := z\<rparr>))"
  using assms ok_writer_enter [where pc = "Pc s" and t = t and x = x] acquire_iff [OF _ assms(2)] by (auto simp: rw_inv_def)

lemma inv_leave:
  assumes "rw_inv valid free T s" and "(Pc s t, x) = (RLeave, Reading) \<or> (Pc s t, x) = (SLeave, Out)"
  shows "rw_inv valid free T (goto t x (s\<lparr>Os := release (ReaderMutex (Lk s)) (Os s)\<rparr>))"
proof -
  have "\<not> free (Os s) (ReaderMutex (Lk s))"
    and ok: "rw_ok T True (free (Os s) (WriterMutex (Lk s))) (NumReaders (Lk s)) ((Pc s)(t := x))"
    using assms ok_leave [where pc = "Pc s" and t = t and x = x] by (auto simp: rw_inv_def)
  then show ?thesis using assms(1) ok release_held by (auto simp: rw_inv_def)
qed

lemma inv_writer_leave:
  assumes "rw_inv valid free T s" and "(Pc s t, x) = (SLast, SLeave) \<or> (Pc s t, x) = (Writing, Out)"
  shows "rw_inv valid free T (goto t x (s\<lparr>Os := release (WriterMutex (Lk s)) (Os s)\<rparr>))"
proof -
  have "\<not> free (Os s) (WriterMutex (Lk s))"
    and ok: "rw_ok T (free (Os s) (ReaderMutex (Lk s))) True (NumReaders (Lk s)) ((Pc s)(t := x))"
    using assms ok_writer_leave [where pc = "Pc s" and t = t and x = x] by (auto simp: rw_inv_def)
  then show ?thesis using assms(1) ok release_held by (auto simp: rw_inv_def)
qed

lemma rw_proceed_inv:
  assumes inv: "rw_inv valid free T s" and step: "rw_proceed acquire release s s'"
  shows "rw_inv valid free T s'"
  using step
proof cases
  case (r_count t n)
  then show ?thesis using inv ok_count_up by (auto simp: rw_inv_def)
next
  case (s_call t)
  then show ?thesis using inv ok_call_release by (auto simp: rw_inv_def)
next
  case (s_count t n)
  then show ?thesis using inv ok_count_down by (auto simp: rw_inv_def)
qed (simp_all add: inv inv_enter inv_leave inv_writer_enter inv_writer_leave)

lemma rw_proceed_left:
  assumes inv: "rw_inv valid free T s" and step: "rw_proceed acquire release s s'"
  shows "rw_left T s' < rw_left T s"
proof -
  have "\<exists>t p r. s' = goto t p r \<and> Pc r = Pc s \<and> rw_weight p < rw_weight (Pc s t)"
    using step by cases (intro exI conjI, assumption, simp, simp split: if_split)+
  then obtain t p where "Pc s' = (Pc s)(t := p)" and less: "rw_weight p < rw_weight (Pc s t)" by auto
  moreover have "t \<in> T" using inv less ok_active by (cases "Pc s t") (auto simp: rw_inv_def)
  ultimately show ?thesis using inv less work_decreases [of T t rw_weight p "Pc s"] by (simp add: rw_left_def rw_inv_def)
qed

lemma free_moves:
  assumes "\<forall>s'. \<not> rw_proceed acquire release s s'"
  shows "Pc s t \<in> {Out, RWait, RFirst, SWait, WWait}"
proof -
  have "Pc s t \<noteq> RCount" using assms r_count [of s t _ acquire release] by blast
  moreover have "Pc s t \<noteq> RLeave" using assms r_leave [of s t acquire release] by blast
  moreover have "Pc s t \<noteq> Reading" using assms s_call [of s t acquire release] by blast
  moreover have "Pc s t \<noteq> SCount" using assms s_count [of s t _ acquire release] by blast
  moreover have "Pc s t \<noteq> SLast" using assms s_last [of s t acquire release] by blast
  moreover have "Pc s t \<noteq> SLeave" using assms s_leave [of s t acquire release] by blast
  moreover have "Pc s t \<noteq> Writing" using assms w_leave [of s t acquire release] by blast
  ultimately show ?thesis by (cases "Pc s t") simp_all
qed

lemma rw_enabled:
  assumes inv: "rw_inv valid free T s" and stuck: "\<forall>s'. \<not> rw_proceed acquire release s s'"
  shows "rw_quiet free s"
proof -
  note pcs = free_moves [OF stuck]
  have ok: "rw_ok T (free (Os s) (ReaderMutex (Lk s))) (free (Os s) (WriterMutex (Lk s))) (NumReaders (Lk s)) (Pc s)"
    and valid: "valid (Os s) (ReaderMutex (Lk s))" "valid (Os s) (WriterMutex (Lk s))"
    using inv by (auto simp: rw_inv_def)
  have no_first: "Pc s t \<noteq> RFirst" for t
  proof
    assume t: "Pc s t = RFirst"
    then have "threads ((=) RFirst) (Pc s) \<noteq> {}" by (metis (full_types) empty_iff in_threads)
    then have "threads counted (Pc s) = threads ((=) RFirst) (Pc s)"
      using ok by (simp add: rw_ok_def Let_def)
    then have counted: "counted (Pc s u) \<longleftrightarrow> Pc s u = RFirst" for u by (metis (full_types) in_threads)
    have "\<not> shares (Pc s u) \<and> Pc s u \<noteq> Writing" for u using pcs [of u] counted [of u] by auto
    then have "free (Os s) (WriterMutex (Lk s))" using ok_free(2) [OF ok] by blast
    then show False using acquire_free [OF valid(2)] r_first [OF t] stuck by blast
  qed
  have "\<not> in_gate (Pc s t)" for t using pcs [of t] no_first [of t] by auto
  then have rfree: "free (Os s) (ReaderMutex (Lk s))" using ok_free(1) [OF ok] by blast
  then have no_wait: "Pc s t \<noteq> RWait" "Pc s t \<noteq> SWait" for t
    using acquire_free [OF valid(1)] r_enter [of s t] s_enter [of s t] stuck by blast+
  have none: "\<not> shares (Pc s t) \<and> Pc s t \<noteq> Writing \<and> \<not> counted (Pc s t)" for t
    using pcs [of t] no_first [of t] no_wait [of t] by auto
  then have wfree: "free (Os s) (WriterMutex (Lk s))" using ok_free(2) [OF ok] by blast
  then have "Pc s t \<noteq> WWait" for t using acquire_free [OF valid(2)] w_enter [of s t] stuck by blast
  then have "Pc s t = Out" for t using pcs [of t] no_first no_wait by auto
  moreover have "threads counted (Pc s) = {}" using none by (simp add: threads_empty)
  then have "NumReaders (Lk s) = 0" using ok by (simp add: rw_ok_def Let_def unat_eq_0)
  ultimately show ?thesis using rfree wfree by (simp add: rw_quiet_def)
qed

text \<open>A lock that was created has a quiet system around it.\<close>

lemma create_rw_inv:
  assumes "AcpiUtCreateRwLock create L os = (AE_OK, L', os')" and "card T < 2 ^ 32"
  shows "rw_inv valid free T \<lparr>Lk = L', Os = os', Pc = (\<lambda>_. Out)\<rparr>"
proof -
  obtain st r os1 where c1: "create os = (st, r, os1)" by (cases "create os") auto
  have st: "st = AE_OK" using assms(1) c1 by (auto simp: AcpiUtCreateRwLock_def Let_def ACPI_FAILURE_def split: if_splits)
  obtain r2 os2 where c2: "create os1 = (AE_OK, r2, os2)"
    using assms(1) c1 st by (cases "create os1") (auto simp: AcpiUtCreateRwLock_def Let_def)
  obtain h where h: "r = Some h" "h \<noteq> 0" "valid os1 = (valid os)(h := True)" "free os1 = (free os)(h := True)"
    using create_ok [of os r os1] c1 st by auto
  obtain k where k: "r2 = Some k" "\<not> valid os1 k" "valid os2 = (valid os1)(k := True)" "free os2 = (free os1)(k := True)"
    using create_ok [OF c2] by auto
  have "L' = L\<lparr>NumReaders := 0, ReaderMutex := h, WriterMutex := k\<rparr>" "os' = os2"
    using assms(1) c1 c2 st h(1) k(1) by (auto simp: AcpiUtCreateRwLock_def Let_def)
  then show ?thesis using h k assms(2) by (auto simp: rw_inv_def rw_ok_def threads_def)
qed

end

sublocale os_mutex \<subseteq> rw: draining "rw_inv valid free T" "rw_proceed acquire release" "rw_left T" "rw_quiet free"
  for T
  using rw_proceed_inv rw_proceed_left rw_enabled by unfold_locales blast+

definition rw_step ::
  "u64 set \<Rightarrow> (addr \<Rightarrow> 'o \<Rightarrow> (acpi_status \<times> 'o) option) \<Rightarrow> (addr \<Rightarrow> 'o \<Rightarrow> 'o) \<Rightarrow> 'o rw_system \<Rightarrow> 'o rw_system \<Rightarrow> bool" where
  "rw_step T acquire release s s' \<longleftrightarrow> rw_call T s s' \<or> rw_proceed acquire release s s'"

context os_mutex
begin

lemma rw_reachable_inv:
  assumes "(rw_step T acquire release)\<^sup>*\<^sup>* s s'" and "rw_inv valid free T s"
  shows "rw_inv valid free T s'"
  using assms by induction (auto simp: rw_step_def intro: rw_call_inv rw_proceed_inv)

end

text \<open>An undisturbed call of a routine is a sequence of the steps.\<close>

lemma read_lock_steps:
  assumes "AcpiUtAcquireReadLock acquire release (Lk s) (Os s) = Some (AE_OK, L, z)" and "Pc s t = RWait"
    and "\<And>h q st q'. acquire h q = Some (st, q') \<Longrightarrow> st = AE_OK"
  shows "(rw_proceed acquire release)\<^sup>*\<^sup>* s (goto t Reading (s\<lparr>Lk := L, Os := z\<rparr>))"
proof -
  obtain q where q: "acquire (ReaderMutex (Lk s)) (Os s) = Some (AE_OK, q)"
    using assms by (auto simp: AcpiUtAcquireReadLock_def split: option.splits prod.splits)
  define n where "n = NumReaders (Lk s) + 1"
  define s1 where "s1 = goto t RCount (s\<lparr>Os := q\<rparr>)"
  define s2 where "s2 = goto t (if n = 1 then RFirst else RLeave) (s1\<lparr>Lk := (Lk s1)\<lparr>NumReaders := n\<rparr>\<rparr>)"
  have 1: "rw_proceed acquire release s s1" unfolding s1_def by (rule r_enter) (simp_all add: assms(2) q)
  have 2: "rw_proceed acquire release s1 s2"
    unfolding s2_def by (rule r_count) (simp_all add: s1_def n_def)
  have L: "L = (Lk s)\<lparr>NumReaders := n\<rparr>"
    using assms(1) q by (auto simp: AcpiUtAcquireReadLock_def n_def Let_def split: option.splits if_splits)
  show ?thesis
  proof (cases "n = 1")
    case True
    obtain q' where q': "acquire (WriterMutex (Lk s)) q = Some (AE_OK, q')" "z = release (ReaderMutex (Lk s)) q'"
      using assms(1) q True by (auto simp: AcpiUtAcquireReadLock_def n_def Let_def split: option.splits)
    define s3 where "s3 = goto t RLeave (s2\<lparr>Os := q'\<rparr>)"
    have 3: "rw_proceed acquire release s2 s3"
      unfolding s3_def by (rule r_first) (simp_all add: s2_def s1_def True q')
    have 4: "rw_proceed acquire release s3 (goto t Reading (s3\<lparr>Os := release (ReaderMutex (Lk s3)) (Os s3)\<rparr>))"
      by (rule r_leave) (simp add: s3_def)
    have "goto t Reading (s3\<lparr>Os := release (ReaderMutex (Lk s3)) (Os s3)\<rparr>) = goto t Reading (s\<lparr>Lk := L, Os := z\<rparr>)"
      by (simp add: s3_def s2_def s1_def goto_def q' L True)
    then show ?thesis using 1 2 3 4 by (metis (no_types) converse_rtranclp_into_rtranclp r_into_rtranclp)
  next
    case False
    have 3: "rw_proceed acquire release s2 (goto t Reading (s2\<lparr>Os := release (ReaderMutex (Lk s2)) (Os s2)\<rparr>))"
      by (rule r_leave) (simp add: s2_def False)
    have "z = release (ReaderMutex (Lk s)) q"
      using assms(1) q False by (auto simp: AcpiUtAcquireReadLock_def n_def Let_def)
    then have "goto t Reading (s2\<lparr>Os := release (ReaderMutex (Lk s2)) (Os s2)\<rparr>) = goto t Reading (s\<lparr>Lk := L, Os := z\<rparr>)"
      by (simp add: s2_def s1_def goto_def L False)
    then show ?thesis using 1 2 3 by (metis (no_types) converse_rtranclp_into_rtranclp r_into_rtranclp)
  qed
qed

lemma read_unlock_steps:
  assumes "AcpiUtReleaseReadLock acquire release (Lk s) (Os s) = Some (AE_OK, L, z)" and "Pc s t = SWait"
  shows "(rw_proceed acquire release)\<^sup>*\<^sup>* s (goto t Out (s\<lparr>Lk := L, Os := z\<rparr>))"
proof -
  obtain q where q: "acquire (ReaderMutex (Lk s)) (Os s) = Some (AE_OK, q)"
    using assms by (auto simp: AcpiUtReleaseReadLock_def ACPI_FAILURE_def Let_def split: option.splits prod.splits if_splits)
  define n where "n = NumReaders (Lk s) - 1"
  define s1 where "s1 = goto t SCount (s\<lparr>Os := q\<rparr>)"
  define s2 where "s2 = goto t (if n = 0 then SLast else SLeave) (s1\<lparr>Lk := (Lk s1)\<lparr>NumReaders := n\<rparr>\<rparr>)"
  have 1: "rw_proceed acquire release s s1" unfolding s1_def by (rule s_enter) (simp_all add: assms(2) q)
  have 2: "rw_proceed acquire release s1 s2"
    unfolding s2_def by (rule s_count) (simp_all add: s1_def n_def)
  have L: "L = (Lk s)\<lparr>NumReaders := n\<rparr>"
    and z: "z = release (ReaderMutex (Lk s)) (if n = 0 then release (WriterMutex (Lk s)) q else q)"
    using assms(1) q by (auto simp: AcpiUtReleaseReadLock_def n_def Let_def)
  define s3 where "s3 = (if n = 0 then goto t SLeave (s2\<lparr>Os := release (WriterMutex (Lk s2)) (Os s2)\<rparr>) else s2)"
  have 3: "(rw_proceed acquire release)\<^sup>*\<^sup>* s2 s3"
  proof (cases "n = 0")
    case True
    have "rw_proceed acquire release s2 (goto t SLeave (s2\<lparr>Os := release (WriterMutex (Lk s2)) (Os s2)\<rparr>))"
      by (rule s_last) (simp add: s2_def True)
    then show ?thesis by (simp add: s3_def True)
  qed (simp add: s3_def)
  have 4: "rw_proceed acquire release s3 (goto t Out (s3\<lparr>Os := release (ReaderMutex (Lk s3)) (Os s3)\<rparr>))"
    by (rule s_leave) (simp add: s3_def s2_def)
  have "goto t Out (s3\<lparr>Os := release (ReaderMutex (Lk s3)) (Os s3)\<rparr>) = goto t Out (s\<lparr>Lk := L, Os := z\<rparr>)"
    by (simp add: s3_def s2_def s1_def goto_def L z)
  then show ?thesis using 1 2 3 4
    by (metis (no_types, lifting) converse_rtranclp_into_rtranclp rtranclp.rtrancl_into_rtrancl)
qed

section \<open>Properties\<close>

text \<open>Two threads and two semaphores, for the examples.\<close>

definition two_blocks :: "sems \<Rightarrow> addr" where
  "two_blocks s = (if s 0x10 = None then 0x10 else if s 0x20 = None then 0x20 else 0)"

definition rw_example :: "sems rw_system" where
  "rw_example = \<lparr>Lk = \<lparr>WriterMutex = 0x20, ReaderMutex = 0x10, NumReaders = 0\<rparr>,
     Os = [0x10 \<mapsto> Units 1, 0x20 \<mapsto> Units 1], Pc = (\<lambda>_. Out)\<rparr>"

lemma rw_example_created:
  "AcpiUtCreateRwLock (AcpiOsCreateMutex two_blocks) \<lparr>WriterMutex = 0, ReaderMutex = 0, NumReaders = 0\<rparr> (\<lambda>_. None)
     = (AE_OK, Lk rw_example, Os rw_example)"
  by (simp add: AcpiUtCreateRwLock_def create_mutex two_blocks_def rw_example_def)

text \<open>
  C2. Readers and writers exclude each other. Take a lock created by \<open>AcpiUtCreateRwLock\<close> on the host
  semaphores, and let fewer than \<open>2\<^sup>3\<^sup>2\<close> threads call its routines in any interleaving of their steps.
  In every state they reach, a writer is alone: no other thread is writing and none is reading, where
  a thread counts as reading until its \<open>AcpiUtReleaseReadLock\<close> has decremented the counter.
  \<open>NumReaders\<close> is the number of counted threads and has not wrapped, and the two mutexes are
  taken exactly as the counters say.
\<close>

theorem rw_lock_exclusion:
  assumes "AcpiUtCreateRwLock (AcpiOsCreateMutex pick) L os = (AE_OK, L', os')" and "card T < 2 ^ 32"
    and "(rw_step T AcpiOsAcquireMutex AcpiOsReleaseMutex)\<^sup>*\<^sup>* \<lparr>Lk = L', Os = os', Pc = (\<lambda>_. Out)\<rparr> s"
  shows "(\<forall>t u. Pc s t = Writing \<longrightarrow> Pc s u \<notin> {RLeave, Reading, SWait, SCount, SLast} \<and> (Pc s u = Writing \<longrightarrow> u = t))
    \<and> unat (NumReaders (Lk s)) = card {t. Pc s t \<in> {RFirst, RLeave, Reading, SWait, SCount}}
    \<and> (mutex_free (Os s) (WriterMutex (Lk s)) \<longleftrightarrow>
         (\<forall>t. Pc s t \<notin> {Writing, RLeave, Reading, SWait, SCount, SLast}))"
proof -
  have "rw_inv mutex_valid mutex_free T s"
    using binary_semaphore.rw_reachable_inv [OF assms(3)] binary_semaphore.create_rw_inv [OF assms(1,2)] by blast
  then have ok: "rw_ok T (mutex_free (Os s) (ReaderMutex (Lk s))) (mutex_free (Os s) (WriterMutex (Lk s))) (NumReaders (Lk s)) (Pc s)"
    by (simp add: rw_inv_def)
  have shares: "shares p \<longleftrightarrow> p \<in> {RLeave, Reading, SWait, SCount, SLast}" for p by (cases p) auto
  have counted: "counted p \<longleftrightarrow> p \<in> {RFirst, RLeave, Reading, SWait, SCount}" for p by (cases p) auto
  have "Pc s t = Writing \<Longrightarrow> \<not> shares (Pc s u) \<and> (Pc s u = Writing \<longrightarrow> u = t)" for t u
    using ok only_thread [of "(=) Writing" "Pc s" t] by (auto simp: rw_ok_def Let_def threads_def)
  moreover have "unat (NumReaders (Lk s)) = card {t. counted (Pc s t)}"
    using ok by (simp add: rw_ok_def Let_def threads_def)
  ultimately show ?thesis using ok_free(2) [OF ok] unfolding shares counted by blast
qed

definition rw_written :: "sems rw_system" where
  "rw_written = rw_example\<lparr>Os := (Os rw_example)(0x20 \<mapsto> Units 0), Pc := (\<lambda>_. Out)(1 := Writing)\<rparr>"

lemma rw_written_reached:
  "(rw_step T AcpiOsAcquireMutex AcpiOsReleaseMutex)\<^sup>*\<^sup>* \<lparr>Lk = Lk rw_example, Os = Os rw_example, Pc = (\<lambda>_. Out)\<rparr> rw_written"
  if "1 \<in> T"
proof -
  have "rw_step T AcpiOsAcquireMutex AcpiOsReleaseMutex rw_example (goto 1 WWait rw_example)"
    unfolding rw_step_def by (rule disjI1, rule call_write) (simp_all add: that rw_example_def)
  moreover have "rw_step T AcpiOsAcquireMutex AcpiOsReleaseMutex (goto 1 WWait rw_example)
      (goto 1 Writing ((goto 1 WWait rw_example)\<lparr>Os := (Os rw_example)(0x20 \<mapsto> Units 0)\<rparr>))"
    unfolding rw_step_def by (rule disjI2, rule w_enter) (simp_all add: rw_example_def acquire_mutex_cases)
  moreover have "goto 1 Writing ((goto 1 WWait rw_example)\<lparr>Os := (Os rw_example)(0x20 \<mapsto> Units 0)\<rparr>) = rw_written"
    by (simp add: goto_def rw_written_def rw_example_def)
  moreover have "\<lparr>Lk = Lk rw_example, Os = Os rw_example, Pc = (\<lambda>_. Out)\<rparr> = rw_example" by (simp add: rw_example_def)
  ultimately show ?thesis by (simp add: converse_rtranclp_into_rtranclp)
qed

theorem rw_lock_exclusion_witness:
  "unat (NumReaders (Lk rw_written)) = card {t. Pc rw_written t \<in> {RFirst, RLeave, Reading, SWait, SCount}}
     \<and> \<not> mutex_free (Os rw_written) (WriterMutex (Lk rw_written))"
proof -
  have "Pc rw_written 1 = Writing" by (simp add: rw_written_def)
  then show ?thesis
    using rw_lock_exclusion [OF rw_example_created _ rw_written_reached, of "{1, 2}"] by auto
qed

lemma rw_left_bound: "rw_left T s \<le> 9 * card T"
proof -
  have "rw_weight p \<le> 9" for p by (cases p) simp_all
  then have "work rw_weight T (Pc s) \<le> of_nat (card T) * 9"
    unfolding work_def by (intro sum_bounded_above) auto
  then show ?thesis by (simp add: rw_left_def)
qed

text \<open>
  C27. No deadlock: take any state that the threads of the previous property reach and let no new
  call be started. Then under every schedule at most \<open>9\<close> steps per thread remain, a state in which no
  thread can go on is one in which every call has returned, every read and write lock has been
  given back and both mutexes are free, and such a state can be reached.
\<close>

theorem rw_lock_drains:
  assumes "AcpiUtCreateRwLock (AcpiOsCreateMutex pick) L os = (AE_OK, L', os')" and "card T < 2 ^ 32"
    and "(rw_step T AcpiOsAcquireMutex AcpiOsReleaseMutex)\<^sup>*\<^sup>* \<lparr>Lk = L', Os = os', Pc = (\<lambda>_. Out)\<rparr> s"
  shows "(\<forall>n s'. (rw_proceed AcpiOsAcquireMutex AcpiOsReleaseMutex ^^ n) s s' \<longrightarrow> n \<le> 9 * card T
        \<and> (rw_quiet mutex_free s' \<or> (\<exists>s''. rw_proceed AcpiOsAcquireMutex AcpiOsReleaseMutex s' s'')))
    \<and> (\<exists>s'. (rw_proceed AcpiOsAcquireMutex AcpiOsReleaseMutex)\<^sup>*\<^sup>* s s' \<and> rw_quiet mutex_free s')"
proof -
  have inv: "rw_inv mutex_valid mutex_free T s"
    using binary_semaphore.rw_reachable_inv [OF assms(3)] binary_semaphore.create_rw_inv [OF assms(1,2)] by blast
  have "n \<le> 9 * card T \<and> (rw_quiet mutex_free s' \<or> (\<exists>s''. rw_proceed AcpiOsAcquireMutex AcpiOsReleaseMutex s' s''))"
    if "(rw_proceed AcpiOsAcquireMutex AcpiOsReleaseMutex ^^ n) s s'" for n s'
    using binary_semaphore.rw.run_bounded [OF that inv] binary_semaphore.rw.stuck_quiet [of T s'] rw_left_bound [of T s]
    by fastforce
  then show ?thesis using binary_semaphore.rw.drains [OF inv] by blast
qed

theorem rw_lock_drains_witness:
  "\<exists>s'. (rw_proceed AcpiOsAcquireMutex AcpiOsReleaseMutex)\<^sup>*\<^sup>* rw_written s' \<and> rw_quiet mutex_free s'"
  using rw_lock_drains [OF rw_example_created _ rw_written_reached, of "{1, 2}"] by auto

text \<open>
  A failed read lock is not undone. If the host cannot give the writer mutex to the first reader,
  \<open>AcpiUtAcquireReadLock\<close> reports the error but leaves \<open>NumReaders\<close> at 1; the next call finds the count
  at 2, does not ask for the writer mutex and reports success: its caller reads without exclusion.
\<close>

theorem failed_read_lock_counts:
  assumes R: "acquire (ReaderMutex L) os = Some (AE_OK, os1)" and W: "acquire (WriterMutex L) os1 = Some (e, os2)"
    and fail: "e \<noteq> AE_OK" and n: "NumReaders L = 0"
    and again: "acquire (ReaderMutex L) (release (ReaderMutex L) os2) = Some (AE_OK, os3)"
  shows "AcpiUtAcquireReadLock acquire release L os = Some (e, L\<lparr>NumReaders := 1\<rparr>, release (ReaderMutex L) os2)
    \<and> AcpiUtAcquireReadLock acquire release (L\<lparr>NumReaders := 1\<rparr>) (release (ReaderMutex L) os2)
        = Some (AE_OK, L\<lparr>NumReaders := 2\<rparr>, release (ReaderMutex L) os3)"
  using assms by (simp add: AcpiUtAcquireReadLock_def)

text \<open>The host layer fails that way for a writer mutex that has been deleted.\<close>

theorem failed_read_lock_counts_witness:
  "AcpiUtAcquireReadLock AcpiOsAcquireMutex AcpiOsReleaseMutex (Lk rw_example) [0x10 \<mapsto> Units 1, 0x20 \<mapsto> Destroyed]
     = Some (AE_TIME, (Lk rw_example)\<lparr>NumReaders := 1\<rparr>, [0x10 \<mapsto> Units 1, 0x20 \<mapsto> Destroyed])
   \<and> AcpiUtAcquireReadLock AcpiOsAcquireMutex AcpiOsReleaseMutex ((Lk rw_example)\<lparr>NumReaders := 1\<rparr>) [0x10 \<mapsto> Units 1, 0x20 \<mapsto> Destroyed]
     = Some (AE_OK, (Lk rw_example)\<lparr>NumReaders := 2\<rparr>, [0x10 \<mapsto> Units 1, 0x20 \<mapsto> Destroyed])"
proof -
  let ?s = "[0x10 \<mapsto> Units 1, 0x20 \<mapsto> Destroyed] :: sems"
  let ?s1 = "[0x10 \<mapsto> Units 0, 0x20 \<mapsto> Destroyed] :: sems"
  have R: "AcpiOsAcquireMutex 0x10 ?s = Some (AE_OK, ?s1)" by (simp add: acquire_mutex_cases fun_upd_twist)
  have W: "AcpiOsAcquireMutex 0x20 ?s1 = Some (AE_TIME, ?s1)" by (simp add: semaphore_defs)
  have rel: "AcpiOsReleaseMutex 0x10 ?s1 = ?s" by (simp add: release_mutex fun_upd_twist)
  show ?thesis
    using failed_read_lock_counts [of AcpiOsAcquireMutex "Lk rw_example" ?s ?s1 AE_TIME ?s1 AcpiOsReleaseMutex ?s1] R W rel
    by (simp add: rw_example_def)
qed

end
