(* ===== verification/Mutex.thy ===== *)
theory Mutex
  imports RwLock
begin

text \<open>
  The mutex table of \<^verbatim>\<open>components/utilities/utmutex.c\<close>: six mutexes with the order in which a thread
  may acquire them. With \<^verbatim>\<open>ACPI_MUTEX_DEBUG\<close> (argument \<open>debug\<close>) the code checks the order on
  each call; the checks are what excludes deadlocks. The host mutexes are arguments, with the contract
  \<open>os_mutex\<close> of theory \<open>Semaphore\<close>; \<open>T\<close> is the identifier of the calling thread.
\<close>

section \<open>The mutex table\<close>

definition ACPI_MAX_MUTEX :: nat where "ACPI_MAX_MUTEX = 5"
definition ACPI_NUM_MUTEX :: nat where "ACPI_NUM_MUTEX = 6"
definition ACPI_MUTEX_NOT_ACQUIRED :: u64 where "ACPI_MUTEX_NOT_ACQUIRED = -1"

record mutex_info =
  mi_Mutex :: addr
  mi_UseCount :: u32
  mi_ThreadId :: u64

record 'o mutex_state =
  MutexInfo :: "mutex_info list"
  Host :: 'o

section \<open>Creation and deletion\<close>

definition AcpiUtCreateMutex ::
  "('o \<Rightarrow> acpi_status \<times> addr option \<times> 'o) \<Rightarrow> nat \<Rightarrow> 'o mutex_state \<Rightarrow> acpi_status \<times> 'o mutex_state" where
  "AcpiUtCreateMutex create MutexId st =
     (let m = MutexInfo st ! MutexId
      in if mi_Mutex m = 0
         then case create (Host st) of
                (Status, r, os) \<Rightarrow>
                  let m = (case r of Some h \<Rightarrow> m\<lparr>mi_Mutex := h\<rparr> | None \<Rightarrow> m)
                  in (Status, st\<lparr>Host := os, MutexInfo := (MutexInfo st)
                       [MutexId := m\<lparr>mi_ThreadId := ACPI_MUTEX_NOT_ACQUIRED, mi_UseCount := 0\<rparr>]\<rparr>)
         else (AE_OK, st))"

definition AcpiUtDeleteMutex :: "(addr \<Rightarrow> 'o \<Rightarrow> 'o) \<Rightarrow> nat \<Rightarrow> 'o mutex_state \<Rightarrow> 'o mutex_state" where
  "AcpiUtDeleteMutex delete MutexId st =
     (let m = MutexInfo st ! MutexId
      in st\<lparr>Host := delete (mi_Mutex m) (Host st), MutexInfo := (MutexInfo st)
           [MutexId := m\<lparr>mi_Mutex := 0, mi_ThreadId := ACPI_MUTEX_NOT_ACQUIRED\<rparr>]\<rparr>)"

function create_mutexes ::
  "('o \<Rightarrow> acpi_status \<times> addr option \<times> 'o) \<Rightarrow> nat \<Rightarrow> 'o mutex_state \<Rightarrow> acpi_status \<times> 'o mutex_state" where
  "create_mutexes create i st =
     (if i < ACPI_NUM_MUTEX
      then case AcpiUtCreateMutex create i st of
             (Status, st) \<Rightarrow> if ACPI_FAILURE Status then (Status, st) else create_mutexes create (i + 1) st
      else (AE_OK, st))"
  by pat_completeness auto
termination by (relation "measure (\<lambda>(c, i, st). ACPI_NUM_MUTEX - i)") auto

text \<open>The other locks of the subsystem.\<close>

record lock_globals =
  GpeLock :: addr
  HardwareLock :: addr
  ReferenceCountLock :: addr
  OsiMutex :: addr
  NamespaceRwLock :: rw_lock

text \<open>\<open>create_into create set (g, os)\<close> stores the handle of a new host lock in a field.\<close>

definition create_into ::
  "('o \<Rightarrow> acpi_status \<times> addr option \<times> 'o) \<Rightarrow> ((addr \<Rightarrow> addr) \<Rightarrow> lock_globals \<Rightarrow> lock_globals)
     \<Rightarrow> lock_globals \<Rightarrow> 'o \<Rightarrow> acpi_status \<times> lock_globals \<times> 'o" where
  "create_into create field g os =
     (case create os of (Status, r, os) \<Rightarrow> (Status, (case r of Some h \<Rightarrow> field (\<lambda>_. h) g | None \<Rightarrow> g), os))"

definition AcpiUtMutexInitialize ::
  "('o \<Rightarrow> acpi_status \<times> addr option \<times> 'o) \<Rightarrow> ('o \<Rightarrow> acpi_status \<times> addr option \<times> 'o)
     \<Rightarrow> 'o mutex_state \<Rightarrow> lock_globals \<Rightarrow> acpi_status \<times> 'o mutex_state \<times> lock_globals" where
  "AcpiUtMutexInitialize create create_lock st g =
     (case create_mutexes create 0 st of
        (Status, st) \<Rightarrow>
          if ACPI_FAILURE Status then (Status, st, g)
          else case create_into create_lock GpeLock_update g (Host st) of
            (Status, g, os) \<Rightarrow>
          if ACPI_FAILURE Status then (Status, st\<lparr>Host := os\<rparr>, g)
          else case create_into create_lock HardwareLock_update g os of
            (Status, g, os) \<Rightarrow>
          if ACPI_FAILURE Status then (Status, st\<lparr>Host := os\<rparr>, g)
          else case create_into create_lock ReferenceCountLock_update g os of
            (Status, g, os) \<Rightarrow>
          if ACPI_FAILURE Status then (Status, st\<lparr>Host := os\<rparr>, g)
          else case create_into create OsiMutex_update g os of
            (Status, g, os) \<Rightarrow>
          if ACPI_FAILURE Status then (Status, st\<lparr>Host := os\<rparr>, g)
          else case AcpiUtCreateRwLock create (NamespaceRwLock g) os of
            (Status, L, os) \<Rightarrow> (Status, st\<lparr>Host := os\<rparr>, g\<lparr>NamespaceRwLock := L\<rparr>))"

definition AcpiUtMutexTerminate ::
  "(addr \<Rightarrow> 'o \<Rightarrow> 'o) \<Rightarrow> (addr \<Rightarrow> 'o \<Rightarrow> 'o) \<Rightarrow> 'o mutex_state \<Rightarrow> lock_globals \<Rightarrow> 'o mutex_state \<times> lock_globals" where
  "AcpiUtMutexTerminate delete delete_lock st g =
     (let st = fold (AcpiUtDeleteMutex delete) [0..<ACPI_NUM_MUTEX] st;
          os = delete (OsiMutex g) (Host st);
          os = delete_lock (GpeLock g) os;
          os = delete_lock (HardwareLock g) os;
          os = delete_lock (ReferenceCountLock g) os;
          (L, os) = AcpiUtDeleteRwLock delete (NamespaceRwLock g) os
      in (st\<lparr>Host := os\<rparr>, g\<lparr>NamespaceRwLock := L\<rparr>))"

section \<open>Acquisition and release\<close>

text \<open>The order checks of the debug code.\<close>

function acquire_order :: "mutex_info list \<Rightarrow> u64 \<Rightarrow> nat \<Rightarrow> nat \<Rightarrow> acpi_status" where
  "acquire_order info ThisThreadId MutexId i =
     (if i < ACPI_NUM_MUTEX
      then if mi_ThreadId (info ! i) = ThisThreadId
           then if i = MutexId then AE_ALREADY_ACQUIRED else AE_ACQUIRE_DEADLOCK
           else acquire_order info ThisThreadId MutexId (i + 1)
      else AE_OK)"
  by pat_completeness auto
termination by (relation "measure (\<lambda>(s, t, m, i). ACPI_NUM_MUTEX - i)") auto

function release_order :: "mutex_info list \<Rightarrow> u64 \<Rightarrow> nat \<Rightarrow> nat \<Rightarrow> acpi_status" where
  "release_order info ThisThreadId MutexId i =
     (if i < ACPI_NUM_MUTEX
      then if mi_ThreadId (info ! i) = ThisThreadId
           then if i = MutexId then release_order info ThisThreadId MutexId (i + 1) else AE_RELEASE_DEADLOCK
           else release_order info ThisThreadId MutexId (i + 1)
      else AE_OK)"
  by pat_completeness auto
termination by (relation "measure (\<lambda>(s, t, m, i). ACPI_NUM_MUTEX - i)") auto

declare create_mutexes.simps [simp del] acquire_order.simps [simp del] release_order.simps [simp del]

text \<open>What the routines do before and after the host call.\<close>

definition acquire_begin :: "bool \<Rightarrow> u64 \<Rightarrow> nat \<Rightarrow> mutex_info list \<Rightarrow> acpi_status" where
  "acquire_begin debug T MutexId info =
     (if MutexId > ACPI_MAX_MUTEX then AE_BAD_PARAMETER
      else if debug then acquire_order info T MutexId MutexId else AE_OK)"

definition acquire_end :: "u64 \<Rightarrow> nat \<Rightarrow> mutex_info list \<Rightarrow> mutex_info list" where
  "acquire_end T MutexId info =
     info[MutexId := (info ! MutexId)\<lparr>mi_UseCount := mi_UseCount (info ! MutexId) + 1, mi_ThreadId := T\<rparr>]"

definition release_begin :: "bool \<Rightarrow> u64 \<Rightarrow> nat \<Rightarrow> mutex_info list \<Rightarrow> acpi_status" where
  "release_begin debug T MutexId info =
     (if MutexId > ACPI_MAX_MUTEX then AE_BAD_PARAMETER
      else if mi_ThreadId (info ! MutexId) = ACPI_MUTEX_NOT_ACQUIRED then AE_NOT_ACQUIRED
      else if debug then release_order info T MutexId MutexId else AE_OK)"

definition unmark :: "nat \<Rightarrow> mutex_info list \<Rightarrow> mutex_info list" where
  "unmark MutexId info = info[MutexId := (info ! MutexId)\<lparr>mi_ThreadId := ACPI_MUTEX_NOT_ACQUIRED\<rparr>]"

definition AcpiUtAcquireMutex ::
  "bool \<Rightarrow> (addr \<Rightarrow> 'o \<Rightarrow> (acpi_status \<times> 'o) option) \<Rightarrow> u64 \<Rightarrow> nat \<Rightarrow> 'o mutex_state \<Rightarrow> (acpi_status \<times> 'o mutex_state) option" where
  "AcpiUtAcquireMutex debug acquire T MutexId st =
     (let Status = acquire_begin debug T MutexId (MutexInfo st)
      in if ACPI_FAILURE Status then Some (Status, st)
         else case acquire (mi_Mutex (MutexInfo st ! MutexId)) (Host st) of
                None \<Rightarrow> None
              | Some (Status, os) \<Rightarrow>
                  if \<not> ACPI_FAILURE Status
                  then Some (Status, st\<lparr>Host := os, MutexInfo := acquire_end T MutexId (MutexInfo st)\<rparr>)
                  else Some (Status, st\<lparr>Host := os\<rparr>))"

definition AcpiUtReleaseMutex ::
  "bool \<Rightarrow> (addr \<Rightarrow> 'o \<Rightarrow> 'o) \<Rightarrow> u64 \<Rightarrow> nat \<Rightarrow> 'o mutex_state \<Rightarrow> acpi_status \<times> 'o mutex_state" where
  "AcpiUtReleaseMutex debug release T MutexId st =
     (let Status = release_begin debug T MutexId (MutexInfo st)
      in if ACPI_FAILURE Status then (Status, st)
         else let info = unmark MutexId (MutexInfo st)
              in (AE_OK, st\<lparr>MutexInfo := info, Host := release (mi_Mutex (info ! MutexId)) (Host st)\<rparr>))"

section \<open>Interleaved calls\<close>

text \<open>
  Between the checks and the host call of \<open>AcpiUtAcquireMutex\<close>, between the host call and the
  entry in the table, and between the entry and the host call of \<open>AcpiUtReleaseMutex\<close> other threads
  can run. A thread releases only a mutex it has acquired.
\<close>

datatype mutex_pc = Idle | Wants nat | Got nat | Drops nat

record 'o mutex_system = "'o mutex_state" +
  Tpc :: "u64 \<Rightarrow> mutex_pc"

inductive mutex_call :: "bool \<Rightarrow> u64 set \<Rightarrow> 'o mutex_system \<Rightarrow> 'o mutex_system \<Rightarrow> bool" for debug T where
  calls: "t \<in> T \<Longrightarrow> Tpc s t = Idle \<Longrightarrow> acquire_begin debug t i (MutexInfo s) = AE_OK
            \<Longrightarrow> mutex_call debug T s (s\<lparr>Tpc := (Tpc s)(t := Wants i)\<rparr>)"

inductive mutex_proceed ::
  "bool \<Rightarrow> (addr \<Rightarrow> 'o \<Rightarrow> (acpi_status \<times> 'o) option) \<Rightarrow> (addr \<Rightarrow> 'o \<Rightarrow> 'o) \<Rightarrow> 'o mutex_system \<Rightarrow> 'o mutex_system \<Rightarrow> bool"
  for debug acquire release where
  gets: "Tpc s t = Wants i \<Longrightarrow> acquire (mi_Mutex (MutexInfo s ! i)) (Host s) = Some (AE_OK, z)
           \<Longrightarrow> mutex_proceed debug acquire release s (s\<lparr>Host := z, Tpc := (Tpc s)(t := Got i)\<rparr>)"
| marks: "Tpc s t = Got i
           \<Longrightarrow> mutex_proceed debug acquire release s
                 (s\<lparr>MutexInfo := acquire_end t i (MutexInfo s), Tpc := (Tpc s)(t := Idle)\<rparr>)"
| unmarks: "Tpc s t = Idle \<Longrightarrow> mi_ThreadId (MutexInfo s ! i) = t \<Longrightarrow> release_begin debug t i (MutexInfo s) = AE_OK
           \<Longrightarrow> mutex_proceed debug acquire release s
                 (s\<lparr>MutexInfo := unmark i (MutexInfo s), Tpc := (Tpc s)(t := Drops i)\<rparr>)"
| posts: "Tpc s t = Drops i
           \<Longrightarrow> mutex_proceed debug acquire release s
                 (s\<lparr>Host := release (mi_Mutex (MutexInfo s ! i)) (Host s), Tpc := (Tpc s)(t := Idle)\<rparr>)"

inductive_cases mutex_callE: "mutex_call debug T s s'"

text \<open>A mutex is in transit while a thread is between the host call and the entry in the table.\<close>

fun transit :: "nat \<Rightarrow> mutex_pc \<Rightarrow> bool" where
  "transit i (Got j) \<longleftrightarrow> i = j" | "transit i (Drops j) \<longleftrightarrow> i = j" | "transit i _ \<longleftrightarrow> False"

fun ordered :: "(nat \<Rightarrow> u64) \<Rightarrow> u64 \<Rightarrow> mutex_pc \<Rightarrow> bool" where
  "ordered own t (Wants i) \<longleftrightarrow> (\<forall>j\<ge>i. j < ACPI_NUM_MUTEX \<longrightarrow> own j \<noteq> t)"
| "ordered own t _ \<longleftrightarrow> True"

fun target_ok :: "mutex_pc \<Rightarrow> bool" where
  "target_ok Idle \<longleftrightarrow> True" | "target_ok (Wants i) \<longleftrightarrow> i < ACPI_NUM_MUTEX"
| "target_ok (Got i) \<longleftrightarrow> i < ACPI_NUM_MUTEX" | "target_ok (Drops i) \<longleftrightarrow> i < ACPI_NUM_MUTEX"

text \<open>
  The invariant, in terms of the owners in the table and of the mutexes that are free: those in
  transit have no owner, at most one thread has a mutex in transit, and a mutex is free if
  it has no owner and is not in transit. With the checks, a thread that waits owns only lower mutexes.
\<close>

definition mutex_ok :: "bool \<Rightarrow> u64 set \<Rightarrow> (nat \<Rightarrow> bool) \<Rightarrow> (nat \<Rightarrow> u64) \<Rightarrow> (u64 \<Rightarrow> mutex_pc) \<Rightarrow> bool" where
  "mutex_ok debug T fr own pc \<longleftrightarrow>
     ACPI_MUTEX_NOT_ACQUIRED \<notin> T
     \<and> (\<forall>t. pc t \<noteq> Idle \<longrightarrow> t \<in> T) \<and> (\<forall>t. target_ok (pc t))
     \<and> (\<forall>i<ACPI_NUM_MUTEX. own i \<in> insert ACPI_MUTEX_NOT_ACQUIRED T)
     \<and> (\<forall>i<ACPI_NUM_MUTEX. fr i \<longleftrightarrow> own i = ACPI_MUTEX_NOT_ACQUIRED \<and> threads (transit i) pc = {})
     \<and> (\<forall>i. threads (transit i) pc = {} \<or> own i = ACPI_MUTEX_NOT_ACQUIRED)
     \<and> (\<forall>i. \<exists>t. threads (transit i) pc \<subseteq> {t})
     \<and> (debug \<longrightarrow> (\<forall>t. ordered own t (pc t)))"

definition handle :: "mutex_info list \<Rightarrow> nat \<Rightarrow> addr" where "handle info i = mi_Mutex (info ! i)"
definition owner :: "mutex_info list \<Rightarrow> nat \<Rightarrow> u64" where "owner info i = mi_ThreadId (info ! i)"

definition mutex_inv ::
  "('o \<Rightarrow> addr \<Rightarrow> bool) \<Rightarrow> ('o \<Rightarrow> addr \<Rightarrow> bool) \<Rightarrow> bool \<Rightarrow> u64 set \<Rightarrow> 'o mutex_system \<Rightarrow> bool" where
  "mutex_inv valid free debug T s \<longleftrightarrow>
     length (MutexInfo s) = ACPI_NUM_MUTEX
     \<and> (\<forall>i<ACPI_NUM_MUTEX. valid (Host s) (handle (MutexInfo s) i))
     \<and> inj_on (handle (MutexInfo s)) {..<ACPI_NUM_MUTEX}
     \<and> mutex_ok debug T (\<lambda>i. free (Host s) (handle (MutexInfo s) i)) (owner (MutexInfo s)) (Tpc s)"

section \<open>The invariant\<close>

lemma all_from: "(\<forall>k\<ge>j. k < n \<longrightarrow> P k) \<longleftrightarrow> (j < n \<longrightarrow> P j) \<and> (\<forall>k\<ge>Suc j. k < n \<longrightarrow> P k)" for j :: nat
  by (metis Suc_leD Suc_leI le_less order_refl)

lemma acquire_order_ok:
  "acquire_order info t i j = AE_OK \<longleftrightarrow> (\<forall>k\<ge>j. k < ACPI_NUM_MUTEX \<longrightarrow> owner info k \<noteq> t)"
proof (induction info t i j rule: acquire_order.induct)
  case (1 info t i j)
  then show ?case
    unfolding all_from [where j = j] by (subst acquire_order.simps) (auto simp: owner_def)
qed

lemma release_order_ok:
  "j \<ge> i \<Longrightarrow> release_order info t i j = AE_OK \<longleftrightarrow> (\<forall>k\<ge>j. k < ACPI_NUM_MUTEX \<longrightarrow> k \<noteq> i \<longrightarrow> owner info k \<noteq> t)"
proof (induction info t i j rule: release_order.induct)
  case (1 info t i j)
  then show ?case
    unfolding all_from [where j = j] by (subst release_order.simps) (auto simp: owner_def)
qed

lemma enter_transit:
  assumes "pc t = Wants j \<or> pc t = Idle" and "x = Got j \<or> x = Drops j"
  shows "threads (transit i) (pc(t := x)) = (if i = j then insert t (threads (transit i) pc) else threads (transit i) pc)"
  using assms by auto

lemma leave_transit:
  assumes "pc t = Got j \<or> pc t = Drops j"
  shows "threads (transit i) (pc(t := Idle)) = (if i = j then threads (transit i) pc - {t} else threads (transit i) pc)"
  using assms by auto

lemma all_update: "(\<forall>u. P u ((pc(t := x)) u)) \<longleftrightarrow> P t x \<and> (\<forall>u. u \<noteq> t \<longrightarrow> P u (pc u))"
  by auto

lemma ok_calls:
  assumes "mutex_ok debug T fr own pc" and "t \<in> T" and "pc t = Idle" and "i < ACPI_NUM_MUTEX"
    and "debug \<Longrightarrow> ordered own t (Wants i)"
  shows "mutex_ok debug T fr own (pc(t := Wants i))"
  using assms unfolding mutex_ok_def all_update by simp

lemma ok_gets:
  assumes ok: "mutex_ok debug T fr own pc" and t: "pc t = Wants i" and "fr i"
  shows "mutex_ok debug T (fr(i := False)) own (pc(t := Got i))"
proof -
  have "i < ACPI_NUM_MUTEX" "t \<in> T" using ok t unfolding mutex_ok_def by (metis mutex_pc.distinct(1) target_ok.simps(2))+
  moreover have "own i = ACPI_MUTEX_NOT_ACQUIRED" "threads (transit i) pc = {}"
    using ok \<open>fr i\<close> calculation unfolding mutex_ok_def by blast+
  moreover have "threads (transit j) (pc(t := Got i)) = (if j = i then insert t (threads (transit j) pc) else threads (transit j) pc)" for j
    using t by (intro enter_transit) auto
  ultimately show ?thesis using ok t unfolding mutex_ok_def all_update by simp
qed

lemma ok_marks:
  assumes ok: "mutex_ok debug T fr own pc" and t: "pc t = Got i"
  shows "mutex_ok debug T fr (own(i := t)) (pc(t := Idle))"
proof -
  have i: "i < ACPI_NUM_MUTEX" "t \<in> T" using ok t unfolding mutex_ok_def by (metis mutex_pc.distinct(3) target_ok.simps(3))+
  have one: "threads (transit i) pc = {t}" using ok t only_thread [of "transit i" pc t] unfolding mutex_ok_def by simp
  have "own i = ACPI_MUTEX_NOT_ACQUIRED" using ok one unfolding mutex_ok_def by blast
  moreover have "threads (transit j) (pc(t := Idle)) = (if j = i then threads (transit j) pc - {t} else threads (transit j) pc)" for j
    using t by (intro leave_transit) auto
  moreover have "ordered own u (pc u) \<Longrightarrow> u \<noteq> t \<Longrightarrow> ordered (own(i := t)) u (pc u)" for u by (cases "pc u") auto
  moreover have "t \<noteq> ACPI_MUTEX_NOT_ACQUIRED" using ok i unfolding mutex_ok_def by blast
  ultimately show ?thesis using ok t i one unfolding mutex_ok_def all_update by simp
qed

lemma ok_unmarks:
  assumes ok: "mutex_ok debug T fr own pc" and t: "pc t = Idle" "own i = t" "i < ACPI_NUM_MUTEX" "t \<noteq> ACPI_MUTEX_NOT_ACQUIRED"
  shows "mutex_ok debug T fr (own(i := ACPI_MUTEX_NOT_ACQUIRED)) (pc(t := Drops i))"
proof -
  have T: "t \<in> T" using ok t unfolding mutex_ok_def by blast
  have none: "threads (transit i) pc = {}" using ok t unfolding mutex_ok_def by blast
  have "threads (transit j) (pc(t := Drops i)) = (if j = i then insert t (threads (transit j) pc) else threads (transit j) pc)" for j
    using t by (intro enter_transit) auto
  moreover have "ordered (own(i := ACPI_MUTEX_NOT_ACQUIRED)) u (pc u)" if "ordered own u (pc u)" for u
  proof (cases "pc u")
    case (Wants k)
    then have "u \<in> T" using ok unfolding mutex_ok_def by (metis mutex_pc.distinct(1))
    then have "u \<noteq> ACPI_MUTEX_NOT_ACQUIRED" using ok unfolding mutex_ok_def by blast
    then show ?thesis using that Wants by auto
  qed auto
  ultimately show ?thesis using ok t T none unfolding mutex_ok_def all_update by simp
qed

lemma ok_posts:
  assumes ok: "mutex_ok debug T fr own pc" and t: "pc t = Drops i"
  shows "mutex_ok debug T (fr(i := True)) own (pc(t := Idle))" and "\<not> fr i" and "i < ACPI_NUM_MUTEX"
proof -
  show i: "i < ACPI_NUM_MUTEX" using ok t unfolding mutex_ok_def by (metis target_ok.simps(4))
  have one: "threads (transit i) pc = {t}" using ok t only_thread [of "transit i" pc t] unfolding mutex_ok_def by simp
  have own: "own i = ACPI_MUTEX_NOT_ACQUIRED" using ok one unfolding mutex_ok_def by blast
  have "threads (transit j) (pc(t := Idle)) = (if j = i then threads (transit j) pc - {t} else threads (transit j) pc)" for j
    using t by (intro leave_transit) auto
  then show "mutex_ok debug T (fr(i := True)) own (pc(t := Idle))"
    using ok t i one own unfolding mutex_ok_def all_update by simp
  show "\<not> fr i" using ok i one unfolding mutex_ok_def by blast
qed

section \<open>Steps on mutexes that keep the contract\<close>

lemma table_updates [simp]:
  "length (acquire_end t i info) = length info" "length (unmark i info) = length info"
  "i < length info \<Longrightarrow> handle (acquire_end t i info) = handle info"
  "i < length info \<Longrightarrow> handle (unmark i info) = handle info"
  "i < length info \<Longrightarrow> owner (acquire_end t i info) = (owner info)(i := t)"
  "i < length info \<Longrightarrow> owner (unmark i info) = (owner info)(i := ACPI_MUTEX_NOT_ACQUIRED)"
  by (auto simp: acquire_end_def unmark_def handle_def owner_def fun_eq_iff nth_list_update)

lemma other_handles:
  assumes "inj_on (handle info) {..<ACPI_NUM_MUTEX}" and "i < ACPI_NUM_MUTEX"
    and "mutex_ok debug T (fr(i := b)) own pc" and "\<And>j. fr j = f (handle info j)"
  shows "mutex_ok debug T (\<lambda>j. (f(handle info i := b)) (handle info j)) own pc"
proof -
  have "(f(handle info i := b)) (handle info j) = (fr(i := b)) j" if "j < ACPI_NUM_MUTEX" for j
    using assms that by (auto simp: inj_on_def)
  then show ?thesis using assms(3) unfolding mutex_ok_def by simp
qed

context os_mutex
begin

lemma mutex_call_inv:
  assumes inv: "mutex_inv valid free debug T s" and "mutex_call debug T s s'"
  shows "mutex_inv valid free debug T s'"
  using assms(2)
proof cases
  case (calls t i)
  then have "i < ACPI_NUM_MUTEX" and "debug \<Longrightarrow> ordered (owner (MutexInfo s)) t (Wants i)"
    by (auto simp: acquire_begin_def acquire_order_ok ACPI_MAX_MUTEX_def ACPI_NUM_MUTEX_def split: if_splits)
  then show ?thesis using inv calls ok_calls by (auto simp: mutex_inv_def)
qed

lemma mutex_proceed_inv:
  assumes inv: "mutex_inv valid free debug T s" and "mutex_proceed debug acquire release s s'"
  shows "mutex_inv valid free debug T s'"
  using assms(2)
proof cases
  case (gets t i z)
  have ok: "mutex_ok debug T (\<lambda>i. free (Host s) (handle (MutexInfo s) i)) (owner (MutexInfo s)) (Tpc s)"
    using inv by (simp add: mutex_inv_def)
  have i: "i < ACPI_NUM_MUTEX" using ok gets(2) unfolding mutex_ok_def by (metis target_ok.simps(2))
  then have z: "free (Host s) (handle (MutexInfo s) i)" "valid z = valid (Host s)"
      "free z = (free (Host s))(handle (MutexInfo s) i := False)"
    using inv gets(3) acquire_iff [of "Host s" "handle (MutexInfo s) i" AE_OK z] by (auto simp: mutex_inv_def handle_def)
  show ?thesis
    using inv other_handles [OF _ i ok_gets [OF ok gets(2) z(1)] refl] gets(1) z
    by (simp add: mutex_inv_def del: fun_upd_apply)
next
  case (marks t i)
  have ok: "mutex_ok debug T (\<lambda>i. free (Host s) (handle (MutexInfo s) i)) (owner (MutexInfo s)) (Tpc s)"
    using inv by (simp add: mutex_inv_def)
  have "i < length (MutexInfo s)"
    using ok inv marks(2) unfolding mutex_ok_def mutex_inv_def by (metis target_ok.simps(3))
  then show ?thesis using inv ok_marks [OF ok marks(2)] marks(1) by (simp add: mutex_inv_def)
next
  case (unmarks t i)
  have ok: "mutex_ok debug T (\<lambda>i. free (Host s) (handle (MutexInfo s) i)) (owner (MutexInfo s)) (Tpc s)"
    using inv by (simp add: mutex_inv_def)
  have i: "i < ACPI_NUM_MUTEX" "t \<noteq> ACPI_MUTEX_NOT_ACQUIRED"
    using unmarks(3,4) by (auto simp: release_begin_def ACPI_MAX_MUTEX_def ACPI_NUM_MUTEX_def split: if_splits)
  then show ?thesis
    using inv ok_unmarks [OF ok unmarks(2) _ i] unmarks(1,3) by (simp add: mutex_inv_def owner_def)
next
  case (posts t i)
  have ok: "mutex_ok debug T (\<lambda>i. free (Host s) (handle (MutexInfo s) i)) (owner (MutexInfo s)) (Tpc s)"
    using inv by (simp add: mutex_inv_def)
  note post = ok_posts [OF ok posts(2)]
  have "valid (release (handle (MutexInfo s) i) (Host s)) = valid (Host s)"
      "free (release (handle (MutexInfo s) i) (Host s)) = (free (Host s))(handle (MutexInfo s) i := True)"
    using release_held [OF _ post(2)] inv post(3) by (auto simp: mutex_inv_def)
  then show ?thesis
    using inv other_handles [OF _ post(3,1) refl] posts(1)
    by (simp add: mutex_inv_def handle_def [symmetric] del: fun_upd_apply)
qed

end

fun mutex_weight :: "mutex_pc \<Rightarrow> nat" where
  "mutex_weight Idle = 0" | "mutex_weight (Drops _) = 1" | "mutex_weight (Got _) = 3" | "mutex_weight (Wants _) = 4"

definition marked :: "mutex_info list \<Rightarrow> nat set" where
  "marked info = {i. i < ACPI_NUM_MUTEX \<and> owner info i \<noteq> ACPI_MUTEX_NOT_ACQUIRED}"

text \<open>The steps that remain: those of each thread, and two for each mutex that has an owner.\<close>

definition mutex_left :: "u64 set \<Rightarrow> 'o mutex_system \<Rightarrow> nat" where
  "mutex_left T s = work mutex_weight T (Tpc s) + 2 * card (marked (MutexInfo s))"

definition mutex_quiet :: "('o \<Rightarrow> addr \<Rightarrow> bool) \<Rightarrow> 'o mutex_system \<Rightarrow> bool" where
  "mutex_quiet free s \<longleftrightarrow> (\<forall>t. Tpc s t = Idle)
     \<and> (\<forall>i<ACPI_NUM_MUTEX. owner (MutexInfo s) i = ACPI_MUTEX_NOT_ACQUIRED \<and> free (Host s) (handle (MutexInfo s) i))"

lemma finite_marked [simp]: "finite (marked info)"
  by (simp add: marked_def)

context os_mutex
begin

lemma mutex_proceed_left:
  assumes inv: "mutex_inv valid free debug T s" and step: "mutex_proceed debug acquire release s s'"
  shows "mutex_left T s' < mutex_left T s"
proof -
  have ok: "mutex_ok debug T (\<lambda>i. free (Host s) (handle (MutexInfo s) i)) (owner (MutexInfo s)) (Tpc s)"
    and len: "length (MutexInfo s) = ACPI_NUM_MUTEX" using inv by (auto simp: mutex_inv_def)
  have T: "t \<in> T" if "Tpc s t \<noteq> Idle" for t using ok that unfolding mutex_ok_def by blast
  have update: "work mutex_weight T ((Tpc s)(t := x)) + mutex_weight (Tpc s t) = work mutex_weight T (Tpc s) + mutex_weight x"
    if "t \<in> T" for t x using work_update [OF _ that] by simp
  show ?thesis using step
  proof cases
    case (gets t i z)
    then show ?thesis using update [of t "Got i"] T [of t] by (simp add: mutex_left_def)
  next
    case (marks t i)
    then have i: "i < length (MutexInfo s)" using ok len unfolding mutex_ok_def by (metis target_ok.simps(3))
    then have "marked (acquire_end t i (MutexInfo s)) \<subseteq> insert i (marked (MutexInfo s))" by (auto simp: marked_def)
    then have "card (marked (acquire_end t i (MutexInfo s))) \<le> card (insert i (marked (MutexInfo s)))"
      by (intro card_mono) simp_all
    also have "\<dots> \<le> Suc (card (marked (MutexInfo s)))" by (simp add: card_insert_if)
    finally have "card (marked (acquire_end t i (MutexInfo s))) \<le> Suc (card (marked (MutexInfo s)))" .
    then show ?thesis using marks update [of t Idle] T [of t] by (simp add: mutex_left_def)
  next
    case (unmarks t i)
    then have i: "i < ACPI_NUM_MUTEX" "t \<noteq> ACPI_MUTEX_NOT_ACQUIRED"
      by (auto simp: release_begin_def ACPI_MAX_MUTEX_def ACPI_NUM_MUTEX_def split: if_splits)
    then have "t \<in> T" using ok unmarks(3) unfolding mutex_ok_def owner_def by blast
    have "marked (unmark i (MutexInfo s)) = marked (MutexInfo s) - {i}" "i \<in> marked (MutexInfo s)"
      using i len unmarks(3) by (auto simp: marked_def owner_def [symmetric])
    then have "Suc (card (marked (unmark i (MutexInfo s)))) = card (marked (MutexInfo s))"
      by (simp add: card_Suc_Diff1 del: card_Diff_insert)
    then show ?thesis using unmarks update [OF \<open>t \<in> T\<close>, of "Drops i"] by (simp add: mutex_left_def)
  next
    case (posts t i)
    then show ?thesis using update [of t Idle] T [of t] by (simp add: mutex_left_def)
  qed
qed

lemma stuck_pcs:
  assumes "\<forall>s'. \<not> mutex_proceed debug acquire release s s'"
  shows "Tpc s t = Idle \<or> (\<exists>i. Tpc s t = Wants i)"
proof (cases "Tpc s t")
  case (Got i)
  then show ?thesis using assms marks [of s t i debug acquire release] by blast
next
  case (Drops i)
  then show ?thesis using assms posts [of s t i debug acquire release] by blast
qed auto

lemma mutex_enabled:
  assumes inv: "mutex_inv valid free True T s" and stuck: "\<forall>s'. \<not> mutex_proceed True acquire release s s'"
  shows "mutex_quiet free s"
proof -
  let ?own = "owner (MutexInfo s)"
  have ok: "mutex_ok True T (\<lambda>i. free (Host s) (handle (MutexInfo s) i)) ?own (Tpc s)"
    and valid: "\<And>i. i < ACPI_NUM_MUTEX \<Longrightarrow> valid (Host s) (handle (MutexInfo s) i)"
    using inv by (auto simp: mutex_inv_def)
  have still: "threads (transit i) (Tpc s) = {}" for i
    using stuck_pcs [OF stuck] by (auto simp: threads_empty) (metis transit.simps(3,4))
  have free: "free (Host s) (handle (MutexInfo s) i) \<longleftrightarrow> ?own i = ACPI_MUTEX_NOT_ACQUIRED" if "i < ACPI_NUM_MUTEX" for i
    using ok still [of i] that unfolding mutex_ok_def by blast
  have waits: "i < ACPI_NUM_MUTEX \<and> ?own i \<noteq> ACPI_MUTEX_NOT_ACQUIRED" if t: "Tpc s t = Wants i" for t i
  proof -
    have i: "i < ACPI_NUM_MUTEX" using ok t unfolding mutex_ok_def by (metis target_ok.simps(2))
    moreover have "\<not> free (Host s) (handle (MutexInfo s) i)"
      using acquire_free [OF valid [OF i]] gets [of s t i acquire _ True release] t stuck unfolding handle_def by blast
    ultimately show ?thesis using free by blast
  qed
  have unowned: "marked (MutexInfo s) = {}"
  proof (rule ccontr)
    assume nonempty: "marked (MutexInfo s) \<noteq> {}"
    define m where "m = Max (marked (MutexInfo s))"
    define u where "u = ?own m"
    have m: "m < ACPI_NUM_MUTEX" "u \<noteq> ACPI_MUTEX_NOT_ACQUIRED"
      using Max_in [OF finite_marked nonempty] by (auto simp: m_def u_def marked_def)
    have above: "k \<le> m" if "k < ACPI_NUM_MUTEX" "?own k \<noteq> ACPI_MUTEX_NOT_ACQUIRED" for k
      using Max_ge [OF finite_marked, of k "MutexInfo s"] that by (simp add: m_def marked_def)
    consider "Tpc s u = Idle" | i where "Tpc s u = Wants i" using stuck_pcs [OF stuck] by blast
    then show False
    proof cases
      case 1
      have "?own k \<noteq> u" if "k \<ge> m" "k < ACPI_NUM_MUTEX" "k \<noteq> m" for k using above [of k] that m(2) by auto
      then have "release_order (MutexInfo s) u m m = AE_OK" using release_order_ok [of m m] by blast
      then have "release_begin True u m (MutexInfo s) = AE_OK"
        using m by (simp add: release_begin_def u_def owner_def ACPI_MAX_MUTEX_def ACPI_NUM_MUTEX_def)
      moreover have "mi_ThreadId (MutexInfo s ! m) = u" by (simp add: u_def owner_def)
      ultimately show False using unmarks [of s u m True acquire release] 1 stuck by blast
    next
      case (2 i)
      have "ordered ?own u (Wants i)" using ok 2 unfolding mutex_ok_def by metis
      then have "\<not> i \<le> m" using m(1) by (auto simp: u_def)
      then show False using above [of i] waits [OF 2] by simp
    qed
  qed
  then have own: "?own i = ACPI_MUTEX_NOT_ACQUIRED" if "i < ACPI_NUM_MUTEX" for i using that by (auto simp: marked_def)
  have "Tpc s t = Idle" for t using stuck_pcs [OF stuck, of t] waits [of t] own by blast
  then show ?thesis using own free by (simp add: mutex_quiet_def)
qed

end

sublocale os_mutex \<subseteq> mutexes:
  draining "mutex_inv valid free True T" "mutex_proceed True acquire release" "mutex_left T" "mutex_quiet free"
  for T
  using mutex_proceed_inv mutex_proceed_left mutex_enabled by unfold_locales blast+

definition mutex_step ::
  "bool \<Rightarrow> u64 set \<Rightarrow> (addr \<Rightarrow> 'o \<Rightarrow> (acpi_status \<times> 'o) option) \<Rightarrow> (addr \<Rightarrow> 'o \<Rightarrow> 'o) \<Rightarrow> 'o mutex_system \<Rightarrow> 'o mutex_system \<Rightarrow> bool" where
  "mutex_step debug T acquire release s s' \<longleftrightarrow> mutex_call debug T s s' \<or> mutex_proceed debug acquire release s s'"

text \<open>The table while the first \<open>n\<close> mutexes are created.\<close>

definition table_ok :: "('o \<Rightarrow> addr \<Rightarrow> bool) \<Rightarrow> ('o \<Rightarrow> addr \<Rightarrow> bool) \<Rightarrow> nat \<Rightarrow> mutex_info list \<Rightarrow> 'o \<Rightarrow> bool" where
  "table_ok valid free n info os \<longleftrightarrow>
     length info = ACPI_NUM_MUTEX \<and> inj_on (handle info) {..<n}
     \<and> (\<forall>j<n. valid os (handle info j) \<and> free os (handle info j) \<and> owner info j = ACPI_MUTEX_NOT_ACQUIRED)
     \<and> (\<forall>j\<ge>n. j < ACPI_NUM_MUTEX \<longrightarrow> handle info j = 0)"

context os_mutex
begin

lemma mutex_reachable_inv:
  assumes "(mutex_step debug T acquire release)\<^sup>*\<^sup>* s s'" and "mutex_inv valid free debug T s"
  shows "mutex_inv valid free debug T s'"
  using assms by induction (auto simp: mutex_step_def intro: mutex_call_inv mutex_proceed_inv)

lemma create_keeps_table:
  assumes "table_ok valid free n info os" and "create os = (st, r, os')"
  shows "table_ok valid free n info os'"
  using assms create_ok [of os r os'] create_fail [of os st r os'] by (cases "st = AE_OK") (auto simp: table_ok_def)

lemma create_mutex_table:
  assumes ok: "table_ok valid free i (MutexInfo st) (Host st)" and i: "i < ACPI_NUM_MUTEX"
    and c: "AcpiUtCreateMutex create i st = (AE_OK, st')"
  shows "table_ok valid free (Suc i) (MutexInfo st') (Host st')"
proof -
  have zero: "mi_Mutex (MutexInfo st ! i) = 0" using ok i by (auto simp: table_ok_def handle_def)
  obtain r os where r: "create (Host st) = (AE_OK, r, os)"
    using c zero by (cases "create (Host st)") (auto simp: AcpiUtCreateMutex_def Let_def)
  then obtain h where h: "r = Some h" "\<not> valid (Host st) h" "valid os = (valid (Host st))(h := True)" "free os = (free (Host st))(h := True)"
    using create_ok by blast
  have st': "Host st' = os" "length (MutexInfo st') = length (MutexInfo st)"
      "handle (MutexInfo st') = (handle (MutexInfo st))(i := h)"
      "owner (MutexInfo st') = (owner (MutexInfo st))(i := ACPI_MUTEX_NOT_ACQUIRED)"
    using c zero r h(1) ok i
    by (auto simp: AcpiUtCreateMutex_def Let_def table_ok_def handle_def owner_def fun_eq_iff nth_list_update)
  have fresh: "handle (MutexInfo st) j \<noteq> h" if "j < i" for j using ok h(2) that by (auto simp: table_ok_def)
  then have new: "h \<notin> handle (MutexInfo st) ` {..<i}" by blast
  then have "inj_on ((handle (MutexInfo st))(i := h)) {..<i}"
    using ok by (intro inj_on_fun_updI) (auto simp: table_ok_def)
  then have "inj_on ((handle (MutexInfo st))(i := h)) {..<Suc i}"
    using new by (auto simp: lessThan_Suc)
  then show ?thesis using ok st' h fresh by (auto simp: table_ok_def less_Suc_eq)
qed

lemma create_mutexes_table:
  "create_mutexes create i st = (AE_OK, st') \<Longrightarrow> i \<le> ACPI_NUM_MUTEX \<Longrightarrow> table_ok valid free i (MutexInfo st) (Host st) \<Longrightarrow>
     table_ok valid free ACPI_NUM_MUTEX (MutexInfo st') (Host st')"
proof (induction "ACPI_NUM_MUTEX - i" arbitrary: i st)
  case 0
  then show ?case by (simp add: create_mutexes.simps)
next
  case (Suc n)
  obtain Status st1 where c: "AcpiUtCreateMutex create i st = (Status, st1)" by fastforce
  have i: "i < ACPI_NUM_MUTEX" using Suc.hyps by simp
  then have ok: "Status = AE_OK" and rest: "create_mutexes create (i + 1) st1 = (AE_OK, st')"
    using Suc.prems(1) c by (auto simp: create_mutexes.simps [of create i] ACPI_FAILURE_def split: if_splits)
  have "table_ok valid free (Suc i) (MutexInfo st1) (Host st1)"
    using create_mutex_table [OF Suc.prems(3) i] c ok by simp
  then show ?case using Suc.hyps(1) [OF _ rest] Suc.hyps(2) i by simp
qed

lemma create_into_table:
  assumes "table_ok valid free n info os" and "create_into create f g os = (st, g', os')"
  shows "table_ok valid free n info os'"
  using assms create_keeps_table by (cases "create os") (auto simp: create_into_def)

lemma create_rw_table:
  assumes "table_ok valid free n info os" and "AcpiUtCreateRwLock create L os = (st, L', os')"
  shows "table_ok valid free n info os'"
proof -
  obtain st1 r os1 where 1: "create os = (st1, r, os1)" by (cases "create os")
  obtain st2 r2 os2 where 2: "create os1 = (st2, r2, os2)" by (cases "create os1")
  show ?thesis
    using create_keeps_table [OF assms(1) 1] create_keeps_table [OF _ 2] assms(2) 1 2
    by (auto simp: AcpiUtCreateRwLock_def Let_def split: if_splits)
qed

text \<open>The initialisation builds a table whose threads are all idle.\<close>

lemma initialize_inv:
  assumes init: "AcpiUtMutexInitialize create create st g = (AE_OK, st', g')"
    and zero: "length (MutexInfo st) = ACPI_NUM_MUTEX" "\<forall>m\<in>set (MutexInfo st). mi_Mutex m = 0"
    and T: "ACPI_MUTEX_NOT_ACQUIRED \<notin> T"
  shows "mutex_inv valid free debug T \<lparr>MutexInfo = MutexInfo st', Host = Host st', Tpc = (\<lambda>_. Idle)\<rparr>"
proof -
  obtain s1 st1 where c0: "create_mutexes create 0 st = (s1, st1)" by fastforce
  obtain s2 g1 o1 where c1: "create_into create GpeLock_update g (Host st1) = (s2, g1, o1)" by (metis prod_cases3)
  obtain s3 g2 o2 where c2: "create_into create HardwareLock_update g1 o1 = (s3, g2, o2)" by (metis prod_cases3)
  obtain s4 g3 o3 where c3: "create_into create ReferenceCountLock_update g2 o2 = (s4, g3, o3)" by (metis prod_cases3)
  obtain s5 g4 o4 where c4: "create_into create OsiMutex_update g3 o3 = (s5, g4, o4)" by (metis prod_cases3)
  obtain s6 L o5 where c5: "AcpiUtCreateRwLock create (NamespaceRwLock g4) o4 = (s6, L, o5)" by (metis prod_cases3)
  have st': "s1 = AE_OK" "st' = st1\<lparr>Host := o5\<rparr>"
    using init by (auto simp: AcpiUtMutexInitialize_def c0 c1 c2 c3 c4 c5 ACPI_FAILURE_def split: if_splits)
  have "table_ok valid free 0 (MutexInfo st) (Host st)"
    using zero by (auto simp: table_ok_def handle_def)
  then have "table_ok valid free ACPI_NUM_MUTEX (MutexInfo st1) (Host st1)"
    using create_mutexes_table c0 st'(1) by simp
  then have "table_ok valid free ACPI_NUM_MUTEX (MutexInfo st1) o5"
    by (intro create_rw_table [OF _ c5] create_into_table [OF _ c4] create_into_table [OF _ c3]
        create_into_table [OF _ c2] create_into_table [OF _ c1])
  then show ?thesis using T by (auto simp: st' mutex_inv_def mutex_ok_def table_ok_def threads_empty)
qed

end

text \<open>An undisturbed acquisition or release is a sequence of the steps.\<close>

lemma acquire_steps:
  assumes a: "AcpiUtAcquireMutex debug acquire t i \<lparr>MutexInfo = MutexInfo s, Host = Host s\<rparr> = Some (AE_OK, st)"
    and t: "t \<in> T" "Tpc s t = Idle"
  shows "(mutex_step debug T acquire release)\<^sup>*\<^sup>* s (s\<lparr>MutexInfo := MutexInfo st, Host := Host st\<rparr>)"
proof -
  have b: "acquire_begin debug t i (MutexInfo s) = AE_OK"
    using a by (auto simp: AcpiUtAcquireMutex_def ACPI_FAILURE_def Let_def split: if_splits)
  obtain z where z: "acquire (mi_Mutex (MutexInfo s ! i)) (Host s) = Some (AE_OK, z)" "Host st = z" "MutexInfo st = acquire_end t i (MutexInfo s)"
    using a b by (auto simp: AcpiUtAcquireMutex_def ACPI_FAILURE_def split: option.splits if_splits)
  define s1 where "s1 = s\<lparr>Tpc := (Tpc s)(t := Wants i)\<rparr>"
  define s2 where "s2 = s1\<lparr>Host := z, Tpc := (Tpc s1)(t := Got i)\<rparr>"
  have "mutex_step debug T acquire release s s1"
    unfolding mutex_step_def s1_def by (rule disjI1, rule calls) (simp_all add: t b)
  moreover have "mutex_step debug T acquire release s1 s2"
    unfolding mutex_step_def s2_def by (rule disjI2, rule gets) (simp_all add: s1_def z)
  moreover have "mutex_step debug T acquire release s2 (s2\<lparr>MutexInfo := acquire_end t i (MutexInfo s2), Tpc := (Tpc s2)(t := Idle)\<rparr>)"
    unfolding mutex_step_def by (rule disjI2, rule marks) (simp add: s2_def)
  moreover have "s2\<lparr>MutexInfo := acquire_end t i (MutexInfo s2), Tpc := (Tpc s2)(t := Idle)\<rparr> = s\<lparr>MutexInfo := MutexInfo st, Host := Host st\<rparr>"
    using fun_upd_triv [of "Tpc s" t] t(2) by (simp add: s2_def s1_def z)
  ultimately show ?thesis by (metis (no_types, lifting) rtranclp.simps)
qed

section \<open>Properties\<close>

text \<open>A thread has a mutex from the return of the host call that acquires it to the one that gives it back.\<close>

definition has_mutex :: "'o mutex_system \<Rightarrow> u64 \<Rightarrow> nat \<Rightarrow> bool" where
  "has_mutex s t i \<longleftrightarrow> owner (MutexInfo s) i = t \<and> t \<noteq> ACPI_MUTEX_NOT_ACQUIRED \<or> Tpc s t = Got i \<or> Tpc s t = Drops i"

definition sys_of :: "'o mutex_state \<Rightarrow> 'o mutex_system" where
  "sys_of st = \<lparr>MutexInfo = MutexInfo st, Host = Host st, Tpc = (\<lambda>_. Idle)\<rparr>"

definition zero_table :: "sems mutex_state" where
  "zero_table = \<lparr>MutexInfo = replicate ACPI_NUM_MUTEX \<lparr>mi_Mutex = 0, mi_UseCount = 0, mi_ThreadId = 0\<rparr>, Host = (\<lambda>_. None)\<rparr>"

definition zero_locks :: lock_globals where
  "zero_locks = \<lparr>GpeLock = 0, HardwareLock = 0, ReferenceCountLock = 0, OsiMutex = 0,
     NamespaceRwLock = \<lparr>WriterMutex = 0, ReaderMutex = 0, NumReaders = 0\<rparr>\<rparr>"

text \<open>A host heap with room for twelve semaphores, used from the bottom.\<close>

definition blocks :: "addr list" where
  "blocks = [0x10, 0x20, 0x30, 0x40, 0x50, 0x60, 0x70, 0x80, 0x90, 0xA0, 0xB0, 0xC0]"

definition first_block :: "sems \<Rightarrow> addr" where
  "first_block s = (case find (\<lambda>a. s a = None) blocks of Some a \<Rightarrow> a | None \<Rightarrow> 0)"

definition sems_upto :: "nat \<Rightarrow> sems" where
  "sems_upto k a = (if a \<in> set (take k blocks) then Some (Units 1) else None)"

definition started :: "sems mutex_state" where
  "started = fst (snd (AcpiUtMutexInitialize (AcpiOsCreateMutex first_block) (AcpiOsCreateLock first_block) zero_table zero_locks))"

lemma create_lock_is_create_mutex: "AcpiOsCreateLock pick = AcpiOsCreateMutex pick"
  by (simp add: fun_eq_iff AcpiOsCreateLock_def AcpiOsCreateMutex_def)

text \<open>The state that the subsystem starts with, from its zero-initialised variables.\<close>

lemma initialized_system:
  assumes "AcpiUtMutexInitialize (AcpiOsCreateMutex pick) (AcpiOsCreateLock pick) zero_table g = (AE_OK, st, g')"
    and "ACPI_MUTEX_NOT_ACQUIRED \<notin> T"
  shows "mutex_inv mutex_valid mutex_free debug T (sys_of st)"
  using binary_semaphore.initialize_inv [OF assms(1) [unfolded create_lock_is_create_mutex] _ _ assms(2)]
  by (simp add: sys_of_def zero_table_def)

lemma find_block:
  assumes "k < 12" shows "find (\<lambda>a. a \<notin> set (take k blocks)) blocks = Some (blocks ! k)"
proof -
  have "k \<in> {0, 1, 2, 3, 4, 5, 6, 7, 8, 9, 10, 11}" using assms by (auto simp: numeral_eq_Suc less_Suc_eq)
  then show ?thesis by (elim insertE emptyE) (simp_all add: blocks_def)
qed

lemma create_next:
  assumes k: "k < 12"
  shows "AcpiOsCreateMutex first_block (sems_upto k) = (AE_OK, Some (blocks ! k), sems_upto (Suc k))"
proof -
  have "length blocks = 12" by (simp add: blocks_def)
  then have take: "set (take (Suc k) blocks) = insert (blocks ! k) (set (take k blocks))"
    using k by (simp add: take_Suc_conv_app_nth)
  have find: "find (\<lambda>a. sems_upto k a = None) blocks = Some (blocks ! k)"
    using find_block [OF k] by (simp add: sems_upto_def)
  have "blocks ! k \<in> set blocks" using k by (simp add: blocks_def nth_mem del: set_simps)
  then have "blocks ! k \<noteq> 0" by (auto simp: blocks_def)
  moreover have "sems_upto k (blocks ! k) = None" using find by (auto simp: find_Some_iff)
  moreover have "(sems_upto k)(blocks ! k \<mapsto> Units 1) = sems_upto (Suc k)"
    using take by (auto simp: sems_upto_def fun_eq_iff)
  ultimately show ?thesis using find by (simp add: create_mutex first_block_def)
qed

lemma create_all:
  "Host st = sems_upto i \<Longrightarrow> i \<le> ACPI_NUM_MUTEX \<Longrightarrow> length (MutexInfo st) = ACPI_NUM_MUTEX \<Longrightarrow>
     (\<forall>j\<ge>i. j < ACPI_NUM_MUTEX \<longrightarrow> mi_Mutex (MutexInfo st ! j) = 0) \<Longrightarrow>
     \<exists>st'. create_mutexes (AcpiOsCreateMutex first_block) i st = (AE_OK, st') \<and> Host st' = sems_upto ACPI_NUM_MUTEX"
proof (induction "ACPI_NUM_MUTEX - i" arbitrary: i st)
  case 0
  then show ?case by (simp add: create_mutexes.simps)
next
  case (Suc n)
  have i: "i < ACPI_NUM_MUTEX" using Suc.hyps by simp
  then have "i < 12" by (simp add: ACPI_NUM_MUTEX_def)
  define st1 where "st1 = snd (AcpiUtCreateMutex (AcpiOsCreateMutex first_block) i st)"
  have c: "AcpiUtCreateMutex (AcpiOsCreateMutex first_block) i st = (AE_OK, st1)" "Host st1 = sems_upto (Suc i)"
      "length (MutexInfo st1) = ACPI_NUM_MUTEX" "\<And>j. j \<noteq> i \<Longrightarrow> MutexInfo st1 ! j = MutexInfo st ! j"
    using Suc.prems i create_next [OF \<open>i < 12\<close>] by (auto simp: st1_def AcpiUtCreateMutex_def Let_def)
  have "\<exists>st'. create_mutexes (AcpiOsCreateMutex first_block) (Suc i) st1 = (AE_OK, st') \<and> Host st' = sems_upto ACPI_NUM_MUTEX"
    by (rule Suc.hyps(1)) (use Suc.hyps(2) Suc.prems(4) i c in auto)
  then show ?case using i c(1) by (simp add: create_mutexes.simps [of _ i])
qed

lemma started_ok:
  "\<exists>g. AcpiUtMutexInitialize (AcpiOsCreateMutex first_block) (AcpiOsCreateLock first_block) zero_table zero_locks = (AE_OK, started, g)"
proof -
  have "\<exists>st'. create_mutexes (AcpiOsCreateMutex first_block) 0 zero_table = (AE_OK, st') \<and> Host st' = sems_upto ACPI_NUM_MUTEX"
    by (rule create_all) (auto simp: zero_table_def sems_upto_def)
  then obtain st where st: "create_mutexes (AcpiOsCreateMutex first_block) 0 zero_table = (AE_OK, st)" "Host st = sems_upto 6"
    by (auto simp: ACPI_NUM_MUTEX_def)
  show ?thesis
    unfolding started_def
    by (simp add: AcpiUtMutexInitialize_def create_lock_is_create_mutex st create_into_def AcpiUtCreateRwLock_def create_next)
qed

definition waiting :: "sems mutex_system" where
  "waiting = (sys_of started)\<lparr>Tpc := (\<lambda>_. Idle)(7 := Wants 2)\<rparr>"

lemma waiting_reached: "(mutex_step debug {7, 8} acquire release)\<^sup>*\<^sup>* (sys_of started) waiting"
proof -
  obtain g where g: "AcpiUtMutexInitialize (AcpiOsCreateMutex first_block) (AcpiOsCreateLock first_block) zero_table zero_locks = (AE_OK, started, g)"
    using started_ok by blast
  have "owner (MutexInfo started) i = ACPI_MUTEX_NOT_ACQUIRED" if "i < ACPI_NUM_MUTEX" for i
    using initialized_system [OF g, of "{}" debug] that by (auto simp: mutex_inv_def mutex_ok_def sys_of_def)
  then have "acquire_begin debug 7 2 (MutexInfo started) = AE_OK"
    by (simp add: acquire_begin_def acquire_order_ok ACPI_MAX_MUTEX_def ACPI_MUTEX_NOT_ACQUIRED_def)
  then have "mutex_call debug {7, 8} (sys_of started) ((sys_of started)\<lparr>Tpc := (Tpc (sys_of started))(7 := Wants 2)\<rparr>)"
    by (intro calls) (simp_all add: sys_of_def)
  then show ?thesis by (auto simp: waiting_def sys_of_def mutex_step_def)
qed

text \<open>
  C26. Mutual exclusion. Start the mutex table with \<open>AcpiUtMutexInitialize\<close> on the host semaphores and let
  threads acquire mutexes, and release the ones they have acquired, in any interleaving of
  the steps of \<open>AcpiUtAcquireMutex\<close> and \<open>AcpiUtReleaseMutex\<close>, with or without the order checks.
  Then no mutex is ever held by two threads, a mutex is free at the host exactly if no thread has it, and
  a thread that is entered in the table as the owner has indeed the mutex.
\<close>

theorem mutex_exclusion:
  assumes "AcpiUtMutexInitialize (AcpiOsCreateMutex pick) (AcpiOsCreateLock pick) zero_table g = (AE_OK, st, g')"
    and "ACPI_MUTEX_NOT_ACQUIRED \<notin> T"
    and "(mutex_step debug T AcpiOsAcquireMutex AcpiOsReleaseMutex)\<^sup>*\<^sup>* (sys_of st) s" and "i < ACPI_NUM_MUTEX"
  shows "(has_mutex s t i \<and> has_mutex s u i \<longrightarrow> t = u)
    \<and> (mutex_free (Host s) (handle (MutexInfo s) i) \<longleftrightarrow> (\<forall>t. \<not> has_mutex s t i))
    \<and> (owner (MutexInfo s) i = t \<and> t \<in> T \<longrightarrow> (\<forall>u. Tpc s u \<noteq> Got i \<and> Tpc s u \<noteq> Drops i))"
proof -
  have "mutex_inv mutex_valid mutex_free debug T s"
    using binary_semaphore.mutex_reachable_inv [OF assms(3)] initialized_system [OF assms(1,2)] by blast
  then have ok: "mutex_ok debug T (\<lambda>i. mutex_free (Host s) (handle (MutexInfo s) i)) (owner (MutexInfo s)) (Tpc s)"
    by (simp add: mutex_inv_def)
  have transit: "Tpc s t = Got i \<or> Tpc s t = Drops i \<longleftrightarrow> t \<in> threads (transit i) (Tpc s)" for t by (cases "Tpc s t") auto
  have free: "mutex_free (Host s) (handle (MutexInfo s) i) \<longleftrightarrow>
      owner (MutexInfo s) i = ACPI_MUTEX_NOT_ACQUIRED \<and> threads (transit i) (Tpc s) = {}"
    and one: "threads (transit i) (Tpc s) = {} \<or> owner (MutexInfo s) i = ACPI_MUTEX_NOT_ACQUIRED"
    and two: "\<exists>t. threads (transit i) (Tpc s) \<subseteq> {t}" and na: "ACPI_MUTEX_NOT_ACQUIRED \<notin> T"
    using ok assms(4) unfolding mutex_ok_def by blast+
  have has: "has_mutex s t i \<longleftrightarrow> owner (MutexInfo s) i = t \<and> t \<noteq> ACPI_MUTEX_NOT_ACQUIRED \<or> t \<in> threads (transit i) (Tpc s)" for t
    using transit [of t] unfolding has_mutex_def by blast
  have "t = u" if "has_mutex s t i" "has_mutex s u i"
    using that one two unfolding has by (metis empty_iff singletonD subsetD)
  moreover have "(\<forall>t. \<not> has_mutex s t i) \<longleftrightarrow> owner (MutexInfo s) i = ACPI_MUTEX_NOT_ACQUIRED \<and> threads (transit i) (Tpc s) = {}"
    unfolding has by blast
  moreover have "Tpc s u \<noteq> Got i \<and> Tpc s u \<noteq> Drops i" if "owner (MutexInfo s) i = t" "t \<in> T" for u
    using that one na transit [of u] by (metis empty_iff)
  ultimately show ?thesis using free by simp
qed

theorem mutex_exclusion_witness:
  "mutex_free (Host waiting) (handle (MutexInfo waiting) 2) \<longleftrightarrow> (\<forall>t. \<not> has_mutex waiting t 2)"
proof -
  obtain g where g: "AcpiUtMutexInitialize (AcpiOsCreateMutex first_block) (AcpiOsCreateLock first_block) zero_table zero_locks = (AE_OK, started, g)"
    using started_ok by blast
  show ?thesis
    using mutex_exclusion [OF g _ waiting_reached, where i = 2] by (simp add: ACPI_NUM_MUTEX_def ACPI_MUTEX_NOT_ACQUIRED_def)
qed

lemma mutex_left_bound: "mutex_left T s \<le> 4 * card T + 12"
proof -
  have "mutex_weight p \<le> 4" for p by (cases p) simp_all
  then have "work mutex_weight T (Tpc s) \<le> of_nat (card T) * 4"
    unfolding work_def by (intro sum_bounded_above) auto
  moreover have "card (marked (MutexInfo s)) \<le> card {..<ACPI_NUM_MUTEX}" by (intro card_mono) (auto simp: marked_def)
  ultimately show ?thesis by (simp add: mutex_left_def ACPI_NUM_MUTEX_def)
qed

text \<open>
  C1. The order checks exclude deadlocks. Take any state that the threads of the previous property
  reach with the checks of \<^verbatim>\<open>ACPI_MUTEX_DEBUG\<close>, and let no new mutex be requested. Then under every
  schedule at most \<open>4\<close> steps per thread and \<open>12\<close> more remain, and a state in which no thread can go on is one
  in which every call has returned and all six mutexes are free; in particular every thread that waits for
  a mutex gets it.
\<close>

theorem mutex_order_excludes_deadlock:
  assumes "AcpiUtMutexInitialize (AcpiOsCreateMutex pick) (AcpiOsCreateLock pick) zero_table g = (AE_OK, st, g')"
    and "ACPI_MUTEX_NOT_ACQUIRED \<notin> T"
    and "(mutex_step True T AcpiOsAcquireMutex AcpiOsReleaseMutex)\<^sup>*\<^sup>* (sys_of st) s"
  shows "(\<forall>n s'. (mutex_proceed True AcpiOsAcquireMutex AcpiOsReleaseMutex ^^ n) s s' \<longrightarrow> n \<le> 4 * card T + 12
        \<and> (mutex_quiet mutex_free s' \<or> (\<exists>s''. mutex_proceed True AcpiOsAcquireMutex AcpiOsReleaseMutex s' s'')))
    \<and> (\<exists>s'. (mutex_proceed True AcpiOsAcquireMutex AcpiOsReleaseMutex)\<^sup>*\<^sup>* s s' \<and> mutex_quiet mutex_free s')"
proof -
  have inv: "mutex_inv mutex_valid mutex_free True T s"
    using binary_semaphore.mutex_reachable_inv [OF assms(3)] initialized_system [OF assms(1,2)] by blast
  have "n \<le> 4 * card T + 12 \<and> (mutex_quiet mutex_free s' \<or> (\<exists>s''. mutex_proceed True AcpiOsAcquireMutex AcpiOsReleaseMutex s' s''))"
    if "(mutex_proceed True AcpiOsAcquireMutex AcpiOsReleaseMutex ^^ n) s s'" for n s'
    using binary_semaphore.mutexes.run_bounded [OF that inv] binary_semaphore.mutexes.stuck_quiet [of T s'] mutex_left_bound [of T s]
    by fastforce
  then show ?thesis using binary_semaphore.mutexes.drains [OF inv] by blast
qed

theorem mutex_order_excludes_deadlock_witness:
  "\<exists>s'. (mutex_proceed True AcpiOsAcquireMutex AcpiOsReleaseMutex)\<^sup>*\<^sup>* waiting s' \<and> mutex_quiet mutex_free s'"
proof -
  obtain g where g: "AcpiUtMutexInitialize (AcpiOsCreateMutex first_block) (AcpiOsCreateLock first_block) zero_table zero_locks = (AE_OK, started, g)"
    using started_ok by blast
  show ?thesis
    using mutex_order_excludes_deadlock [OF g _ waiting_reached] by (simp add: ACPI_MUTEX_NOT_ACQUIRED_def)
qed

end
