(* ===== verification/FieldIo.thy ===== *)
theory FieldIo
  imports Prelude
begin

text \<open>
  Reading and writing AML fields: \<^verbatim>\<open>components/executer/exfldio.c\<close>. A field is a run of bits of a buffer or an
  operation region, which is accessed in datums of 1, 2, 4 or 8 bytes. \<open>AcpiExExtractFromField\<close> gathers the bits
  of a field in a byte buffer, \<open>AcpiExInsertIntoField\<close> scatters a buffer over the datums, with the update rule of
  the field for the bits of a datum outside of it.

  The access to one datum is an argument of the definitions (\<open>rd\<close> and \<open>wr\<close>, with a state \<open>'s\<close>). The locale
  \<open>datum_store\<close> is the contract it has to keep; what a field contains and what a write changes
  is proved there bit by bit.
\<close>

section \<open>Field descriptors\<close>

record field =
  FieldFlags :: u8
  AccessByteWidth :: u8
  BitLength :: u32
  BaseByteOffset :: u32
  FieldValue :: u32
  StartFieldBitOffset :: u8

type_synonym 's rd = "field \<Rightarrow> u32 \<Rightarrow> 's \<Rightarrow> acpi_status \<times> u64 \<times> 's"
type_synonym 's wr = "field \<Rightarrow> u32 \<Rightarrow> u64 \<Rightarrow> 's \<Rightarrow> acpi_status \<times> 's"

definition AML_FIELD_UPDATE_RULE_MASK :: u8 where "AML_FIELD_UPDATE_RULE_MASK = 0x60"
definition AML_FIELD_UPDATE_PRESERVE :: u8 where "AML_FIELD_UPDATE_PRESERVE = 0x00"
definition AML_FIELD_UPDATE_WRITE_AS_ONES :: u8 where "AML_FIELD_UPDATE_WRITE_AS_ONES = 0x20"
definition AML_FIELD_UPDATE_WRITE_AS_ZEROS :: u8 where "AML_FIELD_UPDATE_WRITE_AS_ZEROS = 0x40"
definition ACPI_INTEGER_BIT_SIZE :: nat where "ACPI_INTEGER_BIT_SIZE = 64"

definition ACPI_MUL_8 :: "u8 \<Rightarrow> u32" where "ACPI_MUL_8 a = push_bit 3 (ucast a)"
definition ACPI_ROUND_BITS_UP_TO_BYTES :: "u32 \<Rightarrow> u32" where "ACPI_ROUND_BITS_UP_TO_BYTES a = drop_bit 3 (a + 7)"
definition ACPI_ROUND_UP_TO :: "u32 \<Rightarrow> u32 \<Rightarrow> u32" where "ACPI_ROUND_UP_TO value boundary = (value + (boundary - 1)) div boundary"
definition ACPI_MASK_BITS_ABOVE :: "nat \<Rightarrow> u64" where "ACPI_MASK_BITS_ABOVE position = NOT (push_bit position (- 1))"
definition ACPI_MASK_BITS_BELOW :: "nat \<Rightarrow> u64" where "ACPI_MASK_BITS_BELOW position = push_bit position (- 1)"
definition ACPI_MASK_BITS_ABOVE_64 :: "nat \<Rightarrow> u64" where
  "ACPI_MASK_BITS_ABOVE_64 width = (if width = ACPI_INTEGER_BIT_SIZE then - 1 else ACPI_MASK_BITS_ABOVE width)"

section \<open>Bytes of a datum\<close>

text \<open>\<open>memcpy (Buffer + off, &v, n)\<close> and \<open>memcpy (&v, Buffer + off, n)\<close> on the little-endian target.\<close>

definition put_bytes :: "nat \<Rightarrow> nat \<Rightarrow> u64 \<Rightarrow> u8 list \<Rightarrow> u8 list" where
  "put_bytes n off v buf =
     map (\<lambda>i. if off \<le> i \<and> i < off + n then ucast (drop_bit (8 * (i - off)) v) else buf ! i) [0..<length buf]"

fun get_bytes :: "nat \<Rightarrow> nat \<Rightarrow> u8 list \<Rightarrow> u64" where
  "get_bytes 0 off buf = 0"
| "get_bytes (Suc n) off buf = get_bytes n off buf OR push_bit (8 * n) (ucast (buf ! (off + n)))"

definition load_bytes :: "nat \<Rightarrow> nat \<Rightarrow> u8 list \<Rightarrow> u64 \<Rightarrow> u64" where
  "load_bytes n off buf v = (v AND push_bit (8 * n) (- 1)) OR get_bytes n off buf"

section \<open>Writing one datum\<close>

definition AcpiExRegisterOverflow :: "field \<Rightarrow> u64 \<Rightarrow> bool" where
  "AcpiExRegisterOverflow f v =
     (if unat (BitLength f) \<ge> ACPI_INTEGER_BIT_SIZE then False
      else if v \<ge> push_bit (unat (BitLength f)) 1 then True else False)"

definition AcpiExWriteWithUpdateRule ::
  "'s rd \<Rightarrow> 's wr \<Rightarrow> field \<Rightarrow> u64 \<Rightarrow> u64 \<Rightarrow> u32 \<Rightarrow> 's \<Rightarrow> acpi_status \<times> 's" where
  "AcpiExWriteWithUpdateRule rd wr f Mask FldValue FieldDatumByteOffset s =
     (if Mask \<noteq> - 1
      then let rule = FieldFlags f AND AML_FIELD_UPDATE_RULE_MASK
           in if rule = AML_FIELD_UPDATE_PRESERVE
              then if push_bit (64 - unat (ACPI_MUL_8 (AccessByteWidth f))) (NOT Mask) \<noteq> 0
                   then case rd f FieldDatumByteOffset s of
                          (Status, CurrentValue, s) \<Rightarrow>
                            if ACPI_FAILURE Status then (Status, s)
                            else wr f FieldDatumByteOffset (FldValue OR (CurrentValue AND NOT Mask)) s
                   else wr f FieldDatumByteOffset FldValue s
              else if rule = AML_FIELD_UPDATE_WRITE_AS_ONES
              then wr f FieldDatumByteOffset (FldValue OR NOT Mask) s
              else if rule = AML_FIELD_UPDATE_WRITE_AS_ZEROS
              then wr f FieldDatumByteOffset (FldValue AND Mask) s
              else (AE_AML_OPERAND_VALUE, s)
      else wr f FieldDatumByteOffset FldValue s)"

section \<open>Reading a field\<close>

text \<open>
  The loop over the datums after the first one: it ends with the datum that has not been stored yet and its
  offset, or with the status of an access that failed.
\<close>

function extract_loop ::
  "'s rd \<Rightarrow> field \<Rightarrow> nat \<Rightarrow> nat \<Rightarrow> nat \<Rightarrow> u32 \<Rightarrow> u32 \<Rightarrow> u64 \<Rightarrow> u8 list \<Rightarrow> 's \<Rightarrow>
     (acpi_status \<times> u8 list \<times> 's) + (u64 \<times> u32 \<times> u8 list \<times> 's)" where
  "extract_loop rd f DatumCount FieldDatumCount i FieldOffset BufferOffset MergedDatum Buffer s =
     (if i < FieldDatumCount
      then let FieldOffset = FieldOffset + ucast (AccessByteWidth f);
               shift = ACPI_MUL_8 (AccessByteWidth f) - ucast (StartFieldBitOffset f)
           in case rd f FieldOffset s of
                (Status, RawDatum, s) \<Rightarrow>
                  if ACPI_FAILURE Status then Inl (Status, Buffer, s)
                  else let MergedDatum = (if unat shift < ACPI_INTEGER_BIT_SIZE
                                          then MergedDatum OR push_bit (unat shift) RawDatum else MergedDatum)
                       in if i = DatumCount then Inr (MergedDatum, BufferOffset, Buffer, s)
                          else extract_loop rd f DatumCount FieldDatumCount (i + 1) FieldOffset
                                 (BufferOffset + ucast (AccessByteWidth f))
                                 (drop_bit (unat (StartFieldBitOffset f)) RawDatum)
                                 (put_bytes (min (unat (AccessByteWidth f)) (length Buffer - unat BufferOffset))
                                    (unat BufferOffset) MergedDatum Buffer) s
      else Inr (MergedDatum, BufferOffset, Buffer, s))"
  by pat_completeness auto
termination by (relation "measure (\<lambda>(rd, f, n, m, i, _). m - i)") auto

declare extract_loop.simps [simp del]

text \<open>
  The result is the status, the buffer, the field descriptor, whose access width the code cuts to 8 bytes,
  and the state. \<open>None\<close> is the simple case for a datum of more than 64 bits, which is not represented.
\<close>

definition AcpiExExtractFromField ::
  "'s rd \<Rightarrow> field \<Rightarrow> u8 list \<Rightarrow> 's \<Rightarrow> (acpi_status \<times> u8 list \<times> field \<times> 's) option" where
  "AcpiExExtractFromField rd f Buffer s =
     (if length Buffer < unat (ACPI_ROUND_BITS_UP_TO_BYTES (BitLength f)) then Some (AE_BUFFER_OVERFLOW, Buffer, f, s)
      else let Buffer = replicate (length Buffer) 0
           in if StartFieldBitOffset f = 0 \<and> BitLength f = ACPI_MUL_8 (AccessByteWidth f)
              then if AccessByteWidth f > 8 then None
                   else case rd f 0 s of
                          (Status, RawDatum, s) \<Rightarrow>
                            if length Buffer \<ge> 8 then Some (Status, put_bytes 8 0 RawDatum Buffer, f, s)
                            else Some (Status, put_bytes (length Buffer) 0 RawDatum Buffer, f, s)
              else let f = (if AccessByteWidth f > 8 then f\<lparr>AccessByteWidth := 8\<rparr> else f);
                       AccessBitWidth = ACPI_MUL_8 (AccessByteWidth f);
                       DatumCount = ACPI_ROUND_UP_TO (BitLength f) AccessBitWidth;
                       FieldDatumCount = ACPI_ROUND_UP_TO (BitLength f + ucast (StartFieldBitOffset f)) AccessBitWidth
                   in case rd f 0 s of
                        (Status, RawDatum, s) \<Rightarrow>
                          if ACPI_FAILURE Status then Some (Status, Buffer, f, s)
                          else case extract_loop rd f (unat DatumCount) (unat FieldDatumCount) 1 0 0
                                      (drop_bit (unat (StartFieldBitOffset f)) RawDatum) Buffer s of
                                 Inl (Status, Buffer, s) \<Rightarrow> Some (Status, Buffer, f, s)
                               | Inr (MergedDatum, BufferOffset, Buffer, s) \<Rightarrow>
                                   let BufferTailBits = unat (BitLength f mod AccessBitWidth);
                                       MergedDatum = (if BufferTailBits \<noteq> 0
                                                      then MergedDatum AND ACPI_MASK_BITS_ABOVE BufferTailBits
                                                      else MergedDatum)
                                   in Some (AE_OK,
                                        put_bytes (min (unat (AccessByteWidth f)) (length Buffer - unat BufferOffset))
                                          (unat BufferOffset) MergedDatum Buffer, f, s))"

section \<open>Writing a field\<close>

function insert_loop ::
  "'s rd \<Rightarrow> 's wr \<Rightarrow> field \<Rightarrow> u8 list \<Rightarrow> u64 \<Rightarrow> nat \<Rightarrow> nat \<Rightarrow> nat \<Rightarrow> u32 \<Rightarrow> u32 \<Rightarrow> u64 \<Rightarrow> u64 \<Rightarrow> u64 \<Rightarrow> 's \<Rightarrow>
     (acpi_status \<times> 's) + (u64 \<times> u64 \<times> u32 \<times> 's)" where
  "insert_loop rd wr f Buffer WidthMask DatumCount FieldDatumCount i FieldOffset BufferOffset Mask RawDatum MergedDatum s =
     (if i < FieldDatumCount
      then let MergedDatum = MergedDatum AND Mask;
               shift = ACPI_MUL_8 (AccessByteWidth f) - ucast (StartFieldBitOffset f)
           in case AcpiExWriteWithUpdateRule rd wr f Mask MergedDatum FieldOffset s of
                (Status, s) \<Rightarrow>
                  if ACPI_FAILURE Status then Inl (Status, s)
                  else let FieldOffset = FieldOffset + ucast (AccessByteWidth f);
                           MergedDatum = (if unat shift < ACPI_INTEGER_BIT_SIZE then drop_bit (unat shift) RawDatum else 0);
                           Mask = WidthMask
                       in if i = DatumCount then Inr (Mask, MergedDatum, FieldOffset, s)
                          else let BufferOffset = BufferOffset + ucast (AccessByteWidth f);
                                   RawDatum = load_bytes (min (unat (AccessByteWidth f)) (length Buffer - unat BufferOffset))
                                                (unat BufferOffset) Buffer RawDatum;
                                   MergedDatum = MergedDatum OR push_bit (unat (StartFieldBitOffset f)) RawDatum
                               in insert_loop rd wr f Buffer WidthMask DatumCount FieldDatumCount (i + 1) FieldOffset
                                    BufferOffset Mask RawDatum MergedDatum s
      else Inr (Mask, MergedDatum, FieldOffset, s))"
  by pat_completeness auto
termination by (relation "measure (\<lambda>(rd, wr, f, b, w, n, m, i, _). m - i)") auto

declare insert_loop.simps [simp del]

text \<open>\<open>allocated\<close> says if the allocation of a longer buffer succeeds, where one is needed.\<close>

definition AcpiExInsertIntoField ::
  "'s rd \<Rightarrow> 's wr \<Rightarrow> bool \<Rightarrow> field \<Rightarrow> u8 list \<Rightarrow> 's \<Rightarrow> acpi_status \<times> field \<times> 's" where
  "AcpiExInsertIntoField rd wr allocated f Buffer s =
     (let RequiredLength = unat (ACPI_ROUND_BITS_UP_TO_BYTES (BitLength f))
      in if length Buffer < RequiredLength \<and> \<not> allocated then (AE_NO_MEMORY, f, s)
         else let Buffer = (if length Buffer < RequiredLength
                            then Buffer @ replicate (RequiredLength - length Buffer) 0 else Buffer);
                  f = (if AccessByteWidth f > 8 then f\<lparr>AccessByteWidth := 8\<rparr> else f);
                  AccessBitWidth = ACPI_MUL_8 (AccessByteWidth f);
                  WidthMask = ACPI_MASK_BITS_ABOVE_64 (unat AccessBitWidth);
                  Mask = WidthMask AND ACPI_MASK_BITS_BELOW (unat (StartFieldBitOffset f));
                  DatumCount = ACPI_ROUND_UP_TO (BitLength f) AccessBitWidth;
                  FieldDatumCount = ACPI_ROUND_UP_TO (BitLength f + ucast (StartFieldBitOffset f)) AccessBitWidth;
                  RawDatum = load_bytes (min (unat (AccessByteWidth f)) (length Buffer)) 0 Buffer 0;
                  MergedDatum = push_bit (unat (StartFieldBitOffset f)) RawDatum
              in case insert_loop rd wr f Buffer WidthMask (unat DatumCount) (unat FieldDatumCount) 1 0 0
                        Mask RawDatum MergedDatum s of
                   Inl (Status, s) \<Rightarrow> (Status, f, s)
                 | Inr (Mask, MergedDatum, FieldOffset, s) \<Rightarrow>
                     let BufferTailBits = unat ((BitLength f + ucast (StartFieldBitOffset f)) mod AccessBitWidth);
                         Mask = (if BufferTailBits \<noteq> 0 then Mask AND ACPI_MASK_BITS_ABOVE BufferTailBits else Mask)
                     in case AcpiExWriteWithUpdateRule rd wr f Mask (MergedDatum AND Mask) FieldOffset s of
                          (Status, s) \<Rightarrow> (Status, f, s))"

section \<open>Bits of buffers and datums\<close>

definition bbit :: "u8 list \<Rightarrow> nat \<Rightarrow> bool" where
  "bbit buf j \<longleftrightarrow> j div 8 < length buf \<and> bit (buf ! (j div 8)) (j mod 8)"

lemma length_put_bytes [simp]: "length (put_bytes n off v buf) = length buf"
  by (simp add: put_bytes_def)

lemma bbit_at: "r < 8 \<Longrightarrow> bbit buf (8 * q + r) \<longleftrightarrow> q < length buf \<and> bit (buf ! q) r"
  by (simp add: bbit_def)

lemma byte_and_bit:
  obtains q r where "j = 8 * q + r" and "r < (8 :: nat)"
  using that [of "j div 8" "j mod 8"] by simp

lemma bbit_put_bytes:
  assumes "off + n \<le> length buf"
  shows "bbit (put_bytes n off v buf) j \<longleftrightarrow> (if 8 * off \<le> j \<and> j < 8 * (off + n) then bit v (j - 8 * off) else bbit buf j)"
proof -
  obtain q r where j: "j = 8 * q + r" and r: "r < (8 :: nat)" by (rule byte_and_bit)
  have iff: "8 * off \<le> j \<and> j < 8 * (off + n) \<longleftrightarrow> off \<le> q \<and> q < off + n" unfolding j using r by presburger
  show ?thesis
  proof (cases "off \<le> q \<and> q < off + n")
    case True
    have "put_bytes n off v buf ! q = ucast (drop_bit (8 * (q - off)) v)" and "q < length buf"
      using True assms by (simp_all add: put_bytes_def)
    moreover have "8 * (q - off) + r = j - 8 * off" using True by (simp add: j diff_mult_distrib2)
    ultimately show ?thesis unfolding iff using True r by (simp add: j bbit_at bit_unsigned_iff bit_drop_bit_eq)
  next
    case False
    then have "q < length buf \<Longrightarrow> put_bytes n off v buf ! q = buf ! q" by (auto simp: put_bytes_def)
    then show ?thesis unfolding iff using False r by (auto simp: j bbit_at)
  qed
qed

lemma bit_get_bytes:
  "off + n \<le> length buf \<Longrightarrow> n \<le> 8 \<Longrightarrow> bit (get_bytes n off buf) k \<longleftrightarrow> k < 8 * n \<and> bbit buf (8 * off + k)"
proof (induction n)
  case (Suc n)
  have "bit (push_bit (8 * n) (ucast (buf ! (off + n)) :: u64)) k \<longleftrightarrow> 8 * n \<le> k \<and> k < 8 * Suc n \<and> bbit buf (8 * off + k)"
  proof (cases "8 * n \<le> k \<and> k < 8 * Suc n")
    case True
    then obtain r where k: "k = 8 * n + r" and r: "r < 8" by (metis add.commute le_Suc_ex mult_Suc_right nat_add_left_cancel_less)
    have "8 * off + k = 8 * (off + n) + r" by (simp add: k)
    then have "bbit buf (8 * off + k) \<longleftrightarrow> bit (buf ! (off + n)) r"
      using bbit_at [OF r, of buf "off + n"] Suc.prems(1) by (simp only: Suc_le_eq add_Suc_right simp_thms)
    moreover have "8 * n + r < 64" "r < 64" using r Suc.prems(2) by simp_all
    ultimately show ?thesis using True by (simp add: k r bit_push_bit_iff bit_unsigned_iff)
  next
    case False
    then show ?thesis by (auto simp: bit_push_bit_iff bit_unsigned_iff dest: bit_imp_le_length)
  qed
  then show ?case using Suc by (auto simp: bit_or_iff)
qed simp

lemma bit_load_bytes:
  assumes "off + n \<le> length buf" "n \<le> 8"
  shows "bit (load_bytes n off buf v) k \<longleftrightarrow> (if k < 8 * n then bbit buf (8 * off + k) else bit v k)"
proof (cases "k < 64")
  case True
  then show ?thesis
    using bit_get_bytes [OF assms, of k] by (auto simp: load_bytes_def bit_or_iff bit_and_iff bit_not_iff bit_mask_iff)
next
  case False
  then have "\<not> bit x k" for x :: u64 using bit_imp_le_length [of x k] by auto
  then show ?thesis using False assms(2) by simp
qed

lemma bit_masks:
  "bit (ACPI_MASK_BITS_ABOVE p) k \<longleftrightarrow> k < p \<and> k < 64"
  "bit (ACPI_MASK_BITS_BELOW p) k \<longleftrightarrow> p \<le> k \<and> k < 64"
  "p \<le> 64 \<Longrightarrow> bit (ACPI_MASK_BITS_ABOVE_64 p) k \<longleftrightarrow> k < p"
  by (auto simp: ACPI_MASK_BITS_ABOVE_def ACPI_MASK_BITS_BELOW_def ACPI_MASK_BITS_ABOVE_64_def ACPI_INTEGER_BIT_SIZE_def
      bit_not_iff bit_mask_iff)

section \<open>Well-formed fields\<close>

text \<open>The access width in bytes and in bits, the first bit, the length, and the numbers of datums.\<close>

definition fbytes :: "field \<Rightarrow> nat" where "fbytes f = unat (AccessByteWidth f)"
definition fwidth :: "field \<Rightarrow> nat" where "fwidth f = 8 * fbytes f"
definition fstart :: "field \<Rightarrow> nat" where "fstart f = unat (StartFieldBitOffset f)"
definition flen :: "field \<Rightarrow> nat" where "flen f = unat (BitLength f)"
definition datums :: "field \<Rightarrow> nat \<Rightarrow> nat" where "datums f n = (n + (fwidth f - 1)) div fwidth f"

definition field_ok :: "field \<Rightarrow> bool" where
  "field_ok f \<longleftrightarrow> fbytes f \<in> {1, 2, 4, 8} \<and> fstart f < fwidth f \<and> 0 < flen f \<and> flen f + 128 < 2 ^ 32"

lemma datums_bounds:
  assumes "0 < fwidth f" and "0 < n"
  shows "0 < datums f n" "(datums f n - 1) * fwidth f < n" "n \<le> datums f n * fwidth f"
proof -
  let ?W = "fwidth f"
  obtain q r where q: "n - 1 = q * ?W + r" "r < ?W" using assms(1) by (metis div_mult_mod_eq mod_less_divisor)
  then have n: "n + (?W - 1) = Suc q * ?W + r" using assms by simp
  then have "datums f n = Suc q" unfolding datums_def n by (intro div_nat_eqI) (use q(2) in \<open>simp_all add: algebra_simps\<close>)
  then show "0 < datums f n" "(datums f n - 1) * ?W < n" "n \<le> datums f n * ?W" using q assms by auto
qed

lemma field_width: "field_ok f \<Longrightarrow> 8 \<le> fwidth f" "field_ok f \<Longrightarrow> fwidth f \<le> 64" "field_ok f \<Longrightarrow> fbytes f \<le> 8" "field_ok f \<Longrightarrow> 0 < fbytes f"
  by (auto simp: field_ok_def fwidth_def)

lemma field_counts:
  assumes ok: "field_ok f"
  shows "datums f (flen f) \<le> datums f (flen f + fstart f)" "datums f (flen f + fstart f) \<le> Suc (datums f (flen f))"
proof -
  have W: "0 < fwidth f" "fstart f < fwidth f" using ok field_width(1) [OF ok] by (auto simp: field_ok_def)
  show "datums f (flen f) \<le> datums f (flen f + fstart f)" unfolding datums_def by (rule div_le_mono) simp
  have "datums f (flen f + fstart f) \<le> (flen f + (fwidth f - 1) + fwidth f) div fwidth f"
    unfolding datums_def using W by (intro div_le_mono) simp
  also have "\<dots> = (flen f + (fwidth f - 1)) div fwidth f + 1" by (rule div_add_self2) (use W in simp)
  also have "\<dots> = Suc (datums f (flen f))" by (simp only: datums_def Suc_eq_plus1)
  finally show "datums f (flen f + fstart f) \<le> Suc (datums f (flen f))" .
qed

lemma unat_byte_to_u32: "unat (ucast x :: u32) = unat x" for x :: u8
  using unat_lt8 [of x] by (simp add: unsigned_ucast_eq take_bit_nat_eq_self)

lemma unat_mul_8: "unat (AccessByteWidth f) \<le> 8 \<Longrightarrow> unat (ACPI_MUL_8 (AccessByteWidth f)) = fwidth f"
proof -
  assume w: "unat (AccessByteWidth f) \<le> 8"
  have "unat (ucast (AccessByteWidth f) :: u32) = unat (AccessByteWidth f)" by (rule unat_byte_to_u32)
  then show ?thesis using w
    by (simp add: ACPI_MUL_8_def fwidth_def fbytes_def push_bit_eq_mult unat_mult_lem [THEN iffD1])
qed

lemma field_words:
  assumes ok: "field_ok f"
  shows "unat (ACPI_MUL_8 (AccessByteWidth f)) = fwidth f"
    and "unat (ACPI_MUL_8 (AccessByteWidth f) - ucast (StartFieldBitOffset f)) = fwidth f - fstart f"
    and "unat (ACPI_ROUND_BITS_UP_TO_BYTES (BitLength f)) = (flen f + 7) div 8"
    and "unat (ACPI_ROUND_UP_TO (BitLength f) (ACPI_MUL_8 (AccessByteWidth f))) = datums f (flen f)"
    and "unat (ACPI_ROUND_UP_TO (BitLength f + ucast (StartFieldBitOffset f)) (ACPI_MUL_8 (AccessByteWidth f)))
           = datums f (flen f + fstart f)"
    and "unat (BitLength f mod ACPI_MUL_8 (AccessByteWidth f)) = flen f mod fwidth f"
    and "unat ((BitLength f + ucast (StartFieldBitOffset f)) mod ACPI_MUL_8 (AccessByteWidth f)) = (flen f + fstart f) mod fwidth f"
proof -
  have w: "fwidth f \<le> 64" "8 \<le> fwidth f" "fstart f < fwidth f" "flen f + 128 < 2 ^ 32"
    using ok field_width by (auto simp: field_ok_def)
  show W: "unat (ACPI_MUL_8 (AccessByteWidth f)) = fwidth f"
    by (rule unat_mul_8) (use field_width(3) [OF ok] in \<open>simp add: fbytes_def\<close>)
  have S: "unat (ucast (StartFieldBitOffset f) :: u32) = fstart f" by (simp add: fstart_def unat_byte_to_u32)
  have L: "unat (BitLength f) = flen f" by (simp add: flen_def)
  have LS: "unat (BitLength f + ucast (StartFieldBitOffset f)) = flen f + fstart f"
    using unat_add_nowrap [of "BitLength f" "ucast (StartFieldBitOffset f)"] S L w by simp
  have W1: "unat (ACPI_MUL_8 (AccessByteWidth f) - 1) = fwidth f - 1"
    using unat_pred [of "ACPI_MUL_8 (AccessByteWidth f)"] W w by (metis not_numeral_le_zero unat_0)
  show "unat (ACPI_MUL_8 (AccessByteWidth f) - ucast (StartFieldBitOffset f)) = fwidth f - fstart f"
    using unat_sub_le [of "ucast (StartFieldBitOffset f)" "ACPI_MUL_8 (AccessByteWidth f)"] S W w
    by (simp add: word_le_nat_alt)
  have "unat (BitLength f + 7) = flen f + 7"
    using unat_add_nowrap [of "BitLength f" 7] L w by simp
  then show "unat (ACPI_ROUND_BITS_UP_TO_BYTES (BitLength f)) = (flen f + 7) div 8"
    by (simp add: ACPI_ROUND_BITS_UP_TO_BYTES_def drop_bit_eq_div unat_div)
  have "unat (BitLength f + (ACPI_MUL_8 (AccessByteWidth f) - 1)) = flen f + (fwidth f - 1)"
    using unat_add_nowrap [of "BitLength f" "ACPI_MUL_8 (AccessByteWidth f) - 1"] L W1 w by simp
  then show "unat (ACPI_ROUND_UP_TO (BitLength f) (ACPI_MUL_8 (AccessByteWidth f))) = datums f (flen f)"
    by (simp add: ACPI_ROUND_UP_TO_def datums_def unat_div W)
  have "unat (BitLength f + ucast (StartFieldBitOffset f) + (ACPI_MUL_8 (AccessByteWidth f) - 1)) = flen f + fstart f + (fwidth f - 1)"
    using unat_add_nowrap [of "BitLength f + ucast (StartFieldBitOffset f)" "ACPI_MUL_8 (AccessByteWidth f) - 1"] LS W1 w by simp
  then show "unat (ACPI_ROUND_UP_TO (BitLength f + ucast (StartFieldBitOffset f)) (ACPI_MUL_8 (AccessByteWidth f)))
           = datums f (flen f + fstart f)"
    by (simp add: ACPI_ROUND_UP_TO_def datums_def unat_div W)
  show "unat (BitLength f mod ACPI_MUL_8 (AccessByteWidth f)) = flen f mod fwidth f"
    by (simp add: unat_mod W L)
  show "unat ((BitLength f + ucast (StartFieldBitOffset f)) mod ACPI_MUL_8 (AccessByteWidth f)) = (flen f + fstart f) mod fwidth f"
    by (simp add: unat_mod W LS)
qed

section \<open>The contract of the datum access\<close>

text \<open>
  \<open>view s\<close> are the bits that the field's datums cover, counted from the start of the first datum. An access to a datum of
  the field reads or changes exactly its bits.
\<close>

text \<open>
  \<open>rest_bit f b\<close> is the new value of a bit of an accessed datum that is not part of the field, where \<open>b\<close> is the old one.
\<close>

definition update_rule :: "field \<Rightarrow> u8" where "update_rule f = FieldFlags f AND AML_FIELD_UPDATE_RULE_MASK"

definition rule_ok :: "field \<Rightarrow> bool" where
  "rule_ok f \<longleftrightarrow> update_rule f \<in> {AML_FIELD_UPDATE_PRESERVE, AML_FIELD_UPDATE_WRITE_AS_ONES, AML_FIELD_UPDATE_WRITE_AS_ZEROS}"

definition rest_bit :: "field \<Rightarrow> bool \<Rightarrow> bool" where
  "rest_bit f b \<longleftrightarrow> (if update_rule f = AML_FIELD_UPDATE_PRESERVE then b else update_rule f = AML_FIELD_UPDATE_WRITE_AS_ONES)"

text \<open>The bit at position \<open>q\<close> after the bits \<open>B\<close> have been written to the field.\<close>

definition written_bit :: "field \<Rightarrow> (nat \<Rightarrow> bool) \<Rightarrow> (nat \<Rightarrow> bool) \<Rightarrow> nat \<Rightarrow> bool" where
  "written_bit f B old q \<longleftrightarrow>
     (if fstart f \<le> q \<and> q < fstart f + flen f then B (q - fstart f)
      else if q < datums f (flen f + fstart f) * fwidth f then rest_bit f (old q) else old q)"

locale datum_store =
  fixes rd :: "'s rd" and wr :: "'s wr" and f :: field
    and good :: "'s \<Rightarrow> bool" and view :: "'s \<Rightarrow> nat \<Rightarrow> bool"
  assumes field: "field_ok f"
    and rd_ok: "good s \<Longrightarrow> m < datums f (flen f + fstart f) \<Longrightarrow>
      \<exists>v. rd f (of_nat (m * fbytes f)) s = (AE_OK, v, s) \<and> (\<forall>k. bit v k \<longleftrightarrow> k < fwidth f \<and> view s (m * fwidth f + k))"
    and wr_ok: "good s \<Longrightarrow> m < datums f (flen f + fstart f) \<Longrightarrow>
      \<exists>s'. wr f (of_nat (m * fbytes f)) v s = (AE_OK, s') \<and> good s'
         \<and> (\<forall>j. view s' j \<longleftrightarrow> (if m * fwidth f \<le> j \<and> j < Suc m * fwidth f then bit v (j - m * fwidth f) else view s j))"
begin

lemmas words = field_words [OF field]
lemmas width = field_width [OF field]
lemmas counts = field_counts [OF field]

lemma len: "0 < flen f" "fstart f < fwidth f"
  using field by (auto simp: field_ok_def)

lemma last_datum: "(datums f (flen f) - 1) * fwidth f < flen f" "flen f \<le> datums f (flen f) * fwidth f" "0 < datums f (flen f)"
  using datums_bounds [of f "flen f"] len width by auto

lemma last_field_datum:
  "(datums f (flen f + fstart f) - 1) * fwidth f < flen f + fstart f"
  "flen f + fstart f \<le> datums f (flen f + fstart f) * fwidth f"
  using datums_bounds [of f "flen f + fstart f"] len width by auto

lemma next_offset: "of_nat (m * fbytes f) + ucast (AccessByteWidth f) = (of_nat (Suc m * fbytes f) :: u32)"
proof -
  have "(ucast (AccessByteWidth f) :: u32) = of_nat (fbytes f)"
    using width(3) by (simp add: word_unat_eq_iff unat_byte_to_u32 fbytes_def unat_of_nat_lt)
  then show ?thesis by (simp add: algebra_simps)
qed

lemma unat_offset: "m < datums f (flen f + fstart f) \<Longrightarrow> unat (of_nat (m * fbytes f) :: u32) = m * fbytes f"
proof -
  assume m: "m < datums f (flen f + fstart f)"
  have "m * fwidth f \<le> (datums f (flen f + fstart f) - 1) * fwidth f" using m by (intro mult_right_mono) auto
  also have "\<dots> < flen f + fstart f" by (rule last_field_datum)
  also have "\<dots> < 2 ^ 32" using field width by (auto simp: field_ok_def)
  finally have "m * fbytes f < 2 ^ 32" by (simp add: fwidth_def)
  then show ?thesis by (intro unat_of_nat_lt) simp
qed

text \<open>Merging a datum with the one before gives the next bits of the field.\<close>

lemma bit_merged:
  fixes lo hi :: u64
  assumes lo: "\<And>k. bit lo k \<longleftrightarrow> k < fwidth f - fstart f \<and> view s (m * fwidth f + fstart f + k)"
    and hi: "\<And>k. bit hi k \<longleftrightarrow> k < fwidth f \<and> view s (Suc m * fwidth f + k)" and k: "k < fwidth f"
  shows "bit (if fwidth f - fstart f < ACPI_INTEGER_BIT_SIZE then lo OR push_bit (fwidth f - fstart f) hi else lo) k
    \<longleftrightarrow> view s (m * fwidth f + fstart f + k)"
proof (cases "k < fwidth f - fstart f")
  case True
  then show ?thesis using lo by (simp add: bit_or_iff bit_push_bit_iff)
next
  case False
  define n where "n = fwidth f - fstart f"
  obtain d where d: "k = n + d" using False by (metis le_Suc_ex linorder_not_less n_def)
  have e: "Suc m * fwidth f + d = m * fwidth f + fstart f + k" using len by (simp add: d n_def)
  have "n + d < 64" "n < 64" and w: "d < fwidth f" using k width d by auto
  then have "bit (if n < ACPI_INTEGER_BIT_SIZE then lo OR push_bit n hi else lo) k \<longleftrightarrow> bit hi d"
    using lo [of k] False by (simp add: bit_or_iff bit_push_bit_iff ACPI_INTEGER_BIT_SIZE_def d)
  then show ?thesis unfolding n_def hi e using w by simp
qed

lemma bbit_put_datum:
  assumes room: "m * fbytes f + fbytes f \<le> length Buffer"
    and B: "\<And>j. bbit Buffer j \<longleftrightarrow> j < m * fwidth f \<and> P j" and v: "\<And>k. k < fwidth f \<Longrightarrow> bit v k \<longleftrightarrow> P (m * fwidth f + k)"
  shows "bbit (put_bytes (fbytes f) (m * fbytes f) v Buffer) j \<longleftrightarrow> j < Suc m * fwidth f \<and> P j"
proof -
  have w: "8 * (m * fbytes f) = m * fwidth f" "8 * (m * fbytes f + fbytes f) = Suc m * fwidth f"
    by (simp_all add: fwidth_def algebra_simps)
  show ?thesis
  proof (cases "m * fwidth f \<le> j \<and> j < Suc m * fwidth f")
    case True
    then have "j - m * fwidth f < fwidth f" "m * fwidth f + (j - m * fwidth f) = j" by auto
    then show ?thesis using bbit_put_bytes [OF room, of v j] True v [of "j - m * fwidth f"] unfolding w by simp
  next
    case False
    then show ?thesis using bbit_put_bytes [OF room, of v j] B [of j] unfolding w by auto
  qed
qed

lemma extract_loop_spec:
  assumes "good s" and "Suc m \<le> datums f (flen f)"
    and "\<And>k. bit Merged k \<longleftrightarrow> k < fwidth f - fstart f \<and> view s (m * fwidth f + fstart f + k)"
    and "\<And>j. bbit Buffer j \<longleftrightarrow> j < m * fwidth f \<and> view s (fstart f + j)"
    and "(flen f + 7) div 8 \<le> length Buffer"
  shows "\<exists>Merged' Buffer'. extract_loop rd f (datums f (flen f)) (datums f (flen f + fstart f)) (Suc m)
             (of_nat (m * fbytes f)) (of_nat (m * fbytes f)) Merged Buffer s
           = Inr (Merged', of_nat ((datums f (flen f) - 1) * fbytes f), Buffer', s) \<and> length Buffer' = length Buffer
         \<and> (\<forall>j. bbit Buffer' j \<longleftrightarrow> j < (datums f (flen f) - 1) * fwidth f \<and> view s (fstart f + j))
         \<and> (\<forall>k < flen f - (datums f (flen f) - 1) * fwidth f.
               bit Merged' k \<longleftrightarrow> view s ((datums f (flen f) - 1) * fwidth f + fstart f + k))"
  using assms(2-)
proof (induction "datums f (flen f) - Suc m" arbitrary: m Merged Buffer)
  case 0
  let ?N = "datums f (flen f)" and ?M = "datums f (flen f + fstart f)"
  have N: "?N = Suc m" using 0 by simp
  show ?case
  proof (cases "?M = ?N")
    case True
    have "k < fwidth f - fstart f" if "k < flen f - m * fwidth f" for k
      using that last_field_datum(2) True N by simp
    moreover have "extract_loop rd f ?N ?M (Suc m) (of_nat (m * fbytes f)) (of_nat (m * fbytes f)) Merged Buffer s
        = Inr (Merged, of_nat (m * fbytes f), Buffer, s)"
      using True N by (subst extract_loop.simps) simp
    ultimately show ?thesis using 0 N by auto
  next
    case False
    then have M: "?M = Suc (Suc m)" using counts N by simp
    obtain v where v: "rd f (of_nat (Suc m * fbytes f)) s = (AE_OK, v, s)"
        "\<And>k. bit v k \<longleftrightarrow> k < fwidth f \<and> view s (Suc m * fwidth f + k)"
      using rd_ok [OF assms(1), of "Suc m"] M by auto
    let ?Mg = "if fwidth f - fstart f < ACPI_INTEGER_BIT_SIZE then Merged OR push_bit (fwidth f - fstart f) v else Merged"
    have "k < fwidth f" if "k < flen f - m * fwidth f" for k using that last_datum(2) N by simp
    then have "\<forall>k < flen f - m * fwidth f. bit ?Mg k \<longleftrightarrow> view s (m * fwidth f + fstart f + k)"
      using bit_merged [OF 0(3) v(2)] by blast
    moreover have "extract_loop rd f ?N ?M (Suc m) (of_nat (m * fbytes f)) (of_nat (m * fbytes f)) Merged Buffer s
        = Inr (?Mg, of_nat (m * fbytes f), Buffer, s)"
      unfolding M N using v(1) [folded next_offset]
      by (subst extract_loop.simps) (simp add: words Let_def del: of_nat_mult)
    ultimately show ?thesis using 0 N by auto
  qed
next
  case (Suc n)
  let ?N = "datums f (flen f)" and ?M = "datums f (flen f + fstart f)"
  have i: "Suc m < ?N" "Suc m < ?M" using Suc.hyps(2) counts by auto
  obtain v where v: "rd f (of_nat (Suc m * fbytes f)) s = (AE_OK, v, s)"
      "\<And>k. bit v k \<longleftrightarrow> k < fwidth f \<and> view s (Suc m * fwidth f + k)"
    using rd_ok [OF assms(1) i(2)] by auto
  define Mg where "Mg = (if fwidth f - fstart f < ACPI_INTEGER_BIT_SIZE then Merged OR push_bit (fwidth f - fstart f) v else Merged)"
  have Mg: "bit Mg k \<longleftrightarrow> view s (m * fwidth f + fstart f + k)" if "k < fwidth f" for k
    unfolding Mg_def by (rule bit_merged [OF Suc.prems(2) v(2) that])
  have "Suc m * fwidth f \<le> (?N - 1) * fwidth f" using i by (intro mult_right_mono) auto
  then have "Suc m * fwidth f < flen f" using last_datum(1) by linarith
  then have room: "m * fbytes f + fbytes f \<le> length Buffer" using Suc.prems(4) by (simp add: fwidth_def)
  let ?B = "put_bytes (fbytes f) (m * fbytes f) Mg Buffer"
  have B: "bbit ?B j \<longleftrightarrow> j < Suc m * fwidth f \<and> view s (fstart f + j)" for j
    by (rule bbit_put_datum [OF room Suc.prems(3)]) (simp add: Mg algebra_simps)
  have raw: "bit (drop_bit (fstart f) v) k \<longleftrightarrow> k < fwidth f - fstart f \<and> view s (Suc m * fwidth f + fstart f + k)" for k
    unfolding bit_drop_bit_eq comp_def v(2) add.assoc [symmetric] using len(2) by auto
  have u: "unat (of_nat (m * fbytes f) :: u32) = m * fbytes f" using i by (intro unat_offset) simp
  have mn: "min (fbytes f) (length Buffer - m * fbytes f) = fbytes f" and neq: "(Suc m = ?N) = False" using room i by auto
  have "extract_loop rd f ?N ?M (Suc m) (of_nat (m * fbytes f)) (of_nat (m * fbytes f)) Merged Buffer s
      = extract_loop rd f ?N ?M (Suc (Suc m)) (of_nat (Suc m * fbytes f)) (of_nat (Suc m * fbytes f)) (drop_bit (fstart f) v) ?B s"
    by (subst extract_loop.simps)
      (simp only: i(2) if_True if_False Let_def words next_offset v(1) prod.case ACPI_FAILURE_OK Mg_def [symmetric] neq u mn
        fbytes_def [symmetric] fstart_def [symmetric] Suc_eq_plus1 [symmetric])
  then show ?case using Suc.hyps(1) [of "Suc m", OF _ _ raw B] Suc.hyps(2) Suc.prems(4) i by simp
qed

lemma tail_bits:
  assumes "(n - 1) * fwidth f < x" "x \<le> n * fwidth f"
  shows "x - (n - 1) * fwidth f = (if x mod fwidth f = 0 then fwidth f else x mod fwidth f)"
proof -
  define r where "r = x - (n - 1) * fwidth f"
  have n: "0 < n" using assms by (cases n) auto
  then have x: "x = (n - 1) * fwidth f + r" and r: "0 < r" "r \<le> fwidth f"
    using assms by (auto simp: r_def diff_mult_distrib)
  have "x mod fwidth f = r mod fwidth f" unfolding x by simp
  then show ?thesis unfolding r_def [symmetric] using r by (cases "r = fwidth f") auto
qed

lemma bbit_zeros [simp]: "\<not> bbit (replicate n 0) j"
  by (simp add: bbit_def)

lemma extract_simple:
  assumes good: "good s" and room: "(flen f + 7) div 8 \<le> length Buffer" and simple: "fstart f = 0" "flen f = fwidth f"
  shows "\<exists>B. AcpiExExtractFromField rd f Buffer s = Some (AE_OK, B, f, s) \<and> length B = length Buffer
    \<and> (\<forall>j. bbit B j \<longleftrightarrow> j < flen f \<and> view s (fstart f + j))"
proof -
  have c: "StartFieldBitOffset f = 0" "BitLength f = ACPI_MUL_8 (AccessByteWidth f)" "\<not> AccessByteWidth f > 8"
      "\<not> length Buffer < unat (ACPI_ROUND_BITS_UP_TO_BYTES (BitLength f))"
    using simple words(1,3) room width(3)
    by (auto simp: fstart_def flen_def fbytes_def word_unat_eq_iff word_less_nat_alt)
  obtain v where v: "rd f 0 s = (AE_OK, v, s)" "\<And>k. bit v k \<longleftrightarrow> k < fwidth f \<and> view s k"
    using rd_ok [OF good, of 0] counts(1) last_datum(3) by auto
  let ?n = "min 8 (length Buffer)"
  have e: "AcpiExExtractFromField rd f Buffer s = Some (AE_OK, put_bytes ?n 0 v (replicate (length Buffer) 0), f, s)"
    using c v(1) by (auto simp: AcpiExExtractFromField_def Let_def min_def)
  have "fwidth f \<le> 8 * length Buffer" using room simple by (simp add: fwidth_def)
  then have b: "bbit (put_bytes ?n 0 v (replicate (length Buffer) 0)) j \<longleftrightarrow> j < flen f \<and> view s (fstart f + j)" for j
    using bbit_put_bytes [of 0 ?n "replicate (length Buffer) 0" v j] v(2) [of j] simple width(2) by auto
  show ?thesis unfolding e using b by simp
qed

lemma extract_spec:
  assumes good: "good s" and room: "(flen f + 7) div 8 \<le> length Buffer"
  shows "\<exists>B. AcpiExExtractFromField rd f Buffer s = Some (AE_OK, B, f, s) \<and> length B = length Buffer
    \<and> (\<forall>j. bbit B j \<longleftrightarrow> j < flen f \<and> view s (fstart f + j))"
proof (cases "fstart f = 0 \<and> flen f = fwidth f")
  case True
  then show ?thesis using extract_simple [OF assms] by simp
next
  case False
  let ?N = "datums f (flen f)" and ?M = "datums f (flen f + fstart f)" and ?Z = "replicate (length Buffer) 0 :: u8 list"
  have c: "\<not> (StartFieldBitOffset f = 0 \<and> BitLength f = ACPI_MUL_8 (AccessByteWidth f))" "\<not> AccessByteWidth f > 8"
      "\<not> length Buffer < unat (ACPI_ROUND_BITS_UP_TO_BYTES (BitLength f))"
    using False words(1,3) room width(3) by (auto simp: fstart_def flen_def fbytes_def word_less_nat_alt)
  obtain v where v: "rd f 0 s = (AE_OK, v, s)" "\<And>k. bit v k \<longleftrightarrow> k < fwidth f \<and> view s k"
    using rd_ok [OF good, of 0] counts(1) last_datum(3) by auto
  have raw: "bit (drop_bit (fstart f) v) k \<longleftrightarrow> k < fwidth f - fstart f \<and> view s (0 * fwidth f + fstart f + k)" for k
    unfolding bit_drop_bit_eq comp_def v(2) using len(2) by auto
  obtain Mg B where loop: "extract_loop rd f ?N ?M 1 0 0 (drop_bit (fstart f) v) ?Z s = Inr (Mg, of_nat ((?N - 1) * fbytes f), B, s)"
      "length B = length Buffer" and B: "\<And>j. bbit B j \<longleftrightarrow> j < (?N - 1) * fwidth f \<and> view s (fstart f + j)"
      and Mg: "\<And>k. k < flen f - (?N - 1) * fwidth f \<Longrightarrow> bit Mg k \<longleftrightarrow> view s ((?N - 1) * fwidth f + fstart f + k)"
    using extract_loop_spec [OF good, of 0 "drop_bit (fstart f) v" ?Z] raw last_datum(3) room by auto
  let ?o = "(?N - 1) * fbytes f" and ?t = "flen f mod fwidth f"
  let ?n = "min (fbytes f) (length Buffer - ?o)"
  let ?V = "if ?t \<noteq> 0 then Mg AND ACPI_MASK_BITS_ABOVE ?t else Mg"
  have u: "unat (of_nat ?o :: u32) = ?o" using last_datum(3) counts(1) by (intro unat_offset) simp
  have e: "AcpiExExtractFromField rd f Buffer s = Some (AE_OK, put_bytes ?n ?o ?V B, f, s)"
    unfolding AcpiExExtractFromField_def Let_def if_not_P [OF c(3)] if_not_P [OF c(1)] if_not_P [OF c(2)]
    using v(1) loop u by (simp add: words fbytes_def [symmetric] fstart_def [symmetric] del: of_nat_mult)
  have o8: "8 * ?o = (?N - 1) * fwidth f" by (simp add: fwidth_def)
  have fits: "flen f \<le> 8 * length Buffer" using room by linarith
  then have on: "?o + ?n \<le> length B" using loop(2) last_datum(1) o8 by linarith
  have last: "bit ?V k \<longleftrightarrow> k < flen f - (?N - 1) * fwidth f \<and> view s ((?N - 1) * fwidth f + fstart f + k)" if "k < 8 * ?n" for k
  proof -
    have "k < fwidth f" using that by (simp add: fwidth_def)
    then show ?thesis using Mg [of k] tail_bits [OF last_datum(1,2)] width(2)
      by (auto simp: bit_and_iff bit_masks)
  qed
  have top: "j < 8 * (?o + ?n)" if "j < flen f" for j
    using that fits last_datum(1,2) o8 by (cases "fbytes f \<le> length Buffer - ?o") (auto simp: fwidth_def min_def algebra_simps)
  have "bbit (put_bytes ?n ?o ?V B) j \<longleftrightarrow> j < flen f \<and> view s (fstart f + j)" for j
  proof (cases "8 * ?o \<le> j \<and> j < 8 * (?o + ?n)")
    case True
    then have "8 * ?o \<le> j" "j < 8 * ?n + 8 * ?o" by (simp_all only: distrib_left add.commute)
    then have k: "j - 8 * ?o < 8 * ?n" by (simp only: less_diff_conv2)
    have j: "(?N - 1) * fwidth f + fstart f + (j - 8 * ?o) = fstart f + j" using True unfolding o8 by simp
    have "j - 8 * ?o < flen f - (?N - 1) * fwidth f \<longleftrightarrow> j < flen f" using True unfolding o8 by linarith
    then show ?thesis using bbit_put_bytes [OF on, of ?V j] True last [OF k] unfolding j by simp
  next
    case False
    then have "bbit (put_bytes ?n ?o ?V B) j \<longleftrightarrow> j < (?N - 1) * fwidth f \<and> view s (fstart f + j)"
      using bbit_put_bytes [OF on, of ?V j] B [of j] by auto
    moreover have "j < (?N - 1) * fwidth f \<longleftrightarrow> j < flen f" using False top [of j] last_datum(1) unfolding o8 by linarith
    ultimately show ?thesis by simp
  qed
  then show ?thesis unfolding e using loop(2) by simp
qed

lemma write_with_update_rule:
  fixes v Mask :: u64
  assumes good: "good s" and m: "m < datums f (flen f + fstart f)" and rule: "rule_ok f"
    and Mask: "\<And>k. bit Mask k \<Longrightarrow> k < fwidth f" and v: "\<And>k. bit v k \<Longrightarrow> bit Mask k"
  shows "\<exists>s'. AcpiExWriteWithUpdateRule rd wr f Mask v (of_nat (m * fbytes f)) s = (AE_OK, s') \<and> good s'
    \<and> (\<forall>j. view s' j \<longleftrightarrow> (if m * fwidth f \<le> j \<and> j < Suc m * fwidth f
            then if bit Mask (j - m * fwidth f) then bit v (j - m * fwidth f) else rest_bit f (view s j) else view s j))"
proof -
  obtain c where c: "rd f (of_nat (m * fbytes f)) s = (AE_OK, c, s)" "\<And>k. bit c k \<longleftrightarrow> k < fwidth f \<and> view s (m * fwidth f + k)"
    using rd_ok [OF good m] by blast
  define V where "V = (if update_rule f = AML_FIELD_UPDATE_PRESERVE then v OR (c AND NOT Mask)
     else if update_rule f = AML_FIELD_UPDATE_WRITE_AS_ONES then v OR NOT Mask else v)"
  have full: "bit Mask k" if "push_bit (64 - fwidth f) (NOT Mask) = 0" "k < fwidth f" for k
  proof -
    have "64 - fwidth f + k < 64" using that(2) width(2) by simp
    moreover have "\<not> bit (push_bit (64 - fwidth f) (NOT Mask)) (64 - fwidth f + k)" by (simp add: that(1))
    ultimately show ?thesis by (simp add: bit_push_bit_iff bit_not_iff)
  qed
  have "\<exists>V'. AcpiExWriteWithUpdateRule rd wr f Mask v (of_nat (m * fbytes f)) s = wr f (of_nat (m * fbytes f)) V' s
      \<and> (\<forall>k < fwidth f. bit V' k = bit V k)"
  proof (cases "Mask = - 1")
    case True
    have "AcpiExWriteWithUpdateRule rd wr f Mask v (of_nat (m * fbytes f)) s = wr f (of_nat (m * fbytes f)) v s"
      using True by (simp add: AcpiExWriteWithUpdateRule_def)
    moreover have "V = v" by (simp add: V_def True)
    ultimately show ?thesis by auto
  next
    case False
    consider "update_rule f = AML_FIELD_UPDATE_PRESERVE" "push_bit (64 - fwidth f) (NOT Mask) \<noteq> 0"
      | "update_rule f = AML_FIELD_UPDATE_PRESERVE" "push_bit (64 - fwidth f) (NOT Mask) = 0"
      | "update_rule f = AML_FIELD_UPDATE_WRITE_AS_ONES" | "update_rule f = AML_FIELD_UPDATE_WRITE_AS_ZEROS"
      using rule by (auto simp: rule_ok_def)
    then show ?thesis
    proof cases
      case 1
      then have "AcpiExWriteWithUpdateRule rd wr f Mask v (of_nat (m * fbytes f)) s = wr f (of_nat (m * fbytes f)) V s"
        using False c(1) by (simp add: AcpiExWriteWithUpdateRule_def update_rule_def words V_def del: of_nat_mult)
      then show ?thesis by blast
    next
      case 2
      then have "AcpiExWriteWithUpdateRule rd wr f Mask v (of_nat (m * fbytes f)) s = wr f (of_nat (m * fbytes f)) v s"
        using False by (simp add: AcpiExWriteWithUpdateRule_def update_rule_def words del: of_nat_mult)
      moreover have "\<forall>k < fwidth f. bit v k = bit V k"
        using full [OF 2(2)] 2(1) by (auto simp: V_def bit_or_iff bit_and_iff bit_not_iff)
      ultimately show ?thesis by blast
    next
      case 3
      then have "AcpiExWriteWithUpdateRule rd wr f Mask v (of_nat (m * fbytes f)) s = wr f (of_nat (m * fbytes f)) V s"
        using False by (simp add: AcpiExWriteWithUpdateRule_def update_rule_def V_def AML_FIELD_UPDATE_PRESERVE_def
            AML_FIELD_UPDATE_WRITE_AS_ONES_def del: of_nat_mult)
      then show ?thesis by blast
    next
      case 4
      then have "AcpiExWriteWithUpdateRule rd wr f Mask v (of_nat (m * fbytes f)) s = wr f (of_nat (m * fbytes f)) (v AND Mask) s"
        using False by (simp add: AcpiExWriteWithUpdateRule_def update_rule_def AML_FIELD_UPDATE_PRESERVE_def
            AML_FIELD_UPDATE_WRITE_AS_ONES_def AML_FIELD_UPDATE_WRITE_AS_ZEROS_def del: of_nat_mult)
      moreover have "V = v" using 4 by (simp add: V_def AML_FIELD_UPDATE_PRESERVE_def
            AML_FIELD_UPDATE_WRITE_AS_ONES_def AML_FIELD_UPDATE_WRITE_AS_ZEROS_def)
      then have "\<forall>k < fwidth f. bit (v AND Mask) k = bit V k" using v by (auto simp: bit_and_iff)
      ultimately show ?thesis by blast
    qed
  qed
  then obtain V' where w: "AcpiExWriteWithUpdateRule rd wr f Mask v (of_nat (m * fbytes f)) s = wr f (of_nat (m * fbytes f)) V' s"
      "\<And>k. k < fwidth f \<Longrightarrow> bit V' k = bit V k" by blast
  have V: "bit V (j - m * fwidth f) \<longleftrightarrow> (if bit Mask (j - m * fwidth f) then bit v (j - m * fwidth f) else rest_bit f (view s j))"
    if "m * fwidth f \<le> j" "j < Suc m * fwidth f" for j
  proof -
    have "j - m * fwidth f < 64" "m * fwidth f + (j - m * fwidth f) = j" "j - m * fwidth f < fwidth f" using that width(2) by auto
    then show ?thesis using v [of "j - m * fwidth f"] c(2) [of "j - m * fwidth f"]
      by (auto simp: V_def rest_bit_def bit_or_iff bit_and_iff bit_not_iff)
  qed
  obtain s' where s': "wr f (of_nat (m * fbytes f)) V' s = (AE_OK, s')" "good s'"
      "\<And>j. view s' j \<longleftrightarrow> (if m * fwidth f \<le> j \<and> j < Suc m * fwidth f then bit V' (j - m * fwidth f) else view s j)"
    using wr_ok [OF good m] by blast
  have "view s' j \<longleftrightarrow> (if m * fwidth f \<le> j \<and> j < Suc m * fwidth f
            then if bit Mask (j - m * fwidth f) then bit v (j - m * fwidth f) else rest_bit f (view s j) else view s j)" for j
  proof (cases "m * fwidth f \<le> j \<and> j < Suc m * fwidth f")
    case True
    then have "j - m * fwidth f < fwidth f" by auto
    then show ?thesis using True s'(3) [of j] V [of j] w(2) [of "j - m * fwidth f"] by simp
  next
    case False
    then show ?thesis using s'(3) [of j] by (simp only: if_False)
  qed
  then show ?thesis using s'(1,2) w(1) by auto
qed

text \<open>
  The state before datum \<open>m\<close> is written, where \<open>B\<close> are the bits of the buffer and \<open>s0\<close> is the initial state: the datums
  below have their final value, \<open>Raw\<close> holds the input datum and \<open>Merged\<close> the output datum.
\<close>

definition inserting :: "'s \<Rightarrow> (nat \<Rightarrow> bool) \<Rightarrow> nat \<Rightarrow> 's \<Rightarrow> u64 \<Rightarrow> bool" where
  "inserting s0 B m s Merged \<longleftrightarrow> good s
     \<and> (\<forall>q. view s q \<longleftrightarrow> (if q < m * fwidth f then written_bit f B (view s0) q else view s0 q))
     \<and> (\<forall>k < fwidth f. fstart f \<le> m * fwidth f + k \<longrightarrow> m * fwidth f + k < fstart f + flen f
           \<longrightarrow> (bit Merged k \<longleftrightarrow> B (m * fwidth f + k - fstart f)))"

definition raw_datum :: "(nat \<Rightarrow> bool) \<Rightarrow> nat \<Rightarrow> u64 \<Rightarrow> bool" where
  "raw_datum B m Raw \<longleftrightarrow> (\<forall>k. bit Raw k \<longrightarrow> k < fwidth f) \<and> (\<forall>k < fwidth f. m * fwidth f + k < flen f \<longrightarrow> (bit Raw k \<longleftrightarrow> B (m * fwidth f + k)))"

text \<open>The bits of datum \<open>m\<close> that belong to the field, as far as its upper end does not matter.\<close>

definition datum_mask :: "nat \<Rightarrow> u64" where
  "datum_mask m = (if m = 0 then ACPI_MASK_BITS_ABOVE_64 (fwidth f) AND ACPI_MASK_BITS_BELOW (fstart f)
                   else ACPI_MASK_BITS_ABOVE_64 (fwidth f))"

lemma bit_datum_mask: "bit (datum_mask m) k \<longleftrightarrow> k < fwidth f \<and> fstart f \<le> m * fwidth f + k"
proof (cases m)
  case (Suc n)
  then show ?thesis using width(2) len(2) by (auto simp: datum_mask_def bit_masks)
next
  case 0
  then show ?thesis using width(2) by (auto simp: datum_mask_def bit_and_iff bit_masks)
qed

text \<open>Writing the masked datum \<open>m\<close> gives the bits up to the end of this datum their final value.\<close>

lemma insert_datum:
  assumes ins: "inserting s0 B m s Merged" and m: "m < datums f (flen f + fstart f)" and rule: "rule_ok f"
    and Mask: "\<And>k. bit Mask k \<longleftrightarrow> k < fwidth f \<and> fstart f \<le> m * fwidth f + k \<and> m * fwidth f + k < fstart f + flen f"
  shows "\<exists>s'. AcpiExWriteWithUpdateRule rd wr f Mask (Merged AND Mask) (of_nat (m * fbytes f)) s = (AE_OK, s') \<and> good s'
    \<and> (\<forall>q. view s' q \<longleftrightarrow> (if q < Suc m * fwidth f then written_bit f B (view s0) q else view s0 q))"
proof -
  have good: "good s" using ins by (simp add: inserting_def)
  obtain s' where w: "AcpiExWriteWithUpdateRule rd wr f Mask (Merged AND Mask) (of_nat (m * fbytes f)) s = (AE_OK, s')" "good s'"
      and v: "\<And>j. view s' j \<longleftrightarrow> (if m * fwidth f \<le> j \<and> j < Suc m * fwidth f
            then if bit Mask (j - m * fwidth f) then bit (Merged AND Mask) (j - m * fwidth f) else rest_bit f (view s j) else view s j)"
    using write_with_update_rule [OF good m rule, of Mask "Merged AND Mask"] Mask by (auto simp: bit_and_iff)
  have "Suc m * fwidth f \<le> datums f (flen f + fstart f) * fwidth f" using m by (intro mult_right_mono) auto
  then have below: "q < datums f (flen f + fstart f) * fwidth f" if "q < Suc m * fwidth f" for q using that by linarith
  have "view s' q \<longleftrightarrow> (if q < Suc m * fwidth f then written_bit f B (view s0) q else view s0 q)" for q
  proof (cases "m * fwidth f \<le> q \<and> q < Suc m * fwidth f")
    case True
    define k where "k = q - m * fwidth f"
    have k: "k < fwidth f" "q = m * fwidth f + k" using True by (auto simp: k_def)
    have s0: "view s q = view s0 q" using ins True by (auto simp: inserting_def)
    show ?thesis
    proof (cases "bit Mask k")
      case in_mask: True
      then have "fstart f \<le> q" "q < fstart f + flen f" using Mask k(2) by auto
      then show ?thesis using v [of q] True in_mask ins k by (auto simp: k_def [symmetric] inserting_def written_bit_def bit_and_iff)
    next
      case False
      then have "\<not> (fstart f \<le> q \<and> q < fstart f + flen f)" using Mask k by auto
      then show ?thesis using v [of q] True False s0 below [of q] by (auto simp: k_def [symmetric] written_bit_def)
    qed
  next
    case False
    then show ?thesis using v [of q] ins by (auto simp: inserting_def)
  qed
  then show ?thesis using w by blast
qed

text \<open>What is left of an input datum for the next output datum.\<close>

definition carried :: "u64 \<Rightarrow> u64" where
  "carried Raw = (if fwidth f - fstart f < ACPI_INTEGER_BIT_SIZE then drop_bit (fwidth f - fstart f) Raw else 0)"

lemma bit_carried:
  assumes raw: "raw_datum B m Raw" and k: "Suc m * fwidth f + k < fstart f + flen f"
  shows "bit (carried Raw) k \<longleftrightarrow> k < fstart f \<and> B (Suc m * fwidth f + k - fstart f)"
proof (cases "k < fstart f")
  case True
  define d where "d = fwidth f - fstart f + k"
  have d: "d < fwidth f" "m * fwidth f + d = Suc m * fwidth f + k - fstart f" "fwidth f - fstart f < 64"
    using True len(2) width(2) by (auto simp: d_def)
  have "m * fwidth f + d + fstart f = Suc m * fwidth f + k" using len(2) by (simp add: d_def)
  then have "m * fwidth f + d < flen f" using k by linarith
  then have "bit Raw d \<longleftrightarrow> B (m * fwidth f + d)" using raw d(1) by (simp add: raw_datum_def)
  then show ?thesis unfolding d(2) using d(3) True by (simp add: carried_def ACPI_INTEGER_BIT_SIZE_def bit_drop_bit_eq d_def)
next
  case False
  have "\<not> bit Raw (fwidth f - fstart f + k)" using raw False len(2) unfolding raw_datum_def by (metis add.commute le_add_diff_inverse2 less_imp_le_nat linorder_not_less nat_add_left_cancel_le)
  then show ?thesis using False by (simp add: carried_def bit_drop_bit_eq)
qed

lemma load_datum:
  assumes raw: "raw_datum (bbit Buffer) m Raw" and room: "(flen f + 7) div 8 \<le> length Buffer" and m: "Suc m * fwidth f < flen f"
  shows "raw_datum (bbit Buffer) (Suc m)
    (load_bytes (min (fbytes f) (length Buffer - Suc m * fbytes f)) (Suc m * fbytes f) Buffer Raw)"
proof -
  let ?n = "min (fbytes f) (length Buffer - Suc m * fbytes f)"
  have fits: "flen f \<le> 8 * length Buffer" using room by linarith
  have o8: "8 * (Suc m * fbytes f) = Suc m * fwidth f" by (simp add: fwidth_def)
  then have "Suc m * fbytes f + ?n \<le> length Buffer" using m fits by linarith
  note b = bit_load_bytes [OF this, of Raw]
  have n: "?n \<le> 8" "8 * ?n \<le> fwidth f" using width(3) by (auto simp: fwidth_def)
  have "k < 8 * ?n" if "k < fwidth f" "Suc m * fwidth f + k < flen f" for k
  proof (cases "fbytes f \<le> length Buffer - Suc m * fbytes f")
    case True
    then show ?thesis using that(1) by (simp only: min_absorb1 fwidth_def)
  next
    case False
    then have n: "?n = length Buffer - Suc m * fbytes f" by simp
    show ?thesis unfolding n diff_mult_distrib2 o8 using that(2) fits by linarith
  qed
  then have "bit (load_bytes ?n (Suc m * fbytes f) Buffer Raw) k \<longleftrightarrow> bbit Buffer (Suc m * fwidth f + k)"
    if "k < fwidth f" "Suc m * fwidth f + k < flen f" for k using b [OF n(1), of k] that unfolding o8 by presburger
  moreover have "k < fwidth f" if "bit (load_bytes ?n (Suc m * fbytes f) Buffer Raw) k" for k
    using that b [OF n(1), of k] n(2) raw by (auto simp: raw_datum_def split: if_splits)
  ultimately show ?thesis unfolding raw_datum_def by blast
qed

lemma inner_datum:
  assumes ins: "inserting s0 B m s Merged" and m: "Suc m < datums f (flen f + fstart f)" and rule: "rule_ok f"
  shows "\<exists>s'. AcpiExWriteWithUpdateRule rd wr f (datum_mask m) (Merged AND datum_mask m) (of_nat (m * fbytes f)) s = (AE_OK, s')
    \<and> good s' \<and> (\<forall>q. view s' q \<longleftrightarrow> (if q < Suc m * fwidth f then written_bit f B (view s0) q else view s0 q))"
proof -
  have "Suc m * fwidth f \<le> (datums f (flen f + fstart f) - 1) * fwidth f" using m by (intro mult_right_mono) auto
  then have "Suc m * fwidth f < fstart f + flen f" using last_field_datum(1) by linarith
  then have "bit (datum_mask m) k \<longleftrightarrow> k < fwidth f \<and> fstart f \<le> m * fwidth f + k \<and> m * fwidth f + k < fstart f + flen f" for k
    using bit_datum_mask [of m k] by auto
  then show ?thesis using insert_datum [OF ins _ rule, of "datum_mask m"] m by simp
qed

lemma next_merged:
  assumes raw: "raw_datum B m Raw" and raw': "raw_datum B (Suc m) Raw'" and k: "k < fwidth f"
    and q: "Suc m * fwidth f + k < fstart f + flen f"
  shows "bit (carried Raw OR push_bit (fstart f) Raw') k \<longleftrightarrow> B (Suc m * fwidth f + k - fstart f)"
proof (cases "k < fstart f")
  case True
  then show ?thesis using bit_carried [OF raw q] by (simp add: bit_or_iff bit_push_bit_iff)
next
  case False
  then have d: "Suc m * fwidth f + (k - fstart f) = Suc m * fwidth f + k - fstart f" by simp
  have "k < 64" using k width(2) by simp
  moreover have "k - fstart f < fwidth f" "Suc m * fwidth f + (k - fstart f) < flen f" using False q k by auto
  then have "bit Raw' (k - fstart f) \<longleftrightarrow> B (Suc m * fwidth f + (k - fstart f))"
    using raw' unfolding raw_datum_def by blast
  ultimately show ?thesis using bit_carried [OF raw q] False unfolding d by (simp add: bit_or_iff bit_push_bit_iff)
qed

lemma datum_mask_Suc: "datum_mask (Suc m) = ACPI_MASK_BITS_ABOVE_64 (fwidth f)"
  by (simp add: datum_mask_def)

lemma insert_loop_spec:
  assumes rule: "rule_ok f" and room: "(flen f + 7) div 8 \<le> length Buffer"
    and "inserting s0 (bbit Buffer) m s Merged" and "raw_datum (bbit Buffer) m Raw" and "Suc m \<le> datums f (flen f)"
  shows "\<exists>Merged' s'. insert_loop rd wr f Buffer (ACPI_MASK_BITS_ABOVE_64 (fwidth f)) (datums f (flen f)) (datums f (flen f + fstart f))
        (Suc m) (of_nat (m * fbytes f)) (of_nat (m * fbytes f)) (datum_mask m) Raw Merged s
      = Inr (datum_mask (datums f (flen f + fstart f) - 1), Merged', of_nat ((datums f (flen f + fstart f) - 1) * fbytes f), s')
    \<and> inserting s0 (bbit Buffer) (datums f (flen f + fstart f) - 1) s' Merged'"
  using assms(3-)
proof (induction "datums f (flen f) - Suc m" arbitrary: m s Merged Raw)
  case 0
  let ?N = "datums f (flen f)" and ?M = "datums f (flen f + fstart f)" and ?W = "ACPI_MASK_BITS_ABOVE_64 (fwidth f)"
  have N: "?N = Suc m" using 0 by simp
  show ?case
  proof (cases "?M = ?N")
    case True
    have "insert_loop rd wr f Buffer ?W ?N ?M (Suc m) (of_nat (m * fbytes f)) (of_nat (m * fbytes f)) (datum_mask m) Raw Merged s
        = Inr (datum_mask m, Merged, of_nat (m * fbytes f), s)"
      using True N by (subst insert_loop.simps) simp
    then show ?thesis using 0 True N by auto
  next
    case False
    then have M: "?M = Suc (Suc m)" using counts N by simp
    obtain s' where w: "AcpiExWriteWithUpdateRule rd wr f (datum_mask m) (Merged AND datum_mask m) (of_nat (m * fbytes f)) s = (AE_OK, s')"
        and s': "good s'" "\<forall>q. view s' q \<longleftrightarrow> (if q < Suc m * fwidth f then written_bit f (bbit Buffer) (view s0) q else view s0 q)"
      using inner_datum [OF 0(2) _ rule] M by auto
    have "insert_loop rd wr f Buffer ?W ?N ?M (Suc m) (of_nat (m * fbytes f)) (of_nat (m * fbytes f)) (datum_mask m) Raw Merged s
        = Inr (datum_mask (Suc m), carried Raw, of_nat (Suc m * fbytes f), s')"
      unfolding N M
      by (subst insert_loop.simps)
        (simp only: lessI if_True if_False Let_def words next_offset w prod.case ACPI_FAILURE_OK carried_def datum_mask_Suc simp_thms)
    moreover have "inserting s0 (bbit Buffer) (Suc m) s' (carried Raw)"
    proof -
      have "bit (carried Raw) k \<longleftrightarrow> bbit Buffer (Suc m * fwidth f + k - fstart f)" if "Suc m * fwidth f + k < fstart f + flen f" for k
        using bit_carried [OF 0(3) that] that last_datum(2) unfolding N by linarith
      then show ?thesis using s' unfolding inserting_def by blast
    qed
    ultimately show ?thesis unfolding M by auto
  qed
next
  case (Suc n)
  let ?N = "datums f (flen f)" and ?M = "datums f (flen f + fstart f)" and ?W = "ACPI_MASK_BITS_ABOVE_64 (fwidth f)"
  have i: "Suc m < ?N" "Suc m < ?M" using Suc.hyps(2) counts by auto
  obtain s' where w: "AcpiExWriteWithUpdateRule rd wr f (datum_mask m) (Merged AND datum_mask m) (of_nat (m * fbytes f)) s = (AE_OK, s')"
      and s': "good s'" "\<forall>q. view s' q \<longleftrightarrow> (if q < Suc m * fwidth f then written_bit f (bbit Buffer) (view s0) q else view s0 q)"
    using inner_datum [OF Suc.prems(1) i(2) rule] by blast
  have "Suc m * fwidth f \<le> (?N - 1) * fwidth f" using i by (intro mult_right_mono) auto
  then have m: "Suc m * fwidth f < flen f" using last_datum(1) by linarith
  define Raw' where "Raw' = load_bytes (min (fbytes f) (length Buffer - Suc m * fbytes f)) (Suc m * fbytes f) Buffer Raw"
  have raw': "raw_datum (bbit Buffer) (Suc m) Raw'" unfolding Raw'_def by (rule load_datum [OF Suc.prems(2) room m])
  have u: "unat (of_nat (Suc m * fbytes f) :: u32) = Suc m * fbytes f" using i by (intro unat_offset) simp
  have neq: "(Suc m = ?N) = False" using i by simp
  have "insert_loop rd wr f Buffer ?W ?N ?M (Suc m) (of_nat (m * fbytes f)) (of_nat (m * fbytes f)) (datum_mask m) Raw Merged s
      = insert_loop rd wr f Buffer ?W ?N ?M (Suc (Suc m)) (of_nat (Suc m * fbytes f)) (of_nat (Suc m * fbytes f)) (datum_mask (Suc m))
          Raw' (carried Raw OR push_bit (fstart f) Raw') s'"
    by (subst insert_loop.simps)
      (simp only: i(2) if_True if_False Let_def words next_offset w prod.case ACPI_FAILURE_OK neq u Raw'_def carried_def datum_mask_Suc
        fbytes_def [symmetric] fstart_def [symmetric] Suc_eq_plus1 [symmetric])
  moreover have "inserting s0 (bbit Buffer) (Suc m) s' (carried Raw OR push_bit (fstart f) Raw')"
    using s' next_merged [OF Suc.prems(2) raw'] unfolding inserting_def by blast
  ultimately show ?case using Suc.hyps(1) [of "Suc m" s' _ Raw'] raw' Suc.hyps(2) i by simp
qed

lemma bbit_append_zeros [simp]: "bbit (buf @ replicate n 0) = bbit buf"
  by (auto simp: bbit_def fun_eq_iff nth_append)

lemma first_datum:
  assumes room: "(flen f + 7) div 8 \<le> length Buffer"
  shows "raw_datum (bbit Buffer) 0 (load_bytes (min (fbytes f) (length Buffer)) 0 Buffer 0)"
proof -
  have n: "0 + min (fbytes f) (length Buffer) \<le> length Buffer" "min (fbytes f) (length Buffer) \<le> 8" using width(3) by auto
  have "flen f \<le> 8 * length Buffer" using room by linarith
  then have "k < 8 * min (fbytes f) (length Buffer)" if "k < fwidth f" "k < flen f" for k
    using that by (simp add: min_def fwidth_def)
  then show ?thesis using bit_load_bytes [OF n, of 0] by (auto simp: raw_datum_def fwidth_def)
qed

lemma insert_long_buffer:
  assumes good: "good s" and rule: "rule_ok f" and room: "(flen f + 7) div 8 \<le> length Buffer"
  shows "\<exists>s'. AcpiExInsertIntoField rd wr allocated f Buffer s = (AE_OK, f, s') \<and> good s'
    \<and> (\<forall>q. view s' q \<longleftrightarrow> written_bit f (bbit Buffer) (view s) q)"
proof -
  let ?N = "datums f (flen f)" and ?M = "datums f (flen f + fstart f)" and ?t = "(flen f + fstart f) mod fwidth f"
  let ?Raw = "load_bytes (min (fbytes f) (length Buffer)) 0 Buffer 0"
  note raw = first_datum [OF room]
  have "k < 64" if "k < fwidth f" for k using that width(2) by simp
  then have ins: "inserting s (bbit Buffer) 0 s (push_bit (fstart f) ?Raw)"
    using good raw by (auto simp: inserting_def raw_datum_def bit_push_bit_iff)
  obtain Mg s1 where loop: "insert_loop rd wr f Buffer (ACPI_MASK_BITS_ABOVE_64 (fwidth f)) ?N ?M 1 0 0 (datum_mask 0) ?Raw (push_bit (fstart f) ?Raw) s
      = Inr (datum_mask (?M - 1), Mg, of_nat ((?M - 1) * fbytes f), s1)" and s1: "inserting s (bbit Buffer) (?M - 1) s1 Mg"
    using insert_loop_spec [OF rule room ins raw] last_datum(3) by auto
  let ?Mask = "if ?t \<noteq> 0 then datum_mask (?M - 1) AND ACPI_MASK_BITS_ABOVE ?t else datum_mask (?M - 1)"
  have M: "?M - 1 < ?M" using counts(1) last_datum(3) by simp
  have tail: "k < flen f + fstart f - (?M - 1) * fwidth f \<longleftrightarrow> (?M - 1) * fwidth f + k < fstart f + flen f" for k
    using last_field_datum(1) by linarith
  have Mask: "bit ?Mask k \<longleftrightarrow> k < fwidth f \<and> fstart f \<le> (?M - 1) * fwidth f + k \<and> (?M - 1) * fwidth f + k < fstart f + flen f" for k
    using bit_datum_mask [of "?M - 1" k] tail [of k] tail_bits [OF last_field_datum] width(2)
    by (auto simp: bit_and_iff bit_masks split: if_splits)
  obtain s2 where w: "AcpiExWriteWithUpdateRule rd wr f ?Mask (Mg AND ?Mask) (of_nat ((?M - 1) * fbytes f)) s1 = (AE_OK, s2)"
      and s2: "good s2" "\<And>q. view s2 q \<longleftrightarrow> (if q < Suc (?M - 1) * fwidth f then written_bit f (bbit Buffer) (view s) q else view s q)"
    using insert_datum [OF s1 M rule Mask] by blast
  have "\<not> AccessByteWidth f > 8" using width(3) by (auto simp: fbytes_def word_less_nat_alt)
  then have "AcpiExInsertIntoField rd wr allocated f Buffer s = (AE_OK, f, s2)"
    using room loop w
    by (cases "?t = 0") (simp_all add: AcpiExInsertIntoField_def words Let_def fbytes_def [symmetric] fstart_def [symmetric]
        datum_mask_def [of 0] and.assoc del: of_nat_mult)
  moreover have "view s2 q \<longleftrightarrow> written_bit f (bbit Buffer) (view s) q" for q
    using s2(2) [of q] M last_field_datum(2) by (auto simp: written_bit_def)
  ultimately show ?thesis using s2(1) by blast
qed

lemma insert_spec:
  assumes good: "good s" and rule: "rule_ok f" and "allocated \<or> (flen f + 7) div 8 \<le> length Buffer"
  shows "\<exists>s'. AcpiExInsertIntoField rd wr allocated f Buffer s = (AE_OK, f, s') \<and> good s'
    \<and> (\<forall>q. view s' q \<longleftrightarrow> written_bit f (bbit Buffer) (view s) q)"
proof (cases "(flen f + 7) div 8 \<le> length Buffer")
  case True
  then show ?thesis using insert_long_buffer [OF good rule] by blast
next
  case False
  let ?B = "Buffer @ replicate ((flen f + 7) div 8 - length Buffer) 0"
  have "AcpiExInsertIntoField rd wr allocated f Buffer s = AcpiExInsertIntoField rd wr allocated f ?B s"
    using False assms(3) by (simp add: AcpiExInsertIntoField_def words)
  then show ?thesis using insert_long_buffer [OF good rule, of ?B] False by simp
qed

text \<open>A field reads back what was written to it.\<close>

lemma insert_extract:
  assumes good: "good s" and rule: "rule_ok f" and "allocated \<or> (flen f + 7) div 8 \<le> length Buffer"
    and room: "(flen f + 7) div 8 \<le> length Out"
  shows "\<exists>s' B. AcpiExInsertIntoField rd wr allocated f Buffer s = (AE_OK, f, s')
    \<and> AcpiExExtractFromField rd f Out s' = Some (AE_OK, B, f, s') \<and> length B = length Out
    \<and> (\<forall>j. bbit B j \<longleftrightarrow> j < flen f \<and> bbit Buffer j)"
proof -
  obtain s' where s': "AcpiExInsertIntoField rd wr allocated f Buffer s = (AE_OK, f, s')" "good s'"
      "\<And>q. view s' q \<longleftrightarrow> written_bit f (bbit Buffer) (view s) q"
    using insert_spec [OF assms(1-3)] by blast
  then show ?thesis using extract_spec [OF s'(2) room] by (auto simp: written_bit_def)
qed

end

end
