(* ===== verification/FieldRegion.thy ===== *)
theory FieldRegion
  imports FieldIo
begin

text \<open>
  Access to single datums: the rest of \<^verbatim>\<open>components/executer/exfldio.c\<close>, with the data table handler of
  \<^verbatim>\<open>components/executer/exregion.c\<close> and \<open>AcpiIsValidSpaceId\<close> of \<^verbatim>\<open>exutils.c\<close>.

  \<open>AcpiExFieldDatumIo\<close> demultiplexes the four kinds of fields. Buffer fields live in the byte memory, region fields
  behind the address space dispatcher (\<open>AcpiEvAddressSpaceDispatch\<close>, an argument), bank and index fields
  write a register, which is a region field, before they access their data. The evaluation of the region's
  address and length (\<open>AcpiDsGetRegionArguments\<close>) is an argument, too.

  The index field reads its data register into 8 bytes, for which \<open>AcpiExExtractFromField\<close> always has a result
  (lemma \<open>extract_8_returns\<close>). That the descriptor of a register keeps an access width cut to 8 bytes is not
  carried from one access to the next; the following access cuts it again.
\<close>

section \<open>State\<close>

record region =
  rg_is_region :: bool
  rg_SpaceId :: u8
  rg_Address :: u64
  rg_Length :: u32
  rg_valid :: bool

record world =
  Memory :: mem
  Regions :: "addr \<Rightarrow> region"

type_synonym get_args = "region \<Rightarrow> acpi_status \<times> region"

text \<open>A region, the field, read or write, the offset, the width in bits and the value.\<close>

type_synonym dispatch = "region \<Rightarrow> field \<Rightarrow> bool \<Rightarrow> u32 \<Rightarrow> u32 \<Rightarrow> u64 \<Rightarrow> world \<Rightarrow> acpi_status \<times> u64 \<times> world"

definition ACPI_NUM_PREDEFINED_REGIONS :: u8 where "ACPI_NUM_PREDEFINED_REGIONS = 12"
definition ACPI_USER_REGION_BEGIN :: u8 where "ACPI_USER_REGION_BEGIN = 0x80"
definition ACPI_ADR_SPACE_SMBUS :: u8 where "ACPI_ADR_SPACE_SMBUS = 4"
definition ACPI_ADR_SPACE_IPMI :: u8 where "ACPI_ADR_SPACE_IPMI = 7"
definition ACPI_ADR_SPACE_GSBUS :: u8 where "ACPI_ADR_SPACE_GSBUS = 9"
definition ACPI_ADR_SPACE_DATA_TABLE :: u8 where "ACPI_ADR_SPACE_DATA_TABLE = 0x7E"
definition ACPI_ADR_SPACE_FIXED_HARDWARE :: u8 where "ACPI_ADR_SPACE_FIXED_HARDWARE = 0x7F"

definition ACPI_READ :: u32 where "ACPI_READ = 0"
definition ACPI_WRITE :: u32 where "ACPI_WRITE = 1"

definition ACPI_ROUND_UP :: "u64 \<Rightarrow> u64 \<Rightarrow> u64" where
  "ACPI_ROUND_UP value boundary = (value + (boundary - 1)) AND NOT (boundary - 1)"

section \<open>Operation regions\<close>

definition AcpiIsValidSpaceId :: "u8 \<Rightarrow> bool" where
  "AcpiIsValidSpaceId SpaceId =
     (if SpaceId \<ge> ACPI_NUM_PREDEFINED_REGIONS \<and> SpaceId < ACPI_USER_REGION_BEGIN
         \<and> SpaceId \<noteq> ACPI_ADR_SPACE_DATA_TABLE \<and> SpaceId \<noteq> ACPI_ADR_SPACE_FIXED_HARDWARE
      then False else True)"

text \<open>\<open>slack\<close> is \<open>AcpiGbl_EnableInterpreterSlack\<close>.\<close>

definition AcpiExSetupRegion ::
  "get_args \<Rightarrow> bool \<Rightarrow> field \<Rightarrow> addr \<Rightarrow> u32 \<Rightarrow> world \<Rightarrow> acpi_status \<times> world" where
  "AcpiExSetupRegion get_args slack f RegionObj FieldDatumByteOffset s =
     (let RgnDesc = Regions s RegionObj
      in if \<not> rg_is_region RgnDesc then (AE_AML_OPERAND_TYPE, s)
         else let SpaceId = rg_SpaceId RgnDesc
         in if \<not> AcpiIsValidSpaceId SpaceId then (AE_AML_INVALID_SPACE_ID, s)
         else let (Status, RgnDesc) = (if \<not> rg_valid RgnDesc then get_args RgnDesc else (AE_OK, RgnDesc));
                  s = s\<lparr>Regions := (Regions s)(RegionObj := RgnDesc)\<rparr>
         in if ACPI_FAILURE Status then (Status, s)
         else if SpaceId = ACPI_ADR_SPACE_SMBUS \<or> SpaceId = ACPI_ADR_SPACE_GSBUS \<or> SpaceId = ACPI_ADR_SPACE_IPMI
         then (AE_OK, s)
         else if rg_Length RgnDesc < BaseByteOffset f + FieldDatumByteOffset + ucast (AccessByteWidth f)
         then if slack \<and> ACPI_ROUND_UP (ucast (rg_Length RgnDesc)) (ucast (AccessByteWidth f))
                         \<ge> ucast (BaseByteOffset f) + ucast (AccessByteWidth f) + ucast FieldDatumByteOffset
              then (AE_OK, s) else (AE_AML_REGION_LIMIT, s)
         else (AE_OK, s))"

definition AcpiExAccessRegion ::
  "dispatch \<Rightarrow> get_args \<Rightarrow> bool \<Rightarrow> bool \<Rightarrow> field \<Rightarrow> addr \<Rightarrow> u32 \<Rightarrow> u64 \<Rightarrow> world \<Rightarrow> acpi_status \<times> u64 \<times> world" where
  "AcpiExAccessRegion dispatch get_args slack read f RegionObj FieldDatumByteOffset v s =
     (case AcpiExSetupRegion get_args slack f RegionObj FieldDatumByteOffset s of
        (Status, s) \<Rightarrow>
          if ACPI_FAILURE Status then (Status, v, s)
          else dispatch (Regions s RegionObj) f read (BaseByteOffset f + FieldDatumByteOffset)
                 (ACPI_MUL_8 (AccessByteWidth f)) v s)"

section \<open>Bytes of the memory\<close>

definition read_mem :: "nat \<Rightarrow> addr \<Rightarrow> mem \<Rightarrow> u64" where
  "read_mem n p m = get_bytes n 0 (map (\<lambda>i. m (p + of_nat i)) [0..<n])"

definition write_mem :: "nat \<Rightarrow> addr \<Rightarrow> u64 \<Rightarrow> mem \<Rightarrow> mem" where
  "write_mem n p v m = (\<lambda>a. if unat (a - p) < n then ucast (drop_bit (8 * unat (a - p)) v) else m a)"

text \<open>
  The handler of the data table space, with the pointer of the region's mapping.
\<close>

definition AcpiExDataTableSpaceHandler ::
  "addr \<Rightarrow> u32 \<Rightarrow> u64 \<Rightarrow> u32 \<Rightarrow> u64 \<Rightarrow> world \<Rightarrow> acpi_status \<times> u64 \<times> world" where
  "AcpiExDataTableSpaceHandler MappingPointer Function Address BitWidth v s =
     (let Pointer = MappingPointer + (Address - MappingPointer); n = unat (drop_bit 3 BitWidth)
      in if Function = ACPI_READ
         then (AE_OK, (v AND push_bit (8 * n) (- 1)) OR read_mem n Pointer (Memory s), s)
         else if Function = ACPI_WRITE
         then (AE_OK, v, s\<lparr>Memory := write_mem n Pointer v (Memory s)\<rparr>)
         else (AE_BAD_PARAMETER, v, s))"

section \<open>The kinds of fields\<close>

text \<open>
  With their arguments evaluated: a buffer field with the address of the buffer, a region field with its region, a
  bank field with its region, the bank register and the region of the register, an index field with the index
  and the data register and their regions.
\<close>

datatype fkind =
    Buffer_Field addr
  | Region_Field addr
  | Bank_Field addr field addr
  | Index_Field field addr field addr
  | Other_Object

definition region_rd :: "dispatch \<Rightarrow> get_args \<Rightarrow> bool \<Rightarrow> addr \<Rightarrow> world rd" where
  "region_rd dispatch get_args slack RegionObj f off s = AcpiExAccessRegion dispatch get_args slack True f RegionObj off 0 s"

definition region_wr :: "dispatch \<Rightarrow> get_args \<Rightarrow> bool \<Rightarrow> addr \<Rightarrow> world wr" where
  "region_wr dispatch get_args slack RegionObj f off v s =
     (case AcpiExAccessRegion dispatch get_args slack False f RegionObj off v s of (Status, _, s) \<Rightarrow> (Status, s))"

definition AcpiExFieldDatumIo ::
  "dispatch \<Rightarrow> get_args \<Rightarrow> bool \<Rightarrow> bool \<Rightarrow> bool \<Rightarrow> fkind \<Rightarrow> field \<Rightarrow> u32 \<Rightarrow> u64 \<Rightarrow> world \<Rightarrow> acpi_status \<times> u64 \<times> world" where
  "AcpiExFieldDatumIo dispatch get_args slack allocated read kind f FieldDatumByteOffset v s =
     (let v = (if read then 0 else v);
          insert = (\<lambda>reg obj bytes s. case AcpiExInsertIntoField (region_rd dispatch get_args slack reg)
                      (region_wr dispatch get_args slack reg) allocated obj bytes s of (Status, _, s) \<Rightarrow> (Status, s))
      in case kind of
           Buffer_Field BufferPointer \<Rightarrow>
             let p = BufferPointer + ucast (BaseByteOffset f) + ucast FieldDatumByteOffset; n = unat (AccessByteWidth f)
             in if read then (AE_OK, read_mem n p (Memory s), s)
                else (AE_OK, v, s\<lparr>Memory := write_mem n p v (Memory s)\<rparr>)
         | Bank_Field RegionObj BankObj BankRegion \<Rightarrow>
             if AcpiExRegisterOverflow BankObj (ucast (FieldValue f)) then (AE_AML_REGISTER_LIMIT, v, s)
             else (case insert BankRegion BankObj (bytes_of 4 (ucast (FieldValue f))) s of
                     (Status, s) \<Rightarrow>
                       if ACPI_FAILURE Status then (Status, v, s)
                       else AcpiExAccessRegion dispatch get_args slack read f RegionObj FieldDatumByteOffset v s)
         | Region_Field RegionObj \<Rightarrow>
             AcpiExAccessRegion dispatch get_args slack read f RegionObj FieldDatumByteOffset v s
         | Index_Field IndexObj IndexRegion DataObj DataRegion \<Rightarrow>
             if AcpiExRegisterOverflow IndexObj (ucast (FieldValue f)) then (AE_AML_REGISTER_LIMIT, v, s)
             else (case insert IndexRegion IndexObj (bytes_of 4 (ucast (FieldDatumByteOffset + FieldValue f))) s of
                     (Status, s) \<Rightarrow>
                       if ACPI_FAILURE Status then (Status, v, s)
                       else if read
                       then (case AcpiExExtractFromField (region_rd dispatch get_args slack DataRegion) DataObj
                                    (replicate 8 0) s of
                               Some (Status, B, _, s) \<Rightarrow> (Status, get_bytes 8 0 B, s)
                             | None \<Rightarrow> (AE_AML_INTERNAL, v, s))
                       else (case insert DataRegion DataObj (bytes_of 8 v) s of (Status, s) \<Rightarrow> (Status, v, s)))
         | Other_Object \<Rightarrow> (AE_AML_INTERNAL, v, s))"

definition field_rd :: "dispatch \<Rightarrow> get_args \<Rightarrow> bool \<Rightarrow> bool \<Rightarrow> fkind \<Rightarrow> world rd" where
  "field_rd dispatch get_args slack allocated kind f off s =
     AcpiExFieldDatumIo dispatch get_args slack allocated True kind f off 0 s"

definition field_wr :: "dispatch \<Rightarrow> get_args \<Rightarrow> bool \<Rightarrow> bool \<Rightarrow> fkind \<Rightarrow> world wr" where
  "field_wr dispatch get_args slack allocated kind f off v s =
     (case AcpiExFieldDatumIo dispatch get_args slack allocated False kind f off v s of (Status, _, s) \<Rightarrow> (Status, s))"

section \<open>Memory behind a field\<close>

text \<open>The bits of the whole memory, counted from an address.\<close>

definition mem_bit :: "addr \<Rightarrow> mem \<Rightarrow> nat \<Rightarrow> bool" where
  "mem_bit p m j \<longleftrightarrow> j < 2 ^ 67 \<and> bit (m (p + of_nat (j div 8))) (j mod 8)"

lemma offset_in_datum:
  assumes "x < 2 ^ 64" "y < 2 ^ 33" "n \<le> 8"
  shows "unat (of_nat x - of_nat y :: u64) < n \<longleftrightarrow> y \<le> x \<and> x < y + n" and "y \<le> x \<Longrightarrow> unat (of_nat x - of_nat y :: u64) = x - y"
proof -
  have u: "unat (of_nat x :: u64) = x" "unat (of_nat y :: u64) = y" using assms by (simp_all add: unat_of_nat_lt)
  show eq: "unat (of_nat x - of_nat y :: u64) = x - y" if "y \<le> x"
    using unat_sub_le [of "of_nat y :: u64" "of_nat x"] u that by (simp add: word_le_nat_alt)
  show "unat (of_nat x - of_nat y :: u64) < n \<longleftrightarrow> y \<le> x \<and> x < y + n"
  proof (cases "y \<le> x")
    case True
    then show ?thesis using eq by auto
  next
    case False
    then have "unat (of_nat x - of_nat y :: u64) = 2 ^ 64 + x - y"
      using u assms by (simp add: unat_sub_if')
    then show ?thesis using False assms by simp
  qed
qed

lemma datum_extent:
  assumes ok: "field_ok f" and m: "m < datums f (flen f + fstart f)"
  shows "Suc m * fwidth f < 2 ^ 33" "m * fbytes f < 2 ^ 32"
proof -
  have "Suc m * fwidth f \<le> datums f (flen f + fstart f) * fwidth f" using m by (intro mult_right_mono) auto
  also have "\<dots> = (datums f (flen f + fstart f) - 1) * fwidth f + fwidth f" using m by (cases "datums f (flen f + fstart f)") auto
  also have "\<dots> < flen f + fstart f + fwidth f"
    using datums_bounds(2) [of f "flen f + fstart f"] ok field_width(1) [OF ok] by (auto simp: field_ok_def)
  also have "\<dots> < 2 ^ 32 + 64" using ok field_width(2) [OF ok] by (auto simp: field_ok_def)
  finally have *: "Suc m * fwidth f < 2 ^ 32 + 64" .
  then show "Suc m * fwidth f < 2 ^ 33" by simp
  show "m * fbytes f < 2 ^ 32" using * by (simp add: fwidth_def)
qed

lemma bit_read_mem: "n \<le> 8 \<Longrightarrow> bit (read_mem n p m) k \<longleftrightarrow> k < 8 * n \<and> bit (m (p + of_nat (k div 8))) (k mod 8)"
  unfolding read_mem_def by (subst bit_get_bytes) (auto simp: bbit_def)

lemma read_datum:
  assumes ok: "field_ok f" and m: "m < datums f (flen f + fstart f)"
  shows "bit (read_mem (fbytes f) (p + of_nat (m * fbytes f)) mm) k \<longleftrightarrow> k < fwidth f \<and> mem_bit p mm (m * fwidth f + k)"
proof -
  have w: "m * fwidth f + k = k + 8 * (m * fbytes f)" by (simp add: fwidth_def)
  have "(m * fwidth f + k) div 8 = m * fbytes f + k div 8" "(m * fwidth f + k) mod 8 = k mod 8" unfolding w by simp_all
  then have "bit (mm (p + of_nat (m * fbytes f) + of_nat (k div 8))) (k mod 8)
      \<longleftrightarrow> bit (mm (p + of_nat ((m * fwidth f + k) div 8))) ((m * fwidth f + k) mod 8)"
    by (simp only: of_nat_add add.assoc)
  moreover have "m * fwidth f + k < 2 ^ 67" if "k < fwidth f" using that datum_extent(1) [OF ok m] by simp
  moreover have "k < 8 * fbytes f \<longleftrightarrow> k < fwidth f" by (simp only: fwidth_def)
  ultimately show ?thesis unfolding bit_read_mem [OF field_width(3) [OF ok]] mem_bit_def by blast
qed

lemma byte_range: "r < 8 \<Longrightarrow> 8 * a \<le> 8 * q + r \<and> 8 * q + r < 8 * b \<longleftrightarrow> a \<le> q \<and> q < b" for r a q b :: nat
  by linarith

lemma write_datum:
  assumes ok: "field_ok f" and m: "m < datums f (flen f + fstart f)"
  shows "mem_bit p (write_mem (fbytes f) (p + of_nat (m * fbytes f)) v mm) j \<longleftrightarrow>
    (if m * fwidth f \<le> j \<and> j < Suc m * fwidth f then bit v (j - m * fwidth f) else mem_bit p mm j)"
proof (cases "j < 2 ^ 67")
  case True
  obtain q r where j: "j = 8 * q + r" and r: "r < (8 :: nat)" by (rule byte_and_bit)
  have q: "q < 2 ^ 64" using True j by simp
  have y: "m * fbytes f < 2 ^ 33" using datum_extent(2) [OF ok m] by simp
  have w: "m * fwidth f = 8 * (m * fbytes f)" "Suc m * fwidth f = 8 * (m * fbytes f + fbytes f)" by (simp_all add: fwidth_def)
  have iff: "m * fwidth f \<le> j \<and> j < Suc m * fwidth f \<longleftrightarrow> m * fbytes f \<le> q \<and> q < m * fbytes f + fbytes f"
    unfolding w j using r byte_range [of r] by blast
  have d: "p + of_nat (j div 8) - (p + of_nat (m * fbytes f)) = of_nat q - of_nat (m * fbytes f)" using r by (simp add: j)
  note in_datum = offset_in_datum [OF q y field_width(3) [OF ok]]
  show ?thesis
  proof (cases "m * fbytes f \<le> q \<and> q < m * fbytes f + fbytes f")
    case in_range: True
    then have k: "8 * (q - m * fbytes f) + r = j - m * fwidth f" unfolding w(1) by (simp add: j diff_mult_distrib2)
    have "write_mem (fbytes f) (p + of_nat (m * fbytes f)) v mm (p + of_nat (j div 8)) = ucast (drop_bit (8 * (q - m * fbytes f)) v)"
      unfolding write_mem_def d using in_range in_datum by simp
    then show ?thesis unfolding iff using in_range True r k by (simp add: mem_bit_def bit_unsigned_iff bit_drop_bit_eq j)
  next
    case False
    then have "write_mem (fbytes f) (p + of_nat (m * fbytes f)) v mm (p + of_nat (j div 8)) = mm (p + of_nat (j div 8))"
      unfolding write_mem_def d using in_datum(1) by auto
    then show ?thesis unfolding iff if_not_P [OF False] by (simp only: mem_bit_def)
  qed
next
  case False
  then show ?thesis using datum_extent(1) [OF ok m] by (simp add: mem_bit_def)
qed

section \<open>Interpretations of the contract\<close>

text \<open>The fields of the interpretations: a field that is not well-formed is replaced by a byte.\<close>

definition proper :: "field \<Rightarrow> field" where
  "proper f = (if field_ok f then f else \<lparr>FieldFlags = 0, AccessByteWidth = 1, BitLength = 8, BaseByteOffset = 0,
     FieldValue = 0, StartFieldBitOffset = 0\<rparr>)"

lemma proper_ok [simp]: "field_ok (proper f)"
  by (simp add: proper_def field_ok_def fbytes_def fwidth_def fstart_def flen_def)

lemma proper_id: "field_ok f \<Longrightarrow> proper f = f"
  by (simp add: proper_def)

lemma ucast_u32: "(ucast x :: u64) = of_nat (unat x)" for x :: u32
  by simp

lemma datum_offset: "field_ok f \<Longrightarrow> m < datums f (flen f + fstart f) \<Longrightarrow>
  (ucast (of_nat (m * fbytes f) :: u32) :: u64) = of_nat (m * fbytes f)"
  using datum_extent(2) [of f m] unfolding ucast_u32 by (simp add: unat_of_nat_lt del: of_nat_mult)

lemma unat_mul_8_div: "unat (AccessByteWidth f) \<le> 8 \<Longrightarrow> unat (drop_bit 3 (ACPI_MUL_8 (AccessByteWidth f))) = fbytes f"
  using unat_mul_8 [of f] by (simp add: drop_bit_eq_div unat_div fwidth_def)

definition buffer_bits :: "addr \<Rightarrow> field \<Rightarrow> world \<Rightarrow> nat \<Rightarrow> bool" where
  "buffer_bits p f s = mem_bit (p + ucast (BaseByteOffset f)) (Memory s)"

lemma buffer_rd:
  assumes "field_ok f" "m < datums f (flen f + fstart f)"
  shows "\<exists>v. field_rd dispatch get_args slack allocated (Buffer_Field p) f (of_nat (m * fbytes f)) s = (AE_OK, v, s)
    \<and> (\<forall>k. bit v k \<longleftrightarrow> k < fwidth f \<and> buffer_bits p f s (m * fwidth f + k))"
  using read_datum [OF assms] datum_offset [OF assms]
  by (simp add: field_rd_def AcpiExFieldDatumIo_def Let_def fbytes_def [symmetric] buffer_bits_def del: of_nat_mult)

lemma buffer_wr:
  assumes "field_ok f" "m < datums f (flen f + fstart f)"
  shows "\<exists>s'. field_wr dispatch get_args slack allocated (Buffer_Field p) f (of_nat (m * fbytes f)) v s = (AE_OK, s')
    \<and> (\<forall>j. buffer_bits p f s' j \<longleftrightarrow> (if m * fwidth f \<le> j \<and> j < Suc m * fwidth f then bit v (j - m * fwidth f) else buffer_bits p f s j))"
  using write_datum [OF assms] datum_offset [OF assms]
  by (simp add: field_wr_def AcpiExFieldDatumIo_def Let_def fbytes_def [symmetric] buffer_bits_def del: of_nat_mult)

interpretation buffer: datum_store
  "field_rd dispatch get_args slack allocated (Buffer_Field p)" "field_wr dispatch get_args slack allocated (Buffer_Field p)"
  "proper f" "\<lambda>_. True" "buffer_bits p (proper f)"
  for dispatch get_args slack allocated p f
  by unfold_locales (simp only: proper_ok, rule buffer_rd, simp, simp, simp only: simp_thms, rule buffer_wr, simp, simp)

text \<open>Data table regions.\<close>

definition data_table_dispatch :: "addr \<Rightarrow> dispatch" where
  "data_table_dispatch MappingPointer rg f read off width v s =
     AcpiExDataTableSpaceHandler MappingPointer (if read then ACPI_READ else ACPI_WRITE) (rg_Address rg + ucast off) width v s"

definition region_bits :: "addr \<Rightarrow> field \<Rightarrow> world \<Rightarrow> nat \<Rightarrow> bool" where
  "region_bits r f s = mem_bit (rg_Address (Regions s r) + ucast (BaseByteOffset f)) (Memory s)"

definition fext :: "field \<Rightarrow> nat" where
  "fext f = unat (BaseByteOffset f) + datums f (flen f + fstart f) * fbytes f"

definition region_ok :: "addr \<Rightarrow> field \<Rightarrow> world \<Rightarrow> bool" where
  "region_ok r f s \<longleftrightarrow> rg_is_region (Regions s r) \<and> rg_valid (Regions s r) \<and> AcpiIsValidSpaceId (rg_SpaceId (Regions s r))
     \<and> fext f \<le> unat (rg_Length (Regions s r))"

lemma setup_ok:
  assumes "region_ok r f s" "field_ok f" "m < datums f (flen f + fstart f)"
  shows "AcpiExSetupRegion get_args slack f r (of_nat (m * fbytes f)) s = (AE_OK, s)"
    and "(ucast (BaseByteOffset f + of_nat (m * fbytes f)) :: u64) = ucast (BaseByteOffset f) + of_nat (m * fbytes f)"
proof -
  let ?L = "rg_Length (Regions s r)" and ?o = "of_nat (m * fbytes f) :: u32" and ?w = "ucast (AccessByteWidth f) :: u32"
  have "Suc m * fbytes f \<le> datums f (flen f + fstart f) * fbytes f" using assms(3) by (intro mult_right_mono) auto
  then have sum: "unat (BaseByteOffset f) + m * fbytes f + fbytes f \<le> unat ?L"
    using assms(1) by (simp add: region_ok_def fext_def)
  have o: "unat ?o = m * fbytes f" using datum_extent(2) [OF assms(2,3)] by (simp add: unat_of_nat_lt del: of_nat_mult)
  have w: "unat ?w = fbytes f" by (simp add: fbytes_def unat_byte_to_u32)
  have L: "unat ?L < 2 ^ 32" by (rule unat_lt32)
  have b: "unat (BaseByteOffset f + ?o) = unat (BaseByteOffset f) + m * fbytes f"
    using unat_add_nowrap [of "BaseByteOffset f" ?o] o sum L by simp
  then have "unat (BaseByteOffset f + ?o + ?w) = unat (BaseByteOffset f) + m * fbytes f + fbytes f"
    using unat_add_nowrap [of "BaseByteOffset f + ?o" ?w] w sum L by simp
  then have "\<not> ?L < BaseByteOffset f + ?o + ?w" using sum by (simp add: word_less_nat_alt)
  then show "AcpiExSetupRegion get_args slack f r ?o s = (AE_OK, s)"
    using assms(1) by (simp add: AcpiExSetupRegion_def region_ok_def Let_def del: of_nat_mult)
  show "(ucast (BaseByteOffset f + ?o) :: u64) = ucast (BaseByteOffset f) + of_nat (m * fbytes f)"
    unfolding ucast_u32 b by (simp only: of_nat_add)
qed

lemma access_ok:
  assumes ok: "field_ok f" and m: "m < datums f (flen f + fstart f)" and s: "region_ok r f s"
  shows "AcpiExAccessRegion (data_table_dispatch mp) get_args slack read f r (of_nat (m * fbytes f)) v s =
    AcpiExDataTableSpaceHandler mp (if read then ACPI_READ else ACPI_WRITE)
      (rg_Address (Regions s r) + ucast (BaseByteOffset f) + of_nat (m * fbytes f)) (ACPI_MUL_8 (AccessByteWidth f)) v s"
  using setup_ok(1) [OF s ok m] setup_ok(2) [OF s ok m]
  by (simp add: AcpiExAccessRegion_def data_table_dispatch_def add.assoc del: of_nat_mult)

lemma bytes_div_8: "field_ok f \<Longrightarrow> unat (drop_bit 3 (ACPI_MUL_8 (AccessByteWidth f))) = fbytes f"
  by (rule unat_mul_8_div) (use field_width(3) in \<open>simp add: fbytes_def\<close>)

lemma data_table_rd:
  assumes ok: "field_ok f" and s: "region_ok r f s" and m: "m < datums f (flen f + fstart f)"
  shows "\<exists>v. field_rd (data_table_dispatch mp) get_args slack allocated (Region_Field r) f (of_nat (m * fbytes f)) s = (AE_OK, v, s)
    \<and> (\<forall>k. bit v k \<longleftrightarrow> k < fwidth f \<and> region_bits r f s (m * fwidth f + k))"
  using read_datum [OF ok m, of "rg_Address (Regions s r) + ucast (BaseByteOffset f)"] access_ok [OF ok m s] bytes_div_8 [OF ok]
  by (simp add: add.assoc field_rd_def AcpiExFieldDatumIo_def AcpiExDataTableSpaceHandler_def Let_def region_bits_def del: of_nat_mult)

lemma data_table_wr:
  assumes ok: "field_ok f" and s: "region_ok r f s" and m: "m < datums f (flen f + fstart f)"
  shows "\<exists>s'. field_wr (data_table_dispatch mp) get_args slack allocated (Region_Field r) f (of_nat (m * fbytes f)) v s = (AE_OK, s')
    \<and> region_ok r f s' \<and> Regions s' = Regions s
    \<and> (\<forall>j. region_bits r f s' j \<longleftrightarrow> (if m * fwidth f \<le> j \<and> j < Suc m * fwidth f then bit v (j - m * fwidth f) else region_bits r f s j))"
  using write_datum [OF ok m, of "rg_Address (Regions s r) + ucast (BaseByteOffset f)"] access_ok [OF ok m s] bytes_div_8 [OF ok] s
  by (simp add: add.assoc field_wr_def AcpiExFieldDatumIo_def AcpiExDataTableSpaceHandler_def Let_def region_bits_def region_ok_def
      ACPI_READ_def ACPI_WRITE_def del: of_nat_mult)

interpretation data_table: datum_store
  "field_rd (data_table_dispatch mp) get_args slack allocated (Region_Field r)"
  "field_wr (data_table_dispatch mp) get_args slack allocated (Region_Field r)"
  "proper f" "\<lambda>s. region_ok r (proper f) s \<and> Regions s = R" "region_bits r (proper f)"
  for mp get_args slack allocated r f R
  by unfold_locales
    (simp only: proper_ok, rule data_table_rd, simp, simp, simp, metis (no_types, lifting) data_table_wr proper_ok)

lemma extract_8_returns: "length Buffer = 8 \<Longrightarrow> AcpiExExtractFromField rd f Buffer s \<noteq> None"
proof -
  assume len: "length Buffer = 8"
  have bytes: "unat (ACPI_ROUND_BITS_UP_TO_BYTES (ACPI_MUL_8 w)) = unat w" for w
  proof -
    have "unat (ACPI_MUL_8 w) = 8 * unat w"
      using unat_byte_to_u32 [of w] unat_lt8 [of w] by (simp add: ACPI_MUL_8_def push_bit_eq_mult unat_mult_lem [THEN iffD1])
    then have "unat (ACPI_MUL_8 w + 7) = 8 * unat w + 7"
      using unat_add_nowrap [of "ACPI_MUL_8 w" 7] unat_lt8 [of w] by simp
    then show ?thesis by (simp add: ACPI_ROUND_BITS_UP_TO_BYTES_def drop_bit_eq_div unat_div)
  qed
  then have "\<not> (\<not> length Buffer < unat (ACPI_ROUND_BITS_UP_TO_BYTES (BitLength f)) \<and> BitLength f = ACPI_MUL_8 (AccessByteWidth f)
      \<and> AccessByteWidth f > 8)"
    using len bytes [of "AccessByteWidth f"] by (auto simp: word_less_nat_alt)
  then show ?thesis unfolding AcpiExExtractFromField_def Let_def by (auto split: prod.split sum.split)
qed

text \<open>The registers of bank and index fields are region fields.\<close>

lemma region_accesses:
  "region_rd dispatch get_args slack r = field_rd dispatch get_args slack allocated (Region_Field r)"
  "region_wr dispatch get_args slack r = field_wr dispatch get_args slack allocated (Region_Field r)"
  by (intro ext; simp add: region_rd_def region_wr_def field_rd_def field_wr_def AcpiExFieldDatumIo_def)+

lemma bbit_bytes_of: "n \<le> 8 \<Longrightarrow> bbit (bytes_of n v) j \<longleftrightarrow> j < 8 * n \<and> bit v j"
proof -
  assume "n \<le> 8"
  have "j < 8 * n \<Longrightarrow> j div 8 < n" "\<not> j < 8 * n \<Longrightarrow> \<not> j div 8 < n" by linarith+
  moreover have "8 * (j div 8) + j mod 8 = j" by simp
  ultimately show ?thesis by (cases "j < 8 * n"; simp add: bbit_def bytes_of_def bit_unsigned_iff bit_drop_bit_eq less_mult_imp_div_less mult.commute)
qed

lemma register_in_range: "\<not> AcpiExRegisterOverflow f (ucast v) \<longleftrightarrow> flen f \<ge> 64 \<or> unat v < 2 ^ flen f" for v :: u32
proof -
  have v: "unat (ucast v :: u64) = unat v" unfolding ucast_u32 using unat_lt32 [of v] by (intro unat_of_nat_lt) simp
  have "unat (push_bit n 1 :: u64) = 2 ^ n" if "n < 64" for n
    using unat_of_nat_lt [of "2 ^ n", where 'a = 64] power_strict_increasing [OF that, of "2 :: nat"] by (simp add: push_bit_eq_mult)
  then show ?thesis
    by (auto simp: AcpiExRegisterOverflow_def ACPI_INTEGER_BIT_SIZE_def flen_def word_le_nat_alt v)
qed

lemma select_bank:
  assumes ok: "field_ok bank" "rule_ok bank" "region_ok br bank s"
  shows "\<exists>s'. AcpiExInsertIntoField (region_rd (data_table_dispatch mp) get_args slack br)
      (region_wr (data_table_dispatch mp) get_args slack br) True bank (bytes_of 4 v) s = (AE_OK, bank, s')
    \<and> Regions s' = Regions s \<and> (\<forall>q. region_bits br bank s' q \<longleftrightarrow> written_bit bank (bbit (bytes_of 4 v)) (region_bits br bank s) q)"
  unfolding region_accesses [where allocated = True]
  using data_table.insert_spec [where f = bank and R = "Regions s", unfolded proper_id [OF ok(1)]] ok by blast

section \<open>Limits of a region\<close>

text \<open>The number of bytes that an access may use: the length, with slack rounded up to the access width.\<close>

definition region_limit :: "bool \<Rightarrow> nat \<Rightarrow> nat \<Rightarrow> nat" where
  "region_limit slack w n = (if slack then (n + (w - 1)) div w * w else n)"

lemma region_limit_ge: "0 < w \<Longrightarrow> n \<le> region_limit slack w n"
proof -
  assume w: "0 < w"
  have "(n + (w - 1)) div w * w + (n + (w - 1)) mod w = n + (w - 1)" by simp
  moreover have "(n + (w - 1)) mod w < w" using w by simp
  ultimately have "n \<le> (n + (w - 1)) div w * w" using w by linarith
  then show ?thesis unfolding region_limit_def by simp
qed

lemma and_not_mask: "x AND NOT (mask k) = push_bit k (drop_bit k x)" for x :: u64
  by (rule bit_word_eqI) (auto simp: bit_and_iff bit_not_iff bit_mask_iff bit_push_bit_iff bit_drop_bit_eq)

lemma of_nat_unat_id: "of_nat (unat x) = x" for x :: u64
  by simp

lemma unat_round_up:
  assumes "w = 2 ^ k" "k \<le> 3" "unat L < 2 ^ 32"
  shows "unat (ACPI_ROUND_UP L (of_nat w)) = (unat L + (w - 1)) div w * w"
proof -
  have "(of_nat w :: u64) - 1 = mask k" unfolding assms(1) by (simp add: mask_eq_exp_minus_1)
  then have r: "ACPI_ROUND_UP L (of_nat w) = push_bit k (drop_bit k (L + mask k))" by (simp add: ACPI_ROUND_UP_def and_not_mask)
  have w: "w \<le> 8" unfolding assms(1) using power_increasing [OF assms(2), of "2 :: nat"] by simp
  have "(mask k :: u64) = of_nat (w - 1)" unfolding assms(1) by (simp add: mask_eq_exp_minus_1 of_nat_diff)
  then have m: "unat (mask k :: u64) = w - 1" using w by (simp add: unat_of_nat_lt)
  have "unat (L + mask k) = unat L + (w - 1)" using unat_add_nowrap [of L "mask k"] m w assms(3) by simp
  then have "unat (drop_bit k (L + mask k)) = (unat L + (w - 1)) div w"
    unfolding unat_drop_bit_eq assms(1) by (simp only: drop_bit_eq_div)
  then have "drop_bit k (L + mask k) = of_nat ((unat L + (w - 1)) div w)"
    by (metis of_nat_unat_id)
  then have "ACPI_ROUND_UP L (of_nat w) = of_nat ((unat L + (w - 1)) div w * w)"
    unfolding r by (simp add: push_bit_eq_mult assms(1))
  moreover have "(unat L + (w - 1)) div w * w \<le> unat L + (w - 1)" by simp
  then have "(unat L + (w - 1)) div w * w < 2 ^ 64" by (rule le_less_trans) (use w assms(3) in simp)
  then have "unat (of_nat ((unat L + (w - 1)) div w * w) :: u64) = (unat L + (w - 1)) div w * w"
    by (intro unat_of_nat_lt) simp
  ultimately show ?thesis by (simp only:)
qed

lemma access_width_power: "fbytes f \<in> {1, 2, 4, 8} \<Longrightarrow> \<exists>k\<le>3. fbytes f = 2 ^ k"
  by (auto intro: exI [of _ 0] exI [of _ 1] exI [of _ 2] exI [of _ 3])

text \<open>The comparison of \<open>AcpiExSetupRegion\<close> for a region of any length, on natural numbers.\<close>

lemma length_check:
  assumes w: "fbytes f \<in> {1, 2, 4, 8}" and nowrap: "unat (BaseByteOffset f) + unat off + fbytes f < 2 ^ 32"
  shows "(L < BaseByteOffset f + off + ucast (AccessByteWidth f) \<and>
      \<not> (slack \<and> ACPI_ROUND_UP (ucast L) (ucast (AccessByteWidth f)) \<ge> ucast (BaseByteOffset f) + ucast (AccessByteWidth f) + ucast off))
    \<longleftrightarrow> \<not> unat (BaseByteOffset f) + unat off + fbytes f \<le> region_limit slack (fbytes f) (unat L)"
proof -
  let ?w = "ucast (AccessByteWidth f) :: u32" and ?w' = "ucast (AccessByteWidth f) :: u64"
  let ?sum = "unat (BaseByteOffset f) + unat off + fbytes f"
  have uw: "unat ?w = fbytes f" by (simp add: fbytes_def unat_byte_to_u32)
  have "unat (BaseByteOffset f + off) = unat (BaseByteOffset f) + unat off"
    using unat_add_nowrap [of "BaseByteOffset f" off] nowrap by simp
  then have "unat (BaseByteOffset f + off + ?w) = ?sum"
    using unat_add_nowrap [of "BaseByteOffset f + off" ?w] uw nowrap by simp
  then have less: "L < BaseByteOffset f + off + ?w \<longleftrightarrow> unat L < ?sum" by (simp add: word_less_nat_alt)
  have w': "?w' = of_nat (fbytes f)" by (simp add: fbytes_def)
  have "ucast (BaseByteOffset f) + ?w' + ucast off = of_nat (unat (BaseByteOffset f) + fbytes f + unat off)"
    unfolding w' ucast_u32 by (simp only: of_nat_add)
  then have sum64: "unat (ucast (BaseByteOffset f) + ?w' + ucast off) = ?sum"
    using nowrap by (simp add: unat_of_nat_lt del: of_nat_add)
  obtain k where k: "k \<le> 3" "fbytes f = 2 ^ k" using access_width_power [OF w] by blast
  have "unat (ucast L :: u64) = unat L" using unat_lt32 [of L] unfolding ucast_u32 by (intro unat_of_nat_lt) simp
  then have "unat (ACPI_ROUND_UP (ucast L) ?w') = (unat L + (fbytes f - 1)) div fbytes f * fbytes f"
    using unat_round_up [OF k(2,1), of "ucast L"] unat_lt32 [of L] by (simp add: w')
  then have ge: "ACPI_ROUND_UP (ucast L) ?w' \<ge> ucast (BaseByteOffset f) + ?w' + ucast off \<longleftrightarrow> ?sum \<le> region_limit True (fbytes f) (unat L)"
    by (simp only: word_le_nat_alt sum64 region_limit_def if_True)
  have "0 < fbytes f" using w by auto
  then show ?thesis unfolding less ge using region_limit_ge [of "fbytes f" "unat L" True] by (auto simp: region_limit_def)
qed

section \<open>Fields in memory\<close>

text \<open>A field of 12 bits from bit 3 on, in bytes, and a data table region of 16 bytes for the examples.\<close>

definition sample_field :: field where
  "sample_field = \<lparr>FieldFlags = 0, AccessByteWidth = 1, BitLength = 12, BaseByteOffset = 2, FieldValue = 0, StartFieldBitOffset = 3\<rparr>"

definition sample_world :: world where
  "sample_world = \<lparr>Memory = (\<lambda>_. 0x55), Regions = (\<lambda>_. \<lparr>rg_is_region = True, rg_SpaceId = ACPI_ADR_SPACE_DATA_TABLE,
     rg_Address = 0x1000, rg_Length = 16, rg_valid = True\<rparr>)\<rparr>"

lemma sample_ok: "field_ok sample_field" "rule_ok sample_field" "region_ok r sample_field sample_world"
  by (simp_all add: sample_field_def sample_world_def field_ok_def rule_ok_def region_ok_def update_rule_def fext_def fbytes_def
      fwidth_def fstart_def flen_def datums_def AcpiIsValidSpaceId_def ACPI_ADR_SPACE_DATA_TABLE_def ACPI_NUM_PREDEFINED_REGIONS_def
      ACPI_USER_REGION_BEGIN_def AML_FIELD_UPDATE_PRESERVE_def)

lemma sample_room: "(flen sample_field + 7) div 8 \<le> length [0, 0, 0, 0 :: u8]"
  by (simp add: sample_field_def flen_def)

text \<open>
  A write to a buffer field succeeds and determines every bit of the memory: the bits of the field
  are the bits of the source buffer, extended by zeros, the other bits of the datums of the field follow its update rule (kept, ones
  or zeros), and nothing else changes.
\<close>

theorem buffer_field_write:
  assumes "field_ok f" "rule_ok f" and "allocated \<or> (flen f + 7) div 8 \<le> length Buffer"
  shows "\<exists>s'. AcpiExInsertIntoField (field_rd dispatch get_args slack allocated (Buffer_Field p))
        (field_wr dispatch get_args slack allocated (Buffer_Field p)) allocated f Buffer s = (AE_OK, f, s')
    \<and> (\<forall>q. buffer_bits p f s' q \<longleftrightarrow> written_bit f (bbit Buffer) (buffer_bits p f s) q)"
  using buffer.insert_spec [where f = f, unfolded proper_id [OF assms(1)]] assms by blast

theorem buffer_field_write_witness:
  "field_ok sample_field \<and> rule_ok sample_field \<and>
   (\<exists>s'. AcpiExInsertIntoField (field_rd (data_table_dispatch 0) (Pair AE_OK) False True (Buffer_Field 0x100))
        (field_wr (data_table_dispatch 0) (Pair AE_OK) False True (Buffer_Field 0x100)) True sample_field [0xA5, 0x0F] sample_world
      = (AE_OK, sample_field, s')
    \<and> (\<forall>q. buffer_bits 0x100 sample_field s' q
          \<longleftrightarrow> written_bit sample_field (bbit [0xA5, 0x0F]) (buffer_bits 0x100 sample_field sample_world) q))"
  using sample_ok buffer_field_write [of sample_field True "[0xA5, 0x0F]"] by blast

text \<open>
  C25. A field of a data table region reads back what was written to it, through the region check and the
  region handler: a write followed by a read into a buffer that is long enough returns the bits of the source
  buffer up to the length of the field, and zeros behind them.
\<close>

theorem region_field_roundtrip:
  assumes "field_ok f" "rule_ok f" "region_ok r f s"
    and "allocated \<or> (flen f + 7) div 8 \<le> length Buffer" and "(flen f + 7) div 8 \<le> length Out"
  shows "\<exists>s' B. AcpiExInsertIntoField (field_rd (data_table_dispatch mp) get_args slack allocated (Region_Field r))
        (field_wr (data_table_dispatch mp) get_args slack allocated (Region_Field r)) allocated f Buffer s = (AE_OK, f, s')
    \<and> AcpiExExtractFromField (field_rd (data_table_dispatch mp) get_args slack allocated (Region_Field r)) f Out s' = Some (AE_OK, B, f, s')
    \<and> length B = length Out \<and> (\<forall>j. bbit B j \<longleftrightarrow> j < flen f \<and> bbit Buffer j)"
  using data_table.insert_extract [where f = f, unfolded proper_id [OF assms(1)]] assms by blast

theorem region_field_roundtrip_witness:
  "region_ok 1 sample_field sample_world \<and>
   (\<exists>s' B. AcpiExInsertIntoField (field_rd (data_table_dispatch 0x1000) (Pair AE_OK) False True (Region_Field 1))
        (field_wr (data_table_dispatch 0x1000) (Pair AE_OK) False True (Region_Field 1)) True sample_field [0xA5, 0x0F] sample_world
      = (AE_OK, sample_field, s')
    \<and> AcpiExExtractFromField (field_rd (data_table_dispatch 0x1000) (Pair AE_OK) False True (Region_Field 1)) sample_field
          [0, 0, 0, 0] s' = Some (AE_OK, B, sample_field, s')
    \<and> length B = length [0, 0, 0, 0 :: u8] \<and> (\<forall>j. bbit B j \<longleftrightarrow> j < flen sample_field \<and> bbit [0xA5, 0x0F] j))"
  using sample_ok sample_room region_field_roundtrip [of sample_field 1 sample_world True "[0xA5, 0x0F]" "[0, 0, 0, 0]"] by blast

text \<open>
  C29. A read of one datum of a bank field writes the bank value to the bank register first: in the state the read ends
  with, the register holds the bank value, and the result is the content of the datum in that state.
  A bank value that the register cannot hold is refused before anything is accessed. The bank field and the bank
  register are fields of data table regions that are evaluated and long enough (\<open>region_ok\<close>), so that their contents are
  the bytes of the memory behind the regions; the register's writes have an effect on the datum only where the two overlap.
\<close>

theorem bank_field_read:
  assumes "field_ok f" "region_ok r f s" "m < datums f (flen f + fstart f)"
    and "field_ok bank" "rule_ok bank" "region_ok br bank s"
  shows "if flen bank < 64 \<and> unat (FieldValue f) \<ge> 2 ^ flen bank
    then AcpiExFieldDatumIo (data_table_dispatch mp) get_args slack True True (Bank_Field r bank br) f (of_nat (m * fbytes f)) v s
      = (AE_AML_REGISTER_LIMIT, 0, s)
    else \<exists>d s'. AcpiExFieldDatumIo (data_table_dispatch mp) get_args slack True True (Bank_Field r bank br) f (of_nat (m * fbytes f)) v s
        = (AE_OK, d, s')
      \<and> (\<forall>j<flen bank. region_bits br bank s' (fstart bank + j) \<longleftrightarrow> bit (FieldValue f) j)
      \<and> (\<forall>k. bit d k \<longleftrightarrow> k < fwidth f \<and> region_bits r f s' (m * fwidth f + k))"
proof (cases "AcpiExRegisterOverflow bank (ucast (FieldValue f))")
  case True
  then have "AcpiExFieldDatumIo (data_table_dispatch mp) get_args slack True True (Bank_Field r bank br) f (of_nat (m * fbytes f)) v s
      = (AE_AML_REGISTER_LIMIT, 0, s)" by (simp add: AcpiExFieldDatumIo_def)
  then show ?thesis using True register_in_range [of bank "FieldValue f"] by simp
next
  case False
  let ?bytes = "bytes_of 4 (ucast (FieldValue f))"
  obtain s' where s': "AcpiExInsertIntoField (region_rd (data_table_dispatch mp) get_args slack br)
        (region_wr (data_table_dispatch mp) get_args slack br) True bank ?bytes s = (AE_OK, bank, s')"
      "Regions s' = Regions s" "\<And>q. region_bits br bank s' q \<longleftrightarrow> written_bit bank (bbit ?bytes) (region_bits br bank s) q"
    using select_bank [OF assms(4-6)] by blast
  have ok: "region_ok r f s'" using assms(2) s'(2) by (simp add: region_ok_def)
  obtain d where d: "field_rd (data_table_dispatch mp) get_args slack True (Region_Field r) f (of_nat (m * fbytes f)) s' = (AE_OK, d, s')"
      "\<forall>k. bit d k \<longleftrightarrow> k < fwidth f \<and> region_bits r f s' (m * fwidth f + k)"
    using data_table_rd [OF assms(1) ok assms(3)] by blast
  have "AcpiExFieldDatumIo (data_table_dispatch mp) get_args slack True True (Bank_Field r bank br) f (of_nat (m * fbytes f)) v s = (AE_OK, d, s')"
    using False s'(1) d(1) by (simp add: AcpiExFieldDatumIo_def field_rd_def del: of_nat_mult)
  moreover have "region_bits br bank s' (fstart bank + j) \<longleftrightarrow> bit (FieldValue f) j" if "j < flen bank" for j
    using s'(3) [of "fstart bank + j"] that bit_imp_le_length [of "FieldValue f" j]
    by (auto simp: written_bit_def bbit_bytes_of bit_unsigned_iff)
  ultimately show ?thesis using d(2) False register_in_range [of bank "FieldValue f"] by auto
qed

theorem bank_field_read_witness:
  "\<exists>d s'. AcpiExFieldDatumIo (data_table_dispatch 0x1000) (Pair AE_OK) False True True (Bank_Field 1 sample_field 2) sample_field
        (of_nat (1 * fbytes sample_field)) 0 sample_world = (AE_OK, d, s')
      \<and> (\<forall>j<flen sample_field. region_bits 2 sample_field s' (fstart sample_field + j) \<longleftrightarrow> bit (FieldValue sample_field) j)
      \<and> (\<forall>k. bit d k \<longleftrightarrow> k < fwidth sample_field \<and> region_bits 1 sample_field s' (1 * fwidth sample_field + k))"
proof -
  have "1 < datums sample_field (flen sample_field + fstart sample_field)" "\<not> unat (FieldValue sample_field) \<ge> 2 ^ flen sample_field"
    by (simp_all add: sample_field_def datums_def fwidth_def fbytes_def flen_def fstart_def)
  then show ?thesis
    using bank_field_read [OF sample_ok(1) sample_ok(3) [of 1] _ sample_ok(1,2) sample_ok(3) [of 2], of 1] by auto
qed

text \<open>
  C30. An access to a datum of a region, on every branch: an object that is not a region and an address space that is
  not known are refused; arguments of the region that are not yet evaluated are evaluated, and their failure is returned. The handler is then
  reached, with the evaluated region, exactly if the region is one of SMBus, GSBus or IPMI, whose accesses the code does not check, or if the datum
  ends within the region, or, in slack mode, within its length rounded up to the access width; otherwise the access fails with the
  region limit error, and only the evaluation of the arguments remains. The end of the datum is one that the 32 bit
  sum of the code can hold, and the access width one of 1, 2, 4 and 8 bytes.
\<close>

definition checked_region :: "get_args \<Rightarrow> region \<Rightarrow> acpi_status \<times> region" where
  "checked_region get_args rg = (if rg_valid rg then (AE_OK, rg) else get_args rg)"

definition within_region :: "bool \<Rightarrow> field \<Rightarrow> u32 \<Rightarrow> region \<Rightarrow> bool" where
  "within_region slack f off rg \<longleftrightarrow> unat (BaseByteOffset f) + unat off + fbytes f \<le> region_limit slack (fbytes f) (unat (rg_Length rg))"

theorem region_access_in_bounds:
  assumes "fbytes f \<in> {1, 2, 4, 8}" "unat (BaseByteOffset f) + unat off + fbytes f < 2 ^ 32"
    and "Regions s r = rg" "checked_region get_args rg = (st, rg')" "s' = s\<lparr>Regions := (Regions s)(r := rg')\<rparr>"
  shows "AcpiExAccessRegion dispatch get_args slack read f r off v s =
    (if \<not> rg_is_region rg then (AE_AML_OPERAND_TYPE, v, s)
     else if \<not> AcpiIsValidSpaceId (rg_SpaceId rg) then (AE_AML_INVALID_SPACE_ID, v, s)
     else if ACPI_FAILURE st then (st, v, s')
     else if rg_SpaceId rg \<in> {ACPI_ADR_SPACE_SMBUS, ACPI_ADR_SPACE_GSBUS, ACPI_ADR_SPACE_IPMI} \<or> within_region slack f off rg'
     then dispatch rg' f read (BaseByteOffset f + off) (ACPI_MUL_8 (AccessByteWidth f)) v s'
     else (AE_AML_REGION_LIMIT, v, s'))"
  using assms(3-5) length_check [OF assms(1,2), of "rg_Length rg'" slack]
  by (auto simp: AcpiExAccessRegion_def AcpiExSetupRegion_def checked_region_def within_region_def Let_def
      ACPI_FAILURE_def split: if_splits)

theorem region_access_in_bounds_witness:
  "AcpiExAccessRegion (data_table_dispatch 0x1000) (\<lambda>rg. (AE_OK, rg\<lparr>rg_Length := 15, rg_valid := True\<rparr>)) False True sample_field 1 13 0
      (sample_world\<lparr>Regions := (\<lambda>_. Regions sample_world 0\<lparr>rg_Length := 0, rg_valid := False\<rparr>)\<rparr>)
    = (AE_AML_REGION_LIMIT, 0, sample_world\<lparr>Regions := (\<lambda>_. Regions sample_world 0\<lparr>rg_Length := 0, rg_valid := False\<rparr>)
        (1 := Regions sample_world 0\<lparr>rg_Length := 15, rg_valid := True\<rparr>)\<rparr>)"
  by (subst region_access_in_bounds [OF _ _ refl _ refl, of _ _ _ _ _ AE_OK "Regions sample_world 0\<lparr>rg_Length := 15, rg_valid := True\<rparr>"])
    (simp_all add: sample_field_def sample_world_def fbytes_def checked_region_def within_region_def region_limit_def AcpiIsValidSpaceId_def
      ACPI_ADR_SPACE_DATA_TABLE_def ACPI_NUM_PREDEFINED_REGIONS_def ACPI_USER_REGION_BEGIN_def ACPI_ADR_SPACE_SMBUS_def
      ACPI_ADR_SPACE_GSBUS_def ACPI_ADR_SPACE_IPMI_def ACPI_FAILURE_def)

end
