(* ===== verification/FieldPrep.thy ===== *)
theory FieldPrep
  imports FieldRegion
begin

text \<open>
  Creation of field descriptors: \<open>AcpiExDecodeFieldAccess\<close> and \<open>AcpiExPrepCommonFieldObject\<close> of
  \<^verbatim>\<open>components/executer/exprep.c\<close>, in the build without \<open>ACPI_UNDER_DEVELOPMENT\<close>. They turn the position and the
  length of a field, in bits, into the access width, the offset of the first datum and the first bit within it. Every
  descriptor they make of a field of 1 to \<open>2 ^ 32 - 129\<close> bits is well-formed in the sense of the access routines, and an access
  through it to a buffer reaches the bits the declaration of the field names. What \<open>AcpiExPrepFieldValue\<close> does around them,
  the wider access width of fields in embedded controller regions included, is not modelled.
\<close>

section \<open>Definitions\<close>

definition AML_FIELD_ACCESS_TYPE_MASK :: u8 where "AML_FIELD_ACCESS_TYPE_MASK = 0x0F"
definition AML_FIELD_ACCESS_ANY :: u8 where "AML_FIELD_ACCESS_ANY = 0x00"
definition AML_FIELD_ACCESS_BYTE :: u8 where "AML_FIELD_ACCESS_BYTE = 0x01"
definition AML_FIELD_ACCESS_WORD :: u8 where "AML_FIELD_ACCESS_WORD = 0x02"
definition AML_FIELD_ACCESS_DWORD :: u8 where "AML_FIELD_ACCESS_DWORD = 0x03"
definition AML_FIELD_ACCESS_QWORD :: u8 where "AML_FIELD_ACCESS_QWORD = 0x04"
definition AML_FIELD_ACCESS_BUFFER :: u8 where "AML_FIELD_ACCESS_BUFFER = 0x05"

definition ACPI_DIV_8 :: "u32 \<Rightarrow> u32" where "ACPI_DIV_8 a = drop_bit 3 a"

definition ACPI_ROUND_DOWN :: "u64 \<Rightarrow> u64 \<Rightarrow> u64" where
  "ACPI_ROUND_DOWN value boundary = value AND NOT (boundary - 1)"

text \<open>The result is the width in bits, 0 for an invalid type, and the value of the out parameter \<open>ReturnByteAlignment\<close>.\<close>

definition AcpiExDecodeFieldAccess :: "bool \<Rightarrow> u8 \<Rightarrow> u32 \<Rightarrow> u32 \<times> u32" where
  "AcpiExDecodeFieldAccess is_buffer_field Flags ReturnByteAlignment =
     (let Access = Flags AND AML_FIELD_ACCESS_TYPE_MASK;
          decoded = (if Access = AML_FIELD_ACCESS_ANY then Some (1, 8)
                     else if Access = AML_FIELD_ACCESS_BYTE \<or> Access = AML_FIELD_ACCESS_BUFFER then Some (1, 8)
                     else if Access = AML_FIELD_ACCESS_WORD then Some (2, 16)
                     else if Access = AML_FIELD_ACCESS_DWORD then Some (4, 32)
                     else if Access = AML_FIELD_ACCESS_QWORD then Some (8, 64)
                     else None)
      in case decoded of
           None \<Rightarrow> (0, ReturnByteAlignment)
         | Some (ByteAlignment, Width) \<Rightarrow> (Width, if is_buffer_field then 1 else ByteAlignment))"

text \<open>
  The descriptor's \<open>Attribute\<close> is stored by the code and used by serial buses only; it is not part of the record.
  \<open>ByteAlignment\<close> is the value of the local variable before the call, which the code never reads.
\<close>

definition AcpiExPrepCommonFieldObject ::
  "bool \<Rightarrow> u32 \<Rightarrow> field \<Rightarrow> u8 \<Rightarrow> u32 \<Rightarrow> u32 \<Rightarrow> acpi_status \<times> field" where
  "AcpiExPrepCommonFieldObject is_buffer_field ByteAlignment f Flags FieldBitPosition FieldBitLength =
     (let f = f\<lparr>FieldFlags := Flags, BitLength := FieldBitLength\<rparr>;
          (AccessBitWidth, ByteAlignment) = AcpiExDecodeFieldAccess is_buffer_field Flags ByteAlignment
      in if AccessBitWidth = 0 then (AE_AML_OPERAND_VALUE, f)
         else let f = f\<lparr>AccessByteWidth := ucast (ACPI_DIV_8 AccessBitWidth)\<rparr>;
                  NearestByteAddress = ACPI_DIV_8 FieldBitPosition;
                  f = f\<lparr>BaseByteOffset := ucast (ACPI_ROUND_DOWN (ucast NearestByteAddress) (ucast ByteAlignment))\<rparr>;
                  f = f\<lparr>StartFieldBitOffset := ucast (FieldBitPosition - push_bit 3 (BaseByteOffset f))\<rparr>
              in (AE_OK, f))"

section \<open>The position of the field\<close>

text \<open>The access width in bytes of the flags, 0 if they are invalid.\<close>

definition access_bytes :: "u8 \<Rightarrow> nat" where
  "access_bytes Flags = (let a = unat (Flags AND AML_FIELD_ACCESS_TYPE_MASK) in
     if a \<in> {0, 1, 5} then 1 else if a = 2 then 2 else if a = 3 then 4 else if a = 4 then 8 else 0)"

definition alignment :: "bool \<Rightarrow> u8 \<Rightarrow> nat" where
  "alignment is_buffer_field Flags = (if is_buffer_field then 1 else access_bytes Flags)"

lemma access_type_cases:
  "access_bytes Flags = 0 \<and> AcpiExDecodeFieldAccess b Flags ba = (0, ba)
   \<or> (\<exists>k\<le>3. access_bytes Flags = 2 ^ k
        \<and> AcpiExDecodeFieldAccess b Flags ba = (of_nat (8 * 2 ^ k), if b then 1 else of_nat (2 ^ k)))"
proof -
  define a where "a = Flags AND AML_FIELD_ACCESS_TYPE_MASK"
  have a: "(a = AML_FIELD_ACCESS_ANY) = (unat a = 0)" "(a = AML_FIELD_ACCESS_BYTE) = (unat a = 1)" "(a = AML_FIELD_ACCESS_WORD) = (unat a = 2)"
      "(a = AML_FIELD_ACCESS_DWORD) = (unat a = 3)" "(a = AML_FIELD_ACCESS_QWORD) = (unat a = 4)" "(a = AML_FIELD_ACCESS_BUFFER) = (unat a = 5)"
    by (simp_all add: AML_FIELD_ACCESS_ANY_def AML_FIELD_ACCESS_BYTE_def AML_FIELD_ACCESS_WORD_def AML_FIELD_ACCESS_DWORD_def
        AML_FIELD_ACCESS_QWORD_def AML_FIELD_ACCESS_BUFFER_def word_eq_iff_unsigned [where ?'a = nat])
  show ?thesis
    unfolding access_bytes_def AcpiExDecodeFieldAccess_def a_def [symmetric] a Let_def
    by (auto intro: exI [of _ 0] exI [of _ 1] exI [of _ 2] exI [of _ 3])
qed

lemma unat_div_8: "unat (ACPI_DIV_8 x) = unat x div 8"
  by (simp add: ACPI_DIV_8_def drop_bit_eq_div unat_div)

lemma unat_ucast_u32: "unat (ucast x :: u64) = unat x" for x :: u32
  unfolding ucast_u32 using unat_lt32 [of x] by (intro unat_of_nat_lt) simp

lemma round_down:
  fixes x :: u32
  assumes "k \<le> 3"
  shows "unat (ucast (ACPI_ROUND_DOWN (ucast x) (of_nat (2 ^ k))) :: u32) = unat x div 2 ^ k * 2 ^ k"
proof -
  have "(of_nat (2 ^ k) :: u64) - 1 = mask k" by (simp add: mask_eq_exp_minus_1)
  then have "ACPI_ROUND_DOWN (ucast x) (of_nat (2 ^ k)) = push_bit k (drop_bit k (ucast x))"
    by (simp only: ACPI_ROUND_DOWN_def and_not_mask)
  moreover have "drop_bit k (ucast x :: u64) = of_nat (unat x div 2 ^ k)"
    by (metis of_nat_unat_id unat_drop_bit_eq drop_bit_eq_div unat_ucast_u32)
  ultimately have "ACPI_ROUND_DOWN (ucast x) (of_nat (2 ^ k)) = of_nat (unat x div 2 ^ k * 2 ^ k)"
    by (simp add: push_bit_eq_mult)
  moreover have "(ucast (of_nat n :: u64) :: u32) = of_nat n" for n
    by (rule bit_word_eqI) (simp add: bit_unsigned_iff bit_of_nat_iff)
  moreover have "unat x div 2 ^ k * 2 ^ k < 2 ^ 32" using unat_lt32 [of x] by (meson div_times_less_eq_dividend le_less_trans)
  then have "unat (of_nat (unat x div 2 ^ k * 2 ^ k) :: u32) = unat x div 2 ^ k * 2 ^ k" by (intro unat_of_nat_lt) simp
  ultimately show ?thesis by (simp only:)
qed

lemma le3_cases: "k \<le> 3 \<Longrightarrow> k = 0 \<or> k = 1 \<or> k = 2 \<or> k = (3 :: nat)"
  by auto

lemma prep_ok:
  assumes "access_bytes Flags \<noteq> 0"
  obtains f' where "AcpiExPrepCommonFieldObject b ba f Flags Pos Len = (AE_OK, f')"
    and "FieldFlags f' = Flags" "flen f' = unat Len" "fbytes f' = access_bytes Flags"
    and "unat (BaseByteOffset f') = unat Pos div 8 div alignment b Flags * alignment b Flags"
    and "8 * unat (BaseByteOffset f') + fstart f' = unat Pos" and "fstart f' < 8 * alignment b Flags"
proof -
  obtain k where k: "k \<le> 3" "access_bytes Flags = 2 ^ k"
      and d: "AcpiExDecodeFieldAccess b Flags ba = (of_nat (8 * 2 ^ k), if b then 1 else of_nat (2 ^ k))"
    using access_type_cases [of Flags b ba] assms by auto
  define l where "l = (if b then 0 else k)"
  have l: "l \<le> 3" "alignment b Flags = 2 ^ l" using k by (auto simp: l_def alignment_def)
  have "2 ^ k \<le> (8 :: nat)" "2 ^ l \<le> (8 :: nat)" using power_increasing [OF k(1), of "2 :: nat"] power_increasing [OF l(1), of "2 :: nat"] by simp_all
  define base where "base = (ucast (ACPI_ROUND_DOWN (ucast (ACPI_DIV_8 Pos)) (of_nat (2 ^ l))) :: u32)"
  have base: "unat base = unat Pos div 8 div 2 ^ l * 2 ^ l" using round_down [OF l(1), of "ACPI_DIV_8 Pos"] by (simp only: base_def unat_div_8)
  define start where "start = Pos - push_bit 3 base"
  have "unat Pos div 8 = unat base + unat Pos div 8 mod 2 ^ l" unfolding base by (rule div_mult_mod_eq [symmetric])
  moreover have "unat Pos div 8 mod 2 ^ l < 2 ^ l" by simp
  moreover have "unat Pos = 8 * (unat Pos div 8) + unat Pos mod 8" "unat Pos mod 8 < 8" by simp_all
  ultimately have pos: "8 * unat base \<le> unat Pos" "unat Pos - 8 * unat base < 8 * 2 ^ l" by linarith+
  have unat8: "unat (push_bit 3 base) = 8 * unat base"
    using pos(1) unat_lt32 [of Pos] by (simp add: push_bit_eq_mult unat_mult_lem [THEN iffD1])
  then have start: "unat start = unat Pos - 8 * unat base"
    using unat_sub_le [of "push_bit 3 base" Pos] pos(1) by (simp add: start_def word_le_nat_alt)
  then have "unat start < 256" using pos(2) \<open>2 ^ l \<le> 8\<close> by linarith
  then have start8: "unat (ucast start :: u8) = unat start" by (simp add: unsigned_ucast_eq take_bit_nat_eq_self)
  let ?f = "f\<lparr>FieldFlags := Flags, BitLength := Len, AccessByteWidth := of_nat (2 ^ k), BaseByteOffset := base, StartFieldBitOffset := ucast start\<rparr>"
  have w: "ucast (ACPI_DIV_8 (of_nat (8 * 2 ^ k))) = (of_nat (2 ^ k) :: u8)" "(of_nat (8 * 2 ^ k) :: u32) \<noteq> 0"
    using le3_cases [OF k(1)] by (auto simp: ACPI_DIV_8_def)
  have "(if b then 1 else of_nat (2 ^ k) :: u32) = of_nat (2 ^ l)" by (simp add: l_def)
  moreover have "(ucast (of_nat (2 ^ l) :: u32) :: u64) = of_nat (2 ^ l)" using le3_cases [OF l(1)] by auto
  ultimately have "AcpiExPrepCommonFieldObject b ba f Flags Pos Len = (AE_OK, ?f)"
    unfolding AcpiExPrepCommonFieldObject_def Let_def d prod.case if_not_P [OF w(2)] w(1)
    by (simp add: base_def start_def)
  then show ?thesis
    using that [of ?f] k l base start start8 pos \<open>2 ^ k \<le> 8\<close>
    by (simp add: flen_def fbytes_def fstart_def unat_of_nat_lt del: of_nat_power)
qed

lemma prep_invalid:
  "access_bytes Flags = 0 \<Longrightarrow> fst (AcpiExPrepCommonFieldObject b ba f Flags Pos Len) = AE_AML_OPERAND_VALUE"
  using access_type_cases [of Flags b ba] by (auto simp: AcpiExPrepCommonFieldObject_def Let_def)

lemma access_bytes_values: "access_bytes Flags \<in> {0, 1, 2, 4, 8}"
  by (auto simp: access_bytes_def Let_def)

lemma prep_field_ok:
  assumes "fbytes f = access_bytes Flags" "access_bytes Flags \<noteq> 0" "fstart f < 8 * alignment b Flags" "0 < flen f" "flen f + 128 < 2 ^ 32"
  shows "field_ok f"
proof -
  have "alignment b Flags \<le> access_bytes Flags" using assms(2) by (simp add: alignment_def)
  then have "fstart f < fwidth f" using assms(1,3) by (simp add: fwidth_def)
  then show ?thesis using access_bytes_values [of Flags] assms by (auto simp: field_ok_def)
qed

section \<open>Memory seen from another address\<close>

definition rel_bit :: "nat \<Rightarrow> nat \<Rightarrow> nat" where
  "rel_bit b i = (if 8 * b \<le> i then i - 8 * b else 2 ^ 67 + i - 8 * b)"

lemma mem_bit_shift:
  assumes "i < 2 ^ 67" "b < 2 ^ 32"
  shows "mem_bit p m i \<longleftrightarrow> mem_bit (p + of_nat b) m (rel_bit b i)"
proof -
  obtain q r where i: "i = 8 * q + r" and r: "r < (8 :: nat)" by (rule byte_and_bit)
  have "(of_nat b + of_nat (rel_bit b i div 8) :: u64) = of_nat q \<and> rel_bit b i mod 8 = r \<and> rel_bit b i < 2 ^ 67"
  proof (cases "b \<le> q")
    case True
    then have "rel_bit b i = 8 * (q - b) + r" using r by (auto simp: rel_bit_def i)
    then show ?thesis using True r assms(1) by (simp add: i of_nat_diff)
  next
    case False
    then have "rel_bit b i = 8 * (2 ^ 64 + q - b) + r" using r assms(2) by (auto simp: rel_bit_def i)
    moreover have "(of_nat (2 ^ 64 + q - b) :: u64) = of_nat q - of_nat b" using assms(2) by (simp add: of_nat_diff)
    ultimately show ?thesis using False r assms(1) by (simp add: i)
  qed
  then show ?thesis using assms(1) r by (simp add: mem_bit_def i add.assoc)
qed

lemma rel_bit_in:
  assumes "b < 2 ^ 32" "x \<le> y" "y < 2 ^ 34"
  shows "x \<le> rel_bit b i \<and> rel_bit b i < y \<longleftrightarrow> 8 * b + x \<le> i \<and> i < 8 * b + y"
  using assms by (auto simp: rel_bit_def)

lemma buffer_bits_at:
  assumes "i < 2 ^ 67"
  shows "mem_bit p (Memory s) i \<longleftrightarrow> buffer_bits p f s (rel_bit (unat (BaseByteOffset f)) i)"
  using mem_bit_shift [OF assms unat_lt32] unfolding buffer_bits_def ucast_u32 .

lemma written_preserved:
  assumes "update_rule f = AML_FIELD_UPDATE_PRESERVE"
  shows "written_bit f B old q \<longleftrightarrow> (if fstart f \<le> q \<and> q < fstart f + flen f then B (q - fstart f) else old q)"
  using assms by (simp add: written_bit_def rest_bit_def)

text \<open>A write with the update rule Preserve, in terms of the position of the field.\<close>

lemma write_at_position:
  assumes ok: "field_ok f" and rule: "update_rule f = AML_FIELD_UPDATE_PRESERVE" and pos: "8 * unat (BaseByteOffset f) + fstart f = P"
    and s': "\<And>q. buffer_bits p f s' q \<longleftrightarrow> written_bit f B (buffer_bits p f s) q"
  shows "mem_bit p (Memory s') i \<longleftrightarrow> (if P \<le> i \<and> i < P + flen f then B (i - P) else mem_bit p (Memory s) i)"
proof (cases "i < 2 ^ 67")
  case True
  let ?j = "rel_bit (unat (BaseByteOffset f)) i"
  have "fstart f + flen f < 2 ^ 34" using ok field_width(2) [OF ok] by (auto simp: field_ok_def)
  then have iff: "fstart f \<le> ?j \<and> ?j < fstart f + flen f \<longleftrightarrow> P \<le> i \<and> i < P + flen f"
    using rel_bit_in [OF unat_lt32, of "fstart f" "fstart f + flen f" "BaseByteOffset f" i]
    unfolding pos [symmetric] by (simp add: add.assoc)
  have "?j - fstart f = i - P" if "P \<le> i" using that pos by (auto simp: rel_bit_def)
  then show ?thesis unfolding buffer_bits_at [OF True, of _ _ f] s' written_preserved [OF rule] iff by simp
next
  case False
  have "P + flen f < 2 ^ 67" using ok field_width(2) [OF ok] pos unat_lt32 [of "BaseByteOffset f"] by (auto simp: field_ok_def)
  then show ?thesis using False by (simp add: mem_bit_def)
qed

section \<open>Properties\<close>

text \<open>
  C28. The descriptor that \<open>AcpiExPrepCommonFieldObject\<close> makes of a field of between 1 and \<open>2 ^ 32 - 129\<close> bits with a defined access
  type is well-formed: the access width is 1, 2, 4 or 8 bytes, the field starts within its first datum, which is aligned, and at the bit
  position of the declaration. Any other access type is refused. This is the descriptor as this routine leaves it: for a field
  of an embedded controller region \<open>AcpiExPrepFieldValue\<close> (exprep.c:642) afterwards sets the access width to the field's length in bytes, of 1 to 255,
  and such a descriptor is outside this statement and the others about well-formed fields.
\<close>

theorem prepared_field:
  assumes "0 < Len" "unat Len + 128 < 2 ^ 32"
  shows "if access_bytes Flags = 0 then fst (AcpiExPrepCommonFieldObject b ba f Flags Pos Len) = AE_AML_OPERAND_VALUE
    else \<exists>f'. AcpiExPrepCommonFieldObject b ba f Flags Pos Len = (AE_OK, f') \<and> field_ok f'
      \<and> fbytes f' = access_bytes Flags \<and> flen f' = unat Len \<and> update_rule f' = Flags AND AML_FIELD_UPDATE_RULE_MASK
      \<and> alignment b Flags dvd unat (BaseByteOffset f') \<and> 8 * unat (BaseByteOffset f') + fstart f' = unat Pos"
proof (cases "access_bytes Flags = 0")
  case True
  then show ?thesis using prep_invalid by simp
next
  case False
  obtain f' where f': "AcpiExPrepCommonFieldObject b ba f Flags Pos Len = (AE_OK, f')"
      "FieldFlags f' = Flags" "flen f' = unat Len" "fbytes f' = access_bytes Flags"
      "unat (BaseByteOffset f') = unat Pos div 8 div alignment b Flags * alignment b Flags"
      "8 * unat (BaseByteOffset f') + fstart f' = unat Pos" "fstart f' < 8 * alignment b Flags"
    using prep_ok [OF False] by blast
  have "0 < unat Len" using assms(1) by (simp add: word_less_nat_alt)
  then have "field_ok f'" using prep_field_ok [OF f'(4) False f'(7)] f'(3) assms(2) by simp
  then show ?thesis using False f' by (simp add: update_rule_def)
qed

theorem prepared_field_witness:
  "\<exists>f'. AcpiExPrepCommonFieldObject False 0 sample_field 0x03 77 20 = (AE_OK, f') \<and> field_ok f'
      \<and> fbytes f' = 4 \<and> flen f' = 20 \<and> 8 * unat (BaseByteOffset f') + fstart f' = 77"
  using prepared_field [of 20 "0x03" False 0 sample_field 77] by (auto simp: access_bytes_def AML_FIELD_ACCESS_TYPE_MASK_def)

text \<open>
  C3. A buffer field that is declared at bit \<open>Pos\<close> of a buffer with \<open>Len\<close> bits and the update rule Preserve is
  exactly these bits: a read returns them, padded with zeros, and a write replaces them by those of the source and leaves every
  other bit of the memory as it is.
\<close>

theorem created_buffer_field:
  assumes "access_bytes Flags \<noteq> 0" "Flags AND AML_FIELD_UPDATE_RULE_MASK = AML_FIELD_UPDATE_PRESERVE" "0 < Len" "unat Len + 128 < 2 ^ 32"
    and "(unat Len + 7) div 8 \<le> length Out"
  shows "\<exists>f' s' B. AcpiExPrepCommonFieldObject True ba f Flags Pos Len = (AE_OK, f')
    \<and> AcpiExExtractFromField (field_rd dispatch get_args slack True (Buffer_Field p)) f' Out s = Some (AE_OK, B, f', s)
    \<and> (\<forall>j. bbit B j \<longleftrightarrow> j < unat Len \<and> mem_bit p (Memory s) (unat Pos + j))
    \<and> AcpiExInsertIntoField (field_rd dispatch get_args slack True (Buffer_Field p))
        (field_wr dispatch get_args slack True (Buffer_Field p)) True f' Buffer s = (AE_OK, f', s')
    \<and> (\<forall>i. mem_bit p (Memory s') i \<longleftrightarrow>
          (if unat Pos \<le> i \<and> i < unat Pos + unat Len then bbit Buffer (i - unat Pos) else mem_bit p (Memory s) i))"
proof -
  obtain f' where f': "AcpiExPrepCommonFieldObject True ba f Flags Pos Len = (AE_OK, f')"
      "FieldFlags f' = Flags" "flen f' = unat Len" "fbytes f' = access_bytes Flags"
      "8 * unat (BaseByteOffset f') + fstart f' = unat Pos" "fstart f' < 8 * alignment True Flags"
    using prep_ok [OF assms(1)] by metis
  have "0 < unat Len" using assms(3) by (simp add: word_less_nat_alt)
  then have ok: "field_ok f'" using prep_field_ok [OF f'(4) assms(1) f'(6)] f'(3) assms(4) by simp
  have rule: "update_rule f' = AML_FIELD_UPDATE_PRESERVE" using assms(2) f'(2) by (simp add: update_rule_def)
  then have "rule_ok f'" by (simp add: rule_ok_def)
  then obtain s' where w: "AcpiExInsertIntoField (field_rd dispatch get_args slack True (Buffer_Field p))
        (field_wr dispatch get_args slack True (Buffer_Field p)) True f' Buffer s = (AE_OK, f', s')"
      and s': "\<And>q. buffer_bits p f' s' q \<longleftrightarrow> written_bit f' (bbit Buffer) (buffer_bits p f' s) q"
    using buffer.insert_spec [where f = f', unfolded proper_id [OF ok]] by blast
  obtain B where B: "AcpiExExtractFromField (field_rd dispatch get_args slack True (Buffer_Field p)) f' Out s = Some (AE_OK, B, f', s)"
      "\<And>j. bbit B j \<longleftrightarrow> j < flen f' \<and> buffer_bits p f' s (fstart f' + j)"
    using buffer.extract_spec [where f = f', unfolded proper_id [OF ok]] assms(5) f'(3) by metis
  have "buffer_bits p f' s (fstart f' + j) \<longleftrightarrow> mem_bit p (Memory s) (unat Pos + j)" if "j < flen f'" for j
  proof -
    have "unat Pos + j < 2 ^ 67" using that f'(3) unat_lt32 [of Pos] unat_lt32 [of Len] by simp
    moreover have "rel_bit (unat (BaseByteOffset f')) (unat Pos + j) = fstart f' + j" using f'(5) by (simp add: rel_bit_def)
    ultimately show ?thesis using buffer_bits_at [of "unat Pos + j" p s f'] by simp
  qed
  then have "\<forall>j. bbit B j \<longleftrightarrow> j < unat Len \<and> mem_bit p (Memory s) (unat Pos + j)" using B(2) f'(3) by auto
  then show ?thesis using f'(1,3) B(1) w write_at_position [OF ok rule f'(5) s'] by metis
qed

lemma sample_position: "unat (77 :: u32) = 77" "unat (20 :: u32) = 20"
  by simp_all

theorem created_buffer_field_witness:
  "\<exists>f' s' B. AcpiExPrepCommonFieldObject True 0 sample_field 0x02 77 20 = (AE_OK, f')
    \<and> AcpiExExtractFromField (field_rd (data_table_dispatch 0) (Pair AE_OK) False True (Buffer_Field 0x100)) f' [0, 0, 0, 0] sample_world
        = Some (AE_OK, B, f', sample_world)
    \<and> (\<forall>j. bbit B j \<longleftrightarrow> j < 20 \<and> mem_bit 0x100 (Memory sample_world) (77 + j))
    \<and> AcpiExInsertIntoField (field_rd (data_table_dispatch 0) (Pair AE_OK) False True (Buffer_Field 0x100))
        (field_wr (data_table_dispatch 0) (Pair AE_OK) False True (Buffer_Field 0x100)) True f' [0xA5] sample_world = (AE_OK, f', s')
    \<and> (\<forall>i. mem_bit 0x100 (Memory s') i \<longleftrightarrow>
          (if 77 \<le> i \<and> i < 97 then bbit [0xA5] (i - 77) else mem_bit 0x100 (Memory sample_world) i))"
  using created_buffer_field [of "0x02" 20 "[0, 0, 0, 0]" 0 sample_field 77 "data_table_dispatch 0" "Pair AE_OK" False "0x100" sample_world "[0xA5]",
      unfolded sample_position]
  by (simp add: access_bytes_def AML_FIELD_ACCESS_TYPE_MASK_def AML_FIELD_UPDATE_RULE_MASK_def AML_FIELD_UPDATE_PRESERVE_def)

end
