(* ===== verification/AcpiTypes.thy ===== *)
theory AcpiTypes
  imports Prelude
begin

text \<open>
  The codes that tell ACPICA's objects apart: the object types of \<^verbatim>\<open>include/actypes.h\<close> and the descriptor types of
  \<^verbatim>\<open>include/acobject.h\<close>, which stand in the same place of a namespace node and of an operand object.
\<close>

definition ACPI_TYPE_ANY :: u8 where "ACPI_TYPE_ANY = 0x00"
definition ACPI_TYPE_INTEGER :: u8 where "ACPI_TYPE_INTEGER = 0x01"
definition ACPI_TYPE_STRING :: u8 where "ACPI_TYPE_STRING = 0x02"
definition ACPI_TYPE_BUFFER :: u8 where "ACPI_TYPE_BUFFER = 0x03"
definition ACPI_TYPE_PACKAGE :: u8 where "ACPI_TYPE_PACKAGE = 0x04"
definition ACPI_TYPE_DEVICE :: u8 where "ACPI_TYPE_DEVICE = 0x06"
definition ACPI_TYPE_METHOD :: u8 where "ACPI_TYPE_METHOD = 0x08"
definition ACPI_TYPE_MUTEX :: u8 where "ACPI_TYPE_MUTEX = 0x09"
definition ACPI_TYPE_REGION :: u8 where "ACPI_TYPE_REGION = 0x0A"
definition ACPI_TYPE_POWER :: u8 where "ACPI_TYPE_POWER = 0x0B"
definition ACPI_TYPE_PROCESSOR :: u8 where "ACPI_TYPE_PROCESSOR = 0x0C"
definition ACPI_TYPE_THERMAL :: u8 where "ACPI_TYPE_THERMAL = 0x0D"
definition ACPI_TYPE_BUFFER_FIELD :: u8 where "ACPI_TYPE_BUFFER_FIELD = 0x0E"
definition ACPI_TYPE_LOCAL_REGION_FIELD :: u8 where "ACPI_TYPE_LOCAL_REGION_FIELD = 0x11"
definition ACPI_TYPE_LOCAL_BANK_FIELD :: u8 where "ACPI_TYPE_LOCAL_BANK_FIELD = 0x12"
definition ACPI_TYPE_LOCAL_INDEX_FIELD :: u8 where "ACPI_TYPE_LOCAL_INDEX_FIELD = 0x13"
definition ACPI_TYPE_LOCAL_REFERENCE :: u8 where "ACPI_TYPE_LOCAL_REFERENCE = 0x14"
definition ACPI_TYPE_LOCAL_ALIAS :: u8 where "ACPI_TYPE_LOCAL_ALIAS = 0x15"
definition ACPI_TYPE_LOCAL_METHOD_ALIAS :: u8 where "ACPI_TYPE_LOCAL_METHOD_ALIAS = 0x16"
definition ACPI_TYPE_LOCAL_SCOPE :: u8 where "ACPI_TYPE_LOCAL_SCOPE = 0x1B"
definition ACPI_TYPE_LOCAL_EXTRA :: u8 where "ACPI_TYPE_LOCAL_EXTRA = 0x1C"
definition ACPI_TYPE_LOCAL_DATA :: u8 where "ACPI_TYPE_LOCAL_DATA = 0x1D"
definition ACPI_TYPE_LOCAL_MAX :: u8 where "ACPI_TYPE_LOCAL_MAX = 0x1D"
definition ACPI_DESC_TYPE_OPERAND :: u8 where "ACPI_DESC_TYPE_OPERAND = 0x0E"
definition ACPI_DESC_TYPE_NAMED :: u8 where "ACPI_DESC_TYPE_NAMED = 0x0F"

end
