(* ===== verification/Namespace.thy ===== *)
theory Namespace
  imports AcpiTypes
begin

text \<open>
  The ACPI namespace: nodes, the tree they form, and the operations on the lists of children. Models
  \<open>AcpiNsGetNextNode\<close> and \<open>AcpiNsGetNextNodeTyped\<close> of \<^verbatim>\<open>components/namespace/nswalk.c\<close>, \<open>AcpiNsCreateNode\<close> and
  \<open>AcpiNsInstallNode\<close> of \<^verbatim>\<open>nsalloc.c\<close>, the scope searches of \<^verbatim>\<open>nssearch.c\<close> and the type
  properties of \<^verbatim>\<open>nsutils.c\<close> and \<^verbatim>\<open>utdecode.c\<close>.

  A node is a record in a heap of nodes, its links are addresses, 0 is the null pointer. A result \<open>None\<close> is the access
  to an address that holds no node, or a loop that does not end. The predicate \<open>forest\<close> says that a
  list of children is a given list of trees.
\<close>

section \<open>Nodes\<close>

record ns_node =
  nd_Object :: addr
  nd_Type :: u8
  nd_Flags :: u16
  nd_Name :: u32
  nd_Parent :: addr
  nd_Child :: addr
  nd_Peer :: addr
  nd_OwnerId :: u16

type_synonym nheap = "addr \<rightharpoonup> ns_node"

definition ANOBJ_TEMPORARY :: u16 where "ANOBJ_TEMPORARY = 0x02"
definition ACPI_NS_NORMAL :: u8 where "ACPI_NS_NORMAL = 0"
definition ACPI_NS_NEWSCOPE :: u8 where "ACPI_NS_NEWSCOPE = 1"
definition ACPI_NS_LOCAL :: u8 where "ACPI_NS_LOCAL = 2"

definition AcpiGbl_NsProperties :: "u8 list" where
  "AcpiGbl_NsProperties =
     [ACPI_NS_NORMAL, ACPI_NS_NORMAL, ACPI_NS_NORMAL, ACPI_NS_NORMAL, ACPI_NS_NORMAL, ACPI_NS_NORMAL,
      ACPI_NS_NEWSCOPE, ACPI_NS_NORMAL, ACPI_NS_NEWSCOPE, ACPI_NS_NORMAL, ACPI_NS_NORMAL, ACPI_NS_NEWSCOPE,
      ACPI_NS_NEWSCOPE, ACPI_NS_NEWSCOPE, ACPI_NS_NORMAL, ACPI_NS_NORMAL, ACPI_NS_NORMAL, ACPI_NS_NORMAL,
      ACPI_NS_NORMAL, ACPI_NS_NORMAL, ACPI_NS_NORMAL, ACPI_NS_NORMAL, ACPI_NS_NORMAL, ACPI_NS_NORMAL,
      ACPI_NS_NORMAL, ACPI_NS_NEWSCOPE OR ACPI_NS_LOCAL, ACPI_NS_NEWSCOPE OR ACPI_NS_LOCAL, ACPI_NS_NEWSCOPE,
      ACPI_NS_NORMAL, ACPI_NS_NORMAL, ACPI_NS_NORMAL]"

definition AcpiUtValidObjectType :: "u32 \<Rightarrow> bool" where
  "AcpiUtValidObjectType t = (if t > ucast ACPI_TYPE_LOCAL_MAX then False else True)"

definition AcpiNsLocal :: "u32 \<Rightarrow> u32" where
  "AcpiNsLocal t =
     (if \<not> AcpiUtValidObjectType t then ucast ACPI_NS_NORMAL
      else ucast (AcpiGbl_NsProperties ! unat t AND ACPI_NS_LOCAL))"

definition AcpiNsOpensScope :: "u32 \<Rightarrow> u32" where
  "AcpiNsOpensScope t =
     (if t > ucast ACPI_TYPE_LOCAL_MAX then ucast ACPI_NS_NORMAL
      else ucast (AcpiGbl_NsProperties ! unat t AND ACPI_NS_NEWSCOPE))"

text \<open>A null node has type Any.\<close>

definition AcpiNsGetType :: "addr \<Rightarrow> nheap \<Rightarrow> u8 option" where
  "AcpiNsGetType Node h = (if Node = 0 then Some ACPI_TYPE_ANY else map_option nd_Type (h Node))"

section \<open>Moving through the tree\<close>

definition AcpiNsGetNextNode :: "addr \<Rightarrow> addr \<Rightarrow> nheap \<Rightarrow> addr option" where
  "AcpiNsGetNextNode ParentNode ChildNode h =
     (if ChildNode = 0 then map_option nd_Child (h ParentNode) else map_option nd_Peer (h ChildNode))"

partial_function (option) next_of_type :: "u32 \<Rightarrow> nheap \<Rightarrow> addr \<Rightarrow> addr option" where
  "next_of_type t h NextNode =
     (if NextNode \<noteq> 0
      then case h NextNode of
             None \<Rightarrow> None
           | Some n \<Rightarrow> if ucast (nd_Type n) = t then Some NextNode else next_of_type t h (nd_Peer n)
      else Some 0)"

definition AcpiNsGetNextNodeTyped :: "u32 \<Rightarrow> addr \<Rightarrow> addr \<Rightarrow> nheap \<Rightarrow> addr option" where
  "AcpiNsGetNextNodeTyped t ParentNode ChildNode h =
     (case AcpiNsGetNextNode ParentNode ChildNode h of
        None \<Rightarrow> None
      | Some NextNode \<Rightarrow> if t = ucast ACPI_TYPE_ANY then Some NextNode else next_of_type t h NextNode)"

section \<open>Searching\<close>

text \<open>The status and the value of \<open>*ReturnNode\<close>; \<open>search_peers\<close> is the loop over the children.\<close>

partial_function (option) search_peers :: "u32 \<Rightarrow> nheap \<Rightarrow> addr \<Rightarrow> addr \<Rightarrow> (acpi_status \<times> addr) option" where
  "search_peers TargetName h ReturnNode Node =
     (if Node \<noteq> 0
      then case h Node of
             None \<Rightarrow> None
           | Some n \<Rightarrow>
               if nd_Name n = TargetName
               then Some (AE_OK, if nd_Type n = ACPI_TYPE_LOCAL_METHOD_ALIAS then nd_Object n else Node)
               else search_peers TargetName h ReturnNode (nd_Peer n)
      else Some (AE_NOT_FOUND, ReturnNode))"

definition AcpiNsSearchOneScope :: "u32 \<Rightarrow> addr \<Rightarrow> addr \<Rightarrow> nheap \<Rightarrow> (acpi_status \<times> addr) option" where
  "AcpiNsSearchOneScope TargetName ParentNode ReturnNode h =
     (case h ParentNode of
        None \<Rightarrow> None
      | Some p \<Rightarrow> search_peers TargetName h ReturnNode (nd_Child p))"

partial_function (option) search_parents :: "u32 \<Rightarrow> nheap \<Rightarrow> addr \<Rightarrow> addr \<Rightarrow> (acpi_status \<times> addr) option" where
  "search_parents TargetName h ReturnNode ParentNode =
     (if ParentNode \<noteq> 0
      then case AcpiNsSearchOneScope TargetName ParentNode ReturnNode h of
             None \<Rightarrow> None
           | Some (Status, ReturnNode) \<Rightarrow>
               if \<not> ACPI_FAILURE Status then Some (Status, ReturnNode)
               else case h ParentNode of
                      None \<Rightarrow> None
                    | Some p \<Rightarrow> search_parents TargetName h ReturnNode (nd_Parent p)
      else Some (AE_NOT_FOUND, ReturnNode))"

definition AcpiNsSearchParentTree :: "u32 \<Rightarrow> addr \<Rightarrow> u32 \<Rightarrow> addr \<Rightarrow> nheap \<Rightarrow> (acpi_status \<times> addr) option" where
  "AcpiNsSearchParentTree TargetName Node t ReturnNode h =
     (case h Node of
        None \<Rightarrow> None
      | Some n \<Rightarrow>
          if nd_Parent n = 0 then Some (AE_NOT_FOUND, ReturnNode)
          else if AcpiNsLocal t \<noteq> 0 then Some (AE_NOT_FOUND, ReturnNode)
          else search_parents TargetName h ReturnNode (nd_Parent n))"

section \<open>Installing a node\<close>

definition set_node :: "addr \<Rightarrow> (ns_node \<Rightarrow> ns_node) \<Rightarrow> nheap \<Rightarrow> nheap option" where
  "set_node a f h = (case h a of None \<Rightarrow> None | Some n \<Rightarrow> Some (h(a \<mapsto> f n)))"

partial_function (option) last_peer :: "nheap \<Rightarrow> addr \<Rightarrow> addr option" where
  "last_peer h ChildNode =
     (case h ChildNode of
        None \<Rightarrow> None
      | Some c \<Rightarrow> if nd_Peer c \<noteq> 0 then last_peer h (nd_Peer c) else Some ChildNode)"

text \<open>The link of the new node in the list of the parent's children.\<close>

definition link_child :: "addr \<Rightarrow> addr \<Rightarrow> nheap \<Rightarrow> nheap option" where
  "link_child q x h =
     (case h q of
        None \<Rightarrow> None
      | Some p \<Rightarrow>
          if nd_Child p = 0 then set_node q (\<lambda>n. n\<lparr>nd_Child := x\<rparr>) h
          else case last_peer h (nd_Child p) of None \<Rightarrow> None | Some c \<Rightarrow> set_node c (\<lambda>n. n\<lparr>nd_Peer := x\<rparr>) h)"

text \<open>
  The walk state is given by its owner ID, if its method descriptor exists, and its method node; the second part of the result says if
  the method is marked as one that modified the namespace.
\<close>

record walk =
  ws_OwnerId :: u16
  ws_MethodDesc :: bool
  ws_MethodNode :: addr

definition AcpiNsInstallNode :: "walk option \<Rightarrow> addr \<Rightarrow> addr \<Rightarrow> u32 \<Rightarrow> nheap \<Rightarrow> (nheap \<times> bool) option" where
  "AcpiNsInstallNode WalkState ParentNode Node t h =
     (let OwnerId = (case WalkState of Some w \<Rightarrow> ws_OwnerId w | None \<Rightarrow> 0);
          modified = (case WalkState of Some w \<Rightarrow> ws_MethodDesc w \<and> ParentNode \<noteq> ws_MethodNode w | None \<Rightarrow> False)
      in case set_node Node (\<lambda>n. n\<lparr>nd_Peer := 0, nd_Parent := ParentNode\<rparr>) h of
           None \<Rightarrow> None
         | Some h \<Rightarrow>
             (case link_child ParentNode Node h of
                None \<Rightarrow> None
              | Some h \<Rightarrow>
                  (case set_node Node (\<lambda>n. n\<lparr>nd_OwnerId := OwnerId, nd_Type := ucast t\<rparr>) h of
                     None \<Rightarrow> None
                   | Some h \<Rightarrow> Some (h, modified))))"

section \<open>Trees\<close>

text \<open>
  A tree is the address of its node and the trees of its children. \<open>forest h p a ts\<close>: the list of peers that starts at \<open>a\<close>
  are the trees \<open>ts\<close>, whose nodes have the parent \<open>p\<close>.
\<close>

datatype ntree = NT addr "ntree list"

fun forest :: "nheap \<Rightarrow> addr \<Rightarrow> addr \<Rightarrow> ntree list \<Rightarrow> bool" where
  "forest h p a [] \<longleftrightarrow> a = 0"
| "forest h p a (NT b cs # ts) \<longleftrightarrow>
     a = b \<and> a \<noteq> 0 \<and> (case h a of None \<Rightarrow> False | Some n \<Rightarrow> nd_Parent n = p \<and> forest h a (nd_Child n) cs \<and> forest h p (nd_Peer n) ts)"

text \<open>All nodes of the trees, a node before those below it, and the roots of the trees.\<close>

fun nodes_of :: "ntree list \<Rightarrow> addr list" where
  "nodes_of [] = []"
| "nodes_of (NT b cs # ts) = b # nodes_of cs @ nodes_of ts"

fun root_of :: "ntree \<Rightarrow> addr" where "root_of (NT b cs) = b"

fun depth_of :: "ntree list \<Rightarrow> nat" where
  "depth_of [] = 0"
| "depth_of (NT b cs # ts) = max (Suc (depth_of cs)) (depth_of ts)"

definition scope :: "nheap \<Rightarrow> addr \<Rightarrow> ntree list \<Rightarrow> bool" where
  "scope h p ts \<longleftrightarrow> (case h p of None \<Rightarrow> False | Some n \<Rightarrow> forest h p (nd_Child n) ts)"

lemma forest_null [simp]: "forest h p 0 ts \<longleftrightarrow> ts = []"
  by (cases ts rule: nodes_of.cases) auto

lemma forest_ConsE:
  assumes "forest h p a (NT b cs # ts)"
  obtains n where "a = b" "a \<noteq> 0" "h a = Some n" "nd_Parent n = p" "forest h a (nd_Child n) cs" "forest h p (nd_Peer n) ts"
  using assms by (auto split: option.splits)

lemma forest_ConsI:
  "a = b \<Longrightarrow> b \<noteq> 0 \<Longrightarrow> h b = Some n \<Longrightarrow> nd_Parent n = p \<Longrightarrow> forest h b (nd_Child n) cs \<Longrightarrow> forest h p (nd_Peer n) ts \<Longrightarrow>
    forest h p a (NT b cs # ts)"
  by simp

lemma scopeE:
  assumes "scope h p ts"
  obtains n where "h p = Some n" "forest h p (nd_Child n) ts"
  using assms by (auto simp: scope_def split: option.splits)

lemma forest_unique: "forest h p a ts \<Longrightarrow> forest h p' a ts' \<Longrightarrow> ts = ts'"
proof (induction ts arbitrary: p p' a ts' rule: nodes_of.induct)
  case (1 p p' a ts')
  then show ?case by simp
next
  case (2 b cs ts p p' a ts')
  obtain n where n: "a = b" "b \<noteq> 0" "h b = Some n" "forest h b (nd_Child n) cs" "forest h p (nd_Peer n) ts"
    using "2.prems"(1) by (rule forest_ConsE) simp
  then obtain cs' us where ts': "ts' = NT b cs' # us" using "2.prems"(2) by (cases ts' rule: nodes_of.cases) auto
  then have "forest h b (nd_Child n) cs'" "forest h p' (nd_Peer n) us" using "2.prems"(2) n by auto
  then show ?case using "2.IH" n(4,5) ts' by blast
qed

lemma forest_live: "forest h p a ts \<Longrightarrow> b \<in> set (nodes_of ts) \<Longrightarrow> b \<noteq> 0 \<and> h b \<noteq> None"
  by (induction h p a ts rule: forest.induct) (auto split: option.splits)

lemma forest_scope: "forest h p a ts \<Longrightarrow> NT b cs \<in> set ts \<Longrightarrow> scope h b cs"
proof (induction ts arbitrary: a)
  case (Cons t ts)
  obtain c ds where t: "t = NT c ds" by (cases t)
  obtain n where n: "a = c" "h a = Some n" "forest h a (nd_Child n) ds" "forest h p (nd_Peer n) ts"
    using Cons.prems(1) unfolding t by (rule forest_ConsE)
  show ?case using Cons.IH [OF n(4)] Cons.prems(2) n by (auto simp: t scope_def)
qed simp

section \<open>What a search finds\<close>

definition name_of :: "nheap \<Rightarrow> addr \<Rightarrow> u32" where "name_of h a = (case h a of Some n \<Rightarrow> nd_Name n | None \<Rightarrow> 0)"

text \<open>The target of an alias, or the node itself.\<close>

definition target_of :: "nheap \<Rightarrow> addr \<Rightarrow> addr" where
  "target_of h a = (case h a of Some n \<Rightarrow> if nd_Type n = ACPI_TYPE_LOCAL_METHOD_ALIAS then nd_Object n else a | None \<Rightarrow> a)"

definition find_child :: "nheap \<Rightarrow> u32 \<Rightarrow> ntree list \<Rightarrow> addr option" where
  "find_child h N ts = map_option (target_of h) (find (\<lambda>b. name_of h b = N) (map root_of ts))"

lemma search_peers_find:
  "forest h p a ts \<Longrightarrow> search_peers N h r a = Some (case find_child h N ts of Some b \<Rightarrow> (AE_OK, b) | None \<Rightarrow> (AE_NOT_FOUND, r))"
proof (induction ts arbitrary: a)
  case Nil
  then show ?case by (simp add: search_peers.simps find_child_def)
next
  case (Cons t ts)
  obtain b cs where t: "t = NT b cs" by (cases t)
  obtain n where n: "a = b" "a \<noteq> 0" "h a = Some n" "forest h p (nd_Peer n) ts" using Cons.prems unfolding t by (rule forest_ConsE)
  have "search_peers N h r b = (if name_of h b = N then Some (AE_OK, target_of h b) else search_peers N h r (nd_Peer n))"
    using n by (subst search_peers.simps) (simp add: name_of_def target_of_def)
  then show ?case using Cons.IH [OF n(4)] n(1) by (simp add: t find_child_def)
qed

lemma search_one_scope:
  "scope h p ts \<Longrightarrow> AcpiNsSearchOneScope N p r h = Some (case find_child h N ts of Some b \<Rightarrow> (AE_OK, b) | None \<Rightarrow> (AE_NOT_FOUND, r))"
  by (erule scopeE) (simp add: AcpiNsSearchOneScope_def search_peers_find)

text \<open>A chain of enclosing scopes, from the inside to the root.\<close>

fun chain :: "nheap \<Rightarrow> addr \<Rightarrow> (addr \<times> ntree list) list \<Rightarrow> bool" where
  "chain h a [] \<longleftrightarrow> a = 0"
| "chain h a ((p, ts) # ps) \<longleftrightarrow> a = p \<and> a \<noteq> 0 \<and> scope h p ts \<and> (case h p of None \<Rightarrow> False | Some n \<Rightarrow> chain h (nd_Parent n) ps)"

fun find_enclosing :: "nheap \<Rightarrow> u32 \<Rightarrow> (addr \<times> ntree list) list \<Rightarrow> addr option" where
  "find_enclosing h N [] = None"
| "find_enclosing h N ((p, ts) # ps) = (case find_child h N ts of Some b \<Rightarrow> Some b | None \<Rightarrow> find_enclosing h N ps)"

lemma search_parents_find:
  "chain h a ps \<Longrightarrow> search_parents N h r a = Some (case find_enclosing h N ps of Some b \<Rightarrow> (AE_OK, b) | None \<Rightarrow> (AE_NOT_FOUND, r))"
proof (induction ps arbitrary: a)
  case Nil
  then show ?case by (simp add: search_parents.simps)
next
  case (Cons x ps)
  obtain p ts where x: "x = (p, ts)" by (cases x)
  then obtain n where n: "a = p" "a \<noteq> 0" "scope h p ts" "h p = Some n" "chain h (nd_Parent n) ps"
    using Cons.prems by (auto split: option.splits)
  show ?case using Cons.IH [OF n(5)] n
    by (subst search_parents.simps) (simp add: x search_one_scope ACPI_FAILURE_def split: option.split)
qed

section \<open>Changes of the heap\<close>

text \<open>A forest depends on the links of its own nodes only.\<close>

definition links :: "ns_node \<Rightarrow> addr \<times> addr \<times> addr" where "links n = (nd_Parent n, nd_Child n, nd_Peer n)"

lemma forest_cong:
  "(\<And>b. b \<in> set (nodes_of ts) \<Longrightarrow> map_option links (h' b) = map_option links (h b)) \<Longrightarrow> forest h' p a ts = forest h p a ts"
proof (induction ts arbitrary: p a rule: nodes_of.induct)
  case (2 b cs ts)
  have b: "map_option links (h' b) = map_option links (h b)" using "2.prems" [of b] by simp
  have IH: "forest h' q c cs = forest h q c cs" "forest h' q c ts = forest h q c ts" for q c
    using "2.IH" "2.prems" by simp_all
  show ?case
  proof (cases "h b")
    case None
    then have "h' b = None" using b by simp
    then show ?thesis using None by auto
  next
    case (Some n)
    then obtain n' where "h' b = Some n'" "links n' = links n" using b by auto
    then show ?thesis using Some IH by (auto simp: links_def)
  qed
qed simp

lemma forest_frame: "forest h p a ts \<Longrightarrow> (\<And>b. b \<in> set (nodes_of ts) \<Longrightarrow> h' b = h b) \<Longrightarrow> forest h' p a ts"
  using forest_cong [of ts h' h] by simp

lemma nodes_of_append [simp]: "nodes_of (ts @ us) = nodes_of ts @ nodes_of us"
  by (induction ts rule: nodes_of.induct) auto

section \<open>Adding a child\<close>

fun add_child :: "addr \<Rightarrow> addr \<Rightarrow> ntree list \<Rightarrow> ntree list" where
  "add_child q x [] = []"
| "add_child q x (NT b cs # ts) = NT b (if b = q then cs @ [NT x []] else add_child q x cs) # add_child q x ts"

lemma add_child_other [simp]: "q \<notin> set (nodes_of ts) \<Longrightarrow> add_child q x ts = ts"
  by (induction ts rule: nodes_of.induct) auto

text \<open>A node that has just been linked, and what a change of links leaves of a node.\<close>

definition new_leaf :: "nheap \<Rightarrow> addr \<Rightarrow> addr \<Rightarrow> bool" where
  "new_leaf h q x \<longleftrightarrow> x \<noteq> 0 \<and> (\<exists>n. h x = Some n \<and> nd_Parent n = q \<and> nd_Child n = 0 \<and> nd_Peer n = 0)"

definition relinked :: "nheap \<Rightarrow> nheap \<Rightarrow> bool" where
  "relinked h h' \<longleftrightarrow> (\<forall>b. case h b of None \<Rightarrow> h' b = None | Some n \<Rightarrow> \<exists>c pe. h' b = Some (n\<lparr>nd_Child := c, nd_Peer := pe\<rparr>))"

lemma new_leaf_forest: "new_leaf h q x \<Longrightarrow> forest h q x [NT x []]"
  by (auto simp: new_leaf_def)

lemma new_leaf_upd: "new_leaf h q x \<Longrightarrow> c \<noteq> x \<Longrightarrow> new_leaf (h(c \<mapsto> n)) q x"
  by (auto simp: new_leaf_def)

lemma relinked_upd:
  "h b = Some n \<Longrightarrow> relinked h (h(b \<mapsto> n\<lparr>nd_Peer := x\<rparr>))" "h b = Some n \<Longrightarrow> relinked h (h(b \<mapsto> n\<lparr>nd_Child := x\<rparr>))"
proof -
  have self: "\<exists>c pe. n = n\<lparr>nd_Child := c, nd_Peer := pe\<rparr>" for n :: ns_node
    by (rule exI [of _ "nd_Child n"], rule exI [of _ "nd_Peer n"]) simp
  have "\<exists>c pe. n\<lparr>nd_Peer := x\<rparr> = n\<lparr>nd_Child := c, nd_Peer := pe\<rparr>" for n :: ns_node
    by (rule exI [of _ "nd_Child n"], rule exI [of _ x]) simp
  then show "h b = Some n \<Longrightarrow> relinked h (h(b \<mapsto> n\<lparr>nd_Peer := x\<rparr>))"
    using self unfolding relinked_def by (auto split: option.split)
  have "\<exists>c pe. n\<lparr>nd_Child := x\<rparr> = n\<lparr>nd_Child := c, nd_Peer := pe\<rparr>" for n :: ns_node
    by (rule exI [of _ x], rule exI [of _ "nd_Peer n"]) simp
  then show "h b = Some n \<Longrightarrow> relinked h (h(b \<mapsto> n\<lparr>nd_Child := x\<rparr>))"
    using self unfolding relinked_def by (auto split: option.split)
qed

lemma append_peer:
  "forest h q a cs \<Longrightarrow> cs \<noteq> [] \<Longrightarrow> distinct (nodes_of cs) \<Longrightarrow> x \<notin> set (nodes_of cs) \<Longrightarrow> new_leaf h q x \<Longrightarrow>
    \<exists>c n. last_peer h a = Some c \<and> h c = Some n \<and> c \<in> set (nodes_of cs) \<and> forest (h(c \<mapsto> n\<lparr>nd_Peer := x\<rparr>)) q a (cs @ [NT x []])"
proof (induction cs arbitrary: a)
  case (Cons t ts)
  obtain b cs where t: "t = NT b cs" by (cases t)
  obtain n where n: "a = b" "b \<noteq> 0" "h b = Some n" "nd_Parent n = q" "forest h b (nd_Child n) cs" "forest h q (nd_Peer n) ts"
    using Cons.prems(1) unfolding t by (rule forest_ConsE) simp
  have d: "b \<notin> set (nodes_of cs)" "b \<notin> set (nodes_of ts)" "set (nodes_of cs) \<inter> set (nodes_of ts) = {}" "distinct (nodes_of ts)"
    "x \<noteq> b" "x \<notin> set (nodes_of ts)" "x \<notin> set (nodes_of cs)"
    using Cons.prems(3,4) by (auto simp: t)
  show ?case
  proof (cases "ts = []")
    case True
    then have "last_peer h a = Some b" using n by (subst last_peer.simps) simp
    moreover have "forest (h(b \<mapsto> n\<lparr>nd_Peer := x\<rparr>)) b (nd_Child n) cs" by (rule forest_frame [OF n(5)]) (use d(1) in auto)
    moreover have "forest (h(b \<mapsto> n\<lparr>nd_Peer := x\<rparr>)) q x [NT x []]"
      by (rule new_leaf_forest, rule new_leaf_upd [OF Cons.prems(5)]) (use d(5) in simp)
    ultimately have "forest (h(b \<mapsto> n\<lparr>nd_Peer := x\<rparr>)) q a ((t # ts) @ [NT x []])"
      unfolding t True append.simps by (intro forest_ConsI [OF n(1,2) fun_upd_same]) (simp_all add: n(4) del: fun_upd_apply forest.simps(2))
    then show ?thesis using n \<open>last_peer h a = Some b\<close> by (auto simp: t simp del: fun_upd_apply)
  next
    case False
    then have peer: "nd_Peer n \<noteq> 0" using n(6) by (cases ts rule: nodes_of.cases) auto
    obtain c m where c: "last_peer h (nd_Peer n) = Some c" "h c = Some m" "c \<in> set (nodes_of ts)"
        "forest (h(c \<mapsto> m\<lparr>nd_Peer := x\<rparr>)) q (nd_Peer n) (ts @ [NT x []])"
      using Cons.IH [OF n(6) False d(4,6) Cons.prems(5)] by blast
    have "last_peer h a = Some c" using n peer c(1) by (subst last_peer.simps) simp
    moreover have "forest (h(c \<mapsto> m\<lparr>nd_Peer := x\<rparr>)) b (nd_Child n) cs" by (rule forest_frame [OF n(5)]) (use d(3) c(3) in auto)
    moreover have "(h(c \<mapsto> m\<lparr>nd_Peer := x\<rparr>)) b = Some n" using c(3) d(2) n(3) by auto
    ultimately have "forest (h(c \<mapsto> m\<lparr>nd_Peer := x\<rparr>)) q a ((t # ts) @ [NT x []])"
      unfolding t append.simps using c(4) n by (intro forest_ConsI)
    then show ?thesis using c \<open>last_peer h a = Some c\<close> by (auto simp: t simp del: fun_upd_apply)
  qed
qed simp

lemma link_child_forest:
  "forest h p a ts \<Longrightarrow> distinct (nodes_of ts) \<Longrightarrow> q \<in> set (nodes_of ts) \<Longrightarrow> x \<notin> set (nodes_of ts) \<Longrightarrow> new_leaf h q x \<Longrightarrow>
    \<exists>h'. link_child q x h = Some h' \<and> forest h' p a (add_child q x ts) \<and> (\<forall>b. b \<notin> set (nodes_of ts) \<longrightarrow> h' b = h b) \<and> relinked h h'
      \<and> (\<forall>cs. scope h q cs \<longrightarrow> scope h' q (cs @ [NT x []]))"
proof (induction ts arbitrary: p a rule: nodes_of.induct)
  case (2 b cs ts)
  obtain n where n: "a = b" "b \<noteq> 0" "h b = Some n" "nd_Parent n = p" "forest h b (nd_Child n) cs" "forest h p (nd_Peer n) ts"
    using "2.prems"(1) by (rule forest_ConsE) simp
  have d: "b \<notin> set (nodes_of cs)" "b \<notin> set (nodes_of ts)" "set (nodes_of cs) \<inter> set (nodes_of ts) = {}"
    "distinct (nodes_of ts)" "distinct (nodes_of cs)" "x \<noteq> b" "x \<notin> set (nodes_of ts)" "x \<notin> set (nodes_of cs)"
    using "2.prems"(2,4) by auto
  consider (here) "q = b" | (below) "q \<in> set (nodes_of cs)" | (peer) "q \<in> set (nodes_of ts)" using "2.prems"(3) by auto
  then show ?case
  proof cases
    case here
    have leaf: "new_leaf h b x" using "2.prems"(5) here by simp
    show ?thesis
    proof (cases "cs = []")
      case True
      let ?h = "h(b \<mapsto> n\<lparr>nd_Child := x\<rparr>)"
      have "link_child q x h = Some ?h" using n(3,5) True here by (simp add: link_child_def set_node_def)
      moreover have "forest ?h p (nd_Peer n) ts" by (rule forest_frame [OF n(6)]) (use d(2) in auto)
      moreover have "forest ?h b x [NT x []]" by (rule new_leaf_forest, rule new_leaf_upd [OF leaf]) (use d(6) in simp)
      ultimately have "forest ?h p a (add_child q x (NT b cs # ts))"
        unfolding here True add_child.simps append.simps add_child_other [OF d(2)] if_P [OF refl]
        by (intro forest_ConsI [OF n(1,2) fun_upd_same]) (simp_all add: n(4) del: fun_upd_apply forest.simps(2))
      moreover have "\<forall>c. c \<notin> set (nodes_of (NT b cs # ts)) \<longrightarrow> ?h c = h c" by simp
      moreover have "scope ?h q (us @ [NT x []])" if "scope h q us" for us
      proof -
        have "us = []" using that n(3,5) True here by (auto simp: scope_def)
        then show ?thesis using \<open>forest ?h b x [NT x []]\<close> here by (simp add: scope_def fun_upd_same del: fun_upd_apply forest.simps(2))
      qed
      ultimately show ?thesis using \<open>link_child q x h = Some ?h\<close> relinked_upd(2) [of h b n x] n(3) by blast
    next
      case False
      obtain c m where c: "last_peer h (nd_Child n) = Some c" "h c = Some m" "c \<in> set (nodes_of cs)"
          "forest (h(c \<mapsto> m\<lparr>nd_Peer := x\<rparr>)) b (nd_Child n) (cs @ [NT x []])"
        using append_peer [OF n(5) False d(5,8) leaf] by blast
      let ?h = "h(c \<mapsto> m\<lparr>nd_Peer := x\<rparr>)"
      have child: "nd_Child n \<noteq> 0" using n(5) False by (cases cs rule: nodes_of.cases) auto
      have "link_child q x h = Some ?h" using n(3) child c(1,2) here by (simp add: link_child_def set_node_def)
      moreover have "forest ?h p (nd_Peer n) ts" by (rule forest_frame [OF n(6)]) (use d(3) c(3) in auto)
      moreover have "?h b = Some n" using c(3) d(1) n(3) by auto
      ultimately have "forest ?h p a (add_child q x (NT b cs # ts))"
        unfolding here add_child.simps add_child_other [OF d(2)] if_P [OF refl] using n c(4) by (intro forest_ConsI)
      moreover have "\<forall>e. e \<notin> set (nodes_of (NT b cs # ts)) \<longrightarrow> ?h e = h e" using c(3) by auto
      moreover have "scope ?h q (us @ [NT x []])" if "scope h q us" for us
      proof -
        have "us = cs" using that n(3,5) here by (auto simp: scope_def intro: forest_unique)
        then show ?thesis using c(4) \<open>?h b = Some n\<close> here by (simp add: scope_def del: fun_upd_apply)
      qed
      ultimately show ?thesis using \<open>link_child q x h = Some ?h\<close> relinked_upd(1) [of h c m x] c(2) by blast
    qed
  next
    case below
    obtain h' where h': "link_child q x h = Some h'" "forest h' b (nd_Child n) (add_child q x cs)"
        "\<And>c. c \<notin> set (nodes_of cs) \<Longrightarrow> h' c = h c" "relinked h h'"
        "\<forall>cs. scope h q cs \<longrightarrow> scope h' q (cs @ [NT x []])"
      using "2.IH"(1) [OF n(5) d(5) below d(8) "2.prems"(5)] by blast
    have "forest h' p (nd_Peer n) ts" by (rule forest_frame [OF n(6)]) (use d(3) h'(3) in auto)
    moreover have "q \<noteq> b" "q \<notin> set (nodes_of ts)" using below d by auto
    ultimately show ?thesis using n h' d(1) by (auto simp: add_child_other)
  next
    case peer
    obtain h' where h': "link_child q x h = Some h'" "forest h' p (nd_Peer n) (add_child q x ts)"
        "\<And>c. c \<notin> set (nodes_of ts) \<Longrightarrow> h' c = h c" "relinked h h'"
        "\<forall>cs. scope h q cs \<longrightarrow> scope h' q (cs @ [NT x []])"
      using "2.IH"(2) [OF n(6) d(4) peer d(7) "2.prems"(5)] by blast
    have "forest h' b (nd_Child n) cs" by (rule forest_frame [OF n(5)]) (use d(3) h'(3) in auto)
    moreover have "q \<noteq> b" "q \<notin> set (nodes_of cs)" using peer d by auto
    ultimately show ?thesis using n h' d(2) by (auto simp: add_child_other)
  qed
qed simp

text \<open>The whole installation.\<close>

definition installed :: "walk option \<Rightarrow> addr \<Rightarrow> u32 \<Rightarrow> ns_node \<Rightarrow> ns_node" where
  "installed WalkState q t n = n\<lparr>nd_Peer := 0, nd_Parent := q,
     nd_OwnerId := (case WalkState of Some w \<Rightarrow> ws_OwnerId w | None \<Rightarrow> 0), nd_Type := ucast t\<rparr>"

definition relinked_but :: "addr \<Rightarrow> nheap \<Rightarrow> nheap \<Rightarrow> bool" where
  "relinked_but x h h' \<longleftrightarrow>
     (\<forall>b. b \<noteq> x \<longrightarrow> (case h b of None \<Rightarrow> h' b = None | Some n \<Rightarrow> \<exists>c pe. h' b = Some (n\<lparr>nd_Child := c, nd_Peer := pe\<rparr>)))"

lemma install_forest:
  assumes f: "forest h p a ts" "distinct (nodes_of ts)" "q \<in> set (nodes_of ts)"
    and x: "x \<noteq> 0" "x \<notin> set (nodes_of ts)" "h x = Some n" "nd_Child n = 0"
  shows "\<exists>h' m. AcpiNsInstallNode w q x t h = Some (h', m) \<and> forest h' p a (add_child q x ts)
    \<and> h' x = Some (installed w q t n) \<and> relinked_but x h h' \<and> (\<forall>b. b \<noteq> x \<longrightarrow> b \<notin> set (nodes_of ts) \<longrightarrow> h' b = h b)
    \<and> (\<forall>cs. x \<notin> set (nodes_of cs) \<longrightarrow> scope h q cs \<longrightarrow> scope h' q (cs @ [NT x []]))"
proof -
  define n1 where "n1 = n\<lparr>nd_Peer := 0, nd_Parent := q\<rparr>"
  define h1 where "h1 = h(x \<mapsto> n1)"
  have f1: "forest h1 p a ts" by (rule forest_frame [OF f(1)]) (use x(2) in \<open>auto simp: h1_def\<close>)
  have leaf: "new_leaf h1 q x" using x by (simp add: new_leaf_def h1_def n1_def)
  obtain h2 where h2: "link_child q x h1 = Some h2" "forest h2 p a (add_child q x ts)" "\<And>b. b \<notin> set (nodes_of ts) \<Longrightarrow> h2 b = h1 b"
      "relinked h1 h2" "\<And>cs. scope h1 q cs \<Longrightarrow> scope h2 q (cs @ [NT x []])"
    using link_child_forest [OF f1 f(2,3) x(2) leaf] by blast
  have x2: "h2 x = Some n1" using h2(3) [OF x(2)] by (simp add: h1_def)
  define h3 where "h3 = h2(x \<mapsto> installed w q t n)"
  have run: "\<exists>m. AcpiNsInstallNode w q x t h = Some (h3, m)"
    using x(3) h2(1) x2 by (simp add: AcpiNsInstallNode_def set_node_def Let_def h1_def n1_def h3_def installed_def)
  have same: "map_option links (h3 b) = map_option links (h2 b)" for b
    using x2 by (simp add: h3_def installed_def links_def n1_def)
  have eq: "forest h3 p' a' us = forest h2 p' a' us" for p' a' us by (rule forest_cong) (rule same)
  have "forest h3 p a (add_child q x ts)" using eq h2(2) by simp
  moreover have "relinked_but x h h3"
    unfolding relinked_but_def
  proof (intro allI impI)
    fix b assume "b \<noteq> x"
    then have "h3 b = h2 b" "h1 b = h b" by (simp_all add: h3_def h1_def)
    then show "case h b of None \<Rightarrow> h3 b = None | Some n \<Rightarrow> \<exists>c pe. h3 b = Some (n\<lparr>nd_Child := c, nd_Peer := pe\<rparr>)"
      using h2(4) [unfolded relinked_def, rule_format, of b] by (cases "h b") auto
  qed
  moreover have "scope h3 q (cs @ [NT x []])" if out: "x \<notin> set (nodes_of cs)" and sc: "scope h q cs" for cs
  proof -
    have qx: "q \<noteq> x" using f(3) x(2) by auto
    obtain m where m: "h q = Some m" "forest h q (nd_Child m) cs" using sc by (rule scopeE)
    have "forest h1 q (nd_Child m) cs" by (rule forest_frame [OF m(2)]) (use out in \<open>auto simp: h1_def\<close>)
    then have "scope h1 q cs" using m(1) qx by (simp add: scope_def h1_def)
    then obtain m2 where "h2 q = Some m2" "forest h2 q (nd_Child m2) (cs @ [NT x []])" using h2(5) by (metis scopeE)
    moreover have "h3 q = h2 q" using qx by (simp add: h3_def)
    ultimately show ?thesis using eq by (simp add: scope_def)
  qed
  moreover have "h3 b = h b" if "b \<noteq> x" "b \<notin> set (nodes_of ts)" for b using that h2(3) [of b] by (simp add: h3_def h1_def)
  moreover have "h3 x = Some (installed w q t n)" by (simp add: h3_def)
  ultimately show ?thesis using run by blast
qed

lemma scope_nodes: "forest h p a ts \<Longrightarrow> q \<in> set (nodes_of ts) \<Longrightarrow> scope h q cs \<Longrightarrow> set (nodes_of cs) \<subseteq> set (nodes_of ts)"
proof (induction ts arbitrary: p a rule: nodes_of.induct)
  case (2 b us ts)
  obtain n where n: "a = b" "h b = Some n" "forest h b (nd_Child n) us" "forest h p (nd_Peer n) ts"
    using "2.prems"(1) by (rule forest_ConsE) simp
  have "cs = us" if "q = b" using that "2.prems"(3) n(2,3) by (auto simp: scope_def intro: forest_unique)
  then show ?case using "2.IH" n(3,4) "2.prems"(2,3) by fastforce
qed simp

lemma relinked_same:
  assumes "relinked_but x h h'" "b \<noteq> x"
  shows "name_of h' b = name_of h b" "target_of h' b = target_of h b"
proof -
  have "case h b of None \<Rightarrow> h' b = None | Some n \<Rightarrow> \<exists>c pe. h' b = Some (n\<lparr>nd_Child := c, nd_Peer := pe\<rparr>)"
    using assms by (simp add: relinked_but_def)
  then show "name_of h' b = name_of h b" "target_of h' b = target_of h b"
    by (cases "h b"; auto simp: name_of_def target_of_def)+
qed

lemma roots_in_nodes: "set (map root_of ts) \<subseteq> set (nodes_of ts)"
proof (induction ts)
  case (Cons t ts)
  then show ?case by (cases t) auto
qed simp

lemma find_child_installed:
  assumes "relinked_but x h h'" "x \<notin> set (nodes_of cs)"
  shows "find_child h' N (cs @ [NT x []]) =
    (case find_child h N cs of Some b \<Rightarrow> Some b | None \<Rightarrow> if name_of h' x = N then Some (target_of h' x) else None)"
proof -
  have out: "b \<noteq> x" if "b \<in> set (map root_of cs)" for b using that assms(2) roots_in_nodes by blast
  have f1: "find (\<lambda>b. name_of h' b = N) (map root_of cs) = find (\<lambda>b. name_of h b = N) (map root_of cs)"
    by (rule find_cong [OF refl]) (simp only: relinked_same(1) [OF assms(1) out])
  have f2: "map_option (target_of h') (find (\<lambda>b. name_of h b = N) (map root_of cs)) = find_child h N cs"
    unfolding find_child_def
  proof (rule option.map_cong0)
    fix b assume "b \<in> set_option (find (\<lambda>b. name_of h b = N) (map root_of cs))"
    then have "b \<in> set (map root_of cs)" by (auto simp: find_Some_iff)
    then show "target_of h' b = target_of h b" by (rule relinked_same(2) [OF assms(1) out])
  qed
  have app: "find P (bs @ [x]) = (case find P bs of Some b \<Rightarrow> Some b | None \<Rightarrow> if P x then Some x else None)" for P bs
    by (induction bs) auto
  have "map root_of (cs @ [NT x []]) = map root_of cs @ [x]" by simp
  then have "find_child h' N (cs @ [NT x []]) = map_option (target_of h')
      (case find (\<lambda>b. name_of h b = N) (map root_of cs) of Some b \<Rightarrow> Some b | None \<Rightarrow> if name_of h' x = N then Some x else None)"
    by (simp only: find_child_def app f1)
  then show ?thesis unfolding f2 [symmetric] by (cases "find (\<lambda>b. name_of h b = N) (map root_of cs)") simp_all
qed

section \<open>Properties\<close>

text \<open>
  \<open>AcpiNsInstallNode\<close> adds a node as the last child of its parent, wherever this is in the tree: the new heap
  represents the old trees with this child, the node has its parent, owner and type, and of every other node at most the links
  to children and peers change.
\<close>

theorem install_node_adds_child:
  assumes "forest h p a ts" "distinct (nodes_of ts)" "q \<in> set (nodes_of ts)"
    and "x \<noteq> 0" "x \<notin> set (nodes_of ts)" "h x = Some n" "nd_Child n = 0"
  shows "\<exists>h' m. AcpiNsInstallNode w q x t h = Some (h', m) \<and> forest h' p a (add_child q x ts)
    \<and> h' x = Some (installed w q t n) \<and> relinked_but x h h' \<and> (\<forall>b. b \<noteq> x \<longrightarrow> b \<notin> set (nodes_of ts) \<longrightarrow> h' b = h b)"
  using install_forest [OF assms] by blast

text \<open>
  A node that has been installed in a scope is found there by its name, unless the scope had a node of this name before,
  which is then still found.
\<close>

theorem installed_node_is_found:
  assumes "forest h p a ts" "distinct (nodes_of ts)" "q \<in> set (nodes_of ts)"
    and "x \<noteq> 0" "x \<notin> set (nodes_of ts)" "h x = Some n" "nd_Child n = 0"
    and "scope h q cs" and "ucast t \<noteq> ACPI_TYPE_LOCAL_METHOD_ALIAS"
  shows "\<exists>h' m. AcpiNsInstallNode w q x t h = Some (h', m)
    \<and> AcpiNsSearchOneScope (nd_Name n) q r h'
      = Some (AE_OK, case find_child h (nd_Name n) cs of Some b \<Rightarrow> b | None \<Rightarrow> x)"
proof -
  have out: "x \<notin> set (nodes_of cs)" using scope_nodes [OF assms(1,3,8)] assms(5) by blast
  obtain h' m where h': "AcpiNsInstallNode w q x t h = Some (h', m)" "h' x = Some (installed w q t n)" "relinked_but x h h'"
      "scope h' q (cs @ [NT x []])"
    using install_forest [OF assms(1-7), of w t] out assms(8) by blast
  have "name_of h' x = nd_Name n" "target_of h' x = x" using h'(2) assms(9) by (simp_all add: name_of_def target_of_def installed_def)
  then show ?thesis using h'(1) search_one_scope [OF h'(4)] find_child_installed [OF h'(3) out]
    by (auto split: option.split)
qed

text \<open>
  The search of the enclosing scopes ends and finds the name in the nearest one that has it; it is not
  made from the root, nor for types that must be local.
\<close>

theorem enclosing_scope_search:
  assumes "h Node = Some n" and "chain h (nd_Parent n) ps"
  shows "AcpiNsSearchParentTree N Node t r h = Some (
    if nd_Parent n = 0 \<or> AcpiNsLocal t \<noteq> 0 then (AE_NOT_FOUND, r)
    else case find_enclosing h N ps of Some b \<Rightarrow> (AE_OK, b) | None \<Rightarrow> (AE_NOT_FOUND, r))"
  using assms search_parents_find [OF assms(2)] by (simp add: AcpiNsSearchParentTree_def)

text \<open>A scope with two children, of which the first has a child, for the examples.\<close>

definition sample_node :: "addr \<Rightarrow> addr \<Rightarrow> addr \<Rightarrow> u32 \<Rightarrow> ns_node" where
  "sample_node Parent Child Peer Name = \<lparr>nd_Object = 0, nd_Type = 6, nd_Flags = 0, nd_Name = Name, nd_Parent = Parent,
     nd_Child = Child, nd_Peer = Peer, nd_OwnerId = 1\<rparr>"

definition sample_nodes :: nheap where
  "sample_nodes = [1 \<mapsto> sample_node 0 2 0 10, 2 \<mapsto> sample_node 1 3 4 20, 3 \<mapsto> sample_node 2 0 0 30, 4 \<mapsto> sample_node 1 0 0 40]"

definition sample_trees :: "ntree list" where "sample_trees = [NT 2 [NT 3 []], NT 4 []]"

lemma sample_forest: "forest sample_nodes 0 1 [NT 1 sample_trees]" "distinct (nodes_of [NT 1 sample_trees])"
  by (simp_all add: sample_nodes_def sample_node_def sample_trees_def)

definition sample_nodes5 :: nheap where "sample_nodes5 = sample_nodes(5 \<mapsto> sample_node 0 0 0 50)"

lemma sample_forest5: "forest sample_nodes5 0 1 [NT 1 sample_trees]" "scope sample_nodes5 2 [NT 3 []]" "sample_nodes5 5 = Some (sample_node 0 0 0 50)"
  by (simp_all add: sample_nodes5_def sample_nodes_def sample_node_def sample_trees_def scope_def)

theorem install_node_adds_child_witness:
  "\<exists>h' m. AcpiNsInstallNode None 2 5 6 sample_nodes5 = Some (h', m) \<and> forest h' 0 1 [NT 1 [NT 2 [NT 3 [], NT 5 []], NT 4 []]]"
  using install_node_adds_child [OF sample_forest5(1) sample_forest(2), of 2 5 "sample_node 0 0 0 50" None 6] sample_forest5(3)
  by (auto simp: sample_trees_def sample_node_def)

theorem installed_node_is_found_witness:
  "\<exists>h' m. AcpiNsInstallNode None 2 5 6 sample_nodes5 = Some (h', m) \<and> AcpiNsSearchOneScope 50 2 0 h' = Some (AE_OK, 5)"
  using installed_node_is_found [OF sample_forest5(1) sample_forest(2), of 2 5 "sample_node 0 0 0 50" "[NT 3 []]" 6 None 0] sample_forest5(2,3)
  by (simp add: sample_trees_def find_child_def name_of_def sample_nodes5_def sample_nodes_def sample_node_def ACPI_TYPE_LOCAL_METHOD_ALIAS_def)

theorem enclosing_scope_search_witness:
  "AcpiNsSearchParentTree 40 3 6 0 sample_nodes = Some (AE_OK, 4)"
proof -
  have "chain sample_nodes 2 [(2, [NT 3 []]), (1, sample_trees)]"
    by (simp add: sample_nodes_def sample_node_def sample_trees_def scope_def)
  then show ?thesis
    using enclosing_scope_search [of sample_nodes 3 "sample_node 2 0 0 30" "[(2, [NT 3 []]), (1, sample_trees)]" 40 6 0]
    by (simp add: sample_nodes_def sample_node_def sample_trees_def find_child_def name_of_def target_of_def AcpiNsLocal_def
        AcpiUtValidObjectType_def AcpiGbl_NsProperties_def ACPI_TYPE_LOCAL_MAX_def ACPI_NS_NEWSCOPE_def ACPI_NS_LOCAL_def ACPI_TYPE_LOCAL_METHOD_ALIAS_def)
qed

end
