(* ===== verification/NsWalk.thy ===== *)
theory NsWalk
  imports Namespace
begin

text \<open>
  \<open>AcpiNsWalkNamespace\<close> of \<^verbatim>\<open>components/namespace/nswalk.c\<close>: a depth-first walk without a stack, which moves over the links of
  the nodes and calls back on the way down and on the way up.

  The state \<open>'s\<close> is what the callbacks work on; \<open>nodes\<close> is the namespace in it. The callbacks and the routines that release and
  acquire the namespace mutex are arguments. The walk is proved equal to the recursive one over the tree, for callbacks
  that leave the namespace as it is.
\<close>

section \<open>Definitions\<close>

definition ACPI_NS_WALK_UNLOCK :: u32 where "ACPI_NS_WALK_UNLOCK = 0x01"
definition ACPI_NS_WALK_TEMP_NODES :: u32 where "ACPI_NS_WALK_TEMP_NODES = 0x02"

text \<open>The node, the level, the state.\<close>

type_synonym 's callback = "addr \<Rightarrow> u32 \<Rightarrow> 's \<Rightarrow> acpi_status \<times> 's"

text \<open>The arguments that do not change during the walk; a null callback is \<open>None\<close>.\<close>

record 's walk_args =
  wa_Type :: u32
  wa_MaxDepth :: u32
  wa_Flags :: u32
  wa_Descending :: "'s callback option"
  wa_Ascending :: "'s callback option"
  wa_Release :: "'s \<Rightarrow> acpi_status \<times> 's"
  wa_Acquire :: "'s \<Rightarrow> acpi_status \<times> 's"
  wa_nodes :: "'s \<Rightarrow> nheap"

text \<open>
  The visit of one node: \<open>Inl\<close> is a return of the walk with a status, \<open>Inr\<close> the value of \<open>Status\<close> after the visit.
\<close>

definition invoke :: "'s walk_args \<Rightarrow> bool \<Rightarrow> 's callback" where
  "invoke A NodePreviouslyVisited ChildNode Level s =
     (case if NodePreviouslyVisited then wa_Ascending A else wa_Descending A of
        Some callback \<Rightarrow> callback ChildNode Level s | None \<Rightarrow> (AE_OK, s))"

definition visit :: "'s walk_args \<Rightarrow> bool \<Rightarrow> addr \<Rightarrow> ns_node \<Rightarrow> u32 \<Rightarrow> 's \<Rightarrow> (acpi_status \<times> 's) + (acpi_status \<times> 's)" where
  "visit A NodePreviouslyVisited ChildNode n Level s =
     (let ChildType = (if wa_Type A \<noteq> ucast ACPI_TYPE_ANY then ucast (nd_Type n) else ucast ACPI_TYPE_ANY)
      in if nd_Flags n AND ANOBJ_TEMPORARY \<noteq> 0 \<and> wa_Flags A AND ACPI_NS_WALK_TEMP_NODES = 0 then Inr (AE_CTRL_DEPTH, s)
         else if ChildType = wa_Type A
         then (case (if wa_Flags A AND ACPI_NS_WALK_UNLOCK \<noteq> 0 then wa_Release A s else (AE_OK, s)) of
                 (MutexStatus, s) \<Rightarrow>
                   if ACPI_FAILURE MutexStatus then Inl (MutexStatus, s)
                   else (case invoke A NodePreviouslyVisited ChildNode Level s of
                           (Status, s) \<Rightarrow>
                             (case (if wa_Flags A AND ACPI_NS_WALK_UNLOCK \<noteq> 0 then wa_Acquire A s else (AE_OK, s)) of
                                (MutexStatus, s) \<Rightarrow>
                                  if ACPI_FAILURE MutexStatus then Inl (MutexStatus, s)
                                  else if Status = AE_OK \<or> Status = AE_CTRL_DEPTH then Inr (Status, s)
                                  else if Status = AE_CTRL_TERMINATE then Inl (AE_OK, s)
                                  else Inl (Status, s))))
         else Inr (AE_OK, s))"

text \<open>The loop, with \<open>ParentNode\<close>, \<open>ChildNode\<close>, \<open>Level\<close> and \<open>NodePreviouslyVisited\<close>.\<close>

partial_function (option) walk_loop ::
  "'s walk_args \<Rightarrow> addr \<Rightarrow> addr \<Rightarrow> u32 \<Rightarrow> bool \<Rightarrow> 's \<Rightarrow> (acpi_status \<times> 's) option" where
  "walk_loop A ParentNode ChildNode Level NodePreviouslyVisited s =
     (if Level > 0 \<and> ChildNode \<noteq> 0
      then case wa_nodes A s ChildNode of
             None \<Rightarrow> None
           | Some n \<Rightarrow>
               (case visit A NodePreviouslyVisited ChildNode n Level s of
                  Inl r \<Rightarrow> Some r
                | Inr (Status, s) \<Rightarrow>
                    (case wa_nodes A s ChildNode of
                       None \<Rightarrow> None
                     | Some n \<Rightarrow>
                         if \<not> NodePreviouslyVisited \<and> Level < wa_MaxDepth A \<and> Status \<noteq> AE_CTRL_DEPTH \<and> nd_Child n \<noteq> 0
                         then walk_loop A ChildNode (nd_Child n) (Level + 1) NodePreviouslyVisited s
                         else if \<not> NodePreviouslyVisited then walk_loop A ParentNode ChildNode Level True s
                         else if nd_Peer n \<noteq> 0 then walk_loop A ParentNode (nd_Peer n) Level False s
                         else (case wa_nodes A s ParentNode of
                                 None \<Rightarrow> None
                               | Some p \<Rightarrow> walk_loop A (nd_Parent p) ParentNode (Level - 1) True s)))
      else Some (AE_OK, s))"

text \<open>\<open>RootNode\<close> is \<open>AcpiGbl_RootNode\<close>; the handle of the root is \<open>ACPI_ROOT_OBJECT\<close>, all ones.\<close>

definition ACPI_ROOT_OBJECT :: addr where "ACPI_ROOT_OBJECT = - 1"

definition AcpiNsWalkNamespace :: "'s walk_args \<Rightarrow> addr \<Rightarrow> addr \<Rightarrow> 's \<Rightarrow> (acpi_status \<times> 's) option" where
  "AcpiNsWalkNamespace A RootNode StartNode s =
     (if StartNode = ACPI_ROOT_OBJECT \<and> RootNode = 0 then Some (AE_NO_NAMESPACE, s)
      else let ParentNode = (if StartNode = ACPI_ROOT_OBJECT then RootNode else StartNode)
           in case AcpiNsGetNextNode ParentNode 0 (wa_nodes A s) of
                None \<Rightarrow> None
              | Some ChildNode \<Rightarrow> walk_loop A ParentNode ChildNode 1 False s)"

section \<open>The walk over a tree\<close>

text \<open>\<open>Inl\<close> is an early return, \<open>Inr\<close> a complete walk of the trees.\<close>

fun walk_forest :: "'s walk_args \<Rightarrow> nheap \<Rightarrow> u32 \<Rightarrow> ntree list \<Rightarrow> 's \<Rightarrow> (acpi_status \<times> 's) + 's" where
  "walk_forest A h Level [] s = Inr s"
| "walk_forest A h Level (NT b cs # ts) s =
     (case visit A False b (the (h b)) Level s of
        Inl r \<Rightarrow> Inl r
      | Inr (Status, s) \<Rightarrow>
          (case if Level < wa_MaxDepth A \<and> Status \<noteq> AE_CTRL_DEPTH then walk_forest A h (Level + 1) cs s else Inr s of
             Inl r \<Rightarrow> Inl r
           | Inr s \<Rightarrow>
               (case visit A True b (the (h b)) Level s of
                  Inl r \<Rightarrow> Inl r
                | Inr (_, s) \<Rightarrow> walk_forest A h Level ts s)))"

text \<open>The callbacks and the mutex routines leave the namespace as it is.\<close>

definition quiet :: "('s \<Rightarrow> nheap) \<Rightarrow> ('s \<Rightarrow> acpi_status \<times> 's) \<Rightarrow> bool" where
  "quiet nodes f \<longleftrightarrow> (\<forall>s. nodes (snd (f s)) = nodes s)"

definition quiet_args :: "'s walk_args \<Rightarrow> bool" where
  "quiet_args A \<longleftrightarrow> quiet (wa_nodes A) (wa_Release A) \<and> quiet (wa_nodes A) (wa_Acquire A)
     \<and> (\<forall>v a l. quiet (wa_nodes A) (invoke A v a l))"

lemma quietD: "quiet nodes f \<Longrightarrow> f s = (st, s') \<Longrightarrow> nodes s' = nodes s"
  unfolding quiet_def by (metis snd_conv)

lemma quiet_argsD:
  assumes "quiet_args A"
  shows "wa_Release A s = (st, s') \<Longrightarrow> wa_nodes A s' = wa_nodes A s" "wa_Acquire A s = (st, s') \<Longrightarrow> wa_nodes A s' = wa_nodes A s"
    "invoke A v a l s = (st, s') \<Longrightarrow> wa_nodes A s' = wa_nodes A s"
  using assms unfolding quiet_args_def by (blast dest: quietD)+

lemma visit_quiet:
  assumes "quiet_args A" "visit A v b n Level s = Inr (st, s')"
  shows "wa_nodes A s' = wa_nodes A s"
  using assms(2) unfolding visit_def Let_def
  by (auto split: if_splits prod.splits dest!: quiet_argsD [OF assms(1)])

lemma walk_forest_quiet:
  assumes q: "quiet_args A"
  shows "walk_forest A h Level ts s = Inr s' \<Longrightarrow> wa_nodes A s' = wa_nodes A s"
proof (induction ts arbitrary: Level s s' rule: nodes_of.induct)
  case (2 b cs ts)
  from "2.prems" obtain st s1 s2 st' s3 where "visit A False b (the (h b)) Level s = Inr (st, s1)"
      and below: "(if Level < wa_MaxDepth A \<and> st \<noteq> AE_CTRL_DEPTH then walk_forest A h (Level + 1) cs s1 else Inr s1) = Inr s2"
      and "visit A True b (the (h b)) Level s2 = Inr (st', s3)" "walk_forest A h Level ts s3 = Inr s'"
    by (auto simp del: if_split_asm split: sum.splits prod.splits)
  moreover have "wa_nodes A s2 = wa_nodes A s1" using below "2.IH"(1) by (auto split: if_splits)
  ultimately show ?case using "2.IH"(2) visit_quiet [OF q] by metis
qed simp

section \<open>The loop follows the tree\<close>

text \<open>The second visit of a node goes on with its next peer, or with its parent if there is none.\<close>

lemma revisit:
  assumes q: "quiet_args A" and h: "wa_nodes A s = h" "h b = Some n" "h p = Some pn" and "b \<noteq> 0" "Level > 0"
  shows "walk_loop A p b Level True s =
    (case visit A True b n Level s of
       Inl r \<Rightarrow> Some r
     | Inr (_, s') \<Rightarrow> if nd_Peer n \<noteq> 0 then walk_loop A p (nd_Peer n) Level False s'
                     else walk_loop A (nd_Parent pn) p (Level - 1) True s')"
proof -
  have "wa_nodes A s' = h" if "visit A True b n Level s = Inr (st, s')" for st s' using visit_quiet [OF q that] h(1) by simp
  then show ?thesis using assms by (subst walk_loop.simps) (auto split: sum.split)
qed

lemma loop_first:
  assumes q: "quiet_args A" and h: "wa_nodes A s = h" "h b = Some n" and "b \<noteq> 0" "Level > 0"
  shows "walk_loop A p b Level False s =
    (case visit A False b n Level s of
       Inl r \<Rightarrow> Some r
     | Inr (Status, s') \<Rightarrow>
         if Level < wa_MaxDepth A \<and> Status \<noteq> AE_CTRL_DEPTH \<and> nd_Child n \<noteq> 0
         then walk_loop A b (nd_Child n) (Level + 1) False s' else walk_loop A p b Level True s')"
proof -
  have "wa_nodes A s' = h" if "visit A False b n Level s = Inr (st, s')" for st s' using visit_quiet [OF q that] h(1) by simp
  then show ?thesis using assms by (subst walk_loop.simps) (auto split: sum.split)
qed

lemma walk_loop_forest:
  assumes q: "quiet_args A"
  shows "wa_nodes A s = h \<Longrightarrow> forest h p a ts \<Longrightarrow> ts \<noteq> [] \<Longrightarrow> h p = Some pn \<Longrightarrow> Level > 0 \<Longrightarrow> unat Level + depth_of ts < 2 ^ 32 \<Longrightarrow>
    walk_loop A p a Level False s =
      (case walk_forest A h Level ts s of Inl r \<Rightarrow> Some r | Inr s' \<Rightarrow> walk_loop A (nd_Parent pn) p (Level - 1) True s')"
proof (induction ts arbitrary: p a pn Level s rule: nodes_of.induct)
  case (2 b cs ts)
  obtain n where n: "a = b" "b \<noteq> 0" "h b = Some n" "nd_Parent n = p" "forest h b (nd_Child n) cs" "forest h p (nd_Peer n) ts"
    using "2.prems"(2) by (rule forest_ConsE) simp
  have up: "unat (Level + 1) = unat Level + 1" using unat_add_nowrap [of Level 1] "2.prems"(6) by simp
  then have L1: "Level + 1 > 0" "unat (Level + 1) + depth_of cs < 2 ^ 32" "Level + 1 - 1 = Level" using "2.prems"(6) by (auto simp: word_less_nat_alt)
  have L: "unat Level + depth_of ts < 2 ^ 32" using "2.prems"(6) by simp
  have peers: "(case visit A True b n Level s2 of Inl r \<Rightarrow> Some r
        | Inr (_, s') \<Rightarrow> if nd_Peer n \<noteq> 0 then walk_loop A p (nd_Peer n) Level False s' else walk_loop A (nd_Parent pn) p (Level - 1) True s')
      = (case (case visit A True b n Level s2 of Inl r \<Rightarrow> Inl r | Inr (_, s') \<Rightarrow> walk_forest A h Level ts s') of
          Inl r \<Rightarrow> Some r | Inr s' \<Rightarrow> walk_loop A (nd_Parent pn) p (Level - 1) True s')" if "wa_nodes A s2 = h" for s2
  proof -
    have "wa_nodes A s' = h" if "visit A True b n Level s2 = Inr (st, s')" for st s' using visit_quiet [OF q that] \<open>wa_nodes A s2 = h\<close> by simp
    moreover have "nd_Peer n = 0 \<longleftrightarrow> ts = []" using n(6) by (cases ts rule: nodes_of.cases) auto
    ultimately show ?thesis using "2.IH"(2) [OF _ n(6) _ "2.prems"(4,5) L] by (auto split: sum.split)
  qed
  show ?case
  proof (cases "visit A False b n Level s")
    case (Inl r)
    then show ?thesis using loop_first [OF q "2.prems"(1) n(3,2) "2.prems"(5)] n(1,3) by simp
  next
    case (Inr x)
    obtain st s1 where v: "visit A False b n Level s = Inr (st, s1)" using Inr by (cases x) auto
    have s1: "wa_nodes A s1 = h" using visit_quiet [OF q v] "2.prems"(1) by simp
    have cs: "nd_Child n = 0 \<longleftrightarrow> cs = []" using n(5) by (cases cs rule: nodes_of.cases) auto
    let ?below = "if Level < wa_MaxDepth A \<and> st \<noteq> AE_CTRL_DEPTH then walk_forest A h (Level + 1) cs s1 else Inr s1"
    have s2: "wa_nodes A s2 = h" if "?below = Inr s2" for s2 using that s1 walk_forest_quiet [OF q] by (auto split: if_splits)
    have "walk_loop A p b Level False s = (case ?below of Inl r \<Rightarrow> Some r | Inr s2 \<Rightarrow> walk_loop A p b Level True s2)"
      using loop_first [OF q "2.prems"(1) n(3,2) "2.prems"(5), of p] "2.IH"(1) [OF s1 n(5) _ n(3) L1(1,2), unfolded L1(3)] n(4) v cs
      by (cases "cs = []") auto
    also have "\<dots> = (case ?below of Inl r \<Rightarrow> Some r | Inr s2 \<Rightarrow>
        (case (case visit A True b n Level s2 of Inl r \<Rightarrow> Inl r | Inr (_, s') \<Rightarrow> walk_forest A h Level ts s') of
          Inl r \<Rightarrow> Some r | Inr s' \<Rightarrow> walk_loop A (nd_Parent pn) p (Level - 1) True s'))"
      using revisit [OF q _ n(3) "2.prems"(4) n(2) "2.prems"(5)] peers s2 by (cases ?below) auto
    finally show ?thesis using n(1,3) v by (auto split: sum.split)
  qed
qed simp

lemma walk_from:
  assumes q: "quiet_args A" and h: "wa_nodes A s = h" and sc: "scope h p ts" and d: "depth_of ts + 1 < 2 ^ 32" and start: "p \<noteq> 0"
    "if StartNode = ACPI_ROOT_OBJECT then RootNode = p else StartNode = p"
  shows "AcpiNsWalkNamespace A RootNode StartNode s = Some (case walk_forest A h 1 ts s of Inl r \<Rightarrow> r | Inr s' \<Rightarrow> (AE_OK, s'))"
proof -
  obtain n where n: "h p = Some n" "forest h p (nd_Child n) ts" using sc by (rule scopeE)
  have call: "AcpiNsWalkNamespace A RootNode StartNode s = walk_loop A p (nd_Child n) 1 False s"
    using start n(1) h by (auto simp: AcpiNsWalkNamespace_def AcpiNsGetNextNode_def Let_def split: if_splits)
  have stop: "walk_loop A q r 0 v s' = Some (AE_OK, s')" "walk_loop A q 0 l v s' = Some (AE_OK, s')" for q r v s' l
    by (subst walk_loop.simps, simp)+
  show ?thesis
  proof (cases "ts = []")
    case True
    then show ?thesis using n(2) by (simp add: call stop)
  next
    case False
    then show ?thesis using walk_loop_forest [OF q h n(2) False n(1), of 1] d by (simp add: call stop split: sum.split)
  qed
qed

section \<open>The recursive walk\<close>

definition skipped :: "'s walk_args \<Rightarrow> nheap \<Rightarrow> addr \<Rightarrow> bool" where
  "skipped A h b \<longleftrightarrow> nd_Flags (the (h b)) AND ANOBJ_TEMPORARY \<noteq> 0 \<and> wa_Flags A AND ACPI_NS_WALK_TEMP_NODES = 0"

definition matches :: "'s walk_args \<Rightarrow> nheap \<Rightarrow> addr \<Rightarrow> bool" where
  "matches A h b \<longleftrightarrow> wa_Type A = ucast ACPI_TYPE_ANY \<or> wa_Type A = ucast (nd_Type (the (h b)))"







section \<open>The sequence of callbacks\<close>

text \<open>
  The calls of a walk that no callback ends, in their order: the direction, the node and the level. Temporary nodes are left
  out with all that is below them, and nothing deeper than the given depth is visited.
\<close>

fun calls :: "'s walk_args \<Rightarrow> nheap \<Rightarrow> u32 \<Rightarrow> ntree list \<Rightarrow> (bool \<times> addr \<times> u32) list" where
  "calls A h Level [] = []"
| "calls A h Level (NT b cs # ts) =
     (if skipped A h b then []
      else (if matches A h b then [(False, b, Level)] else [])
         @ (if Level < wa_MaxDepth A then calls A h (Level + 1) cs else [])
         @ (if matches A h b then [(True, b, Level)] else []))
     @ calls A h Level ts"

definition call :: "'s walk_args \<Rightarrow> bool \<times> addr \<times> u32 \<Rightarrow> 's \<Rightarrow> 's" where
  "call A = (\<lambda>(v, b, l) s. snd (invoke A v b l s))"

text \<open>No callback ends the walk or cuts it, and the mutex is not released for the callbacks.\<close>

definition complete_args :: "'s walk_args \<Rightarrow> bool" where
  "complete_args A \<longleftrightarrow> wa_Flags A AND ACPI_NS_WALK_UNLOCK = 0 \<and> (\<forall>v b l s. fst (invoke A v b l s) = AE_OK)"

lemma visit_complete:
  assumes "complete_args A"
  shows "visit A v b (the (h b)) Level s =
    (if skipped A h b then Inr (AE_CTRL_DEPTH, s) else if matches A h b then Inr (AE_OK, call A (v, b, Level) s) else Inr (AE_OK, s))"
proof -
  have "invoke A v b Level s = (AE_OK, call A (v, b, Level) s)"
    using assms by (simp add: complete_args_def call_def prod_eq_iff)
  then show ?thesis using assms by (auto simp: visit_def complete_args_def skipped_def matches_def Let_def)
qed

lemma walk_forest_calls:
  assumes "complete_args A"
  shows "walk_forest A h Level ts s = Inr (fold (call A) (calls A h Level ts) s)"
proof (induction ts arbitrary: Level s rule: nodes_of.induct)
  case (2 b cs ts)
  then show ?case by (simp add: visit_complete [OF assms])
qed simp

section \<open>Properties\<close>


text \<open>
  If no callback ends the walk, the callbacks are invoked exactly for the nodes of the requested type that are
  not temporary or below a temporary node, and not deeper than requested: each once on the way down and once on the way up, in the order
  of the tree, with its level.
\<close>

theorem walk_calls_every_node:
  assumes "quiet_args A" "complete_args A" "scope (wa_nodes A s) p ts" "depth_of ts + 1 < 2 ^ 32" "p \<noteq> 0" "p \<noteq> ACPI_ROOT_OBJECT"
  shows "AcpiNsWalkNamespace A RootNode p s = Some (AE_OK, fold (call A) (calls A (wa_nodes A s) 1 ts) s)"
  using walk_from [OF assms(1) refl assms(3-5), of p RootNode] assms(6) by (simp add: walk_forest_calls [OF assms(2)])

text \<open>Callbacks that record their calls, for the examples.\<close>

definition record_calls :: "(bool \<times> addr \<times> u32) list walk_args" where
  "record_calls = \<lparr>wa_Type = 6, wa_MaxDepth = 10, wa_Flags = 0, wa_Descending = Some (\<lambda>a l s. (AE_OK, s @ [(False, a, l)])),
     wa_Ascending = Some (\<lambda>a l s. (AE_OK, s @ [(True, a, l)])), wa_Release = Pair AE_OK, wa_Acquire = Pair AE_OK,
     wa_nodes = (\<lambda>_. sample_nodes)\<rparr>"

lemma record_calls_ok: "quiet_args record_calls" "complete_args record_calls" "scope sample_nodes 1 sample_trees"
  by (simp_all add: quiet_args_def quiet_def complete_args_def record_calls_def invoke_def scope_def sample_nodes_def sample_node_def
      sample_trees_def ACPI_NS_WALK_UNLOCK_def)



theorem walk_calls_every_node_witness:
  "AcpiNsWalkNamespace record_calls 1 1 []
    = Some (AE_OK, [(False, 2, 1), (False, 3, 2), (True, 3, 2), (True, 2, 1), (False, 4, 1), (True, 4, 1)])"
proof -
  have nodes: "wa_nodes record_calls s = sample_nodes" for s by (simp add: record_calls_def)
  have "fold (call record_calls) (calls record_calls sample_nodes 1 sample_trees) []
      = [(False, 2, 1), (False, 3, 2), (True, 3, 2), (True, 2, 1), (False, 4, 1), (True, 4, 1)]"
    by (simp add: record_calls_def sample_trees_def sample_nodes_def sample_node_def skipped_def matches_def call_def invoke_def)
  then show ?thesis
    using walk_calls_every_node [OF record_calls_ok(1,2), of "[]" 1 sample_trees 1] record_calls_ok(3)
    by (simp add: nodes sample_trees_def ACPI_ROOT_OBJECT_def)
qed

end
