(* ===== verification/NsAlloc.thy ===== *)
theory NsAlloc
  imports Namespace
begin

text \<open>
  Deletion of namespace nodes: \<^verbatim>\<open>components/namespace/nsalloc.c\<close>, with \<open>AcpiNsDetachObject\<close> of \<^verbatim>\<open>nsobject.c\<close>.

  The state has the nodes, the operand objects, of which the members that this code reads are modelled, and a rest \<open>'e\<close>
  that belongs to the services. The services (freeing memory, dropping a reference, removing an address range, the handler
  of attached data, the namespace mutex) are arguments; \<open>services_ok\<close> is what is required of them. A released node
  is no longer in the heap.
\<close>

section \<open>State and services\<close>

record operand =
  ob_NextObject :: addr
  ob_DescriptorType :: u8
  ob_Type :: u8
  ob_SpaceId :: u8
  ob_AmlStart :: addr
  ob_Handler :: addr
  ob_Pointer :: addr

record 'e ns =
  Nodes :: nheap
  Objects :: "addr \<Rightarrow> operand"
  Ext :: 'e

record 'e services =
  sv_free :: "addr \<Rightarrow> 'e ns \<Rightarrow> 'e ns"
  sv_remove_range :: "u8 \<Rightarrow> addr \<Rightarrow> 'e ns \<Rightarrow> 'e ns"
  sv_remove_reference :: "addr \<Rightarrow> 'e ns \<Rightarrow> 'e ns"
  sv_data_handler :: "addr \<Rightarrow> addr \<Rightarrow> addr \<Rightarrow> 'e ns \<Rightarrow> 'e ns"
  sv_acquire :: "'e ns \<Rightarrow> acpi_status \<times> 'e ns"
  sv_release :: "'e ns \<Rightarrow> acpi_status \<times> 'e ns"

definition ANOBJ_ALLOCATED_BUFFER :: u16 where "ANOBJ_ALLOCATED_BUFFER = 0x40"

text \<open>
  What a pointer to an object shows. The node that an alias points to begins like an operand object: its object, its
  descriptor type and its type are in the place of the next object, the descriptor type and the type.
\<close>

definition descriptor :: "'e ns \<Rightarrow> addr \<Rightarrow> operand" where
  "descriptor s a = (case Nodes s a of
     None \<Rightarrow> Objects s a
   | Some n \<Rightarrow> (Objects s a)\<lparr>ob_NextObject := nd_Object n, ob_DescriptorType := ACPI_DESC_TYPE_NAMED, ob_Type := nd_Type n\<rparr>)"

definition set_nd :: "addr \<Rightarrow> (ns_node \<Rightarrow> ns_node) \<Rightarrow> 'e ns \<Rightarrow> 'e ns option" where
  "set_nd a f s = map_option (\<lambda>h. s\<lparr>Nodes := h\<rparr>) (set_node a f (Nodes s))"

section \<open>Detaching and deleting\<close>

text \<open>The object that is detached is on an operand list: the node keeps what follows it and its second descriptor.\<close>

definition AcpiNsDetachObject :: "'e services \<Rightarrow> addr \<Rightarrow> 'e ns \<Rightarrow> 'e ns option" where
  "AcpiNsDetachObject sv Node s =
     (case Nodes s Node of
        None \<Rightarrow> None
      | Some n \<Rightarrow>
          let ObjDesc = nd_Object n
          in if ObjDesc = 0 \<or> ob_Type (descriptor s ObjDesc) = ACPI_TYPE_LOCAL_DATA then Some s
             else let s = (if nd_Flags n AND ANOBJ_ALLOCATED_BUFFER \<noteq> 0 \<and> ob_Type (descriptor s ObjDesc) = ACPI_TYPE_METHOD
                           then sv_free sv (ob_AmlStart (Objects s ObjDesc)) s else s);
                      s = (if ob_Type (descriptor s ObjDesc) = ACPI_TYPE_REGION
                           then sv_remove_range sv (ob_SpaceId (Objects s ObjDesc)) Node s else s)
                  in (case set_nd Node (\<lambda>n. n\<lparr>nd_Object := 0\<rparr>) s of
                        None \<Rightarrow> None
                      | Some s \<Rightarrow>
                          let Next = ob_NextObject (descriptor s ObjDesc);
                              operand = ob_DescriptorType (descriptor s ObjDesc) = ACPI_DESC_TYPE_OPERAND;
                              Object = (if operand
                                        then if Next \<noteq> 0 \<and> ob_Type (descriptor s Next) \<noteq> ACPI_TYPE_LOCAL_DATA
                                             then ob_NextObject (descriptor s Next) else Next
                                        else 0);
                              s' = (if operand \<and> Next \<noteq> 0 \<and> ob_Type (descriptor s Next) = ACPI_TYPE_LOCAL_DATA
                                    then s\<lparr>Objects := (Objects s)(ObjDesc := (Objects s ObjDesc)\<lparr>ob_NextObject := 0\<rparr>)\<rparr> else s)
                          in (case set_nd Node (\<lambda>n. n\<lparr>nd_Object := Object, nd_Type := ACPI_TYPE_ANY\<rparr>) s' of
                                None \<Rightarrow> None
                              | Some s \<Rightarrow> Some (sv_remove_reference sv ObjDesc s))))"

partial_function (option) delete_data :: "'e services \<Rightarrow> addr \<Rightarrow> addr \<Rightarrow> 'e ns \<Rightarrow> 'e ns option" where
  "delete_data sv Node ObjDesc s =
     (if ObjDesc \<noteq> 0 \<and> ob_Type (descriptor s ObjDesc) = ACPI_TYPE_LOCAL_DATA
      then let s = (if ob_Handler (Objects s ObjDesc) \<noteq> 0
                    then sv_data_handler sv (ob_Handler (Objects s ObjDesc)) Node (ob_Pointer (Objects s ObjDesc)) s else s);
               NextDesc = ob_NextObject (descriptor s ObjDesc)
           in delete_data sv Node NextDesc (sv_remove_reference sv ObjDesc s)
      else Some s)"

text \<open>\<open>RootNode\<close> is \<open>AcpiGbl_RootNode\<close>, which is not released.\<close>

definition AcpiNsDeleteNode :: "'e services \<Rightarrow> addr \<Rightarrow> addr \<Rightarrow> 'e ns \<Rightarrow> 'e ns option" where
  "AcpiNsDeleteNode sv RootNode Node s =
     (if Node = 0 then Some s
      else case AcpiNsDetachObject sv Node s of
             None \<Rightarrow> None
           | Some s \<Rightarrow>
               (case Nodes s Node of
                  None \<Rightarrow> None
                | Some n \<Rightarrow>
                    (case delete_data sv Node (nd_Object n) s of
                       None \<Rightarrow> None
                     | Some s \<Rightarrow> if Node = RootNode then Some s else Some (s\<lparr>Nodes := (Nodes s)(Node := None)\<rparr>))))"

text \<open>The node before the given one in the list that starts at \<open>NextNode\<close>.\<close>

partial_function (option) prev_node :: "nheap \<Rightarrow> addr \<Rightarrow> addr \<Rightarrow> addr \<Rightarrow> addr option" where
  "prev_node h Node PrevNode NextNode =
     (if NextNode \<noteq> Node
      then case h NextNode of None \<Rightarrow> None | Some n \<Rightarrow> prev_node h Node NextNode (nd_Peer n)
      else Some PrevNode)"

definition AcpiNsRemoveNode :: "'e services \<Rightarrow> addr \<Rightarrow> addr \<Rightarrow> 'e ns \<Rightarrow> 'e ns option" where
  "AcpiNsRemoveNode sv RootNode Node s =
     (case Nodes s Node of
        None \<Rightarrow> None
      | Some n \<Rightarrow>
          (case Nodes s (nd_Parent n) of
             None \<Rightarrow> None
           | Some p \<Rightarrow>
               (case prev_node (Nodes s) Node 0 (nd_Child p) of
                  None \<Rightarrow> None
                | Some PrevNode \<Rightarrow>
                    (case (if PrevNode \<noteq> 0 then set_nd PrevNode (\<lambda>m. m\<lparr>nd_Peer := nd_Peer n\<rparr>) s
                           else set_nd (nd_Parent n) (\<lambda>m. m\<lparr>nd_Child := nd_Peer n\<rparr>) s) of
                       None \<Rightarrow> None
                     | Some s \<Rightarrow> AcpiNsDeleteNode sv RootNode Node s))))"

partial_function (option) delete_peers :: "'e services \<Rightarrow> addr \<Rightarrow> addr \<Rightarrow> 'e ns \<Rightarrow> 'e ns option" where
  "delete_peers sv RootNode NextNode s =
     (if NextNode \<noteq> 0
      then case Nodes s NextNode of
             None \<Rightarrow> None
           | Some n \<Rightarrow>
               (case AcpiNsDeleteNode sv RootNode NextNode s of
                  None \<Rightarrow> None
                | Some s \<Rightarrow> delete_peers sv RootNode (nd_Peer n) s)
      else Some s)"

definition AcpiNsDeleteChildren :: "'e services \<Rightarrow> addr \<Rightarrow> addr \<Rightarrow> 'e ns \<Rightarrow> 'e ns option" where
  "AcpiNsDeleteChildren sv RootNode ParentNode s =
     (if ParentNode = 0 then Some s
      else case Nodes s ParentNode of
             None \<Rightarrow> None
           | Some p \<Rightarrow>
               (case delete_peers sv RootNode (nd_Child p) s of
                  None \<Rightarrow> None
                | Some s \<Rightarrow> set_nd ParentNode (\<lambda>n. n\<lparr>nd_Child := 0\<rparr>) s))"

section \<open>Deleting a subtree\<close>

partial_function (option) subtree_loop :: "'e services \<Rightarrow> addr \<Rightarrow> addr \<Rightarrow> addr \<Rightarrow> u32 \<Rightarrow> 'e ns \<Rightarrow> 'e ns option" where
  "subtree_loop sv RootNode ParentNode ChildNode Level s =
     (if Level > 0
      then case AcpiNsGetNextNode ParentNode ChildNode (Nodes s) of
             None \<Rightarrow> None
           | Some ChildNode \<Rightarrow>
               if ChildNode \<noteq> 0
               then (case AcpiNsDetachObject sv ChildNode s of
                       None \<Rightarrow> None
                     | Some s \<Rightarrow>
                         (case Nodes s ChildNode of
                            None \<Rightarrow> None
                          | Some c \<Rightarrow>
                              if nd_Child c \<noteq> 0 then subtree_loop sv RootNode ChildNode 0 (Level + 1) s
                              else subtree_loop sv RootNode ParentNode ChildNode Level s))
               else (case AcpiNsDeleteChildren sv RootNode ParentNode s of
                       None \<Rightarrow> None
                     | Some s \<Rightarrow>
                         (case Nodes s ParentNode of
                            None \<Rightarrow> None
                          | Some p \<Rightarrow> subtree_loop sv RootNode (nd_Parent p) ParentNode (Level - 1) s))
      else Some s)"

definition AcpiNsDeleteNamespaceSubtree :: "'e services \<Rightarrow> addr \<Rightarrow> addr \<Rightarrow> 'e ns \<Rightarrow> 'e ns option" where
  "AcpiNsDeleteNamespaceSubtree sv RootNode ParentNode s =
     (if ParentNode = 0 then Some s
      else case sv_acquire sv s of
             (Status, s) \<Rightarrow>
               if ACPI_FAILURE Status then Some s
               else (case subtree_loop sv RootNode ParentNode 0 1 s of
                       None \<Rightarrow> None
                     | Some s \<Rightarrow> Some (snd (sv_release sv s))))"

section \<open>Deleting the nodes of an owner\<close>

partial_function (option) owner_loop ::
  "'e services \<Rightarrow> addr \<Rightarrow> u16 \<Rightarrow> addr \<Rightarrow> addr \<Rightarrow> addr \<Rightarrow> u32 \<Rightarrow> 'e ns \<Rightarrow> 'e ns option" where
  "owner_loop sv RootNode OwnerId DeletionNode ParentNode ChildNode Level s =
     (if Level > 0
      then case AcpiNsGetNextNode ParentNode ChildNode (Nodes s) of
             None \<Rightarrow> None
           | Some ChildNode \<Rightarrow>
               (case (if DeletionNode \<noteq> 0
                      then case AcpiNsDeleteChildren sv RootNode DeletionNode s of
                             None \<Rightarrow> None | Some s \<Rightarrow> AcpiNsRemoveNode sv RootNode DeletionNode s
                      else Some s) of
                  None \<Rightarrow> None
                | Some s \<Rightarrow>
                    if ChildNode \<noteq> 0
                    then (case Nodes s ChildNode of
                            None \<Rightarrow> None
                          | Some c \<Rightarrow>
                              (case (if nd_OwnerId c = OwnerId then AcpiNsDetachObject sv ChildNode s else Some s) of
                                 None \<Rightarrow> None
                               | Some s \<Rightarrow>
                                   (case Nodes s ChildNode of
                                      None \<Rightarrow> None
                                    | Some c \<Rightarrow>
                                        if nd_Child c \<noteq> 0 then owner_loop sv RootNode OwnerId 0 ChildNode 0 (Level + 1) s
                                        else owner_loop sv RootNode OwnerId (if nd_OwnerId c = OwnerId then ChildNode else 0)
                                               ParentNode ChildNode Level s)))
                    else (case Nodes s ParentNode of
                            None \<Rightarrow> None
                          | Some p \<Rightarrow>
                              owner_loop sv RootNode OwnerId
                                (if Level - 1 \<noteq> 0 \<and> nd_OwnerId p = OwnerId then ParentNode else 0)
                                (nd_Parent p) ParentNode (Level - 1) s))
      else Some s)"

definition AcpiNsDeleteNamespaceByOwner :: "'e services \<Rightarrow> addr \<Rightarrow> u16 \<Rightarrow> 'e ns \<Rightarrow> 'e ns option" where
  "AcpiNsDeleteNamespaceByOwner sv RootNode OwnerId s =
     (if OwnerId = 0 then Some s
      else case sv_acquire sv s of
             (Status, s) \<Rightarrow>
               if ACPI_FAILURE Status then Some s
               else (case owner_loop sv RootNode OwnerId 0 RootNode 0 1 s of
                       None \<Rightarrow> None
                     | Some s \<Rightarrow> Some (snd (sv_release sv s))))"

section \<open>What is required of the services\<close>

text \<open>
  \<open>good\<close> are the states in which the services work. They leave the nodes as they are, and keep \<open>good\<close>, as do
  the changes this code makes itself; no node has the type of attached data, and the loop over attached data ends.
\<close>

definition typed :: "nheap \<Rightarrow> bool" where
  "typed h \<longleftrightarrow> (\<forall>b n. h b = Some n \<longrightarrow> nd_Type n \<noteq> ACPI_TYPE_LOCAL_DATA)"

lemma typedD: "typed h \<Longrightarrow> h b = Some n \<Longrightarrow> nd_Type n \<noteq> ACPI_TYPE_LOCAL_DATA"
  by (simp add: typed_def)

lemma typed_upd: "typed h \<Longrightarrow> nd_Type n \<noteq> ACPI_TYPE_LOCAL_DATA \<Longrightarrow> typed (h(b \<mapsto> n))" "typed h \<Longrightarrow> typed (h(b := None))"
  by (auto simp: typed_def)

definition keeps :: "('e ns \<Rightarrow> bool) \<Rightarrow> ('e ns \<Rightarrow> 'e ns) \<Rightarrow> bool" where
  "keeps good f \<longleftrightarrow> (\<forall>s. good s \<longrightarrow> good (f s) \<and> Nodes (f s) = Nodes s)"

definition services_ok :: "'e services \<Rightarrow> ('e ns \<Rightarrow> bool) \<Rightarrow> bool" where
  "services_ok sv good \<longleftrightarrow>
     (\<forall>a. keeps good (sv_free sv a)) \<and> (\<forall>i a. keeps good (sv_remove_range sv i a)) \<and> (\<forall>a. keeps good (sv_remove_reference sv a))
     \<and> keeps good (\<lambda>s. snd (sv_acquire sv s)) \<and> keeps good (\<lambda>s. snd (sv_release sv s))
     \<and> (\<forall>a. keeps good (\<lambda>s. s\<lparr>Objects := (Objects s)(a := (Objects s a)\<lparr>ob_NextObject := 0\<rparr>)\<rparr>))
     \<and> (\<forall>s. good s \<longrightarrow> typed (Nodes s)) \<and> (\<forall>s h. good s \<longrightarrow> typed h \<longrightarrow> good (s\<lparr>Nodes := h\<rparr>))
     \<and> (\<forall>s b a. good s \<longrightarrow> (\<exists>s'. delete_data sv b a s = Some s' \<and> good s' \<and> Nodes s' = Nodes s))"

lemma keepsD: "keeps good f \<Longrightarrow> good s \<Longrightarrow> good (f s)" "keeps good f \<Longrightarrow> good s \<Longrightarrow> Nodes (f s) = Nodes s"
  by (auto simp: keeps_def)

lemma services_okD:
  assumes "services_ok sv good"
  shows "keeps good (sv_free sv a)" "keeps good (sv_remove_range sv i a)" "keeps good (sv_remove_reference sv a)"
    "keeps good (\<lambda>s. snd (sv_acquire sv s))" "keeps good (\<lambda>s. snd (sv_release sv s))"
    "keeps good (\<lambda>s. s\<lparr>Objects := (Objects s)(a := (Objects s a)\<lparr>ob_NextObject := 0\<rparr>)\<rparr>)"
    "good s \<Longrightarrow> typed h \<Longrightarrow> good (s\<lparr>Nodes := h\<rparr>)"
    "good s \<Longrightarrow> \<exists>s'. delete_data sv b a s = Some s' \<and> good s' \<and> Nodes s' = Nodes s"
    "good s \<Longrightarrow> typed (Nodes s)"
  using assms unfolding services_ok_def by blast+

text \<open>A node after its object has been detached.\<close>

definition detached :: "ns_node \<Rightarrow> ns_node \<Rightarrow> bool" where
  "detached n n' \<longleftrightarrow> (\<exists>ob ty. n' = n\<lparr>nd_Object := ob, nd_Type := ty\<rparr>)"

lemma detached_links: "detached n n' \<Longrightarrow> links n' = links n \<and> nd_OwnerId n' = nd_OwnerId n \<and> nd_Name n' = nd_Name n"
  by (auto simp: detached_def links_def)

lemma detached_refl: "detached n n"
proof -
  have "n = n\<lparr>nd_Object := nd_Object n, nd_Type := nd_Type n\<rparr>" by simp
  then show ?thesis unfolding detached_def by blast
qed

lemma detach_node:
  assumes ok: "services_ok sv good" and good: "good s" and n: "Nodes s b = Some n"
  shows "\<exists>s' n'. AcpiNsDetachObject sv b s = Some s' \<and> good s' \<and> Nodes s' = (Nodes s)(b \<mapsto> n') \<and> detached n n'"
proof (cases "nd_Object n = 0 \<or> ob_Type (descriptor s (nd_Object n)) = ACPI_TYPE_LOCAL_DATA")
  case True
  then have "AcpiNsDetachObject sv b s = Some s" using n by (simp add: AcpiNsDetachObject_def Let_def)
  moreover have "Nodes s = (Nodes s)(b \<mapsto> n)" using n by (simp add: fun_upd_idem)
  ultimately show ?thesis using good detached_refl by metis
next
  case False
  let ?o = "nd_Object n"
  define s1 where "s1 = (if nd_Flags n AND ANOBJ_ALLOCATED_BUFFER \<noteq> 0 \<and> ob_Type (descriptor s ?o) = ACPI_TYPE_METHOD
      then sv_free sv (ob_AmlStart (Objects s ?o)) s else s)"
  define s2 where "s2 = (if ob_Type (descriptor s1 ?o) = ACPI_TYPE_REGION then sv_remove_range sv (ob_SpaceId (Objects s1 ?o)) b s1 else s1)"
  have s1: "good s1" "Nodes s1 = Nodes s" using keepsD [OF services_okD(1) [OF ok]] good by (auto simp: s1_def)
  have s2: "good s2" "Nodes s2 = Nodes s" using keepsD [OF services_okD(2) [OF ok]] s1 by (auto simp: s2_def)
  have ty: "typed (Nodes s)" "nd_Type n \<noteq> ACPI_TYPE_LOCAL_DATA" "(ACPI_TYPE_ANY :: u8) \<noteq> ACPI_TYPE_LOCAL_DATA"
    using services_okD(9) [OF ok good] n typedD by (auto simp: ACPI_TYPE_ANY_def ACPI_TYPE_LOCAL_DATA_def)
  define s3 where "s3 = s2\<lparr>Nodes := (Nodes s)(b \<mapsto> n\<lparr>nd_Object := 0\<rparr>)\<rparr>"
  have s3: "good s3" "Nodes s3 = (Nodes s)(b \<mapsto> n\<lparr>nd_Object := 0\<rparr>)"
    using services_okD(7) [OF ok s2(1) typed_upd(1) [OF ty(1)]] ty(2) by (simp_all add: s3_def)
  have set3: "set_nd b (\<lambda>n. n\<lparr>nd_Object := 0\<rparr>) s2 = Some s3" using n s2(2) by (simp add: set_nd_def set_node_def s3_def)
  define Next where "Next = ob_NextObject (descriptor s3 ?o)"
  define operand where "operand \<longleftrightarrow> ob_DescriptorType (descriptor s3 ?o) = ACPI_DESC_TYPE_OPERAND"
  define Obj where "Obj = (if operand then if Next \<noteq> 0 \<and> ob_Type (descriptor s3 Next) \<noteq> ACPI_TYPE_LOCAL_DATA
      then ob_NextObject (descriptor s3 Next) else Next else 0)"
  define s4 where "s4 = (if operand \<and> Next \<noteq> 0 \<and> ob_Type (descriptor s3 Next) = ACPI_TYPE_LOCAL_DATA
      then s3\<lparr>Objects := (Objects s3)(?o := (Objects s3 ?o)\<lparr>ob_NextObject := 0\<rparr>)\<rparr> else s3)"
  have s4: "good s4" "Nodes s4 = Nodes s3"
    using keepsD [OF services_okD(6) [OF ok, of ?o]] s3(1) by (auto simp: s4_def)
  let ?n = "n\<lparr>nd_Object := Obj, nd_Type := ACPI_TYPE_ANY\<rparr>"
  define s5 where "s5 = s4\<lparr>Nodes := (Nodes s)(b \<mapsto> ?n)\<rparr>"
  have s5: "good s5" "Nodes s5 = (Nodes s)(b \<mapsto> ?n)" using services_okD(7) [OF ok s4(1) typed_upd(1) [OF ty(1)]] ty(3) by (simp_all add: s5_def)
  have set5: "set_nd b (\<lambda>n. n\<lparr>nd_Object := Obj, nd_Type := ACPI_TYPE_ANY\<rparr>) s4 = Some s5"
    using s3(2) s4(2) by (simp add: set_nd_def set_node_def s5_def)
  have "AcpiNsDetachObject sv b s = Some (sv_remove_reference sv ?o s5)"
    unfolding AcpiNsDetachObject_def n option.case Let_def if_not_P [OF False] s1_def [symmetric] s2_def [symmetric] set3
      Next_def [symmetric] operand_def [symmetric] Obj_def [symmetric] s4_def [symmetric] set5 by (rule refl)
  then show ?thesis using keepsD [OF services_okD(3) [OF ok] s5(1)] s5(2) by (auto simp: detached_def simp del: fun_upd_apply)
qed

lemma delete_node:
  assumes ok: "services_ok sv good" and good: "good s" and n: "Nodes s b = Some n" "b \<noteq> 0" "b \<noteq> RootNode"
  shows "\<exists>s'. AcpiNsDeleteNode sv RootNode b s = Some s' \<and> good s' \<and> Nodes s' = (Nodes s)(b := None)"
proof -
  obtain s1 n1 where s1: "AcpiNsDetachObject sv b s = Some s1" "good s1" "Nodes s1 = (Nodes s)(b \<mapsto> n1)"
    using detach_node [OF ok good n(1)] by blast
  obtain s2 where s2: "delete_data sv b (nd_Object n1) s1 = Some s2" "good s2" "Nodes s2 = Nodes s1"
    using services_okD(8) [OF ok s1(2)] by blast
  have "AcpiNsDeleteNode sv RootNode b s = Some (s2\<lparr>Nodes := (Nodes s2)(b := None)\<rparr>)"
    using n s1 s2 by (simp add: AcpiNsDeleteNode_def)
  then show ?thesis using services_okD(7) [OF ok s2(2) typed_upd(2) [OF services_okD(9) [OF ok s2(2)], of b]] s2(3) s1(3) by simp
qed

text \<open>Removing a set of nodes from the heap.\<close>

definition without :: "nheap \<Rightarrow> addr set \<Rightarrow> nheap" where "without h B = (\<lambda>a. if a \<in> B then None else h a)"

lemma without_simps [simp]: "without h {} = h" "without (without h B) C = without h (B \<union> C)" "(without h B)(b := None) = without h (insert b B)"
  by (auto simp: without_def)

abbreviation roots :: "ntree list \<Rightarrow> addr set" where "roots ts \<equiv> root_of ` set ts"

lemma roots_subset: "roots ts \<subseteq> set (nodes_of ts)"
  using roots_in_nodes [of ts] by simp

lemma delete_peers_forest:
  assumes ok: "services_ok sv good"
  shows "good s \<Longrightarrow> forest (Nodes s) p a ts \<Longrightarrow> distinct (nodes_of ts) \<Longrightarrow> RootNode \<notin> roots ts \<Longrightarrow>
    \<exists>s'. delete_peers sv RootNode a s = Some s' \<and> good s' \<and> Nodes s' = without (Nodes s) (roots ts)"
proof (induction ts arbitrary: a s)
  case Nil
  then show ?case by (simp add: delete_peers.simps)
next
  case (Cons t ts)
  obtain b cs where t: "t = NT b cs" by (cases t)
  obtain n where n: "a = b" "b \<noteq> 0" "Nodes s b = Some n" "forest (Nodes s) p (nd_Peer n) ts"
    using Cons.prems(2) unfolding t by (rule forest_ConsE) simp
  have "b \<noteq> RootNode" using Cons.prems(4) by (auto simp: t)
  then obtain s1 where s1: "AcpiNsDeleteNode sv RootNode b s = Some s1" "good s1" "Nodes s1 = (Nodes s)(b := None)"
    using delete_node [OF ok Cons.prems(1) n(3,2)] by blast
  have "forest (Nodes s1) p (nd_Peer n) ts"
    by (rule forest_frame [OF n(4)]) (use Cons.prems(3) s1(3) in \<open>auto simp: t\<close>)
  moreover have "distinct (nodes_of ts)" "RootNode \<notin> roots ts" using Cons.prems(3,4) by (auto simp: t)
  ultimately obtain s2 where "delete_peers sv RootNode (nd_Peer n) s1 = Some s2" "good s2" "Nodes s2 = without (Nodes s1) (roots ts)"
    using Cons.IH [OF s1(2)] by blast
  then have "delete_peers sv RootNode a s = Some s2 \<and> good s2 \<and> Nodes s2 = without (Nodes s) (roots (t # ts))"
    using n s1 by (subst delete_peers.simps) (auto simp: without_def t)
  then show ?case by blast
qed

lemma delete_children:
  assumes ok: "services_ok sv good" and good: "good s" and q: "q \<noteq> 0" "Nodes s q = Some n" "forest (Nodes s) q (nd_Child n) cs"
    and d: "distinct (nodes_of cs)" "q \<notin> set (nodes_of cs)" "RootNode \<notin> set (nodes_of cs)"
  shows "\<exists>s'. AcpiNsDeleteChildren sv RootNode q s = Some s' \<and> good s' \<and> Nodes s' = (without (Nodes s) (roots cs))(q \<mapsto> n\<lparr>nd_Child := 0\<rparr>)"
proof -
  have "RootNode \<notin> roots cs" "q \<notin> roots cs" using d roots_subset by blast+
  then obtain s1 where s1: "delete_peers sv RootNode (nd_Child n) s = Some s1" "good s1" "Nodes s1 = without (Nodes s) (roots cs)"
    using delete_peers_forest [OF ok good q(3) d(1)] by blast
  have "Nodes s1 q = Some n" using s1(3) q(2) \<open>q \<notin> roots cs\<close> by (simp add: without_def)
  then have "AcpiNsDeleteChildren sv RootNode q s = Some (s1\<lparr>Nodes := (Nodes s1)(q \<mapsto> n\<lparr>nd_Child := 0\<rparr>)\<rparr>)"
    using q(1,2) s1(1) by (simp add: AcpiNsDeleteChildren_def set_nd_def set_node_def)
  moreover have "nd_Type (n\<lparr>nd_Child := 0\<rparr>) \<noteq> ACPI_TYPE_LOCAL_DATA" using typedD [OF services_okD(9) [OF ok good] q(2)] by simp
  ultimately show ?thesis using services_okD(7) [OF ok s1(2) typed_upd(1) [OF services_okD(9) [OF ok s1(2)]]] s1(3) by simp
qed

section \<open>The deletion of a subtree\<close>

text \<open>
  The nodes below the roots are gone; a root has lost its object and its children; nothing else has changed.
\<close>

fun below :: "ntree list \<Rightarrow> addr list" where
  "below [] = []"
| "below (NT b cs # ts) = nodes_of cs @ below ts"

definition cut :: "ns_node \<Rightarrow> ns_node \<Rightarrow> bool" where
  "cut n n' \<longleftrightarrow> (\<exists>ob ty. n' = n\<lparr>nd_Object := ob, nd_Type := ty, nd_Child := 0\<rparr>)"

definition cut_below :: "nheap \<Rightarrow> ntree list \<Rightarrow> nheap \<Rightarrow> bool" where
  "cut_below h ts h' \<longleftrightarrow> (\<forall>b \<in> set (below ts). h' b = None) \<and> (\<forall>b \<in> roots ts. \<exists>n n'. h b = Some n \<and> h' b = Some n' \<and> cut n n')
     \<and> (\<forall>b. b \<notin> set (nodes_of ts) \<longrightarrow> h' b = h b)"

abbreviation leaves :: "ntree list \<Rightarrow> ntree list" where "leaves ts \<equiv> map (\<lambda>t. NT (root_of t) []) ts"

lemma nodes_leaves: "set (nodes_of (leaves ts)) = roots ts" "distinct (nodes_of ts) \<Longrightarrow> distinct (nodes_of (leaves ts))" "roots (leaves ts) = roots ts"
proof -
  have eq: "nodes_of (leaves ts) = map root_of ts" by (induction ts) auto
  then show "set (nodes_of (leaves ts)) = roots ts" by simp
  show "distinct (nodes_of (leaves ts))" if "distinct (nodes_of ts)"
    unfolding eq using that
  proof (induction ts)
    case (Cons t ts)
    then show ?case using roots_subset [of ts] by (cases t) auto
  qed simp
  show "roots (leaves ts) = roots ts" by (simp add: image_image)
qed

lemma nodes_below: "set (nodes_of ts) = roots ts \<union> set (below ts)"
  by (induction ts rule: below.induct) auto

lemma cut_below_leaves:
  "forest h p a ts \<Longrightarrow> \<forall>b \<in> roots ts. \<exists>n n'. h b = Some n \<and> h' b = Some n' \<and> cut n n' \<Longrightarrow> forest h' p a (leaves ts)"
proof (induction ts arbitrary: a)
  case (Cons t ts)
  obtain b cs where t: "t = NT b cs" by (cases t)
  obtain n where n: "a = b" "b \<noteq> 0" "h b = Some n" "nd_Parent n = p" "forest h p (nd_Peer n) ts"
    using Cons.prems(1) unfolding t by (rule forest_ConsE) simp
  obtain n' where n': "h' b = Some n'" "cut n n'" using Cons.prems(2) n(3) by (auto simp: t)
  have "forest h' p (nd_Peer n) (leaves ts)" using Cons.IH [OF n(5)] Cons.prems(2) by simp
  then show ?case using n n' by (auto simp: t cut_def)
qed simp

text \<open>One step down to a child, everything below it, and back.\<close>

lemma next_child: "h p = Some n \<Longrightarrow> AcpiNsGetNextNode p 0 h = Some (nd_Child n)"
  by (simp add: AcpiNsGetNextNode_def)

lemma next_peer: "h c = Some n \<Longrightarrow> c \<noteq> 0 \<Longrightarrow> AcpiNsGetNextNode p c h = Some (nd_Peer n)"
  by (simp add: AcpiNsGetNextNode_def)

lemma loop_up:
  assumes ok: "services_ok sv good" and good: "good s" and q: "q \<noteq> 0" "Nodes s q = Some n" "forest (Nodes s) q (nd_Child n) cs"
    and d: "distinct (nodes_of cs)" "q \<notin> set (nodes_of cs)" "RootNode \<notin> set (nodes_of cs)" and L: "Level > 0"
    and last: "AcpiNsGetNextNode q c (Nodes s) = Some 0"
  shows "\<exists>s'. subtree_loop sv RootNode q c Level s = subtree_loop sv RootNode (nd_Parent n) q (Level - 1) s' \<and> good s'
    \<and> Nodes s' = (without (Nodes s) (roots cs))(q \<mapsto> n\<lparr>nd_Child := 0\<rparr>)"
proof -
  obtain s' where s': "AcpiNsDeleteChildren sv RootNode q s = Some s'" "good s'" "Nodes s' = (without (Nodes s) (roots cs))(q \<mapsto> n\<lparr>nd_Child := 0\<rparr>)"
    using delete_children [OF ok good q d] by blast
  have "subtree_loop sv RootNode q c Level s = subtree_loop sv RootNode (nd_Parent n) q (Level - 1) s'"
    using L last s'(1,3) by (subst subtree_loop.simps) simp
  then show ?thesis using s' by blast
qed

lemma subtree_forest:
  assumes ok: "services_ok sv good"
  shows "good s \<Longrightarrow> forest (Nodes s) p a ts \<Longrightarrow> distinct (nodes_of ts) \<Longrightarrow> p \<notin> set (nodes_of ts) \<Longrightarrow> RootNode \<notin> set (nodes_of ts) \<Longrightarrow>
    AcpiNsGetNextNode p c (Nodes s) = Some a \<Longrightarrow> Level > 0 \<Longrightarrow> unat Level + depth_of ts < 2 ^ 32 \<Longrightarrow>
    \<exists>c' s'. subtree_loop sv RootNode p c Level s = subtree_loop sv RootNode p c' Level s' \<and> good s'
      \<and> AcpiNsGetNextNode p c' (Nodes s') = Some 0 \<and> cut_below (Nodes s) ts (Nodes s')"
proof (induction ts arbitrary: p a c Level s rule: nodes_of.induct)
  case (1 p a c Level s)
  then show ?case by (auto simp: cut_below_def)
next
  case (2 b cs ts p a c Level s)
  obtain n where n: "a = b" "b \<noteq> 0" "Nodes s b = Some n" "nd_Parent n = p" "forest (Nodes s) b (nd_Child n) cs" "forest (Nodes s) p (nd_Peer n) ts"
    using "2.prems"(2) by (rule forest_ConsE) simp
  have d: "b \<notin> set (nodes_of cs)" "b \<notin> set (nodes_of ts)" "set (nodes_of cs) \<inter> set (nodes_of ts) = {}" "distinct (nodes_of cs)"
      "distinct (nodes_of ts)" "p \<noteq> b" "p \<notin> set (nodes_of cs)" "p \<notin> set (nodes_of ts)" "RootNode \<notin> set (nodes_of cs)" "RootNode \<notin> set (nodes_of ts)"
    using "2.prems"(3-5) by auto
  have L: "unat Level + depth_of ts < 2 ^ 32" using "2.prems"(8) by simp
  have up: "unat (Level + 1) = unat Level + 1" using unat_add_nowrap [of Level 1] "2.prems"(8) by simp
  then have L1: "Level + 1 > 0" "unat (Level + 1) + depth_of cs < 2 ^ 32" "Level + 1 - 1 = Level" using "2.prems"(8) by (auto simp: word_less_nat_alt)
  obtain s1 n1 where s1: "AcpiNsDetachObject sv b s = Some s1" "good s1" "Nodes s1 = (Nodes s)(b \<mapsto> n1)" "detached n n1"
    using detach_node [OF ok "2.prems"(1) n(3)] by blast
  have n1: "nd_Parent n1 = p" "nd_Child n1 = nd_Child n" "nd_Peer n1 = nd_Peer n" using s1(4) n(4) by (auto simp: detached_def)
  have step: "subtree_loop sv RootNode p c Level s =
      (if nd_Child n \<noteq> 0 then subtree_loop sv RootNode b 0 (Level + 1) s1 else subtree_loop sv RootNode p b Level s1)"
    using "2.prems"(6,7) n s1 n1 by (subst subtree_loop.simps) simp
  have "\<exists>s2 n2. subtree_loop sv RootNode p c Level s = subtree_loop sv RootNode p b Level s2 \<and> good s2
      \<and> Nodes s2 = (without (Nodes s) (set (nodes_of cs)))(b \<mapsto> n2) \<and> cut n n2"
  proof (cases "cs = []")
    case True
    then have "n1 = n1\<lparr>nd_Child := 0\<rparr>" using n(5) n1(2) by simp
    then have "cut n n1" using s1(4) unfolding cut_def detached_def by (metis ns_node.update_convs(6) ns_node.cases_scheme)
    then show ?thesis using step s1 n(5) True by auto
  next
    case False
    have "nd_Child n \<noteq> 0" using n(5) False by (cases cs rule: nodes_of.cases) auto
    have cs1: "forest (Nodes s1) b (nd_Child n) cs" by (rule forest_frame [OF n(5)]) (use d(1) s1(3) in auto)
    have nb: "AcpiNsGetNextNode b 0 (Nodes s1) = Some (nd_Child n)" using s1(3) n1(2) by (simp add: AcpiNsGetNextNode_def)
    obtain c' s' where s': "subtree_loop sv RootNode b 0 (Level + 1) s1 = subtree_loop sv RootNode b c' (Level + 1) s'" "good s'"
        "AcpiNsGetNextNode b c' (Nodes s') = Some 0" "cut_below (Nodes s1) cs (Nodes s')"
      using "2.IH"(1) [OF s1(2) cs1 d(4,1,9) nb L1(1,2)] by blast
    have b': "Nodes s' b = Some n1" using s'(4) d(1) s1(3) by (simp add: cut_below_def)
    have fl: "forest (Nodes s') b (nd_Child n1) (leaves cs)" using cut_below_leaves [OF cs1] s'(4) n1(2) by (simp add: cut_below_def)
    have nl: "b \<notin> set (nodes_of (leaves cs))" "RootNode \<notin> set (nodes_of (leaves cs))"
      unfolding nodes_leaves using d(1,9) roots_subset by blast+
    obtain s2 where s2: "subtree_loop sv RootNode b c' (Level + 1) s' = subtree_loop sv RootNode p b Level s2" "good s2"
        "Nodes s2 = (without (Nodes s') (roots cs))(b \<mapsto> n1\<lparr>nd_Child := 0\<rparr>)"
      using loop_up [OF ok s'(2) n(2) b' fl nodes_leaves(2) [OF d(4)] nl L1(1) s'(3), unfolded L1(3) nodes_leaves(3) n1(1)] by blast
    have "Nodes s2 = (without (Nodes s) (set (nodes_of cs)))(b \<mapsto> n1\<lparr>nd_Child := 0\<rparr>)"
      unfolding s2(3) using s'(4) s1(3) by (auto simp: fun_eq_iff without_def cut_below_def nodes_below)
    moreover have "cut n (n1\<lparr>nd_Child := 0\<rparr>)" using s1(4) by (auto simp: cut_def detached_def)
    ultimately show ?thesis using step s'(1) s2(1,2) \<open>nd_Child n \<noteq> 0\<close> by auto
  qed
  then obtain s2 n2 where s2: "subtree_loop sv RootNode p c Level s = subtree_loop sv RootNode p b Level s2" "good s2"
      "Nodes s2 = (without (Nodes s) (set (nodes_of cs)))(b \<mapsto> n2)" "cut n n2" by blast
  have ts2: "forest (Nodes s2) p (nd_Peer n) ts" by (rule forest_frame [OF n(6)]) (use d(2,3) s2(3) in \<open>auto simp: without_def\<close>)
  have "AcpiNsGetNextNode p b (Nodes s2) = Some (nd_Peer n)" using s2(3,4) n(2) by (auto simp: next_peer cut_def)
  then obtain c' s' where s': "subtree_loop sv RootNode p b Level s2 = subtree_loop sv RootNode p c' Level s'" "good s'"
      "AcpiNsGetNextNode p c' (Nodes s') = Some 0" "cut_below (Nodes s2) ts (Nodes s')"
    using "2.IH"(2) [OF s2(2) ts2 d(5,8,10) _ "2.prems"(7) L] by blast
  have "cut_below (Nodes s) (NT b cs # ts) (Nodes s')"
    unfolding cut_below_def
  proof (intro conjI ballI allI impI)
    fix x assume "x \<in> set (below (NT b cs # ts))"
    then consider "x \<in> set (nodes_of cs)" | "x \<in> set (below ts)" by auto
    then show "Nodes s' x = None"
    proof cases
      case 1
      then have "x \<notin> set (nodes_of ts)" "x \<noteq> b" using d by auto
      then show ?thesis using 1 s'(4) s2(3) by (simp add: cut_below_def without_def)
    next
      case 2
      then show ?thesis using s'(4) by (simp add: cut_below_def)
    qed
  next
    fix x assume "x \<in> roots (NT b cs # ts)"
    then consider "x = b" | "x \<in> roots ts" by auto
    then show "\<exists>n n'. Nodes s x = Some n \<and> Nodes s' x = Some n' \<and> cut n n'"
    proof cases
      case 1
      then show ?thesis using s'(4) s2(3,4) n(3) d(2) by (auto simp: cut_below_def)
    next
      case 2
      then have "x \<in> set (nodes_of ts)" using roots_subset by blast
      then have "Nodes s2 x = Nodes s x" using s2(3) d(2,3) by (auto simp: without_def)
      then show ?thesis using 2 s'(4) unfolding cut_below_def by metis
    qed
  next
    fix x assume "x \<notin> set (nodes_of (NT b cs # ts))"
    then show "Nodes s' x = Nodes s x" using s'(4) s2(3) by (simp add: cut_below_def without_def)
  qed
  then show ?case using s2(1) s' by metis
qed

lemma subtree_deleted:
  assumes ok: "services_ok sv good" and good: "good s" and q: "q \<noteq> 0" "Nodes s q = Some n" "forest (Nodes s) q (nd_Child n) ts"
    and d: "distinct (nodes_of ts)" "q \<notin> set (nodes_of ts)" "RootNode \<notin> set (nodes_of ts)" "depth_of ts + 1 < 2 ^ 32"
  shows "\<exists>s'. subtree_loop sv RootNode q 0 1 s = Some s' \<and> good s' \<and> Nodes s' = (without (Nodes s) (set (nodes_of ts)))(q \<mapsto> n\<lparr>nd_Child := 0\<rparr>)"
proof -
  have first: "AcpiNsGetNextNode q 0 (Nodes s) = Some (nd_Child n)" using q(2) by (rule next_child)
  obtain c' s1 where s1: "subtree_loop sv RootNode q 0 1 s = subtree_loop sv RootNode q c' 1 s1" "good s1"
      "AcpiNsGetNextNode q c' (Nodes s1) = Some 0" "cut_below (Nodes s) ts (Nodes s1)"
    using subtree_forest [OF ok good q(3) d(1-3) first, of 1] d(4) by auto
  have q1: "Nodes s1 q = Some n" using s1(4) d(2) q(2) by (simp add: cut_below_def)
  have fl: "forest (Nodes s1) q (nd_Child n) (leaves ts)" using cut_below_leaves [OF q(3)] s1(4) by (simp add: cut_below_def)
  have nl: "q \<notin> set (nodes_of (leaves ts))" "RootNode \<notin> set (nodes_of (leaves ts))"
    unfolding nodes_leaves using d(2,3) roots_subset by blast+
  have one: "(1 :: u32) > 0" by simp
  obtain s2 where s2: "subtree_loop sv RootNode q c' 1 s1 = subtree_loop sv RootNode (nd_Parent n) q (1 - 1) s2" "good s2"
      "Nodes s2 = (without (Nodes s1) (roots (leaves ts)))(q \<mapsto> n\<lparr>nd_Child := 0\<rparr>)"
    using loop_up [OF ok s1(2) q(1) q1 fl nodes_leaves(2) [OF d(1)] nl one s1(3)] by blast
  have "subtree_loop sv RootNode (nd_Parent n) q (1 - 1) s2 = Some s2" by (subst subtree_loop.simps) simp
  moreover have "Nodes s2 = (without (Nodes s) (set (nodes_of ts)))(q \<mapsto> n\<lparr>nd_Child := 0\<rparr>)"
    unfolding s2(3) nodes_leaves(3) using s1(4) by (auto simp: fun_eq_iff without_def cut_below_def nodes_below)
  ultimately show ?thesis using s1(1) s2(1,2) by auto
qed

text \<open>
  C14. \<open>AcpiNsDeleteNamespaceSubtree\<close> returns, and the nodes it releases are exactly those below the given node: this node stays, with
  no children, and every node outside of the subtree is as it was.
\<close>

theorem delete_subtree_exact:
  assumes "services_ok sv good" "good s" "sv_acquire sv s = (AE_OK, s0)" "q \<noteq> 0" "Nodes s q = Some n" "forest (Nodes s) q (nd_Child n) ts"
    and "distinct (q # nodes_of ts)" "RootNode \<notin> set (nodes_of ts)" "depth_of ts + 1 < 2 ^ 32"
  shows "\<exists>s'. AcpiNsDeleteNamespaceSubtree sv RootNode q s = Some s' \<and> good s'
    \<and> Nodes s' = (\<lambda>b. if b \<in> set (nodes_of ts) then None else if b = q then Some (n\<lparr>nd_Child := 0\<rparr>) else Nodes s b)"
proof -
  have s0: "good s0" "Nodes s0 = Nodes s" using keepsD [OF services_okD(4) [OF assms(1)] assms(2)] assms(3) by simp_all
  obtain s1 where s1: "subtree_loop sv RootNode q 0 1 s0 = Some s1" "good s1" "Nodes s1 = (without (Nodes s) (set (nodes_of ts)))(q \<mapsto> n\<lparr>nd_Child := 0\<rparr>)"
    using subtree_deleted [OF assms(1) s0(1) assms(4), of n ts RootNode] assms(5-) s0(2) by auto
  have "AcpiNsDeleteNamespaceSubtree sv RootNode q s = Some (snd (sv_release sv s1))"
    using assms(3,4) s1(1) by (simp add: AcpiNsDeleteNamespaceSubtree_def ACPI_FAILURE_def)
  then show ?thesis using keepsD [OF services_okD(5) [OF assms(1)] s1(2)] s1(3) assms(7) by (auto simp: without_def)
qed

text \<open>Services that record what they are asked for, and states in which attached data is in lists, for the examples.\<close>

datatype request = Free addr | Range u8 addr | Deref addr | Call addr addr addr | Lock | Unlock

definition sample_services :: "request list services" where
  "sample_services =
     \<lparr>sv_free = (\<lambda>a s. s\<lparr>Ext := Ext s @ [Free a]\<rparr>), sv_remove_range = (\<lambda>i a s. s\<lparr>Ext := Ext s @ [Range i a]\<rparr>),
      sv_remove_reference = (\<lambda>a s. s\<lparr>Ext := Ext s @ [Deref a]\<rparr>), sv_data_handler = (\<lambda>f a p s. s\<lparr>Ext := Ext s @ [Call f a p]\<rparr>),
      sv_acquire = (\<lambda>s. (AE_OK, s\<lparr>Ext := Ext s @ [Lock]\<rparr>)), sv_release = (\<lambda>s. (AE_OK, s\<lparr>Ext := Ext s @ [Unlock]\<rparr>))\<rparr>"

definition data_lists :: "'e ns \<Rightarrow> bool" where
  "data_lists s \<longleftrightarrow> typed (Nodes s)
     \<and> (\<forall>a. a \<noteq> 0 \<longrightarrow> ob_Type (Objects s a) = ACPI_TYPE_LOCAL_DATA \<longrightarrow> ob_NextObject (Objects s a) < a)"

lemma sample_delete_data:
  "data_lists s \<Longrightarrow> \<exists>s'. delete_data sample_services b a s = Some s' \<and> data_lists s' \<and> Nodes s' = Nodes s"
proof (induction "unat a" arbitrary: a s rule: less_induct)
  case less
  show ?case
  proof (cases "a \<noteq> 0 \<and> ob_Type (descriptor s a) = ACPI_TYPE_LOCAL_DATA")
    case False
    then show ?thesis using less.prems by (subst delete_data.simps) auto
  next
    case True
    have None: "Nodes s a = None" using True less.prems by (cases "Nodes s a") (auto simp: descriptor_def data_lists_def typed_def)
    define s1 where "s1 = (if ob_Handler (Objects s a) \<noteq> 0 then sv_data_handler sample_services (ob_Handler (Objects s a)) b (ob_Pointer (Objects s a)) s else s)"
    have s1: "Nodes s1 = Nodes s" "Objects s1 = Objects s" by (auto simp: s1_def sample_services_def)
    let ?next = "ob_NextObject (descriptor s1 a)" and ?s = "sv_remove_reference sample_services a s1"
    have run: "delete_data sample_services b a s = delete_data sample_services b ?next ?s"
      using True by (subst delete_data.simps) (simp add: s1_def Let_def)
    have "ob_NextObject (Objects s a) < a" using True None less.prems by (auto simp: data_lists_def descriptor_def)
    then have "unat ?next < unat a" using None by (simp add: descriptor_def s1 word_less_nat_alt)
    moreover have "data_lists ?s" "Nodes ?s = Nodes s" using less.prems s1 by (auto simp: data_lists_def sample_services_def)
    ultimately show ?thesis using less.hyps [of ?next ?s] run by auto
  qed
qed

lemma sample_services_ok: "services_ok sample_services data_lists"
  unfolding services_ok_def
  by (intro conjI allI impI, simp_all only: sample_delete_data)
    (auto simp: keeps_def data_lists_def sample_services_def word_neq_0_conv)

definition sample_state :: "nheap \<Rightarrow> request list ns" where
  "sample_state h = \<lparr>Nodes = h, Objects = (\<lambda>a. \<lparr>ob_NextObject = 0, ob_DescriptorType = ACPI_DESC_TYPE_OPERAND, ob_Type = 1, ob_SpaceId = 0,
     ob_AmlStart = 0, ob_Handler = 0, ob_Pointer = 0\<rparr>), Ext = []\<rparr>"

lemma sample_data_lists: "typed h \<Longrightarrow> data_lists (sample_state h)"
  by (simp add: data_lists_def sample_state_def ACPI_TYPE_LOCAL_DATA_def)

lemma sample_typed: "typed sample_nodes"
  by (auto simp: typed_def sample_nodes_def sample_node_def ACPI_TYPE_LOCAL_DATA_def split: if_splits)

theorem delete_subtree_exact_witness:
  "\<exists>s'. AcpiNsDeleteNamespaceSubtree sample_services 1 1 (sample_state sample_nodes) = Some s' \<and> dom (Nodes s') = {1}"
proof -
  have "\<exists>s'. AcpiNsDeleteNamespaceSubtree sample_services 1 1 (sample_state sample_nodes) = Some s' \<and> data_lists s'
    \<and> Nodes s' = (\<lambda>b. if b \<in> set (nodes_of sample_trees) then None else if b = 1 then Some ((sample_node 0 2 0 10)\<lparr>nd_Child := 0\<rparr>) else Nodes (sample_state sample_nodes) b)"
    by (rule delete_subtree_exact [OF sample_services_ok sample_data_lists [OF sample_typed], where n = "sample_node 0 2 0 10"])
      (simp_all add: sample_services_def sample_state_def sample_nodes_def sample_node_def sample_trees_def)
  then show ?thesis by (auto simp: sample_state_def sample_nodes_def sample_trees_def dom_def)
qed

end
