(* ===== verification/NsEnter.thy ===== *)
theory NsEnter
  imports NsAlloc
begin

text \<open>
  Entering a name into a scope: \<open>AcpiNsSearchAndEnter\<close> of \<^verbatim>\<open>components/namespace/nssearch.c\<close>, \<open>AcpiNsCreateNode\<close> of
  \<^verbatim>\<open>nsalloc.c\<close>, and the repair of names in \<^verbatim>\<open>components/utilities/utascii.c\<close> and \<^verbatim>\<open>utstring.c\<close>. The theorems give the result
  on every branch that does not override a node, and show that the names of a scope stay unique.
\<close>

section \<open>Names\<close>

text \<open>A name is a 32-bit integer; in memory it has four characters, the first one in the lowest byte.\<close>

definition name_bytes :: "u32 \<Rightarrow> u8 list" where
  "name_bytes N = [ucast N, ucast (drop_bit 8 N), ucast (drop_bit 16 N), ucast (drop_bit 24 N)]"

definition bytes_name :: "u8 list \<Rightarrow> u32" where
  "bytes_name bs = ucast (bs ! 0) OR push_bit 8 (ucast (bs ! 1)) OR push_bit 16 (ucast (bs ! 2)) OR push_bit 24 (ucast (bs ! 3))"

definition ACPI_ROOT_PATHNAME :: "u8 list" where "ACPI_ROOT_PATHNAME = [0x5C, 0x5F, 0x5F, 0x5F]"

definition AcpiUtValidNameChar :: "u8 \<Rightarrow> u32 \<Rightarrow> bool" where
  "AcpiUtValidNameChar Character Position =
     (if \<not> (Character \<ge> 0x41 \<and> Character \<le> 0x5A \<or> Character \<ge> 0x30 \<and> Character \<le> 0x39 \<or> Character = 0x5F)
      then if Character = 0x21 \<and> Position = 3 then True else False
      else True)"

text \<open>The loops over the characters \<open>Name[i]\<close>, \<dots>\<close>

fun valid_chars :: "u32 \<Rightarrow> u8 list \<Rightarrow> bool" where
  "valid_chars i [] = True"
| "valid_chars i (c # cs) = (if \<not> AcpiUtValidNameChar c i then False else valid_chars (i + 1) cs)"

definition AcpiUtValidNameseg :: "u8 list \<Rightarrow> bool" where
  "AcpiUtValidNameseg Name = valid_chars 0 (take 4 Name)"

fun repair_chars :: "u32 \<Rightarrow> u8 list \<Rightarrow> u8 list" where
  "repair_chars i [] = []"
| "repair_chars i (c # cs) = (if AcpiUtValidNameChar c i then c else 0x5F) # repair_chars (i + 1) cs"

definition AcpiUtRepairName :: "u8 list \<Rightarrow> u8 list" where
  "AcpiUtRepairName Name = (if take 4 Name = ACPI_ROOT_PATHNAME then Name else repair_chars 0 (take 4 Name) @ drop 4 Name)"

text \<open>The repair of an integer name, whose characters are those of its memory.\<close>

definition repaired :: "u32 \<Rightarrow> u32" where "repaired N = bytes_name (AcpiUtRepairName (name_bytes N))"

section \<open>Creating a node\<close>

text \<open>\<open>new\<close> is \<open>AcpiOsAcquireObject (AcpiGbl_NamespaceCache)\<close>: the address of a cleared object, or null.\<close>

definition AcpiNsCreateNode :: "('e ns \<Rightarrow> addr \<times> 'e ns) \<Rightarrow> u32 \<Rightarrow> 'e ns \<Rightarrow> addr \<times> 'e ns" where
  "AcpiNsCreateNode new Name s =
     (case new s of
        (Node, s) \<Rightarrow>
          if Node = 0 then (0, s)
          else (Node, s\<lparr>Nodes := (Nodes s)(Node \<mapsto> \<lparr>nd_Object = 0, nd_Type = 0, nd_Flags = 0, nd_Name = Name, nd_Parent = 0, nd_Child = 0,
                  nd_Peer = 0, nd_OwnerId = 0\<rparr>)\<rparr>))"

section \<open>Searching and entering\<close>

datatype interpreter_mode = ACPI_IMODE_LOAD_PASS1 | ACPI_IMODE_LOAD_PASS2 | ACPI_IMODE_EXECUTE

definition ACPI_NS_SEARCH_PARENT :: u32 where "ACPI_NS_SEARCH_PARENT = 0x0001"
definition ACPI_NS_ERROR_IF_FOUND :: u32 where "ACPI_NS_ERROR_IF_FOUND = 0x0008"
definition ACPI_NS_TEMPORARY :: u32 where "ACPI_NS_TEMPORARY = 0x0040"
definition ACPI_NS_OVERRIDE_IF_FOUND :: u32 where "ACPI_NS_OVERRIDE_IF_FOUND = 0x0080"
definition ACPI_ENTRY_NOT_FOUND :: addr where "ACPI_ENTRY_NOT_FOUND = 0"

text \<open>
  What the functions use besides the namespace: the services, the cache of nodes, \<open>AcpiGbl_RootNode\<close> and
  \<open>AcpiGbl_RuntimeNamespaceOverride\<close>.
\<close>

record 'e enter_env =
  en_services :: "'e services"
  en_new :: "'e ns \<Rightarrow> addr \<times> 'e ns"
  en_RootNode :: addr
  en_Override :: bool

text \<open>The node that was found is overridden: it loses its children, and its object or its place in the tree.\<close>

definition override_node :: "'e enter_env \<Rightarrow> walk option \<Rightarrow> addr \<Rightarrow> 'e ns \<Rightarrow> (addr \<times> 'e ns) option" where
  "override_node E WalkState ReturnNode s =
     (case AcpiNsDeleteChildren (en_services E) (en_RootNode E) ReturnNode s of
        None \<Rightarrow> None
      | Some s \<Rightarrow>
          if en_Override E
          then (case (Nodes s ReturnNode, WalkState) of
                  (Some n, Some w) \<Rightarrow>
                    (case set_nd ReturnNode (\<lambda>n. n\<lparr>nd_Object := 0, nd_OwnerId := ws_OwnerId w\<rparr>)
                            (sv_remove_reference (en_services E) (nd_Object n) s) of
                       None \<Rightarrow> None | Some s \<Rightarrow> Some (ReturnNode, s))
                | _ \<Rightarrow> None)
          else (case AcpiNsRemoveNode (en_services E) (en_RootNode E) ReturnNode s of
                  None \<Rightarrow> None | Some s \<Rightarrow> Some (ACPI_ENTRY_NOT_FOUND, s)))"

text \<open>The end: a new node is created and installed.\<close>

definition enter_node :: "'e enter_env \<Rightarrow> u32 \<Rightarrow> walk option \<Rightarrow> addr \<Rightarrow> u32 \<Rightarrow> u32 \<Rightarrow> addr \<Rightarrow> 'e ns \<Rightarrow> (acpi_status \<times> addr \<times> bool \<times> 'e ns) option" where
  "enter_node E TargetName WalkState Node t Flags ReturnNode s =
     (case AcpiNsCreateNode (en_new E) TargetName s of
        (NewNode, s) \<Rightarrow>
          if NewNode = 0 then Some (AE_NO_MEMORY, ReturnNode, False, s)
          else (case (if Flags AND ACPI_NS_TEMPORARY \<noteq> 0 then set_nd NewNode (\<lambda>n. n\<lparr>nd_Flags := nd_Flags n OR ANOBJ_TEMPORARY\<rparr>) s else Some s) of
                  None \<Rightarrow> None
                | Some s \<Rightarrow>
                    (case AcpiNsInstallNode WalkState Node NewNode t (Nodes s) of
                       None \<Rightarrow> None
                     | Some (h, modified) \<Rightarrow> Some (AE_OK, NewNode, modified, s\<lparr>Nodes := h\<rparr>))))"

text \<open>
  The result has the status, the value of \<open>*ReturnNode\<close> and whether the method is marked as one that modified the namespace. A null \<open>ReturnNode\<close> is
  \<open>None\<close>, otherwise it is given by the value it points to.
\<close>

definition AcpiNsSearchAndEnter ::
  "'e enter_env \<Rightarrow> u32 \<Rightarrow> walk option \<Rightarrow> addr \<Rightarrow> interpreter_mode \<Rightarrow> u32 \<Rightarrow> u32 \<Rightarrow> addr option \<Rightarrow> 'e ns \<Rightarrow> (acpi_status \<times> addr \<times> bool \<times> 'e ns) option" where
  "AcpiNsSearchAndEnter E TargetName WalkState Node InterpreterMode t Flags ReturnNode s =
     (if Node = 0 \<or> TargetName = 0 \<or> ReturnNode = None
      then Some (AE_BAD_PARAMETER, (case ReturnNode of Some v \<Rightarrow> v | None \<Rightarrow> 0), False, s)
      else let TargetName = repaired TargetName
           in case AcpiNsSearchOneScope TargetName Node ACPI_ENTRY_NOT_FOUND (Nodes s) of
                None \<Rightarrow> None
              | Some (Status, ReturnNode) \<Rightarrow>
                  if Status \<noteq> AE_NOT_FOUND
                  then if Status = AE_OK \<and> Flags AND ACPI_NS_OVERRIDE_IF_FOUND \<noteq> 0
                       then (case override_node E WalkState ReturnNode s of
                               None \<Rightarrow> None | Some (ReturnNode, s) \<Rightarrow> Some (Status, ReturnNode, False, s))
                       else Some (if Status = AE_OK \<and> Flags AND ACPI_NS_ERROR_IF_FOUND \<noteq> 0 then AE_ALREADY_EXISTS else Status,
                              ReturnNode, False, s)
                  else (case (if InterpreterMode \<noteq> ACPI_IMODE_LOAD_PASS1 \<and> Flags AND ACPI_NS_SEARCH_PARENT \<noteq> 0
                              then AcpiNsSearchParentTree TargetName Node t ReturnNode (Nodes s)
                              else Some (AE_NOT_FOUND, ReturnNode)) of
                          None \<Rightarrow> None
                        | Some (Status, ReturnNode) \<Rightarrow>
                            if \<not> ACPI_FAILURE Status then Some (Status, ReturnNode, False, s)
                            else if InterpreterMode = ACPI_IMODE_EXECUTE then Some (AE_NOT_FOUND, ReturnNode, False, s)
                            else enter_node E TargetName WalkState Node t Flags ReturnNode s))"

section \<open>Repaired names\<close>

lemma name_bytes_inverse: "bytes_name (name_bytes N) = N"
proof (rule bit_word_eqI)
  fix n assume "n < LENGTH(32)"
  then have "n < 8 \<or> (\<exists>i < 8. n = 8 + i \<or> n = 16 + i \<or> n = 24 + i)" by simp presburger
  then show "bit (bytes_name (name_bytes N)) n = bit N n"
    by (elim disjE exE conjE) (simp_all add: bytes_name_def name_bytes_def bit_simps)
qed

lemma bytes_name_inverse:
  assumes "length bs = 4"
  shows "name_bytes (bytes_name bs) = bs"
proof -
  obtain a b c d where "bs = [a, b, c, d]" using assms by (auto simp: length_Suc_conv numeral_eq_Suc)
  moreover have "ucast (bytes_name [a, b, c, d]) = a" "ucast (drop_bit 8 (bytes_name [a, b, c, d])) = b"
      "ucast (drop_bit 16 (bytes_name [a, b, c, d])) = c" "ucast (drop_bit 24 (bytes_name [a, b, c, d])) = d"
    by (rule bit_word_eqI; auto simp: bytes_name_def bit_simps dest: bit_imp_le_length)+
  ultimately show ?thesis by (simp add: name_bytes_def)
qed

lemma repair_chars_length [simp]: "length (repair_chars i cs) = length cs"
  by (induction cs arbitrary: i) auto

lemma valid_underscore [simp]: "AcpiUtValidNameChar 0x5F i"
  by (simp add: AcpiUtValidNameChar_def)

lemma repair_chars_valid: "valid_chars i (repair_chars i cs)"
  by (induction cs arbitrary: i) auto

lemma repair_chars_same: "valid_chars i cs \<Longrightarrow> repair_chars i cs = cs"
  by (induction cs arbitrary: i) (auto split: if_splits)

text \<open>A repaired name has valid characters, unless it is the root; valid names and repaired names are kept.\<close>

lemma repair_name:
  "name_bytes (repaired N) = ACPI_ROOT_PATHNAME \<or> AcpiUtValidNameseg (name_bytes (repaired N))"
  "AcpiUtValidNameseg (name_bytes N) \<Longrightarrow> repaired N = N"
  "repaired (repaired N) = repaired N"
proof -
  have len: "length (name_bytes M) = 4" for M by (simp add: name_bytes_def)
  have rep: "name_bytes (repaired M) = (if name_bytes M = ACPI_ROOT_PATHNAME then name_bytes M else repair_chars 0 (name_bytes M))" for M
    using len [of M] by (auto simp: repaired_def AcpiUtRepairName_def bytes_name_inverse name_bytes_inverse)
  have valid: "valid_chars 0 (name_bytes M) \<Longrightarrow> repaired M = M" for M
    using rep [of M] repair_chars_same name_bytes_inverse by metis
  show "name_bytes (repaired N) = ACPI_ROOT_PATHNAME \<or> AcpiUtValidNameseg (name_bytes (repaired N))"
    using rep [of N] repair_chars_valid len [of N] by (simp add: AcpiUtValidNameseg_def)
  show "AcpiUtValidNameseg (name_bytes N) \<Longrightarrow> repaired N = N" using valid len [of N] by (simp add: AcpiUtValidNameseg_def)
  show "repaired (repaired N) = repaired N"
    using rep [of N] rep [of "repaired N"] valid [of "repaired N"] repair_chars_valid name_bytes_inverse by metis
qed

section \<open>What is entered\<close>

text \<open>The cache hands out objects that are no nodes, and leaves the nodes as they are.\<close>

definition fresh_cache :: "('e ns \<Rightarrow> addr \<times> 'e ns) \<Rightarrow> bool" where
  "fresh_cache new \<longleftrightarrow> (\<forall>s. case new s of (x, s') \<Rightarrow> Nodes s' = Nodes s \<and> (x \<noteq> 0 \<longrightarrow> Nodes s x = None))"

definition new_node :: "u32 \<Rightarrow> walk option \<Rightarrow> addr \<Rightarrow> u32 \<Rightarrow> u32 \<Rightarrow> ns_node" where
  "new_node N w q t Flags = \<lparr>nd_Object = 0, nd_Type = ucast t, nd_Flags = (if Flags AND ACPI_NS_TEMPORARY \<noteq> 0 then ANOBJ_TEMPORARY else 0),
     nd_Name = N, nd_Parent = q, nd_Child = 0, nd_Peer = 0, nd_OwnerId = (case w of Some w \<Rightarrow> ws_OwnerId w | None \<Rightarrow> 0)\<rparr>"

text \<open>The new tree, with \<open>x\<close> as the last child of \<open>q\<close>, of which \<open>cs\<close> were the children.\<close>

definition grown :: "nheap \<Rightarrow> addr \<Rightarrow> addr \<Rightarrow> ntree list \<Rightarrow> addr \<Rightarrow> ntree list \<Rightarrow> addr \<Rightarrow> ns_node \<Rightarrow> nheap \<Rightarrow> bool" where
  "grown h p a ts q cs x n h' \<longleftrightarrow> forest h' p a (add_child q x ts) \<and> scope h' q (cs @ [NT x []]) \<and> h' x = Some n \<and> relinked_but x h h'
     \<and> (\<forall>b. b \<noteq> x \<longrightarrow> b \<notin> set (nodes_of ts) \<longrightarrow> h' b = h b)"

lemma enter_node_grown:
  assumes f: "forest (Nodes s) p a ts" "distinct (nodes_of ts)" "q \<in> set (nodes_of ts)" "scope (Nodes s) q cs" and c: "fresh_cache (en_new E)"
    and new: "en_new E s = (x, s1)"
  shows "x = 0 \<Longrightarrow> enter_node E N w q t Flags r s = Some (AE_NO_MEMORY, r, False, s1)"
    and "x \<noteq> 0 \<Longrightarrow> \<exists>h' m. enter_node E N w q t Flags r s = Some (AE_OK, x, m, s1\<lparr>Nodes := h'\<rparr>)
      \<and> grown (Nodes s) p a ts q cs x (new_node N w q t Flags) h'"
proof -
  have s1: "Nodes s1 = Nodes s" "x \<noteq> 0 \<Longrightarrow> Nodes s x = None" using c [unfolded fresh_cache_def, rule_format, of s] new by simp_all
  show "x = 0 \<Longrightarrow> enter_node E N w q t Flags r s = Some (AE_NO_MEMORY, r, False, s1)"
    by (simp add: enter_node_def AcpiNsCreateNode_def new)
  assume x: "x \<noteq> 0"
  have out: "x \<notin> set (nodes_of ts)" using forest_live [OF f(1), of x] s1(2) [OF x] by blast
  have outc: "x \<notin> set (nodes_of cs)" using scope_nodes [OF f(1,3,4)] out by blast
  define n where "n = (new_node N None 0 0 Flags)\<lparr>nd_Type := 0\<rparr>"
  define h where "h = (Nodes s)(x \<mapsto> n)"
  have hx: "h x = Some n" "nd_Child n = 0" by (simp_all add: h_def n_def new_node_def)
  have fh: "forest h p a ts" by (rule forest_frame [OF f(1)]) (use out in \<open>auto simp: h_def\<close>)
  obtain m where m: "Nodes s q = Some m" "forest (Nodes s) q (nd_Child m) cs" using f(4) by (rule scopeE)
  have "forest h q (nd_Child m) cs" by (rule forest_frame [OF m(2)]) (use outc in \<open>auto simp: h_def\<close>)
  then have sh: "scope h q cs" using m(1) f(3) out by (auto simp: scope_def h_def)
  obtain h' md where h': "AcpiNsInstallNode w q x t h = Some (h', md)" "forest h' p a (add_child q x ts)" "h' x = Some (installed w q t n)"
      "relinked_but x h h'" "\<forall>b. b \<noteq> x \<longrightarrow> b \<notin> set (nodes_of ts) \<longrightarrow> h' b = h b" "scope h' q (cs @ [NT x []])"
    using install_forest [OF fh f(2,3) x out hx, of w t] outc sh by blast
  have "installed w q t n = new_node N w q t Flags" by (simp add: installed_def n_def new_node_def)
  moreover have "relinked_but x (Nodes s) h'" using h'(4) by (simp add: relinked_but_def h_def)
  ultimately have "grown (Nodes s) p a ts q cs x (new_node N w q t Flags) h'" using h' by (simp add: grown_def h_def)
  moreover have "enter_node E N w q t Flags r s = Some (AE_OK, x, md, s1\<lparr>Nodes := h'\<rparr>)"
    using x h'(1) by (cases "Flags AND ACPI_NS_TEMPORARY = 0")
      (simp_all add: enter_node_def AcpiNsCreateNode_def new s1(1) set_nd_def set_node_def h_def n_def new_node_def)
  ultimately show "\<exists>h' m. enter_node E N w q t Flags r s = Some (AE_OK, x, m, s1\<lparr>Nodes := h'\<rparr>)
      \<and> grown (Nodes s) p a ts q cs x (new_node N w q t Flags) h'" by blast
qed

text \<open>What the call returns, when no node is overridden: \<open>ps\<close> are the enclosing scopes.\<close>

definition may_search_up :: "interpreter_mode \<Rightarrow> u32 \<Rightarrow> u32 \<Rightarrow> bool" where
  "may_search_up mode t Flags \<longleftrightarrow> mode \<noteq> ACPI_IMODE_LOAD_PASS1 \<and> Flags AND ACPI_NS_SEARCH_PARENT \<noteq> 0 \<and> AcpiNsLocal t = 0"

definition found :: "nheap \<Rightarrow> u32 \<Rightarrow> interpreter_mode \<Rightarrow> u32 \<Rightarrow> u32 \<Rightarrow> ntree list \<Rightarrow> (addr \<times> ntree list) list \<Rightarrow> (acpi_status \<times> addr) option" where
  "found h N mode t Flags cs ps =
     (case find_child h N cs of
        Some b \<Rightarrow> Some (if Flags AND ACPI_NS_ERROR_IF_FOUND \<noteq> 0 then AE_ALREADY_EXISTS else AE_OK, b)
      | None \<Rightarrow> map_option (Pair AE_OK) (if may_search_up mode t Flags then find_enclosing h N ps else None))"

lemma search_up:
  assumes "h q = Some n" "chain h (nd_Parent n) ps"
  shows "(if mode \<noteq> ACPI_IMODE_LOAD_PASS1 \<and> Flags AND ACPI_NS_SEARCH_PARENT \<noteq> 0 then AcpiNsSearchParentTree N q t r h else Some (AE_NOT_FOUND, r))
    = Some (case if may_search_up mode t Flags then find_enclosing h N ps else None of Some b \<Rightarrow> (AE_OK, b) | None \<Rightarrow> (AE_NOT_FOUND, r))"
proof -
  have "ps = []" if "nd_Parent n = 0" using assms(2) that by (cases ps) auto
  then show ?thesis using assms(1) search_parents_find [OF assms(2), of N r]
    by (auto simp: may_search_up_def AcpiNsSearchParentTree_def)
qed

lemma search_and_enter_cases:
  assumes sc: "scope (Nodes s) q cs" and n: "Nodes s q = Some n" "chain (Nodes s) (nd_Parent n) ps" and q: "q \<noteq> 0" "TargetName \<noteq> 0" "Flags AND ACPI_NS_OVERRIDE_IF_FOUND = 0"
  shows "AcpiNsSearchAndEnter E TargetName w q mode t Flags (Some v) s =
    (case found (Nodes s) (repaired TargetName) mode t Flags cs ps of
       Some (Status, b) \<Rightarrow> Some (Status, b, False, s)
     | None \<Rightarrow> if mode = ACPI_IMODE_EXECUTE then Some (AE_NOT_FOUND, 0, False, s) else enter_node E (repaired TargetName) w q t Flags 0 s)"
proof (cases "find_child (Nodes s) (repaired TargetName) cs")
  case (Some b)
  then show ?thesis using q search_one_scope [OF sc, of "repaired TargetName" 0]
    by (simp add: AcpiNsSearchAndEnter_def found_def ACPI_ENTRY_NOT_FOUND_def Let_def)
next
  case None
  then show ?thesis using q search_one_scope [OF sc, of "repaired TargetName" 0] search_up [OF n, of mode Flags "repaired TargetName" t 0]
    by (cases "if may_search_up mode t Flags then find_enclosing (Nodes s) (repaired TargetName) ps else None")
      (simp_all add: AcpiNsSearchAndEnter_def found_def ACPI_ENTRY_NOT_FOUND_def Let_def ACPI_FAILURE_def)
qed

definition entered :: "'e enter_env \<Rightarrow> u32 \<Rightarrow> walk option \<Rightarrow> interpreter_mode \<Rightarrow> u32 \<Rightarrow> u32 \<Rightarrow> addr \<Rightarrow> addr \<Rightarrow> ntree list \<Rightarrow> addr \<Rightarrow> ntree list \<Rightarrow>
    (addr \<times> ntree list) list \<Rightarrow> 'e ns \<Rightarrow> acpi_status \<times> addr \<times> bool \<times> 'e ns \<Rightarrow> bool" where
  "entered E N w mode t Flags p a ts q cs ps s r \<longleftrightarrow>
     (case found (Nodes s) N mode t Flags cs ps of
        Some (Status, b) \<Rightarrow> r = (Status, b, False, s)
      | None \<Rightarrow>
          if mode = ACPI_IMODE_EXECUTE then r = (AE_NOT_FOUND, 0, False, s)
          else case en_new E s of
                 (x, s1) \<Rightarrow> if x = 0 then r = (AE_NO_MEMORY, 0, False, s1)
                   else \<exists>h' m. r = (AE_OK, x, m, s1\<lparr>Nodes := h'\<rparr>) \<and> grown (Nodes s) p a ts q cs x (new_node N w q t Flags) h')"

lemma enter_outcome:
  assumes "forest (Nodes s) p a ts" "distinct (nodes_of ts)" "q \<in> set (nodes_of ts)" "scope (Nodes s) q cs"
    and "Nodes s q = Some n" "chain (Nodes s) (nd_Parent n) ps"
    and "fresh_cache (en_new E)" "TargetName \<noteq> 0" "Flags AND ACPI_NS_OVERRIDE_IF_FOUND = 0"
  shows "\<exists>r. AcpiNsSearchAndEnter E TargetName w q mode t Flags (Some v) s = Some r
    \<and> entered E (repaired TargetName) w mode t Flags p a ts q cs ps s r"
proof -
  have q: "q \<noteq> 0" using forest_live [OF assms(1,3)] by blast
  obtain x s1 where new: "en_new E s = (x, s1)" by (cases "en_new E s")
  note run = search_and_enter_cases [OF assms(4-6) q assms(8,9), of E w mode t v]
  note grow = enter_node_grown [OF assms(1-4,7) new, of "repaired TargetName" w t Flags 0]
  show ?thesis
  proof (cases "found (Nodes s) (repaired TargetName) mode t Flags cs ps")
    case None
    then show ?thesis
    proof (cases "mode = ACPI_IMODE_EXECUTE \<or> x = 0")
      case True
      then show ?thesis using None run grow(1) by (auto simp: entered_def new)
    next
      case False
      then show ?thesis using None run grow(2) by (auto simp: entered_def new)
    qed
  next
    case (Some r)
    then show ?thesis using run by (cases r) (simp add: entered_def)
  qed
qed

text \<open>
  C11. \<open>AcpiNsSearchAndEnter\<close> on every branch without override: a name of the scope is returned, as an error if the caller
  demands this; otherwise the nearest enclosing scope is searched, if the mode, the flags and the type allow it; then, in
  the load passes only, a node with the repaired name is added as the last child, unless there is no memory. Nothing else changes:
  a node that is found keeps its type, also where this is \<open>ACPI_TYPE_ANY\<close> and the caller knows a better one, which the
  comment at nssearch.c:383 says is stored. The repaired name has an underscore in place of each character that is not
  valid in a name (\<open>repaired\<close>), where the comment at utstring.c:276 says an asterisk, which would keep it apart from valid names.
\<close>

theorem search_and_enter:
  assumes "forest (Nodes s) p a ts" "distinct (nodes_of ts)" "q \<in> set (nodes_of ts)" "scope (Nodes s) q cs"
    and "Nodes s q = Some n" "chain (Nodes s) (nd_Parent n) ps"
    and "fresh_cache (en_new E)" "TargetName \<noteq> 0" "Flags AND ACPI_NS_OVERRIDE_IF_FOUND = 0"
  shows "\<exists>r. AcpiNsSearchAndEnter E TargetName w q mode t Flags (Some v) s = Some r
    \<and> entered E (repaired TargetName) w mode t Flags p a ts q cs ps s r"
  by (rule enter_outcome [OF assms])

section \<open>Unique names\<close>

fun unique_names :: "nheap \<Rightarrow> ntree list \<Rightarrow> bool" where
  "unique_names h [] = True"
| "unique_names h (NT b cs # ts) = (name_of h b \<notin> name_of h ` roots ts \<and> unique_names h cs \<and> unique_names h ts)"

lemma unique_names_cong: "(\<And>b. b \<in> set (nodes_of ts) \<Longrightarrow> name_of h' b = name_of h b) \<Longrightarrow> unique_names h' ts = unique_names h ts"
proof (induction ts rule: nodes_of.induct)
  case (2 b cs ts)
  have "name_of h' ` roots ts = name_of h ` roots ts" using 2(3) roots_subset [of ts] by (intro image_cong) auto
  then show ?case using 2 by simp
qed simp

lemma unique_names_snoc: "unique_names h (ts @ [NT x []]) \<longleftrightarrow> unique_names h ts \<and> name_of h x \<notin> name_of h ` roots ts"
  by (induction ts rule: nodes_of.induct) auto

lemma roots_add_child [simp]: "roots (add_child q x ts) = roots ts"
  by (induction ts rule: nodes_of.induct) auto

lemma unique_names_add:
  "forest h p a ts \<Longrightarrow> distinct (nodes_of ts) \<Longrightarrow> unique_names h' ts \<Longrightarrow> scope h q cs \<Longrightarrow> name_of h' x \<notin> name_of h' ` roots cs \<Longrightarrow>
    unique_names h' (add_child q x ts)"
proof (induction ts arbitrary: p a rule: nodes_of.induct)
  case (2 b us ts)
  obtain n where n: "h b = Some n" "forest h b (nd_Child n) us" "forest h p (nd_Peer n) ts"
    using "2.prems"(1) by (rule forest_ConsE) simp
  have "cs = us" if "b = q" using that "2.prems"(4) n(1,2) by (auto simp: scope_def intro: forest_unique)
  moreover have "unique_names h' (add_child q x ts)" "unique_names h' (add_child q x us)"
    using "2.IH"(2) [OF n(3)] "2.IH"(1) [OF n(2)] "2.prems" by auto
  ultimately show ?case using "2.prems"(3,5) by (auto simp: unique_names_snoc)
qed simp

lemma find_child_None: "find_child h N cs = None \<longleftrightarrow> N \<notin> name_of h ` roots cs"
  by (auto simp: find_child_def find_None_iff)

lemma nodes_add_child:
  "q \<in> set (nodes_of ts) \<Longrightarrow> distinct (nodes_of ts) \<Longrightarrow> x \<notin> set (nodes_of ts) \<Longrightarrow>
    set (nodes_of (add_child q x ts)) = insert x (set (nodes_of ts)) \<and> distinct (nodes_of (add_child q x ts))"
proof (induction ts rule: nodes_of.induct)
  case (2 b cs ts)
  consider "q = b" | "q \<noteq> b" "q \<in> set (nodes_of cs)" | "q \<noteq> b" "q \<in> set (nodes_of ts)" "q \<notin> set (nodes_of cs)" using "2.prems"(1) by auto
  then show ?case
  proof cases
    case 1
    then have "q \<notin> set (nodes_of cs)" "q \<notin> set (nodes_of ts)" using "2.prems"(2) by auto
    then show ?thesis using 1 "2.prems" by auto
  next
    case 2
    then have "q \<notin> set (nodes_of ts)" using "2.prems"(2) by auto
    then show ?thesis using 2 "2.IH"(1) "2.prems" by auto
  next
    case 3
    then show ?thesis using "2.IH"(2) "2.prems" by auto
  qed
qed simp

lemma grown_unique:
  assumes f: "forest h p a ts" "distinct (nodes_of ts)" "q \<in> set (nodes_of ts)" "scope h q cs" and u: "unique_names h ts"
    and x: "x \<notin> set (nodes_of ts)" and g: "grown h p a ts q cs x n h'" and N: "find_child h (nd_Name n) cs = None"
  shows "unique_names h' (add_child q x ts)"
proof (rule unique_names_add [OF f(1,2) _ f(4)])
  have same: "name_of h' b = name_of h b" if "b \<in> set (nodes_of ts)" for b
    using g x that relinked_same(1) unfolding grown_def by metis
  then show "unique_names h' ts" using u unique_names_cong by blast
  have "roots cs \<subseteq> set (nodes_of ts)" using scope_nodes [OF f(1,3,4)] roots_subset by blast
  then have "name_of h' ` roots cs = name_of h ` roots cs" using same by (intro image_cong) auto
  moreover have "name_of h' x = nd_Name n" using g by (simp add: grown_def name_of_def)
  ultimately show "name_of h' x \<notin> name_of h' ` roots cs" using N by (simp add: find_child_None)
qed

text \<open>Either the nodes are as before, or there is a new one, whose name was not in the scope.\<close>

lemma entered_cases:
  assumes "entered E N w mode t Flags p a ts q cs ps s r" "fresh_cache (en_new E)"
  obtains (same) st b m s' where "r = (st, b, m, s')" "Nodes s' = Nodes s"
    | (grow) x m s' where "r = (AE_OK, x, m, s')" "x \<noteq> 0" "Nodes s x = None" "find_child (Nodes s) N cs = None"
        "grown (Nodes s) p a ts q cs x (new_node N w q t Flags) (Nodes s')"
proof (cases "found (Nodes s) N mode t Flags cs ps")
  case None
  obtain x s1 where new: "en_new E s = (x, s1)" by (cases "en_new E s")
  have s1: "Nodes s1 = Nodes s" "x \<noteq> 0 \<Longrightarrow> Nodes s x = None"
    using assms(2) [unfolded fresh_cache_def, rule_format, of s] new by simp_all
  have f: "find_child (Nodes s) N cs = None" using None by (auto simp: found_def split: option.splits)
  show ?thesis
  proof (cases "mode = ACPI_IMODE_EXECUTE \<or> x = 0")
    case True
    then have "\<exists>st b m s'. r = (st, b, m, s') \<and> Nodes s' = Nodes s" using assms(1) None new s1(1) by (auto simp: entered_def split: if_splits)
    then show ?thesis using same by blast
  next
    case False
    then obtain h' m where h': "r = (AE_OK, x, m, s1\<lparr>Nodes := h'\<rparr>)" "grown (Nodes s) p a ts q cs x (new_node N w q t Flags) h'"
      using assms(1) None new by (auto simp: entered_def)
    show ?thesis by (rule grow [OF h'(1)]) (use False s1(2) f h'(2) in auto)
  qed
next
  case (Some z)
  then show ?thesis using assms(1) same [of "fst z" "snd z" False s] by (cases z) (simp add: entered_def)
qed

text \<open>
  C12. The names of every scope stay different: if no two children of a node have the same name, this holds after any
  call of \<open>AcpiNsSearchAndEnter\<close> without override, whatever it returns, for the tree that the nodes then form.
\<close>

theorem names_stay_unique:
  assumes "forest (Nodes s) p a ts" "distinct (nodes_of ts)" "q \<in> set (nodes_of ts)" "scope (Nodes s) q cs"
    and "Nodes s q = Some n" "chain (Nodes s) (nd_Parent n) ps"
    and "fresh_cache (en_new E)" "TargetName \<noteq> 0" "Flags AND ACPI_NS_OVERRIDE_IF_FOUND = 0" and "unique_names (Nodes s) ts"
  shows "\<exists>st b m s' ts'. AcpiNsSearchAndEnter E TargetName w q mode t Flags (Some v) s = Some (st, b, m, s')
    \<and> forest (Nodes s') p a ts' \<and> distinct (nodes_of ts') \<and> unique_names (Nodes s') ts'"
proof -
  obtain r where r: "AcpiNsSearchAndEnter E TargetName w q mode t Flags (Some v) s = Some r"
      "entered E (repaired TargetName) w mode t Flags p a ts q cs ps s r" using enter_outcome [OF assms(1-9), of w mode t v] by blast
  from r(2) assms(7) show ?thesis
  proof (cases rule: entered_cases)
    case same
    then show ?thesis using r(1) assms(1,2,10) by metis
  next
    case (grow x m s')
    have out: "x \<notin> set (nodes_of ts)" using forest_live [OF assms(1), of x] grow(3) by blast
    have "unique_names (Nodes s') (add_child q x ts)"
      by (rule grown_unique [OF assms(1-4,10) out grow(5)]) (use grow(4) in \<open>simp add: new_node_def\<close>)
    moreover have "distinct (nodes_of (add_child q x ts))" using nodes_add_child [OF assms(3,2) out] by blast
    moreover have "forest (Nodes s') p a (add_child q x ts)" using grow(5) by (simp add: grown_def)
    ultimately show ?thesis using r(1) grow(1) by metis
  qed
qed

text \<open>A cache with one free object, for the examples.\<close>

definition sample_env :: "request list enter_env" where
  "sample_env = \<lparr>en_services = sample_services, en_new = (\<lambda>s. (if Nodes s 5 = None then 5 else 0, s)), en_RootNode = 1, en_Override = False\<rparr>"

lemma sample_fresh: "fresh_cache (en_new sample_env)"
  by (simp add: fresh_cache_def sample_env_def)

lemma sample_scope:
  "forest (Nodes (sample_state sample_nodes)) 0 1 [NT 1 sample_trees]" "distinct (nodes_of [NT 1 sample_trees])" "2 \<in> set (nodes_of [NT 1 sample_trees])"
  "scope (Nodes (sample_state sample_nodes)) 2 [NT 3 []]" "Nodes (sample_state sample_nodes) 2 = Some (sample_node 1 3 4 20)"
  "chain (Nodes (sample_state sample_nodes)) (nd_Parent (sample_node 1 3 4 20)) [(1, sample_trees)]"
  by (simp_all add: sample_state_def sample_nodes_def sample_node_def sample_trees_def scope_def)

text \<open>The name \<open>AB?D\<close>, which is repaired to \<open>AB_D\<close>.\<close>

lemma sample_repaired: "repaired 0x443F4241 = 0x445F4241"
  by (simp add: repaired_def AcpiUtRepairName_def ACPI_ROOT_PATHNAME_def name_bytes_def bytes_name_def AcpiUtValidNameChar_def)

theorem search_and_enter_witness:
  "\<exists>m s'. AcpiNsSearchAndEnter sample_env 0x443F4241 None 2 ACPI_IMODE_LOAD_PASS1 6 0 (Some 0) (sample_state sample_nodes) = Some (AE_OK, 5, m, s')
    \<and> name_of (Nodes s') 5 = 0x445F4241"
proof -
  have "found (Nodes (sample_state sample_nodes)) 0x445F4241 ACPI_IMODE_LOAD_PASS1 6 0 [NT 3 []] [(1, sample_trees)] = None"
    by (simp add: found_def find_child_def name_of_def sample_state_def sample_nodes_def sample_node_def may_search_up_def)
  moreover have "en_new sample_env (sample_state sample_nodes) = (5, sample_state sample_nodes)"
    by (simp add: sample_env_def sample_state_def sample_nodes_def)
  ultimately show ?thesis
    using search_and_enter [OF sample_scope sample_fresh, of "0x443F4241" 0 None ACPI_IMODE_LOAD_PASS1 6 0]
    by (auto simp: entered_def sample_repaired grown_def new_node_def name_of_def)
qed

theorem names_stay_unique_witness:
  "\<exists>st b m s' ts'. AcpiNsSearchAndEnter sample_env 0x443F4241 None 2 ACPI_IMODE_LOAD_PASS1 6 0 (Some 0) (sample_state sample_nodes) = Some (st, b, m, s')
    \<and> forest (Nodes s') 0 1 ts' \<and> distinct (nodes_of ts') \<and> unique_names (Nodes s') ts'"
  by (rule names_stay_unique [OF sample_scope sample_fresh])
    (simp_all add: name_of_def sample_state_def sample_nodes_def sample_node_def sample_trees_def)

end
