(* ===== verification/NsOwner.thy ===== *)
theory NsOwner
  imports NsAlloc
begin

text \<open>
  What \<open>AcpiNsDeleteNamespaceByOwner\<close> does to the tree. The loop of the code walks over the namespace while it deletes
  nodes; a node that has been found is deleted one step later, when its next peer is known. The lemmas follow the list of
  children of the current parent: a part that is done, whose last node may still wait for its deletion, and the rest.
\<close>

section \<open>Unlinking a child\<close>

lemma unlink:
  "forest h p a (vs @ NT x xs # ts) \<Longrightarrow> distinct (nodes_of (vs @ NT x xs # ts)) \<Longrightarrow> vs \<noteq> [] \<Longrightarrow> h x = Some n \<Longrightarrow>
    \<exists>c m. prev_node h x pr a = Some c \<and> c \<noteq> 0 \<and> h c = Some m \<and> c \<in> set (nodes_of vs) \<and> forest (h(c \<mapsto> m\<lparr>nd_Peer := nd_Peer n\<rparr>)) p a (vs @ ts)"
proof (induction vs arbitrary: a pr)
  case (Cons v vs)
  obtain b cs where v: "v = NT b cs" by (cases v)
  obtain m where m: "a = b" "b \<noteq> 0" "h b = Some m" "nd_Parent m = p" "forest h b (nd_Child m) cs" "forest h p (nd_Peer m) (vs @ NT x xs # ts)"
    using Cons.prems(1) unfolding v append.simps by (rule forest_ConsE) simp
  have d: "b \<noteq> x" "b \<notin> set (nodes_of cs)" "b \<notin> set (nodes_of vs)" "b \<notin> set (nodes_of ts)" "set (nodes_of cs) \<inter> set (nodes_of vs) = {}"
      "distinct (nodes_of (vs @ NT x xs # ts))"
    using Cons.prems(2) by (auto simp: v)
  have prev: "prev_node h x pr a = prev_node h x b (nd_Peer m)" using m d(1) by (subst prev_node.simps) simp
  show ?case
  proof (cases "vs = []")
    case True
    have x: "nd_Peer m = x" "forest h p (nd_Peer n) ts" using m(6) True Cons.prems(4) by auto
    let ?h = "h(b \<mapsto> m\<lparr>nd_Peer := nd_Peer n\<rparr>)"
    have "prev_node h x b (nd_Peer m) = Some b" using x(1) by (subst prev_node.simps) simp
    moreover have "forest ?h b (nd_Child m) cs" by (rule forest_frame [OF m(5)]) (use d(2) in auto)
    moreover have "forest ?h p (nd_Peer n) ts" by (rule forest_frame [OF x(2)]) (use d(4) in auto)
    ultimately have "forest ?h p a ((v # vs) @ ts)"
      unfolding v True append.simps by (intro forest_ConsI [OF m(1,2) fun_upd_same]) (simp_all add: m(4) del: fun_upd_apply)
    then show ?thesis using prev \<open>prev_node h x b (nd_Peer m) = Some b\<close> m(2,3) by (auto simp: v simp del: fun_upd_apply)
  next
    case False
    obtain c k where c: "prev_node h x b (nd_Peer m) = Some c" "c \<noteq> 0" "h c = Some k" "c \<in> set (nodes_of vs)"
        "forest (h(c \<mapsto> k\<lparr>nd_Peer := nd_Peer n\<rparr>)) p (nd_Peer m) (vs @ ts)"
      using Cons.IH [OF m(6) d(6) False Cons.prems(4), of b] by blast
    let ?h = "h(c \<mapsto> k\<lparr>nd_Peer := nd_Peer n\<rparr>)"
    have "forest ?h b (nd_Child m) cs" by (rule forest_frame [OF m(5)]) (use d(5) c(4) in auto)
    moreover have "?h b = Some m" using c(4) d(3) m(3) by auto
    ultimately have "forest ?h p a ((v # vs) @ ts)" unfolding v append.simps using m c(5) by (intro forest_ConsI)
    then show ?thesis using prev c by (auto simp: v simp del: fun_upd_apply)
  qed
qed simp

text \<open>A node apart from its links and its object.\<close>

definition core :: "ns_node \<Rightarrow> u32 \<times> u16 \<times> u16 \<times> addr" where
  "core n = (nd_Name n, nd_Flags n, nd_OwnerId n, nd_Parent n)"

text \<open>Every node of the new heap is the node of the old one, apart from its children, peers, object and type.\<close>

definition sub_heap :: "nheap \<Rightarrow> nheap \<Rightarrow> bool" where
  "sub_heap h h' \<longleftrightarrow> (\<forall>b n'. h' b = Some n' \<longrightarrow> (\<exists>n. h b = Some n \<and> core n' = core n))"

lemma sub_heap_refl: "sub_heap h h" and sub_heap_trans: "sub_heap h h' \<Longrightarrow> sub_heap h' h'' \<Longrightarrow> sub_heap h h''"
  by (auto simp: sub_heap_def) (metis)

lemma sub_heap_upd: "h b = Some n \<Longrightarrow> core n' = core n \<Longrightarrow> sub_heap h (h(b \<mapsto> n'))"
  by (auto simp: sub_heap_def)

lemma sub_heap_without: "sub_heap h (without h B)"
  by (auto simp: sub_heap_def without_def split: if_splits)

lemma forest_mid:
  "forest h p a (vs @ NT x xs # ts) \<Longrightarrow>
    \<exists>n. h x = Some n \<and> x \<noteq> 0 \<and> nd_Parent n = p \<and> forest h x (nd_Child n) xs \<and> forest h p (nd_Peer n) ts"
proof (induction vs arbitrary: a)
  case Nil
  then show ?case by (auto split: option.splits)
next
  case (Cons v vs)
  obtain b cs where v: "v = NT b cs" by (cases v)
  obtain m :: ns_node where "forest h p (nd_Peer m) (vs @ NT x xs # ts)"
    using Cons.prems unfolding v append.simps by (auto split: option.splits)
  then show ?case by (rule Cons.IH)
qed

lemma forest_replace:
  "forest h p a (vs @ NT x xs # ts) \<Longrightarrow> (\<And>b. b \<in> set (nodes_of vs) \<union> set (nodes_of ts) \<Longrightarrow> h' b = h b) \<Longrightarrow>
    h x = Some m \<Longrightarrow> h' x = Some m' \<Longrightarrow> nd_Parent m' = nd_Parent m \<Longrightarrow> nd_Peer m' = nd_Peer m \<Longrightarrow> forest h' x (nd_Child m') ys \<Longrightarrow>
    forest h' p a (vs @ NT x ys # ts)"
proof (induction vs arbitrary: a)
  case Nil
  then have "forest h p (nd_Peer m) ts" "a = x" "x \<noteq> 0" "nd_Parent m = p" by (auto split: option.splits)
  moreover from this have "forest h' p (nd_Peer m) ts" using Nil.prems(2) by (intro forest_frame [of h p "nd_Peer m" ts h']) auto
  ultimately show ?case using Nil.prems(4-7) by (auto intro: forest_ConsI simp del: forest.simps(2))
next
  case (Cons v vs)
  obtain b cs where v: "v = NT b cs" by (cases v)
  obtain k where k: "a = b" "b \<noteq> 0" "h b = Some k" "nd_Parent k = p" "forest h b (nd_Child k) cs" "forest h p (nd_Peer k) (vs @ NT x xs # ts)"
    using Cons.prems(1) unfolding v append.simps by (rule forest_ConsE) simp
  have "forest h' b (nd_Child k) cs" by (rule forest_frame [OF k(5)]) (use Cons.prems(2) in \<open>auto simp: v\<close>)
  moreover have "forest h' p (nd_Peer k) (vs @ NT x ys # ts)"
    by (rule Cons.IH [OF k(6) _ Cons.prems(3-7)]) (use Cons.prems(2) in \<open>auto simp: v\<close>)
  moreover have "h' b = Some k" using Cons.prems(2) [of b] k(3) by (simp add: v)
  ultimately show ?case unfolding v append.simps using k by (intro forest_ConsI)
qed

lemma remove_child:
  assumes ok: "services_ok sv good" and good: "good s" and p: "p \<noteq> 0" "Nodes s p = Some pn" "forest (Nodes s) p (nd_Child pn) (vs @ NT x xs # ts)"
    and d: "distinct (nodes_of (vs @ NT x xs # ts))" "p \<notin> set (nodes_of (vs @ NT x xs # ts))" "x \<noteq> RootNode"
  shows "\<exists>s' c. AcpiNsRemoveNode sv RootNode x s = Some s' \<and> good s' \<and> Nodes s' p = Some (pn\<lparr>nd_Child := c\<rparr>)
    \<and> forest (Nodes s') p c (vs @ ts) \<and> sub_heap (Nodes s) (Nodes s') \<and> dom (Nodes s') = dom (Nodes s) - {x}
    \<and> (\<forall>b. b \<noteq> p \<longrightarrow> b \<notin> set (nodes_of (vs @ NT x xs # ts)) \<longrightarrow> Nodes s' b = Nodes s b)"
proof -
  obtain n where n: "Nodes s x = Some n" "x \<noteq> 0" "nd_Parent n = p" "forest (Nodes s) p (nd_Peer n) ts"
    using forest_mid [OF p(3)] by blast
  have px: "p \<noteq> x" using d(2) by auto
  have ty: "typed (Nodes s)" by (rule services_okD(9) [OF ok good])
  have x_out: "x \<notin> set (nodes_of (vs @ ts))" using d(1) by auto
  have "\<exists>y g h c. prev_node (Nodes s) x 0 (nd_Child pn) = Some y \<and> h = (Nodes s)((if y \<noteq> 0 then y else p) \<mapsto> g)
      \<and> (if y \<noteq> 0 then set_node y (\<lambda>m. m\<lparr>nd_Peer := nd_Peer n\<rparr>) (Nodes s) else set_node p (\<lambda>m. m\<lparr>nd_Child := nd_Peer n\<rparr>) (Nodes s)) = Some h
      \<and> h p = Some (pn\<lparr>nd_Child := c\<rparr>) \<and> forest h p c (vs @ ts) \<and> sub_heap (Nodes s) h \<and> dom h = dom (Nodes s) \<and> h x = Some n
      \<and> (\<forall>b. b \<noteq> p \<longrightarrow> b \<notin> set (nodes_of vs) \<longrightarrow> h b = Nodes s b) \<and> typed h"
  proof (cases "vs = []")
    case True
    let ?h = "(Nodes s)(p \<mapsto> pn\<lparr>nd_Child := nd_Peer n\<rparr>)"
    have "nd_Child pn = x" using p(3) True by simp
    then have "prev_node (Nodes s) x 0 (nd_Child pn) = Some 0" by (subst prev_node.simps) simp
    moreover have "forest ?h p (nd_Peer n) (vs @ ts)" unfolding True append.simps
      by (rule forest_frame [OF n(4)]) (use d(2) in auto)
    moreover have "typed ?h" using typed_upd(1) [OF ty] typedD [OF ty p(2)] by simp
    moreover have "sub_heap (Nodes s) ?h" using p(2) by (rule sub_heap_upd) (simp add: core_def)
    ultimately show ?thesis using p(2) n(1) px
      by (intro exI [of _ 0] exI [of _ "pn\<lparr>nd_Child := nd_Peer n\<rparr>"] exI [of _ ?h] exI [of _ "nd_Peer n"]) (auto simp: set_node_def simp del: fun_upd_apply simp: fun_upd_same fun_upd_other)
  next
    case False
    obtain c m where c: "prev_node (Nodes s) x 0 (nd_Child pn) = Some c" "c \<noteq> 0" "Nodes s c = Some m" "c \<in> set (nodes_of vs)"
        "forest ((Nodes s)(c \<mapsto> m\<lparr>nd_Peer := nd_Peer n\<rparr>)) p (nd_Child pn) (vs @ ts)"
      using unlink [OF p(3) d(1) False n(1), of 0] by blast
    let ?h = "(Nodes s)(c \<mapsto> m\<lparr>nd_Peer := nd_Peer n\<rparr>)"
    have "c \<noteq> p" "c \<noteq> x" using c(4) d by auto
    moreover have "typed ?h" using typed_upd(1) [OF ty] typedD [OF ty c(3)] by simp
    moreover have "sub_heap (Nodes s) ?h" using c(3) by (rule sub_heap_upd) (simp add: core_def)
    moreover have "pn = pn\<lparr>nd_Child := nd_Child pn\<rparr>" by simp
    moreover have "\<forall>b. b \<noteq> p \<longrightarrow> b \<notin> set (nodes_of vs) \<longrightarrow> ?h b = Nodes s b" using c(4) by auto
    ultimately show ?thesis using c p(2) n(1)
      by (intro exI [where x = c], intro exI [where x = "m\<lparr>nd_Peer := nd_Peer n\<rparr>"], intro exI [where x = ?h],
          intro exI [where x = "nd_Child pn"])
        (auto simp: set_node_def simp del: fun_upd_apply simp: fun_upd_same fun_upd_other)
  qed
  then obtain y h c where y: "prev_node (Nodes s) x 0 (nd_Child pn) = Some y"
      "(if y \<noteq> 0 then set_node y (\<lambda>m. m\<lparr>nd_Peer := nd_Peer n\<rparr>) (Nodes s) else set_node p (\<lambda>m. m\<lparr>nd_Child := nd_Peer n\<rparr>) (Nodes s)) = Some h"
      and h: "h p = Some (pn\<lparr>nd_Child := c\<rparr>)" "forest h p c (vs @ ts)" "sub_heap (Nodes s) h" "dom h = dom (Nodes s)" "h x = Some n"
        "\<And>b. b \<noteq> p \<Longrightarrow> b \<notin> set (nodes_of vs) \<Longrightarrow> h b = Nodes s b" "typed h" by blast
  define s1 where "s1 = s\<lparr>Nodes := h\<rparr>"
  have s1: "good s1" "Nodes s1 = h" using services_okD(7) [OF ok good] h(7) by (simp_all add: s1_def)
  have "(if y \<noteq> 0 then set_nd y (\<lambda>m. m\<lparr>nd_Peer := nd_Peer n\<rparr>) s else set_nd p (\<lambda>m. m\<lparr>nd_Child := nd_Peer n\<rparr>) s) = Some s1"
    using y(2) by (auto simp: set_nd_def s1_def split: if_splits)
  then have run: "AcpiNsRemoveNode sv RootNode x s = AcpiNsDeleteNode sv RootNode x s1"
    using n(1,3) p(2) y(1) by (auto simp: AcpiNsRemoveNode_def split: if_splits)
  obtain s' where s': "AcpiNsDeleteNode sv RootNode x s1 = Some s'" "good s'" "Nodes s' = h(x := None)"
    using delete_node [OF ok s1(1), of x n RootNode] s1(2) h(5) n(2) d(3) by auto
  have "forest (Nodes s') p c (vs @ ts)" by (rule forest_frame [OF h(2)]) (use x_out s'(3) in auto)
  moreover have "sub_heap (Nodes s) (Nodes s')"
    using h(3) s'(3) by (auto simp: sub_heap_def)
  ultimately show ?thesis using run s' h px by (intro exI [of _ s'] exI [of _ c]) auto
qed

section \<open>The tree without the nodes of an owner\<close>

fun prune :: "addr set \<Rightarrow> ntree list \<Rightarrow> ntree list" where
  "prune W [] = []"
| "prune W (NT b cs # ts) = (if b \<in> W then prune W ts else NT b (prune W cs) # prune W ts)"

text \<open>
  The nodes that are released: those of the owner, and what is left of their children at the time. What is left below such a child
  is neither released nor in the tree any more.
\<close>

fun freed :: "addr set \<Rightarrow> ntree list \<Rightarrow> addr set" where
  "freed W [] = {}"
| "freed W (NT b cs # ts) = freed W cs \<union> (if b \<in> W then insert b (roots (prune W cs)) else {}) \<union> freed W ts"

lemma prune_append [simp]: "prune W (ts @ us) = prune W ts @ prune W us"
  by (induction W ts rule: prune.induct) auto

lemma prune_nodes: "set (nodes_of (prune W ts)) \<subseteq> set (nodes_of ts)"
  by (induction W ts rule: prune.induct) auto

lemma prune_distinct: "distinct (nodes_of ts) \<Longrightarrow> distinct (nodes_of (prune W ts))"
  by (induction W ts rule: prune.induct) (use prune_nodes in \<open>auto dest!: subsetD [OF prune_nodes]\<close>)

section \<open>The children that are done\<close>

text \<open>
  \<open>at_child us D c\<close>: the children \<open>us\<close> have been visited, \<open>c\<close> is the last one, and if \<open>D\<close> is not null it is this one, which
  is to be deleted. \<open>settle us D\<close> are the children after this deletion, \<open>waiting us D\<close> the nodes it releases.
\<close>

definition at_child :: "ntree list \<Rightarrow> addr \<Rightarrow> addr \<Rightarrow> bool" where
  "at_child us D c \<longleftrightarrow> (us = [] \<and> c = 0 \<and> D = 0) \<or> (us \<noteq> [] \<and> c = root_of (last us) \<and> (D = 0 \<or> D = c))"

definition settle :: "ntree list \<Rightarrow> addr \<Rightarrow> ntree list" where "settle us D = (if D = 0 then us else butlast us)"

fun kids :: "ntree \<Rightarrow> ntree list" where "kids (NT b cs) = cs"

definition waiting :: "ntree list \<Rightarrow> addr \<Rightarrow> addr set" where
  "waiting us D = (if D = 0 then {} else insert D (roots (kids (last us))))"

definition owners :: "u16 \<Rightarrow> addr set \<Rightarrow> nheap \<Rightarrow> bool" where
  "owners OwnerId W h \<longleftrightarrow> (\<forall>b n. h b = Some n \<longrightarrow> (nd_OwnerId n = OwnerId \<longleftrightarrow> b \<in> W))"

lemma owners_sub: "owners OwnerId W h \<Longrightarrow> sub_heap h h' \<Longrightarrow> owners OwnerId W h'"
  by (auto simp: owners_def sub_heap_def core_def) metis+

text \<open>The state at the children of a node \<open>p\<close>, with the part that is done and the rest.\<close>

definition at_list :: "('e ns \<Rightarrow> bool) \<Rightarrow> addr \<Rightarrow> 'e ns \<Rightarrow> addr \<Rightarrow> ntree list \<Rightarrow> bool" where
  "at_list good RootNode s p us \<longleftrightarrow> good s \<and> p \<noteq> 0 \<and> distinct (nodes_of us) \<and> p \<notin> set (nodes_of us) \<and> RootNode \<notin> set (nodes_of us)
     \<and> scope (Nodes s) p us"

lemma at_listE:
  assumes "at_list good RootNode s p us"
  obtains n where "good s" "p \<noteq> 0" "distinct (nodes_of us)" "p \<notin> set (nodes_of us)" "RootNode \<notin> set (nodes_of us)"
    "Nodes s p = Some n" "forest (Nodes s) p (nd_Child n) us"
  using assms by (auto simp: at_list_def scope_def split: option.splits)

text \<open>The effect of a part of the walk on the heap: the nodes of the tree at hand only, and what is released.\<close>

definition effect :: "nheap \<Rightarrow> addr set \<Rightarrow> addr set \<Rightarrow> nheap \<Rightarrow> bool" where
  "effect h B F h' \<longleftrightarrow> sub_heap h h' \<and> dom h' = dom h - F \<and> (\<forall>b. b \<notin> B \<longrightarrow> h' b = h b)"

lemma effect_trans: "effect h B F h' \<Longrightarrow> effect h' B' F' h'' \<Longrightarrow> effect h (B \<union> B') (F \<union> F') h''"
  by (auto simp: effect_def intro: sub_heap_trans)

lemma effect_mono: "effect h B F h' \<Longrightarrow> B \<subseteq> B' \<Longrightarrow> effect h B' F h'"
  by (auto simp: effect_def)

text \<open>The waiting deletion, which the loop makes after it has read the next child.\<close>

lemma settle_step:
  assumes ok: "services_ok sv good" and l: "at_list good RootNode s p (us @ ts)" and c: "at_child us D c" and n: "Nodes s p = Some n"
  shows "\<exists>s' k. (if D \<noteq> 0 then case AcpiNsDeleteChildren sv RootNode D s of None \<Rightarrow> None | Some s \<Rightarrow> AcpiNsRemoveNode sv RootNode D s else Some s) = Some s'
    \<and> at_list good RootNode s' p (settle us D @ ts) \<and> Nodes s' p = Some (n\<lparr>nd_Child := k\<rparr>)
    \<and> effect (Nodes s) (insert p (set (nodes_of (us @ ts)))) (waiting us D) (Nodes s')"
proof (cases "D = 0")
  case True
  then show ?thesis using l n
    by (intro exI [where x = s], intro exI [where x = "nd_Child n"]) (auto simp: settle_def waiting_def effect_def sub_heap_refl)
next
  case False
  have us: "us \<noteq> []" "D = root_of (last us)" using False c by (auto simp: at_child_def)
  define vs where "vs = butlast us"
  obtain x xs where lst: "last us = NT x xs" by (cases "last us")
  have u: "us = vs @ [NT x xs]" "D = x"
    using us lst append_butlast_last_id [OF us(1)] by (simp_all add: vs_def)
  from l obtain n' where "good s" "p \<noteq> 0" "distinct (nodes_of (us @ ts))" "p \<notin> set (nodes_of (us @ ts))" "RootNode \<notin> set (nodes_of (us @ ts))"
    "Nodes s p = Some n'" "forest (Nodes s) p (nd_Child n') (us @ ts)" by (rule at_listE)
  then have s: "good s" "p \<noteq> 0" "distinct (nodes_of (vs @ NT x xs # ts))" "p \<notin> set (nodes_of (vs @ NT x xs # ts))"
      "RootNode \<notin> set (nodes_of (vs @ NT x xs # ts))" "forest (Nodes s) p (nd_Child n) (vs @ NT x xs # ts)"
    using n by (auto simp: u)
  obtain m where m: "Nodes s x = Some m" "x \<noteq> 0" "nd_Parent m = p" "forest (Nodes s) x (nd_Child m) xs" using forest_mid [OF s(6)] by blast
  have dx: "distinct (nodes_of xs)" "x \<notin> set (nodes_of xs)" "RootNode \<notin> set (nodes_of xs)" "x \<noteq> RootNode" "p \<noteq> x" "p \<notin> set (nodes_of xs)"
    using s(3-5) by auto
  obtain s1 where s1: "AcpiNsDeleteChildren sv RootNode x s = Some s1" "good s1" "Nodes s1 = (without (Nodes s) (roots xs))(x \<mapsto> m\<lparr>nd_Child := 0\<rparr>)"
    using delete_children [OF ok s(1) m(2,1,4) dx(1-3)] by blast
  have p1: "Nodes s1 p = Some n" using s1(3) n dx(5,6) roots_subset [of xs] by (auto simp: without_def)
  have f1: "forest (Nodes s1) p (nd_Child n) (vs @ NT x [] # ts)"
  proof (rule forest_replace [OF s(6) _ m(1)])
    show "Nodes s1 b = Nodes s b" if "b \<in> set (nodes_of vs) \<union> set (nodes_of ts)" for b
      using that s(3) roots_subset [of xs] unfolding s1(3) by (auto simp: without_def)
    show "Nodes s1 x = Some (m\<lparr>nd_Child := 0\<rparr>)" using s1(3) by simp
  qed simp_all
  have d1: "distinct (nodes_of (vs @ NT x [] # ts))" "p \<notin> set (nodes_of (vs @ NT x [] # ts))" using s(3,4) by auto
  obtain s2 k where s2: "AcpiNsRemoveNode sv RootNode x s1 = Some s2" "good s2" "Nodes s2 p = Some (n\<lparr>nd_Child := k\<rparr>)"
      "forest (Nodes s2) p k (vs @ ts)" "sub_heap (Nodes s1) (Nodes s2)" "dom (Nodes s2) = dom (Nodes s1) - {x}"
      "\<And>b. b \<noteq> p \<Longrightarrow> b \<notin> set (nodes_of (vs @ NT x [] # ts)) \<Longrightarrow> Nodes s2 b = Nodes s1 b"
    using remove_child [OF ok s1(2) s(2) p1 f1 d1 dx(4)] by blast
  have run: "(if D \<noteq> 0 then case AcpiNsDeleteChildren sv RootNode D s of None \<Rightarrow> None | Some s \<Rightarrow> AcpiNsRemoveNode sv RootNode D s else Some s) = Some s2"
    using False u(2) s1(1) s2(1) by simp
  have sub1: "sub_heap (Nodes s) (Nodes s1)"
    using m(1) unfolding s1(3) by (auto simp: sub_heap_def without_def core_def split: if_splits)
  have "settle us D = vs" "waiting us D = insert x (roots xs)" using False u lst by (simp_all add: settle_def waiting_def)
  moreover have "at_list good RootNode s2 p (vs @ ts)" using s2(2-4) s by (auto simp: at_list_def scope_def)
  moreover have "effect (Nodes s) (insert p (set (nodes_of (us @ ts)))) (insert x (roots xs)) (Nodes s2)"
    unfolding effect_def
  proof (intro conjI allI impI)
    show "sub_heap (Nodes s) (Nodes s2)" using sub1 s2(5) by (rule sub_heap_trans)
    show "dom (Nodes s2) = dom (Nodes s) - insert x (roots xs)"
      unfolding s2(6) s1(3) using m(1) dx(2) roots_subset [of xs] by (auto simp: without_def dom_def split: if_splits)
    show "Nodes s2 b = Nodes s b" if "b \<notin> insert p (set (nodes_of (us @ ts)))" for b
      using that s2(7) [of b] s1(3) roots_subset [of xs] by (auto simp: u without_def)
  qed
  ultimately show ?thesis using run s2(3) by metis
qed

section \<open>The walk\<close>

fun first :: "ntree list \<Rightarrow> addr" where
  "first [] = 0"
| "first (t # ts) = root_of t"

lemma forest_first: "forest h p a ts \<Longrightarrow> a = first ts"
  by (cases ts rule: nodes_of.cases) auto

lemma next_of:
  assumes "forest (Nodes s) p (nd_Child n) (us @ ts)" "Nodes s p = Some n" "at_child us D c"
  shows "AcpiNsGetNextNode p c (Nodes s) = Some (first ts)"
proof (cases "us = []")
  case True
  then show ?thesis using assms forest_first [of "Nodes s" p "nd_Child n" ts] by (auto simp: at_child_def AcpiNsGetNextNode_def)
next
  case False
  obtain x xs where x: "last us = NT x xs" by (cases "last us")
  have us: "us @ ts = butlast us @ NT x xs # ts" using append_butlast_last_id [OF False] x by (metis append_Cons append_Nil append_assoc)
  obtain m where m: "Nodes s x = Some m" "x \<noteq> 0" "forest (Nodes s) p (nd_Peer m) ts" using forest_mid [OF assms(1) [unfolded us]] by blast
  have "c = x" using assms(3) False x by (auto simp: at_child_def)
  then show ?thesis using m forest_first [OF m(3)] by (simp add: AcpiNsGetNextNode_def)
qed

text \<open>One step of the loop after the waiting deletion.\<close>

lemma owner_step:
  assumes "Level > 0" "AcpiNsGetNextNode p c (Nodes s) = Some a"
    and "(if D \<noteq> 0 then case AcpiNsDeleteChildren sv RootNode D s of None \<Rightarrow> None | Some s \<Rightarrow> AcpiNsRemoveNode sv RootNode D s else Some s) = Some s1"
  shows "a = 0 \<Longrightarrow> Nodes s1 p = Some n \<Longrightarrow> owner_loop sv RootNode OwnerId D p c Level s =
      owner_loop sv RootNode OwnerId (if Level - 1 \<noteq> 0 \<and> nd_OwnerId n = OwnerId then p else 0) (nd_Parent n) p (Level - 1) s1"
    and "a \<noteq> 0 \<Longrightarrow> Nodes s1 a = Some n \<Longrightarrow> (if nd_OwnerId n = OwnerId then AcpiNsDetachObject sv a s1 else Some s1) = Some s2 \<Longrightarrow>
      Nodes s2 a = Some n' \<Longrightarrow> owner_loop sv RootNode OwnerId D p c Level s =
      (if nd_Child n' \<noteq> 0 then owner_loop sv RootNode OwnerId 0 a 0 (Level + 1) s2
       else owner_loop sv RootNode OwnerId (if nd_OwnerId n' = OwnerId then a else 0) p a Level s2)"
  by (subst owner_loop.simps, use assms in simp)+

text \<open>The end of a list of children: the walk goes up.\<close>

lemma owner_up:
  assumes ok: "services_ok sv good" and l: "at_list good RootNode s q us" and c: "at_child us D c" and n: "Nodes s q = Some n" and L: "Level > 0"
  shows "\<exists>s' k. owner_loop sv RootNode OwnerId D q c Level s =
      owner_loop sv RootNode OwnerId (if Level - 1 \<noteq> 0 \<and> nd_OwnerId n = OwnerId then q else 0) (nd_Parent n) q (Level - 1) s'
    \<and> at_list good RootNode s' q (settle us D) \<and> Nodes s' q = Some (n\<lparr>nd_Child := k\<rparr>)
    \<and> effect (Nodes s) (insert q (set (nodes_of us))) (waiting us D) (Nodes s')"
proof -
  have l': "at_list good RootNode s q (us @ [])" using l by simp
  have "forest (Nodes s) q (nd_Child n) (us @ [])" using l n by (auto simp: at_list_def scope_def)
  then have nxt: "AcpiNsGetNextNode q c (Nodes s) = Some 0" using next_of [OF _ n c] by fastforce
  obtain s' k where s': "(if D \<noteq> 0 then case AcpiNsDeleteChildren sv RootNode D s of None \<Rightarrow> None | Some s \<Rightarrow> AcpiNsRemoveNode sv RootNode D s else Some s) = Some s'"
      "at_list good RootNode s' q (settle us D @ [])" "Nodes s' q = Some (n\<lparr>nd_Child := k\<rparr>)"
      "effect (Nodes s) (insert q (set (nodes_of (us @ [])))) (waiting us D) (Nodes s')"
    using settle_step [OF ok l' c n] by blast
  show ?thesis using owner_step(1) [OF L nxt s'(1) refl s'(3), of OwnerId] s'(2-4) by (intro exI [where x = s'], intro exI [where x = k]) simp
qed

text \<open>The rest \<open>ts\<close> of a list of children is done.\<close>

definition owner_done ::
  "('e ns \<Rightarrow> bool) \<Rightarrow> addr \<Rightarrow> addr set \<Rightarrow> addr \<Rightarrow> ns_node \<Rightarrow> ntree list \<Rightarrow> 'e ns \<Rightarrow> ntree list \<Rightarrow> addr \<Rightarrow> ntree list \<Rightarrow> addr \<Rightarrow> addr \<Rightarrow> 'e ns \<Rightarrow> bool" where
  "owner_done good RootNode W p n ts s us D us' D' c' s' \<longleftrightarrow> at_list good RootNode s' p us' \<and> at_child us' D' c'
     \<and> settle us' D' = settle us D @ prune W ts \<and> (\<exists>k. Nodes s' p = Some (n\<lparr>nd_Child := k\<rparr>)) \<and> set (nodes_of us') \<subseteq> set (nodes_of (us @ ts))
     \<and> (\<exists>F. effect (Nodes s) (insert p (set (nodes_of (us @ ts)))) F (Nodes s') \<and> F \<union> waiting us' D' = waiting us D \<union> freed W ts)"

lemma owner_done_refl: "at_list good RootNode s p us \<Longrightarrow> at_child us D c \<Longrightarrow> Nodes s p = Some n \<Longrightarrow> owner_done good RootNode W p n [] s us D us D c s"
  unfolding owner_done_def
  by (auto simp: effect_def sub_heap_refl intro: exI [where x = "nd_Child n"])

text \<open>The children of a node, from the step down to it to the step up from it.\<close>

lemma owner_below:
  assumes ok: "services_ok sv good" and l: "at_list good RootNode s b cs" and ow: "owners OwnerId W (Nodes s)" and n: "Nodes s b = Some n"
    and L: "Level > 0" "Level + 1 > 0"
    and IH: "\<exists>D' c' us' s'. owner_loop sv RootNode OwnerId 0 b 0 (Level + 1) s = owner_loop sv RootNode OwnerId D' b c' (Level + 1) s'
      \<and> owner_done good RootNode W b n cs s [] 0 us' D' c' s'"
  shows "\<exists>s' k. owner_loop sv RootNode OwnerId 0 b 0 (Level + 1) s = owner_loop sv RootNode OwnerId (if b \<in> W then b else 0) (nd_Parent n) b Level s'
    \<and> at_list good RootNode s' b (prune W cs) \<and> Nodes s' b = Some (n\<lparr>nd_Child := k\<rparr>) \<and> effect (Nodes s) (insert b (set (nodes_of cs))) (freed W cs) (Nodes s')"
proof -
  obtain D' c' us' s1 where s1: "owner_loop sv RootNode OwnerId 0 b 0 (Level + 1) s = owner_loop sv RootNode OwnerId D' b c' (Level + 1) s1"
      "owner_done good RootNode W b n cs s [] 0 us' D' c' s1" using IH by blast
  then obtain k F where d: "at_list good RootNode s1 b us'" "at_child us' D' c'" "settle us' D' = prune W cs" "Nodes s1 b = Some (n\<lparr>nd_Child := k\<rparr>)"
      "set (nodes_of us') \<subseteq> set (nodes_of cs)" "effect (Nodes s) (insert b (set (nodes_of cs))) F (Nodes s1)" "F \<union> waiting us' D' = freed W cs"
    by (auto simp: owner_done_def settle_def waiting_def)
  have W: "nd_OwnerId n = OwnerId \<longleftrightarrow> b \<in> W" using ow n by (simp add: owners_def)
  obtain s2 k' where s2: "owner_loop sv RootNode OwnerId D' b c' (Level + 1) s1 =
      owner_loop sv RootNode OwnerId (if Level + 1 - 1 \<noteq> 0 \<and> nd_OwnerId (n\<lparr>nd_Child := k\<rparr>) = OwnerId then b else 0) (nd_Parent (n\<lparr>nd_Child := k\<rparr>)) b (Level + 1 - 1) s2"
      "at_list good RootNode s2 b (settle us' D')" "Nodes s2 b = Some (n\<lparr>nd_Child := k\<rparr>\<lparr>nd_Child := k'\<rparr>)"
      "effect (Nodes s1) (insert b (set (nodes_of us'))) (waiting us' D') (Nodes s2)"
    using owner_up [OF ok d(1,2,4) L(2), of OwnerId] by blast
  have "effect (Nodes s) (insert b (set (nodes_of cs)) \<union> insert b (set (nodes_of us'))) (F \<union> waiting us' D') (Nodes s2)"
    using d(6) s2(4) by (rule effect_trans)
  then have "effect (Nodes s) (insert b (set (nodes_of cs))) (freed W cs) (Nodes s2)"
    unfolding d(7) by (rule effect_mono) (use d(5) in auto)
  moreover have "Level \<noteq> 0" using L(1) by auto
  ultimately show ?thesis using s1(1) s2(1-3) d(3) W by auto
qed

lemma settle_nodes: "set (nodes_of (settle us D)) \<subseteq> set (nodes_of us)"
  by (cases us rule: rev_cases) (auto simp: settle_def)

lemma owner_done_Cons:
  assumes e: "effect (Nodes s) (insert p (set (nodes_of (us @ NT b cs # ts)))) (waiting us D) (Nodes s1)"
      "effect (Nodes s1) (insert b (set (nodes_of cs))) (freed W cs) (Nodes s3)"
    and r: "owner_done good RootNode W p (n\<lparr>nd_Child := k1\<rparr>) ts s3 (settle us D @ [NT b (prune W cs)]) (if b \<in> W then b else 0) us' D' c' s'"
    and b: "b \<noteq> 0"
  shows "owner_done good RootNode W p n (NT b cs # ts) s us D us' D' c' s'"
proof -
  let ?us = "settle us D @ [NT b (prune W cs)]" and ?D = "if b \<in> W then b else 0"
  let ?B = "insert p (set (nodes_of (us @ NT b cs # ts)))"
  obtain F k where r': "at_list good RootNode s' p us'" "at_child us' D' c'" "settle us' D' = settle ?us ?D @ prune W ts"
      "Nodes s' p = Some (n\<lparr>nd_Child := k\<rparr>)" "set (nodes_of us') \<subseteq> set (nodes_of (?us @ ts))"
      "effect (Nodes s3) (insert p (set (nodes_of (?us @ ts)))) F (Nodes s')" "F \<union> waiting us' D' = waiting ?us ?D \<union> freed W ts"
    using r by (auto simp: owner_done_def)
  have sub: "set (nodes_of (?us @ ts)) \<subseteq> set (nodes_of (us @ NT b cs # ts))"
    using settle_nodes [of us D] prune_nodes [of W cs] by auto
  have st: "settle ?us ?D = settle us D @ prune W [NT b cs]" and wt: "waiting ?us ?D = (if b \<in> W then insert b (roots (prune W cs)) else {})"
    using b by (simp_all add: settle_def [of ?us] settle_def [of _ b] settle_def [of _ 0] waiting_def)
  have "effect (Nodes s) (?B \<union> insert b (set (nodes_of cs)) \<union> insert p (set (nodes_of (?us @ ts)))) (waiting us D \<union> freed W cs \<union> F) (Nodes s')"
    by (rule effect_trans [OF effect_trans [OF e] r'(6)])
  then have "effect (Nodes s) ?B (waiting us D \<union> freed W cs \<union> F) (Nodes s')" by (rule effect_mono) (use sub in auto)
  moreover have "waiting us D \<union> freed W cs \<union> F \<union> waiting us' D' = waiting us D \<union> freed W (NT b cs # ts)"
    using r'(7) wt by auto
  moreover have "settle us' D' = settle us D @ prune W (NT b cs # ts)" using r'(3) st by simp
  ultimately show ?thesis using r'(1,2,4,5) sub unfolding owner_done_def by blast
qed

lemma owner_forest:
  assumes ok: "services_ok sv good"
  shows "at_list good RootNode s p (us @ ts) \<Longrightarrow> at_child us D c \<Longrightarrow> owners OwnerId W (Nodes s) \<Longrightarrow> Nodes s p = Some n \<Longrightarrow> Level > 0 \<Longrightarrow>
    unat Level + depth_of ts < 2 ^ 32 \<Longrightarrow>
    \<exists>D' c' us' s'. owner_loop sv RootNode OwnerId D p c Level s = owner_loop sv RootNode OwnerId D' p c' Level s'
      \<and> owner_done good RootNode W p n ts s us D us' D' c' s'"
proof (induction ts arbitrary: p us D c Level s n rule: nodes_of.induct)
  case (1 p us D c Level s n)
  then show ?case using owner_done_refl [of good RootNode s p us D c n W] by auto
next
  case (2 b cs ts p us D c Level s n)
  let ?vs = "settle us D" and ?D = "if b \<in> W then b else 0"
  let ?us = "?vs @ [NT b (prune W cs)]"
  have f: "forest (Nodes s) p (nd_Child n) (us @ NT b cs # ts)" using "2.prems"(1,4) by (auto simp: at_list_def scope_def)
  have nxt: "AcpiNsGetNextNode p c (Nodes s) = Some b" using next_of [OF f "2.prems"(4,2)] by simp
  obtain s1 k1 where s1: "(if D \<noteq> 0 then case AcpiNsDeleteChildren sv RootNode D s of None \<Rightarrow> None | Some s \<Rightarrow> AcpiNsRemoveNode sv RootNode D s else Some s) = Some s1"
      "at_list good RootNode s1 p (?vs @ NT b cs # ts)" "Nodes s1 p = Some (n\<lparr>nd_Child := k1\<rparr>)"
      "effect (Nodes s) (insert p (set (nodes_of (us @ NT b cs # ts)))) (waiting us D) (Nodes s1)"
    using settle_step [OF ok "2.prems"(1,2,4)] by blast
  have f1: "forest (Nodes s1) p k1 (?vs @ NT b cs # ts)" using s1(2,3) by (simp add: at_list_def scope_def)
  obtain m where m: "Nodes s1 b = Some m" "b \<noteq> 0" "nd_Parent m = p" "forest (Nodes s1) b (nd_Child m) cs" using forest_mid [OF f1] by blast
  have d1: "good s1" "p \<noteq> 0" "distinct (nodes_of (?vs @ NT b cs # ts))" "p \<notin> set (nodes_of (?vs @ NT b cs # ts))"
      "RootNode \<notin> set (nodes_of (?vs @ NT b cs # ts))" using s1(2) by (auto simp: at_list_def)
  have ow1: "owners OwnerId W (Nodes s1)" using "2.prems"(3) s1(4) by (auto simp: effect_def intro: owners_sub)
  then have W: "nd_OwnerId m = OwnerId \<longleftrightarrow> b \<in> W" using m(1) by (simp add: owners_def)
  obtain s2 m' where s2: "(if nd_OwnerId m = OwnerId then AcpiNsDetachObject sv b s1 else Some s1) = Some s2" "good s2"
      "Nodes s2 = (Nodes s1)(b \<mapsto> m')" "detached m m'"
  proof (cases "nd_OwnerId m = OwnerId")
    case True
    then show ?thesis using detach_node [OF ok d1(1) m(1)] that by auto
  next
    case False
    then show ?thesis using that [of s1 m] d1(1) m(1) detached_refl by (simp add: fun_upd_idem)
  qed
  have m': "nd_Parent m' = p" "nd_Child m' = nd_Child m" "nd_Peer m' = nd_Peer m" "nd_OwnerId m' = OwnerId \<longleftrightarrow> b \<in> W"
    using s2(4) m(3) W by (auto simp: detached_def)
  have b2: "Nodes s2 b = Some m'" using s2(3) by simp
  have step: "owner_loop sv RootNode OwnerId D p c Level s =
      (if nd_Child m' \<noteq> 0 then owner_loop sv RootNode OwnerId 0 b 0 (Level + 1) s2 else owner_loop sv RootNode OwnerId ?D p b Level s2)"
    using owner_step(2) [OF "2.prems"(5) nxt s1(1) m(2,1) s2(1) b2] m'(4) by simp
  have f2: "forest (Nodes s2) b (nd_Child m') cs" unfolding m'(2) by (rule forest_frame [OF m(4)]) (use d1(3) s2(3) in auto)
  have e2: "effect (Nodes s1) {b} {} (Nodes s2)"
    using m(1) s2(3,4) by (auto simp: effect_def sub_heap_def core_def detached_def)
  have ow2: "owners OwnerId W (Nodes s2)" using ow1 e2 by (auto simp: effect_def intro: owners_sub)
  have "\<exists>s3 k3. owner_loop sv RootNode OwnerId D p c Level s = owner_loop sv RootNode OwnerId ?D p b Level s3 \<and> good s3
      \<and> Nodes s3 b = Some (m'\<lparr>nd_Child := k3\<rparr>) \<and> forest (Nodes s3) b k3 (prune W cs) \<and> effect (Nodes s2) (insert b (set (nodes_of cs))) (freed W cs) (Nodes s3)"
  proof (cases "cs = []")
    case True
    have "m' = m'\<lparr>nd_Child := 0\<rparr>" using f2 True by simp
    then show ?thesis using step f2 True s2(2) b2 by (intro exI [where x = s2], intro exI [where x = 0]) (auto simp: effect_def sub_heap_refl)
  next
    case False
    have "nd_Child m' \<noteq> 0" using f2 False by (cases cs rule: nodes_of.cases) auto
    have up: "unat (Level + 1) = unat Level + 1" using unat_add_nowrap [of Level 1] "2.prems"(6) by simp
    then have L1: "Level + 1 > 0" "unat (Level + 1) + depth_of cs < 2 ^ 32" using "2.prems"(6) by (auto simp: word_less_nat_alt)
    have l2: "at_list good RootNode s2 b ([] @ cs)" using s2(2) m(2) d1(3,5) f2 b2 by (auto simp: at_list_def scope_def)
    have c0: "at_child [] 0 0" by (simp add: at_child_def)
    obtain s3 k3 where s3: "owner_loop sv RootNode OwnerId 0 b 0 (Level + 1) s2 = owner_loop sv RootNode OwnerId ?D (nd_Parent m') b Level s3"
        "at_list good RootNode s3 b (prune W cs)" "Nodes s3 b = Some (m'\<lparr>nd_Child := k3\<rparr>)" "effect (Nodes s2) (insert b (set (nodes_of cs))) (freed W cs) (Nodes s3)"
      using owner_below [OF ok l2 [unfolded append.simps] ow2 b2 "2.prems"(5) L1(1) "2.IH"(1) [OF l2 c0 ow2 b2 L1]] by blast
    then show ?thesis using step \<open>nd_Child m' \<noteq> 0\<close> m'(1)
      by (intro exI [where x = s3], intro exI [where x = k3]) (auto simp: at_list_def scope_def)
  qed
  then obtain s3 k3 where s3: "owner_loop sv RootNode OwnerId D p c Level s = owner_loop sv RootNode OwnerId ?D p b Level s3" "good s3"
      "Nodes s3 b = Some (m'\<lparr>nd_Child := k3\<rparr>)" "forest (Nodes s3) b k3 (prune W cs)"
      "effect (Nodes s2) (insert b (set (nodes_of cs))) (freed W cs) (Nodes s3)" by blast
  have e13: "effect (Nodes s1) (insert b (set (nodes_of cs))) (freed W cs) (Nodes s3)" using effect_trans [OF e2 s3(5)] by simp
  have p3: "Nodes s3 p = Some (n\<lparr>nd_Child := k1\<rparr>)" using e13 s1(3) d1(4) by (auto simp: effect_def)
  have f3: "forest (Nodes s3) p k1 (?vs @ NT b (prune W cs) # ts)"
    by (rule forest_replace [of "Nodes s1" p k1 ?vs b cs ts "Nodes s3" m "m'\<lparr>nd_Child := k3\<rparr>" "prune W cs"])
      (use f1 e13 d1(3) s3(3,4) m' m in \<open>auto simp: effect_def\<close>)
  have l3: "at_list good RootNode s3 p (?us @ ts)"
    using s3(2) d1 f3 p3 prune_nodes [of W cs] prune_distinct [of cs W] by (auto simp: at_list_def scope_def)
  have c3: "at_child ?us ?D b" using m(2) by (simp add: at_child_def)
  have ow3: "owners OwnerId W (Nodes s3)" using ow1 e13 by (auto simp: effect_def intro: owners_sub)
  have L3: "unat Level + depth_of ts < 2 ^ 32" using "2.prems"(6) by simp
  obtain D' c' us' s' where r: "owner_loop sv RootNode OwnerId ?D p b Level s3 = owner_loop sv RootNode OwnerId D' p c' Level s'"
      "owner_done good RootNode W p (n\<lparr>nd_Child := k1\<rparr>) ts s3 ?us ?D us' D' c' s'"
    using "2.IH"(2) [OF l3 c3 ow3 p3 "2.prems"(5) L3] by blast
  have "owner_done good RootNode W p n (NT b cs # ts) s us D us' D' c' s'"
    using m(2) owner_done_Cons [OF s1(4) e13 r(2)] by blast
  then show ?case using s3(1) r(1) by metis
qed

lemma owner_loop_done:
  assumes ok: "services_ok sv good" and l: "at_list good R s R ts" and ow: "owners OwnerId W (Nodes s)" and d: "depth_of ts + 1 < 2 ^ 32"
  shows "\<exists>s'. owner_loop sv R OwnerId 0 R 0 1 s = Some s' \<and> at_list good R s' R (prune W ts)
    \<and> effect (Nodes s) (insert R (set (nodes_of ts))) (freed W ts) (Nodes s')"
proof -
  obtain n where n: "Nodes s R = Some n" using l by (auto elim: at_listE)
  have l': "at_list good R s R ([] @ ts)" and c0: "at_child [] 0 0" and one: "(1 :: u32) > 0" using l by (simp_all add: at_child_def)
  obtain D c us s1 where s1: "owner_loop sv R OwnerId 0 R 0 1 s = owner_loop sv R OwnerId D R c 1 s1" "owner_done good R W R n ts s [] 0 us D c s1"
    using owner_forest [OF ok l' c0 ow n one] d by auto
  then obtain k F where r: "at_list good R s1 R us" "at_child us D c" "settle us D = prune W ts" "Nodes s1 R = Some (n\<lparr>nd_Child := k\<rparr>)"
      "set (nodes_of us) \<subseteq> set (nodes_of ts)" "effect (Nodes s) (insert R (set (nodes_of ts))) F (Nodes s1)" "F \<union> waiting us D = freed W ts"
    by (auto simp: owner_done_def settle_def waiting_def)
  obtain s2 where s2: "owner_loop sv R OwnerId D R c 1 s1 = owner_loop sv R OwnerId 0 (nd_Parent n) R 0 s2"
      "at_list good R s2 R (settle us D)" "effect (Nodes s1) (insert R (set (nodes_of us))) (waiting us D) (Nodes s2)"
    using owner_up [OF ok r(1,2,4) one, of OwnerId] by auto
  have "owner_loop sv R OwnerId 0 (nd_Parent n) R 0 s2 = Some s2" by (subst owner_loop.simps) simp
  moreover have "effect (Nodes s) (insert R (set (nodes_of ts))) (F \<union> waiting us D) (Nodes s2)"
    by (rule effect_mono [OF effect_trans [OF r(6) s2(3)]]) (use r(5) in auto)
  ultimately show ?thesis using s1(1) s2(1,2) r(3,7) by auto
qed

definition owned :: "u16 \<Rightarrow> nheap \<Rightarrow> addr set" where
  "owned OwnerId h = {b. \<exists>n. h b = Some n \<and> nd_OwnerId n = OwnerId}"

text \<open>What is required of a tree below the root node.\<close>

definition namespace_tree :: "addr \<Rightarrow> ntree list \<Rightarrow> nheap \<Rightarrow> bool" where
  "namespace_tree R ts h \<longleftrightarrow> R \<noteq> 0 \<and> scope h R ts \<and> distinct (R # nodes_of ts) \<and> depth_of ts + 1 < 2 ^ 32"

lemma by_owner:
  assumes "services_ok sv good" "good s" "sv_acquire sv s = (AE_OK, s0)" "namespace_tree R ts (Nodes s)" "OwnerId \<noteq> 0" "W = owned OwnerId (Nodes s)"
  shows "\<exists>s'. AcpiNsDeleteNamespaceByOwner sv R OwnerId s = Some s' \<and> good s' \<and> scope (Nodes s') R (prune W ts)
    \<and> effect (Nodes s) (insert R (set (nodes_of ts))) (freed W ts) (Nodes s')"
proof -
  have s0: "good s0" "Nodes s0 = Nodes s" using keepsD [OF services_okD(4) [OF assms(1)] assms(2)] assms(3) by simp_all
  have l: "at_list good R s0 R ts" and d: "depth_of ts + 1 < 2 ^ 32" using assms(4) s0 by (auto simp: at_list_def namespace_tree_def)
  have ow: "owners OwnerId W (Nodes s0)" using s0(2) assms(6) by (auto simp: owners_def owned_def)
  obtain s1 where s1: "owner_loop sv R OwnerId 0 R 0 1 s0 = Some s1" "at_list good R s1 R (prune W ts)"
      "effect (Nodes s0) (insert R (set (nodes_of ts))) (freed W ts) (Nodes s1)"
    using owner_loop_done [OF assms(1) l ow d] by blast
  have good1: "good s1" using s1(2) by (simp add: at_list_def)
  have "AcpiNsDeleteNamespaceByOwner sv R OwnerId s = Some (snd (sv_release sv s1))"
    using assms(3,5) s1(1) by (simp add: AcpiNsDeleteNamespaceByOwner_def ACPI_FAILURE_def)
  then show ?thesis using keepsD [OF services_okD(5) [OF assms(1)] good1] s1(2,3) s0(2) by (auto simp: at_list_def)
qed

text \<open>The nodes of a tree that are of the owner, when everything below such a node is of the owner.\<close>

fun closed_below :: "addr set \<Rightarrow> ntree list \<Rightarrow> bool" where
  "closed_below W [] = True"
| "closed_below W (NT b cs # ts) = ((if b \<in> W then set (nodes_of cs) \<subseteq> W else closed_below W cs) \<and> closed_below W ts)"

lemma prune_all: "set (nodes_of ts) \<subseteq> W \<Longrightarrow> prune W ts = [] \<and> freed W ts = set (nodes_of ts)"
  by (induction ts rule: nodes_of.induct) auto

lemma closed_freed: "closed_below W ts \<Longrightarrow> freed W ts = set (nodes_of ts) \<inter> W \<and> set (nodes_of (prune W ts)) = set (nodes_of ts) - W"
proof (induction ts rule: nodes_of.induct)
  case (2 b cs ts)
  show ?case
  proof (cases "b \<in> W")
    case True
    then show ?thesis using "2.IH"(2) "2.prems" prune_all [of cs W] by auto
  next
    case False
    then show ?thesis using "2.IH" "2.prems" by auto
  qed
qed simp

text \<open>
  C10. Deleting the nodes of an owner, as a function of the tree: \<open>AcpiNsDeleteNamespaceByOwner\<close> returns, what is left below the root is the
  tree without every node of the owner and without everything below it, in the same order, and the nodes that are not in the
  tree are as they were.
\<close>

theorem delete_by_owner_prunes:
  assumes "services_ok sv good" "good s" "sv_acquire sv s = (AE_OK, s0)" "namespace_tree RootNode ts (Nodes s)" "OwnerId \<noteq> 0"
  shows "\<exists>s'. AcpiNsDeleteNamespaceByOwner sv RootNode OwnerId s = Some s' \<and> scope (Nodes s') RootNode (prune (owned OwnerId (Nodes s)) ts)
    \<and> (\<forall>b. b \<notin> insert RootNode (set (nodes_of ts)) \<longrightarrow> Nodes s' b = Nodes s b)"
  using by_owner [OF assms refl] unfolding effect_def by blast

text \<open>
  When everything below a node of the owner is of this owner, the nodes that \<open>AcpiNsDeleteNamespaceByOwner\<close> releases are exactly the nodes
  of the owner, and all others are still in the tree.
\<close>

theorem delete_by_owner_exact:
  assumes "services_ok sv good" "good s" "sv_acquire sv s = (AE_OK, s0)" "namespace_tree RootNode ts (Nodes s)" "OwnerId \<noteq> 0"
    and "closed_below (owned OwnerId (Nodes s)) ts"
  shows "\<exists>s' us. AcpiNsDeleteNamespaceByOwner sv RootNode OwnerId s = Some s' \<and> dom (Nodes s') = dom (Nodes s) - (set (nodes_of ts) \<inter> owned OwnerId (Nodes s))
    \<and> scope (Nodes s') RootNode us \<and> set (nodes_of us) = set (nodes_of ts) - owned OwnerId (Nodes s)"
  using by_owner [OF assms(1-5) refl] closed_freed [OF assms(6)] unfolding effect_def by metis

text \<open>
  The nodes of a tree that are of other owners and two or more levels below the nearest node of the owner above them;
  \<open>d\<close> is 0 if there is no node of the owner above, 1 if it is the parent, 2 if it is further up.
\<close>

fun lost :: "addr set \<Rightarrow> nat \<Rightarrow> ntree list \<Rightarrow> addr set" where
  "lost W d [] = {}"
| "lost W d (NT b cs # ts) =
     (if b \<in> W then lost W 1 cs else if d = 0 then lost W 0 cs else (if d = 2 then {b} else {}) \<union> lost W 2 cs) \<union> lost W d ts"

lemma forest_dom: "forest h p a ts \<Longrightarrow> set (nodes_of ts) \<subseteq> dom h"
proof (induction ts arbitrary: p a rule: nodes_of.induct)
  case (2 b cs ts)
  obtain n where "h b = Some n" "forest h b (nd_Child n) cs" "forest h p (nd_Peer n) ts" using "2.prems" by (rule forest_ConsE) simp
  then show ?case using "2.IH" by auto
qed simp

lemma freed_nodes: "freed W ts \<subseteq> set (nodes_of ts)"
proof (induction W ts rule: freed.induct)
  case (2 W b cs ts)
  have "roots (prune W cs) \<subseteq> set (nodes_of cs)" using roots_subset [of "prune W cs"] prune_nodes [of W cs] by blast
  with 2 show ?case by auto
qed simp

lemma lost_split:
  "A \<inter> B = {} \<Longrightarrow> b \<notin> A \<Longrightarrow> b \<notin> B \<Longrightarrow> F \<subseteq> A \<Longrightarrow> G \<subseteq> B \<Longrightarrow> R \<subseteq> A \<Longrightarrow> X \<subseteq> B \<Longrightarrow>
    (A - F - R) \<union> (B - G - X) = insert b (A \<union> B) - (F \<union> insert b R \<union> G) - X"
  by blast

lemma lost_exact:
  "distinct (nodes_of ts) \<Longrightarrow> d \<le> 2 \<Longrightarrow>
    lost W d ts = set (nodes_of ts) - freed W ts - (if d = 0 then set (nodes_of (prune W ts)) else if d = 1 then roots (prune W ts) else {})"
proof (induction ts arbitrary: d rule: nodes_of.induct)
  case (2 b cs ts)
  have sub: "freed W cs \<subseteq> set (nodes_of cs)" "freed W ts \<subseteq> set (nodes_of ts)" "set (nodes_of (prune W cs)) \<subseteq> set (nodes_of cs)"
      "set (nodes_of (prune W ts)) \<subseteq> set (nodes_of ts)" "roots (prune W cs) \<subseteq> set (nodes_of cs)" "roots (prune W ts) \<subseteq> set (nodes_of ts)"
    using freed_nodes [of W cs] freed_nodes [of W ts] prune_nodes [of W cs] prune_nodes [of W ts]
      roots_subset [of "prune W cs"] roots_subset [of "prune W ts"] by simp_all
  have dist: "b \<notin> set (nodes_of cs)" "b \<notin> set (nodes_of ts)" "set (nodes_of cs) \<inter> set (nodes_of ts) = {}" using "2.prems"(1) by auto
  have d: "distinct (nodes_of cs)" "distinct (nodes_of ts)" using "2.prems"(1) by simp_all
  note below = "2.IH"(1) [OF d(1)] and peers = "2.IH"(2) [OF d(2) "2.prems"(2)]
  consider "b \<in> W" | "b \<notin> W" "d = 0" | "b \<notin> W" "d = 1" | "b \<notin> W" "d = 2" using "2.prems"(2) by linarith
  then show ?case
  proof cases
    case 1
    then have "lost W d (NT b cs # ts) = (set (nodes_of cs) - freed W cs - roots (prune W cs)) \<union> lost W d ts" using below [of 1] by simp
    also have "\<dots> = set (nodes_of (NT b cs # ts)) - freed W (NT b cs # ts)
        - (if d = 0 then set (nodes_of (prune W ts)) else if d = 1 then roots (prune W ts) else {})"
      unfolding peers using lost_split [OF dist(3,1,2) sub(1,2,5), of "if d = 0 then set (nodes_of (prune W ts)) else if d = 1 then roots (prune W ts) else {}"]
        sub(4,6) 1 by simp
    finally show ?thesis using 1 by simp
  next
    case 2
    with sub dist below [of 0] peers show ?thesis by simp blast
  next
    case 3
    with sub dist below [of 2] peers show ?thesis by simp blast
  next
    case 4
    with sub dist below [of 2] peers show ?thesis by simp blast
  qed
qed simp

lemma sample_acquire: "sv_acquire sample_services (sample_state h) = (AE_OK, (sample_state h)\<lparr>Ext := [Lock]\<rparr>)" "Nodes (sample_state h) = h"
  by (simp_all add: sample_services_def sample_state_def)

definition sample_mixed :: nheap where
  "sample_mixed = [1 \<mapsto> (sample_node 0 2 0 10)\<lparr>nd_OwnerId := 2\<rparr>, 2 \<mapsto> sample_node 1 3 0 20,
     3 \<mapsto> (sample_node 2 4 0 30)\<lparr>nd_OwnerId := 2\<rparr>, 4 \<mapsto> (sample_node 3 0 0 40)\<lparr>nd_OwnerId := 2\<rparr>]"

lemma sample_mixed_ok: "typed sample_mixed" "owned 1 sample_mixed = {2}" "namespace_tree 1 [NT 2 [NT 3 [NT 4 []]]] sample_mixed"
  by (auto simp: typed_def owned_def namespace_tree_def scope_def sample_mixed_def sample_node_def ACPI_TYPE_LOCAL_DATA_def split: if_splits)

text \<open>
  C36. What the deletion by owner loses: the nodes that \<open>AcpiNsDeleteNamespaceByOwner\<close> neither releases nor leaves in the tree are exactly
  the nodes of other owners for which the nearest node of the owner above them is not the parent but further up. They still
  have their owner and their \<open>Parent\<close> pointer, while the tree below the root ends above them. \<open>AcpiNsDeleteChildren\<close> has a comment that the
  grandchildren have been deleted already, and only reports an error.
\<close>

theorem delete_by_owner_loses_grandchild:
  assumes "services_ok sv good" "good s" "sv_acquire sv s = (AE_OK, s0)" "namespace_tree RootNode ts (Nodes s)" "OwnerId \<noteq> 0"
  shows "\<exists>s' us. AcpiNsDeleteNamespaceByOwner sv RootNode OwnerId s = Some s' \<and> scope (Nodes s') RootNode us
    \<and> (\<forall>x \<in> set (nodes_of ts). (x \<in> dom (Nodes s') \<and> x \<notin> set (nodes_of us)) = (x \<in> lost (owned OwnerId (Nodes s)) 0 ts))
    \<and> (\<forall>x n. Nodes s' x = Some n \<longrightarrow> (\<exists>n0. Nodes s x = Some n0 \<and> nd_Parent n = nd_Parent n0 \<and> nd_OwnerId n = nd_OwnerId n0))"
proof -
  let ?W = "owned OwnerId (Nodes s)"
  obtain s' where s': "AcpiNsDeleteNamespaceByOwner sv RootNode OwnerId s = Some s'" "scope (Nodes s') RootNode (prune ?W ts)"
      "effect (Nodes s) (insert RootNode (set (nodes_of ts))) (freed ?W ts) (Nodes s')"
    using by_owner [OF assms refl] by blast
  have dom: "dom (Nodes s') = dom (Nodes s) - freed ?W ts" and sub: "sub_heap (Nodes s) (Nodes s')" using s'(3) by (simp_all add: effect_def)
  have "set (nodes_of ts) \<subseteq> dom (Nodes s)"
  proof -
    have "scope (Nodes s) RootNode ts" using assms(4) by (simp add: namespace_tree_def)
    then obtain n where "Nodes s RootNode = Some n" "forest (Nodes s) RootNode (nd_Child n) ts" by (rule scopeE)
    then show ?thesis by (intro forest_dom)
  qed
  moreover have "lost ?W 0 ts = set (nodes_of ts) - freed ?W ts - set (nodes_of (prune ?W ts))"
    using lost_exact [of ts 0 ?W] assms(4) by (simp add: namespace_tree_def)
  ultimately have "\<forall>x \<in> set (nodes_of ts). (x \<in> dom (Nodes s') \<and> x \<notin> set (nodes_of (prune ?W ts))) = (x \<in> lost ?W 0 ts)"
    unfolding dom by blast
  moreover have "\<forall>x n. Nodes s' x = Some n \<longrightarrow> (\<exists>n0. Nodes s x = Some n0 \<and> nd_Parent n = nd_Parent n0 \<and> nd_OwnerId n = nd_OwnerId n0)"
    using sub unfolding sub_heap_def core_def by (metis Pair_inject)
  ultimately show ?thesis using s'(1,2) by blast
qed

text \<open>The node 2 is of the owner, the node 4 two levels below it is of another one: it is not released, and the tree is empty.\<close>

theorem delete_by_owner_loses_grandchild_witness:
  "\<exists>s' us. AcpiNsDeleteNamespaceByOwner sample_services 1 1 (sample_state sample_mixed) = Some s' \<and> scope (Nodes s') 1 us
    \<and> 4 \<in> dom (Nodes s') \<and> 4 \<notin> set (nodes_of us)"
proof -
  let ?ts = "[NT 2 [NT 3 [NT 4 []]]]"
  have "services_ok sample_services data_lists" "data_lists (sample_state sample_mixed)" "namespace_tree 1 ?ts (Nodes (sample_state sample_mixed))"
      and ow: "owned 1 (Nodes (sample_state sample_mixed)) = {2}"
    using sample_services_ok sample_mixed_ok sample_data_lists by (simp_all add: sample_state_def)
  from delete_by_owner_loses_grandchild [OF this(1,2) sample_acquire(1) this(3), of 1] obtain s' us where
    r: "AcpiNsDeleteNamespaceByOwner sample_services 1 1 (sample_state sample_mixed) = Some s'" "scope (Nodes s') 1 us"
      "\<forall>x \<in> set (nodes_of ?ts). (x \<in> dom (Nodes s') \<and> x \<notin> set (nodes_of us)) = (x \<in> lost {2} 0 ?ts)"
    unfolding ow by auto
  have "4 \<in> set (nodes_of ?ts)" "4 \<in> lost {2} 0 ?ts" by simp_all
  with r show ?thesis by blast
qed

text \<open>A tree in which a node of one owner has a child of another one, for the examples.\<close>

definition sample_owned :: nheap where
  "sample_owned = [1 \<mapsto> (sample_node 0 2 0 10)\<lparr>nd_OwnerId := 2\<rparr>, 2 \<mapsto> (sample_node 1 3 4 20)\<lparr>nd_OwnerId := 2\<rparr>,
     3 \<mapsto> sample_node 2 0 0 30, 4 \<mapsto> sample_node 1 0 0 40]"

lemma sample_owned_ok: "typed sample_owned" "owned 1 sample_owned = {3, 4}" "namespace_tree 1 sample_trees sample_owned" "dom sample_owned = {1, 2, 3, 4}"
  by (auto simp: typed_def owned_def namespace_tree_def scope_def sample_owned_def sample_node_def sample_trees_def ACPI_TYPE_LOCAL_DATA_def split: if_splits)

theorem delete_by_owner_prunes_witness:
  "\<exists>s'. AcpiNsDeleteNamespaceByOwner sample_services 1 1 (sample_state sample_owned) = Some s' \<and> scope (Nodes s') 1 [NT 2 []]"
  using delete_by_owner_prunes [OF sample_services_ok sample_data_lists [OF sample_owned_ok(1)] sample_acquire(1), of 1 sample_trees 1] sample_owned_ok
  by (auto simp: sample_acquire sample_trees_def)

theorem delete_by_owner_exact_witness:
  "\<exists>s'. AcpiNsDeleteNamespaceByOwner sample_services 1 1 (sample_state sample_owned) = Some s' \<and> dom (Nodes s') = {1, 2}"
proof -
  have "closed_below (owned 1 (Nodes (sample_state sample_owned))) sample_trees" by (simp add: sample_acquire sample_owned_ok sample_trees_def)
  moreover have "{1, 2, 3, 4} - set (nodes_of sample_trees) \<inter> {3, 4} = {1, 2 :: addr}" by (auto simp: sample_trees_def)
  ultimately show ?thesis
    using delete_by_owner_exact [OF sample_services_ok sample_data_lists [OF sample_owned_ok(1)] sample_acquire(1), of 1 sample_trees 1] sample_owned_ok
    by (auto simp: sample_acquire)
qed

end
