(* ===== verification/NsLookup.thy ===== *)
theory NsLookup
  imports NsEnter NsOwner
begin

text \<open>
  \<open>AcpiNsLookup\<close> of \<^verbatim>\<open>components/namespace/nsaccess.c\<close>: the names of AML, with their root and parent prefixes and segment counts, are
  followed through the tree. The theorems show that a lookup in execute mode implements the search rules for names.
\<close>

section \<open>The code\<close>

definition AML_DUAL_NAME_PREFIX :: u8 where "AML_DUAL_NAME_PREFIX = 0x2E"
definition AML_MULTI_NAME_PREFIX :: u8 where "AML_MULTI_NAME_PREFIX = 0x2F"
definition AML_ROOT_PREFIX :: u8 where "AML_ROOT_PREFIX = 0x5C"
definition AML_PARENT_PREFIX :: u8 where "AML_PARENT_PREFIX = 0x5E"
definition ACPI_NS_NO_UPSEARCH :: u32 where "ACPI_NS_NO_UPSEARCH = 0"
definition ACPI_NS_DONT_OPEN_SCOPE :: u32 where "ACPI_NS_DONT_OPEN_SCOPE = 0x0002"
definition ACPI_NS_PREFIX_IS_SCOPE :: u32 where "ACPI_NS_PREFIX_IS_SCOPE = 0x0010"
definition ACPI_NS_PREFIX_MUST_EXIST :: u32 where "ACPI_NS_PREFIX_MUST_EXIST = 0x0200"

text \<open>The prefix scope; \<open>ScopeNode\<close> is the node of the scope info block, null if there is none. An error is \<open>Inl\<close>.\<close>

partial_function (option) containing_scope :: "nheap \<Rightarrow> addr \<Rightarrow> addr option" where
  "containing_scope h PrefixNode =
     (case h PrefixNode of
        None \<Rightarrow> None
      | Some n \<Rightarrow> if AcpiNsOpensScope (ucast (nd_Type n)) = 0 \<and> nd_Type n \<noteq> ACPI_TYPE_ANY then containing_scope h (nd_Parent n)
                  else Some PrefixNode)"

definition prefix_node :: "addr \<Rightarrow> addr \<Rightarrow> u32 \<Rightarrow> 'e ns \<Rightarrow> (acpi_status + addr) option" where
  "prefix_node RootNode ScopeNode Flags s =
     (if ScopeNode = 0 then Some (Inr RootNode)
      else if ob_DescriptorType (descriptor s ScopeNode) \<noteq> ACPI_DESC_TYPE_NAMED then Some (Inl AE_AML_INTERNAL)
      else if Flags AND ACPI_NS_PREFIX_IS_SCOPE = 0 then map_option Inr (containing_scope (Nodes s) ScopeNode)
      else Some (Inr ScopeNode))"

text \<open>The parent prefixes.\<close>

partial_function (option) parent_prefixes :: "mem \<Rightarrow> nheap \<Rightarrow> addr \<Rightarrow> addr \<Rightarrow> u32 \<Rightarrow> (acpi_status + addr \<times> addr \<times> u32) option" where
  "parent_prefixes m h Path ThisNode SearchParentFlag =
     (if m Path = AML_PARENT_PREFIX
      then case h ThisNode of
             None \<Rightarrow> None
           | Some n \<Rightarrow> if nd_Parent n = 0 then Some (Inl AE_NOT_FOUND)
                       else parent_prefixes m h (Path + 1) (nd_Parent n) ACPI_NS_NO_UPSEARCH
      else Some (Inr (Path, ThisNode, SearchParentFlag)))"

definition name_prefix :: "mem \<Rightarrow> nheap \<Rightarrow> addr \<Rightarrow> addr \<Rightarrow> addr \<Rightarrow> (acpi_status + addr \<times> addr \<times> u32) option" where
  "name_prefix m h RootNode PrefixNode Path =
     (if m Path = AML_ROOT_PREFIX then Some (Inr (Path + 1, RootNode, ACPI_NS_NO_UPSEARCH))
      else parent_prefixes m h Path PrefixNode ACPI_NS_SEARCH_PARENT)"

text \<open>The number of segments, the address of the first one, the search flag, and the type.\<close>

definition name_segments :: "mem \<Rightarrow> nheap \<Rightarrow> addr \<Rightarrow> addr \<Rightarrow> u32 \<Rightarrow> u32 \<Rightarrow> (u32 \<times> addr \<times> u32 \<times> u32) option" where
  "name_segments m h Path ThisNode SearchParentFlag t =
     (if m Path = 0 then map_option (\<lambda>n. (0, Path, SearchParentFlag, ucast (nd_Type n))) (h ThisNode)
      else if m Path = AML_DUAL_NAME_PREFIX then Some (2, Path + 1, ACPI_NS_NO_UPSEARCH, t)
      else if m Path = AML_MULTI_NAME_PREFIX then Some (ucast (m (Path + 1)), Path + 2, ACPI_NS_NO_UPSEARCH, t)
      else Some (1, Path, SearchParentFlag, t))"

text \<open>The name at an address.\<close>

definition name_at :: "mem \<Rightarrow> addr \<Rightarrow> u32" where
  "name_at m a = bytes_name [m a, m (a + 1), m (a + 2), m (a + 3)]"

text \<open>An alias along the path is followed if its target opens a scope.\<close>

definition through_alias :: "nheap \<Rightarrow> addr \<Rightarrow> (acpi_status + addr) option" where
  "through_alias h ThisNode =
     (case h ThisNode of
        None \<Rightarrow> None
      | Some n \<Rightarrow>
          if nd_Type n = ACPI_TYPE_LOCAL_ALIAS
          then if nd_Object n = 0 then Some (Inl AE_NOT_EXIST)
               else (case h (nd_Object n) of
                       None \<Rightarrow> None
                     | Some k \<Rightarrow> Some (Inr (if AcpiNsOpensScope (ucast (nd_Type k)) \<noteq> 0 then nd_Object n else ThisNode)))
          else Some (Inr ThisNode))"

text \<open>
  The type of the last node is read for a warning, unless the caller looks for any type or one of three local ones, and for the
  type of the result.
\<close>

definition last_type :: "nheap \<Rightarrow> addr \<Rightarrow> u32 \<Rightarrow> u32 \<Rightarrow> u32 option" where
  "last_type h ThisNode TypeToCheckFor t =
     (if TypeToCheckFor \<noteq> ucast ACPI_TYPE_ANY \<and> TypeToCheckFor \<noteq> ucast ACPI_TYPE_LOCAL_ALIAS
         \<and> TypeToCheckFor \<noteq> ucast ACPI_TYPE_LOCAL_METHOD_ALIAS \<and> TypeToCheckFor \<noteq> ucast ACPI_TYPE_LOCAL_SCOPE \<and> h ThisNode = None
      then None
      else if t = ucast ACPI_TYPE_ANY then map_option (\<lambda>n. ucast (nd_Type n)) (h ThisNode) else Some t)"

text \<open>The flags of one search: the caller's choices are for the last segment.\<close>

definition local_flags :: "u32 \<Rightarrow> u32 \<Rightarrow> bool \<Rightarrow> u32" where
  "local_flags Flags SearchParentFlag last_segment =
     (let LocalFlags = Flags AND NOT (ACPI_NS_ERROR_IF_FOUND OR ACPI_NS_OVERRIDE_IF_FOUND OR ACPI_NS_SEARCH_PARENT)
      in if last_segment
         then let LocalFlags = (if SearchParentFlag \<noteq> ACPI_NS_NO_UPSEARCH \<and> Flags AND ACPI_NS_SEARCH_PARENT \<noteq> 0
                                then LocalFlags OR ACPI_NS_SEARCH_PARENT else LocalFlags);
                  LocalFlags = (if Flags AND ACPI_NS_ERROR_IF_FOUND \<noteq> 0 then LocalFlags OR ACPI_NS_ERROR_IF_FOUND else LocalFlags)
              in if Flags AND ACPI_NS_OVERRIDE_IF_FOUND \<noteq> 0 then LocalFlags OR ACPI_NS_OVERRIDE_IF_FOUND else LocalFlags
         else LocalFlags)"

text \<open>
  The loop over the segments, of which the number is the first argument. \<open>Inl\<close> is a return with the status, the value of \<open>*ReturnNode\<close>, the mark of
  the method and the state; \<open>Inr\<close> has the last node and the type.
\<close>

record lookup =
  lk_Type :: u32
  lk_Mode :: interpreter_mode
  lk_Flags :: u32
  lk_Walk :: "walk option"

fun lookup_loop :: "'e enter_env \<Rightarrow> lookup \<Rightarrow> mem \<Rightarrow> u32 \<Rightarrow> nat \<Rightarrow> addr \<Rightarrow> addr \<Rightarrow> u32 \<Rightarrow> bool \<Rightarrow> 'e ns \<Rightarrow>
    ((acpi_status \<times> addr \<times> bool \<times> 'e ns) + (addr \<times> u32 \<times> bool \<times> 'e ns)) option" where
  "lookup_loop E L m SearchParentFlag 0 Path ThisNode t modified s = Some (Inr (ThisNode, t, modified, s))"
| "lookup_loop E L m SearchParentFlag (Suc NumSegments) Path CurrentNode t modified s =
     (if CurrentNode = 0 then Some (Inr (CurrentNode, t, modified, s))
      else let ThisSearchType = (if NumSegments = 0 then t else ucast ACPI_TYPE_ANY);
               LocalInterpreterMode = (if lk_Flags L AND ACPI_NS_PREFIX_MUST_EXIST \<noteq> 0 \<and> NumSegments > 0 then ACPI_IMODE_EXECUTE else lk_Mode L)
           in case AcpiNsSearchAndEnter E (name_at m Path) (lk_Walk L) CurrentNode LocalInterpreterMode ThisSearchType
                     (local_flags (lk_Flags L) SearchParentFlag (NumSegments = 0)) (Some CurrentNode) s of
                None \<Rightarrow> None
              | Some (Status, ThisNode, md, s) \<Rightarrow>
                  if ACPI_FAILURE Status then Some (Inl (Status, ThisNode, modified \<or> md, s))
                  else if NumSegments > 0
                  then (case through_alias (Nodes s) ThisNode of
                          None \<Rightarrow> None
                        | Some (Inl Status) \<Rightarrow> Some (Inl (Status, ACPI_ENTRY_NOT_FOUND, modified \<or> md, s))
                        | Some (Inr ThisNode) \<Rightarrow> lookup_loop E L m SearchParentFlag NumSegments (Path + 4) ThisNode t (modified \<or> md) s)
                  else (case last_type (Nodes s) ThisNode (lk_Type L) t of
                          None \<Rightarrow> None
                        | Some t \<Rightarrow> lookup_loop E L m SearchParentFlag NumSegments (Path + 4) ThisNode t (modified \<or> md) s))"

text \<open>The end: a new scope is pushed with \<open>push\<close> (\<open>AcpiDsScopeStackPush\<close>) if the type opens one.\<close>

definition open_scope :: "(addr \<Rightarrow> u32 \<Rightarrow> 'e ns \<Rightarrow> acpi_status \<times> 'e ns) \<Rightarrow> lookup \<Rightarrow> addr \<times> u32 \<times> bool \<times> 'e ns \<Rightarrow> acpi_status \<times> addr \<times> bool \<times> 'e ns" where
  "open_scope push L = (\<lambda>(ThisNode, t, modified, s).
     if lk_Flags L AND ACPI_NS_DONT_OPEN_SCOPE = 0 \<and> lk_Walk L \<noteq> None \<and> AcpiNsOpensScope t \<noteq> 0
     then case push ThisNode t s of
            (Status, s) \<Rightarrow> if ACPI_FAILURE Status then (Status, ACPI_ENTRY_NOT_FOUND, modified, s) else (AE_OK, ThisNode, modified, s)
     else (AE_OK, ThisNode, modified, s))"

text \<open>The result is the status, the value of \<open>*ReturnNode\<close>, the mark of the method and the state. \<open>ReturnNode\<close> says if the pointer is not null.\<close>

definition AcpiNsLookup :: "'e enter_env \<Rightarrow> (addr \<Rightarrow> u32 \<Rightarrow> 'e ns \<Rightarrow> acpi_status \<times> 'e ns) \<Rightarrow> mem \<Rightarrow> addr \<Rightarrow> addr \<Rightarrow> lookup \<Rightarrow> bool \<Rightarrow> 'e ns \<Rightarrow>
    (acpi_status \<times> addr \<times> bool \<times> 'e ns) option" where
  "AcpiNsLookup E push m ScopeNode Pathname L ReturnNode s =
     (if \<not> ReturnNode then Some (AE_BAD_PARAMETER, 0, False, s)
      else if en_RootNode E = 0 then Some (AE_NO_NAMESPACE, ACPI_ENTRY_NOT_FOUND, False, s)
      else case prefix_node (en_RootNode E) ScopeNode (lk_Flags L) s of
             None \<Rightarrow> None
           | Some (Inl Status) \<Rightarrow> Some (Status, ACPI_ENTRY_NOT_FOUND, False, s)
           | Some (Inr PrefixNode) \<Rightarrow>
               if Pathname = 0 then Some (open_scope push L (en_RootNode E, lk_Type L, False, s))
               else (case name_prefix m (Nodes s) (en_RootNode E) PrefixNode Pathname of
                       None \<Rightarrow> None
                     | Some (Inl Status) \<Rightarrow> Some (Status, ACPI_ENTRY_NOT_FOUND, False, s)
                     | Some (Inr (Path, ThisNode, SearchParentFlag)) \<Rightarrow>
                         (case name_segments m (Nodes s) Path ThisNode SearchParentFlag (lk_Type L) of
                            None \<Rightarrow> None
                          | Some (NumSegments, Path, SearchParentFlag, t) \<Rightarrow>
                              (case lookup_loop E L m SearchParentFlag (unat NumSegments) Path ThisNode t False s of
                                 None \<Rightarrow> None
                               | Some (Inl r) \<Rightarrow> Some r
                               | Some (Inr r) \<Rightarrow> Some (open_scope push L r)))))"

section \<open>Places in the tree\<close>

fun kids_in :: "ntree list \<Rightarrow> addr \<Rightarrow> ntree list" where
  "kids_in [] q = []"
| "kids_in (NT b cs # ts) q = (if b = q then cs else if q \<in> set (nodes_of cs) then kids_in cs q else kids_in ts q)"

text \<open>The scopes around a node, from the inside, with those in which the trees are.\<close>

fun enclosing :: "(addr \<times> ntree list) list \<Rightarrow> ntree list \<Rightarrow> addr \<Rightarrow> (addr \<times> ntree list) list" where
  "enclosing ps [] q = ps"
| "enclosing ps (NT b cs # ts) q = (if b = q then ps else if q \<in> set (nodes_of cs) then enclosing ((b, cs) # ps) cs q else enclosing ps ts q)"

lemma scope_kids: "forest h p a ts \<Longrightarrow> q \<in> set (nodes_of ts) \<Longrightarrow> scope h q (kids_in ts q)"
proof (induction ts arbitrary: p a rule: nodes_of.induct)
  case (2 b cs ts)
  obtain n where "a = b" "h b = Some n" "forest h b (nd_Child n) cs" "forest h p (nd_Peer n) ts"
    using "2.prems"(1) by (rule forest_ConsE) simp
  then show ?case using "2.IH" "2.prems"(2) by (auto simp: scope_def)
qed simp

lemma kids_nodes: "set (nodes_of (kids_in ts q)) \<subseteq> set (nodes_of ts)"
  by (induction ts rule: nodes_of.induct) auto

lemma chain_enclosing:
  "forest h p a ts \<Longrightarrow> chain h p ps \<Longrightarrow> q \<in> set (nodes_of ts) \<Longrightarrow> h q = Some n \<Longrightarrow> chain h (nd_Parent n) (enclosing ps ts q)"
proof (induction ts arbitrary: p a ps rule: nodes_of.induct)
  case (2 b cs ts)
  obtain k where k: "b \<noteq> 0" "h b = Some k" "nd_Parent k = p" "forest h b (nd_Child k) cs" "forest h p (nd_Peer k) ts"
    using "2.prems"(1) by (rule forest_ConsE) simp
  have "chain h b ((b, cs) # ps)" using k "2.prems"(2) by (simp add: scope_def)
  then show ?case using "2.IH"(1) [OF k(4)] "2.IH"(2) [OF k(5) "2.prems"(2)] k(2,3) "2.prems"(2-4) by auto
qed simp

lemma parent_in_tree: "forest h p a ts \<Longrightarrow> q \<in> set (nodes_of ts) \<Longrightarrow> h q = Some n \<Longrightarrow> nd_Parent n \<in> insert p (set (nodes_of ts))"
proof (induction ts arbitrary: p a rule: nodes_of.induct)
  case (2 b cs ts)
  obtain k where k: "h b = Some k" "nd_Parent k = p" "forest h b (nd_Child k) cs" "forest h p (nd_Peer k) ts"
    using "2.prems"(1) by (rule forest_ConsE) simp
  then show ?case using "2.IH"(1) [OF k(3)] "2.IH"(2) [OF k(4)] "2.prems"(2,3) by auto
qed simp

section \<open>The search rules\<close>

text \<open>A name in AML: prefixes, and a part with segments.\<close>

datatype path_prefix = Root | Up nat

datatype name_part = NullName | OneName u32 | TwoNames u32 u32 | MultiName "u32 list"

fun names_at :: "mem \<Rightarrow> addr \<Rightarrow> u32 list \<Rightarrow> bool" where
  "names_at m a [] = True"
| "names_at m a (N # Ns) = (name_at m a = N \<and> N \<noteq> 0 \<and> names_at m (a + 4) Ns)"

fun part_at :: "mem \<Rightarrow> addr \<Rightarrow> name_part \<Rightarrow> bool" where
  "part_at m a NullName = (m a = 0)"
| "part_at m a (OneName N) = (AcpiUtValidNameChar (m a) 0 \<and> names_at m a [N])"
| "part_at m a (TwoNames N M) = (m a = AML_DUAL_NAME_PREFIX \<and> names_at m (a + 1) [N, M])"
| "part_at m a (MultiName Ns) = (m a = AML_MULTI_NAME_PREFIX \<and> length Ns < 256 \<and> m (a + 1) = of_nat (length Ns) \<and> names_at m (a + 2) Ns)"

fun up_at :: "mem \<Rightarrow> addr \<Rightarrow> nat \<Rightarrow> name_part \<Rightarrow> bool" where
  "up_at m a 0 part = part_at m a part"
| "up_at m a (Suc k) part = (m a = AML_PARENT_PREFIX \<and> up_at m (a + 1) k part)"

fun path_at :: "mem \<Rightarrow> addr \<Rightarrow> path_prefix \<Rightarrow> name_part \<Rightarrow> bool" where
  "path_at m a Root part = (m a = AML_ROOT_PREFIX \<and> part_at m (a + 1) part)"
| "path_at m a (Up k) part = up_at m a k part"

text \<open>The node a number of levels up, and the node that stands for one along a path.\<close>

fun up :: "nheap \<Rightarrow> nat \<Rightarrow> addr \<Rightarrow> addr option" where
  "up h 0 q = Some q"
| "up h (Suc k) q = (case h q of None \<Rightarrow> None | Some n \<Rightarrow> if nd_Parent n = 0 then None else up h k (nd_Parent n))"

definition follow :: "nheap \<Rightarrow> addr \<Rightarrow> addr option" where
  "follow h b = (case h b of
     Some n \<Rightarrow> if nd_Type n = ACPI_TYPE_LOCAL_ALIAS
       then if nd_Object n = 0 then None
            else if (case h (nd_Object n) of Some k \<Rightarrow> AcpiNsOpensScope (ucast (nd_Type k)) \<noteq> 0 | None \<Rightarrow> False) then Some (nd_Object n) else Some b
       else Some b
   | None \<Rightarrow> None)"

fun resolve :: "nheap \<Rightarrow> ntree list \<Rightarrow> u32 list \<Rightarrow> addr \<Rightarrow> acpi_status \<times> addr" where
  "resolve h ts [] q = (AE_OK, q)"
| "resolve h ts (N # Ns) q =
     (case find_child h (repaired N) (kids_in ts q) of
        None \<Rightarrow> (AE_NOT_FOUND, 0)
      | Some b \<Rightarrow> if Ns = [] then (AE_OK, b) else case follow h b of None \<Rightarrow> (AE_NOT_EXIST, 0) | Some c \<Rightarrow> resolve h ts Ns c)"

text \<open>
  A single name without a prefix is searched in the scope and then, if this is allowed, in the enclosing ones. All other names are
  followed from their start, segment by segment.
\<close>

definition resolve_path :: "nheap \<Rightarrow> addr \<Rightarrow> ntree list \<Rightarrow> bool \<Rightarrow> path_prefix \<Rightarrow> name_part \<Rightarrow> addr \<Rightarrow> acpi_status \<times> addr" where
  "resolve_path h R ts upward pre part P =
     (case (case pre of Root \<Rightarrow> Some R | Up k \<Rightarrow> up h k P) of
        None \<Rightarrow> (AE_NOT_FOUND, 0)
      | Some q \<Rightarrow>
          (case part of
             NullName \<Rightarrow> (AE_OK, q)
           | OneName N \<Rightarrow>
               if pre = Up 0 \<and> upward
               then (case find_enclosing h (repaired N) ((q, kids_in ts q) # enclosing [] ts q) of None \<Rightarrow> (AE_NOT_FOUND, 0) | Some b \<Rightarrow> (AE_OK, b))
               else resolve h ts [N] q
           | TwoNames N M \<Rightarrow> resolve h ts [N, M] q
           | MultiName Ns \<Rightarrow> resolve h ts Ns q))"

text \<open>The targets of aliases are nodes of the tree.\<close>

definition targets_ok :: "nheap \<Rightarrow> ntree list \<Rightarrow> bool" where
  "targets_ok h ts \<longleftrightarrow> (\<forall>b \<in> set (nodes_of ts). \<forall>n. h b = Some n \<longrightarrow>
     (nd_Type n = ACPI_TYPE_LOCAL_METHOD_ALIAS \<longrightarrow> nd_Object n \<in> set (nodes_of ts))
     \<and> (nd_Type n = ACPI_TYPE_LOCAL_ALIAS \<longrightarrow> nd_Object n \<noteq> 0 \<longrightarrow> nd_Object n \<in> set (nodes_of ts)))"

lemma find_child_target:
  assumes "targets_ok h ts" "set (nodes_of cs) \<subseteq> set (nodes_of ts)" "find_child h N cs = Some b"
  shows "b \<in> set (nodes_of ts)"
proof -
  obtain c where c: "find (\<lambda>b. name_of h b = N) (map root_of cs) = Some c" "b = target_of h c" using assms(3) by (auto simp: find_child_def)
  then have "c \<in> roots cs" by (auto simp: find_Some_iff)
  then have "c \<in> set (nodes_of ts)" using roots_subset assms(2) by blast
  then show ?thesis using c(2) assms(1) by (auto simp: target_of_def targets_ok_def split: option.splits)
qed

lemma find_enclosing_target:
  assumes "targets_ok h ts"
  shows "\<forall>x \<in> set ps. set (nodes_of (snd x)) \<subseteq> set (nodes_of ts) \<Longrightarrow> find_enclosing h N ps = Some b \<Longrightarrow> b \<in> set (nodes_of ts)"
proof (induction ps)
  case (Cons x ps)
  then show ?case using find_child_target [OF assms, of "snd x" N b] by (cases x) (auto split: option.splits)
qed simp

lemma follow_tree: "targets_ok h ts \<Longrightarrow> b \<in> set (nodes_of ts) \<Longrightarrow> follow h b = Some c \<Longrightarrow> c \<in> set (nodes_of ts)"
  by (auto simp: follow_def targets_ok_def split: option.splits if_splits)

lemma enclosing_nodes:
  "\<forall>x \<in> set ps. set (nodes_of (snd x)) \<subseteq> set (nodes_of ts) \<Longrightarrow> set (nodes_of us) \<subseteq> set (nodes_of ts) \<Longrightarrow>
    \<forall>x \<in> set (enclosing ps us q). set (nodes_of (snd x)) \<subseteq> set (nodes_of ts)"
proof (induction us arbitrary: ps rule: nodes_of.induct)
  case (2 b cs us)
  have "\<forall>x \<in> set (enclosing ((b, cs) # ps) cs q). set (nodes_of (snd x)) \<subseteq> set (nodes_of ts)" "\<forall>x \<in> set (enclosing ps us q). set (nodes_of (snd x)) \<subseteq> set (nodes_of ts)"
    by (rule "2.IH"; use "2.prems" in auto)+
  then show ?case using "2.prems"(1) by simp
qed simp

section \<open>The lookup follows the rules\<close>

lemma local_flags_bits:
  assumes "Flags AND ACPI_NS_ERROR_IF_FOUND = 0" "Flags AND ACPI_NS_OVERRIDE_IF_FOUND = 0"
  shows "local_flags Flags f l AND ACPI_NS_ERROR_IF_FOUND = 0" "local_flags Flags f l AND ACPI_NS_OVERRIDE_IF_FOUND = 0"
    "local_flags Flags f l AND ACPI_NS_SEARCH_PARENT \<noteq> 0 \<longleftrightarrow> l \<and> f \<noteq> ACPI_NS_NO_UPSEARCH \<and> Flags AND ACPI_NS_SEARCH_PARENT \<noteq> 0"
proof -
  let ?M = "ACPI_NS_ERROR_IF_FOUND OR ACPI_NS_OVERRIDE_IF_FOUND OR ACPI_NS_SEARCH_PARENT"
  have lf: "local_flags Flags f l = (if l \<and> f \<noteq> ACPI_NS_NO_UPSEARCH \<and> Flags AND ACPI_NS_SEARCH_PARENT \<noteq> 0
      then (Flags AND NOT ?M) OR ACPI_NS_SEARCH_PARENT else Flags AND NOT ?M)"
    using assms by (simp add: local_flags_def Let_def)
  have z: "Flags AND NOT ?M AND ACPI_NS_ERROR_IF_FOUND = 0" "Flags AND NOT ?M AND ACPI_NS_OVERRIDE_IF_FOUND = 0"
      "Flags AND NOT ?M AND ACPI_NS_SEARCH_PARENT = 0"
    by (simp_all add: and.assoc ACPI_NS_ERROR_IF_FOUND_def ACPI_NS_OVERRIDE_IF_FOUND_def ACPI_NS_SEARCH_PARENT_def)
  show "local_flags Flags f l AND ACPI_NS_ERROR_IF_FOUND = 0" "local_flags Flags f l AND ACPI_NS_OVERRIDE_IF_FOUND = 0"
    "local_flags Flags f l AND ACPI_NS_SEARCH_PARENT \<noteq> 0 \<longleftrightarrow> l \<and> f \<noteq> ACPI_NS_NO_UPSEARCH \<and> Flags AND ACPI_NS_SEARCH_PARENT \<noteq> 0"
    unfolding lf using z
    by (auto simp: and.assoc bit.conj_disj_distrib2 ACPI_NS_ERROR_IF_FOUND_def ACPI_NS_OVERRIDE_IF_FOUND_def ACPI_NS_SEARCH_PARENT_def)
qed

text \<open>What a lookup in execute mode starts from.\<close>

definition lookup_ok :: "'e enter_env \<Rightarrow> lookup \<Rightarrow> ntree list \<Rightarrow> 'e ns \<Rightarrow> bool" where
  "lookup_ok E L ts s \<longleftrightarrow> forest (Nodes s) 0 (en_RootNode E) ts \<and> ts \<noteq> [] \<and> distinct (nodes_of ts) \<and> targets_ok (Nodes s) ts
     \<and> lk_Mode L = ACPI_IMODE_EXECUTE \<and> lk_Flags L AND ACPI_NS_ERROR_IF_FOUND = 0 \<and> lk_Flags L AND ACPI_NS_OVERRIDE_IF_FOUND = 0"

lemma lookup_okD:
  assumes "lookup_ok E L ts s"
  shows "forest (Nodes s) 0 (en_RootNode E) ts" "targets_ok (Nodes s) ts" "lk_Mode L = ACPI_IMODE_EXECUTE"
    "lk_Flags L AND ACPI_NS_ERROR_IF_FOUND = 0" "lk_Flags L AND ACPI_NS_OVERRIDE_IF_FOUND = 0"
  using assms by (simp_all add: lookup_ok_def)

lemma execute_search:
  assumes ok: "lookup_ok E L ts s" and q: "q \<in> set (nodes_of ts)" and N: "N \<noteq> 0"
  shows "AcpiNsSearchAndEnter E N w q ACPI_IMODE_EXECUTE t (local_flags (lk_Flags L) f l) (Some v) s = Some (
    case find_enclosing (Nodes s) (repaired N) ((q, kids_in ts q) #
        (if l \<and> f \<noteq> ACPI_NS_NO_UPSEARCH \<and> lk_Flags L AND ACPI_NS_SEARCH_PARENT \<noteq> 0 \<and> AcpiNsLocal t = 0 then enclosing [] ts q else [])) of
      Some b \<Rightarrow> (AE_OK, b, False, s) | None \<Rightarrow> (AE_NOT_FOUND, 0, False, s))"
proof -
  note d = lookup_okD [OF ok]
  have "q \<noteq> 0 \<and> Nodes s q \<noteq> None" using d(1) q by (rule forest_live)
  then obtain n where n: "q \<noteq> 0" "Nodes s q = Some n" by auto
  have ch: "chain (Nodes s) (nd_Parent n) (enclosing [] ts q)" using chain_enclosing [OF d(1) _ q n(2)] by simp
  note fl = local_flags_bits [OF d(4,5), of f l]
  show ?thesis
    unfolding search_and_enter_cases [OF scope_kids [OF d(1) q] n(2) ch n(1) N fl(2)] found_def may_search_up_def fl(1,3)
    by (auto split: option.split)
qed

definition result_type :: "nheap \<Rightarrow> u32 \<Rightarrow> addr \<Rightarrow> u32" where
  "result_type h t b = (if t = ucast ACPI_TYPE_ANY then case h b of Some n \<Rightarrow> ucast (nd_Type n) | None \<Rightarrow> t else t)"

lemma last_type_live: "h b = Some n \<Longrightarrow> last_type h b c t = Some (result_type h t b)"
  by (simp add: last_type_def result_type_def)

lemma through_alias_follow:
  assumes "targets_ok h ts" "\<And>b. b \<in> set (nodes_of ts) \<Longrightarrow> h b \<noteq> None" "b \<in> set (nodes_of ts)"
  shows "through_alias h b = Some (case follow h b of None \<Rightarrow> Inl AE_NOT_EXIST | Some c \<Rightarrow> Inr c)"
proof -
  obtain n where n: "h b = Some n" using assms(2,3) by blast
  show ?thesis
  proof (cases "nd_Type n = ACPI_TYPE_LOCAL_ALIAS \<and> nd_Object n \<noteq> 0")
    case True
    then have "nd_Object n \<in> set (nodes_of ts)" using assms(1,3) n by (simp add: targets_ok_def)
    then obtain k where "h (nd_Object n) = Some k" using assms(2) by blast
    then show ?thesis using True n by (simp add: through_alias_def follow_def)
  next
    case False
    then show ?thesis using n by (auto simp: through_alias_def follow_def)
  qed
qed

text \<open>The loop over the segments of a path without upward search.\<close>

lemma loop_resolves:
  assumes ok: "lookup_ok E L ts s"
  shows "q \<in> set (nodes_of ts) \<Longrightarrow> names_at m a Ns \<Longrightarrow>
    lookup_loop E L m ACPI_NS_NO_UPSEARCH (length Ns) a q t False s = Some (case resolve (Nodes s) ts Ns q of
      (st, b) \<Rightarrow> if st = AE_OK then Inr (b, if Ns = [] then t else result_type (Nodes s) t b, False, s) else Inl (st, b, False, s))"
proof (induction Ns arbitrary: q a)
  case (Cons N Ns)
  note d = lookup_okD [OF ok]
  have q: "q \<noteq> 0" using forest_live [OF d(1) Cons.prems(1)] by blast
  have N: "name_at m a = N" "N \<noteq> 0" "names_at m (a + 4) Ns" using Cons.prems(2) by simp_all
  have mode: "(if c then ACPI_IMODE_EXECUTE else lk_Mode L) = ACPI_IMODE_EXECUTE" for c using d(3) by simp
  note run = execute_search [OF ok Cons.prems(1) N(2), of "lk_Walk L" _ ACPI_NS_NO_UPSEARCH, simplified]
  show ?case
  proof (cases "find_child (Nodes s) (repaired N) (kids_in ts q)")
    case None
    then show ?thesis using q N run by (simp add: mode Let_def ACPI_FAILURE_def)
  next
    case (Some b)
    have b: "b \<in> set (nodes_of ts)" by (rule find_child_target [OF d(2) kids_nodes Some])
    then obtain n where n: "Nodes s b = Some n" using forest_live [OF d(1)] by blast
    show ?thesis
    proof (cases "Ns = []")
      case True
      then show ?thesis using q N run Some by (simp add: mode Let_def ACPI_FAILURE_def last_type_live [of "Nodes s" b n, OF n])
    next
      case False
      have al: "through_alias (Nodes s) b = Some (case follow (Nodes s) b of None \<Rightarrow> Inl AE_NOT_EXIST | Some c \<Rightarrow> Inr c)"
        by (rule through_alias_follow [OF d(2) _ b]) (use forest_live [OF d(1)] in blast)
      show ?thesis
      proof (cases "follow (Nodes s) b")
        case None
        then show ?thesis using q N run Some False al by (simp add: mode Let_def ACPI_FAILURE_def ACPI_ENTRY_NOT_FOUND_def)
      next
        case (Some c)
        then have "c \<in> set (nodes_of ts)" using follow_tree [OF d(2) b] by blast
        then show ?thesis using q N run \<open>find_child _ _ _ = Some b\<close> False al Some Cons.IH [of c "a + 4"]
          by (cases "resolve (Nodes s) ts Ns c") (simp add: mode Let_def ACPI_FAILURE_def)
      qed
    qed
  qed
qed simp

text \<open>A single segment with upward search.\<close>

lemma single_resolves:
  assumes ok: "lookup_ok E L ts s" and q: "q \<in> set (nodes_of ts)" and N: "names_at m a [N]" and t: "t = lk_Type L"
  shows "lookup_loop E L m ACPI_NS_SEARCH_PARENT 1 a q t False s = Some (
    case find_enclosing (Nodes s) (repaired N) ((q, kids_in ts q) #
        (if lk_Flags L AND ACPI_NS_SEARCH_PARENT \<noteq> 0 \<and> AcpiNsLocal t = 0 then enclosing [] ts q else [])) of
      Some b \<Rightarrow> Inr (b, result_type (Nodes s) t b, False, s) | None \<Rightarrow> Inl (AE_NOT_FOUND, 0, False, s))"
    (is "_ = Some (case find_enclosing _ _ ?ps of Some b \<Rightarrow> _ b | None \<Rightarrow> _)")
proof -
  note d = lookup_okD [OF ok]
  have q0: "q \<noteq> 0" using forest_live [OF d(1) q] by blast
  have N': "name_at m a = N" "N \<noteq> 0" using N by simp_all
  have sp: "ACPI_NS_SEARCH_PARENT \<noteq> ACPI_NS_NO_UPSEARCH" by (simp add: ACPI_NS_SEARCH_PARENT_def ACPI_NS_NO_UPSEARCH_def)
  have run: "AcpiNsSearchAndEnter E N (lk_Walk L) q ACPI_IMODE_EXECUTE t (local_flags (lk_Flags L) ACPI_NS_SEARCH_PARENT True) (Some q) s = Some (
      case find_enclosing (Nodes s) (repaired N) ?ps of Some b \<Rightarrow> (AE_OK, b, False, s) | None \<Rightarrow> (AE_NOT_FOUND, 0, False, s))"
    using execute_search [OF ok q N'(2), of "lk_Walk L" t ACPI_NS_SEARCH_PARENT True q] sp by simp
  show ?thesis
  proof (cases "find_enclosing (Nodes s) (repaired N) ?ps")
    case None
    then show ?thesis using run q0 N' d(3) unfolding One_nat_def lookup_loop.simps Let_def by (simp add: ACPI_FAILURE_def del: find_enclosing.simps)
  next
    case (Some b)
    have "\<forall>x \<in> set ?ps. set (nodes_of (snd x)) \<subseteq> set (nodes_of ts)" using enclosing_nodes [of "[]" ts ts q] kids_nodes [of ts q] by simp
    then have "b \<in> set (nodes_of ts)" using find_enclosing_target [OF d(2)] Some by blast
    then obtain n where "Nodes s b = Some n" using forest_live [OF d(1)] by blast
    then show ?thesis using run Some q0 N' d(3) last_type_live [of "Nodes s" b n] unfolding One_nat_def lookup_loop.simps Let_def
      by (simp add: ACPI_FAILURE_def del: find_enclosing.simps)
  qed
qed

text \<open>The prefixes.\<close>

lemma part_lead: "part_at m a part \<Longrightarrow> m a \<noteq> AML_PARENT_PREFIX \<and> m a \<noteq> AML_ROOT_PREFIX"
  by (cases part) (auto simp: AML_PARENT_PREFIX_def AML_ROOT_PREFIX_def AML_DUAL_NAME_PREFIX_def AML_MULTI_NAME_PREFIX_def AcpiUtValidNameChar_def)

lemma parent_prefixes_up:
  assumes f: "forest h 0 R ts"
  shows "up_at m a k part \<Longrightarrow> q \<in> set (nodes_of ts) \<Longrightarrow>
    parent_prefixes m h a q f = Some (case up h k q of None \<Rightarrow> Inl AE_NOT_FOUND | Some c \<Rightarrow> Inr (a + of_nat k, c, if k = 0 then f else ACPI_NS_NO_UPSEARCH))
    \<and> (\<forall>c. up h k q = Some c \<longrightarrow> c \<in> set (nodes_of ts))"
proof (induction k arbitrary: a q f)
  case 0
  then show ?case using part_lead [of m a part] by (subst parent_prefixes.simps) simp
next
  case (Suc k)
  obtain n where n: "h q = Some n" using forest_live [OF f Suc.prems(2)] by blast
  have p: "m a = AML_PARENT_PREFIX" "up_at m (a + 1) k part" using Suc.prems(1) by simp_all
  show ?case
  proof (cases "nd_Parent n = 0")
    case True
    then show ?thesis using n p(1) by (subst parent_prefixes.simps) simp
  next
    case False
    then have "nd_Parent n \<in> set (nodes_of ts)" using parent_in_tree [OF f Suc.prems(2) n] by simp
    then show ?thesis using False n p Suc.IH [OF p(2), of "nd_Parent n" ACPI_NS_NO_UPSEARCH]
      by (subst parent_prefixes.simps) (cases "up h k (nd_Parent n)"; simp add: add.assoc)
  qed
qed

text \<open>The end of the prefixes, and the part that follows them.\<close>

lemma up_at_part: "up_at m a k part \<Longrightarrow> part_at m (a + of_nat k) part"
proof (induction k arbitrary: a)
  case (Suc k)
  then show ?case using Suc.IH [of "a + 1"] by (simp add: add.assoc)
qed simp

lemma name_prefix_start:
  assumes f: "forest h 0 R ts" "ts \<noteq> []" and P: "P \<in> set (nodes_of ts)" and path: "path_at m a pre part"
  shows "\<exists>b. part_at m b part \<and> name_prefix m h R P a = Some (case (case pre of Root \<Rightarrow> Some R | Up k \<Rightarrow> up h k P) of None \<Rightarrow> Inl AE_NOT_FOUND
      | Some c \<Rightarrow> Inr (b, c, if pre = Up 0 then ACPI_NS_SEARCH_PARENT else ACPI_NS_NO_UPSEARCH))"
    and "(case pre of Root \<Rightarrow> Some R | Up k \<Rightarrow> up h k P) = Some c \<Longrightarrow> c \<in> set (nodes_of ts)"
proof -
  have R: "R \<in> set (nodes_of ts)" using f by (cases ts rule: nodes_of.cases) auto
  have up: "up_at m a k part \<Longrightarrow> m a \<noteq> AML_ROOT_PREFIX" for k
    using part_lead [of m a part] by (cases k) (auto simp: AML_PARENT_PREFIX_def AML_ROOT_PREFIX_def)
  show "\<exists>b. part_at m b part \<and> name_prefix m h R P a = Some (case (case pre of Root \<Rightarrow> Some R | Up k \<Rightarrow> up h k P) of None \<Rightarrow> Inl AE_NOT_FOUND
      | Some c \<Rightarrow> Inr (b, c, if pre = Up 0 then ACPI_NS_SEARCH_PARENT else ACPI_NS_NO_UPSEARCH))"
  proof (cases pre)
    case Root
    then show ?thesis using path by (intro exI [of _ "a + 1"]) (simp add: name_prefix_def)
  next
    case (Up k)
    then have k: "up_at m a k part" using path by simp
    then show ?thesis using Up up parent_prefixes_up [OF f(1) k P, of ACPI_NS_SEARCH_PARENT] up_at_part
      by (intro exI [of _ "a + of_nat k"]) (simp add: name_prefix_def)
  qed
  show "(case pre of Root \<Rightarrow> Some R | Up k \<Rightarrow> up h k P) = Some c \<Longrightarrow> c \<in> set (nodes_of ts)"
    using R path parent_prefixes_up [OF f(1) _ P] by (cases pre) auto
qed

lemma part_segments:
  assumes "part_at m a part" "h c = Some n"
  shows "part = NullName \<Longrightarrow> name_segments m h a c f t = Some (0, a, f, ucast (nd_Type n))"
    and "part = OneName N \<Longrightarrow> name_segments m h a c f t = Some (1, a, f, t) \<and> names_at m a [N]"
    and "part = TwoNames N M \<Longrightarrow> name_segments m h a c f t = Some (2, a + 1, ACPI_NS_NO_UPSEARCH, t) \<and> names_at m (a + 1) [N, M]"
    and "part = MultiName Ns \<Longrightarrow> name_segments m h a c f t = Some (of_nat (length Ns), a + 2, ACPI_NS_NO_UPSEARCH, t) \<and> names_at m (a + 2) Ns \<and> length Ns < 256"
proof -
  have "ucast (of_nat k :: u8) = (of_nat k :: u32)" if "k < 256" for k
    using that by (simp add: unsigned_of_nat take_bit_nat_eq_self)
  then show "part = MultiName Ns \<Longrightarrow> name_segments m h a c f t = Some (of_nat (length Ns), a + 2, ACPI_NS_NO_UPSEARCH, t) \<and> names_at m (a + 2) Ns \<and> length Ns < 256"
    using assms by (auto simp: name_segments_def AML_DUAL_NAME_PREFIX_def AML_MULTI_NAME_PREFIX_def)
qed (use assms in \<open>auto simp: name_segments_def AcpiUtValidNameChar_def AML_DUAL_NAME_PREFIX_def AML_MULTI_NAME_PREFIX_def\<close>)

text \<open>The type by which a scope is opened in the end.\<close>

definition final_type :: "nheap \<Rightarrow> u32 \<Rightarrow> name_part \<Rightarrow> addr \<Rightarrow> u32" where
  "final_type h t part b = (case part of NullName \<Rightarrow> result_type h (ucast ACPI_TYPE_ANY) b | MultiName [] \<Rightarrow> t | _ \<Rightarrow> result_type h t b)"

lemma part_resolves:
  assumes ok: "lookup_ok E L ts s" and c: "c \<in> set (nodes_of ts)" and part: "part_at m a part" and pre: "pre = Up 0 \<Longrightarrow> c = P" "pre \<noteq> Up 0 \<Longrightarrow> (case pre of Root \<Rightarrow> Some R | Up k \<Rightarrow> up (Nodes s) k P) = Some c"
    and f: "f = (if pre = Up 0 then ACPI_NS_SEARCH_PARENT else ACPI_NS_NO_UPSEARCH)"
    and u: "upward \<longleftrightarrow> lk_Flags L AND ACPI_NS_SEARCH_PARENT \<noteq> 0 \<and> AcpiNsLocal (lk_Type L) = 0"
  shows "\<exists>k b f' t. name_segments m (Nodes s) a c f (lk_Type L) = Some (k, b, f', t) \<and>
    lookup_loop E L m f' (unat k) b c t False s = Some (case resolve_path (Nodes s) R ts upward pre part P of
      (st, b) \<Rightarrow> if st = AE_OK then Inr (b, final_type (Nodes s) (lk_Type L) part b, False, s) else Inl (st, b, False, s))"
proof -
  note d = lookup_okD [OF ok]
  obtain n where n: "Nodes s c = Some n" using forest_live [OF d(1) c] by blast
  have start: "(case pre of Root \<Rightarrow> Some R | Up k \<Rightarrow> up (Nodes s) k P) = Some c" using pre by (cases "pre = Up 0") auto
  note seg = part_segments [where h = "Nodes s" and n = n and c = c and f = f and t = "lk_Type L", OF part n] and run = loop_resolves [OF ok c, of m]
  show ?thesis
  proof (cases part)
    case NullName
    then show ?thesis using seg(1) n start by (simp add: resolve_path_def final_type_def result_type_def)
  next
    case (OneName N)
    show ?thesis
    proof (cases "pre = Up 0")
      case True
      then show ?thesis using OneName seg(2) start single_resolves [OF ok c, of m a N "lk_Type L"] u f
        by (auto simp: resolve_path_def final_type_def split: option.split)
    next
      case False
      then show ?thesis using OneName seg(2) start f run [of a "[N]" "lk_Type L"]
        by (cases "resolve (Nodes s) ts [N] c") (simp add: resolve_path_def final_type_def del: resolve.simps lookup_loop.simps)
    qed
  next
    case (TwoNames N M)
    have two: "length [N, M] = 2" by simp
    show ?thesis using TwoNames seg(3) start run [of "a + 1" "[N, M]" "lk_Type L", unfolded two]
      by (cases "resolve (Nodes s) ts [N, M] c") (simp add: resolve_path_def final_type_def del: resolve.simps lookup_loop.simps)
  next
    case (MultiName Ns)
    then have "unat (of_nat (length Ns) :: u32) = length Ns" using seg(4) by (simp add: unat_of_nat)
    then show ?thesis using MultiName seg(4) start run [of "a + 2" Ns "lk_Type L"]
      by (cases "resolve (Nodes s) ts Ns c"; cases Ns) (simp_all add: resolve_path_def final_type_def del: resolve.simps(2) lookup_loop.simps)
  qed
qed

text \<open>The search for the containing scope ends in the tree if the root opens a scope.\<close>

definition opens :: "nheap \<Rightarrow> addr \<Rightarrow> bool" where
  "opens h b = (case h b of None \<Rightarrow> False | Some n \<Rightarrow> AcpiNsOpensScope (ucast (nd_Type n)) \<noteq> 0 \<or> nd_Type n = ACPI_TYPE_ANY)"

lemma containing_scope_step:
  "h b = Some n \<Longrightarrow> containing_scope h b = (if opens h b then Some b else containing_scope h (nd_Parent n))"
  by (subst containing_scope.simps) (simp add: opens_def)

lemma containing_scope_tree:
  "forest h p a ts \<Longrightarrow> (\<forall>b \<in> roots ts. opens h b) \<or> (\<exists>P \<in> S. containing_scope h p = Some P) \<Longrightarrow> q \<in> set (nodes_of ts) \<Longrightarrow>
    \<exists>P \<in> S \<union> set (nodes_of ts). containing_scope h q = Some P"
proof (induction ts arbitrary: p a S rule: nodes_of.induct)
  case (2 b cs ts)
  obtain n where n: "h b = Some n" "nd_Parent n = p" "forest h b (nd_Child n) cs" "forest h p (nd_Peer n) ts"
    using "2.prems"(1) by (rule forest_ConsE) simp
  have b: "\<exists>P \<in> insert b S. containing_scope h b = Some P"
    using "2.prems"(2) containing_scope_step [of h b n, OF n(1)] n(2) by auto
  consider "q = b" | "q \<in> set (nodes_of cs)" | "q \<in> set (nodes_of ts)" using "2.prems"(3) by auto
  then show ?case
  proof cases
    case 1
    then show ?thesis using b by auto
  next
    case 2
    then show ?thesis using "2.IH"(1) [OF n(3), of "insert b S"] b by auto
  next
    case 3
    then show ?thesis using "2.IH"(2) [OF n(4), of S] "2.prems"(2) by auto
  qed
qed simp

lemma prefix_node_tree:
  assumes f: "forest (Nodes s) 0 R ts" "ts \<noteq> []" and R: "\<forall>b \<in> roots ts. opens (Nodes s) b" and S: "ScopeNode = 0 \<or> ScopeNode \<in> set (nodes_of ts)"
  shows "\<exists>P \<in> set (nodes_of ts). prefix_node R ScopeNode Flags s = Some (Inr P)"
proof (cases "ScopeNode = 0")
  case True
  have "R \<in> set (nodes_of ts)" using f by (cases ts rule: nodes_of.cases) auto
  then show ?thesis using True by (simp add: prefix_node_def)
next
  case False
  then have q: "ScopeNode \<in> set (nodes_of ts)" using S by simp
  obtain n where n: "Nodes s ScopeNode = Some n" using forest_live [OF f(1) q] by blast
  obtain P where P: "P \<in> set (nodes_of ts)" "containing_scope (Nodes s) ScopeNode = Some P"
    using containing_scope_tree [OF f(1) _ q, of "{}"] R by auto
  have "ob_DescriptorType (descriptor s ScopeNode) = ACPI_DESC_TYPE_NAMED" using n by (simp add: descriptor_def)
  then show ?thesis using False P q by (auto simp: prefix_node_def)
qed

lemma lookup_rules:
  assumes "lookup_ok E L ts s" "\<forall>b \<in> roots ts. opens (Nodes s) b" "ScopeNode = 0 \<or> ScopeNode \<in> set (nodes_of ts)"
    and "Pathname \<noteq> 0" "path_at m Pathname pre part"
  shows "\<exists>P \<in> set (nodes_of ts). prefix_node (en_RootNode E) ScopeNode (lk_Flags L) s = Some (Inr P) \<and>
    AcpiNsLookup E push m ScopeNode Pathname L True s = Some (
      case resolve_path (Nodes s) (en_RootNode E) ts (lk_Flags L AND ACPI_NS_SEARCH_PARENT \<noteq> 0 \<and> AcpiNsLocal (lk_Type L) = 0) pre part P of
        (st, b) \<Rightarrow> if st = AE_OK then open_scope push L (b, final_type (Nodes s) (lk_Type L) part b, False, s) else (st, b, False, s))"
proof -
  let ?up = "lk_Flags L AND ACPI_NS_SEARCH_PARENT \<noteq> 0 \<and> AcpiNsLocal (lk_Type L) = 0" and ?R = "en_RootNode E"
  have f: "forest (Nodes s) 0 ?R ts" "ts \<noteq> []" using assms(1) by (auto simp: lookup_ok_def)
  have R: "?R \<noteq> 0" using f by (cases ts rule: nodes_of.cases) auto
  obtain P where P: "P \<in> set (nodes_of ts)" "prefix_node ?R ScopeNode (lk_Flags L) s = Some (Inr P)"
    using prefix_node_tree [OF f assms(2,3)] by blast
  let ?start = "case pre of Root \<Rightarrow> Some ?R | Up k \<Rightarrow> up (Nodes s) k P" and ?f = "if pre = Up 0 then ACPI_NS_SEARCH_PARENT else ACPI_NS_NO_UPSEARCH"
  obtain b where b: "part_at m b part" "name_prefix m (Nodes s) ?R P Pathname = Some (case ?start of None \<Rightarrow> Inl AE_NOT_FOUND | Some c \<Rightarrow> Inr (b, c, ?f))"
    using name_prefix_start(1) [OF f P(1) assms(5)] by blast
  show ?thesis
  proof (cases ?start)
    case None
    then show ?thesis using P R assms(4) b(2)
      by (intro bexI [of _ P]) (simp_all add: AcpiNsLookup_def resolve_path_def ACPI_ENTRY_NOT_FOUND_def)
  next
    case (Some c)
    have c: "c \<in> set (nodes_of ts)" by (rule name_prefix_start(2) [OF f P(1) assms(5) Some])
    have "pre = Up 0 \<Longrightarrow> c = P" using Some by simp
    then obtain k a f' t where r: "name_segments m (Nodes s) b c ?f (lk_Type L) = Some (k, a, f', t)"
        "lookup_loop E L m f' (unat k) a c t False s = Some (case resolve_path (Nodes s) ?R ts ?up pre part P of
          (st, b) \<Rightarrow> if st = AE_OK then Inr (b, final_type (Nodes s) (lk_Type L) part b, False, s) else Inl (st, b, False, s))"
      using part_resolves [OF assms(1) c b(1) _ Some refl refl] by blast
    show ?thesis using P R assms(4) b(2) Some r
      by (intro bexI [of _ P]; cases "resolve_path (Nodes s) ?R ts ?up pre part P") (simp_all add: AcpiNsLookup_def)
  qed
qed

text \<open>
  C7. \<open>AcpiNsLookup\<close> in execute mode implements the name search rules of ACPI, for every AML name: it starts at the root, or the given number of
  levels above the containing scope of the caller; a single name without a prefix is searched in the enclosing scopes if the caller
  and the type allow it, every other one is followed segment by segment through aliases. It returns the node or the error,
  changes nothing in the namespace, and opens a scope by the type that was asked for or found.
\<close>

theorem lookup_follows_search_rules:
  assumes "lookup_ok E L ts s" "\<forall>b \<in> roots ts. opens (Nodes s) b" "ScopeNode = 0 \<or> ScopeNode \<in> set (nodes_of ts)"
    and "Pathname \<noteq> 0" "path_at m Pathname pre part"
  shows "\<exists>P \<in> set (nodes_of ts). prefix_node (en_RootNode E) ScopeNode (lk_Flags L) s = Some (Inr P) \<and>
    AcpiNsLookup E push m ScopeNode Pathname L True s = Some (
      case resolve_path (Nodes s) (en_RootNode E) ts (lk_Flags L AND ACPI_NS_SEARCH_PARENT \<noteq> 0 \<and> AcpiNsLocal (lk_Type L) = 0) pre part P of
        (st, b) \<Rightarrow> if st = AE_OK then open_scope push L (b, final_type (Nodes s) (lk_Type L) part b, False, s) else (st, b, False, s))"
  by (rule lookup_rules [OF assms])

section \<open>Overriding a node\<close>

text \<open>
  If overriding at run time is off, a lookup that is to override a node that exists does not return: \<open>AcpiNsSearchAndEnter\<close> removes the node and returns \<open>AE_OK\<close>
  with a null pointer, whose type \<open>AcpiNsLookup\<close> then reads.
\<close>

theorem override_reads_null:
  assumes "services_ok (en_services E) good" "good s" "en_Override E = False" "Nodes s 0 = None"
    and "q \<noteq> 0" "scope (Nodes s) q (vs @ NT b xs # us)" "distinct (q # nodes_of (vs @ NT b xs # us))" "en_RootNode E \<notin> set (nodes_of (vs @ NT b xs # us))"
    and "name_at m a = N" "N \<noteq> 0" "find_child (Nodes s) (repaired N) (vs @ NT b xs # us) = Some b" "lk_Flags L AND ACPI_NS_OVERRIDE_IF_FOUND \<noteq> 0"
    and "lk_Type L = ucast ACPI_TYPE_ANY \<or> lk_Type L \<notin> {ucast ACPI_TYPE_LOCAL_ALIAS, ucast ACPI_TYPE_LOCAL_METHOD_ALIAS, ucast ACPI_TYPE_LOCAL_SCOPE}"
  shows "\<exists>s'. AcpiNsSearchAndEnter E N (lk_Walk L) q (lk_Mode L) (lk_Type L) (local_flags (lk_Flags L) f True) (Some q) s = Some (AE_OK, 0, False, s')
      \<and> scope (Nodes s') q (vs @ us) \<and> lookup_loop E L m f 1 a q (lk_Type L) False s = None"
proof -
  let ?cs = "vs @ NT b xs # us" and ?R = "en_RootNode E"
  obtain pn where pn: "Nodes s q = Some pn" "forest (Nodes s) q (nd_Child pn) ?cs" using assms(6) by (rule scopeE)
  obtain n where n: "Nodes s b = Some n" "b \<noteq> 0" "forest (Nodes s) b (nd_Child n) xs" using forest_mid [OF pn(2)] by blast
  have d: "distinct (nodes_of xs)" "b \<notin> set (nodes_of xs)" "?R \<notin> set (nodes_of xs)" "b \<noteq> ?R" using assms(7,8) by auto
  obtain s1 k where s1: "(if b \<noteq> 0 then case AcpiNsDeleteChildren (en_services E) ?R b s of None \<Rightarrow> None | Some s \<Rightarrow> AcpiNsRemoveNode (en_services E) ?R b s else Some s) = Some s1"
      "at_list good ?R s1 q (settle (vs @ [NT b xs]) b @ us)" "effect (Nodes s) (insert q (set (nodes_of ((vs @ [NT b xs]) @ us)))) (waiting (vs @ [NT b xs]) b) (Nodes s1)"
    using settle_step [OF assms(1), of ?R s q "vs @ [NT b xs]" us b b pn] assms(2,5-8) pn(1) n(2) by (auto simp: at_list_def at_child_def)
  have sc: "scope (Nodes s1) q (vs @ us)" and none: "Nodes s1 0 = None"
    using s1(2,3) n(2) assms(4) by (auto simp: at_list_def settle_def effect_def)
  have fl: "local_flags (lk_Flags L) f True AND ACPI_NS_OVERRIDE_IF_FOUND \<noteq> 0"
    using assms(12) by (simp add: local_flags_def Let_def bit.conj_disj_distrib2 ACPI_NS_OVERRIDE_IF_FOUND_def)
  have ov: "override_node E (lk_Walk L) b s = Some (0, s1)"
    using s1(1) n(2) assms(3) by (auto simp: override_node_def ACPI_ENTRY_NOT_FOUND_def split: option.splits)
  have run: "AcpiNsSearchAndEnter E N w q mode t (local_flags (lk_Flags L) f True) (Some q) s = Some (AE_OK, 0, False, s1)" if "w = lk_Walk L" for w mode t
    using that assms(5,10,11) fl ov search_one_scope [OF assms(6), of "repaired N" 0]
    by (simp add: AcpiNsSearchAndEnter_def Let_def ACPI_ENTRY_NOT_FOUND_def)
  have "last_type (Nodes s1) 0 (lk_Type L) (lk_Type L) = None" using none assms(13) by (auto simp: last_type_def)
  then have "lookup_loop E L m f 1 a q (lk_Type L) False s = None" using run [OF refl] assms(5,9) by (simp add: Let_def ACPI_FAILURE_def)
  then show ?thesis using run [OF refl] sc by blast
qed

section \<open>Examples\<close>

text \<open>The path \<open>\AAAA.BBBB\<close>, and a tree that has it.\<close>

definition sample_memory :: mem where
  "sample_memory a = (if a = 0x100 then AML_ROOT_PREFIX else if a = 0x101 then AML_DUAL_NAME_PREFIX else if a < 0x106 then 0x41 else 0x42)"

definition sample_named :: nheap where
  "sample_named = [1 \<mapsto> sample_node 0 2 0 0x5F5F5F5C, 2 \<mapsto> sample_node 1 3 4 0x41414141, 3 \<mapsto> sample_node 2 0 0 0x42424242, 4 \<mapsto> sample_node 1 0 0 0x43434343]"

definition sample_lookup :: "u32 \<Rightarrow> lookup" where
  "sample_lookup Flags = \<lparr>lk_Type = 0, lk_Mode = ACPI_IMODE_EXECUTE, lk_Flags = Flags, lk_Walk = None\<rparr>"

lemma sample_named_tree: "forest sample_named 0 1 [NT 1 sample_trees]" "scope sample_named 2 [NT 3 []]"
  by (simp_all add: sample_named_def sample_node_def sample_trees_def scope_def)

lemma sample_names: "repaired 0x41414141 = 0x41414141" "repaired 0x42424242 = 0x42424242"
  by (rule repair_name(2), simp add: AcpiUtValidNameseg_def name_bytes_def AcpiUtValidNameChar_def)+

lemma sample_name_at: "name_at sample_memory 0x102 = 0x41414141" "name_at sample_memory 0x106 = 0x42424242"
  by (simp_all add: name_at_def sample_memory_def bytes_name_def)

lemma sample_lookup_ok: "lookup_ok sample_env (sample_lookup 0) [NT 1 sample_trees] (sample_state sample_named)"
proof -
  have "targets_ok sample_named [NT 1 sample_trees]"
    by (auto simp: targets_ok_def sample_named_def sample_node_def ACPI_TYPE_LOCAL_METHOD_ALIAS_def ACPI_TYPE_LOCAL_ALIAS_def split: if_splits)
  then show ?thesis using sample_named_tree(1)
    by (simp add: lookup_ok_def sample_env_def sample_lookup_def sample_state_def sample_trees_def)
qed

theorem lookup_follows_search_rules_witness:
  "AcpiNsLookup sample_env (\<lambda>b t s. (AE_OK, s)) sample_memory 0 0x100 (sample_lookup 0) True (sample_state sample_named) = Some (AE_OK, 3, False, sample_state sample_named)"
proof -
  have path: "path_at sample_memory 0x100 Root (TwoNames 0x41414141 0x42424242)"
    using sample_name_at by (simp add: sample_memory_def)
  have "opens (Nodes (sample_state sample_named)) 1"
    by (simp add: opens_def sample_state_def sample_named_def sample_node_def AcpiNsOpensScope_def ACPI_TYPE_LOCAL_MAX_def AcpiGbl_NsProperties_def
        ACPI_NS_NEWSCOPE_def)
  then obtain P where "AcpiNsLookup sample_env (\<lambda>b t s. (AE_OK, s)) sample_memory 0 0x100 (sample_lookup 0) True (sample_state sample_named) = Some (
      case resolve_path (Nodes (sample_state sample_named)) (en_RootNode sample_env) [NT 1 sample_trees]
          (lk_Flags (sample_lookup 0) AND ACPI_NS_SEARCH_PARENT \<noteq> 0 \<and> AcpiNsLocal (lk_Type (sample_lookup 0)) = 0) Root (TwoNames 0x41414141 0x42424242) P of
        (st, b) \<Rightarrow> if st = AE_OK then open_scope (\<lambda>b t s. (AE_OK, s)) (sample_lookup 0) (b, final_type (Nodes (sample_state sample_named)) (lk_Type (sample_lookup 0))
              (TwoNames 0x41414141 0x42424242) b, False, sample_state sample_named) else (st, b, False, sample_state sample_named))"
    using lookup_follows_search_rules [OF sample_lookup_ok _ _ _ path, of 0 "\<lambda>b t s. (AE_OK, s)"] by auto
  moreover have "resolve (Nodes (sample_state sample_named)) [NT 1 sample_trees] [0x41414141, 0x42424242] 1 = (AE_OK, 3)"
    by (simp add: sample_names find_child_def name_of_def target_of_def follow_def sample_state_def sample_named_def sample_node_def sample_trees_def
        ACPI_TYPE_LOCAL_METHOD_ALIAS_def ACPI_TYPE_LOCAL_ALIAS_def)
  ultimately show ?thesis by (simp add: resolve_path_def sample_env_def open_scope_def sample_lookup_def del: resolve.simps)
qed

theorem override_reads_null_witness:
  "lookup_loop sample_env (sample_lookup 0x80) sample_memory 0 1 0x106 2 0 False (sample_state sample_named) = None"
proof -
  have "typed sample_named" by (auto simp: typed_def sample_named_def sample_node_def ACPI_TYPE_LOCAL_DATA_def split: if_splits)
  then have "data_lists (sample_state sample_named)" by (rule sample_data_lists)
  moreover have "find_child sample_named (repaired 0x42424242) [NT 3 []] = Some 3"
    by (simp add: sample_names find_child_def name_of_def target_of_def sample_named_def sample_node_def ACPI_TYPE_LOCAL_METHOD_ALIAS_def)
  ultimately have "\<exists>s'. AcpiNsSearchAndEnter sample_env 0x42424242 (lk_Walk (sample_lookup 0x80)) 2 (lk_Mode (sample_lookup 0x80)) (lk_Type (sample_lookup 0x80))
        (local_flags (lk_Flags (sample_lookup 0x80)) 0 True) (Some 2) (sample_state sample_named) = Some (AE_OK, 0, False, s')
      \<and> scope (Nodes s') 2 ([] @ []) \<and> lookup_loop sample_env (sample_lookup 0x80) sample_memory 0 1 0x106 2 (lk_Type (sample_lookup 0x80)) False (sample_state sample_named) = None"
    using sample_services_ok sample_named_tree(2) sample_name_at(2)
    by (intro override_reads_null [where good = data_lists and b = 3 and xs = "[]"])
      (simp_all add: sample_env_def sample_lookup_def sample_state_def sample_named_def ACPI_NS_OVERRIDE_IF_FOUND_def ACPI_TYPE_ANY_def del: lookup_loop.simps)
  then show ?thesis by (auto simp: sample_lookup_def simp del: lookup_loop.simps)
qed

end
