(* ===== verification/NsNames.thy ===== *)
theory NsNames
  imports NsLookup Ctype
begin

text \<open>
  Names in their external form, a string such as \<open>\_SB.PCI0\<close>, and their internal form, the AML name: \<^verbatim>\<open>components/namespace/nsutils.c\<close>. The
  theorems show that the conversion gives the AML name that the lookup expects, that it stays in its
  buffer, that the conversion back gives the string in its full form, and what \<open>AcpiNsGetNode\<close> finds.
\<close>

section \<open>The internal name\<close>

definition ACPI_IS_ROOT_PREFIX :: "u8 \<Rightarrow> bool" where "ACPI_IS_ROOT_PREFIX c \<longleftrightarrow> c = 0x5C"
definition ACPI_IS_PARENT_PREFIX :: "u8 \<Rightarrow> bool" where "ACPI_IS_PARENT_PREFIX c \<longleftrightarrow> c = 0x5E"
definition ACPI_IS_PATH_SEPARATOR :: "u8 \<Rightarrow> bool" where "ACPI_IS_PATH_SEPARATOR c \<longleftrightarrow> c = 0x2E"
definition ACPI_NAMESEG_SIZE :: u32 where "ACPI_NAMESEG_SIZE = 4"

record namestring_info =
  ni_ExternalName :: addr
  ni_NextExternalChar :: addr
  ni_InternalName :: addr
  ni_Length :: u32
  ni_NumSegments :: u32
  ni_NumCarats :: u32
  ni_FullyQualified :: bool

partial_function (option) skip_roots :: "mem \<Rightarrow> addr \<Rightarrow> addr option" where
  "skip_roots m a = (if ACPI_IS_ROOT_PREFIX (m a) then skip_roots m (a + 1) else Some a)"

partial_function (option) count_carats :: "mem \<Rightarrow> addr \<Rightarrow> u32 \<Rightarrow> (addr \<times> u32) option" where
  "count_carats m a NumCarats = (if ACPI_IS_PARENT_PREFIX (m a) then count_carats m (a + 1) (NumCarats + 1) else Some (a, NumCarats))"

partial_function (option) count_segments :: "mem \<Rightarrow> addr \<Rightarrow> u32 \<Rightarrow> u32 \<Rightarrow> u32 option" where
  "count_segments m NextExternalChar i NumSegments =
     (if m (NextExternalChar + ucast i) \<noteq> 0
      then count_segments m NextExternalChar (i + 1)
             (if ACPI_IS_PATH_SEPARATOR (m (NextExternalChar + ucast i)) then NumSegments + 1 else NumSegments)
      else Some NumSegments)"

definition AcpiNsGetInternalNameLength :: "mem \<Rightarrow> namestring_info \<Rightarrow> namestring_info option" where
  "AcpiNsGetInternalNameLength m Info =
     (let root = ACPI_IS_ROOT_PREFIX (m (ni_ExternalName Info))
      in case (if root then map_option (\<lambda>a. (a, 0)) (skip_roots m (ni_ExternalName Info + 1)) else count_carats m (ni_ExternalName Info) 0) of
           None \<Rightarrow> None
         | Some (NextExternalChar, NumCarats) \<Rightarrow>
             (case (if m NextExternalChar \<noteq> 0 then count_segments m NextExternalChar 0 1 else Some 0) of
                None \<Rightarrow> None
              | Some NumSegments \<Rightarrow>
                  Some (Info\<lparr>ni_NumCarats := NumCarats, ni_NumSegments := NumSegments, ni_FullyQualified := root,
                    ni_Length := ACPI_NAMESEG_SIZE * NumSegments + 4 + NumCarats, ni_NextExternalChar := NextExternalChar\<rparr>)))"

text \<open>The prefixes; the result is the address for the segments.\<close>

fun put_carats :: "nat \<Rightarrow> mem \<Rightarrow> addr \<Rightarrow> mem" where
  "put_carats 0 m a = m"
| "put_carats (Suc k) m a = put_carats k (m(a := AML_PARENT_PREFIX)) (a + 1)"

definition put_count :: "u32 \<Rightarrow> addr \<Rightarrow> mem \<Rightarrow> mem \<times> addr" where
  "put_count NumSegments a m =
     (if NumSegments \<le> 1 then (m, a)
      else if NumSegments = 2 then (m(a := AML_DUAL_NAME_PREFIX), a + 1)
      else (m(a := AML_MULTI_NAME_PREFIX, a + 1 := ucast NumSegments), a + 2))"

text \<open>One segment, of four characters, and the loop over the segments.\<close>

definition upper_char :: "u8 \<Rightarrow> u8" where "upper_char c = word_of_int (toupper (sint c))"

fun build_chars :: "nat \<Rightarrow> mem \<Rightarrow> addr \<Rightarrow> addr \<Rightarrow> mem \<times> addr" where
  "build_chars 0 m ExternalName Result = (m, ExternalName)"
| "build_chars (Suc k) m ExternalName Result =
     (if ACPI_IS_PATH_SEPARATOR (m ExternalName) \<or> m ExternalName = 0 then build_chars k (m(Result := 0x5F)) ExternalName (Result + 1)
      else build_chars k (m(Result := upper_char (m ExternalName))) (ExternalName + 1) (Result + 1))"

fun build_segments :: "nat \<Rightarrow> mem \<Rightarrow> addr \<Rightarrow> addr \<Rightarrow> acpi_status \<times> mem" where
  "build_segments 0 m ExternalName Result = (AE_OK, m(Result := 0))"
| "build_segments (Suc NumSegments) m ExternalName Result =
     (case build_chars 4 m ExternalName Result of
        (m, ExternalName) \<Rightarrow>
          if \<not> ACPI_IS_PATH_SEPARATOR (m ExternalName) \<and> m ExternalName \<noteq> 0 then (AE_BAD_PATHNAME, m)
          else build_segments NumSegments m (ExternalName + 1) (Result + 4))"

definition AcpiNsBuildInternalName :: "namestring_info \<Rightarrow> mem \<Rightarrow> acpi_status \<times> mem" where
  "AcpiNsBuildInternalName Info m =
     (let m = (if ni_FullyQualified Info then m(ni_InternalName Info := AML_ROOT_PREFIX)
               else put_carats (unat (ni_NumCarats Info)) m (ni_InternalName Info));
          a = (if ni_FullyQualified Info then ni_InternalName Info + 1 else ni_InternalName Info + ucast (ni_NumCarats Info))
      in case put_count (ni_NumSegments Info) a m of
           (m, Result) \<Rightarrow> build_segments (unat (ni_NumSegments Info)) m (ni_NextExternalChar Info) Result)"

text \<open>
  \<open>alloc\<close> is \<open>ACPI_ALLOCATE_ZEROED\<close>: the address of a cleared block of the given length, or null. The result has the status and the
  value of \<open>*ConvertedName\<close>, if it is set; \<open>ConvertedName\<close> says if the pointer is not null.
\<close>

type_synonym allocator = "u32 \<Rightarrow> mem \<Rightarrow> addr \<times> mem"

definition AcpiNsInternalizeName :: "allocator \<Rightarrow> addr \<Rightarrow> bool \<Rightarrow> mem \<Rightarrow> (acpi_status \<times> addr option \<times> mem) option" where
  "AcpiNsInternalizeName alloc ExternalName ConvertedName m =
     (if ExternalName = 0 \<or> m ExternalName = 0 \<or> \<not> ConvertedName then Some (AE_BAD_PARAMETER, None, m)
      else case AcpiNsGetInternalNameLength m \<lparr>ni_ExternalName = ExternalName, ni_NextExternalChar = 0, ni_InternalName = 0, ni_Length = 0,
                  ni_NumSegments = 0, ni_NumCarats = 0, ni_FullyQualified = False\<rparr> of
             None \<Rightarrow> None
           | Some Info \<Rightarrow>
               (case alloc (ni_Length Info) m of
                  (InternalName, m) \<Rightarrow>
                    if InternalName = 0 then Some (AE_NO_MEMORY, None, m)
                    else (case AcpiNsBuildInternalName (Info\<lparr>ni_InternalName := InternalName\<rparr>) m of
                            (Status, m) \<Rightarrow> if ACPI_FAILURE Status then Some (Status, None, m) else Some (AE_OK, Some InternalName, m))))"

section \<open>The external name\<close>

text \<open>The number of parent prefixes within the length.\<close>

fun parent_length :: "nat \<Rightarrow> mem \<Rightarrow> addr \<Rightarrow> u32 \<Rightarrow> u32" where
  "parent_length 0 m a i = i"
| "parent_length (Suc k) m a i = (if ACPI_IS_PARENT_PREFIX (m a) then parent_length k m (a + 1) (i + 1) else i)"

definition prefix_length :: "mem \<Rightarrow> u32 \<Rightarrow> addr \<Rightarrow> u32" where
  "prefix_length m InternalNameLength InternalName =
     (if m InternalName = AML_ROOT_PREFIX then 1
      else if m InternalName = AML_PARENT_PREFIX then parent_length (unat InternalNameLength) m InternalName 0
      else 0)"

definition segment_count :: "mem \<Rightarrow> u32 \<Rightarrow> addr \<Rightarrow> u32 \<Rightarrow> u32 \<times> u32" where
  "segment_count m InternalNameLength InternalName PrefixLength =
     (if PrefixLength < InternalNameLength
      then let c = m (InternalName + ucast PrefixLength)
           in if c = AML_MULTI_NAME_PREFIX then (PrefixLength + 2, ucast (m (InternalName + ucast PrefixLength + 1)))
              else if c = AML_DUAL_NAME_PREFIX then (PrefixLength + 1, 2)
              else if c = 0 then (0, 0)
              else (PrefixLength, 1)
      else (0, 0))"

fun copy_prefix :: "nat \<Rightarrow> mem \<Rightarrow> addr \<Rightarrow> addr \<Rightarrow> mem" where
  "copy_prefix 0 m dst src = m"
| "copy_prefix (Suc k) m dst src = copy_prefix k (m(dst := m src)) (dst + 1) (src + 1)"

text \<open>\<open>ACPI_COPY_NAMESEG\<close> and the repair, in memory.\<close>

definition repaired_at :: "mem \<Rightarrow> addr \<Rightarrow> u8 list" where
  "repaired_at m src = AcpiUtRepairName [m src, m (src + 1), m (src + 2), m (src + 3)]"

definition put_name :: "mem \<Rightarrow> addr \<Rightarrow> u8 list \<Rightarrow> mem" where
  "put_name m a bs = m(a := bs ! 0, a + 1 := bs ! 1, a + 2 := bs ! 2, a + 3 := bs ! 3)"

fun copy_segments :: "nat \<Rightarrow> bool \<Rightarrow> mem \<Rightarrow> addr \<Rightarrow> addr \<Rightarrow> mem" where
  "copy_segments 0 initial m dst src = m"
| "copy_segments (Suc k) initial m dst src =
     (let m = (if initial then m else m(dst := 0x2E));
          dst = (if initial then dst else dst + 1)
      in copy_segments k False (put_name m dst (repaired_at m src)) (dst + 4) (src + 4))"

text \<open>The result has the status and, if they are set, the address and the length of the converted name.\<close>

definition AcpiNsExternalizeName :: "allocator \<Rightarrow> u32 \<Rightarrow> addr \<Rightarrow> bool \<Rightarrow> mem \<Rightarrow> acpi_status \<times> (addr \<times> u32) option \<times> mem" where
  "AcpiNsExternalizeName alloc InternalNameLength InternalName ConvertedName m =
     (if InternalNameLength = 0 \<or> InternalName = 0 \<or> \<not> ConvertedName then (AE_BAD_PARAMETER, None, m)
      else let PrefixLength = prefix_length m InternalNameLength InternalName
           in case segment_count m InternalNameLength InternalName PrefixLength of
                (NamesIndex, NumSegments) \<Rightarrow>
                  let RequiredLength = PrefixLength + 4 * NumSegments + (if NumSegments > 0 then NumSegments - 1 else 0) + 1
                  in if RequiredLength > InternalNameLength then (AE_BAD_PATHNAME, None, m)
                     else (case alloc RequiredLength m of
                             (Name, m) \<Rightarrow>
                               if Name = 0 then (AE_NO_MEMORY, None, m)
                               else (AE_OK, Some (Name, RequiredLength),
                                 copy_segments (unat NumSegments) True (copy_prefix (unat PrefixLength) m Name InternalName)
                                   (Name + ucast PrefixLength) (InternalName + ucast NamesIndex))))"

section \<open>Finding a node by its external name\<close>

definition AcpiNsGetNodeUnlocked :: "'e enter_env \<Rightarrow> (addr \<Rightarrow> u32 \<Rightarrow> 'e ns \<Rightarrow> acpi_status \<times> 'e ns) \<Rightarrow> allocator \<Rightarrow> mem \<Rightarrow> addr \<Rightarrow> addr \<Rightarrow> u32 \<Rightarrow> addr \<Rightarrow> 'e ns \<Rightarrow>
    (acpi_status \<times> addr \<times> 'e ns) option" where
  "AcpiNsGetNodeUnlocked E push alloc m PrefixNode Pathname Flags ReturnNode s =
     (if Pathname = 0 then Some (AE_OK, if PrefixNode = 0 then en_RootNode E else PrefixNode, s)
      else if ACPI_IS_ROOT_PREFIX (m Pathname) \<and> m (Pathname + 1) = 0 then Some (AE_OK, en_RootNode E, s)
      else case AcpiNsInternalizeName alloc Pathname True m of
             None \<Rightarrow> None
           | Some (Status, InternalPath, m) \<Rightarrow>
               if ACPI_FAILURE Status then Some (Status, ReturnNode, s)
               else (case InternalPath of
                       None \<Rightarrow> None
                     | Some InternalPath \<Rightarrow>
                         (case AcpiNsLookup E push m PrefixNode InternalPath
                                 \<lparr>lk_Type = ucast ACPI_TYPE_ANY, lk_Mode = ACPI_IMODE_EXECUTE, lk_Flags = Flags OR ACPI_NS_DONT_OPEN_SCOPE, lk_Walk = None\<rparr> True s of
                            None \<Rightarrow> None
                          | Some (Status, ReturnNode, _, s) \<Rightarrow> Some (Status, ReturnNode, s))))"

definition AcpiNsGetNode :: "'e enter_env \<Rightarrow> (addr \<Rightarrow> u32 \<Rightarrow> 'e ns \<Rightarrow> acpi_status \<times> 'e ns) \<Rightarrow> allocator \<Rightarrow> mem \<Rightarrow> addr \<Rightarrow> addr \<Rightarrow> u32 \<Rightarrow> addr \<Rightarrow> 'e ns \<Rightarrow>
    (acpi_status \<times> addr \<times> 'e ns) option" where
  "AcpiNsGetNode E push alloc m PrefixNode Pathname Flags ReturnNode s =
     (case sv_acquire (en_services E) s of
        (Status, s) \<Rightarrow>
          if ACPI_FAILURE Status then Some (Status, ReturnNode, s)
          else (case AcpiNsGetNodeUnlocked E push alloc m PrefixNode Pathname Flags ReturnNode s of
                  None \<Rightarrow> None
                | Some (Status, ReturnNode, s) \<Rightarrow> Some (Status, ReturnNode, snd (sv_release (en_services E) s))))"

section \<open>Bytes in memory\<close>

fun bytes_at :: "mem \<Rightarrow> addr \<Rightarrow> u8 list \<Rightarrow> bool" where
  "bytes_at m a [] = True"
| "bytes_at m a (b # bs) = (m a = b \<and> bytes_at m (a + 1) bs)"

fun store :: "mem \<Rightarrow> addr \<Rightarrow> u8 list \<Rightarrow> mem" where
  "store m a [] = m"
| "store m a (b # bs) = store (m(a := b)) (a + 1) bs"

definition span :: "addr \<Rightarrow> nat \<Rightarrow> addr set" where "span a n = {a + of_nat i | i. i < n}"

lemma span_simps [simp]: "span a 0 = {}" "span a (Suc n) = insert a (span (a + 1) n)"
proof -
  show "span a 0 = {}" by (simp add: span_def)
  have "x \<in> span a (Suc n) \<longleftrightarrow> x = a \<or> x \<in> span (a + 1) n" for x
  proof
    assume "x \<in> span a (Suc n)"
    then obtain i where "x = a + of_nat i" "i < Suc n" by (auto simp: span_def)
    then show "x = a \<or> x \<in> span (a + 1) n" by (cases i) (auto simp: span_def add.assoc)
  next
    assume "x = a \<or> x \<in> span (a + 1) n"
    then show "x \<in> span a (Suc n)"
    proof
      assume "x \<in> span (a + 1) n"
      then obtain i where "x = a + 1 + of_nat i" "i < n" by (auto simp: span_def)
      then show ?thesis unfolding span_def by (intro CollectI exI [of _ "Suc i"]) (simp add: add.assoc)
    qed (auto simp: span_def intro: exI [of _ 0])
  qed
  then show "span a (Suc n) = insert a (span (a + 1) n)" by auto
qed

lemma span_add: "span a (n + k) = span a n \<union> span (a + of_nat n) k"
  by (induction n arbitrary: a) (auto simp: add.assoc)

lemma span_snoc: "span a (Suc n) = span a n \<union> {a + of_nat n}"
  using span_add [of a n 1] by simp

lemma span_range:
  assumes "x \<in> span a n" "unat a + n < 2 ^ 64"
  shows "unat a \<le> unat x \<and> unat x < unat a + n"
proof -
  obtain i where i: "x = a + of_nat i" "i < n" using assms(1) by (auto simp: span_def)
  have "unat (of_nat i :: addr) = i" using i(2) assms(2) by (simp add: unsigned_of_nat take_bit_nat_eq_self)
  then show ?thesis using unat_add_nowrap [of a "of_nat i"] i assms(2) by simp
qed

lemma bytes_at_append: "bytes_at m a (xs @ ys) \<longleftrightarrow> bytes_at m a xs \<and> bytes_at m (a + of_nat (length xs)) ys"
  by (induction xs arbitrary: a) (auto simp: add.assoc)

lemma store_append: "store m a (xs @ ys) = store (store m a xs) (a + of_nat (length xs)) ys"
  by (induction xs arbitrary: a m) (auto simp: add.assoc)

lemma store_other: "x \<notin> span a (length bs) \<Longrightarrow> store m a bs x = m x"
  by (induction bs arbitrary: a m) auto

lemma bytes_at_cong: "(\<And>x. x \<in> span a (length bs) \<Longrightarrow> m' x = m x) \<Longrightarrow> bytes_at m' a bs = bytes_at m a bs"
  by (induction bs arbitrary: a) auto

lemma bytes_at_store_other: "span a (length bs) \<inter> span b (length cs) = {} \<Longrightarrow> bytes_at (store m b cs) a bs = bytes_at m a bs"
  by (rule bytes_at_cong) (use store_other in blast)

lemma not_in_span_next: "n < 2 ^ 64 \<Longrightarrow> a \<notin> span (a + 1) n"
proof
  assume n: "n < 2 ^ 64" and "a \<in> span (a + 1) n"
  then obtain i where i: "a = a + 1 + of_nat i" "i < n" by (auto simp: span_def)
  then have "(of_nat (Suc i) :: addr) = 0" by (simp add: add.assoc)
  moreover have "unat (of_nat (Suc i) :: addr) = Suc i"
    unfolding unsigned_of_nat by (rule trans [OF of_nat_id take_bit_nat_eq_self]) (use i(2) n in simp)
  ultimately show False by (simp only: unat_0)
qed

lemma bytes_at_store: "length bs \<le> 2 ^ 64 \<Longrightarrow> bytes_at (store m a bs) a bs"
proof (induction bs arbitrary: a m)
  case (Cons b bs)
  then have "a \<notin> span (a + 1) (length bs)" by (intro not_in_span_next) simp
  then show ?case using Cons.IH [of "m(a := b)" "a + 1"] Cons.prems store_other [of a "a + 1" bs "m(a := b)"]
    by (simp del: fun_upd_apply add: fun_upd_same)
qed simp

section \<open>The conversion of a name\<close>

text \<open>A string of segments, and a segment in its full form.\<close>

fun join :: "u8 list list \<Rightarrow> u8 list" where
  "join [] = []"
| "join [c] = c"
| "join (c # cs) = c @ 0x2E # join cs"

lemma join_Cons: "join (c # cs) = c @ (if cs = [] then [] else 0x2E # join cs)"
  by (cases cs) auto

definition plain :: "u8 list \<Rightarrow> bool" where "plain cs \<longleftrightarrow> cs \<noteq> [] \<and> 0 \<notin> set cs \<and> 0x2E \<notin> set cs"

definition full_seg :: "u8 list \<Rightarrow> u8 list" where "full_seg cs = map upper_char cs @ replicate (4 - length cs) 0x5F"

lemma build_chars_spec:
  "bytes_at m E (cs @ [t]) \<Longrightarrow> 0 \<notin> set cs \<Longrightarrow> 0x2E \<notin> set cs \<Longrightarrow> t = 0 \<or> t = 0x2E \<Longrightarrow> length cs \<le> k \<Longrightarrow> span R k \<inter> span E (Suc (length cs)) = {} \<Longrightarrow>
    build_chars k m E R = (store m R (map upper_char cs @ replicate (k - length cs) 0x5F), E + of_nat (length cs))"
proof (induction k arbitrary: m E R cs)
  case (Suc k)
  have R: "R \<notin> span E (Suc (length cs))" "span (R + 1) k \<inter> span E (Suc (length cs)) = {}" using Suc.prems(6) by auto
  show ?case
  proof (cases cs)
    case Nil
    have "bytes_at (m(R := 0x5F)) E [t]" using Suc.prems(1) R(1) Nil by auto
    then show ?thesis using Suc.IH [of "m(R := 0x5F)" E "[]" "R + 1"] Suc.prems R(2) Nil
      by (auto simp: ACPI_IS_PATH_SEPARATOR_def simp del: fun_upd_apply span_simps)
  next
    case (Cons c ds)
    let ?m = "m(R := upper_char c)"
    have "bytes_at ?m (E + 1) (ds @ [t]) = bytes_at m (E + 1) (ds @ [t])" by (rule bytes_at_cong) (use R(1) Cons in auto)
    then have b: "bytes_at ?m (E + 1) (ds @ [t])" "m E = c" using Suc.prems(1) Cons by auto
    have "build_chars (Suc k) m E R = build_chars k ?m (E + 1) (R + 1)" using b(2) Suc.prems(2,3) Cons by (auto simp: ACPI_IS_PATH_SEPARATOR_def)
    also have "\<dots> = (store ?m (R + 1) (map upper_char ds @ replicate (k - length ds) 0x5F), E + 1 + of_nat (length ds))"
      by (rule Suc.IH [OF b(1)]) (use Suc.prems(2-5) R(2) Cons in auto)
    finally show ?thesis using Cons by (simp add: add.assoc)
  qed
qed simp

lemma build_chars_long:
  "bytes_at m E (cs @ [c]) \<Longrightarrow> 0 \<notin> set cs \<Longrightarrow> 0x2E \<notin> set cs \<Longrightarrow> length cs = k \<Longrightarrow> span R k \<inter> span E (Suc k) = {} \<Longrightarrow>
    build_chars k m E R = (store m R (map upper_char cs), E + of_nat k) \<and> store m R (map upper_char cs) (E + of_nat k) = c"
proof (induction k arbitrary: m E R cs)
  case (Suc k)
  obtain d ds where cs: "cs = d # ds" using Suc.prems(4) by (cases cs) auto
  let ?m = "m(R := upper_char d)"
  have R: "R \<notin> span E (Suc (Suc k))" "span (R + 1) k \<inter> span E (Suc (Suc k)) = {}" using Suc.prems(5) by auto
  have "bytes_at ?m (E + 1) (ds @ [c]) = bytes_at m (E + 1) (ds @ [c])" by (rule bytes_at_cong) (use R(1) Suc.prems(4) cs in auto)
  then have b: "bytes_at ?m (E + 1) (ds @ [c])" "m E = d" using Suc.prems(1) cs by auto
  from b(1) have "build_chars k ?m (E + 1) (R + 1) = (store ?m (R + 1) (map upper_char ds), E + 1 + of_nat k) \<and> store ?m (R + 1) (map upper_char ds) (E + 1 + of_nat k) = c"
    by (intro Suc.IH) (use Suc.prems(2-4) R(2) cs in \<open>auto simp del: fun_upd_apply\<close>)
  then show ?case using b(2) Suc.prems(2,3) cs by (auto simp: ACPI_IS_PATH_SEPARATOR_def add.assoc simp del: fun_upd_apply)
qed simp

text \<open>All segments: the status says if one of them is too long.\<close>

lemma split_chars: "4 < length c \<Longrightarrow> c = take 4 c @ (c ! 4) # drop 5 c"
  using id_take_nth_drop [of 4 c] by simp

lemma build_segments_spec:
  "(segs \<noteq> [] \<Longrightarrow> bytes_at m E (join segs @ [0])) \<Longrightarrow> \<forall>c \<in> set segs. plain c \<Longrightarrow> span R (4 * length segs) \<inter> span E (Suc (length (join segs))) = {} \<Longrightarrow>
    (if \<forall>c \<in> set segs. length c \<le> 4 then build_segments (length segs) m E R = (AE_OK, store m R (concat (map full_seg segs) @ [0]))
     else fst (build_segments (length segs) m E R) = AE_BAD_PATHNAME)"
proof (induction segs arbitrary: m E R)
  case (Cons c segs)
  obtain t rest where j: "join (c # segs) @ [0] = c @ t # rest" "t = 0 \<or> t = 0x2E" "segs \<noteq> [] \<Longrightarrow> rest = join segs @ [0]"
    by (cases "segs = []") (auto simp: join_Cons)
  have len: "length (join (c # segs)) = length c + length rest" using arg_cong [OF j(1), of length] by simp
  have b: "bytes_at m E (c @ t # rest)" using Cons.prems(1) j(1) by simp
  have sp: "span R (4 + 4 * length segs) \<inter> span E (length c + Suc (length rest)) = {}" using Cons.prems(3) len by simp
  have c: "0 \<notin> set c" "0x2E \<notin> set c" using Cons.prems(2) by (auto simp: plain_def)
  show ?case
  proof (cases "length c \<le> 4")
    case True
    have d4: "span R 4 \<inter> span E (Suc (length c)) = {}" and dr: "span (R + 4) (4 * length segs) \<inter> span (E + of_nat (length c) + 1) (length rest) = {}"
        and d4r: "span R 4 \<inter> span (E + of_nat (length c) + 1) (length rest) = {}" and dt: "E + of_nat (length c) \<notin> span R 4"
      using sp unfolding span_add [of R 4] span_add [of E "length c"] span_snoc [of E "length c"] span_simps(2) [of "E + of_nat (length c)"]
      by auto
    let ?m = "store m R (full_seg c)"
    have bt: "bytes_at m E (c @ [t])" "bytes_at m (E + of_nat (length c) + 1) rest" "m (E + of_nat (length c)) = t" using b by (auto simp: bytes_at_append)
    have run: "build_chars 4 m E R = (?m, E + of_nat (length c))"
      unfolding full_seg_def by (rule build_chars_spec [OF bt(1) c j(2) True d4])
    have fl: "length (full_seg c) = 4" using True by (simp add: full_seg_def)
    have mt: "?m (E + of_nat (length c)) = t" using bt(3) store_other [of _ R "full_seg c" m] dt fl by simp
    have br: "bytes_at ?m (E + of_nat (length c) + 1) (join segs @ [0])" if "segs \<noteq> []"
      using bt(2) j(3) [OF that] bytes_at_store_other [of "E + of_nat (length c) + 1" rest R "full_seg c" m] d4r fl by (simp add: Int_commute)
    have step: "build_segments (length (c # segs)) m E R = build_segments (length segs) ?m (E + of_nat (length c) + 1) (R + 4)"
      using run mt j(2) by (auto simp: ACPI_IS_PATH_SEPARATOR_def)
    have dr': "span (R + 4) (4 * length segs) \<inter> span (E + of_nat (length c) + 1) (Suc (length (join segs))) = {}"
      using dr j(3) by (cases "segs = []") auto
    show ?thesis unfolding step using Cons.IH [OF br _ dr'] Cons.prems(2) True fl store_append [of m R "full_seg c" "concat (map full_seg segs) @ [0]"] by simp
  next
    case False
    then have c5: "c = take 4 c @ (c ! 4) # drop 5 c" by (intro split_chars) simp
    then have b4: "bytes_at m E (take 4 c @ [c ! 4])" using b by (metis bytes_at_append append.assoc append_Cons append_Nil)
    have "c ! 4 \<in> set c" using False by (intro nth_mem) simp
    then have sub: "0 \<notin> set (take 4 c)" "0x2E \<notin> set (take 4 c)" "c ! 4 \<noteq> 0" "c ! 4 \<noteq> 0x2E" using c by (auto dest: in_set_takeD)
    have d: "span R 4 \<inter> span E (Suc 4) = {}"
    proof -
      obtain k where "length c + Suc (length rest) = Suc 4 + k" using False by (metis add_Suc_right le_Suc_ex not_less_eq_eq trans_le_add1)
      then show ?thesis using sp span_add [of R 4 "4 * length segs"] span_add [of E "Suc 4" k] by auto
    qed
    obtain m' where "build_chars 4 m E R = (m', E + of_nat 4)" "m' (E + of_nat 4) = c ! 4"
      using build_chars_long [OF b4 sub(1,2) _ d] False by simp
    then show ?thesis using False sub(3,4) by (auto simp: ACPI_IS_PATH_SEPARATOR_def)
  qed
qed simp

text \<open>Counting the prefixes and the segments.\<close>

lemma skip_roots_spec: "bytes_at m a (replicate r 0x5C @ [c]) \<Longrightarrow> c \<noteq> 0x5C \<Longrightarrow> skip_roots m a = Some (a + of_nat r)"
proof (induction r arbitrary: a)
  case (Suc r)
  then show ?case using Suc.IH [of "a + 1"] by (subst skip_roots.simps) (simp add: ACPI_IS_ROOT_PREFIX_def add.assoc)
qed (subst skip_roots.simps, simp add: ACPI_IS_ROOT_PREFIX_def)

lemma count_carats_spec:
  "bytes_at m a (replicate k 0x5E @ [c]) \<Longrightarrow> c \<noteq> 0x5E \<Longrightarrow> count_carats m a n = Some (a + of_nat k, n + of_nat k)"
proof (induction k arbitrary: a n)
  case (Suc k)
  then show ?case using Suc.IH [of "a + 1" "n + 1"] by (subst count_carats.simps) (simp add: ACPI_IS_PARENT_PREFIX_def add.assoc)
qed (subst count_carats.simps, simp add: ACPI_IS_PARENT_PREFIX_def)

lemma count_segments_spec:
  "bytes_at m (a + of_nat i) (xs @ [0]) \<Longrightarrow> 0 \<notin> set xs \<Longrightarrow> i + length xs < 2 ^ 32 \<Longrightarrow>
    count_segments m a (of_nat i) n = Some (n + of_nat (count_list xs 0x2E))"
proof (induction xs arbitrary: i n)
  case Nil
  have "(ucast (of_nat i :: u32) :: addr) = of_nat i" using Nil(3) by (simp add: unsigned_of_nat take_bit_nat_eq_self)
  then show ?case using Nil(1) by (subst count_segments.simps) simp
next
  case (Cons x xs)
  have u: "(ucast (of_nat i :: u32) :: addr) = of_nat i" using Cons.prems(3) by (simp add: unsigned_of_nat take_bit_nat_eq_self)
  have x: "m (a + of_nat i) = x" "x \<noteq> 0" "bytes_at m (a + of_nat (Suc i)) (xs @ [0])" using Cons.prems(1,2) by (simp_all add: ac_simps)
  have "count_segments m a (of_nat (Suc i)) k = Some (k + of_nat (count_list xs 0x2E))" for k
    by (rule Cons.IH [OF x(3)]) (use Cons.prems(2,3) in auto)
  then show ?case using u x(1,2) by (subst count_segments.simps) (simp add: ACPI_IS_PATH_SEPARATOR_def add.commute add.left_commute)
qed

lemma count_join: "\<forall>c \<in> set segs. plain c \<Longrightarrow> segs \<noteq> [] \<Longrightarrow> Suc (count_list (join segs) 0x2E) = length segs \<and> 0 \<notin> set (join segs) \<and> join segs \<noteq> []"
proof (induction segs)
  case (Cons c segs)
  have "count_list c 0x2E = 0" using Cons.prems(1) by (simp add: plain_def count_list_0_iff)
  then show ?case using Cons by (cases "segs = []") (auto simp: join_Cons plain_def)
qed simp

text \<open>An external name, with its prefix, redundant root prefixes, and segments.\<close>

fun external :: "path_prefix \<Rightarrow> nat \<Rightarrow> u8 list list \<Rightarrow> u8 list" where
  "external Root r segs = replicate (Suc r) 0x5C @ join segs"
| "external (Up k) r segs = replicate k 0x5E @ join segs"

definition external_ok :: "path_prefix \<Rightarrow> nat \<Rightarrow> u8 list list \<Rightarrow> bool" where
  "external_ok pre r segs \<longleftrightarrow> (\<forall>c \<in> set segs. plain c) \<and> (segs \<noteq> [] \<longrightarrow> hd (hd segs) \<noteq> 0x5C \<and> hd (hd segs) \<noteq> 0x5E)
     \<and> external pre r segs \<noteq> [] \<and> length (external pre r segs) < 2 ^ 32"

definition carats :: "path_prefix \<Rightarrow> nat" where "carats pre = (case pre of Root \<Rightarrow> 0 | Up k \<Rightarrow> k)"

lemma join_lead: "segs \<noteq> [] \<Longrightarrow> plain (hd segs) \<Longrightarrow> hd (join segs) = hd (hd segs) \<and> join segs \<noteq> []"
  by (cases segs) (auto simp: join_Cons plain_def)

lemma internal_length:
  assumes ok: "external_ok pre r segs" and b: "bytes_at m E (external pre r segs @ [0])"
  defines "q \<equiv> (case pre of Root \<Rightarrow> Suc r | Up k \<Rightarrow> k)"
  shows "AcpiNsGetInternalNameLength m \<lparr>ni_ExternalName = E, ni_NextExternalChar = 0, ni_InternalName = 0, ni_Length = 0,
        ni_NumSegments = 0, ni_NumCarats = 0, ni_FullyQualified = False\<rparr>
      = Some \<lparr>ni_ExternalName = E, ni_NextExternalChar = E + of_nat q, ni_InternalName = 0, ni_Length = of_nat (4 * length segs + 4 + carats pre),
        ni_NumSegments = of_nat (length segs), ni_NumCarats = of_nat (carats pre), ni_FullyQualified = (pre = Root)\<rparr>"
    and "bytes_at m (E + of_nat q) (join segs @ [0])"
proof -
  define c where "c = hd (join segs @ [0])"
  obtain rest where rest: "join segs @ [0] = c # rest" by (cases "join segs @ [0]") (auto simp: c_def)
  have c: "c \<noteq> 0x5C" "c \<noteq> 0x5E" and c0: "c = 0 \<longleftrightarrow> segs = []"
  proof -
    have "c \<noteq> 0x5C \<and> c \<noteq> 0x5E \<and> (c = 0 \<longleftrightarrow> segs = [])"
    proof (cases "segs = []")
      case False
      then have "hd segs \<in> set segs" by simp
      then have h: "plain (hd segs)" "hd (hd segs) \<noteq> 0x5C" "hd (hd segs) \<noteq> 0x5E" using ok False unfolding external_ok_def by blast+
      then have "c = hd (hd segs)" using join_lead [OF False] by (simp add: c_def)
      moreover have "hd (hd segs) \<noteq> 0" using h(1) unfolding plain_def by (metis list.set_sel(1))
      ultimately show ?thesis using h False by simp
    qed (simp add: c_def)
    then show "c \<noteq> 0x5C" "c \<noteq> 0x5E" "c = 0 \<longleftrightarrow> segs = []" by blast+
  qed
  show bj: "bytes_at m (E + of_nat q) (join segs @ [0])" using b by (cases pre) (auto simp: q_def bytes_at_append add.assoc)
  have mc: "m (E + of_nat q) = c" using bj rest by simp
  have segs: "(if c \<noteq> 0 then count_segments m (E + of_nat q) 0 1 else Some 0) = Some (of_nat (length segs))"
  proof (cases "segs = []")
    case False
    have "length (join segs) < 2 ^ 32" using ok by (cases pre) (auto simp: external_ok_def)
    then have "count_segments m (E + of_nat q) (of_nat 0) 1 = Some (1 + of_nat (count_list (join segs) 0x2E))"
      by (intro count_segments_spec) (use ok False count_join [of segs] bj in \<open>auto simp: external_ok_def\<close>)
    moreover have "1 + of_nat (count_list (join segs) 0x2E) = (of_nat (length segs) :: u32)"
      using count_join [of segs] ok False unfolding external_ok_def by (metis of_nat_Suc)
    ultimately show ?thesis using False c0 by simp
  qed (use c0 in simp)
  have pre: "(if ACPI_IS_ROOT_PREFIX (m E) then map_option (\<lambda>a. (a, 0)) (skip_roots m (E + 1)) else count_carats m E 0)
      = Some (E + of_nat q, of_nat (carats pre)) \<and> ACPI_IS_ROOT_PREFIX (m E) = (pre = Root)"
  proof (cases pre)
    case Root
    then have "m E = 0x5C" "bytes_at m (E + 1) (replicate r 0x5C @ [c])" using b rest by (auto simp: bytes_at_append)
    then show ?thesis using Root skip_roots_spec c(1) by (simp add: q_def carats_def ACPI_IS_ROOT_PREFIX_def add.assoc)
  next
    case (Up k)
    then have k: "bytes_at m E (replicate k 0x5E @ [c])" using b rest by (auto simp: bytes_at_append)
    have "m E \<noteq> 0x5C" using k c by (cases k) auto
    then show ?thesis using Up count_carats_spec [OF k c(2), of 0] by (simp add: q_def carats_def ACPI_IS_ROOT_PREFIX_def)
  qed
  show "AcpiNsGetInternalNameLength m \<lparr>ni_ExternalName = E, ni_NextExternalChar = 0, ni_InternalName = 0, ni_Length = 0,
        ni_NumSegments = 0, ni_NumCarats = 0, ni_FullyQualified = False\<rparr>
      = Some \<lparr>ni_ExternalName = E, ni_NextExternalChar = E + of_nat q, ni_InternalName = 0, ni_Length = of_nat (4 * length segs + 4 + carats pre),
        ni_NumSegments = of_nat (length segs), ni_NumCarats = of_nat (carats pre), ni_FullyQualified = (pre = Root)\<rparr>"
    unfolding AcpiNsGetInternalNameLength_def Let_def namestring_info.select_convs conjunct1 [OF pre] option.case prod.case mc segs
    using conjunct2 [OF pre] by (simp add: ACPI_NAMESEG_SIZE_def)
qed

text \<open>The bytes of the internal name.\<close>

fun prefix_bytes :: "path_prefix \<Rightarrow> u8 list" where
  "prefix_bytes Root = [AML_ROOT_PREFIX]"
| "prefix_bytes (Up k) = replicate k AML_PARENT_PREFIX"

definition count_bytes :: "nat \<Rightarrow> u8 list" where
  "count_bytes n = (if n \<le> 1 then [] else if n = 2 then [AML_DUAL_NAME_PREFIX] else [AML_MULTI_NAME_PREFIX, of_nat n])"

definition internal :: "path_prefix \<Rightarrow> u8 list list \<Rightarrow> u8 list" where
  "internal pre segs = prefix_bytes pre @ count_bytes (length segs) @ concat (map full_seg segs) @ [0]"

lemma put_carats_store: "put_carats k m a = store m a (replicate k AML_PARENT_PREFIX)"
  by (induction k arbitrary: m a) auto

lemma put_count_store:
  assumes "n < 2 ^ 32"
  shows "put_count (of_nat n) a m = (store m a (count_bytes n), a + of_nat (length (count_bytes n)))"
proof -
  have u: "unat (of_nat n :: u32) = n" unfolding unsigned_of_nat using assms by (simp add: take_bit_nat_eq_self)
  have "(of_nat n :: u32) \<le> 1 \<longleftrightarrow> n \<le> 1" "(of_nat n :: u32) = 2 \<longleftrightarrow> n = 2" using u by (auto simp: word_le_nat_alt word_unat_eq_iff)
  moreover have "ucast (of_nat n :: u32) = (of_nat n :: u8)" by (simp add: word_unat_eq_iff unsigned_of_nat take_bit_take_bit unsigned_ucast_eq)
  ultimately show ?thesis by (simp add: put_count_def count_bytes_def)
qed

lemma full_seg_length: "length c \<le> 4 \<Longrightarrow> length (full_seg c) = 4"
  by (simp add: full_seg_def)

lemma concat_length: "\<forall>c \<in> set segs. length c \<le> 4 \<Longrightarrow> length (concat (map full_seg segs)) = 4 * length segs"
  by (induction segs) (auto simp: full_seg_length)

lemma header_length: "length (prefix_bytes pre @ count_bytes n) \<le> 3 + carats pre"
  by (cases pre) (auto simp: count_bytes_def carats_def)

lemma internal_bound: "\<forall>c \<in> set segs. length c \<le> 4 \<Longrightarrow> length (internal pre segs) \<le> 4 * length segs + 4 + carats pre"
  using header_length [of pre "length segs"] by (simp add: internal_def concat_length)

lemma span_mono: "n \<le> k \<Longrightarrow> span a n \<subseteq> span a k"
  by (auto simp: span_def intro: order_less_le_trans)

lemma build_internal:
  assumes b: "bytes_at m J (join segs @ [0])" and p: "\<forall>c \<in> set segs. plain c" and n: "length segs < 2 ^ 32" "carats pre < 2 ^ 32"
    and sep: "span a (4 * length segs + 4 + carats pre) \<inter> span J (Suc (length (join segs))) = {}"
    and I: "ni_InternalName I = a" "ni_NextExternalChar I = J" "ni_NumSegments I = of_nat (length segs)" "ni_NumCarats I = of_nat (carats pre)" "ni_FullyQualified I = (pre = Root)"
  shows "if \<forall>c \<in> set segs. length c \<le> 4 then AcpiNsBuildInternalName I m = (AE_OK, store m a (internal pre segs)) else fst (AcpiNsBuildInternalName I m) = AE_BAD_PATHNAME"
proof -
  let ?h = "prefix_bytes pre @ count_bytes (length segs)"
  let ?m = "store m a ?h" and ?R = "a + of_nat (length ?h)"
  have uc: "unat (of_nat (carats pre) :: u32) = carats pre" "unat (of_nat (length segs) :: u32) = length segs"
    unfolding unsigned_of_nat using n by (simp_all add: take_bit_nat_eq_self)
  have "(ucast (of_nat (carats pre) :: u32) :: addr) = of_nat (carats pre)" using n(2) by (simp add: unsigned_of_nat take_bit_nat_eq_self)
  then have run: "AcpiNsBuildInternalName I m = build_segments (length segs) ?m J ?R"
    using I uc put_count_store [OF n(1)]
    by (cases pre) (simp_all add: AcpiNsBuildInternalName_def Let_def put_carats_store store_append carats_def add.assoc)
  have "length ?h + 4 * length segs \<le> 4 * length segs + 4 + carats pre" using header_length [of pre "length segs"] by linarith
  then have sub: "span a (length ?h) \<union> span ?R (4 * length segs) \<subseteq> span a (4 * length segs + 4 + carats pre)"
    using span_mono [of "length ?h + 4 * length segs" _ a] span_add [of a "length ?h"] by blast
  then have "span J (length (join segs @ [0])) \<inter> span a (length ?h) = {}" and d: "span ?R (4 * length segs) \<inter> span J (Suc (length (join segs))) = {}"
    using sep unfolding length_append_singleton by blast+
  then have bm: "bytes_at ?m J (join segs @ [0])" using b bytes_at_store_other by blast
  have "internal pre segs = ?h @ concat (map full_seg segs) @ [0]" by (simp add: internal_def)
  then have st: "store m a (internal pre segs) = store ?m ?R (concat (map full_seg segs) @ [0])" by (simp only: store_append)
  show ?thesis unfolding run st by (rule build_segments_spec [OF bm p d])
qed

text \<open>The internal name is read back as the prefix and the segments; a count above 255 is cut off.\<close>

definition seg_name :: "u8 list \<Rightarrow> u32" where "seg_name c = bytes_name (full_seg c)"

fun part_of :: "u32 list \<Rightarrow> name_part" where
  "part_of [] = NullName"
| "part_of [N] = OneName N"
| "part_of [N, M] = TwoNames N M"
| "part_of Ns = MultiName (take (length Ns mod 256) Ns)"

lemma upper_char_eq: "upper_char c = (if 0x61 \<le> c \<and> c \<le> 0x7A then c - 0x20 else c)"
proof -
  have "sint c mod 256 = uint c" using uint_sint [of c] by (simp add: take_bit_eq_mod)
  then have "islower (sint c) \<longleftrightarrow> 0x61 \<le> c \<and> c \<le> 0x7A" by (simp add: islower_iff word_le_def)
  moreover have "word_of_int (sint c - 0x20) = c - 0x20" by (simp flip: wi_hom_sub)
  ultimately show ?thesis by (simp add: upper_char_def toupper_def)
qed

lemma upper_char_nonzero: "c \<noteq> 0 \<Longrightarrow> upper_char c \<noteq> 0"
  by (auto simp: upper_char_eq)

lemma bytes_name_at:
  assumes "bytes_at m a bs" "length bs = 4"
  shows "name_at m a = bytes_name bs"
proof -
  obtain b c d e where "bs = [b, c, d, e]" using assms(2) by (auto simp: length_Suc_conv numeral_eq_Suc)
  then show ?thesis using assms(1) by (simp add: name_at_def add.assoc)
qed

lemma seg_name_nonzero:
  assumes "plain c" "length c \<le> 4"
  shows "seg_name c \<noteq> 0"
proof
  assume "seg_name c = 0"
  then have "full_seg c = [0, 0, 0, 0]" using bytes_name_inverse [OF full_seg_length [OF assms(2)]] by (simp add: seg_name_def name_bytes_def)
  then have "hd (full_seg c) = 0" by simp
  then show False using assms(1) upper_char_nonzero [of "hd c"] by (cases c) (auto simp: full_seg_def plain_def)
qed

lemma names_at_segs:
  "\<forall>c \<in> set segs. plain c \<and> length c \<le> 4 \<Longrightarrow> bytes_at m a (concat (map full_seg segs)) \<Longrightarrow> names_at m a (map seg_name segs)"
proof (induction segs arbitrary: a)
  case (Cons c segs)
  have "length (full_seg c) = 4" using Cons.prems(1) by (simp add: full_seg_length)
  then show ?case using Cons bytes_name_at [of m a "full_seg c"] seg_name_nonzero [of c] by (simp add: bytes_at_append seg_name_def)
qed simp

lemma names_at_take: "names_at m a Ns \<Longrightarrow> names_at m a (take k Ns)"
proof (induction Ns arbitrary: a k)
  case (Cons N Ns)
  then show ?case by (cases k) auto
qed simp

text \<open>A single name is only taken for one if it starts with a character of a name.\<close>

definition good_lead :: "u8 list list \<Rightarrow> bool" where
  "good_lead segs \<longleftrightarrow> (length segs = 1 \<longrightarrow> AcpiUtValidNameChar (upper_char (hd (hd segs))) 0)"

lemma part_of_bytes:
  assumes segs: "\<forall>c \<in> set segs. plain c \<and> length c \<le> 4" and lead: "good_lead segs"
    and b: "bytes_at m a (count_bytes (length segs) @ concat (map full_seg segs) @ [0])"
  shows "part_at m a (part_of (map seg_name segs))"
proof -
  let ?c = "count_bytes (length segs)"
  have n: "names_at m (a + of_nat (length ?c)) (map seg_name segs)"
    by (rule names_at_segs [OF segs]) (use b in \<open>simp add: bytes_at_append\<close>)
  have "segs = [] \<or> (\<exists>c. segs = [c]) \<or> (\<exists>c d. segs = [c, d]) \<or> (\<exists>c d e cs. segs = c # d # e # cs)"
    by (cases segs; cases "tl segs"; cases "tl (tl segs)") auto
  then consider "segs = []" | c where "segs = [c]" | c d where "segs = [c, d]" | c d e cs where "segs = c # d # e # cs" by blast
  then show ?thesis
  proof cases
    case 1
    then show ?thesis using b by (simp add: count_bytes_def)
  next
    case 2
    then have "plain c" using segs by simp
    then obtain x xs where "c = x # xs" by (cases c) (auto simp: plain_def)
    then have "m a = upper_char (hd (hd segs))" using b 2 by (simp add: count_bytes_def full_seg_def)
    then show ?thesis using n lead 2 by (simp add: good_lead_def count_bytes_def)
  next
    case 3
    then show ?thesis using b n by (simp add: count_bytes_def)
  next
    case 4
    have "part_of (map seg_name segs) = MultiName (take (length segs mod 256) (map seg_name segs))" unfolding 4 by simp
    moreover have "m a = AML_MULTI_NAME_PREFIX" "m (a + 1) = of_nat (length segs)" using b 4 by (auto simp: count_bytes_def)
    moreover have "names_at m (a + 2) (take (length segs mod 256) (map seg_name segs))"
      using names_at_take [OF n] 4 by (simp add: count_bytes_def)
    moreover have "(of_nat (length segs) :: u8) = of_nat (length segs mod 256)" by (simp add: word_unat_eq_iff unsigned_of_nat take_bit_eq_mod)
    moreover have "length segs mod 256 \<le> length segs" by simp
    ultimately show ?thesis by (simp add: min_absorb2)
  qed
qed

lemma path_of_bytes:
  assumes "\<forall>c \<in> set segs. plain c \<and> length c \<le> 4" "good_lead segs" "bytes_at m a (internal pre segs)"
  shows "path_at m a pre (part_of (map seg_name segs))"
proof (cases pre)
  case Root
  then show ?thesis using assms part_of_bytes [OF assms(1,2), of m "a + 1"] by (simp add: internal_def)
next
  case (Up k)
  have "up_at m a k part" if "bytes_at m a (replicate k AML_PARENT_PREFIX)" "part_at m (a + of_nat k) part" for part
    using that by (induction k arbitrary: a) (auto simp: add.assoc)
  then show ?thesis using assms Up part_of_bytes [OF assms(1,2), of m "a + of_nat k"] by (simp add: internal_def bytes_at_append)
qed

text \<open>A block that the allocator returns: it is not null, in it are zeros, and it does not overlap what is in use.\<close>

definition allocates :: "allocator \<Rightarrow> nat \<Rightarrow> mem \<Rightarrow> addr set \<Rightarrow> addr \<Rightarrow> mem \<Rightarrow> bool" where
  "allocates alloc n m used a m' \<longleftrightarrow> alloc (of_nat n) m = (a, m') \<and> a \<noteq> 0 \<and> span a n \<inter> used = {} \<and> (\<forall>x \<in> used. m' x = m x) \<and> (\<forall>x \<in> span a n. m' x = 0)"

lemma external_bounds:
  assumes "external_ok pre r segs"
  shows "length segs < 2 ^ 32" "carats pre < 2 ^ 32"
proof -
  have "length segs \<le> length (join segs)" if "\<forall>c \<in> set segs. plain c" for segs
    using that
  proof (induction segs)
    case (Cons c segs)
    then have "Suc 0 \<le> length c" by (cases c) (auto simp: plain_def)
    then show ?case using Cons by (auto simp: join_Cons)
  qed simp
  then have "length segs \<le> length (join segs)" using assms by (simp add: external_ok_def)
  moreover have "length (join segs) + carats pre < 2 ^ 32" using assms by (cases pre) (auto simp: external_ok_def carats_def)
  ultimately show "length segs < 2 ^ 32" "carats pre < 2 ^ 32" by simp_all
qed

text \<open>What the conversion writes, whether it succeeds or not, is within the computed length.\<close>

lemma build_chars_other: "x \<notin> span R k \<Longrightarrow> fst (build_chars k m E R) x = m x"
  by (induction k arbitrary: m E R) auto

lemma build_segments_other: "x \<notin> span R (4 * N + 1) \<Longrightarrow> snd (build_segments N m E R) x = m x"
proof (induction N arbitrary: m E R)
  case (Suc N)
  have x: "x \<notin> span R 4" "x \<notin> span (R + 4) (4 * N + 1)"
    using Suc.prems span_add [of R 4 "4 * N + 1"] by (auto simp del: span_simps)
  obtain m1 E1 where b: "build_chars 4 m E R = (m1, E1)" by fastforce
  then have "m1 x = m x" using build_chars_other [OF x(1), of m E] by simp
  then show ?case using Suc.IH [OF x(2), of m1 "E1 + 1"] b by simp
qed simp

lemma put_carats_other: "x \<notin> span a k \<Longrightarrow> put_carats k m a x = m x"
  by (induction k arbitrary: m a) auto

lemma put_count_other:
  assumes "put_count N a m = (m', R)" and "x \<notin> span a 2"
  shows "m' x = m x \<and> (\<exists>j \<le> 2. R = a + of_nat j)"
proof -
  have "x \<noteq> a" "x \<noteq> a + 1" using assms(2) by (auto simp: numeral_2_eq_2)
  then show ?thesis
    using assms(1) by (auto simp: put_count_def split: if_splits intro: exI [of _ 0] exI [of _ 1] exI [of _ 2])
qed

lemma build_internal_other:
  assumes "unat (ni_NumCarats I) = k" "unat (ni_NumSegments I) = N" "ni_FullyQualified I \<Longrightarrow> k = 0"
    and x: "x \<notin> span (ni_InternalName I) (4 * N + 4 + k)"
  shows "snd (AcpiNsBuildInternalName I m) x = m x"
proof -
  define lead where "lead = (if ni_FullyQualified I then 1 else k)"
  define m1 where "m1 = (if ni_FullyQualified I then m(ni_InternalName I := AML_ROOT_PREFIX) else put_carats k m (ni_InternalName I))"
  obtain m2 R where c: "put_count (ni_NumSegments I) (ni_InternalName I + of_nat lead) m1 = (m2, R)" by fastforce
  have lk: "lead + (4 * N + 3) \<le> 4 * N + 4 + k" using assms(3) by (simp add: lead_def)
  have out: "x \<notin> span (ni_InternalName I + of_nat i) j" if "i + j \<le> 4 * N + 4 + k" for i j
    using x that span_mono [OF that, of "ni_InternalName I"] span_add [of "ni_InternalName I" i j] by (auto simp del: span_simps)
  have "m1 x = m x"
    using out [of 0 k] out [of 0 1] put_carats_other [of x "ni_InternalName I" k m] by (auto simp: m1_def)
  moreover obtain j where j: "m2 x = m1 x" "j \<le> 2" "R = ni_InternalName I + of_nat (lead + j)"
    using put_count_other [OF c out [of lead 2]] lk by (auto simp: add.assoc)
  moreover have "snd (build_segments N m2 (ni_NextExternalChar I) R) x = m2 x"
    unfolding j(3) by (rule build_segments_other, rule out) (use lk j(2) in simp)
  moreover have "AcpiNsBuildInternalName I m = build_segments N m2 (ni_NextExternalChar I) R"
    using c assms(1,2) by (auto simp: AcpiNsBuildInternalName_def m1_def lead_def Let_def)
  ultimately show ?thesis by simp
qed

lemma internalize:
  assumes ok: "external_ok pre r segs" and b: "bytes_at m E (external pre r segs @ [0])" and E: "E \<noteq> 0"
    and al: "allocates alloc (4 * length segs + 4 + carats pre) m (span E (Suc (length (external pre r segs)))) a m1"
  shows "if \<forall>c \<in> set segs. length c \<le> 4 then AcpiNsInternalizeName alloc E True m = Some (AE_OK, Some a, store m1 a (internal pre segs))
    else \<exists>m'. AcpiNsInternalizeName alloc E True m = Some (AE_BAD_PATHNAME, None, m')
      \<and> (\<forall>x. x \<notin> span a (4 * length segs + 4 + carats pre) \<longrightarrow> m' x = m1 x)"
proof -
  let ?n = "4 * length segs + 4 + carats pre" and ?q = "case pre of Root \<Rightarrow> Suc r | Up k \<Rightarrow> k"
  have al': "alloc (of_nat ?n) m = (a, m1)" "a \<noteq> 0" using al by (simp_all add: allocates_def)
  have sp: "span E (Suc (length (external pre r segs))) = span E ?q \<union> span (E + of_nat ?q) (Suc (length (join segs)))"
    using span_add [of E ?q "Suc (length (join segs))"] by (cases pre) (simp_all del: span_simps)
  have "bytes_at m1 (E + of_nat ?q) (join segs @ [0])"
    using internal_length(2) [OF ok b] bytes_at_cong [of "E + of_nat ?q" "join segs @ [0]" m1 m] al sp by (auto simp: allocates_def simp del: span_simps)
  then have build: "if \<forall>c \<in> set segs. length c \<le> 4 then AcpiNsBuildInternalName I m1 = (AE_OK, store m1 a (internal pre segs))
      else fst (AcpiNsBuildInternalName I m1) = AE_BAD_PATHNAME"
    if "ni_InternalName I = a" "ni_NextExternalChar I = E + of_nat ?q" "ni_NumSegments I = of_nat (length segs)" "ni_NumCarats I = of_nat (carats pre)" "ni_FullyQualified I = (pre = Root)" for I
    by (rule build_internal [OF _ _ external_bounds [OF ok]]) (use that ok al sp in \<open>auto simp: external_ok_def allocates_def simp del: span_simps\<close>)
  let ?I = "\<lparr>ni_ExternalName = E, ni_NextExternalChar = E + of_nat ?q, ni_InternalName = a, ni_Length = of_nat ?n,
        ni_NumSegments = of_nat (length segs), ni_NumCarats = of_nat (carats pre), ni_FullyQualified = (pre = Root)\<rparr>"
  have "m E \<noteq> 0"
  proof -
    obtain x xs where x: "external pre r segs = x # xs" using ok by (cases "external pre r segs") (auto simp: external_ok_def)
    have "0 \<notin> set (external pre r segs)" using ok count_join [of segs] by (cases pre; cases "segs = []") (auto simp: external_ok_def)
    then show ?thesis using b x by auto
  qed
  then have run: "AcpiNsInternalizeName alloc E True m =
      (case AcpiNsBuildInternalName ?I m1 of (Status, m) \<Rightarrow> if ACPI_FAILURE Status then Some (Status, None, m) else Some (AE_OK, Some a, m))"
    using E al' internal_length(1) [OF ok b] by (simp add: AcpiNsInternalizeName_def)
  show ?thesis
  proof (cases "\<forall>c \<in> set segs. length c \<le> 4")
    case True
    then have "AcpiNsBuildInternalName ?I m1 = (AE_OK, store m1 a (internal pre segs))" using build [of ?I] by simp
    then show ?thesis using True run by simp
  next
    case False
    then have "fst (AcpiNsBuildInternalName ?I m1) = AE_BAD_PATHNAME" using build [of ?I] by (simp only: if_False namestring_info.select_convs)
    moreover have "snd (AcpiNsBuildInternalName ?I m1) x = m1 x" if "x \<notin> span a ?n" for x
      by (rule build_internal_other)
        (use external_bounds [OF ok] that in \<open>auto simp: carats_def unsigned_of_nat take_bit_nat_eq_self simp del: span_simps\<close>)
    ultimately have "\<exists>m'. AcpiNsInternalizeName alloc E True m = Some (AE_BAD_PATHNAME, None, m')
        \<and> (\<forall>x. x \<notin> span a ?n \<longrightarrow> m' x = m1 x)"
      unfolding run by (cases "AcpiNsBuildInternalName ?I m1") (simp add: ACPI_FAILURE_def)
    then show ?thesis using False by (simp only: if_False)
  qed
qed

text \<open>
  C37. \<open>AcpiNsInternalizeName\<close> converts an external name, with root or parent prefixes and segments of one to four characters, to the AML name
  of its prefixes and its segments in upper case, filled up with underscores. A
  segment of more than four characters is refused with \<open>AE_BAD_PATHNAME\<close> and nothing is returned. In both cases the block that is
  allocated has exactly the computed length, which is assumed to have 32 bits, and everything that is written lies in it.
  (Of a name with more than 255 segments only the number modulo 256 is in the AML name. The comment of the function
  gives the bytes \<open>5c 2f 02 ...\<close> for a name with two segments; the code writes \<open>5c 2e ...\<close>, without a count.)
\<close>

theorem internalize_name:
  assumes "external_ok pre r segs" "bytes_at m E (external pre r segs @ [0])" "E \<noteq> 0" "good_lead segs"
    and "allocates alloc (4 * length segs + 4 + carats pre) m (span E (Suc (length (external pre r segs)))) a m1"
    and "4 * length segs + 4 + carats pre < 2 ^ 32"
  shows "\<exists>m'. AcpiNsInternalizeName alloc E True m =
      (if \<forall>c \<in> set segs. length c \<le> 4 then Some (AE_OK, Some a, m') else Some (AE_BAD_PATHNAME, None, m'))
    \<and> ((\<forall>c \<in> set segs. length c \<le> 4) \<longrightarrow> path_at m' a pre (part_of (map seg_name segs)))
    \<and> (\<forall>x. x \<notin> span a (4 * length segs + 4 + carats pre) \<longrightarrow> m' x = m1 x)"
proof (cases "\<forall>c \<in> set segs. length c \<le> 4")
  case True
  have run: "AcpiNsInternalizeName alloc E True m = Some (AE_OK, Some a, store m1 a (internal pre segs))"
    using internalize [OF assms(1-3,5)] True by simp
  have len: "length (internal pre segs) \<le> 4 * length segs + 4 + carats pre" by (rule internal_bound [OF True])
  have "bytes_at (store m1 a (internal pre segs)) a (internal pre segs)"
    by (rule bytes_at_store) (use len external_bounds [OF assms(1)] in simp)
  then have "path_at (store m1 a (internal pre segs)) a pre (part_of (map seg_name segs))"
    using path_of_bytes assms(1,4) True by (simp add: external_ok_def)
  moreover have "store m1 a (internal pre segs) x = m1 x" if "x \<notin> span a (4 * length segs + 4 + carats pre)" for x
    using store_other span_mono [OF len, of a] that by blast
  ultimately show ?thesis using True run by simp
next
  case False
  then obtain m' where "AcpiNsInternalizeName alloc E True m = Some (AE_BAD_PATHNAME, None, m')"
      "\<forall>x. x \<notin> span a (4 * length segs + 4 + carats pre) \<longrightarrow> m' x = m1 x"
    using internalize [OF assms(1-3,5)] by (simp only: if_False) blast
  then show ?thesis using False by (simp only: if_False simp_thms) blast
qed

section \<open>Finding a node\<close>

definition by_name :: "u32 \<Rightarrow> lookup" where
  "by_name Flags = \<lparr>lk_Type = ucast ACPI_TYPE_ANY, lk_Mode = ACPI_IMODE_EXECUTE, lk_Flags = Flags OR ACPI_NS_DONT_OPEN_SCOPE, lk_Walk = None\<rparr>"

lemma by_name_upward: "lk_Flags (by_name Flags) AND ACPI_NS_SEARCH_PARENT \<noteq> 0 \<and> AcpiNsLocal (lk_Type (by_name Flags)) = 0 \<longleftrightarrow> Flags AND ACPI_NS_SEARCH_PARENT \<noteq> 0"
  by (simp add: by_name_def bit.conj_disj_distrib2 ACPI_NS_SEARCH_PARENT_def ACPI_NS_DONT_OPEN_SCOPE_def AcpiNsLocal_def AcpiUtValidObjectType_def
      ACPI_TYPE_ANY_def AcpiGbl_NsProperties_def ACPI_NS_NORMAL_def ACPI_NS_LOCAL_def)

lemma open_scope_by_name: "open_scope push (by_name Flags) (b, t, md, s) = (AE_OK, b, md, s)"
  by (simp add: open_scope_def by_name_def)

text \<open>
  C8. \<open>AcpiNsGetNode\<close> finds the node that the search rules give for an external name, from the root or from the scope that contains the given node, and leaves
  the namespace as it is.
\<close>

theorem get_node_by_name:
  assumes "external_ok pre r segs" "bytes_at m Path (external pre r segs @ [0])" "Path \<noteq> 0" "good_lead segs" "\<forall>c \<in> set segs. length c \<le> 4"
    and "allocates alloc (4 * length segs + 4 + carats pre) m (span Path (Suc (length (external pre r segs)))) a m1"
    and "sv_acquire (en_services E) s = (AE_OK, s0)" "lookup_ok E (by_name Flags) ts s0" "\<forall>b \<in> roots ts. opens (Nodes s0) b"
    and "PrefixNode = 0 \<or> PrefixNode \<in> set (nodes_of ts)"
  shows "\<exists>P \<in> set (nodes_of ts). prefix_node (en_RootNode E) PrefixNode (Flags OR ACPI_NS_DONT_OPEN_SCOPE) s0 = Some (Inr P) \<and>
    AcpiNsGetNode E push alloc m PrefixNode Path Flags v s = Some (
      case resolve_path (Nodes s0) (en_RootNode E) ts (Flags AND ACPI_NS_SEARCH_PARENT \<noteq> 0) pre (part_of (map seg_name segs)) P of
        (st, b) \<Rightarrow> (st, b, snd (sv_release (en_services E) s0)))"
proof -
  let ?m = "store m1 a (internal pre segs)"
  have run: "AcpiNsInternalizeName alloc Path True m = Some (AE_OK, Some a, ?m)" using internalize [OF assms(1-3,6)] assms(5) by simp
  have a: "a \<noteq> 0" using assms(6) by (simp add: allocates_def)
  have "bytes_at ?m a (internal pre segs)"
    by (rule bytes_at_store) (use internal_bound [OF assms(5), of pre] external_bounds [OF assms(1)] in simp)
  then have path: "path_at ?m a pre (part_of (map seg_name segs))" using path_of_bytes assms(1,4,5) by (simp add: external_ok_def)
  obtain P where P: "P \<in> set (nodes_of ts)" "prefix_node (en_RootNode E) PrefixNode (Flags OR ACPI_NS_DONT_OPEN_SCOPE) s0 = Some (Inr P)"
      "AcpiNsLookup E push ?m PrefixNode a (by_name Flags) True s0 = Some (
        case resolve_path (Nodes s0) (en_RootNode E) ts (Flags AND ACPI_NS_SEARCH_PARENT \<noteq> 0) pre (part_of (map seg_name segs)) P of
          (st, b) \<Rightarrow> (st, b, False, s0))"
  proof -
    have eq: "(case X of (st, b) \<Rightarrow> if st = AE_OK then (AE_OK, b, False, s0) else (st, b, False, s0)) = (case X of (st, b) \<Rightarrow> (st, b, False, s0))" for X :: "acpi_status \<times> addr"
      by (cases X) simp
    have fl: "lk_Flags (by_name Flags) = Flags OR ACPI_NS_DONT_OPEN_SCOPE" by (simp add: by_name_def)
    show ?thesis using lookup_rules [OF assms(8-10) a path, of push] that unfolding by_name_upward open_scope_by_name eq unfolding fl by blast
  qed
  have "AcpiNsGetNodeUnlocked E push alloc m PrefixNode Path Flags v s0 = Some (
      case resolve_path (Nodes s0) (en_RootNode E) ts (Flags AND ACPI_NS_SEARCH_PARENT \<noteq> 0) pre (part_of (map seg_name segs)) P of (st, b) \<Rightarrow> (st, b, s0))"
  proof (cases "ACPI_IS_ROOT_PREFIX (m Path) \<and> m (Path + 1) = 0")
    case True
    have "pre = Root \<and> segs = []"
    proof (cases pre)
      case Root
      have "r = 0 \<and> join segs = []" using True assms(1,2) count_join [of segs] unfolding Root
        by (cases r; cases "join segs"; cases "segs = []") (auto simp: bytes_at_append external_ok_def)
      then show ?thesis using Root assms(1) count_join [of segs] by (auto simp: external_ok_def)
    next
      case (Up k)
      have "m Path = hd (external pre r segs)" using assms(1,2) by (cases "external pre r segs") (auto simp: external_ok_def)
      moreover have "hd (external pre r segs) \<noteq> 0x5C"
        using Up assms(1) join_lead [of segs] by (cases k; cases "segs = []") (auto simp: external_ok_def)
      ultimately show ?thesis using True by (simp add: ACPI_IS_ROOT_PREFIX_def)
    qed
    then show ?thesis using True assms(3) by (simp add: AcpiNsGetNodeUnlocked_def resolve_path_def)
  next
    case False
    then show ?thesis using assms(3) run P(3) unfolding AcpiNsGetNodeUnlocked_def by_name_def
      by (auto simp: ACPI_FAILURE_def split: prod.split)
  qed
  then show ?thesis using P(1,2) assms(7) by (intro bexI [of _ P]) (auto simp: AcpiNsGetNode_def ACPI_FAILURE_def split: prod.split)
qed

section \<open>The conversion back\<close>

lemma copy_prefix_store:
  "bytes_at m src bs \<Longrightarrow> span dst (length bs) \<inter> span src (length bs) = {} \<Longrightarrow> copy_prefix (length bs) m dst src = store m dst bs"
proof (induction bs arbitrary: m dst src)
  case (Cons b bs)
  have d: "dst \<notin> span (src + 1) (length bs)" "span (dst + 1) (length bs) \<inter> span (src + 1) (length bs) = {}" using Cons.prems(2) by auto
  have "bytes_at (m(dst := b)) (src + 1) bs = bytes_at m (src + 1) bs" by (rule bytes_at_cong) (use d(1) in auto)
  then show ?case using Cons.IH [of "m(dst := b)" "src + 1" "dst + 1"] Cons.prems(1) d(2) by (simp del: fun_upd_apply)
qed simp

lemma put_name_store: "length bs = 4 \<Longrightarrow> put_name m a bs = store m a bs"
proof -
  assume "length bs = 4"
  then obtain b c d e where "bs = [b, c, d, e]" by (auto simp: length_Suc_conv numeral_eq_Suc)
  then show ?thesis by (simp add: put_name_def add.assoc)
qed

lemma repaired_at_bytes:
  assumes "bytes_at m a bs" "length bs = 4"
  shows "repaired_at m a = AcpiUtRepairName bs"
proof -
  obtain b c d e where "bs = [b, c, d, e]" using assms(2) by (auto simp: length_Suc_conv numeral_eq_Suc)
  then show ?thesis using assms(1) by (simp add: repaired_at_def add.assoc)
qed

definition dotted :: "bool \<Rightarrow> u8 list list \<Rightarrow> u8 list" where
  "dotted initial fs = (if fs = [] then [] else if initial then join fs else 0x2E # join fs)"

lemma dotted_Cons: "dotted initial (f # fs) = (if initial then [] else [0x2E]) @ f @ dotted False fs"
  by (simp add: dotted_def join_Cons)

lemma dotted_length: "\<forall>f \<in> set fs. length f = 4 \<Longrightarrow> length (dotted False fs) = 5 * length fs"
  by (induction fs) (auto simp: dotted_Cons, simp add: dotted_def)

lemma copy_segments_store:
  "bytes_at m src (concat fs) \<Longrightarrow> \<forall>f \<in> set fs. length f = 4 \<and> AcpiUtRepairName f = f \<Longrightarrow> span dst (length (dotted initial fs)) \<inter> span src (length (concat fs)) = {} \<Longrightarrow>
    copy_segments (length fs) initial m dst src = store m dst (dotted initial fs)"
proof (induction fs arbitrary: m dst src initial)
  case Nil
  then show ?case by (simp add: dotted_def)
next
  case (Cons f fs)
  let ?d = "if initial then [] else [0x2E :: u8]"
  let ?m = "store m dst ?d" and ?dst = "dst + of_nat (length ?d)"
  have f: "length f = 4" "AcpiUtRepairName f = f" "\<forall>f \<in> set fs. length f = 4 \<and> AcpiUtRepairName f = f" using Cons.prems(2) by auto
  have sep: "span dst (length ?d + 4 + length (dotted False fs)) \<inter> span src (4 + length (concat fs)) = {}"
    using Cons.prems(3) f(1) by (simp add: dotted_Cons add.assoc del: span_simps)
  then have s1: "span dst (length ?d) \<inter> span src (4 + length (concat fs)) = {}" and s2: "span ?dst 4 \<inter> span (src + 4) (length (concat fs)) = {}"
      and s3: "span (?dst + 4) (length (dotted False fs)) \<inter> span (src + 4) (length (concat fs)) = {}"
    unfolding span_add [of dst "length ?d + 4"] span_add [of dst "length ?d"] span_add [of src 4] by (auto simp: add.assoc simp del: span_simps)
  have bm: "bytes_at ?m src (f @ concat fs)" using Cons.prems(1) bytes_at_store_other [of src "f @ concat fs" dst ?d m] s1 f(1) by (simp add: Int_commute del: span_simps)
  have rep: "repaired_at ?m src = f" using repaired_at_bytes [of ?m src f] bm f by (simp add: bytes_at_append)
  have bf: "bytes_at (store ?m ?dst f) (src + 4) (concat fs)"
    using bm bytes_at_store_other [of "src + 4" "concat fs" ?dst f ?m] s2 f(1) by (simp add: bytes_at_append Int_commute del: span_simps)
  have step: "copy_segments (length (f # fs)) initial m dst src = copy_segments (length fs) False (put_name ?m ?dst (repaired_at ?m src)) (?dst + 4) (src + 4)"
    by (simp add: Let_def)
  also have "\<dots> = store (store ?m ?dst f) (?dst + 4) (dotted False fs)"
    unfolding rep put_name_store [OF f(1)] by (rule Cons.IH [OF bf f(3) s3])
  also have "\<dots> = store m dst (dotted initial (f # fs))"
    using f(1) unfolding dotted_Cons store_append by (simp add: add.assoc)
  finally show ?case .
qed

text \<open>The prefix and the segments of an internal name.\<close>

lemma parent_length_spec: "bytes_at m a (replicate k 0x5E @ [c]) \<Longrightarrow> c \<noteq> 0x5E \<Longrightarrow> k < n \<Longrightarrow> parent_length n m a i = i + of_nat k"
proof (induction k arbitrary: a n i)
  case 0
  then show ?case by (cases n) (auto simp: ACPI_IS_PARENT_PREFIX_def)
next
  case (Suc k)
  obtain n' where "n = Suc n'" "k < n'" using Suc.prems(3) by (cases n) auto
  then show ?case using Suc.IH [of "a + 1" n' "i + 1"] Suc.prems(1,2) by (simp add: ACPI_IS_PARENT_PREFIX_def add.assoc)
qed

lemma end_not_in_span: "k < 2 ^ 64 \<Longrightarrow> a + of_nat k \<notin> span a k"
proof
  assume k: "k < 2 ^ 64" and "a + of_nat k \<in> span a k"
  then obtain i where i: "(of_nat k :: addr) = of_nat i" "i < k" by (auto simp: span_def)
  have "unat (of_nat k :: addr) = unat (of_nat i :: addr)" using i(1) by simp
  then show False using i(2) k by (simp add: unsigned_of_nat take_bit_nat_eq_self)
qed

lemma bytes_at_store_end: "length bs < 2 ^ 64 \<Longrightarrow> m (a + of_nat (length bs)) = c \<Longrightarrow> bytes_at (store m a bs) a (bs @ [c])"
  using bytes_at_store [of bs m a] store_other [OF end_not_in_span [of "length bs" a], of m] by (simp add: bytes_at_append)

text \<open>A name whose segments have characters of names only.\<close>

definition named :: "u8 list list \<Rightarrow> bool" where
  "named segs \<longleftrightarrow> (\<forall>c \<in> set segs. plain c \<and> length c \<le> 4 \<and> AcpiUtValidNameseg (full_seg c))"

lemma named_seg:
  assumes "named segs" "c \<in> set segs"
  shows "length (full_seg c) = 4 \<and> AcpiUtRepairName (full_seg c) = full_seg c \<and> AcpiUtValidNameChar (hd (full_seg c)) 0"
proof -
  have c: "length c \<le> 4" "AcpiUtValidNameseg (full_seg c)" using assms by (auto simp: named_def)
  then have v: "length (full_seg c) = 4" "valid_chars 0 (full_seg c)" by (simp_all add: full_seg_length AcpiUtValidNameseg_def)
  then have "AcpiUtValidNameChar (hd (full_seg c)) 0" by (cases "full_seg c") (auto split: if_splits)
  then show ?thesis using v repair_chars_same by (simp add: AcpiUtRepairName_def)
qed

text \<open>The first character behind the prefixes.\<close>

lemma part_first:
  assumes "named segs"
  obtains c rest where "count_bytes (length segs) @ concat (map full_seg segs) @ [0] = c # rest" "c \<noteq> 0x5C" "c \<noteq> 0x5E"
    "c = 0 \<longleftrightarrow> segs = []" "c = 0x2E \<longleftrightarrow> length segs = 2" "c = 0x2F \<longleftrightarrow> length segs > 2"
proof -
  note first_is = that
  have "segs = [] \<or> (\<exists>c. segs = [c]) \<or> length segs > 1" by (cases segs; cases "tl segs") auto
  then consider "segs = []" | c where "segs = [c]" | "length segs > 1" by blast
  then show ?thesis
  proof cases
    case 1
    then show ?thesis using first_is [of 0 "[]"] by (simp add: count_bytes_def)
  next
    case 2
    note v = named_seg [OF assms, of c, unfolded 2, simplified]
    obtain x xs where x: "full_seg c = x # xs" using v by (cases "full_seg c") auto
    then have "AcpiUtValidNameChar x 0" using v by simp
    then have "x \<noteq> 0x5C \<and> x \<noteq> 0x5E \<and> x \<noteq> 0 \<and> x \<noteq> 0x2E \<and> x \<noteq> 0x2F" by (auto simp: AcpiUtValidNameChar_def split: if_splits)
    then show ?thesis using first_is [of x "xs @ [0]"] 2 x by (simp add: count_bytes_def)
  next
    case 3
    then have "segs \<noteq> []" "length segs = 2 \<or> length segs > 2" by auto
    then show ?thesis
    proof (elim disjE)
      assume "length segs = 2"
      then show ?thesis using first_is [of "0x2E" "concat (map full_seg segs) @ [0]"] \<open>segs \<noteq> []\<close> by (simp add: count_bytes_def AML_DUAL_NAME_PREFIX_def)
    next
      assume "length segs > 2"
      then show ?thesis using first_is [of "0x2F" "of_nat (length segs) # concat (map full_seg segs) @ [0]"] \<open>segs \<noteq> []\<close> by (simp add: count_bytes_def AML_MULTI_NAME_PREFIX_def)
    qed
  qed
qed

lemma name_counts:
  assumes segs: "named segs" "length segs < 256" and b: "bytes_at m a (internal pre segs)" and L: "carats pre < 2 ^ 16" "unat Len > carats pre + 1"
  shows "prefix_length m Len a = of_nat (length (prefix_bytes pre))"
    and "\<exists>i. segment_count m Len a (of_nat (length (prefix_bytes pre))) = (i, of_nat (length segs))
      \<and> (segs \<noteq> [] \<longrightarrow> i = of_nat (length (prefix_bytes pre @ count_bytes (length segs))))"
proof -
  let ?p = "length (prefix_bytes pre)"
  obtain c rest where c: "count_bytes (length segs) @ concat (map full_seg segs) @ [0] = c # rest" "c \<noteq> 0x5C" "c \<noteq> 0x5E"
      "c = 0 \<longleftrightarrow> segs = []" "c = 0x2E \<longleftrightarrow> length segs = 2" "c = 0x2F \<longleftrightarrow> length segs > 2"
    using part_first [OF segs(1)] by metis
  have bp: "bytes_at m a (prefix_bytes pre @ c # rest)" using b c(1) by (simp add: internal_def)
  show "prefix_length m Len a = of_nat ?p"
  proof (cases pre)
    case Root
    then show ?thesis using bp by (simp add: prefix_length_def)
  next
    case (Up k)
    have k: "bytes_at m a (replicate k 0x5E @ [c])" using bp Up by (auto simp: bytes_at_append AML_PARENT_PREFIX_def)
    show ?thesis
    proof (cases k)
      case 0
      then show ?thesis using bp Up c(2,3) by (simp add: prefix_length_def AML_ROOT_PREFIX_def AML_PARENT_PREFIX_def)
    next
      case (Suc j)
      have "m a = AML_PARENT_PREFIX" using bp Up Suc by simp
      then show ?thesis using Up parent_length_spec [OF k c(3), of "unat Len" 0] L(2)
        by (simp add: prefix_length_def carats_def AML_ROOT_PREFIX_def AML_PARENT_PREFIX_def)
    qed
  qed
  have p: "?p \<le> carats pre + 1" "?p < 2 ^ 32" using L(1) by (cases pre; simp add: carats_def)+
  have up: "unat (of_nat ?p :: u32) = ?p" "(ucast (of_nat ?p :: u32) :: addr) = of_nat ?p" using p(2) by (simp_all add: unsigned_of_nat take_bit_nat_eq_self)
  then have lt: "(of_nat ?p :: u32) < Len" using p(1) L(2) by (simp add: word_less_nat_alt)
  have mc: "m (a + of_nat ?p) = c" "length segs > 2 \<Longrightarrow> m (a + of_nat ?p + 1) = of_nat (length segs)"
    using bp c(1) by (auto simp: bytes_at_append count_bytes_def)
  have "ucast (of_nat (length segs) :: u8) = (of_nat (length segs) :: u32)" using segs(2) by (simp add: unsigned_of_nat take_bit_nat_eq_self)
  moreover have "length segs = 1" if "segs \<noteq> []" "\<not> length segs > 2" "length segs \<noteq> 2" using that by (cases segs; cases "tl segs") auto
  ultimately show "\<exists>i. segment_count m Len a (of_nat ?p) = (i, of_nat (length segs))
      \<and> (segs \<noteq> [] \<longrightarrow> i = of_nat (length (prefix_bytes pre @ count_bytes (length segs))))"
    using lt mc up(2) c(4-6)
    by (auto simp: segment_count_def Let_def AML_MULTI_NAME_PREFIX_def AML_DUAL_NAME_PREFIX_def count_bytes_def)
qed

definition full_text :: "path_prefix \<Rightarrow> u8 list list \<Rightarrow> u8 list" where "full_text pre segs = external pre 0 (map full_seg segs)"

lemma full_text_eq: "full_text pre segs = prefix_bytes pre @ dotted True (map full_seg segs)"
  by (cases pre) (simp_all add: full_text_def dotted_def AML_ROOT_PREFIX_def AML_PARENT_PREFIX_def)

lemma full_text_length:
  assumes "named segs"
  shows "length (full_text pre segs) = length (prefix_bytes pre) + 4 * length segs + (length segs - 1)"
proof -
  have "\<forall>f \<in> set (map full_seg segs). length f = 4" using named_seg [OF assms] by auto
  then show ?thesis
  proof (cases segs)
    case Nil
    then show ?thesis by (simp add: full_text_eq dotted_def)
  next
    case (Cons c cs)
    then show ?thesis using \<open>\<forall>f \<in> _. _\<close> dotted_length [of "map full_seg cs"] by (simp add: full_text_eq dotted_Cons)
  qed
qed

lemma externalize:
  assumes segs: "named segs" "length segs < 256" and b: "bytes_at m a (internal pre segs)" and a: "a \<noteq> 0" and k: "carats pre < 2 ^ 16"
    and Len: "length (full_text pre segs) + 1 < unat Len"
    and al: "allocates alloc (length (full_text pre segs) + 1) m (span a (length (internal pre segs))) n m1"
  shows "AcpiNsExternalizeName alloc Len a True m = (AE_OK, Some (n, of_nat (length (full_text pre segs) + 1)), store m1 n (full_text pre segs))"
    and "bytes_at (store m1 n (full_text pre segs)) n (full_text pre segs @ [0])"
proof -
  let ?p = "length (prefix_bytes pre)" and ?c = "length (count_bytes (length segs))" and ?t = "length (full_text pre segs)" and ?fs = "map full_seg segs"
  have t: "?t = ?p + 4 * length segs + (length segs - 1)" by (rule full_text_length [OF segs(1)])
  have p: "?p \<le> carats pre + 1" by (cases pre) (simp_all add: carats_def)
  have small: "?t + 1 < 2 ^ 32" using t p k segs(2) by simp
  have "carats pre \<le> ?p" by (cases pre) (simp_all add: carats_def)
  then have Len': "unat Len > carats pre + 1" using Len t by simp
  note cnt = name_counts [OF segs b k Len']
  obtain i where i: "segment_count m Len a (of_nat ?p) = (i, of_nat (length segs))" "segs \<noteq> [] \<Longrightarrow> i = of_nat (length (prefix_bytes pre @ count_bytes (length segs)))"
    using cnt(2) by blast
  show "bytes_at (store m1 n (full_text pre segs)) n (full_text pre segs @ [0])"
    by (rule bytes_at_store_end) (use small al span_snoc [of n ?t] in \<open>auto simp: allocates_def simp del: span_simps\<close>)
  have bm: "bytes_at m1 a (internal pre segs)" using b bytes_at_cong [of a "internal pre segs" m1 m] al by (auto simp: allocates_def)
  have li: "length (internal pre segs) = ?p + ?c + length (concat ?fs) + 1" by (simp add: internal_def)
  have sa: "span a (length (internal pre segs)) = span a ?p \<union> span (a + of_nat ?p) ?c \<union> span (a + of_nat (?p + ?c)) (length (concat ?fs)) \<union> {a + of_nat (?p + ?c + length (concat ?fs))}"
    unfolding li span_add [of a "?p + ?c + length (concat ?fs)"] span_add [of a "?p + ?c"] span_add [of a ?p] by simp
  have sn: "span n (?t + 1) = span n ?p \<union> span (n + of_nat ?p) (length (dotted True ?fs)) \<union> {n + of_nat ?t}"
    unfolding span_add [of n ?t] by (simp add: full_text_eq span_add)
  have sep: "span n (?t + 1) \<inter> span a (length (internal pre segs)) = {}" using al by (simp add: allocates_def)
  have d1: "span n ?p \<inter> span a ?p = {}" and d2: "span (a + of_nat (?p + ?c)) (length (concat ?fs)) \<inter> span n ?p = {}"
      and d3: "span (n + of_nat ?p) (length (dotted True ?fs)) \<inter> span (a + of_nat (?p + ?c)) (length (concat ?fs)) = {}"
    using sep unfolding sa sn by blast+
  have pre: "copy_prefix ?p m1 n a = store m1 n (prefix_bytes pre)"
    by (rule copy_prefix_store [OF _ d1]) (use bm in \<open>simp add: internal_def bytes_at_append\<close>)
  have bs: "bytes_at (store m1 n (prefix_bytes pre)) (a + of_nat (?p + ?c)) (concat ?fs)"
    unfolding bytes_at_store_other [OF d2] using bm by (simp add: internal_def bytes_at_append add.assoc)
  have cs: "copy_segments (length segs) True (store m1 n (prefix_bytes pre)) (n + of_nat ?p) (a + ucast i) = store m1 n (full_text pre segs)"
  proof (cases "segs = []")
    case False
    have "length (prefix_bytes pre @ count_bytes (length segs)) < 2 ^ 32" using header_length [of pre "length segs"] k by simp
    then have "(ucast i :: addr) = of_nat (?p + ?c)" unfolding i(2) [OF False] unsigned_of_nat by (simp add: take_bit_nat_eq_self)
    moreover have "copy_segments (length ?fs) True (store m1 n (prefix_bytes pre)) (n + of_nat ?p) (a + of_nat (?p + ?c)) = store (store m1 n (prefix_bytes pre)) (n + of_nat ?p) (dotted True ?fs)"
      by (rule copy_segments_store [OF bs _ d3]) (use named_seg [OF segs(1)] in auto)
    ultimately show ?thesis by (simp add: full_text_eq store_append)
  qed (simp add: full_text_eq dotted_def)
  have req: "of_nat ?p + 4 * of_nat (length segs) + (if (of_nat (length segs) :: u32) > 0 then of_nat (length segs) - 1 else 0) + 1 = (of_nat (?t + 1) :: u32)"
  proof -
    have "unat (of_nat (length segs) :: u32) = length segs" using segs(2) by (simp add: unsigned_of_nat take_bit_nat_eq_self)
    then have "(of_nat (length segs) :: u32) > 0 \<longleftrightarrow> segs \<noteq> []" by (simp add: word_less_nat_alt)
    then show ?thesis unfolding t by (cases segs) simp_all
  qed
  have le: "\<not> (of_nat (?t + 1) :: u32) > Len"
  proof -
    have "unat (of_nat (?t + 1) :: u32) = ?t + 1" unfolding unsigned_of_nat using small by (simp add: take_bit_nat_eq_self)
    then show ?thesis unfolding word_less_nat_alt using Len by simp
  qed
  have u: "unat (of_nat ?p :: u32) = ?p" "(ucast (of_nat ?p :: u32) :: addr) = of_nat ?p" "unat (of_nat (length segs) :: u32) = length segs" "Len \<noteq> 0"
    using small t Len by (auto simp: unsigned_of_nat take_bit_nat_eq_self)
  show "AcpiNsExternalizeName alloc Len a True m = (AE_OK, Some (n, of_nat (length (full_text pre segs) + 1)), store m1 n (full_text pre segs))"
    unfolding AcpiNsExternalizeName_def Let_def cnt(1) i(1) prod.case req u(1-3) using a al le u(4) pre cs by (simp add: allocates_def)
qed

text \<open>
  C9. An external name that is converted to the internal form and back is the name in its full form: with one root prefix or all
  its parent prefixes, its segments in upper case, each with four characters. (\<open>ACPI_UINT32_MAX\<close> as the length is how the code calls the conversion back.)
\<close>

theorem name_roundtrip:
  assumes "external_ok pre r segs" "bytes_at m E (external pre r segs @ [0])" "E \<noteq> 0" "named segs" "length segs < 256" "carats pre < 2 ^ 16"
    and "allocates alloc (4 * length segs + 4 + carats pre) m (span E (Suc (length (external pre r segs)))) a m1"
    and "allocates alloc (length (full_text pre segs) + 1) (store m1 a (internal pre segs)) (span a (length (internal pre segs))) n m2"
  shows "\<exists>mi mo. AcpiNsInternalizeName alloc E True m = Some (AE_OK, Some a, mi)
    \<and> AcpiNsExternalizeName alloc 0xFFFFFFFF a True mi = (AE_OK, Some (n, of_nat (length (full_text pre segs) + 1)), mo) \<and> bytes_at mo n (full_text pre segs @ [0])"
proof -
  have le: "\<forall>c \<in> set segs. length c \<le> 4" using assms(4) by (simp add: named_def)
  have run: "AcpiNsInternalizeName alloc E True m = Some (AE_OK, Some a, store m1 a (internal pre segs))"
    using internalize [OF assms(1-3,7)] le by simp
  have b: "bytes_at (store m1 a (internal pre segs)) a (internal pre segs)"
    by (rule bytes_at_store) (use internal_bound [OF le, of pre] assms(5,6) in simp)
  have a: "a \<noteq> 0" using assms(7) by (simp add: allocates_def)
  have "length (prefix_bytes pre) \<le> carats pre + 1" by (cases pre) (simp_all add: carats_def)
  then have "length (full_text pre segs) + 1 < unat (0xFFFFFFFF :: u32)" using full_text_length [OF assms(4), of pre] assms(5,6) by simp
  note ext = externalize [OF assms(4,5) b a assms(6) this assms(8)]
  show ?thesis using run ext by blast
qed

section \<open>Examples\<close>

text \<open>The string \<open>\aaaa.bbbb\<close>, and an allocator with two blocks.\<close>

definition sample_string :: mem where
  "sample_string a = (if a = 0x100 then 0x5C else if a < 0x105 then 0x61 else if a = 0x105 then 0x2E else if a < 0x10A then 0x62 else 0)"

definition sample_segs :: "u8 list list" where "sample_segs = [[0x61, 0x61, 0x61, 0x61], [0x62, 0x62, 0x62, 0x62]]"

definition sample_alloc :: allocator where
  "sample_alloc n m = (let a = (if n = 12 then 0x1000 else 0x2000) in (a, \<lambda>x. if a \<le> x \<and> x < a + 0x1000 then 0 else m x))"

lemma sample_external:
  "external_ok Root 0 sample_segs" "bytes_at sample_string 0x100 (external Root 0 sample_segs @ [0])" "good_lead sample_segs" "named sample_segs"
  "\<forall>c \<in> set sample_segs. length c \<le> 4" "length sample_segs = 2" "carats Root = 0" "length (external Root 0 sample_segs) = 10"
  by (simp_all add: external_ok_def sample_segs_def plain_def sample_string_def good_lead_def named_def full_seg_def upper_char_eq AcpiUtValidNameseg_def
      AcpiUtValidNameChar_def carats_def)

lemma sample_allocates:
  "allocates sample_alloc 12 m (span 0x100 11) 0x1000 (\<lambda>x. if 0x1000 \<le> x \<and> x < 0x2000 then 0 else m x)"
  "allocates sample_alloc 11 m (span 0x1000 11) 0x2000 (\<lambda>x. if 0x2000 \<le> x \<and> x < 0x3000 then 0 else m x)"
proof -
  have range: "0x100 \<le> x \<and> x < 0x10B" if "x \<in> span 0x100 11" for x using span_range [OF that] by (simp add: word_le_nat_alt word_less_nat_alt)
  have range1: "0x1000 \<le> x \<and> x < 0x100C" if "x \<in> span 0x1000 11 \<or> x \<in> span 0x1000 12" for x
    using that span_range [of x "0x1000" 11] span_range [of x "0x1000" 12] by (auto simp: word_le_nat_alt word_less_nat_alt)
  have range2: "0x2000 \<le> x \<and> x < 0x200B" if "x \<in> span 0x2000 11" for x using span_range [OF that] by (simp add: word_le_nat_alt word_less_nat_alt)
  show "allocates sample_alloc 12 m (span 0x100 11) 0x1000 (\<lambda>x. if 0x1000 \<le> x \<and> x < 0x2000 then 0 else m x)"
    unfolding allocates_def sample_alloc_def Let_def
    by (intro conjI ballI) (auto simp del: span_simps dest!: range range1 [OF disjI2] simp: word_le_nat_alt word_less_nat_alt)
  show "allocates sample_alloc 11 m (span 0x1000 11) 0x2000 (\<lambda>x. if 0x2000 \<le> x \<and> x < 0x3000 then 0 else m x)"
    unfolding allocates_def sample_alloc_def Let_def
    by (intro conjI ballI) (auto simp del: span_simps dest!: range1 [OF disjI1] range2 simp: word_le_nat_alt word_less_nat_alt)
qed

lemma sample_full: "length (full_text Root sample_segs) = 10" "length (internal Root sample_segs) = 11"
  by (simp_all add: full_text_def internal_def sample_segs_def full_seg_def count_bytes_def)

theorem internalize_name_witness:
  "\<exists>m'. AcpiNsInternalizeName sample_alloc 0x100 True sample_string = Some (AE_OK, Some 0x1000, m') \<and> path_at m' 0x1000 Root (TwoNames 0x41414141 0x42424242)"
proof -
  have n: "4 * length sample_segs + 4 + carats Root = 12" "Suc (length (external Root 0 sample_segs)) = 11" using sample_external(6-8) by simp_all
  have "part_of (map seg_name sample_segs) = TwoNames 0x41414141 0x42424242"
    by (simp add: sample_segs_def seg_name_def full_seg_def upper_char_eq bytes_name_def)
  then show ?thesis
    using internalize_name [OF sample_external(1,2) _ sample_external(3), unfolded n, OF _ sample_allocates(1)] sample_external(5) by auto
qed

theorem name_roundtrip_witness:
  "\<exists>mi mo n. AcpiNsInternalizeName sample_alloc 0x100 True sample_string = Some (AE_OK, Some 0x1000, mi)
    \<and> AcpiNsExternalizeName sample_alloc 0xFFFFFFFF 0x1000 True mi = (AE_OK, Some (n, 11), mo)
    \<and> bytes_at mo n [0x5C, 0x41, 0x41, 0x41, 0x41, 0x2E, 0x42, 0x42, 0x42, 0x42, 0]"
proof -
  have n: "4 * length sample_segs + 4 + carats Root = 12" "Suc (length (external Root 0 sample_segs)) = 11" using sample_external(6-8) by simp_all
  have t: "full_text Root sample_segs = [0x5C, 0x41, 0x41, 0x41, 0x41, 0x2E, 0x42, 0x42, 0x42, 0x42]"
    by (simp add: full_text_def sample_segs_def full_seg_def upper_char_eq)
  have k: "carats Root < 2 ^ 16" "length sample_segs < 256" "length (full_text Root sample_segs) + 1 = 11" using sample_external(6,7) sample_full(1) by simp_all
  show ?thesis
    using name_roundtrip [OF sample_external(1,2) _ sample_external(4) k(2,1), unfolded n k(3) sample_full(2), OF _ sample_allocates(1) sample_allocates(2)]
    unfolding t by auto
qed

theorem get_node_by_name_witness:
  "\<exists>s'. AcpiNsGetNode sample_env (\<lambda>b t s. (AE_OK, s)) sample_alloc sample_string 0 0x100 0 0 (sample_state sample_named) = Some (AE_OK, 3, s')"
proof -
  let ?s0 = "(sample_state sample_named)\<lparr>Ext := [Lock]\<rparr>"
  have n: "4 * length sample_segs + 4 + carats Root = 12" "Suc (length (external Root 0 sample_segs)) = 11" using sample_external(6-8) by simp_all
  have acq: "sv_acquire (en_services sample_env) (sample_state sample_named) = (AE_OK, ?s0)" using sample_acquire(1) by (simp add: sample_env_def)
  have ok: "lookup_ok sample_env (by_name 0) [NT 1 sample_trees] ?s0"
    using sample_lookup_ok by (simp del: forest.simps add: lookup_ok_def sample_lookup_def by_name_def ACPI_NS_DONT_OPEN_SCOPE_def ACPI_NS_ERROR_IF_FOUND_def ACPI_NS_OVERRIDE_IF_FOUND_def)
  have op: "\<forall>b \<in> roots [NT 1 sample_trees]. opens (Nodes ?s0) b"
    by (simp add: opens_def sample_state_def sample_named_def sample_node_def AcpiNsOpensScope_def ACPI_TYPE_LOCAL_MAX_def AcpiGbl_NsProperties_def ACPI_NS_NEWSCOPE_def)
  have part: "part_of (map seg_name sample_segs) = TwoNames 0x41414141 0x42424242"
    by (simp add: sample_segs_def seg_name_def full_seg_def upper_char_eq bytes_name_def)
  have "resolve (Nodes ?s0) [NT 1 sample_trees] [0x41414141, 0x42424242] 1 = (AE_OK, 3)"
    by (simp add: sample_names find_child_def name_of_def target_of_def follow_def sample_state_def sample_named_def sample_node_def sample_trees_def
        ACPI_TYPE_LOCAL_METHOD_ALIAS_def ACPI_TYPE_LOCAL_ALIAS_def)
  then have "resolve_path (Nodes ?s0) (en_RootNode sample_env) [NT 1 sample_trees] up Root (TwoNames 0x41414141 0x42424242) P = (AE_OK, 3)" for up P
    by (simp add: resolve_path_def sample_env_def del: resolve.simps)
  then show ?thesis
    using get_node_by_name [OF sample_external(1,2) _ sample_external(3,5), unfolded n, OF _ sample_allocates(1) acq ok op, of 0 "\<lambda>b t s. (AE_OK, s)" 0]
    unfolding part by auto
qed

end
