(* ===== verification/Operand.thy ===== *)
theory Operand
  imports AcpiTypes GenericState
begin

text \<open>
  Operand objects and their reference counts: the creation of objects (\<^verbatim>\<open>components/utilities/utobject.c\<close>) and
  \<^verbatim>\<open>components/utilities/utdelete.c\<close>.

  The union \<open>ACPI_OPERAND_OBJECT\<close> is a record with the common header and the members of the views that this code uses;
  which of them have a meaning depends on the type. What \<open>Pointer\<close> of a string or buffer and \<open>Elements\<close> of a package
  point to belongs to the object, as a list that is as long as the allocated memory, \<open>None\<close> for a null pointer. Objects and
  update states live in two heaps of cells (theory Cache) with their caches. A namespace node shows itself by its descriptor type.
\<close>

section \<open>Objects\<close>

record operand_object =
  op_NextObject :: addr
  op_DescriptorType :: u8
  op_Type :: u8
  op_ReferenceCount :: u16
  op_Flags :: u8
  \<comment> \<open>\<open>ACPI_OBJECT_INTEGER\<close>\<close>
  op_Value :: u64
  \<comment> \<open>\<open>ACPI_OBJECT_STRING\<close>, \<open>ACPI_OBJECT_BUFFER\<close>\<close>
  op_Pointer :: "u8 list option"
  op_Length :: u32
  \<comment> \<open>\<open>ACPI_OBJECT_PACKAGE\<close>\<close>
  op_Elements :: "addr list option"
  op_Count :: u32
  \<comment> \<open>\<open>ACPI_OBJECT_METHOD\<close>\<close>
  op_Mutex :: addr
  op_Node :: addr
  \<comment> \<open>fields\<close>
  op_BufferObj :: addr
  op_RegionObj :: addr
  op_BankObj :: addr
  op_IndexObj :: addr
  op_DataObj :: addr
  \<comment> \<open>\<open>ACPI_OBJECT_REFERENCE\<close>\<close>
  op_Class :: u8
  op_Object :: addr
  \<comment> \<open>\<open>ACPI_COMMON_NOTIFY_INFO\<close>, \<open>ACPI_OBJECT_NOTIFY_HANDLER\<close>\<close>
  op_NotifyList :: "addr list"
  op_Next :: "addr list"

definition zero_operand :: operand_object where
  "zero_operand = \<lparr>op_NextObject = 0, op_DescriptorType = 0, op_Type = 0, op_ReferenceCount = 0, op_Flags = 0,
     op_Value = 0, op_Pointer = None, op_Length = 0, op_Elements = None, op_Count = 0, op_Mutex = 0, op_Node = 0,
     op_BufferObj = 0, op_RegionObj = 0, op_BankObj = 0, op_IndexObj = 0, op_DataObj = 0, op_Class = 0, op_Object = 0,
     op_NotifyList = [0, 0], op_Next = [0, 0]\<rparr>"

definition AOPOBJ_DATA_VALID :: u8 where "AOPOBJ_DATA_VALID = 0x04"
definition REF_INCREMENT :: u16 where "REF_INCREMENT = 0"
definition REF_DECREMENT :: u16 where "REF_DECREMENT = 1"
definition ACPI_REFCLASS_INDEX :: u8 where "ACPI_REFCLASS_INDEX = 3"
definition ACPI_REFCLASS_NAME :: u8 where "ACPI_REFCLASS_NAME = 5"
definition ACPI_NUM_NOTIFY_TYPES :: nat where "ACPI_NUM_NOTIFY_TYPES = 2"

type_synonym oheap = "operand_object heap"

text \<open>The two caches with their heaps.\<close>

record ('c, 'd) ostate =
  OCache :: 'c
  OHeap :: oheap
  SCache :: 'd
  SHeap :: sheap

text \<open>
  The services: the object caches, whether \<open>ACPI_ALLOCATE_ZEROED\<close> has memory of a given size, and the deletion of what
  device, processor, thermal zone, mutex and region objects refer to outside of these heaps.
\<close>

record ('c, 'd) op_env =
  op_acq :: "'c \<Rightarrow> oheap \<Rightarrow> (addr \<times> 'c \<times> oheap) option"
  op_rel :: "addr \<Rightarrow> 'c \<Rightarrow> oheap \<Rightarrow> 'c \<times> oheap"
  st_acq :: "'d acquire"
  st_rel :: "'d release"
  op_alloc :: "nat \<Rightarrow> ('c, 'd) ostate \<Rightarrow> bool"
  op_ext :: "addr \<Rightarrow> ('c, 'd) ostate \<Rightarrow> ('c, 'd) ostate option"

text \<open>Reading and writing the object at an address.\<close>

abbreviation objects :: "('c, 'd) ostate \<Rightarrow> addr \<Rightarrow> operand_object option" where
  "objects s \<equiv> live (OHeap s)"

definition set_op :: "addr \<Rightarrow> (operand_object \<Rightarrow> operand_object) \<Rightarrow> ('c, 'd) ostate \<Rightarrow> ('c, 'd) ostate option" where
  "set_op a f s = (case objects s a of None \<Rightarrow> None | Some ob \<Rightarrow> Some (s\<lparr>OHeap := (OHeap s)(a \<mapsto> Object (f ob))\<rparr>))"

section \<open>Descriptors\<close>

definition AcpiUtValidInternalObject :: "addr \<Rightarrow> ('c, 'd) ostate \<Rightarrow> bool option" where
  "AcpiUtValidInternalObject Obj s =
     (if Obj = 0 then Some False
      else map_option (\<lambda>ob. op_DescriptorType ob = ACPI_DESC_TYPE_OPERAND) (objects s Obj))"

text \<open>A new descriptor, 0 if there is no memory.\<close>

definition AcpiUtAllocateObjectDescDbg :: "('c, 'd) op_env \<Rightarrow> ('c, 'd) ostate \<Rightarrow> (addr \<times> ('c, 'd) ostate) option" where
  "AcpiUtAllocateObjectDescDbg env s =
     (case op_acq env (OCache s) (OHeap s) of
        None \<Rightarrow> None
      | Some (Obj, c, h) \<Rightarrow>
          let s = s\<lparr>OCache := c, OHeap := h\<rparr>
          in if Obj = 0 then Some (0, s)
             else map_option (Pair Obj) (set_op Obj (\<lambda>ob. ob\<lparr>op_DescriptorType := ACPI_DESC_TYPE_OPERAND\<rparr>) s))"

definition AcpiUtDeleteObjectDesc :: "('c, 'd) op_env \<Rightarrow> addr \<Rightarrow> ('c, 'd) ostate \<Rightarrow> ('c, 'd) ostate option" where
  "AcpiUtDeleteObjectDesc env Obj s =
     (case objects s Obj of
        None \<Rightarrow> None
      | Some ob \<Rightarrow>
          if op_DescriptorType ob \<noteq> ACPI_DESC_TYPE_OPERAND then Some s
          else let (c, h) = op_rel env Obj (OCache s) (OHeap s) in Some (s\<lparr>OCache := c, OHeap := h\<rparr>))"

definition AcpiUtCreateInternalObjectDbg ::
  "('c, 'd) op_env \<Rightarrow> u8 \<Rightarrow> ('c, 'd) ostate \<Rightarrow> (addr \<times> ('c, 'd) ostate) option" where
  "AcpiUtCreateInternalObjectDbg env Type s =
     (case AcpiUtAllocateObjectDescDbg env s of
        None \<Rightarrow> None
      | Some (Obj, s) \<Rightarrow>
          if Obj = 0 then Some (0, s)
          else case (if Type = ACPI_TYPE_REGION \<or> Type = ACPI_TYPE_BUFFER_FIELD \<or> Type = ACPI_TYPE_LOCAL_BANK_FIELD
                     then (case AcpiUtAllocateObjectDescDbg env s of
                             None \<Rightarrow> None
                           | Some (SecondObject, s) \<Rightarrow>
                               if SecondObject = 0
                               then map_option (Pair False) (AcpiUtDeleteObjectDesc env Obj s)
                               else (case set_op SecondObject (\<lambda>ob. ob\<lparr>op_Type := ACPI_TYPE_LOCAL_EXTRA, op_ReferenceCount := 1\<rparr>) s of
                                       None \<Rightarrow> None
                                     | Some s \<Rightarrow> map_option (Pair True) (set_op Obj (\<lambda>ob. ob\<lparr>op_NextObject := SecondObject\<rparr>) s)))
                     else Some (True, s))
               of None \<Rightarrow> None
                | Some (created, s) \<Rightarrow>
                    if \<not> created then Some (0, s)
                    else map_option (Pair Obj) (set_op Obj (\<lambda>ob. ob\<lparr>op_Type := Type, op_ReferenceCount := 1\<rparr>) s))"

definition AcpiNsGetSecondaryObject :: "addr \<Rightarrow> ('c, 'd) ostate \<Rightarrow> addr option" where
  "AcpiNsGetSecondaryObject Obj s =
     (if Obj = 0 then Some 0
      else case objects s Obj of
             None \<Rightarrow> None
           | Some ob \<Rightarrow>
               if op_Type ob = ACPI_TYPE_LOCAL_DATA \<or> op_NextObject ob = 0 then Some 0
               else case objects s (op_NextObject ob) of
                      None \<Rightarrow> None
                    | Some n \<Rightarrow> Some (if op_Type n = ACPI_TYPE_LOCAL_DATA then 0 else op_NextObject ob))"

section \<open>Deletion and reference counts\<close>

text \<open>
  The memory that a string, buffer or package points to is freed with the object. The semaphore of an event and the mutexes of a method and of
  an address handler are host objects.
\<close>

definition AcpiUtDeleteInternalObj :: "('c, 'd) op_env \<Rightarrow> addr \<Rightarrow> ('c, 'd) ostate \<Rightarrow> ('c, 'd) ostate option" where
  "AcpiUtDeleteInternalObj env Obj s =
     (if Obj = 0 then Some s
      else case objects s Obj of
             None \<Rightarrow> None
           | Some ob \<Rightarrow>
               (case (if op_Type ob \<in> {ACPI_TYPE_DEVICE, ACPI_TYPE_PROCESSOR, ACPI_TYPE_THERMAL, ACPI_TYPE_MUTEX, ACPI_TYPE_REGION}
                      then op_ext env Obj s
                      else if op_Type ob = ACPI_TYPE_METHOD
                      then (case (if op_Mutex ob \<noteq> 0
                                  then (case AcpiUtDeleteObjectDesc env (op_Mutex ob) s of
                                          None \<Rightarrow> None | Some s \<Rightarrow> set_op Obj (\<lambda>ob. ob\<lparr>op_Mutex := 0\<rparr>) s)
                                  else Some s)
                            of None \<Rightarrow> None | Some s \<Rightarrow> set_op Obj (\<lambda>ob. ob\<lparr>op_Node := 0\<rparr>) s)
                      else if op_Type ob = ACPI_TYPE_BUFFER_FIELD \<or> op_Type ob = ACPI_TYPE_LOCAL_BANK_FIELD
                      then (case AcpiNsGetSecondaryObject Obj s of
                              None \<Rightarrow> None
                            | Some SecondDesc \<Rightarrow> if SecondDesc \<noteq> 0 then AcpiUtDeleteObjectDesc env SecondDesc s else Some s)
                      else Some s)
                of None \<Rightarrow> None | Some s \<Rightarrow> AcpiUtDeleteObjectDesc env Obj s))"

definition AcpiUtUpdateRefCount :: "('c, 'd) op_env \<Rightarrow> addr \<Rightarrow> u16 \<Rightarrow> ('c, 'd) ostate \<Rightarrow> ('c, 'd) ostate option" where
  "AcpiUtUpdateRefCount env Obj Action s =
     (if Obj = 0 then Some s
      else case objects s Obj of
             None \<Rightarrow> None
           | Some ob \<Rightarrow>
               let OriginalCount = op_ReferenceCount ob
               in if Action = REF_INCREMENT
                  then set_op Obj (\<lambda>ob. ob\<lparr>op_ReferenceCount := OriginalCount + 1\<rparr>) s
                  else if Action = REF_DECREMENT
                  then if OriginalCount = 0 then Some s
                       else let NewCount = OriginalCount - 1
                            in (case set_op Obj (\<lambda>ob. ob\<lparr>op_ReferenceCount := NewCount\<rparr>) s of
                                  None \<Rightarrow> None
                                | Some s \<Rightarrow> if NewCount = 0 then AcpiUtDeleteInternalObj env Obj s else Some s)
                  else Some s)"

text \<open>The new head of \<open>StateList\<close>.\<close>

definition AcpiUtCreateUpdateStateAndPush ::
  "('c, 'd) op_env \<Rightarrow> addr \<Rightarrow> u16 \<Rightarrow> addr \<Rightarrow> ('c, 'd) ostate \<Rightarrow> (acpi_status \<times> addr \<times> ('c, 'd) ostate) option" where
  "AcpiUtCreateUpdateStateAndPush env Obj Action StateList s =
     (if Obj = 0 then Some (AE_OK, StateList, s)
      else case AcpiUtCreateUpdateState (st_acq env) Obj Action (SCache s) (SHeap s) of
             None \<Rightarrow> None
           | Some (St, c, h) \<Rightarrow>
               if St = 0 then Some (AE_NO_MEMORY, StateList, s\<lparr>SCache := c, SHeap := h\<rparr>)
               else case AcpiUtPushGenericState StateList St h of
                      None \<Rightarrow> None
                    | Some (h, StateList) \<Rightarrow> Some (AE_OK, StateList, s\<lparr>SCache := c, SHeap := h\<rparr>))"

text \<open>The handlers of one notify type.\<close>

partial_function (option) update_notify ::
  "('c, 'd) op_env \<Rightarrow> u16 \<Rightarrow> nat \<Rightarrow> addr \<Rightarrow> ('c, 'd) ostate \<Rightarrow> ('c, 'd) ostate option" where
  "update_notify env Action i PrevObject s =
     (if PrevObject \<noteq> 0
      then case objects s PrevObject of
             None \<Rightarrow> None
           | Some ob \<Rightarrow>
               (case AcpiUtUpdateRefCount env PrevObject Action s of
                  None \<Rightarrow> None
                | Some s \<Rightarrow> update_notify env Action i (op_Next ob ! i) s)
      else Some s)"

text \<open>The elements of a package: simple ones are counted here, the others go to the list of states.\<close>

fun update_elements ::
  "('c, 'd) op_env \<Rightarrow> u16 \<Rightarrow> addr list \<Rightarrow> addr \<Rightarrow> ('c, 'd) ostate \<Rightarrow> (acpi_status \<times> addr \<times> ('c, 'd) ostate) option" where
  "update_elements env Action [] StateList s = Some (AE_OK, StateList, s)"
| "update_elements env Action (NextObject # es) StateList s =
     (if NextObject = 0 then update_elements env Action es StateList s
      else case objects s NextObject of
             None \<Rightarrow> None
           | Some ob \<Rightarrow>
               if op_Type ob = ACPI_TYPE_INTEGER \<or> op_Type ob = ACPI_TYPE_STRING \<or> op_Type ob = ACPI_TYPE_BUFFER
               then (case AcpiUtUpdateRefCount env NextObject Action s of
                       None \<Rightarrow> None
                     | Some s \<Rightarrow> update_elements env Action es StateList s)
               else (case AcpiUtCreateUpdateStateAndPush env NextObject Action StateList s of
                       None \<Rightarrow> None
                     | Some (Status, StateList, s) \<Rightarrow>
                         if ACPI_FAILURE Status then Some (Status, StateList, s)
                         else update_elements env Action es StateList s))"

text \<open>
  The sub-objects of an object: status, the next object, the list of states. The elements are read while the package itself is not
  changed. A package with fewer allocated elements than it counts would be read past its end.
\<close>

definition update_subobjects ::
  "('c, 'd) op_env \<Rightarrow> u16 \<Rightarrow> operand_object \<Rightarrow> addr \<Rightarrow> ('c, 'd) ostate \<Rightarrow> (acpi_status \<times> addr \<times> addr \<times> ('c, 'd) ostate) option" where
  "update_subobjects env Action ob StateList s =
     (if op_Type ob \<in> {ACPI_TYPE_DEVICE, ACPI_TYPE_PROCESSOR, ACPI_TYPE_POWER, ACPI_TYPE_THERMAL}
      then (case update_notify env Action 0 (op_NotifyList ob ! 0) s of
              None \<Rightarrow> None
            | Some s \<Rightarrow> (case update_notify env Action 1 (op_NotifyList ob ! 1) s of
                           None \<Rightarrow> None | Some s \<Rightarrow> Some (AE_OK, 0, StateList, s)))
      else if op_Type ob = ACPI_TYPE_PACKAGE
      then (let es = (case op_Elements ob of None \<Rightarrow> [] | Some es \<Rightarrow> es)
            in if length es < unat (op_Count ob) then None
               else case update_elements env Action (take (unat (op_Count ob)) es) StateList s of
                      None \<Rightarrow> None
                    | Some (Status, StateList, s) \<Rightarrow> Some (Status, 0, StateList, s))
      else if op_Type ob = ACPI_TYPE_BUFFER_FIELD then Some (AE_OK, op_BufferObj ob, StateList, s)
      else if op_Type ob = ACPI_TYPE_LOCAL_BANK_FIELD
      then map_option (\<lambda>(Status, StateList, s). (Status, op_BankObj ob, StateList, s))
             (AcpiUtCreateUpdateStateAndPush env (op_RegionObj ob) Action StateList s)
      else if op_Type ob = ACPI_TYPE_LOCAL_INDEX_FIELD
      then map_option (\<lambda>(Status, StateList, s). (Status, op_IndexObj ob, StateList, s))
             (AcpiUtCreateUpdateStateAndPush env (op_DataObj ob) Action StateList s)
      else if op_Type ob = ACPI_TYPE_LOCAL_REFERENCE
      then Some (AE_OK, if op_Class ob = ACPI_REFCLASS_INDEX \<or> op_Class ob = ACPI_REFCLASS_NAME then op_Object ob else 0, StateList, s)
      else Some (AE_OK, 0, StateList, s))"

text \<open>The loop at \<open>ErrorExit\<close>.\<close>

partial_function (option) free_states :: "('c, 'd) op_env \<Rightarrow> addr \<Rightarrow> ('c, 'd) ostate \<Rightarrow> ('c, 'd) ostate option" where
  "free_states env StateList s =
     (if StateList \<noteq> 0
      then case AcpiUtPopGenericState StateList (SHeap s) of
             None \<Rightarrow> None
           | Some (St, StateList) \<Rightarrow>
               (case AcpiUtDeleteGenericState (st_rel env) St (SCache s) (SHeap s) of
                  (c, h) \<Rightarrow> free_states env StateList (s\<lparr>SCache := c, SHeap := h\<rparr>))
      else Some s)"

partial_function (option) update_loop ::
  "('c, 'd) op_env \<Rightarrow> u16 \<Rightarrow> addr \<Rightarrow> addr \<Rightarrow> ('c, 'd) ostate \<Rightarrow> (acpi_status \<times> ('c, 'd) ostate) option" where
  "update_loop env Action Obj StateList s =
     (if Obj \<noteq> 0
      then case objects s Obj of
             None \<Rightarrow> None
           | Some ob \<Rightarrow>
               if op_DescriptorType ob = ACPI_DESC_TYPE_NAMED then Some (AE_OK, s)
               else (case update_subobjects env Action ob StateList s of
                       None \<Rightarrow> None
                     | Some (Status, NextObject, StateList, s) \<Rightarrow>
                         if ACPI_FAILURE Status
                         then map_option (Pair Status) (free_states env StateList s)
                         else (case AcpiUtUpdateRefCount env Obj Action s of
                                 None \<Rightarrow> None
                               | Some s \<Rightarrow>
                                   if NextObject \<noteq> 0 then update_loop env Action NextObject StateList s
                                   else if StateList \<noteq> 0
                                   then (case AcpiUtPopGenericState StateList (SHeap s) of
                                           None \<Rightarrow> None
                                         | Some (St, StateList) \<Rightarrow>
                                             (case live (SHeap s) St of
                                                None \<Rightarrow> None
                                              | Some u \<Rightarrow>
                                                  (case AcpiUtDeleteGenericState (st_rel env) St (SCache s) (SHeap s) of
                                                     (c, h) \<Rightarrow> update_loop env Action (Update_Object u) StateList
                                                                 (s\<lparr>SCache := c, SHeap := h\<rparr>))))
                                   else update_loop env Action 0 StateList s))
      else Some (AE_OK, s))"

definition AcpiUtUpdateObjectReference ::
  "('c, 'd) op_env \<Rightarrow> addr \<Rightarrow> u16 \<Rightarrow> ('c, 'd) ostate \<Rightarrow> (acpi_status \<times> ('c, 'd) ostate) option" where
  "AcpiUtUpdateObjectReference env Obj Action s = update_loop env Action Obj 0 s"

definition AcpiUtAddReference :: "('c, 'd) op_env \<Rightarrow> addr \<Rightarrow> ('c, 'd) ostate \<Rightarrow> ('c, 'd) ostate option" where
  "AcpiUtAddReference env Obj s =
     (case AcpiUtValidInternalObject Obj s of
        None \<Rightarrow> None
      | Some valid \<Rightarrow> if \<not> valid then Some s
                      else map_option snd (AcpiUtUpdateObjectReference env Obj REF_INCREMENT s))"

definition AcpiUtRemoveReference :: "('c, 'd) op_env \<Rightarrow> addr \<Rightarrow> ('c, 'd) ostate \<Rightarrow> ('c, 'd) ostate option" where
  "AcpiUtRemoveReference env Obj s =
     (if Obj = 0 then Some s
      else case objects s Obj of
             None \<Rightarrow> None
           | Some ob \<Rightarrow>
               if op_DescriptorType ob = ACPI_DESC_TYPE_NAMED then Some s
               else (case AcpiUtValidInternalObject Obj s of
                       None \<Rightarrow> None
                     | Some valid \<Rightarrow> if \<not> valid then Some s
                                     else map_option snd (AcpiUtUpdateObjectReference env Obj REF_DECREMENT s)))"

text \<open>The null-terminated list of objects is freed after the loop.\<close>

fun AcpiUtDeleteInternalObjectList :: "('c, 'd) op_env \<Rightarrow> addr list \<Rightarrow> ('c, 'd) ostate \<Rightarrow> ('c, 'd) ostate option" where
  "AcpiUtDeleteInternalObjectList env [] s = None"
| "AcpiUtDeleteInternalObjectList env (InternalObj # os) s =
     (if InternalObj = 0 then Some s
      else case AcpiUtRemoveReference env InternalObj s of
             None \<Rightarrow> None | Some s \<Rightarrow> AcpiUtDeleteInternalObjectList env os s)"

section \<open>Creation\<close>

definition AcpiUtCreatePackageObject :: "('c, 'd) op_env \<Rightarrow> u32 \<Rightarrow> ('c, 'd) ostate \<Rightarrow> (addr \<times> ('c, 'd) ostate) option" where
  "AcpiUtCreatePackageObject env Count s =
     (case AcpiUtCreateInternalObjectDbg env ACPI_TYPE_PACKAGE s of
        None \<Rightarrow> None
      | Some (PackageDesc, s) \<Rightarrow>
          if PackageDesc = 0 then Some (0, s)
          else let n = unat Count + 1
               in if \<not> op_alloc env (8 * n) s then Some (0, s\<lparr>OHeap := (OHeap s)(PackageDesc := None)\<rparr>)
                  else map_option (Pair PackageDesc)
                         (set_op PackageDesc (\<lambda>ob. ob\<lparr>op_Count := Count, op_Elements := Some (replicate n 0)\<rparr>) s))"

definition AcpiUtCreateIntegerObject :: "('c, 'd) op_env \<Rightarrow> u64 \<Rightarrow> ('c, 'd) ostate \<Rightarrow> (addr \<times> ('c, 'd) ostate) option" where
  "AcpiUtCreateIntegerObject env InitialValue s =
     (case AcpiUtCreateInternalObjectDbg env ACPI_TYPE_INTEGER s of
        None \<Rightarrow> None
      | Some (IntegerDesc, s) \<Rightarrow>
          if IntegerDesc = 0 then Some (0, s)
          else map_option (Pair IntegerDesc) (set_op IntegerDesc (\<lambda>ob. ob\<lparr>op_Value := InitialValue\<rparr>) s))"

text \<open>Sizes are those of \<open>ACPI_SIZE\<close> arguments that the callers compute without overflow; the length member has 32 bits.\<close>

definition AcpiUtCreateBufferObject :: "('c, 'd) op_env \<Rightarrow> nat \<Rightarrow> ('c, 'd) ostate \<Rightarrow> (addr \<times> ('c, 'd) ostate) option" where
  "AcpiUtCreateBufferObject env BufferSize s =
     (case AcpiUtCreateInternalObjectDbg env ACPI_TYPE_BUFFER s of
        None \<Rightarrow> None
      | Some (BufferDesc, s) \<Rightarrow>
          if BufferDesc = 0 then Some (0, s)
          else if BufferSize > 0 \<and> \<not> op_alloc env BufferSize s
          then map_option (Pair 0) (AcpiUtRemoveReference env BufferDesc s)
          else map_option (Pair BufferDesc)
                 (set_op BufferDesc (\<lambda>ob. ob\<lparr>op_Flags := op_Flags ob OR AOPOBJ_DATA_VALID,
                    op_Pointer := (if BufferSize > 0 then Some (replicate BufferSize 0) else None),
                    op_Length := of_nat BufferSize\<rparr>) s))"

definition AcpiUtCreateStringObject :: "('c, 'd) op_env \<Rightarrow> nat \<Rightarrow> ('c, 'd) ostate \<Rightarrow> (addr \<times> ('c, 'd) ostate) option" where
  "AcpiUtCreateStringObject env StringSize s =
     (case AcpiUtCreateInternalObjectDbg env ACPI_TYPE_STRING s of
        None \<Rightarrow> None
      | Some (StringDesc, s) \<Rightarrow>
          if StringDesc = 0 then Some (0, s)
          else if \<not> op_alloc env (StringSize + 1) s
          then map_option (Pair 0) (AcpiUtRemoveReference env StringDesc s)
          else map_option (Pair StringDesc)
                 (set_op StringDesc (\<lambda>ob. ob\<lparr>op_Pointer := Some (replicate (StringSize + 1) 0),
                    op_Length := of_nat StringSize\<rparr>) s))"

section \<open>The objects that a count covers\<close>

text \<open>
  The sub-objects of an object, whose counts change with its own, and the unfolding of the graph of objects from an object on. An object
  that is reached in several ways occurs several times in the unfolding. A tree exists exactly if no object reaches itself.
\<close>

definition subobjects :: "operand_object \<Rightarrow> addr list" where
  "subobjects ob = filter (\<lambda>a. a \<noteq> 0)
     (if op_Type ob = ACPI_TYPE_PACKAGE then take (unat (op_Count ob)) (case op_Elements ob of None \<Rightarrow> [] | Some es \<Rightarrow> es)
      else if op_Type ob = ACPI_TYPE_BUFFER_FIELD then [op_BufferObj ob]
      else if op_Type ob = ACPI_TYPE_LOCAL_BANK_FIELD then [op_BankObj ob, op_RegionObj ob]
      else if op_Type ob = ACPI_TYPE_LOCAL_INDEX_FIELD then [op_IndexObj ob, op_DataObj ob]
      else if op_Type ob = ACPI_TYPE_LOCAL_REFERENCE \<and> (op_Class ob = ACPI_REFCLASS_INDEX \<or> op_Class ob = ACPI_REFCLASS_NAME)
      then [op_Object ob] else [])"

lemma simple_subobjects:
  assumes "op_Type ob = ACPI_TYPE_INTEGER \<or> op_Type ob = ACPI_TYPE_STRING \<or> op_Type ob = ACPI_TYPE_BUFFER"
  shows "subobjects ob = []"
  using assms
  by (elim disjE) (simp_all add: subobjects_def ACPI_TYPE_INTEGER_def ACPI_TYPE_STRING_def ACPI_TYPE_BUFFER_def ACPI_TYPE_PACKAGE_def
      ACPI_TYPE_BUFFER_FIELD_def ACPI_TYPE_LOCAL_BANK_FIELD_def ACPI_TYPE_LOCAL_INDEX_FIELD_def ACPI_TYPE_LOCAL_REFERENCE_def)

text \<open>An object as the code makes it: an operand, with the elements it counts and without notify handlers.\<close>

definition object_ok :: "operand_object \<Rightarrow> bool" where
  "object_ok ob \<longleftrightarrow> op_DescriptorType ob = ACPI_DESC_TYPE_OPERAND
     \<and> (op_Type ob = ACPI_TYPE_PACKAGE \<longrightarrow> unat (op_Count ob) \<le> length (case op_Elements ob of None \<Rightarrow> [] | Some es \<Rightarrow> es))
     \<and> op_NotifyList ob = [0, 0]"

datatype object_tree = OT (root: addr) (subtrees: "object_tree list")

fun visits :: "object_tree \<Rightarrow> addr list" where
  "visits (OT a ts) = a # concat (map visits ts)"

fun unfolds :: "(addr \<Rightarrow> operand_object option) \<Rightarrow> object_tree \<Rightarrow> bool" where
  "unfolds L (OT a ts) \<longleftrightarrow> a \<noteq> 0 \<and> (\<exists>ob. L a = Some ob \<and> object_ok ob \<and> map root ts = subobjects ob) \<and> (\<forall>t \<in> set ts. unfolds L t)"

text \<open>How often an object is counted for a list of trees.\<close>

definition occ :: "object_tree list \<Rightarrow> addr \<Rightarrow> nat" where
  "occ ts = count_list (concat (map visits ts))"

lemma occ_simps [simp]:
  "occ [] b = 0"
  "occ (t # ts) b = count_list (visits t) b + occ ts b"
  "occ (ts @ us) b = occ ts b + occ us b"
  "occ (rev ts) b = occ ts b"
proof -
  show "occ (rev ts) b = occ ts b" by (induction ts) (simp_all add: occ_def)
qed (simp_all add: occ_def)

lemma count_visits [simp]: "count_list (visits (OT a ts)) b = (if a = b then 1 else 0) + occ ts b"
  by (simp add: occ_def)

declare visits.simps [simp del]

lemma visits_root [simp]: "a \<in> set (visits (OT a ts))" and visits_sub: "t \<in> set ts \<Longrightarrow> b \<in> set (visits t) \<Longrightarrow> b \<in> set (visits (OT a ts))"
  by (auto simp: visits.simps)

lemma count_list_pos: "0 < count_list xs x \<longleftrightarrow> x \<in> set xs"
  by (simp add: count_list_0_iff flip: neq0_conv)

lemma occ_pos: "0 < occ ts b \<longleftrightarrow> (\<exists>t \<in> set ts. b \<in> set (visits t))"
  by (simp add: occ_def count_list_pos)

lemma root_visits [simp]: "root t \<in> set (visits t)"
  by (cases t) simp

section \<open>The effect on the counts\<close>

text \<open>The objects whose deletion concerns no other object and no host object outside of the heaps.\<close>

definition plain :: "operand_object \<Rightarrow> bool" where
  "plain ob \<longleftrightarrow> op_Type ob \<notin> {ACPI_TYPE_DEVICE, ACPI_TYPE_PROCESSOR, ACPI_TYPE_THERMAL, ACPI_TYPE_MUTEX, ACPI_TYPE_REGION,
     ACPI_TYPE_METHOD, ACPI_TYPE_BUFFER_FIELD, ACPI_TYPE_LOCAL_BANK_FIELD}"

text \<open>An object after \<open>n\<close> updates of its count; \<open>None\<close> once it is deleted.\<close>

definition counted :: "u16 \<Rightarrow> nat \<Rightarrow> operand_object \<Rightarrow> operand_object option" where
  "counted Action n ob =
     (if n = 0 then Some ob
      else if Action = REF_INCREMENT then Some (ob\<lparr>op_ReferenceCount := op_ReferenceCount ob + of_nat n\<rparr>)
      else if n = unat (op_ReferenceCount ob) then None
      else Some (ob\<lparr>op_ReferenceCount := op_ReferenceCount ob - of_nat n\<rparr>))"

text \<open>There is room for \<open>n\<close> updates: the count does not wrap, and only plain objects are deleted.\<close>

definition room :: "u16 \<Rightarrow> nat \<Rightarrow> operand_object \<Rightarrow> bool" where
  "room Action n ob \<longleftrightarrow> n = 0 \<or> (if Action = REF_INCREMENT then unat (op_ReferenceCount ob) + n < 2 ^ 16
     else Action = REF_DECREMENT \<and> n \<le> unat (op_ReferenceCount ob) \<and> (n = unat (op_ReferenceCount ob) \<longrightarrow> plain ob))"

definition counts :: "u16 \<Rightarrow> (addr \<Rightarrow> nat) \<Rightarrow> (addr \<Rightarrow> operand_object option) \<Rightarrow> addr \<Rightarrow> operand_object option" where
  "counts Action f L a = Option.bind (L a) (counted Action (f a))"

definition roomy :: "u16 \<Rightarrow> (addr \<Rightarrow> nat) \<Rightarrow> (addr \<Rightarrow> operand_object option) \<Rightarrow> bool" where
  "roomy Action f L \<longleftrightarrow> (\<forall>a ob. L a = Some ob \<longrightarrow> room Action (f a) ob)"

text \<open>An element that \<open>update_elements\<close> puts on the list.\<close>

definition complex_at :: "(addr \<Rightarrow> operand_object option) \<Rightarrow> addr \<Rightarrow> bool" where
  "complex_at L a \<longleftrightarrow> a \<noteq> 0 \<and> (\<exists>ob. L a = Some ob \<and> op_Type ob \<notin> {ACPI_TYPE_INTEGER, ACPI_TYPE_STRING, ACPI_TYPE_BUFFER})"

lemma counted_0 [simp]: "counted A 0 ob = Some ob"
  by (simp add: counted_def)

lemma actions [simp]: "REF_INCREMENT \<noteq> REF_DECREMENT" "REF_DECREMENT \<noteq> REF_INCREMENT"
  by (simp_all add: REF_INCREMENT_def REF_DECREMENT_def)

lemma unat_sub_nat16: "n \<le> unat x \<Longrightarrow> unat (x - of_nat n) = unat x - n" for x :: u16
  using unat_lt16 [of x] by (subst unat_sub) (simp_all add: word_le_nat_alt unat_of_nat)

lemma counted_add:
  assumes "room A (m + n) ob"
  shows "Option.bind (counted A m ob) (counted A n) = counted A (m + n) ob"
    and "counted A m ob = Some ob' \<Longrightarrow> room A n ob'"
proof -
  consider "n = 0" | "m = 0" | (inc) "0 < m" "0 < n" "A = REF_INCREMENT" | (dec) "0 < m" "0 < n" "A = REF_DECREMENT"
    using assms by (auto simp: room_def split: if_splits)
  then have "Option.bind (counted A m ob) (counted A n) = counted A (m + n) ob \<and> (counted A m ob = Some ob' \<longrightarrow> room A n ob')"
  proof cases
    case inc
    then have "unat (op_ReferenceCount ob) + (m + n) < 2 ^ 16" using assms by (simp add: room_def)
    then show ?thesis
      using inc by (auto simp: counted_def room_def unat_add_nowrap unat_of_nat_lt)
  next
    case dec
    then have "m + n \<le> unat (op_ReferenceCount ob)" "m + n = unat (op_ReferenceCount ob) \<longrightarrow> plain ob"
      using assms by (simp_all add: room_def)
    moreover define r where "r = unat (op_ReferenceCount ob)"
    ultimately have mn: "m + n \<le> r" and p: "m + n = r \<longrightarrow> plain ob" and r: "unat (op_ReferenceCount ob - of_nat m) = r - m"
      by (simp_all add: unat_sub_nat16)
    let ?ob = "ob\<lparr>op_ReferenceCount := op_ReferenceCount ob - of_nat m\<rparr>"
    have c: "counted A m ob = Some ?ob" using dec mn by (simp add: counted_def flip: r_def)
    have "plain ?ob = plain ob" by (simp add: plain_def)
    then have "room A n ?ob" using dec mn p r by (simp add: room_def)
    moreover have "n = r - m \<longleftrightarrow> m + n = r" using mn by linarith
    then have "counted A n ?ob = counted A (m + n) ob"
      using dec r by (simp add: counted_def diff_diff_eq flip: r_def)
    ultimately show ?thesis using c by auto
  next
    case 2
    then show ?thesis using assms by auto
  next
    case 1
    then show ?thesis by (cases "counted A m ob") (simp_all add: room_def)
  qed
  then show "Option.bind (counted A m ob) (counted A n) = counted A (m + n) ob"
    and "counted A m ob = Some ob' \<Longrightarrow> room A n ob'" by simp_all
qed

lemma counts_add: "roomy A (\<lambda>a. f a + g a) L \<Longrightarrow> counts A g (counts A f L) = counts A (\<lambda>a. f a + g a) L"
proof (rule ext)
  fix x assume "roomy A (\<lambda>a. f a + g a) L"
  then show "counts A g (counts A f L) x = counts A (\<lambda>a. f a + g a) L x"
    by (cases "L x") (simp_all add: counts_def roomy_def counted_add(1))
qed

lemma roomy_counts: "roomy A (\<lambda>a. f a + g a) L \<Longrightarrow> roomy A g (counts A f L)"
  using counted_add(2) by (fastforce simp: roomy_def counts_def bind_eq_Some_conv)

lemma counts_0 [simp]: "counts A (\<lambda>_. 0) L = L"
proof (rule ext)
  show "counts A (\<lambda>_. 0) L x = L x" for x by (cases "L x") (simp_all add: counts_def)
qed

lemma counted_shape: "counted A n ob = Some ob' \<Longrightarrow> \<exists>m. ob' = ob\<lparr>op_ReferenceCount := m\<rparr>"
  by (auto simp: counted_def split: if_splits intro: exI [of _ "op_ReferenceCount ob"])

lemma counted_live: "room A (m + n) ob \<Longrightarrow> 0 < n \<Longrightarrow> counted A m ob \<noteq> None"
  by (auto simp: room_def counted_def split: if_splits)

lemma object_ok_count [simp]: "object_ok (ob\<lparr>op_ReferenceCount := m\<rparr>) = object_ok ob"
  by (simp add: object_ok_def)

lemma subobjects_count [simp]: "subobjects (ob\<lparr>op_ReferenceCount := m\<rparr>) = subobjects ob"
  unfolding subobjects_def by (simp cong: if_cong)

text \<open>As long as some occurrence of the objects is still to be counted, the unfolding stays.\<close>

lemma unfolds_cong:
  "unfolds L t \<Longrightarrow> (\<And>b ob. b \<in> set (visits t) \<Longrightarrow> L b = Some ob \<Longrightarrow> \<exists>m. L' b = Some (ob\<lparr>op_ReferenceCount := m\<rparr>)) \<Longrightarrow> unfolds L' t"
proof (induction L t rule: unfolds.induct)
  case (1 L a ts)
  then obtain ob where ob: "L a = Some ob" "object_ok ob" "map root ts = subobjects ob" "a \<noteq> 0" by auto
  then obtain m where "L' a = Some (ob\<lparr>op_ReferenceCount := m\<rparr>)" using "1.prems"(2) [of a ob] by auto
  moreover have "unfolds L' t" if "t \<in> set ts" for t
  proof (rule "1.IH" [OF that])
    show "unfolds L t" using "1.prems"(1) that by simp
    show "\<exists>m. L' b = Some (ob\<lparr>op_ReferenceCount := m\<rparr>)" if b: "b \<in> set (visits t)" "L b = Some ob" for b ob
      using "1.prems"(2) [OF _ b(2)] visits_sub [OF \<open>t \<in> set ts\<close> b(1)] by blast
  qed
  ultimately show ?case using ob by auto
qed

lemma unfolds_counts:
  assumes "unfolds L t" and "roomy A (\<lambda>a. f a + g a) L" and "\<And>b. b \<in> set (visits t) \<Longrightarrow> 0 < g b"
  shows "unfolds (counts A f L) t"
proof (rule unfolds_cong [OF assms(1)])
  fix b ob assume b: "b \<in> set (visits t)" and ob: "L b = Some ob"
  then have "room A (f b + g b) ob" using assms(2) by (simp add: roomy_def)
  then obtain ob' where "counted A (f b) ob = Some ob'" using counted_live assms(3) [OF b] by blast
  then show "\<exists>m. counts A f L b = Some (ob\<lparr>op_ReferenceCount := m\<rparr>)"
    using counted_shape ob by (auto simp: counts_def)
qed

lemma room_mono: "room A n ob \<Longrightarrow> m \<le> n \<Longrightarrow> room A m ob"
  by (auto simp: room_def split: if_splits)

lemma roomy_mono: "roomy A g L \<Longrightarrow> (\<And>b. f b \<le> g b) \<Longrightarrow> roomy A f L"
  unfolding roomy_def using room_mono by blast

text \<open>After \<open>f\<close> has been counted, trees that are still to be counted are as before.\<close>

lemma unfolds_after:
  assumes "\<forall>t \<in> set us. unfolds L t" and "roomy A (\<lambda>b. f b + (occ us b + g b)) L"
  shows "\<forall>t \<in> set us. unfolds (counts A f L) t"
  using assms unfolds_counts [OF _ assms(2)] by (metis add_gr_0 occ_pos)

definition work :: "object_tree list \<Rightarrow> nat" where
  "work ts = length (concat (map visits ts))"

lemma work_simps [simp]:
  "work [] = 0" "work (OT a ts # us) = Suc (work ts + work us)" "work (ts @ us) = work ts + work us"
  by (simp_all add: work_def visits.simps)

lemma length_work: "length ts \<le> work ts"
proof (induction ts)
  case (Cons t ts)
  then show ?case by (cases t) simp
qed simp

lemma unfoldsE:
  assumes "unfolds L t"
  obtains ob where "L (root t) = Some ob" "object_ok ob" "map root (subtrees t) = subobjects ob" "root t \<noteq> 0"
    "\<forall>u \<in> set (subtrees t). unfolds L u"
  using assms by (cases t) auto

text \<open>A new object of a type.\<close>

definition new_operand :: "u8 \<Rightarrow> operand_object" where
  "new_operand Type = zero_operand\<lparr>op_DescriptorType := ACPI_DESC_TYPE_OPERAND, op_Type := Type, op_ReferenceCount := 1\<rparr>"

lemmas simple_types = ACPI_TYPE_INTEGER_def ACPI_TYPE_STRING_def ACPI_TYPE_BUFFER_def ACPI_TYPE_PACKAGE_def ACPI_TYPE_REGION_def
  ACPI_TYPE_BUFFER_FIELD_def ACPI_TYPE_LOCAL_BANK_FIELD_def ACPI_TYPE_DEVICE_def ACPI_TYPE_PROCESSOR_def ACPI_TYPE_THERMAL_def
  ACPI_TYPE_MUTEX_def ACPI_TYPE_METHOD_def

lemma new_operand_ok:
  assumes "Type \<in> {ACPI_TYPE_INTEGER, ACPI_TYPE_STRING, ACPI_TYPE_BUFFER}"
  shows "object_ok (new_operand Type)" "subobjects (new_operand Type) = []" "plain (new_operand Type)" "op_ReferenceCount (new_operand Type) = 1"
    and "Type \<notin> {ACPI_TYPE_REGION, ACPI_TYPE_BUFFER_FIELD, ACPI_TYPE_LOCAL_BANK_FIELD}"
proof -
  show "subobjects (new_operand Type) = []" using assms by (intro simple_subobjects) (auto simp: new_operand_def)
  show "object_ok (new_operand Type)" "plain (new_operand Type)" "op_ReferenceCount (new_operand Type) = 1"
    and "Type \<notin> {ACPI_TYPE_REGION, ACPI_TYPE_BUFFER_FIELD, ACPI_TYPE_LOCAL_BANK_FIELD}"
    using assms by (auto simp: new_operand_def object_ok_def plain_def zero_operand_def simple_types)
qed

section \<open>The counting of one object\<close>

text \<open>
  A pool of states with a stock: as long as it has states in stock, a state is created, and a creation takes at most one from it.
\<close>

locale stocked_pool = state_pool inv acquire release
  for inv :: "'d \<Rightarrow> sheap \<Rightarrow> bool" and acquire :: "'d acquire" and release :: "'d release" +
  fixes stock :: "'d \<Rightarrow> nat"
  assumes stock_acquire: "inv c h \<Longrightarrow> acquire c h = Some (a, c', h') \<Longrightarrow> stock c \<le> stock c' + 1 \<and> (a = 0 \<longrightarrow> stock c = 0)"
    and stock_release: "inv c h \<Longrightarrow> live h a \<noteq> None \<Longrightarrow> release a c h = (c', h') \<Longrightarrow> stock c \<le> stock c'"

text \<open>What the reference counting relies on: a cache of operand objects and one of states.\<close>

locale operand_store =
    ops: object_cache oinv zero_operand "op_acq env" "op_rel env" + sts: stocked_pool sinv "st_acq env" "st_rel env" stock
  for oinv :: "'c \<Rightarrow> oheap \<Rightarrow> bool" and sinv :: "'d \<Rightarrow> sheap \<Rightarrow> bool" and env :: "('c, 'd) op_env" and stock :: "'d \<Rightarrow> nat"
begin

definition ok :: "('c, 'd) ostate \<Rightarrow> bool" where
  "ok s \<longleftrightarrow> oinv (OCache s) (OHeap s) \<and> sinv (SCache s) (SHeap s)"

lemma set_op_ok:
  assumes "ok s" and "objects s a = Some ob"
  shows "\<exists>s'. set_op a f s = Some s' \<and> ok s' \<and> objects s' = (objects s)(a \<mapsto> f ob) \<and> SCache s' = SCache s \<and> SHeap s' = SHeap s"
  using assms ops.write_inv [of "OCache s" "OHeap s" a "f ob"] by (simp add: set_op_def ok_def)

lemma delete_desc_ok:
  assumes "ok s" and "objects s a = Some ob" and "op_DescriptorType ob = ACPI_DESC_TYPE_OPERAND"
  shows "\<exists>s'. AcpiUtDeleteObjectDesc env a s = Some s' \<and> ok s' \<and> objects s' = (objects s)(a := None)
    \<and> SCache s' = SCache s \<and> SHeap s' = SHeap s"
proof -
  obtain c h where r: "op_rel env a (OCache s) (OHeap s) = (c, h)" by force
  have "oinv (OCache s) (OHeap s)" "live (OHeap s) a \<noteq> None" using assms by (simp_all add: ok_def)
  from ops.release_inv [OF this r] ops.release_live [OF this r] show ?thesis
    using assms r by (simp add: AcpiUtDeleteObjectDesc_def ok_def)
qed

lemma update_count:
  assumes s: "ok s" "objects s a = Some ob" and ob: "object_ok ob" "room A 1 ob"
  shows "\<exists>s'. AcpiUtUpdateRefCount env a A s = Some s' \<and> ok s' \<and> objects s' = counts A (\<lambda>b. if a = b then 1 else 0) (objects s)
    \<and> SCache s' = SCache s \<and> SHeap s' = SHeap s"
proof -
  have "a \<noteq> 0" using s ops.null_dead by (auto simp: ok_def)
  have upd: "counts A (\<lambda>b. if a = b then 1 else 0) (objects s) = (objects s)(a := counted A 1 ob)"
  proof (rule ext)
    show "counts A (\<lambda>b. if a = b then 1 else 0) (objects s) x = ((objects s)(a := counted A 1 ob)) x" for x
      using s(2) by (cases "objects s x") (auto simp: counts_def)
  qed
  show ?thesis
  proof (cases "A = REF_INCREMENT")
    case True
    then show ?thesis
      using set_op_ok [OF s, of "\<lambda>ob'. ob'\<lparr>op_ReferenceCount := op_ReferenceCount ob + 1\<rparr>"] \<open>a \<noteq> 0\<close> s(2)
      unfolding upd by (simp add: AcpiUtUpdateRefCount_def counted_def)
  next
    case False
    with ob(2) have A: "A = REF_DECREMENT" and n: "1 \<le> unat (op_ReferenceCount ob)"
        and p: "unat (op_ReferenceCount ob) = 1 \<Longrightarrow> plain ob" by (auto simp: room_def)
    have nz: "op_ReferenceCount ob \<noteq> 0" using n by auto
    let ?ob = "ob\<lparr>op_ReferenceCount := op_ReferenceCount ob - 1\<rparr>"
    obtain s1 where s1: "set_op a (\<lambda>ob'. ob'\<lparr>op_ReferenceCount := op_ReferenceCount ob - 1\<rparr>) s = Some s1" "ok s1"
        "objects s1 = (objects s)(a \<mapsto> ?ob)" "SCache s1 = SCache s" "SHeap s1 = SHeap s"
      using set_op_ok [OF s, of "\<lambda>ob'. ob'\<lparr>op_ReferenceCount := op_ReferenceCount ob - 1\<rparr>"] by blast
    show ?thesis
    proof (cases "op_ReferenceCount ob = 1")
      case True
      have "objects s1 a = Some ?ob" using s1(3) by simp
      from delete_desc_ok [OF s1(2) this] obtain s2 where s2: "AcpiUtDeleteObjectDesc env a s1 = Some s2" "ok s2"
          "objects s2 = (objects s1)(a := None)" "SCache s2 = SCache s1" "SHeap s2 = SHeap s1"
        using ob(1) by (auto simp: object_ok_def)
      have "AcpiUtDeleteInternalObj env a s1 = Some s2"
        using p True s1(3) s2(1) \<open>a \<noteq> 0\<close> by (simp add: AcpiUtDeleteInternalObj_def plain_def)
      then show ?thesis
        using True A s1 s2 s(2) \<open>a \<noteq> 0\<close> unfolding upd by (simp add: AcpiUtUpdateRefCount_def counted_def)
    next
      case False
      then have "op_ReferenceCount ob - 1 \<noteq> 0" "unat (op_ReferenceCount ob) \<noteq> 1" by (simp, simp add: word_unat_eq_iff)
      then show ?thesis
        using A nz s1 s(2) \<open>a \<noteq> 0\<close> unfolding upd by (simp add: AcpiUtUpdateRefCount_def counted_def)
    qed
  qed
qed

text \<open>
  The list of states: the objects that are still to be counted, each with its unfolding. What the heap of states has besides
  the list is \<open>besides\<close>.
\<close>

definition stack :: "('c, 'd) ostate \<Rightarrow> addr \<Rightarrow> addr list \<Rightarrow> object_tree list \<Rightarrow> bool" where
  "stack s p as ts \<longleftrightarrow> slist (SHeap s) p as \<and> distinct as
     \<and> map (\<lambda>a. map_option Update_Object (live (SHeap s) a)) as = map (\<lambda>t. Some (root t)) ts"

definition besides :: "('c, 'd) ostate \<Rightarrow> addr list \<Rightarrow> addr \<Rightarrow> generic_state option" where
  "besides s as a = (if a \<in> set as then None else live (SHeap s) a)"

lemma create_with_acquired:
  "create_with (AcpiUtCreateGenericState acq) f c h = Some (a, c', h') \<Longrightarrow> \<exists>h''. acq c h = Some (a, c', h'')"
  by (auto simp: create_with_def AcpiUtCreateGenericState_def split: option.splits if_splits)

lemma push_update:
  assumes "ok s" and st: "stack s p as us" and "Obj \<noteq> 0" and "root t = Obj"
  shows "\<exists>st p' s'. AcpiUtCreateUpdateStateAndPush env Obj A p s = Some (st, p', s') \<and> ok s' \<and> objects s' = objects s
    \<and> (st = AE_OK \<and> (\<exists>a. stack s' p' (a # as) (t # us) \<and> besides s' (a # as) = besides s as)
           \<and> stock (SCache s) \<le> Suc (stock (SCache s'))
       \<or> st = AE_NO_MEMORY \<and> stock (SCache s) = 0 \<and> stack s' p' as us \<and> besides s' as = besides s as)"
proof -
  let ?f = "\<lambda>s :: generic_state. s\<lparr>DescriptorType := ACPI_DESC_TYPE_STATE_UPDATE, Update_Object := Obj, Value := A\<rparr>"
  let ?u = "?f (zero_state\<lparr>DescriptorType := ACPI_DESC_TYPE_STATE\<rparr>)"
  have inv: "sinv (SCache s) (SHeap s)" using assms(1) by (simp add: ok_def)
  from sts.create_with_state [OF this, of ?f] obtain a c h
    where a: "create_with (AcpiUtCreateGenericState (st_acq env)) ?f (SCache s) (SHeap s) = Some (a, c, h)" and inv': "sinv c h"
      and null: "a = 0 \<longrightarrow> live h = live (SHeap s)" and new: "a \<noteq> 0 \<longrightarrow> live (SHeap s) a = None \<and> live h = (live (SHeap s))(a \<mapsto> ?u)"
    by blast
  let ?s = "s\<lparr>SCache := c, SHeap := h\<rparr>"
  have ok': "ok ?s" using assms(1) inv' by (simp add: ok_def)
  obtain h0 where "st_acq env (SCache s) (SHeap s) = Some (a, c, h0)" using create_with_acquired [OF a] by blast
  from sts.stock_acquire [OF inv this] have stock: "stock (SCache s) \<le> stock c + 1" "a = 0 \<longrightarrow> stock (SCache s) = 0" by simp_all
  have cong: "slist h' p as" "map (\<lambda>a. map_option Update_Object (live h' a)) as = map (\<lambda>t. Some (root t)) us"
    if "\<And>b. b \<in> set as \<Longrightarrow> live h' b = live (SHeap s) b" for h'
    using st slist_cong [of as h' "SHeap s" p, OF that] that by (auto simp: stack_def cong: map_cong)
  show ?thesis
  proof (cases "a = 0")
    case True
    have "stack ?s p as us" "besides ?s as = besides s as"
      using True null st cong [of h] by (auto simp: stack_def besides_def fun_eq_iff)
    then show ?thesis
      using True a ok' assms(3) stock by (simp add: AcpiUtCreateUpdateStateAndPush_def AcpiUtCreateUpdateState_def)
  next
    case False
    with new have n: "live (SHeap s) a = None" "live h = (live (SHeap s))(a \<mapsto> ?u)" by simp_all
    then have notin: "a \<notin> set as" using st slist_live [of "SHeap s" p as a] by (auto simp: stack_def)
    then have "slist h p as" using n(2) by (intro cong) auto
    from sts.push_state [OF inv' _ this notin, of ?u] obtain h2 where h2: "AcpiUtPushGenericState p a h = Some (h2, a)" "sinv c h2"
        "live h2 = (live h)(a \<mapsto> ?u\<lparr>Next := p\<rparr>)" "slist h2 a (a # as)"
      using n(2) by auto
    let ?s2 = "s\<lparr>SCache := c, SHeap := h2\<rparr>"
    have "live h2 b = live (SHeap s) b" if "b \<in> set as" for b using that notin h2(3) n(2) by auto
    from cong(2) [of h2, OF this] have "stack ?s2 a (a # as) (t # us)"
      using h2(3,4) notin st assms(4) by (simp add: stack_def)
    moreover have "besides ?s2 (a # as) = besides s as"
      using n h2(3) by (auto simp: besides_def fun_eq_iff)
    moreover have "ok ?s2" using assms(1) h2(2) by (simp add: ok_def)
    ultimately show ?thesis
      using False a h2(1) assms(3) stock by (auto simp: AcpiUtCreateUpdateStateAndPush_def AcpiUtCreateUpdateState_def)
  qed
qed

lemma pop_update:
  assumes "ok s" and st: "stack s p (a # as) (t # us)"
  shows "\<exists>u p' c h. p \<noteq> 0 \<and> AcpiUtPopGenericState p (SHeap s) = Some (a, p') \<and> live (SHeap s) a = Some u \<and> Update_Object u = root t
    \<and> AcpiUtDeleteGenericState (st_rel env) a (SCache s) (SHeap s) = (c, h)
    \<and> ok (s\<lparr>SCache := c, SHeap := h\<rparr>) \<and> stack (s\<lparr>SCache := c, SHeap := h\<rparr>) p' as us
    \<and> besides (s\<lparr>SCache := c, SHeap := h\<rparr>) as = besides s (a # as) \<and> stock (SCache s) \<le> stock c"
proof -
  have sl: "slist (SHeap s) p (a # as)" and d: "a \<notin> set as" "distinct as" using st by (simp_all add: stack_def)
  from pop_state [OF sl] obtain u where u: "live (SHeap s) a = Some u" "AcpiUtPopGenericState p (SHeap s) = Some (a, Next u)"
      "slist (SHeap s) (Next u) as" by blast
  have sinv: "sinv (SCache s) (SHeap s)" "live (SHeap s) a \<noteq> None" using assms(1) u by (simp_all add: ok_def)
  from sts.delete_state [OF this] obtain c h where h: "AcpiUtDeleteGenericState (st_rel env) a (SCache s) (SHeap s) = (c, h)"
      "sinv c h" "live h = (live (SHeap s))(a := None)" by blast
  have "a \<noteq> 0" using sl by simp
  then have "stock (SCache s) \<le> stock c" using sts.stock_release [OF sinv] h(1) by (simp add: AcpiUtDeleteGenericState_def)
  moreover
  have "slist h (Next u) as" using slist_other [OF u(3) h(3) d(1)] .
  moreover have "map (\<lambda>a. map_option Update_Object (live h a)) as = map (\<lambda>t. Some (root t)) us"
  proof -
    have "map (\<lambda>a. map_option Update_Object (live h a)) as = map (\<lambda>a. map_option Update_Object (live (SHeap s) a)) as"
      using h(3) d(1) by (intro map_cong) auto
    also have "\<dots> = map (\<lambda>t. Some (root t)) us" using st by (simp add: stack_def)
    finally show ?thesis .
  qed
  ultimately show ?thesis
    using u h assms(1) st sl d by (auto simp: ok_def stack_def besides_def fun_eq_iff)
qed

lemma stack_empty: "stack s p as ts \<Longrightarrow> p = 0 \<longleftrightarrow> as = []" and stack_length: "stack s p as ts \<Longrightarrow> length as = length ts"
proof -
  show "p = 0 \<longleftrightarrow> as = []" if "stack s p as ts" using that by (cases as) (auto simp: stack_def)
  show "length as = length ts" if "stack s p as ts"
    using that map_eq_imp_length_eq unfolding stack_def by blast
qed

lemma free_states_all:
  "ok s \<Longrightarrow> stack s p as ts \<Longrightarrow> \<exists>s'. free_states env p s = Some s' \<and> ok s' \<and> objects s' = objects s \<and> live (SHeap s') = besides s as"
proof (induction as arbitrary: s p ts)
  case Nil
  then show ?case by (subst free_states.simps) (auto simp: stack_empty besides_def fun_eq_iff)
next
  case (Cons a as)
  then obtain t us where ts: "ts = t # us" using stack_length by (cases ts) fastforce+
  from pop_update [OF Cons.prems(1) Cons.prems(2) [unfolded ts]] Cons.IH show ?case
    by (subst free_states.simps) fastforce
qed

section \<open>The counting of an object and all it refers to\<close>

lemma update_elements_count:
  "ok s \<Longrightarrow> stack s p as us \<Longrightarrow> map root ts = filter (\<lambda>a. a \<noteq> 0) es \<Longrightarrow> \<forall>t \<in> set ts. unfolds (objects s) t \<Longrightarrow>
     roomy A (\<lambda>b. occ ts b + g b) (objects s) \<Longrightarrow>
     \<exists>st p' s' as' cs f. update_elements env A es p s = Some (st, p', s') \<and> ok s' \<and> stack s' p' as' (cs @ us)
       \<and> besides s' as' = besides s as
       \<and> (st = AE_OK \<and> objects s' = counts A f (objects s) \<and> (\<forall>b. f b + occ cs b = occ ts b) \<and> set cs \<subseteq> set ts \<and> work cs \<le> work ts
            \<and> stock (SCache s) \<le> stock (SCache s') + length cs
          \<or> st = AE_NO_MEMORY \<and> stock (SCache s) < length ts)"
proof (induction es arbitrary: s p as us ts g)
  case Nil
  then show ?case by (intro exI [of _ AE_OK] exI [of _ p] exI [of _ s] exI [of _ as] exI [of _ "[]"] exI [of _ "\<lambda>_. 0"]) simp
next
  case (Cons e es)
  show ?case
  proof (cases "e = 0")
    case True
    then show ?thesis using Cons by simp
  next
    case False
    with Cons.prems(3) obtain t ts' where ts: "ts = t # ts'" "root t = e" "map root ts' = filter (\<lambda>a. a \<noteq> 0) es"
      by (cases ts) auto
    have "unfolds (objects s) t" and un: "\<forall>t \<in> set ts'. unfolds (objects s) t" using Cons.prems(4) ts(1) by simp_all
    then obtain ob where ob: "objects s e = Some ob" "object_ok ob" "map root (subtrees t) = subobjects ob"
      using ts(2) by (auto elim: unfoldsE)
    show ?thesis
    proof (cases "op_Type ob = ACPI_TYPE_INTEGER \<or> op_Type ob = ACPI_TYPE_STRING \<or> op_Type ob = ACPI_TYPE_BUFFER")
      case simple: True
      then have "subobjects ob = []" by (rule simple_subobjects)
      then have t: "t = OT e []" using ob(3) ts(2) by (cases t) simp
      let ?one = "\<lambda>b. if e = b then 1 else 0 :: nat"
      have room: "roomy A (\<lambda>b. ?one b + (occ ts' b + g b)) (objects s)"
        using Cons.prems(5) ts(1) t by (simp add: add.assoc cong: if_cong)
      then have "room A (?one e + (occ ts' e + g e)) ob" using ob(1) unfolding roomy_def by blast
      then have "room A 1 ob" by (rule room_mono) simp
      from update_count [OF Cons.prems(1) ob(1,2) this] obtain s1 where s1: "AcpiUtUpdateRefCount env e A s = Some s1" "ok s1"
          "objects s1 = counts A ?one (objects s)" "SCache s1 = SCache s" "SHeap s1 = SHeap s" by blast
      have st1: "stack s1 p as us" "besides s1 as = besides s as"
        using Cons.prems(2) unfolding stack_def besides_def [abs_def] s1(5) by blast+
      have "\<forall>t \<in> set ts'. unfolds (objects s1) t" "roomy A (\<lambda>b. occ ts' b + g b) (objects s1)"
        unfolding s1(3) using unfolds_after [OF un room] roomy_counts [OF room] by blast+
      from Cons.IH [OF s1(2) st1(1) ts(3) this] obtain st p' s' as' cs f where
        r: "update_elements env A es p s1 = Some (st, p', s')" "ok s'" "stack s' p' as' (cs @ us)" "besides s' as' = besides s1 as"
          "st = AE_OK \<and> objects s' = counts A f (objects s1) \<and> (\<forall>b. f b + occ cs b = occ ts' b) \<and> set cs \<subseteq> set ts' \<and> work cs \<le> work ts'
            \<and> stock (SCache s1) \<le> stock (SCache s') + length cs
          \<or> st = AE_NO_MEMORY \<and> stock (SCache s1) < length ts'" by blast
      have "objects s' = counts A (\<lambda>b. ?one b + f b) (objects s)"
        if "objects s' = counts A f (objects s1)" "\<forall>b. f b + occ cs b = occ ts' b"
      proof -
        have "f b \<le> occ ts' b" for b using that(2) by (metis le_add1)
        then have "roomy A (\<lambda>b. ?one b + f b) (objects s)"
          by (intro roomy_mono [OF room]) (simp add: trans_le_add1)
        from counts_add [OF this] show ?thesis unfolding that(1) s1(3) .
      qed
      moreover have "update_elements env A (e # es) p s = Some (st, p', s')"
        using False ob(1) simple s1(1) r(1) by simp
      ultimately show ?thesis
        using r(2-5) st1(2) ts(1) t s1(4)
        by (intro exI [of _ st] exI [of _ p'] exI [of _ s'] exI [of _ as'] exI [of _ cs] exI [of _ "\<lambda>b. ?one b + f b"]) auto
    next
      case complex: False
      from push_update [OF Cons.prems(1,2) False ts(2), of A] obtain st p1 s1 where
        p: "AcpiUtCreateUpdateStateAndPush env e A p s = Some (st, p1, s1)" "ok s1" "objects s1 = objects s"
          "st = AE_OK \<and> (\<exists>a. stack s1 p1 (a # as) (t # us) \<and> besides s1 (a # as) = besides s as)
             \<and> stock (SCache s) \<le> Suc (stock (SCache s1))
           \<or> st = AE_NO_MEMORY \<and> stock (SCache s) = 0 \<and> stack s1 p1 as us \<and> besides s1 as = besides s as" by blast
      from p(4) show ?thesis
      proof (elim disjE conjE exE)
        fix a assume stock: "stock (SCache s) \<le> Suc (stock (SCache s1))" and ok: "st = AE_OK" and st1: "stack s1 p1 (a # as) (t # us)" "besides s1 (a # as) = besides s as"
        have "roomy A (\<lambda>b. occ ts' b + (count_list (visits t) b + g b)) (objects s1)"
          using Cons.prems(5) ts(1) p(3) by (simp add: ac_simps)
        from Cons.IH [OF p(2) st1(1) ts(3) un [folded p(3)] this] obtain st' p' s' as' cs f where
          r: "update_elements env A es p1 s1 = Some (st', p', s')" "ok s'" "stack s' p' as' (cs @ t # us)"
            "besides s' as' = besides s1 (a # as)"
            "st' = AE_OK \<and> objects s' = counts A f (objects s1) \<and> (\<forall>b. f b + occ cs b = occ ts' b) \<and> set cs \<subseteq> set ts' \<and> work cs \<le> work ts'
              \<and> stock (SCache s1) \<le> stock (SCache s') + length cs
            \<or> st' = AE_NO_MEMORY \<and> stock (SCache s1) < length ts'" by blast
        have "work (t # ts') = work [t] + work ts'" by (simp add: work_def)
        then show ?thesis
          using False ob(1) complex p(1,3) ok st1(2) r ts(1) stock
          by (intro exI [of _ st'] exI [of _ p'] exI [of _ s'] exI [of _ as'] exI [of _ "cs @ [t]"] exI [of _ f]) (auto simp: add.assoc)
      next
        assume st: "st = AE_NO_MEMORY" and nm: "stock (SCache s) = 0" "stack s1 p1 as us" "besides s1 as = besides s as"
        then have "update_elements env A (e # es) p s = Some (AE_NO_MEMORY, p1, s1)"
          using False ob(1) complex p(1) by (simp add: ACPI_FAILURE_def)
        then show ?thesis using nm p(2) ts(1)
          by (intro exI [of _ AE_NO_MEMORY] exI [of _ p1] exI [of _ s1] exI [of _ as] exI [of _ "[]"]) auto
      qed
    qed
  qed
qed

text \<open>The first object of a list of trees, null if there is none.\<close>

abbreviation first_root :: "object_tree list \<Rightarrow> addr" where
  "first_root ns \<equiv> (case ns of [] \<Rightarrow> 0 | n # _ \<Rightarrow> root n)"

text \<open>What is left of the sub-objects is the next object and what has been pushed.\<close>

definition subobjects_done where
  "subobjects_done A ts us as s r \<longleftrightarrow>
     (\<exists>st Next p' s' as' ns cs f. r = Some (st, Next, p', s') \<and> ok s' \<and> stack s' p' as' (cs @ us) \<and> besides s' as' = besides s as
       \<and> (st = AE_OK \<and> Next = first_root ns \<and> length ns \<le> 1 \<and> objects s' = counts A f (objects s)
            \<and> (\<forall>b. f b + occ (ns @ cs) b = occ ts b) \<and> set (ns @ cs) \<subseteq> set ts \<and> work (ns @ cs) \<le> work ts
            \<and> stock (SCache s) \<le> stock (SCache s') + length cs
          \<or> st = AE_NO_MEMORY \<and> stock (SCache s) < length ts))"

lemma no_push_done:
  assumes "ok s" and "stack s p as us" and "map root ts = filter (\<lambda>a. a \<noteq> 0) [x]"
  shows "subobjects_done A ts us as s (Some (AE_OK, x, p, s))"
proof -
  have "x = first_root ts" "length ts \<le> 1" using assms(3) by (cases ts; simp split: if_splits)+
  then show ?thesis
    unfolding subobjects_done_def using assms(1,2)
    by (intro exI [of _ AE_OK] exI [of _ x] exI [of _ p] exI [of _ s] exI [of _ as] exI [of _ ts] exI [of _ "[]"] exI [of _ "\<lambda>_. 0"]) simp
qed

lemma push_one_done:
  assumes "ok s" and st: "stack s p as us" and ts: "map root ts = filter (\<lambda>a. a \<noteq> 0) [x, y]"
  shows "subobjects_done A ts us as s
    (map_option (\<lambda>(Status, StateList, s). (Status, x, StateList, s)) (AcpiUtCreateUpdateStateAndPush env y A p s))"
proof (cases "y = 0")
  case True
  then show ?thesis using no_push_done [OF assms(1,2), of ts x A] ts by (simp add: AcpiUtCreateUpdateStateAndPush_def)
next
  case False
  with ts have "map root ts = filter (\<lambda>a. a \<noteq> 0) [x] @ [y]" by simp
  from iffD1 [OF map_eq_append_conv this] obtain ns zs
    where zs: "ts = ns @ zs" "map root ns = filter (\<lambda>a. a \<noteq> 0) [x]" "map root zs = [y]" by metis
  then obtain t where t: "ts = ns @ [t]" "root t = y" "map root ns = filter (\<lambda>a. a \<noteq> 0) [x]"
    by (cases zs) simp_all
  have first: "x = first_root ns" "length ns \<le> 1" using t(3) by (cases ns; simp split: if_splits)+
  from push_update [OF assms(1) st False t(2), of A] obtain st p' s' where
    p: "AcpiUtCreateUpdateStateAndPush env y A p s = Some (st, p', s')" "ok s'" "objects s' = objects s"
      "st = AE_OK \<and> (\<exists>a. stack s' p' (a # as) (t # us) \<and> besides s' (a # as) = besides s as)
           \<and> stock (SCache s) \<le> Suc (stock (SCache s'))
       \<or> st = AE_NO_MEMORY \<and> stock (SCache s) = 0 \<and> stack s' p' as us \<and> besides s' as = besides s as" by blast
  from p(4) show ?thesis
  proof (elim disjE conjE exE)
    fix a assume "stock (SCache s) \<le> Suc (stock (SCache s'))" "st = AE_OK" "stack s' p' (a # as) (t # us)" "besides s' (a # as) = besides s as"
    then show ?thesis
      unfolding subobjects_done_def using p(1-3) t(1) first
      by (intro exI [of _ AE_OK] exI [of _ x] exI [of _ p'] exI [of _ s'] exI [of _ "a # as"] exI [of _ ns] exI [of _ "[t]"] exI [of _ "\<lambda>_. 0"])
        simp
  next
    assume "st = AE_NO_MEMORY" "stock (SCache s) = 0" "stack s' p' as us" "besides s' as = besides s as"
    then show ?thesis
      unfolding subobjects_done_def using p(1,2) t(1)
      by (intro exI [of _ AE_NO_MEMORY] exI [of _ x] exI [of _ p'] exI [of _ s'] exI [of _ as] exI [of _ "[]"] exI [of _ "[]"]) simp
  qed
qed

lemma elements_done:
  assumes "ok s" and "stack s p as us" and "map root ts = filter (\<lambda>a. a \<noteq> 0) es" and "\<forall>t \<in> set ts. unfolds (objects s) t"
    and "roomy A (\<lambda>b. occ ts b + g b) (objects s)"
  shows "subobjects_done A ts us as s
    (case update_elements env A es p s of None \<Rightarrow> None | Some (Status, StateList, s) \<Rightarrow> Some (Status, 0, StateList, s))"
proof -
  from update_elements_count [OF assms] obtain st p' s' as' cs f where
    r: "update_elements env A es p s = Some (st, p', s')" "ok s'" "stack s' p' as' (cs @ us)" "besides s' as' = besides s as"
      "st = AE_OK \<and> objects s' = counts A f (objects s) \<and> (\<forall>b. f b + occ cs b = occ ts b) \<and> set cs \<subseteq> set ts \<and> work cs \<le> work ts
        \<and> stock (SCache s) \<le> stock (SCache s') + length cs
      \<or> st = AE_NO_MEMORY \<and> stock (SCache s) < length ts" by blast
  then show ?thesis
    unfolding subobjects_done_def
    by (intro exI [of _ st] exI [of _ 0] exI [of _ p'] exI [of _ s'] exI [of _ as'] exI [of _ "[]"] exI [of _ cs] exI [of _ f]) auto
qed

lemma update_subobjects_done:
  assumes "ok s" and "stack s p as us" and ob: "object_ok ob" "map root ts = subobjects ob" and "\<forall>t \<in> set ts. unfolds (objects s) t"
    and "roomy A (\<lambda>b. occ ts b + g b) (objects s)"
  shows "subobjects_done A ts us as s (update_subobjects env A ob p s)"
proof -
  have n: "update_notify env A i 0 s = Some s" for i by (subst update_notify.simps) simp
  have nl: "op_NotifyList ob = [0, 0]" using ob(1) by (simp add: object_ok_def)
  note types = ACPI_TYPE_DEVICE_def ACPI_TYPE_PROCESSOR_def ACPI_TYPE_POWER_def ACPI_TYPE_THERMAL_def ACPI_TYPE_PACKAGE_def
    ACPI_TYPE_BUFFER_FIELD_def ACPI_TYPE_LOCAL_BANK_FIELD_def ACPI_TYPE_LOCAL_INDEX_FIELD_def ACPI_TYPE_LOCAL_REFERENCE_def
  consider (notify) "op_Type ob \<in> {ACPI_TYPE_DEVICE, ACPI_TYPE_PROCESSOR, ACPI_TYPE_POWER, ACPI_TYPE_THERMAL}"
    | (package) "op_Type ob = ACPI_TYPE_PACKAGE" | (buffer) "op_Type ob = ACPI_TYPE_BUFFER_FIELD"
    | (bank) "op_Type ob = ACPI_TYPE_LOCAL_BANK_FIELD" | (index) "op_Type ob = ACPI_TYPE_LOCAL_INDEX_FIELD"
    | (ref) "op_Type ob = ACPI_TYPE_LOCAL_REFERENCE"
    | (other) "op_Type ob \<notin> {ACPI_TYPE_DEVICE, ACPI_TYPE_PROCESSOR, ACPI_TYPE_POWER, ACPI_TYPE_THERMAL, ACPI_TYPE_PACKAGE,
        ACPI_TYPE_BUFFER_FIELD, ACPI_TYPE_LOCAL_BANK_FIELD, ACPI_TYPE_LOCAL_INDEX_FIELD, ACPI_TYPE_LOCAL_REFERENCE}"
    by blast
  then show ?thesis
  proof cases
    case notify
    then have "map root ts = filter (\<lambda>a. a \<noteq> 0) [0]" using ob(2) by (elim insertE emptyE) (simp_all add: subobjects_def types)
    then show ?thesis
      using no_push_done [OF assms(1,2), of ts 0 A] notify n nl by (simp add: update_subobjects_def)
  next
    case package
    let ?es = "take (unat (op_Count ob)) (case op_Elements ob of None \<Rightarrow> [] | Some es \<Rightarrow> es)"
    have "map root ts = filter (\<lambda>a. a \<noteq> 0) ?es" using ob(2) package by (simp add: subobjects_def)
    from elements_done [OF assms(1,2) this assms(5,6)] package ob(1) show ?thesis
      by (simp add: update_subobjects_def object_ok_def types Let_def not_less [symmetric])
  next
    case buffer
    then show ?thesis
      using no_push_done [OF assms(1,2), of ts "op_BufferObj ob" A] ob(2) by (simp add: update_subobjects_def subobjects_def types)
  next
    case bank
    then show ?thesis
      using push_one_done [OF assms(1,2), of ts "op_BankObj ob" "op_RegionObj ob" A] ob(2) by (simp add: update_subobjects_def subobjects_def types)
  next
    case index
    then show ?thesis
      using push_one_done [OF assms(1,2), of ts "op_IndexObj ob" "op_DataObj ob" A] ob(2) by (simp add: update_subobjects_def subobjects_def types)
  next
    case ref
    then show ?thesis
      using no_push_done [OF assms(1,2), of ts "if op_Class ob = ACPI_REFCLASS_INDEX \<or> op_Class ob = ACPI_REFCLASS_NAME then op_Object ob else 0" A]
        ob(2) by (simp add: update_subobjects_def subobjects_def types split: if_splits)
  next
    case other
    then show ?thesis
      using no_push_done [OF assms(1,2), of ts 0 A] ob(2) by (simp add: update_subobjects_def subobjects_def)
  qed
qed

lemma update_loop_count:
  "ok s \<Longrightarrow> stack s p as us \<Longrightarrow> \<forall>x \<in> set (t # us). unfolds (objects s) x \<Longrightarrow> roomy A (occ (t # us)) (objects s) \<Longrightarrow>
     \<exists>st s'. update_loop env A (root t) p s = Some (st, s') \<and> ok s' \<and> live (SHeap s') = besides s as
       \<and> (st = AE_OK \<and> objects s' = counts A (occ (t # us)) (objects s) \<or> st = AE_NO_MEMORY \<and> stock (SCache s) < work (t # us) - length (t # us))"
proof (induction "work (t # us)" arbitrary: t us s p as rule: less_induct)
  case less
  obtain a ts where t: "t = OT a ts" by (cases t)
  from less.prems(3) t obtain ob where ob: "objects s a = Some ob" "object_ok ob" "map root ts = subobjects ob" "a \<noteq> 0"
    and un: "\<forall>x \<in> set ts. unfolds (objects s) x" "\<forall>x \<in> set us. unfolds (objects s) x" by auto
  let ?one = "\<lambda>b. if a = b then 1 else 0 :: nat"
  have room: "roomy A (\<lambda>b. occ ts b + (?one b + occ us b)) (objects s)"
  proof -
    have "occ (t # us) = (\<lambda>b. occ ts b + (?one b + occ us b))" by (rule ext) (simp add: t)
    then show ?thesis using less.prems(4) by simp
  qed
  from update_subobjects_done [OF less.prems(1,2) ob(2,3) un(1) room]
  obtain st Next p1 s1 as1 ns cs f where
    r: "update_subobjects env A ob p s = Some (st, Next, p1, s1)" "ok s1" "stack s1 p1 as1 (cs @ us)" "besides s1 as1 = besides s as"
      "st = AE_OK \<and> Next = first_root ns \<and> length ns \<le> 1 \<and> objects s1 = counts A f (objects s)
         \<and> (\<forall>b. f b + occ (ns @ cs) b = occ ts b) \<and> set (ns @ cs) \<subseteq> set ts \<and> work (ns @ cs) \<le> work ts
         \<and> stock (SCache s) \<le> stock (SCache s1) + length cs
       \<or> st = AE_NO_MEMORY \<and> stock (SCache s) < length ts"
    unfolding subobjects_done_def by blast
  have named: "op_DescriptorType ob \<noteq> ACPI_DESC_TYPE_NAMED"
    using ob(2) by (simp add: object_ok_def ACPI_DESC_TYPE_OPERAND_def ACPI_DESC_TYPE_NAMED_def)
  show ?case
  proof (cases "st = AE_OK")
    case False
    then have st: "st = AE_NO_MEMORY" "stock (SCache s) < work (t # us) - length (t # us)"
      using r(5) t length_work [of ts] length_work [of us] by auto
    from free_states_all [OF r(2,3)] obtain s2 where "free_states env p1 s1 = Some s2" "ok s2" "live (SHeap s2) = besides s1 as1" by blast
    then show ?thesis
      using t ob(1,4) named r(1,4) st by (subst update_loop.simps) (simp add: ACPI_FAILURE_def)
  next
    case True
    with r(5) have next1: "Next = first_root ns" "length ns \<le> 1" and s1: "objects s1 = counts A f (objects s)"
      and f: "\<And>b. f b + occ (ns @ cs) b = occ ts b" and sub: "set (ns @ cs) \<subseteq> set ts" and work: "work (ns @ cs) \<le> work ts"
      and stock: "stock (SCache s) \<le> stock (SCache s1) + length cs" by auto
    let ?rest = "ns @ cs @ us"
    have room1: "roomy A (\<lambda>b. f b + (?one b + occ ?rest b)) (objects s)"
    proof -
      have "occ ts b + (?one b + occ us b) = f b + (?one b + occ ?rest b)" for b using f [of b] by simp
      then show ?thesis using room by presburger
    qed
    have "room A (f a + (?one a + occ ?rest a)) ob" using room1 ob(1) unfolding roomy_def by blast
    then have "room A (f a + 1) ob" by (rule room_mono) simp
    then obtain ob1 where ob1: "counted A (f a) ob = Some ob1" "room A 1 ob1" using counted_live counted_add(2) by (metis not_None_eq zero_less_one)
    have "objects s1 a = Some ob1" using s1 ob(1) ob1(1) by (simp add: counts_def)
    moreover have "object_ok ob1" using counted_shape [OF ob1(1)] ob(2) by auto
    ultimately obtain s2 where s2: "AcpiUtUpdateRefCount env a A s1 = Some s2" "ok s2" "objects s2 = counts A ?one (objects s1)"
        "SCache s2 = SCache s1" "SHeap s2 = SHeap s1"
      using update_count [OF r(2)] ob1(2) by blast
    have o2: "objects s2 = counts A (\<lambda>b. f b + ?one b) (objects s)"
    proof -
      have "roomy A (\<lambda>b. f b + ?one b) (objects s)" by (rule roomy_mono [OF room1]) simp
      from counts_add [OF this] show ?thesis unfolding s2(3) s1 .
    qed
    have room2: "roomy A (\<lambda>b. (f b + ?one b) + (occ ?rest b + 0)) (objects s)" using room1 by (simp add: add.assoc)
    have "\<forall>x \<in> set ?rest. unfolds (objects s) x" using un sub by auto
    from unfolds_after [OF this room2] have un2: "\<forall>x \<in> set ?rest. unfolds (objects s2) x" unfolding o2 .
    have roomr: "roomy A (occ ?rest) (objects s2)"
      unfolding o2 using roomy_counts [of A "\<lambda>b. f b + ?one b" "occ ?rest"] room2 by simp
    have done2: "counts A (occ ?rest) (objects s2) = counts A (occ (t # us)) (objects s)"
    proof -
      have "counts A (occ ?rest) (objects s2) = counts A (\<lambda>b. (f b + ?one b) + occ ?rest b) (objects s)"
        unfolding o2 using room2 by (intro counts_add) simp
      moreover have "(f b + ?one b) + occ ?rest b = occ (t # us) b" for b using f [of b] t by simp
      ultimately show ?thesis by presburger
    qed
    have st2: "stack s2 p1 as1 (cs @ us)" "besides s2 as1 = besides s as"
      using r(3,4) unfolding stack_def besides_def [abs_def] s2(5) by blast+
    have less_stock: "stock (SCache s) < work (t # us) - length (t # us)" if "stock c < work ?rest - length ?rest" "stock (SCache s1) \<le> stock c" for c
      using that stock work t length_work [of us] length_work [of cs] length_work [of ns] by simp
    have smaller: "work ?rest < work (t # us)" using work t by simp
    note step = update_loop.simps [of env A "root t" p s]
    show ?thesis
    proof (cases ns)
      case (Cons n ns')
      then have ns: "ns = [n]" using next1(2) by simp
      have "root n \<noteq> 0" using un2 ns by (auto elim: unfoldsE)
      then have "update_loop env A (root t) p s = update_loop env A (root n) p1 s2"
        using step t ob(1,4) named r(1) True next1(1) ns s2(1) by simp
      moreover have "work (n # cs @ us) < work (t # us)" using smaller ns by simp
      ultimately show ?thesis
        using less.hyps [OF _ s2(2) st2(1), of n] un2 roomr done2 st2(2) ns less_stock [of "SCache s2"] s2(4) by auto
    next
      case Nil
      show ?thesis
      proof (cases "cs @ us")
        case rest: Nil
        then have "p1 = 0" "as1 = []" using st2(1) stack_empty stack_length by (metis length_0_conv)+
        then have "update_loop env A (root t) p s = Some (AE_OK, s2)"
          using step t ob(1,4) named r(1) True next1(1) Nil s2(1) by (simp add: update_loop.simps [of env A 0])
        moreover have "counts A (occ (t # us)) (objects s) = objects s2" unfolding done2 [symmetric]
        proof -
          have "occ (ns @ cs @ us) = (\<lambda>_. 0)" using Nil rest by (intro ext) simp
          then show "counts A (occ (ns @ cs @ us)) (objects s2) = objects s2" by simp
        qed
        moreover have "live (SHeap s2) = besides s2 as1" using \<open>as1 = []\<close> by (simp add: besides_def fun_eq_iff)
        ultimately show ?thesis using s2(2) st2(2) by simp
      next
        case rest: (Cons n us')
        then obtain b bs where as1: "as1 = b # bs" using st2(1) stack_length by (cases as1) fastforce+
        from pop_update [OF s2(2) st2(1) [unfolded rest as1]] obtain u p' c h where
          pop: "p1 \<noteq> 0" "AcpiUtPopGenericState p1 (SHeap s2) = Some (b, p')" "live (SHeap s2) b = Some u" "Update_Object u = root n"
            "AcpiUtDeleteGenericState (st_rel env) b (SCache s2) (SHeap s2) = (c, h)"
            "ok (s2\<lparr>SCache := c, SHeap := h\<rparr>)" "stack (s2\<lparr>SCache := c, SHeap := h\<rparr>) p' bs us'"
            "besides (s2\<lparr>SCache := c, SHeap := h\<rparr>) bs = besides s2 (b # bs)" "stock (SCache s2) \<le> stock c" by blast
        let ?s3 = "s2\<lparr>SCache := c, SHeap := h\<rparr>"
        have "update_loop env A (root t) p s = update_loop env A (root n) p' ?s3"
          using step t ob(1,4) named r(1) True next1(1) Nil s2(1) pop(1-5) by simp
        moreover have "work (n # us') < work (t # us)" using smaller rest Nil by simp
        ultimately show ?thesis
          using less.hyps [OF _ pop(6,7), of n] un2 roomr done2 st2(2) rest Nil pop(8,9) as1 less_stock [of c] s2(4) by auto
      qed
    qed
  qed
qed

section \<open>A namespace node among the objects\<close>

lemma push_elements:
  "ok s \<Longrightarrow> stack s p as us \<Longrightarrow> \<forall>x \<in> set xs. complex_at (objects s) x \<Longrightarrow> length xs \<le> stock (SCache s) \<Longrightarrow>
     \<exists>p' s' as'. update_elements env A xs p s = Some (AE_OK, p', s') \<and> ok s' \<and> objects s' = objects s
       \<and> stack s' p' as' (map (\<lambda>x. OT x []) (rev xs) @ us) \<and> besides s' as' = besides s as"
proof (induction xs arbitrary: s p as us)
  case (Cons x xs)
  then obtain ob where ob: "x \<noteq> 0" "objects s x = Some ob" "op_Type ob \<notin> {ACPI_TYPE_INTEGER, ACPI_TYPE_STRING, ACPI_TYPE_BUFFER}"
    by (auto simp: complex_at_def)
  have room: "0 < stock (SCache s)" using Cons.prems(4) by simp
  from push_update [OF Cons.prems(1,2) ob(1), of "OT x []" A] room obtain p1 s1 a where
    p: "AcpiUtCreateUpdateStateAndPush env x A p s = Some (AE_OK, p1, s1)" "ok s1" "objects s1 = objects s"
      "stack s1 p1 (a # as) (OT x [] # us)" "besides s1 (a # as) = besides s as" "stock (SCache s) \<le> Suc (stock (SCache s1))"
    by auto
  have "\<forall>x \<in> set xs. complex_at (objects s1) x" "length xs \<le> stock (SCache s1)" using Cons.prems(3,4) p(3,6) by simp_all
  from Cons.IH [OF p(2,4) this] obtain p' s' as' where
    "update_elements env A xs p1 s1 = Some (AE_OK, p', s')" "ok s'" "objects s' = objects s1"
      "stack s' p' as' (map (\<lambda>x. OT x []) (rev xs) @ OT x [] # us)" "besides s' as' = besides s1 (a # as)" by blast
  then show ?case using ob p(1,3,5) by (intro exI [of _ p'] exI [of _ s'] exI [of _ as']) simp
qed auto

lemma loop_at_node:
  "N \<noteq> 0 \<Longrightarrow> objects s N = Some n \<Longrightarrow> op_DescriptorType n = ACPI_DESC_TYPE_NAMED \<Longrightarrow> update_loop env A N p s = Some (AE_OK, s)"
  by (subst update_loop.simps) simp

lemma counts_other: "f b = 0 \<Longrightarrow> counts A f L b = L b"
  by (simp add: counts_def option.case_eq_if bind_eq_None_conv split: bind_split)

text \<open>A reference to a namespace node loses what is still on the list.\<close>

lemma loop_at_reference:
  assumes s: "ok s" "objects s r = Some rf" and rf: "object_ok rf" "op_Type rf = ACPI_TYPE_LOCAL_REFERENCE" "op_Class rf = ACPI_REFCLASS_NAME"
    and n: "op_Object rf = N" "N \<noteq> 0" "objects s N = Some n" "op_DescriptorType n = ACPI_DESC_TYPE_NAMED" "r \<noteq> N"
    and room: "room A 1 rf"
  shows "\<exists>s'. update_loop env A r p s = Some (AE_OK, s') \<and> objects s' = counts A (\<lambda>b. if r = b then 1 else 0) (objects s)
    \<and> SCache s' = SCache s \<and> SHeap s' = SHeap s"
proof -
  have "r \<noteq> 0" using s ops.null_dead by (auto simp: ok_def)
  have sub: "update_subobjects env A rf p s = Some (AE_OK, N, p, s)"
    using rf(2,3) n(1) by (simp add: update_subobjects_def ACPI_TYPE_DEVICE_def ACPI_TYPE_PROCESSOR_def ACPI_TYPE_POWER_def ACPI_TYPE_THERMAL_def
        ACPI_TYPE_PACKAGE_def ACPI_TYPE_BUFFER_FIELD_def ACPI_TYPE_LOCAL_BANK_FIELD_def ACPI_TYPE_LOCAL_INDEX_FIELD_def ACPI_TYPE_LOCAL_REFERENCE_def)
  obtain s' where s': "AcpiUtUpdateRefCount env r A s = Some s'" "objects s' = counts A (\<lambda>b. if r = b then 1 else 0) (objects s)"
      "SCache s' = SCache s" "SHeap s' = SHeap s"
    using update_count [OF s rf(1) room] by blast
  have "objects s' N = Some n" unfolding s'(2) using n(3,5) by (simp add: counts_other)
  then have "update_loop env A N p s' = Some (AE_OK, s')" using loop_at_node n(2,4) by blast
  moreover have "op_DescriptorType rf \<noteq> ACPI_DESC_TYPE_NAMED"
    using rf(1) by (simp add: object_ok_def ACPI_DESC_TYPE_OPERAND_def ACPI_DESC_TYPE_NAMED_def)
  ultimately have "update_loop env A r p s = Some (AE_OK, s')"
    using \<open>r \<noteq> 0\<close> s(2) sub s'(1) n(2) by (subst update_loop.simps) simp
  then show ?thesis using s'(2-4) by blast
qed

lemma package_at_reference:
  assumes s: "ok s" "objects s a = Some ob" "objects s r = Some rf"
    and ob: "object_ok ob" "op_Type ob = ACPI_TYPE_PACKAGE" "take (unat (op_Count ob)) (the (op_Elements ob)) = xs @ [r]" "op_Elements ob \<noteq> None"
    and rf: "object_ok rf" "op_Type rf = ACPI_TYPE_LOCAL_REFERENCE" "op_Class rf = ACPI_REFCLASS_NAME"
    and n: "op_Object rf = N" "N \<noteq> 0" "objects s N = Some n" "op_DescriptorType n = ACPI_DESC_TYPE_NAMED"
    and xs: "\<forall>x \<in> set xs. complex_at (objects s) x" "length xs < stock (SCache s)"
    and room: "room A 1 ob" "room A 1 rf"
  shows "\<exists>s' as. update_loop env A a 0 s = Some (AE_OK, s')
    \<and> objects s' = counts A (\<lambda>b. if r = b then 1 else 0) (counts A (\<lambda>b. if a = b then 1 else 0) (objects s))
    \<and> distinct as \<and> length as = length xs
    \<and> (\<forall>b. if b \<in> set as then live (SHeap s) b = None \<and> live (SHeap s') b \<noteq> None else live (SHeap s') b = live (SHeap s) b)"
proof -
  note types = ACPI_TYPE_DEVICE_def ACPI_TYPE_PROCESSOR_def ACPI_TYPE_POWER_def ACPI_TYPE_THERMAL_def ACPI_TYPE_PACKAGE_def
    ACPI_TYPE_INTEGER_def ACPI_TYPE_STRING_def ACPI_TYPE_BUFFER_def ACPI_TYPE_LOCAL_REFERENCE_def
  have nz: "a \<noteq> 0" "r \<noteq> 0" using s ops.null_dead by (auto simp: ok_def)
  have dt: "op_DescriptorType ob \<noteq> ACPI_DESC_TYPE_NAMED" "op_DescriptorType rf \<noteq> ACPI_DESC_TYPE_NAMED"
    using ob(1) rf(1) by (simp_all add: object_ok_def ACPI_DESC_TYPE_OPERAND_def ACPI_DESC_TYPE_NAMED_def)
  have ne: "a \<noteq> r" "a \<noteq> N" "r \<noteq> N" using s(2,3) ob(2) rf(2) n(3,4) dt by (auto simp: types)
  have "\<forall>x \<in> set (xs @ [r]). complex_at (objects s) x" using xs(1) s(3) rf(2) nz(2) by (auto simp: complex_at_def types)
  moreover have "stack s 0 [] []" by (simp add: stack_def)
  ultimately obtain p1 s1 as1 where
    e: "update_elements env A (xs @ [r]) 0 s = Some (AE_OK, p1, s1)" "ok s1" "objects s1 = objects s"
      "stack s1 p1 as1 (map (\<lambda>x. OT x []) (rev (xs @ [r])) @ [])" "besides s1 as1 = besides s []"
    using push_elements [OF s(1), of 0 "[]" "[]" "xs @ [r]" A] xs(2) by auto
  have sub: "update_subobjects env A ob 0 s = Some (AE_OK, 0, p1, s1)"
    using ob e(1) by (auto simp: update_subobjects_def object_ok_def types not_less [symmetric])
  let ?one = "\<lambda>b. if a = b then 1 else 0 :: nat"
  have "objects s1 a = Some ob" using s(2) e(3) by simp
  from update_count [OF e(2) this ob(1) room(1)] obtain s2 where s2: "AcpiUtUpdateRefCount env a A s1 = Some s2" "ok s2"
      "objects s2 = counts A ?one (objects s)" "SCache s2 = SCache s1" "SHeap s2 = SHeap s1"
    unfolding e(3) by blast
  have st2: "stack s2 p1 as1 (OT r [] # map (\<lambda>x. OT x []) (rev xs))" "besides s2 as1 = besides s []"
    using e(4,5) unfolding stack_def besides_def [abs_def] s2(5) by simp_all
  then obtain b bs where as1: "as1 = b # bs" using stack_length by (cases as1) fastforce+
  from pop_update [OF s2(2) st2(1) [unfolded as1]] obtain u p' c h where
    pop: "p1 \<noteq> 0" "AcpiUtPopGenericState p1 (SHeap s2) = Some (b, p')" "live (SHeap s2) b = Some u" "Update_Object u = r"
      "AcpiUtDeleteGenericState (st_rel env) b (SCache s2) (SHeap s2) = (c, h)"
      "ok (s2\<lparr>SCache := c, SHeap := h\<rparr>)" "stack (s2\<lparr>SCache := c, SHeap := h\<rparr>) p' bs (map (\<lambda>x. OT x []) (rev xs))"
      "besides (s2\<lparr>SCache := c, SHeap := h\<rparr>) bs = besides s2 (b # bs)" by auto
  let ?s3 = "s2\<lparr>SCache := c, SHeap := h\<rparr>"
  have "objects ?s3 r = Some rf" "objects ?s3 N = Some n" using s(3) n(3) ne by (simp_all add: s2(3) counts_other)
  from loop_at_reference [OF pop(6) this(1) rf n(1,2) this(2) n(4) ne(3) room(2), of p'] obtain s' where
    s': "update_loop env A r p' ?s3 = Some (AE_OK, s')" "objects s' = counts A (\<lambda>b. if r = b then 1 else 0) (objects ?s3)" "SHeap s' = h" by auto
  have "update_loop env A a 0 s = Some (AE_OK, s')"
    using nz(1) s(2) dt(1) sub s2(1) pop(1-5) s'(1) by (subst update_loop.simps) simp
  moreover have "objects s' = counts A (\<lambda>b. if r = b then 1 else 0) (counts A ?one (objects s))" using s'(2) s2(3) by simp
  moreover have "distinct bs" "length bs = length xs" using pop(7) stack_length [OF pop(7)] by (simp_all add: stack_def)
  moreover have "if b \<in> set bs then live (SHeap s) b = None \<and> live (SHeap s') b \<noteq> None else live (SHeap s') b = live (SHeap s) b" for b
  proof -
    have "besides ?s3 bs b = live (SHeap s) b" using pop(8) st2(2) as1 by (simp add: besides_def)
    moreover have "live h b \<noteq> None" if "b \<in> set bs" using pop(7) that slist_live unfolding stack_def by fastforce
    ultimately show ?thesis using s'(3) by (auto simp: besides_def)
  qed
  ultimately show ?thesis by blast
qed

section \<open>New objects\<close>

text \<open>What a creation leaves: null and no change, or one more object.\<close>

definition created :: "('c, 'd) ostate \<Rightarrow> operand_object \<Rightarrow> (addr \<times> ('c, 'd) ostate) option \<Rightarrow> bool" where
  "created s ob r \<longleftrightarrow> (\<exists>a s'. r = Some (a, s') \<and> ok s' \<and> live (SHeap s') = live (SHeap s)
     \<and> (if a = 0 then objects s' = objects s else objects s a = None \<and> objects s' = (objects s)(a \<mapsto> ob)))"

lemma createdE:
  assumes "created s ob r"
  obtains (null) s' where "r = Some (0, s')" "ok s'" "live (SHeap s') = live (SHeap s)" "objects s' = objects s"
  | (new) a s' where "r = Some (a, s')" "a \<noteq> 0" "ok s'" "live (SHeap s') = live (SHeap s)" "objects s a = None"
      "objects s' = (objects s)(a \<mapsto> ob)"
  using assms by (auto simp: created_def split: if_splits)

lemma allocate_desc:
  assumes "ok s"
  shows "created s (zero_operand\<lparr>op_DescriptorType := ACPI_DESC_TYPE_OPERAND\<rparr>) (AcpiUtAllocateObjectDescDbg env s)"
proof -
  have inv: "oinv (OCache s) (OHeap s)" using assms by (simp add: ok_def)
  from ops.acquire_total [OF inv] obtain a c h where a: "op_acq env (OCache s) (OHeap s) = Some (a, c, h)" by blast
  let ?s = "s\<lparr>OCache := c, OHeap := h\<rparr>"
  have ok': "ok ?s" using ops.acquire_inv [OF inv a] assms by (simp add: ok_def)
  show ?thesis
  proof (cases "a = 0")
    case True
    then show ?thesis using a ok' ops.acquire_null [OF inv] by (simp add: created_def AcpiUtAllocateObjectDescDbg_def)
  next
    case False
    have n: "objects s a = None" "live h = (objects s)(a \<mapsto> zero_operand)" using ops.acquire_fresh [OF inv a False] ops.acquire_live [OF inv a False] by simp_all
    then have "objects ?s a = Some zero_operand" by simp
    from set_op_ok [OF ok' this, of "\<lambda>ob. ob\<lparr>op_DescriptorType := ACPI_DESC_TYPE_OPERAND\<rparr>"] show ?thesis
      using a False n by (auto simp: created_def AcpiUtAllocateObjectDescDbg_def)
  qed
qed

text \<open>The initialisation that follows a creation.\<close>

lemma created_init:
  assumes "created s ob r"
  shows "created s (f ob) (case r of None \<Rightarrow> None | Some (a, s) \<Rightarrow> if a = 0 then Some (0, s) else map_option (Pair a) (set_op a f s))"
  using assms
proof (cases rule: createdE)
  case (new a s')
  then have "objects s' a = Some ob" by simp
  from set_op_ok [OF new(3) this, of f] show ?thesis using new by (auto simp: created_def)
qed (simp add: created_def)

lemma create_object:
  assumes "ok s" and "Type \<notin> {ACPI_TYPE_REGION, ACPI_TYPE_BUFFER_FIELD, ACPI_TYPE_LOCAL_BANK_FIELD}"
  shows "created s (new_operand Type) (AcpiUtCreateInternalObjectDbg env Type s)"
proof -
  let ?f = "\<lambda>ob. ob\<lparr>op_Type := Type, op_ReferenceCount := 1\<rparr>"
  have "AcpiUtCreateInternalObjectDbg env Type s =
      (case AcpiUtAllocateObjectDescDbg env s of None \<Rightarrow> None | Some (a, s) \<Rightarrow> if a = 0 then Some (0, s) else map_option (Pair a) (set_op a ?f s))"
    using assms(2) by (cases "AcpiUtAllocateObjectDescDbg env s") (simp_all add: AcpiUtCreateInternalObjectDbg_def split: prod.split)
  with created_init [OF allocate_desc [OF assms(1)], of ?f] show ?thesis by (simp add: new_operand_def)
qed

text \<open>An object without sub-objects of which one reference is left is released.\<close>

lemma remove_last:
  assumes "ok s" and "objects s a = Some ob" and "object_ok ob" and "subobjects ob = []" and "plain ob" and "op_ReferenceCount ob = 1"
  shows "\<exists>s'. AcpiUtRemoveReference env a s = Some s' \<and> ok s' \<and> objects s' = (objects s)(a := None) \<and> live (SHeap s') = live (SHeap s)"
proof -
  have "a \<noteq> 0" using assms(1,2) ops.null_dead by (auto simp: ok_def)
  have desc: "op_DescriptorType ob = ACPI_DESC_TYPE_OPERAND" "ACPI_DESC_TYPE_OPERAND \<noteq> ACPI_DESC_TYPE_NAMED"
    using assms(3) by (simp_all add: object_ok_def ACPI_DESC_TYPE_OPERAND_def ACPI_DESC_TYPE_NAMED_def)
  have t: "\<forall>x \<in> set [OT a []]. unfolds (objects s) x" using \<open>a \<noteq> 0\<close> assms(2-4) by simp
  have r: "roomy REF_DECREMENT (occ [OT a []]) (objects s)" using assms(2,5,6) by (simp add: roomy_def room_def)
  have "stack s 0 [] []" by (simp add: stack_def)
  from update_loop_count [OF assms(1) this t r] obtain s' where s': "update_loop env REF_DECREMENT a 0 s = Some (AE_OK, s')" "ok s'"
      "live (SHeap s') = besides s []" "objects s' = counts REF_DECREMENT (occ [OT a []]) (objects s)" by auto
  have "counts REF_DECREMENT (occ [OT a []]) (objects s) = (objects s)(a := None)"
  proof (rule ext)
    show "counts REF_DECREMENT (occ [OT a []]) (objects s) x = ((objects s)(a := None)) x" for x
      using assms(2,6) by (cases "objects s x") (auto simp: counts_def counted_def)
  qed
  then show ?thesis
    using s' assms(2) \<open>a \<noteq> 0\<close> desc
    by (simp add: AcpiUtRemoveReference_def AcpiUtValidInternalObject_def AcpiUtUpdateObjectReference_def besides_def [abs_def])
qed

lemma create_integer: "ok s \<Longrightarrow> created s (new_operand ACPI_TYPE_INTEGER\<lparr>op_Value := v\<rparr>) (AcpiUtCreateIntegerObject env v s)"
  using created_init [OF create_object [of s ACPI_TYPE_INTEGER], of "\<lambda>ob. ob\<lparr>op_Value := v\<rparr>"] new_operand_ok(5) [of ACPI_TYPE_INTEGER]
  by (simp add: AcpiUtCreateIntegerObject_def)

text \<open>A creation with memory that may be missing: the descriptor is released again.\<close>

lemma created_alloc:
  assumes "Type \<in> {ACPI_TYPE_INTEGER, ACPI_TYPE_STRING, ACPI_TYPE_BUFFER}" and c: "created s (new_operand Type) r"
  shows "created s (f (new_operand Type))
    (case r of None \<Rightarrow> None
     | Some (a, s) \<Rightarrow> if a = 0 then Some (0, s) else if \<not> M s then map_option (Pair 0) (AcpiUtRemoveReference env a s)
                      else map_option (Pair a) (set_op a f s))"
  using c
proof (cases rule: createdE)
  case (new a s')
  then have "objects s' a = Some (new_operand Type)" by simp
  from remove_last [OF new(3) this new_operand_ok(1-4) [OF assms(1)]] set_op_ok [OF new(3) this, of f]
    fun_upd_idem [of "objects s" a None]
  show ?thesis using new by (auto simp: created_def)
qed (simp add: created_def)

lemma create_buffer:
  assumes "ok s"
  shows "created s (new_operand ACPI_TYPE_BUFFER\<lparr>op_Flags := AOPOBJ_DATA_VALID,
    op_Pointer := (if n > 0 then Some (replicate n 0) else None), op_Length := of_nat n\<rparr>) (AcpiUtCreateBufferObject env n s)"
proof -
  let ?f = "\<lambda>ob. ob\<lparr>op_Flags := op_Flags ob OR AOPOBJ_DATA_VALID, op_Pointer := (if n > 0 then Some (replicate n 0) else None), op_Length := of_nat n\<rparr>"
  have "created s (new_operand ACPI_TYPE_BUFFER) (AcpiUtCreateInternalObjectDbg env ACPI_TYPE_BUFFER s)"
    using assms new_operand_ok(5) by (intro create_object) auto
  from created_alloc [OF _ this, of ?f "\<lambda>s. \<not> (n > 0 \<and> \<not> op_alloc env n s)"]
  have "created s (?f (new_operand ACPI_TYPE_BUFFER)) (AcpiUtCreateBufferObject env n s)"
    unfolding AcpiUtCreateBufferObject_def not_not by simp
  moreover have "?f (new_operand ACPI_TYPE_BUFFER) = new_operand ACPI_TYPE_BUFFER\<lparr>op_Flags := AOPOBJ_DATA_VALID,
      op_Pointer := (if n > 0 then Some (replicate n 0) else None), op_Length := of_nat n\<rparr>"
    by (simp add: new_operand_def zero_operand_def)
  ultimately show ?thesis by simp
qed

lemma create_string: "ok s \<Longrightarrow> created s (new_operand ACPI_TYPE_STRING\<lparr>op_Pointer := Some (replicate (n + 1) 0), op_Length := of_nat n\<rparr>)
    (AcpiUtCreateStringObject env n s)"
  using created_alloc [OF _ create_object [of s ACPI_TYPE_STRING], of "\<lambda>ob. ob\<lparr>op_Pointer := Some (replicate (n + 1) 0), op_Length := of_nat n\<rparr>"
      "op_alloc env (n + 1)"] new_operand_ok(5) [of ACPI_TYPE_STRING]
  by (simp add: AcpiUtCreateStringObject_def)

end

section \<open>The caches of ACPICA\<close>

text \<open>\<open>AcpiGbl_OperandCache\<close> and \<open>AcpiGbl_StateCache\<close>; the host's allocator of blocks is any function.\<close>

definition acpi_env ::
  "(oheap \<Rightarrow> addr) \<Rightarrow> (sheap \<Rightarrow> addr) \<Rightarrow> (nat \<Rightarrow> (memory_list, memory_list) ostate \<Rightarrow> bool) \<Rightarrow>
     (addr \<Rightarrow> (memory_list, memory_list) ostate \<Rightarrow> (memory_list, memory_list) ostate option) \<Rightarrow> (memory_list, memory_list) op_env" where
  "acpi_env pick pick' alloc ext =
     \<lparr>op_acq = cache_acquire pick zero_operand, op_rel = cache_release, st_acq = cache_acquire pick' zero_state, st_rel = cache_release,
      op_alloc = alloc, op_ext = ext\<rparr>"

lemma acpi_env_sel [simp]:
  "op_acq (acpi_env pick pick' alloc ext) = cache_acquire pick zero_operand" "op_rel (acpi_env pick pick' alloc ext) = cache_release"
  "st_acq (acpi_env pick pick' alloc ext) = cache_acquire pick' zero_state" "st_rel (acpi_env pick pick' alloc ext) = cache_release"
  "op_alloc (acpi_env pick pick' alloc ext) = alloc" "op_ext (acpi_env pick pick' alloc ext) = ext"
  by (simp_all add: acpi_env_def)

lemma cache_acquire_stock:
  assumes "cache_inv c h" and a: "cache_acquire pick zero c h = Some (a, c', h')"
  shows "unat (CurrentDepth c) \<le> unat (CurrentDepth c') + 1 \<and> (a = 0 \<longrightarrow> unat (CurrentDepth c) = 0)"
proof -
  obtain as where as: "chain h (ListHead c) as" "length as = unat (CurrentDepth c)" using assms(1) by (auto simp: cache_inv_def)
  show ?thesis
  proof (cases as)
    case Nil
    then show ?thesis
      using as a by (auto simp: cache_acquire_def AcpiOsAcquireObject_def Let_def split: if_splits)
  next
    case (Cons b bs)
    then obtain n where "ListHead c = b" "b \<noteq> 0" "h b = Some (Cached n)" using as(1) by auto
    moreover have "CurrentDepth c \<noteq> 0" using as(2) Cons by auto
    then have "unat (CurrentDepth c - 1) = unat (CurrentDepth c) - 1" by (rule unat_pred)
    ultimately show ?thesis
      using a by (auto simp: cache_acquire_def AcpiOsAcquireObject_def descriptor_ptr_def Let_def)
  qed
qed

lemma cache_release_stock:
  assumes "cache_release a c h = (c', h')"
  shows "unat (CurrentDepth c) \<le> unat (CurrentDepth c')"
proof -
  show ?thesis
  proof (cases "a = 0 \<or> CurrentDepth c \<ge> MaxDepth c")
    case True
    then have "c' = c" using assms by (cases "a = 0") (simp_all add: cache_release_def AcpiOsReleaseObject_def)
    then show ?thesis by simp
  next
    case False
    then have "CurrentDepth c < MaxDepth c" by (simp add: not_le)
    then have "unat (CurrentDepth c + 1) = unat (CurrentDepth c) + 1"
      using unat_lt16 [of "MaxDepth c"] unat_add_nowrap [of "CurrentDepth c" 1] by (simp add: word_less_nat_alt)
    moreover have "CurrentDepth c' = CurrentDepth c + 1"
      using False assms by (simp add: cache_release_def AcpiOsReleaseObject_def) (auto simp del: fun_upd_apply)
    ultimately show ?thesis by simp
  qed
qed

interpretation acpi_objects:
  operand_store cache_inv cache_inv "acpi_env pick pick' alloc ext" "\<lambda>c. unat (CurrentDepth c)" for pick pick' alloc ext
proof -
  have "stocked_pool cache_inv (cache_acquire pick' zero_state) cache_release (\<lambda>c. unat (CurrentDepth c))"
    by unfold_locales (rule cache_acquire_stock, assumption+, rule cache_release_stock)
  moreover have "object_cache cache_inv zero_operand (cache_acquire pick zero_operand) cache_release" by unfold_locales
  ultimately show "operand_store cache_inv cache_inv (acpi_env pick pick' alloc ext) (\<lambda>c. unat (CurrentDepth c))"
    by (simp add: operand_store_def)
qed

lemma update_object_reference:
  assumes "cache_inv (OCache s) (OHeap s)" and "cache_inv (SCache s) (SHeap s)"
    and "unfolds (objects s) t" and "roomy Action (occ [t]) (objects s)"
  shows "\<exists>st s'. AcpiUtUpdateObjectReference (acpi_env pick pick' alloc ext) (root t) Action s = Some (st, s')
    \<and> cache_inv (OCache s') (OHeap s') \<and> cache_inv (SCache s') (SHeap s') \<and> live (SHeap s') = live (SHeap s)
    \<and> (st = AE_OK \<and> objects s' = counts Action (occ [t]) (objects s)
       \<or> st = AE_NO_MEMORY \<and> unat (CurrentDepth (SCache s)) < length (visits t) - 1)"
proof -
  note defs = acpi_objects.ok_def acpi_objects.stack_def acpi_objects.besides_def [abs_def]
  have "acpi_objects.ok s" "acpi_objects.stack s 0 [] []" using assms(1,2) by (simp_all add: defs)
  from acpi_objects.update_loop_count [OF this, of t Action pick pick' alloc ext] assms(3,4) show ?thesis
    by (simp add: AcpiUtUpdateObjectReference_def defs work_def)
qed

section \<open>Properties\<close>

text \<open>
  C4. \<open>AcpiUtUpdateObjectReference\<close> returns, for every graph of operand objects without a cycle, and adds or subtracts
  for each object as many references as there are ways to it from the given object, shared sub-objects included;
  an object whose count becomes zero is released, no object is used after its release, and nothing else changes. All states of the
  internal list are returned to their cache. The only other outcome is \<open>AE_NO_MEMORY\<close>, after which part of the counts have changed; it
  cannot occur if the cache has as many states as there are sub-objects.

  The hypothesis \<open>unfolds\<close> says that all objects that are reached are operand objects, hence no namespace nodes (C38 shows what happens
  with one), have the elements that they count, and have no notify handlers. The hypothesis on \<open>room\<close> says that the counts do not wrap,
  and that an object whose count becomes zero is \<open>plain\<close>: its type is none of device, processor, thermal zone, mutex, region, method, buffer field and
  bank field, whose deletion also releases or reports to other objects.
\<close>

theorem reference_counts_exact:
  assumes "cache_inv (OCache s) (OHeap s)" and "cache_inv (SCache s) (SHeap s)" and "unfolds (objects s) t"
    and room: "\<And>a ob. objects s a = Some ob \<Longrightarrow> room Action (count_list (visits t) a) ob"
  shows "\<exists>st s'. AcpiUtUpdateObjectReference (acpi_env pick pick' alloc ext) (root t) Action s = Some (st, s')
    \<and> cache_inv (OCache s') (OHeap s') \<and> cache_inv (SCache s') (SHeap s') \<and> live (SHeap s') = live (SHeap s)
    \<and> (st = AE_OK \<and> (\<forall>a. objects s' a = Option.bind (objects s a) (counted Action (count_list (visits t) a)))
       \<or> st = AE_NO_MEMORY \<and> unat (CurrentDepth (SCache s)) < length (visits t) - 1)"
proof -
  have "roomy Action (occ [t]) (objects s)" using room by (simp add: roomy_def)
  from update_object_reference [OF assms(1-3) this, of pick pick' alloc ext] show ?thesis by (auto simp: counts_def)
qed

text \<open>A package that holds an integer and a package with the same integer, with three states in the cache.\<close>

definition sample_objects :: "addr \<Rightarrow> operand_object option" where
  "sample_objects =
     [0x1000 \<mapsto> zero_operand\<lparr>op_DescriptorType := ACPI_DESC_TYPE_OPERAND, op_Type := ACPI_TYPE_PACKAGE, op_ReferenceCount := 1,
                  op_Count := 3, op_Elements := Some [0x2000, 0, 0x3000, 0]\<rparr>,
      0x2000 \<mapsto> zero_operand\<lparr>op_DescriptorType := ACPI_DESC_TYPE_OPERAND, op_Type := ACPI_TYPE_INTEGER, op_ReferenceCount := 2, op_Value := 7\<rparr>,
      0x3000 \<mapsto> zero_operand\<lparr>op_DescriptorType := ACPI_DESC_TYPE_OPERAND, op_Type := ACPI_TYPE_PACKAGE, op_ReferenceCount := 1,
                  op_Count := 1, op_Elements := Some [0x2000, 0]\<rparr>]"

definition sample_store :: "(memory_list, memory_list) ostate" where
  "sample_store =
     \<lparr>OCache = \<lparr>ListHead = 0, ObjectSize = 72, MaxDepth = 16, CurrentDepth = 0\<rparr>, OHeap = (\<lambda>a. map_option Object (sample_objects a)),
      SCache = \<lparr>ListHead = 0x5000, ObjectSize = 80, MaxDepth = 16, CurrentDepth = 3\<rparr>,
      SHeap = [0x5000 \<mapsto> Cached 0x6000, 0x6000 \<mapsto> Cached 0x7000, 0x7000 \<mapsto> Cached 0]\<rparr>"

definition sample_tree :: object_tree where
  "sample_tree = OT 0x1000 [OT 0x2000 [], OT 0x3000 [OT 0x2000 []]]"

lemma sample_objects_live [simp]: "objects sample_store = sample_objects"
  by (rule ext) (simp add: sample_store_def live_def option.case_eq_if option.map_sel)

lemma sample_inv: "cache_inv (OCache sample_store) (OHeap sample_store)" "cache_inv (SCache sample_store) (SHeap sample_store)"
proof -
  show "cache_inv (OCache sample_store) (OHeap sample_store)"
    by (simp add: cache_inv_def sample_store_def sample_objects_def)
  show "cache_inv (SCache sample_store) (SHeap sample_store)"
    by (simp add: cache_inv_def sample_store_def) (rule exI [of _ "[0x5000, 0x6000, 0x7000]"], simp)
qed

lemma sample_unfolds: "unfolds sample_objects sample_tree"
  by (simp add: sample_tree_def sample_objects_def object_ok_def subobjects_def zero_operand_def ACPI_TYPE_INTEGER_def ACPI_TYPE_PACKAGE_def
      ACPI_TYPE_BUFFER_FIELD_def ACPI_TYPE_LOCAL_BANK_FIELD_def ACPI_TYPE_LOCAL_INDEX_FIELD_def ACPI_TYPE_LOCAL_REFERENCE_def)

lemma sample_visits: "visits sample_tree = [0x1000, 0x2000, 0x3000, 0x2000]"
  by (simp add: sample_tree_def visits.simps)

theorem reference_counts_exact_witness:
  "\<exists>s'. AcpiUtUpdateObjectReference (acpi_env (\<lambda>_. 0) (\<lambda>_. 0) (\<lambda>_ _. True) (\<lambda>_ _. None)) 0x1000 REF_DECREMENT sample_store = Some (AE_OK, s')
    \<and> (\<forall>a. objects s' a = None) \<and> live (SHeap s') = live (SHeap sample_store)"
proof -
  have room: "room REF_DECREMENT (count_list (visits sample_tree) a) ob" if "objects sample_store a = Some ob" for a ob
    using that
    by (auto simp: sample_visits sample_objects_def room_def plain_def zero_operand_def ACPI_TYPE_INTEGER_def ACPI_TYPE_PACKAGE_def
        ACPI_TYPE_DEVICE_def ACPI_TYPE_PROCESSOR_def ACPI_TYPE_THERMAL_def ACPI_TYPE_MUTEX_def ACPI_TYPE_REGION_def ACPI_TYPE_METHOD_def
        ACPI_TYPE_BUFFER_FIELD_def ACPI_TYPE_LOCAL_BANK_FIELD_def split: if_splits)
  have none: "Option.bind (sample_objects a) (counted REF_DECREMENT (count_list (visits sample_tree) a)) = None" for a
    by (auto simp: sample_visits sample_objects_def counted_def zero_operand_def)
  have depth: "\<not> unat (CurrentDepth (SCache sample_store)) < length (visits sample_tree) - 1"
    by (simp add: sample_store_def sample_visits)
  have "root sample_tree = 0x1000" by (simp add: sample_tree_def)
  with reference_counts_exact [OF sample_inv, of sample_tree REF_DECREMENT "\<lambda>_. 0" "\<lambda>_. 0" "\<lambda>_ _. True" "\<lambda>_ _. None", OF _ room]
  show ?thesis using sample_unfolds none depth by auto
qed

text \<open>
  C16. Adding a reference to an object and removing it again restores the counts of the object and of everything it refers to, and
  releases nothing, if no state was missing in between: \<open>AcpiUtRemoveReference\<close> undoes \<open>AcpiUtAddReference\<close>. The objects are in
  use, so that their counts are not zero, and the counts do not wrap.
\<close>

lemma counted_undo: "0 < unat (op_ReferenceCount ob) \<Longrightarrow> unat (op_ReferenceCount ob) + n < 2 ^ 16 \<Longrightarrow>
    Option.bind (counted REF_INCREMENT n ob) (counted REF_DECREMENT n) = Some ob"
  by (auto simp: counted_def unat_add_nowrap unat_of_nat_lt)

lemma add_reference_counts:
  assumes "cache_inv (OCache s) (OHeap s)" and "cache_inv (SCache s) (SHeap s)" and "unfolds (objects s) t"
    and "roomy REF_INCREMENT (occ [t]) (objects s)"
  shows "\<exists>s'. AcpiUtAddReference (acpi_env pick pick' alloc ext) (root t) s = Some s'
    \<and> cache_inv (OCache s') (OHeap s') \<and> cache_inv (SCache s') (SHeap s') \<and> live (SHeap s') = live (SHeap s)
    \<and> (objects s' = counts REF_INCREMENT (occ [t]) (objects s) \<or> unat (CurrentDepth (SCache s)) < length (visits t) - 1)"
proof -
  obtain ob where "objects s (root t) = Some ob" "object_ok ob" "root t \<noteq> 0" using assms(3) by (rule unfoldsE)
  then have "AcpiUtValidInternalObject (root t) s = Some True" by (simp add: AcpiUtValidInternalObject_def object_ok_def)
  with update_object_reference [OF assms, of pick pick' alloc ext] show ?thesis by (auto simp: AcpiUtAddReference_def)
qed

lemma remove_reference_counts:
  assumes "cache_inv (OCache s) (OHeap s)" and "cache_inv (SCache s) (SHeap s)" and "unfolds (objects s) t"
    and "roomy REF_DECREMENT (occ [t]) (objects s)"
  shows "\<exists>s'. AcpiUtRemoveReference (acpi_env pick pick' alloc ext) (root t) s = Some s'
    \<and> cache_inv (OCache s') (OHeap s') \<and> cache_inv (SCache s') (SHeap s') \<and> live (SHeap s') = live (SHeap s)
    \<and> (objects s' = counts REF_DECREMENT (occ [t]) (objects s) \<or> unat (CurrentDepth (SCache s)) < length (visits t) - 1)"
proof -
  obtain ob where "objects s (root t) = Some ob" "object_ok ob" "root t \<noteq> 0" using assms(3) by (rule unfoldsE)
  then have "AcpiUtValidInternalObject (root t) s = Some True" and "objects s (root t) = Some ob" "root t \<noteq> 0"
    and "op_DescriptorType ob \<noteq> ACPI_DESC_TYPE_NAMED"
    by (simp_all add: AcpiUtValidInternalObject_def object_ok_def ACPI_DESC_TYPE_OPERAND_def ACPI_DESC_TYPE_NAMED_def)
  with update_object_reference [OF assms, of pick pick' alloc ext] show ?thesis by (auto simp: AcpiUtRemoveReference_def)
qed

theorem add_remove_reference:
  assumes inv: "cache_inv (OCache s) (OHeap s)" "cache_inv (SCache s) (SHeap s)" and t: "unfolds (objects s) t"
    and used: "\<And>a ob. a \<in> set (visits t) \<Longrightarrow> objects s a = Some ob \<Longrightarrow>
      0 < unat (op_ReferenceCount ob) \<and> unat (op_ReferenceCount ob) + count_list (visits t) a < 2 ^ 16"
    and enough: "length (visits t) - 1 \<le> unat (CurrentDepth (SCache s))"
  shows "\<exists>s1. AcpiUtAddReference (acpi_env pick pick' alloc ext) (root t) s = Some s1
    \<and> (length (visits t) - 1 \<le> unat (CurrentDepth (SCache s1)) \<longrightarrow>
        (\<exists>s2. AcpiUtRemoveReference (acpi_env pick pick' alloc ext) (root t) s1 = Some s2
          \<and> objects s2 = objects s \<and> live (SHeap s2) = live (SHeap s)))"
proof -
  let ?n = "occ [t]"
  have n: "?n a = count_list (visits t) a" for a by simp
  have used': "0 < unat (op_ReferenceCount ob) \<and> unat (op_ReferenceCount ob) + ?n a < 2 ^ 16 \<or> ?n a = 0" if "objects s a = Some ob" for a ob
    using used [OF _ that] n count_list_pos [of "visits t" a] by fastforce
  have room: "roomy REF_INCREMENT ?n (objects s)" using used' by (force simp: roomy_def room_def)
  from add_reference_counts [OF inv t room, of pick pick' alloc ext] enough obtain s1 where
    s1: "AcpiUtAddReference (acpi_env pick pick' alloc ext) (root t) s = Some s1" "cache_inv (OCache s1) (OHeap s1)"
      "cache_inv (SCache s1) (SHeap s1)" "live (SHeap s1) = live (SHeap s)" "objects s1 = counts REF_INCREMENT ?n (objects s)" by auto
  have added: "\<exists>m. objects s1 a = Some (ob\<lparr>op_ReferenceCount := m\<rparr>)" if "objects s a = Some ob" for a ob
    using that counted_shape unfolding s1(5) counts_def by (auto simp: counted_def intro: exI [of _ "op_ReferenceCount ob"])
  have "unfolds (objects s1) t" by (rule unfolds_cong [OF t added])
  moreover have "roomy REF_DECREMENT ?n (objects s1)"
    unfolding roomy_def
  proof (intro allI impI)
    fix a ob1 assume "objects s1 a = Some ob1"
    then obtain ob where ob: "objects s a = Some ob" "counted REF_INCREMENT (?n a) ob = Some ob1" unfolding s1(5) counts_def by (auto simp: bind_eq_Some_conv)
    then show "room REF_DECREMENT (?n a) ob1"
      using used' [OF ob(1)] by (auto simp: counted_def room_def unat_add_nowrap unat_of_nat_lt split: if_splits)
  qed
  ultimately obtain s2 where s2: "AcpiUtRemoveReference (acpi_env pick pick' alloc ext) (root t) s1 = Some s2" "live (SHeap s2) = live (SHeap s1)"
      "objects s2 = counts REF_DECREMENT ?n (objects s1) \<or> unat (CurrentDepth (SCache s1)) < length (visits t) - 1"
    using remove_reference_counts [OF s1(2,3)] by blast
  have "counts REF_DECREMENT ?n (objects s1) a = objects s a" for a
  proof (cases "objects s a")
    case (Some ob)
    then show ?thesis
      using used' [OF Some] counted_undo [of ob "?n a"] by (auto simp: s1(5) counts_def simp del: occ_simps)
  qed (simp add: s1(5) counts_def)
  then have "counts REF_DECREMENT ?n (objects s1) = objects s" by blast
  then show ?thesis using s1(1,4) s2 by auto
qed

theorem add_remove_reference_witness:
  "\<exists>s1. AcpiUtAddReference (acpi_env (\<lambda>_. 0) (\<lambda>_. 0) (\<lambda>_ _. True) (\<lambda>_ _. None)) 0x1000 sample_store = Some s1
    \<and> (3 \<le> unat (CurrentDepth (SCache s1)) \<longrightarrow>
        (\<exists>s2. AcpiUtRemoveReference (acpi_env (\<lambda>_. 0) (\<lambda>_. 0) (\<lambda>_ _. True) (\<lambda>_ _. None)) 0x1000 s1 = Some s2
          \<and> objects s2 = objects sample_store \<and> live (SHeap s2) = live (SHeap sample_store)))"
proof -
  have used: "0 < unat (op_ReferenceCount ob) \<and> unat (op_ReferenceCount ob) + count_list (visits sample_tree) a < 2 ^ 16"
    if "a \<in> set (visits sample_tree)" "objects sample_store a = Some ob" for a ob
    using that by (auto simp: sample_visits sample_objects_def zero_operand_def split: if_splits)
  have depth: "length (visits sample_tree) - 1 \<le> unat (CurrentDepth (SCache sample_store))"
    by (simp add: sample_store_def sample_visits)
  have "root sample_tree = 0x1000" "length (visits sample_tree) - 1 = 3" by (simp_all add: sample_tree_def visits.simps)
  with add_remove_reference [OF sample_inv, of sample_tree "\<lambda>_. 0" "\<lambda>_. 0" "\<lambda>_ _. True" "\<lambda>_ _. None", OF _ used depth]
  show ?thesis using sample_unfolds by simp
qed


text \<open>A package with an empty package and a reference to a node; the last reference to it is removed.\<close>

definition alias_objects :: "addr \<Rightarrow> operand_object option" where
  "alias_objects =
     [0x1000 \<mapsto> zero_operand\<lparr>op_DescriptorType := ACPI_DESC_TYPE_OPERAND, op_Type := ACPI_TYPE_PACKAGE, op_ReferenceCount := 1,
                  op_Count := 2, op_Elements := Some [0x2000, 0x3000, 0]\<rparr>,
      0x2000 \<mapsto> zero_operand\<lparr>op_DescriptorType := ACPI_DESC_TYPE_OPERAND, op_Type := ACPI_TYPE_PACKAGE, op_ReferenceCount := 1,
                  op_Count := 0, op_Elements := Some [0]\<rparr>,
      0x3000 \<mapsto> zero_operand\<lparr>op_DescriptorType := ACPI_DESC_TYPE_OPERAND, op_Type := ACPI_TYPE_LOCAL_REFERENCE, op_ReferenceCount := 1,
                  op_Class := ACPI_REFCLASS_NAME, op_Object := 0x4000\<rparr>,
      0x4000 \<mapsto> zero_operand\<lparr>op_DescriptorType := ACPI_DESC_TYPE_NAMED, op_Type := ACPI_TYPE_DEVICE\<rparr>]"

definition alias_store :: "(memory_list, memory_list) ostate" where
  "alias_store = sample_store\<lparr>OHeap := (\<lambda>a. map_option Object (alias_objects a))\<rparr>"

lemmas reference_eval =
  alias_store_def sample_store_def alias_objects_def live_def zero_operand_def zero_state_def
  ACPI_DESC_TYPE_OPERAND_def ACPI_DESC_TYPE_NAMED_def ACPI_TYPE_PACKAGE_def ACPI_TYPE_DEVICE_def ACPI_TYPE_PROCESSOR_def
  ACPI_TYPE_POWER_def ACPI_TYPE_THERMAL_def ACPI_TYPE_LOCAL_REFERENCE_def ACPI_TYPE_INTEGER_def ACPI_TYPE_STRING_def
  ACPI_TYPE_BUFFER_def ACPI_TYPE_BUFFER_FIELD_def ACPI_TYPE_LOCAL_BANK_FIELD_def ACPI_TYPE_LOCAL_INDEX_FIELD_def
  ACPI_TYPE_MUTEX_def ACPI_TYPE_REGION_def ACPI_TYPE_METHOD_def ACPI_REFCLASS_NAME_def ACPI_REFCLASS_INDEX_def
  update_subobjects_def AcpiUtCreateUpdateStateAndPush_def AcpiUtCreateUpdateState_def AcpiUtCreateGenericState_def create_with_def
  cache_acquire_def AcpiOsAcquireObject_def descriptor_ptr_def modify_def AcpiUtPushGenericState_def
  AcpiUtUpdateRefCount_def set_op_def AcpiUtDeleteInternalObj_def AcpiUtDeleteObjectDesc_def cache_release_def AcpiOsReleaseObject_def
  AcpiUtPopGenericState_def AcpiUtDeleteGenericState_def Let_def


end
