(* ===== verification/ExText.thy ===== *)
theory ExText
  imports StrConv
begin

text \<open>
  The texts of numbers: \<open>AcpiExConvertToAscii\<close> and the loop over the bytes of a buffer of \<^verbatim>\<open>components/executer/exconvrt.c\<close>, and the
  string routines of \<^verbatim>\<open>exutils.c\<close>.

  A pointer into the memory for a string is the list of its bytes with an index. A store at an index outside of
  the memory is \<open>None\<close>.
\<close>

section \<open>The code\<close>

definition ACPI_MAX64_DECIMAL_DIGITS :: nat where "ACPI_MAX64_DECIMAL_DIGITS = 20"
definition ACPI_MAX32_DECIMAL_DIGITS :: nat where "ACPI_MAX32_DECIMAL_DIGITS = 10"
definition ACPI_MAX8_DECIMAL_DIGITS :: nat where "ACPI_MAX8_DECIMAL_DIGITS = 3"

text \<open>\<open>p[k] = b\<close> in a memory of known size.\<close>

definition put :: "nat \<Rightarrow> u8 \<Rightarrow> u8 list \<Rightarrow> u8 list option" where
  "put k b buf = (if k < length buf then Some (buf[k := b]) else None)"

text \<open>\<open>j\<close> divisions by ten: the last quotient and remainder.\<close>

fun divide_times :: "nat \<Rightarrow> u64 \<Rightarrow> u32 \<Rightarrow> u64 \<times> u32" where
  "divide_times 0 Digit Remainder = (Digit, Remainder)"
| "divide_times (Suc j) Digit Remainder =
     (case AcpiUtShortDivide_native Digit 10 True True of
        (_, Some q, Some r) \<Rightarrow> divide_times j q r
      | _ \<Rightarrow> divide_times j Digit Remainder)"

text \<open>
  The decimal digits from the \<open>i\<close>-th on, written at \<open>String + k\<close>, where \<open>String\<close> is at the index \<open>pos\<close>; \<open>k\<close> counts what has been written.
\<close>

fun decimal_loop :: "nat \<Rightarrow> u64 \<Rightarrow> bool \<Rightarrow> u32 \<Rightarrow> nat \<Rightarrow> nat \<Rightarrow> u8 list \<Rightarrow> (nat \<times> u8 list) option" where
  "decimal_loop 0 Integer SupressZeros Remainder k pos buf = Some (k, buf)"
| "decimal_loop (Suc i) Integer SupressZeros Remainder k pos buf =
     (let (_, Remainder) = divide_times (Suc i) Integer Remainder;
          SupressZeros = (if Remainder \<noteq> 0 then False else SupressZeros)
      in if \<not> SupressZeros
         then Option.bind (put (pos + k) (ucast (ucast ACPI_ASCII_ZERO + Remainder)) buf)
                (decimal_loop i Integer SupressZeros Remainder (k + 1) pos)
         else decimal_loop i Integer SupressZeros Remainder k pos buf)"

text \<open>The hexadecimal digits from the nibble below \<open>j\<close> down.\<close>

fun hex_loop :: "nat \<Rightarrow> u64 \<Rightarrow> nat \<Rightarrow> nat \<Rightarrow> u8 list \<Rightarrow> (nat \<times> u8 list) option" where
  "hex_loop 0 Integer k pos buf = Some (k, buf)"
| "hex_loop (Suc j) Integer k pos buf =
     Option.bind (AcpiUtHexToAsciiChar Integer (of_nat (4 * j))) (\<lambda>c.
     Option.bind (put (pos + k) c buf) (hex_loop j Integer (k + 1) pos))"

text \<open>The length of the text and the memory.\<close>

definition AcpiExConvertToAscii :: "u64 \<Rightarrow> u16 \<Rightarrow> u8 \<Rightarrow> nat \<Rightarrow> u8 list \<Rightarrow> (nat \<times> u8 list) option" where
  "AcpiExConvertToAscii Integer Base DataWidth pos buf =
     (if Base = 10 \<or> Base = 16
      then Option.bind
             (if Base = 10
              then let DecimalLength = (if DataWidth = 1 then ACPI_MAX8_DECIMAL_DIGITS
                                        else if DataWidth = 4 then ACPI_MAX32_DECIMAL_DIGITS else ACPI_MAX64_DECIMAL_DIGITS)
                   in decimal_loop DecimalLength Integer True 0 0 pos buf
              else hex_loop (unat DataWidth * 2) Integer 0 pos buf)
             (\<lambda>(k, buf).
                Option.bind (if k = 0 then map_option (Pair 1) (put pos ACPI_ASCII_ZERO buf) else Some (k, buf)) (\<lambda>(k, buf).
                map_option (Pair k) (put (pos + k) 0 buf)))
      else Some (0, buf))"

text \<open>The length of the decimal text of the bytes, with a separator after each.\<close>

fun decimal_length :: "u8 list \<Rightarrow> u32 \<Rightarrow> u32" where
  "decimal_length [] StringLength = StringLength"
| "decimal_length (b # bs) StringLength =
     decimal_length bs (StringLength + (if b \<ge> 100 then 4 else if b \<ge> 10 then 3 else 2))"

text \<open>The text of the bytes; the index of \<open>NewBuf\<close> and the memory.\<close>

fun string_loop :: "u8 list \<Rightarrow> u16 \<Rightarrow> u8 \<Rightarrow> nat \<Rightarrow> u8 list \<Rightarrow> (nat \<times> u8 list) option" where
  "string_loop [] Base Separator pos buf = Some (pos, buf)"
| "string_loop (b # bs) Base Separator pos buf =
     Option.bind (if Base = 16
                  then map_option (Pair (pos + 2)) (Option.bind (put pos 48 buf) (put (pos + 1) 120))
                  else Some (pos, buf)) (\<lambda>(pos, buf).
     Option.bind (AcpiExConvertToAscii (ucast b) Base 1 pos buf) (\<lambda>(n, buf).
     Option.bind (put (pos + n) Separator buf) (string_loop bs Base Separator (pos + n + 1))))"

definition AcpiUtDwordByteSwap :: "u32 \<Rightarrow> u32" where
  "AcpiUtDwordByteSwap Value =
     push_bit 24 (Value AND 0xFF) OR push_bit 16 (drop_bit 8 Value AND 0xFF) OR push_bit 8 (drop_bit 16 Value AND 0xFF) OR drop_bit 24 Value"

text \<open>The count loop; a base of zero would divide forever.\<close>

partial_function (option) digits_needed_loop :: "u64 \<Rightarrow> u32 \<Rightarrow> u32 \<Rightarrow> u32 option" where
  "digits_needed_loop CurrentValue Base NumDigits =
     (if CurrentValue \<noteq> 0
      then case AcpiUtShortDivide_native CurrentValue Base True False of
             (_, Some q, _) \<Rightarrow> digits_needed_loop q Base (NumDigits + 1)
           | (_, None, _) \<Rightarrow> digits_needed_loop CurrentValue Base (NumDigits + 1)
      else Some NumDigits)"

definition AcpiExDigitsNeeded :: "u64 \<Rightarrow> u32 \<Rightarrow> u32 option" where
  "AcpiExDigitsNeeded Value Base = (if Value = 0 then Some 1 else digits_needed_loop Value Base 0)"

fun integer_loop :: "nat \<Rightarrow> u64 \<Rightarrow> u8 list \<Rightarrow> u8 list option" where
  "integer_loop 0 Value OutString = Some OutString"
| "integer_loop (Suc Count) Value OutString =
     (case AcpiUtShortDivide_native Value 10 True True of
        (_, Some q, Some r) \<Rightarrow> Option.bind (put Count (ucast (48 + r)) OutString) (integer_loop Count q)
      | _ \<Rightarrow> None)"

definition AcpiExIntegerToString :: "u8 list \<Rightarrow> u64 \<Rightarrow> u8 list option" where
  "AcpiExIntegerToString OutString Value =
     Option.bind (AcpiExDigitsNeeded Value 10) (\<lambda>DigitsNeeded.
     Option.bind (put (unat DigitsNeeded) 0 OutString) (integer_loop (unat DigitsNeeded) Value))"

text \<open>Bytes stored one after the other from the start of the memory on.\<close>

fun put_all :: "nat \<Rightarrow> u8 option list \<Rightarrow> u8 list \<Rightarrow> u8 list option" where
  "put_all k [] buf = Some buf"
| "put_all k (b # bs) buf = Option.bind b (\<lambda>b. Option.bind (put k b buf) (put_all (k + 1) bs))"

definition AcpiExEisaIdToString :: "u8 list \<Rightarrow> u64 \<Rightarrow> u8 list option" where
  "AcpiExEisaIdToString OutString CompressedId =
     (let SwappedId = AcpiUtDwordByteSwap (ucast CompressedId)
      in put_all 0
           [Some (0x40 + (ucast (drop_bit 26 SwappedId) AND 0x1F)), Some (0x40 + (ucast (drop_bit 21 SwappedId) AND 0x1F)),
            Some (0x40 + (ucast (drop_bit 16 SwappedId) AND 0x1F)), AcpiUtHexToAsciiChar (ucast SwappedId) 12,
            AcpiUtHexToAsciiChar (ucast SwappedId) 8, AcpiUtHexToAsciiChar (ucast SwappedId) 4,
            AcpiUtHexToAsciiChar (ucast SwappedId) 0, Some 0] OutString)"

definition AcpiExPciClsToString :: "u8 list \<Rightarrow> u8 \<times> u8 \<times> u8 \<Rightarrow> u8 list option" where
  "AcpiExPciClsToString OutString ClassCode =
     (case ClassCode of (c0, c1, c2) \<Rightarrow>
        put_all 0
          [AcpiUtHexToAsciiChar (ucast c0) 4, AcpiUtHexToAsciiChar (ucast c0) 0, AcpiUtHexToAsciiChar (ucast c1) 4,
           AcpiUtHexToAsciiChar (ucast c1) 0, AcpiUtHexToAsciiChar (ucast c2) 4, AcpiUtHexToAsciiChar (ucast c2) 0, Some 0] OutString)"

section \<open>Decimal and hexadecimal texts\<close>

text \<open>The decimal notation of a number, and its last \<open>i\<close> digits.\<close>

definition dig :: "nat \<Rightarrow> u8" where
  "dig d = of_nat (48 + d)"

fun decimal :: "nat \<Rightarrow> u8 list" where
  "decimal n = (if n < 10 then [dig n] else decimal (n div 10) @ [dig (n mod 10)])"

declare decimal.simps [simp del]

fun digs :: "nat \<Rightarrow> nat \<Rightarrow> u8 list" where
  "digs 0 n = []"
| "digs (Suc i) n = dig (n div 10 ^ i mod 10) # digs i n"

lemma length_digs [simp]: "length (digs i n) = i"
  by (induction i) simp_all

lemma digs_last: "digs (Suc i) n = digs i (n div 10) @ [dig (n mod 10)]"
proof (induction i)
  case (Suc i)
  have "n div 10 ^ Suc i = n div 10 div 10 ^ i" by (simp add: div_mult2_eq)
  then have "digs (Suc (Suc i)) n = dig (n div 10 div 10 ^ i mod 10) # digs (Suc i) n" by simp
  then show ?case by (simp only: Suc) simp
qed simp

lemma dig_table: "list_all (\<lambda>d. digit_val (dig d) = d \<and> isdigit (sint (dig d)) \<and> dig d \<noteq> 0 \<and> (dig d = 48 \<longleftrightarrow> d = 0)) [0..<10]"
  by code_simp

lemma dig:
  assumes "d < 10"
  shows "digit_val (dig d) = d" "isdigit (sint (dig d))" "dig d \<noteq> 0" "dig d = 48 \<longleftrightarrow> d = 0"
proof -
  have "d \<in> set [0..<10]" using assms by simp
  with dig_table show "digit_val (dig d) = d" "isdigit (sint (dig d))" "dig d \<noteq> 0" "dig d = 48 \<longleftrightarrow> d = 0"
    unfolding list_all_iff by blast+
qed

text \<open>Without leading zeros the digits are the decimal notation.\<close>

definition strip :: "u8 list \<Rightarrow> u8 list" where
  "strip ds = dropWhile (\<lambda>c. c = 48) ds"

lemma strip_digs: "n < 10 ^ i \<Longrightarrow> strip (digs i n) = (if n = 0 then [] else decimal n)"
proof (induction i arbitrary: n)
  case (Suc i)
  then have IH: "strip (digs i (n div 10)) = (if n div 10 = 0 then [] else decimal (n div 10))" by (intro Suc.IH) (simp add: less_mult_imp_div_less mult.commute)
  have d: "dig (n mod 10) = 48 \<longleftrightarrow> n mod 10 = 0" by (rule dig(4)) simp
  show ?case
  proof (cases "n < 10")
    case True
    then have "set (digs i (n div 10)) \<subseteq> {48}" using IH unfolding strip_def by (metis (mono_tags, lifting) div_less dropWhile_eq_Nil_conv insertI1 subsetI)
    then have "strip (digs (Suc i) n) = strip [dig (n mod 10)]"
      unfolding digs_last strip_def by (subst dropWhile_append2) auto
    then show ?thesis using True d by (auto simp: strip_def decimal.simps [of n])
  next
    case False
    then have nz: "n div 10 \<noteq> 0" by simp
    then have "strip (digs i (n div 10)) \<noteq> []" using IH by (subst (asm) decimal.simps) (auto split: if_splits)
    then have "\<not> (\<forall>c \<in> set (digs i (n div 10)). c = 48)" unfolding strip_def by (simp add: dropWhile_eq_Nil_conv)
    then have "strip (digs (Suc i) n) = strip (digs i (n div 10)) @ [dig (n mod 10)]"
      unfolding digs_last strip_def by (auto simp: dropWhile_append1)
    then show ?thesis using False IH nz decimal.simps [of n] by simp
  qed
qed (simp add: strip_def)

lemma value_decimal: "value_of 10 0 (decimal n) = n"
proof (induction n rule: decimal.induct)
  case (1 n)
  show ?case
  proof (cases "n < 10")
    case True
    then show ?thesis using dig(1) [of n] by (simp add: decimal.simps [of n])
  next
    case False
    then show ?thesis using 1 dig(1) [of "n mod 10"] by (simp add: decimal.simps [of n] value_of_def)
  qed
qed

lemma digits_decimal: "digits isdigit (decimal n)" and decimal_not_Nil: "decimal n \<noteq> []"
proof -
  show "digits isdigit (decimal n)"
  proof (induction n rule: decimal.induct)
    case (1 n)
    then show ?case
      using dig(2,3) [of n] dig(2,3) [of "n mod 10"] by (subst decimal.simps) (auto simp: digits_def)
  qed
  show "decimal n \<noteq> []" by (subst decimal.simps) simp
qed

section \<open>What the loops stored\<close>

definition stored :: "nat \<Rightarrow> u8 list \<Rightarrow> u8 list \<Rightarrow> u8 list" where
  "stored pos bs buf = take pos buf @ bs @ drop (pos + length bs) buf"

lemma stored_Nil [simp]: "stored pos [] buf = buf"
  by (simp add: stored_def)

lemma length_stored [simp]: "pos + length bs \<le> length buf \<Longrightarrow> length (stored pos bs buf) = length buf"
  by (simp add: stored_def)

lemma put_stored: "k < length buf \<Longrightarrow> put k b buf = Some (stored k [b] buf)"
  by (simp add: put_def stored_def upd_conv_take_nth_drop)

lemma stored_stored: "pos + length bs + length cs \<le> length buf \<Longrightarrow> stored (pos + length bs) cs (stored pos bs buf) = stored pos (bs @ cs) buf"
  by (auto simp: stored_def min_def ac_simps) (simp flip: length_0_conv)

lemma put_after: "pos + length bs < length buf \<Longrightarrow> put (pos + length bs) b (stored pos bs buf) = Some (stored pos (bs @ [b]) buf)"
  using put_stored [of "pos + length bs" "stored pos bs buf" b] stored_stored [of pos bs "[b]" buf] by simp

text \<open>What has been written beyond an index does not matter once it is written again.\<close>

lemma stored_prefix: "length bs \<le> length cs \<Longrightarrow> pos + length cs \<le> length buf \<Longrightarrow> stored pos cs (stored pos bs buf) = stored pos cs buf"
  by (auto simp: stored_def min_def ac_simps) (simp flip: length_0_conv)

lemma short_divide_10: "AcpiUtShortDivide_native v 10 True True = (AE_OK, Some (v div 10), Some (of_nat (unat v mod 10)))"
proof -
  have "(ucast (10 :: u32) :: u64) = 10" by simp
  moreover have "(ucast (v mod 10) :: u32) = of_nat (unat v mod 10)" by (simp add: word_unat_eq_iff unat_mod unsigned_ucast_eq unsigned_of_nat)
  ultimately show ?thesis by (simp add: AcpiUtShortDivide_native_def)
qed

lemma divide_times_eq:
  "snd (divide_times (Suc j) v r) = of_nat (unat v div 10 ^ j mod 10)"
proof (induction j arbitrary: v r)
  case (Suc j)
  have "divide_times (Suc (Suc j)) v r = divide_times (Suc j) (v div 10) (of_nat (unat v mod 10))"
    by (simp only: divide_times.simps(2) [of "Suc j"] short_divide_10 prod.case option.case)
  then show ?case using Suc [of "v div 10"] by (simp add: unat_div div_mult2_eq)
qed (simp add: short_divide_10)

lemma digit_char: "d < 10 \<Longrightarrow> ucast (ucast ACPI_ASCII_ZERO + (of_nat d :: u32)) = dig d"
  by (simp add: dig_def ACPI_ASCII_ZERO_def word_unat_eq_iff unsigned_ucast_eq unsigned_of_nat unat_word_ariths take_bit_eq_mod)

text \<open>The digits that the decimal loop writes.\<close>

definition out :: "bool \<Rightarrow> u8 list \<Rightarrow> u8 list" where
  "out suppress ds = (if suppress then strip ds else ds)"

lemma decimal_loop_stored:
  "pos + k + length (out z (digs i (unat v))) \<le> length buf \<Longrightarrow>
     decimal_loop i v z r k pos buf = Some (k + length (out z (digs i (unat v))), stored (pos + k) (out z (digs i (unat v))) buf)"
proof (induction i arbitrary: z r k buf)
  case (Suc i)
  let ?d = "unat v div 10 ^ i mod 10"
  have d: "?d < 10" by simp
  have r: "snd (divide_times (Suc i) v r) = of_nat ?d" by (rule divide_times_eq)
  have z: "(of_nat ?d :: u32) \<noteq> 0 \<longleftrightarrow> ?d \<noteq> 0" by (simp add: word_unat_eq_iff unsigned_of_nat take_bit_eq_mod)
  show ?case
  proof (cases "z \<and> ?d = 0")
    case True
    then have "out z (digs (Suc i) (unat v)) = out z (digs i (unat v))" using dig(4) [OF d] by (simp add: out_def strip_def)
    then show ?thesis
      using Suc.IH [of k z buf "of_nat ?d"] Suc.prems True r by (simp add: case_prod_unfold Let_def)
  next
    case False
    then have o: "out z (digs (Suc i) (unat v)) = dig ?d # digs i (unat v)" using dig(4) [OF d] by (auto simp: out_def strip_def)
    have z': "(if (of_nat ?d :: u32) \<noteq> 0 then False else z) = False" using False z by auto
    have p: "put (pos + k) (dig ?d) buf = Some (stored (pos + k) [dig ?d] buf)" using Suc.prems o by (intro put_stored) simp
    have IH: "decimal_loop i v False (of_nat ?d) (k + 1) pos (stored (pos + k) [dig ?d] buf) =
        Some (k + 1 + i, stored (pos + k) (dig ?d # digs i (unat v)) buf)"
      using Suc.IH [of "k + 1" False "stored (pos + k) [dig ?d] buf" "of_nat ?d"] Suc.prems o
        stored_stored [of "pos + k" "[dig ?d]" "digs i (unat v)" buf] by (simp add: out_def)
    have "decimal_loop (Suc i) v z r k pos buf =
        Option.bind (put (pos + k) (ucast (ucast ACPI_ASCII_ZERO + (of_nat ?d :: u32))) buf) (decimal_loop i v False (of_nat ?d) (k + 1) pos)"
      using r z' by (simp add: case_prod_unfold Let_def del: divide_times.simps)
    then show ?thesis using IH p o digit_char [OF d] by simp
  qed
qed (simp add: out_def strip_def)

lemma hex_digits_first: "hex_digits (Suc j) n = AcpiGbl_HexToAscii ! (n div 16 ^ j mod 16) # hex_digits j n"
  by (simp add: hex_digits_def upt_conv_Cons map_Suc_upt [symmetric] del: upt_Suc)

lemma length_hex_digits [simp]: "length (hex_digits j n) = j"
  by (simp add: hex_digits_def)

lemma hex_loop_stored:
  "j \<le> 16 \<Longrightarrow> pos + k + j \<le> length buf \<Longrightarrow>
     hex_loop j v k pos buf = Some (k + j, stored (pos + k) (hex_digits j (unat v)) buf)"
proof (induction j arbitrary: k buf)
  case (Suc j)
  let ?c = "AcpiGbl_HexToAscii ! (unat v div 16 ^ j mod 16)"
  have u: "unat (of_nat (4 * j) :: u32) = 4 * j" using Suc.prems(1) by (intro unat_of_nat_lt) simp
  have "(2 :: nat) ^ (4 * j) = 16 ^ j" by (simp add: power_mult)
  then have c: "AcpiUtHexToAsciiChar v (of_nat (4 * j)) = Some ?c"
    using HexToAsciiChar_spec [of "of_nat (4 * j)" v] Suc.prems(1) u by simp
  have "hex_loop j v (k + 1) pos (stored (pos + k) [?c] buf) = Some (k + 1 + j, stored (pos + k + 1) (hex_digits j (unat v)) (stored (pos + k) [?c] buf))"
    using Suc.IH [of "k + 1" "stored (pos + k) [?c] buf"] Suc.prems by simp
  moreover have "stored (pos + k + 1) (hex_digits j (unat v)) (stored (pos + k) [?c] buf) = stored (pos + k) (?c # hex_digits j (unat v)) buf"
    using stored_stored [of "pos + k" "[?c]" "hex_digits j (unat v)" buf] Suc.prems by simp
  ultimately show ?case using c Suc.prems put_stored [of "pos + k" buf ?c] by (simp add: hex_digits_first)
qed (simp add: hex_digits_def)

text \<open>The text of a number in a base; a data item of \<open>w\<close> bytes has twice as many hexadecimal digits.\<close>

definition ascii :: "u16 \<Rightarrow> nat \<Rightarrow> nat \<Rightarrow> u8 list" where
  "ascii Base w n = (if Base = 10 then decimal n else hex_digits (2 * w) n)"

definition fits :: "u64 \<Rightarrow> u8 \<Rightarrow> bool" where
  "fits v w \<longleftrightarrow> w \<in> {1, 4, 8} \<and> unat v < 2 ^ (8 * unat w)"

lemma ConvertToAscii_stored:
  assumes "Base = 10 \<or> Base = 16" and w: "fits v w" and room: "pos + length (ascii Base (unat w) (unat v)) < length buf"
  shows "AcpiExConvertToAscii v Base w pos buf =
    Some (length (ascii Base (unat w) (unat v)), stored pos (ascii Base (unat w) (unat v) @ [0]) buf)"
proof (cases "Base = 10")
  case True
  define L where "L = (if w = 1 then ACPI_MAX8_DECIMAL_DIGITS else if w = 4 then ACPI_MAX32_DECIMAL_DIGITS else ACPI_MAX64_DECIMAL_DIGITS)"
  have "unat v < 10 ^ L"
    using w by (auto simp: fits_def L_def ACPI_MAX8_DECIMAL_DIGITS_def ACPI_MAX32_DECIMAL_DIGITS_def ACPI_MAX64_DECIMAL_DIGITS_def)
  then have ds: "out True (digs L (unat v)) = (if unat v = 0 then [] else decimal (unat v))" by (simp add: out_def strip_digs)
  show ?thesis
  proof (cases "v = 0")
    case zero: True
    then have "decimal_loop L v True 0 0 pos buf = Some (0, buf)" using decimal_loop_stored [of pos 0 True L v buf 0] ds room by simp
    moreover have "decimal (unat v) = [ACPI_ASCII_ZERO]" using zero by (simp add: decimal.simps dig_def ACPI_ASCII_ZERO_def)
    ultimately show ?thesis
      using True zero room put_stored [of pos buf ACPI_ASCII_ZERO] put_after [of pos "[ACPI_ASCII_ZERO]" buf 0]
      by (simp add: AcpiExConvertToAscii_def ascii_def flip: L_def)
  next
    case False
    then have "out True (digs L (unat v)) = decimal (unat v)" using ds by (simp add: unat_eq_zero)
    then have "decimal_loop L v True 0 0 pos buf = Some (length (decimal (unat v)), stored pos (decimal (unat v)) buf)"
      using decimal_loop_stored [of pos 0 True L v buf 0] room True by (simp add: ascii_def)
    then show ?thesis
      using True room put_after [of pos "decimal (unat v)" buf 0] decimal_not_Nil [of "unat v"]
      by (simp add: AcpiExConvertToAscii_def ascii_def flip: L_def)
  qed
next
  case False
  have "unat w * 2 \<le> 16" "0 < unat w" using w by (auto simp: fits_def)
  then have "hex_loop (unat w * 2) v 0 pos buf = Some (unat w * 2, stored pos (hex_digits (2 * unat w) (unat v)) buf)"
    using hex_loop_stored [of "unat w * 2" pos 0 buf v] room False by (simp add: ascii_def mult.commute)
  then show ?thesis
    using False assms(1) room put_after [of pos "hex_digits (2 * unat w) (unat v)" buf 0] \<open>0 < unat w\<close>
    by (simp add: AcpiExConvertToAscii_def ascii_def mult.commute)
qed

section \<open>The text of a buffer\<close>

text \<open>The texts of the elements of a list with a separator between them.\<close>

fun joined :: "('a \<Rightarrow> u8 list) \<Rightarrow> u8 \<Rightarrow> 'a list \<Rightarrow> u8 list" where
  "joined f sep [] = []"
| "joined f sep [b] = f b"
| "joined f sep (b # c # bs) = f b @ sep # joined f sep (c # bs)"

lemma concat_joined: "bs \<noteq> [] \<Longrightarrow> concat (map (\<lambda>b. f b @ [sep]) bs) = joined f sep bs @ [sep]"
  by (induction f sep bs rule: joined.induct) simp_all

definition byte_text :: "u16 \<Rightarrow> u8 \<Rightarrow> u8 list" where
  "byte_text Base b = (if Base = 16 then [48, 120] else []) @ ascii Base 1 (unat b)"

lemma fits_byte: "fits (ucast b) 1" for b :: u8
  using unat_lt8 [of b] by (simp add: fits_def unsigned_ucast_eq take_bit_nat_eq_self)

lemma string_loop_stored:
  "Base = 10 \<or> Base = 16 \<Longrightarrow> t = concat (map (\<lambda>b. byte_text Base b @ [sep]) bs) \<Longrightarrow> pos + length t \<le> length buf \<Longrightarrow>
     string_loop bs Base sep pos buf = Some (pos + length t, stored pos t buf)"
proof (induction bs arbitrary: pos buf t)
  case (Cons b bs)
  define p where "p = (if Base = 16 then [48, 120] else [] :: u8 list)"
  define a where "a = ascii Base 1 (unat b)"
  define u where "u = concat (map (\<lambda>b. byte_text Base b @ [sep]) bs)"
  have t: "t = (p @ a @ [sep]) @ u" using Cons.prems(2) by (simp add: byte_text_def p_def a_def u_def)
  have len: "pos + length p + length a + 1 + length u \<le> length buf" using Cons.prems(3) t by simp
  have 1: "(if Base = 16 then map_option (Pair (pos + 2)) (Option.bind (put pos 48 buf) (put (pos + 1) 120)) else Some (pos, buf)) =
      Some (pos + length p, stored pos p buf)"
  proof (cases "Base = 16")
    case True
    then have l: "pos + 1 < length buf" and p: "p = [48, 120]" using len by (simp_all add: p_def)
    have "put pos 48 buf = Some (stored pos [48] buf)" using l by (intro put_stored) simp
    then show ?thesis using put_after [of pos "[48]" buf 120] l p True by simp
  qed (simp add: p_def)
  have u8: "unat (ucast b :: u64) = unat b" using unat_lt8 [of b] by (simp add: unsigned_ucast_eq take_bit_nat_eq_self)
  have "AcpiExConvertToAscii (ucast b) Base 1 (pos + length p) (stored pos p buf) =
      Some (length a, stored (pos + length p) (a @ [0]) (stored pos p buf))"
    using ConvertToAscii_stored [OF Cons.prems(1) fits_byte [of b], of "pos + length p" "stored pos p buf"] len u8 by (simp add: a_def)
  also have "stored (pos + length p) (a @ [0]) (stored pos p buf) = stored pos (p @ a @ [0]) buf"
    using len by (intro stored_stored) simp
  finally have 2: "AcpiExConvertToAscii (ucast b) Base 1 (pos + length p) (stored pos p buf) = Some (length a, stored pos (p @ a @ [0]) buf)" .
  have "put (pos + length p + length a) sep (stored pos (p @ a @ [0]) buf) =
      Some (stored (pos + length (p @ a)) [sep] (stored pos (p @ a @ [0]) buf))"
    using len by (simp add: put_stored add.assoc)
  also have "stored (pos + length (p @ a)) [sep] (stored pos (p @ a @ [0]) buf) = stored pos (p @ a @ [sep]) buf"
  proof -
    have "stored pos (p @ a @ [0]) buf = stored (pos + length (p @ a)) [0] (stored pos (p @ a) buf)"
      using stored_stored [of pos "p @ a" "[0]" buf] len by simp
    then show ?thesis
      using stored_stored [of pos "p @ a" "[sep]" buf] stored_prefix [of "[0]" "[sep]" "pos + length (p @ a)" "stored pos (p @ a) buf"] len by simp
  qed
  finally have 3: "put (pos + length p + length a) sep (stored pos (p @ a @ [0]) buf) = Some (stored pos (p @ a @ [sep]) buf)" .
  have "string_loop bs Base sep (pos + length p + length a + 1) (stored pos (p @ a @ [sep]) buf) =
      Some (pos + length p + length a + 1 + length u, stored (pos + length p + length a + 1) u (stored pos (p @ a @ [sep]) buf))"
    using Cons.IH [OF Cons.prems(1), of u "pos + length p + length a + 1" "stored pos (p @ a @ [sep]) buf"] len by (simp add: u_def)
  also have "stored (pos + length p + length a + 1) u (stored pos (p @ a @ [sep]) buf) = stored pos t buf"
    using stored_stored [of pos "p @ a @ [sep]" u buf] len t by (simp add: add.assoc)
  finally show ?case using 1 2 3 t by (simp add: add.assoc)
qed simp

lemma length_decimal_byte: "length (decimal (unat b)) = (if b \<ge> 100 then 3 else if b \<ge> 10 then 2 else 1)" for b :: u8
proof -
  have "decimal n = [dig n]" if "n < 10" for n using that by (simp add: decimal.simps [of n])
  then have "length (decimal n) = (if n \<ge> 100 then 3 else if n \<ge> 10 then 2 else 1)" if "n < 256" for n
    using that by (simp add: decimal.simps [of n] decimal.simps [of "n div 10"] div_less_iff_less_mult)
  then show ?thesis using unat_lt8 [of b] by (simp add: word_le_nat_alt)
qed

lemma decimal_length_eq:
  "decimal_length bs L = L + of_nat (length (concat (map (\<lambda>b. byte_text 10 b @ [sep]) bs)))"
  by (induction bs arbitrary: L) (simp_all add: byte_text_def ascii_def length_decimal_byte)

lemma hex_length_eq: "length (concat (map (\<lambda>b. byte_text 16 b @ [sep]) bs)) = 5 * length bs"
  by (induction bs) (simp_all add: byte_text_def ascii_def)

lemma text_length_le: "Base = 10 \<or> Base = 16 \<Longrightarrow> length (concat (map (\<lambda>b. byte_text Base b @ [sep]) bs)) \<le> 5 * length bs"
  by (induction bs) (auto simp: byte_text_def ascii_def length_decimal_byte)

section \<open>Numbers as strings\<close>

lemma length_decimal_Suc: "\<not> n < 10 \<Longrightarrow> length (decimal n) = Suc (length (decimal (n div 10)))"
  by (subst decimal.simps) simp

lemma digs_decimal: "digs (length (decimal n)) n = decimal n"
proof (induction n rule: decimal.induct)
  case (1 n)
  show ?case
  proof (cases "n < 10")
    case True
    then show ?thesis by (simp add: decimal.simps [of n])
  next
    case False
    then show ?thesis using 1 length_decimal_Suc [OF False] decimal.simps [of n] by (simp only: digs_last) simp
  qed
qed

lemma length_decimal: "n < 10 ^ Suc i \<Longrightarrow> length (decimal n) \<le> Suc i"
proof (induction i arbitrary: n)
  case (Suc i)
  then show ?case
    using Suc.IH [of "n div 10"] length_decimal_Suc [of n] by (cases "n < 10") (simp_all add: decimal.simps [of n] less_mult_imp_div_less mult.commute)
qed (simp add: decimal.simps)

lemma length_decimal64: "length (decimal (unat v)) \<le> 20" for v :: u64
  using length_decimal [of "unat v" 19] unat_lt64 [of v] by simp

lemma digits_needed_loop_eq:
  "v \<noteq> 0 \<Longrightarrow> digits_needed_loop v 10 n = Some (n + of_nat (length (decimal (unat v))))"
proof (induction "unat v" arbitrary: v n rule: less_induct)
  case less
  have q: "AcpiUtShortDivide_native v 10 True False = (AE_OK, Some (v div 10), None)" by (simp add: AcpiUtShortDivide_native_def)
  have u: "unat (v div 10) = unat v div 10" by (simp add: unat_div)
  have step: "digits_needed_loop v 10 n = digits_needed_loop (v div 10) 10 (n + 1)"
    using less.prems by (subst digits_needed_loop.simps) (simp add: q)
  show ?case
  proof (cases "unat v < 10")
    case True
    then have "v div 10 = 0" using u by (simp add: word_unat_eq_iff)
    then show ?thesis using step True by (simp add: digits_needed_loop.simps [of 0] decimal.simps [of "unat v"])
  next
    case False
    then have "v div 10 \<noteq> 0" "unat (v div 10) < unat v" using u by (auto simp: word_unat_eq_iff)
    with less.hyps [of "v div 10" "n + 1"] show ?thesis using step u length_decimal_Suc [OF False] by simp
  qed
qed

lemma digits_needed: "AcpiExDigitsNeeded v 10 = Some (of_nat (length (decimal (unat v))))"
  by (simp add: AcpiExDigitsNeeded_def digits_needed_loop_eq decimal.simps [of 0])

lemma integer_loop_stored: "k \<le> length buf \<Longrightarrow> integer_loop k v buf = Some (stored 0 (digs k (unat v)) buf)"
proof (induction k arbitrary: v buf)
  case (Suc k)
  let ?b = "stored k [dig (unat v mod 10)] buf"
  have c: "(ucast (48 + (of_nat (unat v mod 10) :: u32)) :: u8) = dig (unat v mod 10)"
    using digit_char [of "unat v mod 10"] by (simp add: ACPI_ASCII_ZERO_def)
  have "put k (dig (unat v mod 10)) buf = Some ?b" using Suc.prems by (intro put_stored) simp
  then have "integer_loop (Suc k) v buf = Some (stored 0 (digs k (unat v div 10)) ?b)"
    using Suc.IH [of ?b "v div 10"] Suc.prems c by (simp add: short_divide_10 unat_div)
  also have "stored 0 (digs k (unat v div 10)) ?b = stored 0 (digs (Suc k) (unat v)) buf"
    using Suc.prems unfolding digs_last by (simp add: stored_def)
  finally show ?case .
qed simp

lemma integer_to_string:
  assumes "20 < length buf"
  shows "AcpiExIntegerToString buf v = Some (stored 0 (decimal (unat v) @ [0]) buf)"
proof -
  let ?n = "length (decimal (unat v))"
  have n: "?n \<le> 20" by (rule length_decimal64)
  then have u: "unat (of_nat ?n :: u32) = ?n" by (intro unat_of_nat_lt) simp
  have "put ?n 0 buf = Some (stored ?n [0] buf)" using n assms by (intro put_stored) simp
  moreover have "integer_loop ?n v (stored ?n [0] buf) = Some (stored 0 (decimal (unat v)) (stored ?n [0] buf))"
    using integer_loop_stored [of ?n "stored ?n [0] buf" v] n assms by (simp add: digs_decimal)
  moreover have "stored 0 (decimal (unat v)) (stored ?n [0] buf) = stored 0 (decimal (unat v) @ [0]) buf"
    using n assms by (simp add: stored_def)
  ultimately show ?thesis using u by (simp add: AcpiExIntegerToString_def digits_needed)
qed

end
