(* ===== verification/ExConvert.thy ===== *)
theory ExConvert
  imports Operand ExText Clib
begin

text \<open>
  Conversions between integers, strings and buffers, \<^verbatim>\<open>components/executer/exconvrt.c\<close>, on the operand objects of theory Operand. The theorems show that the code computes
  conversions of values, writes only within the memory it allocates, and that numbers survive the way through their texts.

  Reads and stores beyond the memory of a string or buffer are \<open>None\<close>, as is a string without a null byte. The three globals for the integer width are a record that is an argument. A result object that is not stored is \<open>None\<close>.
\<close>

section \<open>Widths and constants\<close>

record integer_width =
  AcpiGbl_IntegerBitWidth :: u8
  AcpiGbl_IntegerNybbleWidth :: u8
  AcpiGbl_IntegerByteWidth :: u8

definition AcpiUtSetIntegerWidth :: "u8 \<Rightarrow> integer_width" where
  "AcpiUtSetIntegerWidth Revision =
     (if Revision < 2 then \<lparr>AcpiGbl_IntegerBitWidth = 32, AcpiGbl_IntegerNybbleWidth = 8, AcpiGbl_IntegerByteWidth = 4\<rparr>
      else \<lparr>AcpiGbl_IntegerBitWidth = 64, AcpiGbl_IntegerNybbleWidth = 16, AcpiGbl_IntegerByteWidth = 8\<rparr>)"

definition ACPI_EXPLICIT_CONVERT_HEX :: u32 where "ACPI_EXPLICIT_CONVERT_HEX = 1"
definition ACPI_IMPLICIT_CONVERT_HEX :: u32 where "ACPI_IMPLICIT_CONVERT_HEX = 2"
definition ACPI_EXPLICIT_CONVERT_DECIMAL :: u32 where "ACPI_EXPLICIT_CONVERT_DECIMAL = 3"
definition ACPI_MAX_DECIMAL_DIGITS :: u32 where "ACPI_MAX_DECIMAL_DIGITS = 20"
type_synonym ('c, 'd) converted = "(acpi_status \<times> addr option \<times> ('c, 'd) ostate) option"

section \<open>Conversions\<close>

definition AcpiExTruncateFor32bitTable :: "integer_width \<Rightarrow> addr \<Rightarrow> ('c, 'd) ostate \<Rightarrow> (bool \<times> ('c, 'd) ostate) option" where
  "AcpiExTruncateFor32bitTable W Source s =
     (if Source = 0 then Some (False, s)
      else case objects s Source of
             None \<Rightarrow> None
           | Some ob \<Rightarrow>
               if op_DescriptorType ob \<noteq> ACPI_DESC_TYPE_OPERAND \<or> op_Type ob \<noteq> ACPI_TYPE_INTEGER then Some (False, s)
               else if AcpiGbl_IntegerByteWidth W = 4 \<and> op_Value ob > ACPI_UINT32_MAX
               then map_option (Pair True) (set_op Source (\<lambda>ob. ob\<lparr>op_Value := op_Value ob AND ACPI_UINT32_MAX\<rparr>) s)
               else Some (False, s))"

text \<open>The memory of a string or buffer.\<close>

definition storage :: "operand_object \<Rightarrow> u8 list" where
  "storage ob = (case op_Pointer ob of None \<Rightarrow> [] | Some bs \<Rightarrow> bs)"

text \<open>The first \<open>n\<close> bytes of a buffer as an integer.\<close>

fun buffer_value :: "nat \<Rightarrow> u8 list \<Rightarrow> u64" where
  "buffer_value 0 Pointer = 0"
| "buffer_value (Suc i) Pointer = buffer_value i Pointer OR push_bit (i * 8) (ucast (Pointer ! i))"

definition AcpiExConvertToInteger :: "('c, 'd) op_env \<Rightarrow> integer_width \<Rightarrow> addr \<Rightarrow> bool \<Rightarrow> ('c, 'd) ostate \<Rightarrow> ('c, 'd) converted" where
  "AcpiExConvertToInteger env W Source ImplicitConversion s =
     (case objects s Source of
        None \<Rightarrow> None
      | Some ob \<Rightarrow>
          if op_Type ob = ACPI_TYPE_INTEGER then Some (AE_OK, Some Source, s)
          else if op_Type ob \<noteq> ACPI_TYPE_BUFFER \<and> op_Type ob \<noteq> ACPI_TYPE_STRING then Some (AE_TYPE, None, s)
          else let Pointer = storage ob; Count = unat (op_Length ob) in
            if op_Type ob = ACPI_TYPE_BUFFER \<and> Count = 0 then Some (AE_AML_BUFFER_LIMIT, None, s)
            else let Count = min Count (unat (AcpiGbl_IntegerByteWidth W)) in
              if (if op_Type ob = ACPI_TYPE_STRING then 0 \<notin> set Pointer else length Pointer < Count) then None
              else let Result = (if op_Type ob = ACPI_TYPE_STRING
                                 then if ImplicitConversion then AcpiUtImplicitStrtoul64 (AcpiGbl_IntegerBitWidth W) Pointer
                                      else AcpiUtExplicitStrtoul64 (AcpiGbl_IntegerBitWidth W) Pointer
                                 else buffer_value Count Pointer)
                   in (case AcpiUtCreateIntegerObject env Result s of
                         None \<Rightarrow> None
                       | Some (ReturnDesc, s) \<Rightarrow>
                           if ReturnDesc = 0 then Some (AE_NO_MEMORY, None, s)
                           else map_option (\<lambda>(_, s). (AE_OK, Some ReturnDesc, s)) (AcpiExTruncateFor32bitTable W ReturnDesc s)))"

text \<open>\<open>strncpy\<close> between two memories: characters up to a null byte, then null bytes.\<close>

fun strncpy_bytes :: "nat \<Rightarrow> u8 list \<Rightarrow> u8 list option" where
  "strncpy_bytes 0 src = Some []"
| "strncpy_bytes (Suc n) [] = None"
| "strncpy_bytes (Suc n) (c # src) =
     (if c = 0 then Some (replicate (Suc n) 0) else map_option ((#) c) (strncpy_bytes n src))"

text \<open>Storing bytes at the start of the memory of a new object.\<close>

definition store_bytes :: "addr \<Rightarrow> u8 list \<Rightarrow> ('c, 'd) ostate \<Rightarrow> ('c, 'd) ostate option" where
  "store_bytes a bs s =
     (case objects s a of
        None \<Rightarrow> None
      | Some ob \<Rightarrow> if length (storage ob) < length bs then None
                   else set_op a (\<lambda>ob. ob\<lparr>op_Pointer := map_option (\<lambda>m. bs @ drop (length bs) m) (op_Pointer ob)\<rparr>) s)"

definition AcpiExConvertToBuffer :: "('c, 'd) op_env \<Rightarrow> integer_width \<Rightarrow> addr \<Rightarrow> ('c, 'd) ostate \<Rightarrow> ('c, 'd) converted" where
  "AcpiExConvertToBuffer env W Source s =
     (case objects s Source of
        None \<Rightarrow> None
      | Some ob \<Rightarrow>
          if op_Type ob = ACPI_TYPE_BUFFER then Some (AE_OK, Some Source, s)
          else if op_Type ob \<noteq> ACPI_TYPE_INTEGER \<and> op_Type ob \<noteq> ACPI_TYPE_STRING then Some (AE_TYPE, None, s)
          else let (size, contents) =
                     (if op_Type ob = ACPI_TYPE_INTEGER
                      then (unat (AcpiGbl_IntegerByteWidth W), Some (bytes_of (unat (AcpiGbl_IntegerByteWidth W)) (op_Value ob)))
                      else (unat (op_Length ob) + 1, strncpy_bytes (unat (op_Length ob)) (storage ob)))
               in (case AcpiUtCreateBufferObject env size s of
                     None \<Rightarrow> None
                   | Some (ReturnDesc, s) \<Rightarrow>
                       if ReturnDesc = 0 then Some (AE_NO_MEMORY, None, s)
                       else Option.bind contents (\<lambda>bs.
                            Option.bind (store_bytes ReturnDesc bs s) (\<lambda>s.
                            map_option (\<lambda>s. (AE_OK, Some ReturnDesc, s))
                              (set_op ReturnDesc (\<lambda>ob. ob\<lparr>op_Flags := op_Flags ob OR AOPOBJ_DATA_VALID\<rparr>) s)))))"

definition AcpiExConvertToString :: "('c, 'd) op_env \<Rightarrow> integer_width \<Rightarrow> addr \<Rightarrow> u32 \<Rightarrow> ('c, 'd) ostate \<Rightarrow> ('c, 'd) converted" where
  "AcpiExConvertToString env W Source Type s =
     (case objects s Source of
        None \<Rightarrow> None
      | Some ob \<Rightarrow>
          if op_Type ob = ACPI_TYPE_STRING then Some (AE_OK, Some Source, s)
          else if op_Type ob = ACPI_TYPE_INTEGER
          then let (StringLength, Base) =
                     (if Type = ACPI_EXPLICIT_CONVERT_DECIMAL then (ACPI_MAX_DECIMAL_DIGITS, 10 :: u16)
                      else (ucast (AcpiGbl_IntegerByteWidth W) * 2, 16))
               in (case AcpiUtCreateStringObject env (unat StringLength) s of
                     None \<Rightarrow> None
                   | Some (ReturnDesc, s) \<Rightarrow>
                       if ReturnDesc = 0 then Some (AE_NO_MEMORY, None, s)
                       else case objects s ReturnDesc of
                              None \<Rightarrow> None
                            | Some new \<Rightarrow>
                                Option.bind (AcpiExConvertToAscii (op_Value ob) Base (AcpiGbl_IntegerByteWidth W) 0 (storage new)) (\<lambda>(n, buf).
                                Option.bind (put n 0 buf) (\<lambda>buf.
                                map_option (\<lambda>s. (AE_OK, Some ReturnDesc, s))
                                  (set_op ReturnDesc (\<lambda>ob. ob\<lparr>op_Pointer := Some buf, op_Length := of_nat n\<rparr>) s))))
          else if op_Type ob = ACPI_TYPE_BUFFER
          then let bs = take (unat (op_Length ob)) (storage ob); beyond = (length (storage ob) < unat (op_Length ob));
                        (StringLength, Base, Separator, valid) =
                          (if Type = ACPI_EXPLICIT_CONVERT_DECIMAL then (decimal_length bs 0, 10 :: u16, 44 :: u8, True)
                           else if Type = ACPI_IMPLICIT_CONVERT_HEX then (op_Length ob * 5, 16, 32, True)
                           else if Type = ACPI_EXPLICIT_CONVERT_HEX then (op_Length ob * 5, 16, 44, True)
                           else (0, 16, 44, False))
                    in if \<not> valid then Some (AE_BAD_PARAMETER, None, s)
                       else if Base = 10 \<and> beyond then None
                       else let StringLength = (if StringLength \<noteq> 0 then StringLength - 1 else StringLength)
                            in (case AcpiUtCreateStringObject env (unat StringLength) s of
                                  None \<Rightarrow> None
                                | Some (ReturnDesc, s) \<Rightarrow>
                                    if ReturnDesc = 0 then Some (AE_NO_MEMORY, None, s)
                                    else if beyond then None
                                    else case objects s ReturnDesc of
                                           None \<Rightarrow> None
                                         | Some new \<Rightarrow>
                                             Option.bind (string_loop bs Base Separator 0 (storage new)) (\<lambda>(pos, buf).
                                             Option.bind (put (if op_Length ob \<noteq> 0 then pos - 1 else pos) 0 buf) (\<lambda>buf.
                                             map_option (\<lambda>s. (AE_OK, Some ReturnDesc, s))
                                               (set_op ReturnDesc (\<lambda>ob. ob\<lparr>op_Pointer := Some buf\<rparr>) s))))
          else Some (AE_TYPE, None, s))"

section \<open>Values\<close>

datatype aml_value = IntV u64 | StrV "u8 list" | BufV "u8 list"

text \<open>
  The value that an object has: a string ends at the null byte that its length points at, a buffer has at least as much memory
  as its length says.
\<close>

fun holds :: "operand_object \<Rightarrow> aml_value \<Rightarrow> bool" where
  "holds ob (IntV n) \<longleftrightarrow> op_Type ob = ACPI_TYPE_INTEGER \<and> op_Value ob = n"
| "holds ob (StrV t) \<longleftrightarrow> op_Type ob = ACPI_TYPE_STRING \<and> (\<exists>rest. op_Pointer ob = Some (t @ 0 # rest)) \<and> 0 \<notin> set t \<and> length t = unat (op_Length ob)"
| "holds ob (BufV bs) \<longleftrightarrow> op_Type ob = ACPI_TYPE_BUFFER \<and> length bs = unat (op_Length ob) \<and> take (length bs) (storage ob) = bs"

text \<open>The conversions of values. \<open>None\<close>: there is no integer for an empty buffer.\<close>

definition truncated :: "integer_width \<Rightarrow> u64 \<Rightarrow> u64" where
  "truncated W n = (if AcpiGbl_IntegerByteWidth W = 4 then n AND ACPI_UINT32_MAX else n)"

fun to_integer :: "integer_width \<Rightarrow> bool \<Rightarrow> aml_value \<Rightarrow> u64 option" where
  "to_integer W implicit (IntV n) = Some n"
| "to_integer W implicit (StrV t) =
     Some (truncated W (if implicit then AcpiUtImplicitStrtoul64 (AcpiGbl_IntegerBitWidth W) (t @ [0])
                        else AcpiUtExplicitStrtoul64 (AcpiGbl_IntegerBitWidth W) (t @ [0])))"
| "to_integer W implicit (BufV bs) =
     (if bs = [] then None else Some (truncated W (buffer_value (min (length bs) (unat (AcpiGbl_IntegerByteWidth W))) bs)))"

fun to_buffer :: "integer_width \<Rightarrow> aml_value \<Rightarrow> u8 list" where
  "to_buffer W (IntV n) = bytes_of (unat (AcpiGbl_IntegerByteWidth W)) n"
| "to_buffer W (StrV t) = t @ [0]"
| "to_buffer W (BufV bs) = bs"

fun to_string :: "integer_width \<Rightarrow> u32 \<Rightarrow> aml_value \<Rightarrow> u8 list" where
  "to_string W Type (IntV n) =
     (if Type = ACPI_EXPLICIT_CONVERT_DECIMAL then decimal (unat n) else hex_digits (2 * unat (AcpiGbl_IntegerByteWidth W)) (unat n))"
| "to_string W Type (StrV t) = t"
| "to_string W Type (BufV bs) =
     joined (byte_text (if Type = ACPI_EXPLICIT_CONVERT_DECIMAL then 10 else 16)) (if Type = ACPI_IMPLICIT_CONVERT_HEX then 32 else 44) bs"

text \<open>The values that the code can convert: integers of the width, strings and buffers whose texts have a 32-bit length.\<close>

fun in_range :: "integer_width \<Rightarrow> aml_value \<Rightarrow> bool" where
  "in_range W (IntV n) \<longleftrightarrow> unat n < 2 ^ (8 * unat (AcpiGbl_IntegerByteWidth W))"
| "in_range W (StrV t) \<longleftrightarrow> length t + 1 < 2 ^ 32"
| "in_range W (BufV bs) \<longleftrightarrow> 5 * length bs < 2 ^ 32"

lemma width_cases:
  obtains "AcpiGbl_IntegerBitWidth (AcpiUtSetIntegerWidth r) = 32" "AcpiGbl_IntegerByteWidth (AcpiUtSetIntegerWidth r) = 4"
  | "AcpiGbl_IntegerBitWidth (AcpiUtSetIntegerWidth r) = 64" "AcpiGbl_IntegerByteWidth (AcpiUtSetIntegerWidth r) = 8"
  by (cases "r < 2") (simp_all add: AcpiUtSetIntegerWidth_def)

section \<open>Numbers in strings end at the null byte\<close>

lemma deref_append [simp]: "deref (t @ 0 # rest) = deref t"
  by (cases t) (simp_all add: deref_def)

lemma whitespace_null: "AcpiUtRemoveWhitespace (t @ 0 # rest) =
    (deref (dropWhile (\<lambda>c. isspace (uint c)) t), dropWhile (\<lambda>c. isspace (uint c)) t @ 0 # rest)"
  by (induction t) (simp_all add: not_space_null deref_def)

lemma leading_zeros_null: "AcpiUtRemoveLeadingZeros (t @ 0 # rest) = (deref (strip t), strip t @ 0 # rest)"
  by (induction t) (simp_all add: strip_def ACPI_ASCII_ZERO_def deref_def)

lemma convert_loop_null: "0 \<notin> set t \<Longrightarrow> convert_loop D B ovf w acc (t @ 0 # rest) = convert_loop D B ovf w acc (t @ [0])"
  by (induction t arbitrary: acc) (auto simp: Let_def split: prod.split)

lemma hex_prefix_null:
  "AcpiUtRemoveHexPrefix (t @ 0 # rest) = (if deref t = 48 \<and> tolower (sint (deref (drop 1 t))) = 120 then drop 2 t else t) @ 0 # rest"
proof (cases t rule: remdups_adj.cases)
  case (3 a b xs)
  then show ?thesis by (simp add: AcpiUtRemoveHexPrefix_def ACPI_ASCII_ZERO_def deref_def)
next
  case (2 a)
  have "tolower 0 \<noteq> 120" by (simp add: tolower_def isupper_iff)
  with 2 show ?thesis by (simp add: AcpiUtRemoveHexPrefix_def ACPI_ASCII_ZERO_def deref_def)
qed (simp add: AcpiUtRemoveHexPrefix_def ACPI_ASCII_ZERO_def deref_def)

lemma not_in_dropWhile: "x \<notin> set t \<Longrightarrow> x \<notin> set (dropWhile P t)"
  using set_dropWhileD by fastforce

lemma strtoul64_null:
  assumes "0 \<notin> set t"
  shows "AcpiUtImplicitStrtoul64 w (t @ 0 # rest) = AcpiUtImplicitStrtoul64 w (t @ [0])"
    and "AcpiUtExplicitStrtoul64 w (t @ 0 # rest) = AcpiUtExplicitStrtoul64 w (t @ [0])"
proof -
  define u where "u = dropWhile (\<lambda>c. isspace (uint c)) t"
  define h where "h \<longleftrightarrow> deref u = 48 \<and> tolower (sint (deref (drop 1 u))) = 120"
  define v where "v = (if h then drop 2 u else u)"
  have u: "0 \<notin> set u" using assms by (simp add: u_def not_in_dropWhile)
  have v: "0 \<notin> set (strip v)"
  proof -
    have "0 \<notin> set v" using u by (auto simp: v_def dest: in_set_dropD)
    then show ?thesis by (simp add: strip_def not_in_dropWhile)
  qed
  have h2: "h \<Longrightarrow> 2 \<le> length u"
  proof -
    have "tolower 0 \<noteq> 120" by (simp add: tolower_def isupper_iff)
    then show "h \<Longrightarrow> 2 \<le> length u" by (cases u rule: remdups_adj.cases) (auto simp: h_def deref_def)
  qed
  have ws: "AcpiUtRemoveWhitespace (t @ 0 # r) = (deref u, u @ 0 # r)" for r by (simp add: whitespace_null u_def)
  have hx: "AcpiUtRemoveHexPrefix (u @ 0 # r) = v @ 0 # r" for r by (simp add: hex_prefix_null v_def h_def)
  have dt: "AcpiUtDetectHexPrefix (u @ 0 # r) = (h, v @ 0 # r)" for r
    using h2 by (auto simp: AcpiUtDetectHexPrefix_def hx Let_def v_def)
  note cl = convert_loop_null [OF v]
  show "AcpiUtImplicitStrtoul64 w (t @ 0 # rest) = AcpiUtImplicitStrtoul64 w (t @ [0])"
    by (simp add: AcpiUtImplicitStrtoul64_def ws hx leading_zeros_null AcpiUtConvertHexString_def cl [of _ _ _ _ _ rest])
  show "AcpiUtExplicitStrtoul64 w (t @ 0 # rest) = AcpiUtExplicitStrtoul64 w (t @ [0])"
    by (simp add: AcpiUtExplicitStrtoul64_def ws dt leading_zeros_null AcpiUtConvertHexString_def AcpiUtConvertDecimalString_def cl [of _ _ _ _ _ rest])
qed

section \<open>The conversions of objects compute the conversions of values\<close>

lemma and_uint32_max: "R AND ACPI_UINT32_MAX = (if R > ACPI_UINT32_MAX then R AND ACPI_UINT32_MAX else R)"
proof -
  have "R AND ACPI_UINT32_MAX = take_bit 32 R" by (simp add: ACPI_UINT32_MAX_def take_bit_eq_mask mask_eq_exp_minus_1)
  moreover have "take_bit 32 R = R" if "\<not> R > ACPI_UINT32_MAX"
  proof -
    have "unat R < 2 ^ 32" using that by (simp add: ACPI_UINT32_MAX_def word_less_nat_alt)
    then show ?thesis by (simp add: word_unat_eq_iff unsigned_take_bit_eq take_bit_nat_eq_self)
  qed
  ultimately show ?thesis by simp
qed

text \<open>A new object that nothing else refers to.\<close>

definition unshared :: "operand_object \<Rightarrow> bool" where
  "unshared ob \<longleftrightarrow> object_ok ob \<and> subobjects ob = [] \<and> plain ob \<and> op_ReferenceCount ob = 1"

lemma unshared_operand:
  "unshared (new_operand ACPI_TYPE_INTEGER\<lparr>op_Value := n\<rparr>)"
  "unshared (new_operand ACPI_TYPE_STRING\<lparr>op_Pointer := p, op_Length := l\<rparr>)"
  "unshared (new_operand ACPI_TYPE_BUFFER\<lparr>op_Flags := f, op_Pointer := p, op_Length := l\<rparr>)"
  by (simp_all add: unshared_def new_operand_def zero_operand_def object_ok_def plain_def simple_subobjects simple_types)

lemma new_operand_Type [simp]: "op_Type (new_operand Type) = Type" "op_DescriptorType (new_operand Type) = ACPI_DESC_TYPE_OPERAND"
  by (simp_all add: new_operand_def)

lemma types_differ [simp]: "ACPI_TYPE_INTEGER \<noteq> ACPI_TYPE_STRING" "ACPI_TYPE_STRING \<noteq> ACPI_TYPE_INTEGER" "ACPI_TYPE_INTEGER \<noteq> ACPI_TYPE_BUFFER"
  "ACPI_TYPE_BUFFER \<noteq> ACPI_TYPE_INTEGER" "ACPI_TYPE_STRING \<noteq> ACPI_TYPE_BUFFER" "ACPI_TYPE_BUFFER \<noteq> ACPI_TYPE_STRING"
  by (simp_all add: simple_types)

lemma buffer_value_take: "i \<le> length bs \<Longrightarrow> take (length bs) m = bs \<Longrightarrow> buffer_value i m = buffer_value i bs"
proof (induction i)
  case (Suc i)
  have "m ! i = bs ! i" using Suc.prems by (metis Suc_le_lessD nth_take)
  with Suc show ?case by simp
qed simp

lemma strncpy_bytes_all: "0 \<notin> set t \<Longrightarrow> strncpy_bytes (length t) (t @ rest) = Some t"
  by (induction t) auto

text \<open>
  The result of a conversion of the object at an address to a value: the object itself if no conversion is necessary, else one new object
  with the value, or no memory and no change.
\<close>

definition converts :: "(('c, 'd) ostate \<Rightarrow> bool) \<Rightarrow> ('c, 'd) ostate \<Rightarrow> addr \<Rightarrow> aml_value \<Rightarrow> ('c, 'd) converted \<Rightarrow> bool" where
  "converts good s a v r \<longleftrightarrow>
     r = Some (AE_OK, Some a, s) \<and> (\<exists>ob. objects s a = Some ob \<and> holds ob v)
     \<or> (\<exists>s'. good s' \<and> live (SHeap s') = live (SHeap s)
          \<and> (r = Some (AE_NO_MEMORY, None, s') \<and> objects s' = objects s
             \<or> (\<exists>d ob. r = Some (AE_OK, Some d, s') \<and> d \<noteq> 0 \<and> objects s d = None \<and> objects s' = (objects s)(d \<mapsto> ob)
                  \<and> holds ob v \<and> unshared ob)))"

lemma convertsE:
  assumes "converts good s a v r"
  obtains (same) ob where "r = Some (AE_OK, Some a, s)" "objects s a = Some ob" "holds ob v"
  | (memory) s' where "r = Some (AE_NO_MEMORY, None, s')" "good s'" "live (SHeap s') = live (SHeap s)" "objects s' = objects s"
  | (new) d ob s' where "r = Some (AE_OK, Some d, s')" "good s'" "live (SHeap s') = live (SHeap s)" "d \<noteq> 0" "objects s d = None"
      "objects s' = (objects s)(d \<mapsto> ob)" "holds ob v" "unshared ob"
  using assms unfolding converts_def by blast

lemma put_end: "length t < length buf \<Longrightarrow> put (length t) 0 (stored 0 (t @ [b]) buf) = Some (stored 0 (t @ [0]) buf)"
  by (simp add: put_def stored_def list_update_append)

lemma hex_digits_nonzero: "0 \<notin> set (hex_digits j n)"
proof -
  have "AcpiGbl_HexToAscii ! (m mod 16) \<noteq> 0" for m
  proof -
    have "\<forall>c \<in> set AcpiGbl_HexToAscii. c \<noteq> 0" "length AcpiGbl_HexToAscii = 16" by (simp_all add: AcpiGbl_HexToAscii_def)
    moreover from this(2) have "AcpiGbl_HexToAscii ! (m mod 16) \<in> set AcpiGbl_HexToAscii" by (intro nth_mem) simp
    ultimately show ?thesis by blast
  qed
  then show ?thesis by (induction j arbitrary: n) (simp add: hex_digits_def, simp add: hex_digits_first)
qed

lemma decimal_nonzero: "0 \<notin> set (decimal n)"
  by (induction n rule: decimal.induct) (subst decimal.simps, use dig(3) in \<open>auto split: if_splits\<close>)

lemma joined_nonzero: "(\<And>b. 0 \<notin> set (f b)) \<Longrightarrow> sep \<noteq> 0 \<Longrightarrow> 0 \<notin> set (joined f sep bs)"
  by (induction f sep bs rule: joined.induct) auto

lemma byte_text_nonzero: "0 \<notin> set (byte_text B b)"
  by (simp add: byte_text_def ascii_def hex_digits_nonzero decimal_nonzero)

context operand_store
begin

lemma converts_new:
  "ok s' \<Longrightarrow> live (SHeap s') = live (SHeap s) \<Longrightarrow> d \<noteq> 0 \<Longrightarrow> objects s d = None \<Longrightarrow> objects s' = (objects s)(d \<mapsto> ob) \<Longrightarrow> holds ob v \<Longrightarrow> unshared ob \<Longrightarrow>
     converts ok s a v (Some (AE_OK, Some d, s'))"
  unfolding converts_def by blast

lemma converts_null:
  "ok s' \<Longrightarrow> live (SHeap s') = live (SHeap s) \<Longrightarrow> objects s' = objects s \<Longrightarrow> converts ok s a v (Some (AE_NO_MEMORY, None, s'))"
  unfolding converts_def by blast

lemma converts_self: "objects s a = Some ob \<Longrightarrow> holds ob v \<Longrightarrow> converts ok s a v (Some (AE_OK, Some a, s))"
  by (simp add: converts_def)

lemma integer_result:
  assumes "ok s"
  shows "converts ok s a (IntV (truncated W R))
    (case AcpiUtCreateIntegerObject env R s of None \<Rightarrow> None
     | Some (d, s) \<Rightarrow> if d = 0 then Some (AE_NO_MEMORY, None, s)
                      else map_option (\<lambda>(_, s). (AE_OK, Some d, s)) (AcpiExTruncateFor32bitTable W d s))"
  using create_integer [OF assms, of R]
proof (cases rule: createdE)
  case (new d s1)
  let ?ob = "new_operand ACPI_TYPE_INTEGER\<lparr>op_Value := R\<rparr>"
  have d: "objects s1 d = Some ?ob" using new(6) by simp
  obtain b s' where s': "AcpiExTruncateFor32bitTable W d s1 = Some (b, s')" "ok s'" "live (SHeap s') = live (SHeap s)"
      "objects s' = (objects s)(d \<mapsto> new_operand ACPI_TYPE_INTEGER\<lparr>op_Value := truncated W R\<rparr>)"
  proof (cases "AcpiGbl_IntegerByteWidth W = 4 \<and> R > ACPI_UINT32_MAX")
    case True
    then show ?thesis
      using set_op_ok [OF new(3) d, of "\<lambda>ob. ob\<lparr>op_Value := op_Value ob AND ACPI_UINT32_MAX\<rparr>"] new d that
      by (auto simp: AcpiExTruncateFor32bitTable_def truncated_def)
  next
    case False
    then have "truncated W R = R" using and_uint32_max [of R] by (auto simp: truncated_def)
    then show ?thesis using False new d that by (auto simp: AcpiExTruncateFor32bitTable_def)
  qed
  have "holds (new_operand ACPI_TYPE_INTEGER\<lparr>op_Value := truncated W R\<rparr>) (IntV (truncated W R))" by simp
  from converts_new [OF s'(2,3) new(2,5) s'(4) this unshared_operand(1), of a] show ?thesis
    using new(1,2) s'(1) by simp
qed (simp add: converts_null)

lemma convert_to_integer:
  assumes "ok s" and a: "objects s a = Some ob" and v: "holds ob v"
  shows "case to_integer W imp v of
      None \<Rightarrow> AcpiExConvertToInteger env W a imp s = Some (AE_AML_BUFFER_LIMIT, None, s)
    | Some n \<Rightarrow> converts ok s a (IntV n) (AcpiExConvertToInteger env W a imp s)"
proof (cases v)
  case (IntV n)
  then show ?thesis using a v by (simp add: AcpiExConvertToInteger_def converts_self)
next
  case (StrV t)
  then obtain rest where "storage ob = t @ 0 # rest" "0 \<notin> set t" and ty: "op_Type ob = ACPI_TYPE_STRING" "0 \<in> set (storage ob)"
    using v by (auto simp: storage_def)
  note n = strtoul64_null [OF this(2), of "AcpiGbl_IntegerBitWidth W" rest, folded this(1)]
  show ?thesis
    using integer_result [OF assms(1)] a ty n StrV
    by (cases imp) (simp_all add: AcpiExConvertToInteger_def Let_def)
next
  case (BufV bs)
  then have b: "op_Type ob = ACPI_TYPE_BUFFER" "length bs = unat (op_Length ob)" "take (length bs) (storage ob) = bs" using v by auto
  have "unat (op_Length ob) \<le> length (storage ob)" using b(2) arg_cong [OF b(3), of length] by simp
  then have m: "\<not> length (storage ob) < unat (op_Length ob)" by simp
  show ?thesis
  proof (cases "bs = []")
    case True
    then show ?thesis using a b BufV by (simp add: AcpiExConvertToInteger_def)
  next
    case False
    then have "0 < unat (op_Length ob)" using b(2) length_greater_0_conv [of bs] by presburger
    moreover have "buffer_value (min (unat (op_Length ob)) (unat (AcpiGbl_IntegerByteWidth W))) (storage ob) =
        buffer_value (min (length bs) (unat (AcpiGbl_IntegerByteWidth W))) bs" using b by (simp add: buffer_value_take)
    ultimately show ?thesis
      using integer_result [OF assms(1), of a W "buffer_value (min (length bs) (unat (AcpiGbl_IntegerByteWidth W))) bs"] a b(1) m BufV False
      by (simp add: AcpiExConvertToInteger_def Let_def)
  qed
qed

text \<open>Storing the contents of a new buffer or string.\<close>

lemma store_bytes_new:
  assumes "ok s" and "objects s d = Some ob" and "op_Pointer ob = Some m" and "length bs \<le> length m"
  shows "\<exists>s'. store_bytes d bs s = Some s' \<and> ok s' \<and> live (SHeap s') = live (SHeap s)
    \<and> objects s' = (objects s)(d \<mapsto> ob\<lparr>op_Pointer := Some (bs @ drop (length bs) m)\<rparr>)"
  using set_op_ok [OF assms(1,2), of "\<lambda>ob. ob\<lparr>op_Pointer := map_option (\<lambda>m. bs @ drop (length bs) m) (op_Pointer ob)\<rparr>"] assms(2-4)
  by (auto simp: store_bytes_def storage_def)

lemma buffer_result:
  assumes "ok s" and "0 < n" and "n < 2 ^ 32" and "length bs \<le> n"
  shows "converts ok s a (BufV (bs @ replicate (n - length bs) 0))
    (case AcpiUtCreateBufferObject env n s of None \<Rightarrow> None
     | Some (d, s) \<Rightarrow> if d = 0 then Some (AE_NO_MEMORY, None, s)
                      else Option.bind (Some bs) (\<lambda>bs. Option.bind (store_bytes d bs s) (\<lambda>s. map_option (\<lambda>s. (AE_OK, Some d, s))
                             (set_op d (\<lambda>ob. ob\<lparr>op_Flags := op_Flags ob OR AOPOBJ_DATA_VALID\<rparr>) s))))"
  using create_buffer [OF assms(1), of n]
proof (cases rule: createdE)
  case (new d s1)
  let ?c = "bs @ replicate (n - length bs) 0"
  let ?ob = "new_operand ACPI_TYPE_BUFFER\<lparr>op_Flags := AOPOBJ_DATA_VALID, op_Pointer := Some (replicate n 0), op_Length := of_nat n\<rparr>"
  have d: "objects s1 d = Some ?ob" using new(6) assms(2) by simp
  from store_bytes_new [OF new(3) d, of "replicate n 0" bs] assms(4) obtain s2 where
    s2: "store_bytes d bs s1 = Some s2" "ok s2" "live (SHeap s2) = live (SHeap s1)" "objects s2 = (objects s1)(d \<mapsto> ?ob\<lparr>op_Pointer := Some ?c\<rparr>)"
    by (auto simp: drop_replicate)
  then have d2: "objects s2 d = Some (?ob\<lparr>op_Pointer := Some ?c\<rparr>)" by simp
  have e: "?ob\<lparr>op_Pointer := Some ?c, op_Flags := AOPOBJ_DATA_VALID\<rparr> =
      new_operand ACPI_TYPE_BUFFER\<lparr>op_Flags := AOPOBJ_DATA_VALID, op_Pointer := Some ?c, op_Length := of_nat n\<rparr>"
    by (simp add: new_operand_def zero_operand_def)
  from set_op_ok [OF s2(2) d2, of "\<lambda>ob. ob\<lparr>op_Flags := op_Flags ob OR AOPOBJ_DATA_VALID\<rparr>"] obtain s3 where
    s3: "set_op d (\<lambda>ob. ob\<lparr>op_Flags := op_Flags ob OR AOPOBJ_DATA_VALID\<rparr>) s2 = Some s3" "ok s3" "live (SHeap s3) = live (SHeap s)"
      "objects s3 = (objects s)(d \<mapsto> new_operand ACPI_TYPE_BUFFER\<lparr>op_Flags := AOPOBJ_DATA_VALID, op_Pointer := Some ?c, op_Length := of_nat n\<rparr>)"
    using s2(3,4) new(4,6) unfolding e [symmetric] by auto
  have "unat (of_nat n :: u32) = n" using assms(3) by (intro unat_of_nat_lt) simp
  then have "holds (new_operand ACPI_TYPE_BUFFER\<lparr>op_Flags := AOPOBJ_DATA_VALID, op_Pointer := Some ?c, op_Length := of_nat n\<rparr>) (BufV ?c)"
    using assms(4) by (simp add: storage_def)
  from converts_new [OF s3(2,3) new(2,5) s3(4) this unshared_operand(3), of a] show ?thesis
    using new(1,2) s2(1) s3(1) by simp
qed (simp add: converts_null)

lemma convert_to_buffer:
  assumes "ok s" and a: "objects s a = Some ob" and v: "holds ob v" and W: "0 < AcpiGbl_IntegerByteWidth W" and r: "in_range W v"
  shows "converts ok s a (BufV (to_buffer W v)) (AcpiExConvertToBuffer env W a s)"
proof (cases v)
  case (IntV n)
  let ?w = "unat (AcpiGbl_IntegerByteWidth W)"
  have "0 < ?w" using W by (simp add: word_less_nat_alt)
  moreover have "?w < 2 ^ 32" using unat_lt8 [of "AcpiGbl_IntegerByteWidth W"] by simp
  ultimately show ?thesis
    using buffer_result [OF assms(1), of ?w "bytes_of ?w n" a] a v IntV
    by (simp add: AcpiExConvertToBuffer_def)
next
  case (StrV t)
  then obtain rest where "storage ob = t @ 0 # rest" "0 \<notin> set t" and ty: "op_Type ob = ACPI_TYPE_STRING" "length t = unat (op_Length ob)"
    using v by (auto simp: storage_def)
  then have "strncpy_bytes (unat (op_Length ob)) (storage ob) = Some t" using strncpy_bytes_all [of t "0 # rest"] by simp
  then show ?thesis
    using buffer_result [OF assms(1), of "length t + 1" t a] a r StrV ty
    by (simp add: AcpiExConvertToBuffer_def)
next
  case (BufV bs)
  then show ?thesis using a v converts_self [OF a v] by (simp add: AcpiExConvertToBuffer_def)
qed

text \<open>The text that is stored in a new string.\<close>

lemma string_result:
  assumes "ok s" and "0 \<notin> set t" and "length t < 2 ^ 32"
    and K: "\<And>d s. K d (new_operand ACPI_TYPE_STRING\<lparr>op_Pointer := Some (replicate (n + 1) 0), op_Length := of_nat n\<rparr>) s =
      map_option (\<lambda>s. (AE_OK, Some d, s)) (set_op d f s)"
    and f: "f (new_operand ACPI_TYPE_STRING\<lparr>op_Pointer := Some (replicate (n + 1) 0), op_Length := of_nat n\<rparr>) =
      new_operand ACPI_TYPE_STRING\<lparr>op_Pointer := Some (stored 0 (t @ [0]) (replicate (n + 1) 0)), op_Length := of_nat (length t)\<rparr>"
  shows "converts ok s a (StrV t)
    (case AcpiUtCreateStringObject env n s of None \<Rightarrow> None
     | Some (d, s) \<Rightarrow> if d = 0 then Some (AE_NO_MEMORY, None, s)
                      else case objects s d of None \<Rightarrow> None | Some new \<Rightarrow> K d new s)"
  using create_string [OF assms(1), of n]
proof (cases rule: createdE)
  case (new d s1)
  let ?buf = "replicate (n + 1) 0"
  let ?ob = "new_operand ACPI_TYPE_STRING\<lparr>op_Pointer := Some ?buf, op_Length := of_nat n\<rparr>"
  let ?c = "stored 0 (t @ [0]) ?buf"
  let ?ob' = "new_operand ACPI_TYPE_STRING\<lparr>op_Pointer := Some ?c, op_Length := of_nat (length t)\<rparr>"
  have d: "objects s1 d = Some ?ob" using new(6) by simp
  from set_op_ok [OF new(3) d, of f] f obtain s2 where s2: "set_op d f s1 = Some s2" "ok s2" "live (SHeap s2) = live (SHeap s)"
      "objects s2 = (objects s)(d \<mapsto> ?ob')"
    using new(4,6) by auto
  have "?c = t @ 0 # drop (Suc (length t)) ?buf" by (simp add: stored_def)
  then have "holds ?ob' (StrV t)" using assms(2,3) by (simp add: unat_of_nat_lt)
  from converts_new [OF s2(2,3) new(2,5) s2(4) this unshared_operand(2), of a] show ?thesis
    using new(1,2) d K s2(1) by simp
qed (simp add: converts_null)

lemma convert_integer_to_string:
  assumes "ok s" and a: "objects s a = Some ob" and v: "holds ob (IntV n)" and W: "AcpiGbl_IntegerByteWidth W \<in> {4, 8}" and r: "in_range W (IntV n)"
  shows "converts ok s a (StrV (to_string W Type (IntV n))) (AcpiExConvertToString env W a Type s)"
proof -
  define w where "w = AcpiGbl_IntegerByteWidth W"
  define B where "B = (if Type = ACPI_EXPLICIT_CONVERT_DECIMAL then 10 else 16 :: u16)"
  define l where "l = (if Type = ACPI_EXPLICIT_CONVERT_DECIMAL then 20 else 2 * unat w)"
  define t where "t = ascii B (unat w) (unat n)"
  have t: "to_string W Type (IntV n) = t" by (simp add: t_def ascii_def B_def w_def)
  have w: "w = 4 \<or> w = 8" using W by (simp add: w_def)
  have len: "length t \<le> l" using w length_decimal64 [of n] by (auto simp: t_def ascii_def B_def l_def)
  moreover have "l \<le> 20" using w by (auto simp: l_def)
  ultimately have small: "length t < 2 ^ 32" by simp
  have nz: "0 \<notin> set t" by (simp add: t_def ascii_def hex_digits_nonzero decimal_nonzero)
  let ?buf = "replicate (l + 1) (0 :: u8)"
  have "fits n w" using w r by (auto simp: fits_def w_def)
  with len have 1: "AcpiExConvertToAscii n B w 0 ?buf = Some (length t, stored 0 (t @ [0]) ?buf)"
    using ConvertToAscii_stored [of B n w 0 ?buf] by (simp add: t_def B_def)
  have 2: "put (length t) 0 (stored 0 (t @ [0]) ?buf) = Some (stored 0 (t @ [0]) ?buf)" using len by (intro put_end) simp
  let ?f = "\<lambda>ob. ob\<lparr>op_Pointer := Some (stored 0 (t @ [0]) ?buf), op_Length := of_nat (length t)\<rparr>"
  let ?K = "\<lambda>d new s. Option.bind (AcpiExConvertToAscii n B w 0 (storage new)) (\<lambda>(n, buf). Option.bind (put n 0 buf) (\<lambda>buf.
      map_option (\<lambda>s. (AE_OK, Some d, s)) (set_op d (\<lambda>ob. ob\<lparr>op_Pointer := Some buf, op_Length := of_nat n\<rparr>) s)))"
  have "?K d (new_operand ACPI_TYPE_STRING\<lparr>op_Pointer := Some ?buf, op_Length := of_nat l\<rparr>) s =
      map_option (\<lambda>s. (AE_OK, Some d, s)) (set_op d ?f s)" for d s
    using 1 2 by (simp add: storage_def)
  from string_result [OF assms(1) nz small, of ?K, OF this, of a] have
    "converts ok s a (StrV t) (case AcpiUtCreateStringObject env l s of None \<Rightarrow> None
     | Some (d, s) \<Rightarrow> if d = 0 then Some (AE_NO_MEMORY, None, s)
                      else case objects s d of None \<Rightarrow> None | Some new \<Rightarrow> ?K d new s)"
    by (simp add: new_operand_def zero_operand_def)
  moreover have "unat (ucast w * 2 :: u32) = 2 * unat w" "unat ACPI_MAX_DECIMAL_DIGITS = 20" using w by (auto simp: ACPI_MAX_DECIMAL_DIGITS_def)
  moreover have n: "op_Value ob = n" "op_Type ob = ACPI_TYPE_INTEGER" using v by simp_all
  moreover have "Type = ACPI_EXPLICIT_CONVERT_DECIMAL \<and> B = 10 \<and> l = 20 \<or> Type \<noteq> ACPI_EXPLICIT_CONVERT_DECIMAL \<and> B = 16 \<and> l = 2 * unat w"
    by (simp add: B_def l_def)
  ultimately show ?thesis
    unfolding t AcpiExConvertToString_def w_def [symmetric] a option.case n by (elim disjE conjE) (simp_all cong: if_cong option.case_cong)
qed

lemma convert_buffer_to_string:
  assumes "ok s" and a: "objects s a = Some ob" and v: "holds ob (BufV bs)" and r: "in_range W (BufV bs)"
    and Type: "Type \<in> {ACPI_EXPLICIT_CONVERT_HEX, ACPI_IMPLICIT_CONVERT_HEX, ACPI_EXPLICIT_CONVERT_DECIMAL}"
  shows "converts ok s a (StrV (to_string W Type (BufV bs))) (AcpiExConvertToString env W a Type s)"
proof -
  define B where "B = (if Type = ACPI_EXPLICIT_CONVERT_DECIMAL then 10 else 16 :: u16)"
  define sep where "sep = (if Type = ACPI_IMPLICIT_CONVERT_HEX then 32 else 44 :: u8)"
  define t where "t = joined (byte_text B) sep bs"
  define T where "T = concat (map (\<lambda>b. byte_text B b @ [sep]) bs)"
  have B: "B = 10 \<or> B = 16" by (simp add: B_def)
  have t: "to_string W Type (BufV bs) = t" by (simp add: t_def B_def sep_def)
  have nz: "0 \<notin> set t" unfolding t_def by (intro joined_nonzero byte_text_nonzero) (simp add: sep_def)
  have T: "T = (if bs = [] then [] else t @ [sep])" using concat_joined [of bs "byte_text B" sep] by (simp add: T_def t_def)
  have lenT: "length T < 2 ^ 32" using text_length_le [OF B, of sep bs] r by (simp add: T_def)
  then have small: "length t < 2 ^ 32" using T by (simp add: t_def split: if_splits)
  let ?L = "if Type = ACPI_EXPLICIT_CONVERT_DECIMAL then decimal_length bs 0 else op_Length ob * 5"
  have len: "op_Length ob = of_nat (length bs)" using v by simp
  have "?L = of_nat (length T)"
    using decimal_length_eq [of bs 0 sep] hex_length_eq [of sep bs] len by (simp add: T_def B_def)
  then have L: "unat ?L = length T" using lenT by (simp add: unat_of_nat_lt)
  define n where "n = length T - 1"
  have n: "unat (if ?L \<noteq> 0 then ?L - 1 else ?L) = n"
  proof (cases "?L = 0")
    case False
    then show ?thesis using L unat_pred [of ?L] by (simp add: n_def)
  qed (use L in \<open>simp add: n_def\<close>)
  have nt: "n = length t" using T by (simp add: n_def t_def split: if_splits)
  let ?buf = "replicate (n + 1) (0 :: u8)"
  have "length T \<le> n + 1" by (simp add: n_def)
  then have 1: "string_loop bs B sep 0 ?buf = Some (length T, stored 0 T ?buf)"
    using string_loop_stored [OF B T_def [symmetric, THEN sym], of 0 ?buf] by simp
  have e: "(op_Length ob \<noteq> 0) = (bs \<noteq> [])"
  proof -
    have "unat (op_Length ob) = length bs" using v by simp
    then show ?thesis by (metis length_0_conv unat_eq_0)
  qed
  have 2: "put (if op_Length ob \<noteq> 0 then length T - 1 else length T) 0 (stored 0 T ?buf) = Some (stored 0 (t @ [0]) ?buf)"
    unfolding e using T nt put_end [of t ?buf sep] by (simp add: put_stored t_def)
  let ?K = "\<lambda>d new s. Option.bind (string_loop bs B sep 0 (storage new)) (\<lambda>(pos, buf).
      Option.bind (put (if op_Length ob \<noteq> 0 then pos - 1 else pos) 0 buf) (\<lambda>buf.
      map_option (\<lambda>s. (AE_OK, Some d, s)) (set_op d (\<lambda>ob. ob\<lparr>op_Pointer := Some buf\<rparr>) s)))"
  let ?f = "\<lambda>ob. ob\<lparr>op_Pointer := Some (stored 0 (t @ [0]) ?buf)\<rparr>"
  have "?K d (new_operand ACPI_TYPE_STRING\<lparr>op_Pointer := Some ?buf, op_Length := of_nat n\<rparr>) s =
      map_option (\<lambda>s. (AE_OK, Some d, s)) (set_op d ?f s)" for d s
    using 1 2 by (simp add: storage_def)
  from string_result [OF assms(1) nz small, of ?K, OF this, of a] have
    "converts ok s a (StrV t) (case AcpiUtCreateStringObject env n s of None \<Rightarrow> None
     | Some (d, s) \<Rightarrow> if d = 0 then Some (AE_NO_MEMORY, None, s)
                      else case objects s d of None \<Rightarrow> None | Some new \<Rightarrow> ?K d new s)"
    using nt by (simp add: new_operand_def zero_operand_def)
  moreover have "\<not> length (storage ob) < unat (op_Length ob)" "take (unat (op_Length ob)) (storage ob) = bs" "op_Type ob = ACPI_TYPE_BUFFER"
    using v arg_cong [of "take (length bs) (storage ob)" bs length] by auto
  moreover have "ACPI_EXPLICIT_CONVERT_HEX \<noteq> ACPI_EXPLICIT_CONVERT_DECIMAL" "ACPI_IMPLICIT_CONVERT_HEX \<noteq> ACPI_EXPLICIT_CONVERT_DECIMAL"
    "ACPI_EXPLICIT_CONVERT_HEX \<noteq> ACPI_IMPLICIT_CONVERT_HEX"
    by (simp_all add: ACPI_EXPLICIT_CONVERT_HEX_def ACPI_IMPLICIT_CONVERT_HEX_def ACPI_EXPLICIT_CONVERT_DECIMAL_def)
  moreover have "Type = ACPI_EXPLICIT_CONVERT_DECIMAL \<and> B = 10 \<and> sep = 44 \<or> Type = ACPI_IMPLICIT_CONVERT_HEX \<and> B = 16 \<and> sep = 32
      \<or> Type = ACPI_EXPLICIT_CONVERT_HEX \<and> B = 16 \<and> sep = 44"
    using Type calculation(5-7) by (auto simp: B_def sep_def)
  ultimately show ?thesis
    using n unfolding t AcpiExConvertToString_def a option.case by (elim disjE conjE) (simp_all add: Let_def cong: if_cong option.case_cong)
qed

end

section \<open>The caches of ACPICA\<close>

definition caches_ok :: "(memory_list, memory_list) ostate \<Rightarrow> bool" where
  "caches_ok s \<longleftrightarrow> cache_inv (OCache s) (OHeap s) \<and> cache_inv (SCache s) (SHeap s)"

lemma objects_ok: "acpi_objects.ok = caches_ok"
  by (rule ext) (simp add: acpi_objects.ok_def caches_ok_def)

lemmas acpi_to_integer = acpi_objects.convert_to_integer [unfolded objects_ok]
  and acpi_to_buffer = acpi_objects.convert_to_buffer [unfolded objects_ok]
  and acpi_integer_to_string = acpi_objects.convert_integer_to_string [unfolded objects_ok]
  and acpi_buffer_to_string = acpi_objects.convert_buffer_to_string [unfolded objects_ok]

lemma acpi_to_string:
  assumes "caches_ok s" and "objects s a = Some ob" and "holds ob v" and "in_range (AcpiUtSetIntegerWidth revision) v"
    and "Type \<in> {ACPI_EXPLICIT_CONVERT_HEX, ACPI_IMPLICIT_CONVERT_HEX, ACPI_EXPLICIT_CONVERT_DECIMAL}"
  shows "converts caches_ok s a (StrV (to_string (AcpiUtSetIntegerWidth revision) Type v))
    (AcpiExConvertToString (acpi_env pick pick' alloc ext) (AcpiUtSetIntegerWidth revision) a Type s)"
proof (cases v)
  case (IntV n)
  have "AcpiGbl_IntegerByteWidth (AcpiUtSetIntegerWidth revision) \<in> {4, 8}" by (rule width_cases [of revision]) simp_all
  with acpi_integer_to_string assms IntV show ?thesis by blast
next
  case (StrV t)
  then show ?thesis using assms(2,3) acpi_objects.converts_self [OF assms(2,3), unfolded objects_ok] by (simp add: AcpiExConvertToString_def)
next
  case (BufV bs)
  with acpi_buffer_to_string assms show ?thesis by blast
qed

section \<open>Numbers survive the way through their texts and bytes\<close>

lemma explicit_decimal:
  assumes "width_ok w" and "m < 2 ^ unat w"
  shows "AcpiUtExplicitStrtoul64 w (decimal m @ [0]) = of_nat m"
proof -
  have "tolower 0 \<noteq> 120" by (simp add: tolower_def isupper_iff)
  then have a: "aml_number [] (decimal m) [0] (if ([] :: u8 list) = [] then isdigit else isxdigit)"
    by (simp add: aml_number_def digits_decimal decimal_not_Nil stops_def deref_def)
  show ?thesis
    using explicit_skip [OF a, of "[]" w] skip_and_convert_spec [OF assms(1), of 10 isdigit "decimal m" "[0]"] assms(2)
      fit_prefix_all [of 10 0 "decimal m" "2 ^ unat w"] digits_decimal [of m]
    by (simp add: value_decimal isdigit_iff stops_def deref_def)
qed

lemma implicit_hexadecimal:
  assumes "width_ok w" and "m < 2 ^ unat w" and "m < 16 ^ k" and "0 < k"
  shows "AcpiUtImplicitStrtoul64 w (hex_digits k m @ [0]) = of_nat m"
proof -
  have "tolower 0 \<noteq> 120" by (simp add: tolower_def isupper_iff)
  moreover have "hex_digits k m \<noteq> []" using length_hex_digits [of k m] assms(4) by (metis length_greater_0_conv)
  ultimately have a: "aml_number [] (hex_digits k m) [0] isxdigit"
    by (simp add: aml_number_def digits_hex_digits stops_def deref_def)
  have v: "value_of 16 0 (hex_digits k m) = m" using assms(3) by (simp add: value_hex_digits)
  show ?thesis
    using implicit_skip [OF a, of "[]" w] skip_and_convert_spec [OF assms(1), of 16 isxdigit "hex_digits k m" "[0]"] assms(2)
      fit_prefix_all [of 16 0 "hex_digits k m" "2 ^ unat w"] digits_hex_digits [of k m] v
    by (simp add: isxdigit_iff stops_def deref_def)
qed

lemma buffer_value_bytes: "i \<le> k \<Longrightarrow> buffer_value i (bytes_of k n) = take_bit (8 * i) n"
proof (induction i)
  case (Suc i)
  then show ?case
    by (auto intro!: bit_word_eqI simp: bytes_of_def bit_or_iff bit_push_bit_iff bit_take_bit_iff bit_unsigned_iff bit_drop_bit_eq mult.commute)
qed simp

lemma truncated_self: "in_range W (IntV n) \<Longrightarrow> truncated W n = n"
proof -
  assume r: "in_range W (IntV n)"
  show "truncated W n = n"
  proof (cases "AcpiGbl_IntegerByteWidth W = 4")
    case True
    then have "unat n < 2 ^ 32" using r by simp
    then have "\<not> n > ACPI_UINT32_MAX" by (simp add: ACPI_UINT32_MAX_def word_less_nat_alt)
    then show ?thesis using True and_uint32_max [of n] by (simp add: truncated_def)
  qed (simp add: truncated_def)
qed

lemma value_round_trips:
  fixes n :: u64
  assumes r: "in_range (AcpiUtSetIntegerWidth revision) (IntV n)"
  defines "W \<equiv> AcpiUtSetIntegerWidth revision"
  shows "to_integer W False (StrV (to_string W ACPI_EXPLICIT_CONVERT_DECIMAL (IntV n))) = Some n"
    and "to_integer W True (StrV (to_string W ACPI_IMPLICIT_CONVERT_HEX (IntV n))) = Some n"
    and "to_integer W implicit (BufV (to_buffer W (IntV n))) = Some n"
proof -
  obtain w where w: "AcpiGbl_IntegerBitWidth W = 8 * w" "AcpiGbl_IntegerByteWidth W = w" "w = 4 \<or> w = 8"
    by (rule width_cases [of revision]) (auto simp: W_def)
  then have ok: "width_ok (8 * w)" and n: "unat n < 2 ^ unat (8 * w)" "unat n < 16 ^ (2 * unat w)" "0 < 2 * unat w"
    using r by (auto simp: width_ok_def W_def [symmetric])
  have t: "truncated W n = n" using truncated_self r by (simp add: W_def)
  have d: "ACPI_IMPLICIT_CONVERT_HEX \<noteq> ACPI_EXPLICIT_CONVERT_DECIMAL"
    by (simp add: ACPI_IMPLICIT_CONVERT_HEX_def ACPI_EXPLICIT_CONVERT_DECIMAL_def)
  show "to_integer W False (StrV (to_string W ACPI_EXPLICIT_CONVERT_DECIMAL (IntV n))) = Some n"
    using explicit_decimal [OF ok n(1)] w t by simp
  show "to_integer W True (StrV (to_string W ACPI_IMPLICIT_CONVERT_HEX (IntV n))) = Some n"
    using implicit_hexadecimal [OF ok n] w t d by simp
  have "take_bit (8 * unat w) n = n" using r w by (simp add: W_def [symmetric] word_unat_eq_iff unsigned_take_bit_eq take_bit_nat_eq_self)
  moreover have "bytes_of (unat w) n \<noteq> []" using n(3) length_bytes_of [of "unat w" n] by (metis length_greater_0_conv nat_0_less_mult_iff)
  ultimately show "to_integer W implicit (BufV (to_buffer W (IntV n))) = Some n"
    using buffer_value_bytes [of "unat w" "unat w" n] w t by simp
qed

section \<open>Properties\<close>

text \<open>
  C5. The conversions of an integer, a string or a buffer to an integer, a buffer and a string compute the conversions of the values. For every
  object whose texts have 32-bit lengths, each store of the conversion lies within the memory of the new object. The result is the object itself when
  it has the type already, else one new object with a count of one that has the value; nothing else changes. If there is no memory, nothing
  changes at all. An empty buffer is no integer.
\<close>

theorem object_conversions:
  assumes "caches_ok s" and "objects s a = Some ob" and "holds ob v" and "in_range (AcpiUtSetIntegerWidth revision) v"
    and "Type \<in> {ACPI_EXPLICIT_CONVERT_HEX, ACPI_IMPLICIT_CONVERT_HEX, ACPI_EXPLICIT_CONVERT_DECIMAL}"
    and W_def: "W = AcpiUtSetIntegerWidth revision" and env_def: "env = acpi_env pick pick' alloc ext"
  shows "(case to_integer W implicit v of
            None \<Rightarrow> AcpiExConvertToInteger env W a implicit s = Some (AE_AML_BUFFER_LIMIT, None, s)
          | Some n \<Rightarrow> converts caches_ok s a (IntV n) (AcpiExConvertToInteger env W a implicit s))
    \<and> converts caches_ok s a (BufV (to_buffer W v)) (AcpiExConvertToBuffer env W a s)
    \<and> converts caches_ok s a (StrV (to_string W Type v)) (AcpiExConvertToString env W a Type s)"
proof -
  have "0 < AcpiGbl_IntegerByteWidth W" by (rule width_cases [of revision]) (simp_all add: W_def)
  with acpi_to_integer [OF assms(1-3)] acpi_to_buffer [OF assms(1-3)] acpi_to_string [OF assms(1-5)] assms(4)
  show ?thesis unfolding W_def env_def by blast
qed

definition sample_buffer :: operand_object where
  "sample_buffer = new_operand ACPI_TYPE_BUFFER\<lparr>op_Pointer := Some [7, 200, 0], op_Length := 2\<rparr>"

definition store_with :: "operand_object \<Rightarrow> (memory_list, memory_list) ostate" where
  "store_with ob = sample_store\<lparr>OHeap := [0x1000 \<mapsto> Object ob]\<rparr>"

lemma store_with: "caches_ok (store_with ob)" "objects (store_with ob) 0x1000 = Some ob"
  using sample_inv(2) by (simp_all add: caches_ok_def store_with_def sample_store_def cache_inv_def live_def)

theorem object_conversions_witness:
  "converts caches_ok (store_with sample_buffer) 0x1000 (StrV [55, 44, 50, 48, 48])
    (AcpiExConvertToString (acpi_env (\<lambda>_. 0x2000) (\<lambda>_. 0) (\<lambda>_ _. True) (\<lambda>_ _. None)) (AcpiUtSetIntegerWidth 2) 0x1000
      ACPI_EXPLICIT_CONVERT_DECIMAL (store_with sample_buffer))"
proof -
  have v: "holds sample_buffer (BufV [7, 200])" by (simp add: sample_buffer_def storage_def)
  have "to_string (AcpiUtSetIntegerWidth 2) ACPI_EXPLICIT_CONVERT_DECIMAL (BufV [7, 200]) = [55, 44, 50, 48, 48]"
    by (simp add: byte_text_def ascii_def decimal.simps dig_def ACPI_EXPLICIT_CONVERT_DECIMAL_def ACPI_IMPLICIT_CONVERT_HEX_def)
  with object_conversions [OF store_with v, of 2 ACPI_EXPLICIT_CONVERT_DECIMAL, OF _ _ refl refl] show ?thesis by simp
qed

text \<open>
  C17. Numbers survive: the decimal text of an integer converts back explicitly, its hexadecimal text implicitly and its bytes as a buffer in either
  way to the integer, whichever the integer width is; again the result is the number in one new object, or there is no memory.
\<close>

theorem integer_conversion_roundtrip:
  assumes "caches_ok s" and "objects s a = Some ob" and "holds ob (IntV n)" and "in_range (AcpiUtSetIntegerWidth revision) (IntV n)"
    and chain: "r = (AcpiExConvertToString env W a ACPI_EXPLICIT_CONVERT_DECIMAL s) \<and> \<not> implicit
      \<or> r = (AcpiExConvertToString env W a ACPI_IMPLICIT_CONVERT_HEX s) \<and> implicit \<or> r = AcpiExConvertToBuffer env W a s"
    and d: "r = Some (AE_OK, Some d, s')"
    and W: "W = AcpiUtSetIntegerWidth revision" and env: "env = acpi_env pick pick' alloc ext"
  shows "converts caches_ok s' d (IntV n) (AcpiExConvertToInteger env W d implicit s')"
proof -
  have pos: "0 < AcpiGbl_IntegerByteWidth W" by (rule width_cases [of revision]) (simp_all add: W)
  note str = acpi_to_string [OF assms(1-4), where pick = pick and pick' = pick' and alloc = alloc and ext = ext, folded W env]
    and buf = acpi_to_buffer [OF assms(1-3) pos, where pick = pick and pick' = pick' and alloc = alloc and ext = ext, folded env]
    and trips = value_round_trips [OF assms(4), folded W]
  obtain v where v: "converts caches_ok s a v r" "to_integer W implicit v = Some n" "\<And>m. v \<noteq> IntV m"
    using chain
  proof (elim disjE conjE)
    assume "r = AcpiExConvertToBuffer env W a s"
    then show ?thesis using that [of "BufV (to_buffer W (IntV n))"] buf trips(3) assms(4) W by simp
  next
    assume "r = AcpiExConvertToString env W a ACPI_EXPLICIT_CONVERT_DECIMAL s" "\<not> implicit"
    then show ?thesis
      using that [of "StrV (to_string W ACPI_EXPLICIT_CONVERT_DECIMAL (IntV n))"] str [of ACPI_EXPLICIT_CONVERT_DECIMAL] trips(1) by simp
  next
    assume "r = AcpiExConvertToString env W a ACPI_IMPLICIT_CONVERT_HEX s" "implicit"
    then show ?thesis
      using that [of "StrV (to_string W ACPI_IMPLICIT_CONVERT_HEX (IntV n))"] str [of ACPI_IMPLICIT_CONVERT_HEX] trips(2) by simp
  qed
  have types: "\<not> holds ob v" using v(3) assms(3) by (cases v) auto
  from v(1) d types assms(2) obtain ob' where "caches_ok s'" "objects s' d = Some ob'" "holds ob' v"
    by (auto simp: converts_def)
  from acpi_to_integer [OF this, where W = W and imp = implicit] v(2) show ?thesis by (simp add: env)
qed

theorem integer_conversion_roundtrip_witness:
  "\<exists>d s'. AcpiExConvertToBuffer (acpi_env (\<lambda>_. 0x2000) (\<lambda>_. 0) (\<lambda>_ _. True) (\<lambda>_ _. None)) (AcpiUtSetIntegerWidth 1) 0x1000
        (store_with (new_operand ACPI_TYPE_INTEGER\<lparr>op_Value := 300\<rparr>)) = Some (AE_OK, Some d, s')
     \<and> converts caches_ok s' d (IntV 300)
         (AcpiExConvertToInteger (acpi_env (\<lambda>_. 0x2000) (\<lambda>_. 0) (\<lambda>_ _. True) (\<lambda>_ _. None)) (AcpiUtSetIntegerWidth 1) d True s')"
proof -
  let ?ob = "new_operand ACPI_TYPE_INTEGER\<lparr>op_Value := 300\<rparr>" and ?env = "acpi_env (\<lambda>_. 0x2000) (\<lambda>_. 0) (\<lambda>_ _. True) (\<lambda>_ _. None)"
  obtain d s' where r: "AcpiExConvertToBuffer ?env (AcpiUtSetIntegerWidth 1) 0x1000 (store_with ?ob) = Some (AE_OK, Some d, s')"
    by (simp add: AcpiExConvertToBuffer_def store_with(2) AcpiUtSetIntegerWidth_def AcpiUtCreateBufferObject_def AcpiUtCreateInternalObjectDbg_def
        AcpiUtAllocateObjectDescDbg_def AcpiOsAllocate_def reference_eval store_bytes_def storage_def new_operand_def store_with_def ACPI_TYPE_LOCAL_BANK_FIELD_def)
  have "in_range (AcpiUtSetIntegerWidth 1) (IntV 300)" by (simp add: AcpiUtSetIntegerWidth_def)
  from integer_conversion_roundtrip [OF store_with _ this, of ?ob _ ?env "AcpiUtSetIntegerWidth 1" True d s', OF _ _ r refl refl] r
  show ?thesis by auto
qed

text \<open>
  C39. The length of the hexadecimal text is computed in 32 bits. A buffer of 858993460 bytes needs 4294967300 bytes of text, so the string gets the
  length 3 and the memory for 4 bytes: the text of the first byte and its separator do not fit and the conversion writes beyond the memory.
\<close>

lemma string_loop_overrun: "string_loop (b # bs) 16 sep 0 (replicate 4 0) = None"
proof -
  have "hex_loop 2 (ucast b) 0 2 buf = Some (2, stored 2 (hex_digits 2 (unat b)) buf)" if "length buf = 4" for buf
    using hex_loop_stored [of 2 2 0 buf "ucast b"] that unat_lt8 [of b] by (simp add: unsigned_ucast_eq take_bit_nat_eq_self)
  then show ?thesis by (simp add: put_def AcpiExConvertToAscii_def numeral_2_eq_2 [symmetric])
qed

theorem hex_text_length_wraps:
  assumes "caches_ok s" and "objects s a = Some ob" and "op_Type ob = ACPI_TYPE_BUFFER" and "unat (op_Length ob) = 858993460"
    and "op_Pointer ob = Some bs" and "length bs = 858993460" and Type: "Type = ACPI_IMPLICIT_CONVERT_HEX \<or> Type = ACPI_EXPLICIT_CONVERT_HEX"
    and "AcpiUtCreateStringObject (acpi_env pick pick' alloc ext) 3 s = Some (d, s')" and "d \<noteq> 0"
  shows "AcpiExConvertToString (acpi_env pick pick' alloc ext) W a Type s = None"
proof -
  have new: "objects s' d = Some (new_operand ACPI_TYPE_STRING\<lparr>op_Pointer := Some (replicate 4 0), op_Length := 3\<rparr>)"
    using acpi_objects.create_string [unfolded objects_ok, OF assms(1), of 3 pick pick' alloc ext] assms(8,9)
    by (auto simp: acpi_objects.created_def numeral_eq_Suc)
  have "op_Length ob = 858993460" using assms(4) by (simp add: word_unat_eq_iff)
  then have len: "op_Length ob * 5 = 4" by simp
  obtain b bs' where bs: "take 858993460 bs = b # bs'" using assms(6) by (cases bs) (simp_all add: take_Cons')
  have types: "ACPI_EXPLICIT_CONVERT_HEX \<noteq> ACPI_EXPLICIT_CONVERT_DECIMAL" "ACPI_IMPLICIT_CONVERT_HEX \<noteq> ACPI_EXPLICIT_CONVERT_DECIMAL"
    by (simp_all add: ACPI_EXPLICIT_CONVERT_HEX_def ACPI_IMPLICIT_CONVERT_HEX_def ACPI_EXPLICIT_CONVERT_DECIMAL_def)
  have st: "storage ob = bs" "storage (new_operand ACPI_TYPE_STRING\<lparr>op_Pointer := Some (replicate 4 0), op_Length := 3\<rparr>) = replicate 4 0"
    using assms(5) by (simp_all add: storage_def)
  show ?thesis
    using Type assms(3,6) types
    by (elim disjE) (simp_all add: AcpiExConvertToString_def assms(2,4,8,9) st bs len new string_loop_overrun del: string_loop.simps)
qed

definition sample_env :: "(memory_list, memory_list) op_env" where
  "sample_env = acpi_env (\<lambda>_. 0x2000) (\<lambda>_. 0) (\<lambda>_ _. True) (\<lambda>_ _. None)"

lemma sample_string: "\<exists>s'. AcpiUtCreateStringObject sample_env 3 (store_with ob) = Some (0x2000, s')"
  by (simp add: sample_env_def AcpiUtCreateStringObject_def AcpiUtCreateInternalObjectDbg_def AcpiUtAllocateObjectDescDbg_def AcpiOsAllocate_def
      reference_eval store_with_def ACPI_TYPE_LOCAL_BANK_FIELD_def)

theorem hex_text_length_wraps_witness:
  "AcpiExConvertToString sample_env (AcpiUtSetIntegerWidth 2) 0x1000 ACPI_IMPLICIT_CONVERT_HEX
     (store_with (new_operand ACPI_TYPE_BUFFER\<lparr>op_Pointer := Some (replicate 858993460 0), op_Length := 858993460\<rparr>)) = None"
proof -
  let ?ob = "new_operand ACPI_TYPE_BUFFER\<lparr>op_Pointer := Some (replicate 858993460 0), op_Length := 858993460\<rparr>"
  obtain s' where "AcpiUtCreateStringObject sample_env 3 (store_with ?ob) = Some (0x2000, s')" using sample_string by blast
  with hex_text_length_wraps [OF store_with, of ?ob "replicate 858993460 0" ACPI_IMPLICIT_CONVERT_HEX "\<lambda>_. 0x2000" "\<lambda>_. 0" "\<lambda>_ _. True" "\<lambda>_ _. None"
      "0x2000" s' "AcpiUtSetIntegerWidth 2", folded sample_env_def]
  show ?thesis by simp
qed

end
