(* ===== verification/ExLogic.thy ===== *)
theory ExLogic
  imports ExConvert
begin

text \<open>
  The operators on two operands, \<^verbatim>\<open>components/executer/exmisc.c\<close>, the opcodes that give a logical result, \<open>AcpiExOpcode_2A_0T_1R\<close> of
  \<^verbatim>\<open>exoparg2.c\<close>, and the implicit conversion of a store, \<open>AcpiExConvertToTargetType\<close> of \<^verbatim>\<open>exconvrt.c\<close>. The theorems relate them to arithmetic of the integer width and
  to the order of integers and byte strings.

  Of the walk state the opcode, its flags, the two operands and the result object are arguments and results. \<open>Acquire\<close> and \<open>Wait\<close>, which block, are a parameter.
\<close>

section \<open>Opcodes and argument types\<close>

definition AML_ADD_OP :: u16 where "AML_ADD_OP = 0x72"
definition AML_SUBTRACT_OP :: u16 where "AML_SUBTRACT_OP = 0x74"
definition AML_MULTIPLY_OP :: u16 where "AML_MULTIPLY_OP = 0x77"
definition AML_SHIFT_LEFT_OP :: u16 where "AML_SHIFT_LEFT_OP = 0x79"
definition AML_SHIFT_RIGHT_OP :: u16 where "AML_SHIFT_RIGHT_OP = 0x7a"
definition AML_BIT_AND_OP :: u16 where "AML_BIT_AND_OP = 0x7b"
definition AML_BIT_NAND_OP :: u16 where "AML_BIT_NAND_OP = 0x7c"
definition AML_BIT_OR_OP :: u16 where "AML_BIT_OR_OP = 0x7d"
definition AML_BIT_NOR_OP :: u16 where "AML_BIT_NOR_OP = 0x7e"
definition AML_BIT_XOR_OP :: u16 where "AML_BIT_XOR_OP = 0x7f"
definition AML_LOGICAL_AND_OP :: u16 where "AML_LOGICAL_AND_OP = 0x90"
definition AML_LOGICAL_OR_OP :: u16 where "AML_LOGICAL_OR_OP = 0x91"
definition AML_LOGICAL_EQUAL_OP :: u16 where "AML_LOGICAL_EQUAL_OP = 0x93"
definition AML_LOGICAL_GREATER_OP :: u16 where "AML_LOGICAL_GREATER_OP = 0x94"
definition AML_LOGICAL_LESS_OP :: u16 where "AML_LOGICAL_LESS_OP = 0x95"
definition AML_ACQUIRE_OP :: u16 where "AML_ACQUIRE_OP = 0x5b23"
definition AML_WAIT_OP :: u16 where "AML_WAIT_OP = 0x5b25"
definition AML_LOGICAL :: u16 where "AML_LOGICAL = 0x0001"
definition AML_LOGICAL_NUMERIC :: u16 where "AML_LOGICAL_NUMERIC = 0x0002"
definition ARGI_INTEGER_REF :: u32 where "ARGI_INTEGER_REF = 0x0B"
definition ARGI_REFERENCE :: u32 where "ARGI_REFERENCE = 0x0E"
definition ARGI_TARGETREF :: u32 where "ARGI_TARGETREF = 0x0F"
definition ARGI_FIXED_TARGET :: u32 where "ARGI_FIXED_TARGET = 0x10"
definition ARGI_SIMPLE_TARGET :: u32 where "ARGI_SIMPLE_TARGET = 0x11"
definition ARGI_STORE_TARGET :: u32 where "ARGI_STORE_TARGET = 0x12"

definition GET_CURRENT_ARG_TYPE :: "u32 \<Rightarrow> u32" where
  "GET_CURRENT_ARG_TYPE List = List AND 0x1F"

section \<open>Operators\<close>

definition AcpiExDoMathOp :: "integer_width \<Rightarrow> u16 \<Rightarrow> u64 \<Rightarrow> u64 \<Rightarrow> u64" where
  "AcpiExDoMathOp W Opcode Integer0 Integer1 =
     (if Opcode = AML_ADD_OP then Integer0 + Integer1
      else if Opcode = AML_BIT_AND_OP then Integer0 AND Integer1
      else if Opcode = AML_BIT_NAND_OP then NOT (Integer0 AND Integer1)
      else if Opcode = AML_BIT_OR_OP then Integer0 OR Integer1
      else if Opcode = AML_BIT_NOR_OP then NOT (Integer0 OR Integer1)
      else if Opcode = AML_BIT_XOR_OP then Integer0 XOR Integer1
      else if Opcode = AML_MULTIPLY_OP then Integer0 * Integer1
      else if Opcode = AML_SHIFT_LEFT_OP
      then if Integer1 \<ge> ucast (AcpiGbl_IntegerBitWidth W) then 0 else push_bit (unat Integer1) Integer0
      else if Opcode = AML_SHIFT_RIGHT_OP
      then if Integer1 \<ge> ucast (AcpiGbl_IntegerBitWidth W) then 0 else drop_bit (unat Integer1) Integer0
      else if Opcode = AML_SUBTRACT_OP then Integer0 - Integer1
      else 0)"

definition AcpiExDoLogicalNumericOp :: "u16 \<Rightarrow> u64 \<Rightarrow> u64 \<Rightarrow> acpi_status \<times> bool" where
  "AcpiExDoLogicalNumericOp Opcode Integer0 Integer1 =
     (if Opcode = AML_LOGICAL_AND_OP then (AE_OK, Integer0 \<noteq> 0 \<and> Integer1 \<noteq> 0)
      else if Opcode = AML_LOGICAL_OR_OP then (AE_OK, Integer0 \<noteq> 0 \<or> Integer1 \<noteq> 0)
      else (AE_AML_INTERNAL, False))"

text \<open>\<open>memcmp\<close> on two memories of known size.\<close>

fun memcmp_lists :: "nat \<Rightarrow> u8 list \<Rightarrow> u8 list \<Rightarrow> int option" where
  "memcmp_lists 0 bs cs = Some 0"
| "memcmp_lists (Suc n) (b # bs) (c # cs) = (if b = c then memcmp_lists n bs cs else Some (uint b - uint c))"
| "memcmp_lists (Suc n) bs cs = None"

text \<open>The comparison of two integers, and of the bytes of two strings or buffers.\<close>

definition compare_integers :: "u16 \<Rightarrow> u64 \<Rightarrow> u64 \<Rightarrow> acpi_status \<times> bool" where
  "compare_integers Opcode Integer0 Integer1 =
     (if Opcode = AML_LOGICAL_EQUAL_OP then (AE_OK, Integer0 = Integer1)
      else if Opcode = AML_LOGICAL_GREATER_OP then (AE_OK, Integer0 > Integer1)
      else if Opcode = AML_LOGICAL_LESS_OP then (AE_OK, Integer0 < Integer1)
      else (AE_AML_INTERNAL, False))"

definition compare_bytes :: "u16 \<Rightarrow> u32 \<Rightarrow> u32 \<Rightarrow> int \<Rightarrow> acpi_status \<times> bool" where
  "compare_bytes Opcode Length0 Length1 Compare =
     (if Opcode = AML_LOGICAL_EQUAL_OP then (AE_OK, Length0 = Length1 \<and> Compare = 0)
      else if Opcode = AML_LOGICAL_GREATER_OP then
        (if Compare > 0 then (AE_OK, True) else if Compare < 0 then (AE_OK, False) else (AE_OK, Length0 > Length1))
      else if Opcode = AML_LOGICAL_LESS_OP then
        (if Compare > 0 then (AE_OK, False) else if Compare < 0 then (AE_OK, True) else (AE_OK, Length0 < Length1))
      else (AE_AML_INTERNAL, False))"

definition AcpiExDoLogicalOp ::
  "('c, 'd) op_env \<Rightarrow> integer_width \<Rightarrow> u16 \<Rightarrow> addr \<Rightarrow> addr \<Rightarrow> ('c, 'd) ostate \<Rightarrow> (acpi_status \<times> bool \<times> ('c, 'd) ostate) option" where
  "AcpiExDoLogicalOp env W Opcode Operand0 Operand1 s =
     (case objects s Operand0 of
        None \<Rightarrow> None
      | Some ob0 \<Rightarrow>
          Option.bind
            (if op_Type ob0 = ACPI_TYPE_INTEGER then AcpiExConvertToInteger env W Operand1 True s
             else if op_Type ob0 = ACPI_TYPE_STRING then AcpiExConvertToString env W Operand1 ACPI_IMPLICIT_CONVERT_HEX s
             else if op_Type ob0 = ACPI_TYPE_BUFFER then AcpiExConvertToBuffer env W Operand1 s
             else Some (AE_AML_INTERNAL, None, s))
            (\<lambda>(Status, Result, s).
               let LocalOperand1 = (case Result of None \<Rightarrow> Operand1 | Some d \<Rightarrow> d) in
               Option.bind
                 (if ACPI_FAILURE Status then Some (Status, False)
                  else case (objects s Operand0, objects s LocalOperand1) of
                    (Some ob0, Some ob1) \<Rightarrow>
                      if op_Type ob0 = ACPI_TYPE_INTEGER then Some (compare_integers Opcode (op_Value ob0) (op_Value ob1))
                      else let Length0 = op_Length ob0; Length1 = op_Length ob1 in
                        map_option (compare_bytes Opcode Length0 Length1)
                          (memcmp_lists (unat (if Length0 > Length1 then Length1 else Length0)) (storage ob0) (storage ob1))
                  | _ \<Rightarrow> None)
                 (\<lambda>(Status, LocalResult).
                    map_option (\<lambda>s. (Status, LocalResult, s))
                      (if LocalOperand1 \<noteq> Operand1 then AcpiUtRemoveReference env LocalOperand1 s else Some s))))"

text \<open>The result object is \<open>Some\<close> only where the code stores it.\<close>

definition AcpiExOpcode_2A_0T_1R ::
  "('c, 'd) op_env \<Rightarrow> integer_width \<Rightarrow> (u16 \<Rightarrow> addr \<Rightarrow> addr \<Rightarrow> ('c, 'd) ostate \<Rightarrow> acpi_status \<times> ('c, 'd) ostate) \<Rightarrow> u16 \<Rightarrow> u16 \<Rightarrow> addr \<Rightarrow> addr \<Rightarrow>
     ('c, 'd) ostate \<Rightarrow> ('c, 'd) converted" where
  "AcpiExOpcode_2A_0T_1R env W sync Opcode Flags Operand0 Operand1 s =
     Option.bind (AcpiUtCreateInternalObjectDbg env ACPI_TYPE_INTEGER s) (\<lambda>(ReturnDesc, s).
     Option.bind
       (if ReturnDesc = 0 then Some (AE_NO_MEMORY, s)
        else Option.bind
          (if Flags AND AML_LOGICAL_NUMERIC \<noteq> 0
           then case (objects s Operand0, objects s Operand1) of
                  (Some ob0, Some ob1) \<Rightarrow> (case AcpiExDoLogicalNumericOp Opcode (op_Value ob0) (op_Value ob1) of (Status, r) \<Rightarrow> Some (Status, r, s))
                | _ \<Rightarrow> None
           else if Flags AND AML_LOGICAL \<noteq> 0 then AcpiExDoLogicalOp env W Opcode Operand0 Operand1 s
           else if Opcode = AML_ACQUIRE_OP \<or> Opcode = AML_WAIT_OP
           then case sync Opcode Operand1 Operand0 s of (Status, s) \<Rightarrow> Some (if Status = AE_TIME then (AE_OK, True, s) else (Status, False, s))
           else Some (AE_AML_BAD_OPCODE, False, s))
          (\<lambda>(Status, LogicalResult, s).
             map_option (Pair Status)
               (if LogicalResult then set_op ReturnDesc (\<lambda>ob. ob\<lparr>op_Value := ACPI_UINT64_MAX\<rparr>) s else Some s)))
       (\<lambda>(Status, s).
          if ACPI_FAILURE Status then map_option (\<lambda>s. (Status, None, s)) (AcpiUtRemoveReference env ReturnDesc s)
          else Some (Status, Some ReturnDesc, s)))"

definition AcpiExConvertToTargetType ::
  "('c, 'd) op_env \<Rightarrow> integer_width \<Rightarrow> u8 \<Rightarrow> u32 \<Rightarrow> addr \<Rightarrow> ('c, 'd) ostate \<Rightarrow> (acpi_status \<times> addr \<times> ('c, 'd) ostate) option" where
  "AcpiExConvertToTargetType env W DestinationType RuntimeArgs SourceDesc s =
     (case objects s SourceDesc of
        None \<Rightarrow> None
      | Some ob \<Rightarrow>
          let arg = GET_CURRENT_ARG_TYPE RuntimeArgs in
          map_option (\<lambda>(Status, Result, s). (if Status = AE_TYPE then AE_OK else Status, case Result of None \<Rightarrow> SourceDesc | Some d \<Rightarrow> d, s))
            (if arg \<in> {ARGI_SIMPLE_TARGET, ARGI_FIXED_TARGET, ARGI_INTEGER_REF}
             then Some (if DestinationType = ACPI_TYPE_LOCAL_REGION_FIELD then AE_OK
                        else if DestinationType \<noteq> op_Type ob then AE_TYPE else AE_OK, None, s)
             else if arg \<in> {ARGI_TARGETREF, ARGI_STORE_TARGET}
             then if DestinationType \<in> {ACPI_TYPE_INTEGER, ACPI_TYPE_BUFFER_FIELD, ACPI_TYPE_LOCAL_BANK_FIELD, ACPI_TYPE_LOCAL_INDEX_FIELD}
                  then AcpiExConvertToInteger env W SourceDesc True s
                  else if DestinationType = ACPI_TYPE_STRING then AcpiExConvertToString env W SourceDesc ACPI_IMPLICIT_CONVERT_HEX s
                  else if DestinationType = ACPI_TYPE_BUFFER then AcpiExConvertToBuffer env W SourceDesc s
                  else Some (AE_AML_INTERNAL, None, s)
             else if arg = ARGI_REFERENCE then Some (AE_OK, None, s)
             else Some (AE_AML_INTERNAL, None, s)))"

section \<open>Arithmetic of the integer width\<close>

definition arithmetic :: "u16 \<Rightarrow> int \<Rightarrow> int \<Rightarrow> int" where
  "arithmetic Opcode a b =
     (if Opcode = AML_ADD_OP then a + b else if Opcode = AML_SUBTRACT_OP then a - b else if Opcode = AML_MULTIPLY_OP then a * b
      else if Opcode = AML_SHIFT_LEFT_OP then a * 2 ^ nat b else if Opcode = AML_SHIFT_RIGHT_OP then a div 2 ^ nat b
      else if Opcode = AML_BIT_AND_OP then a AND b else if Opcode = AML_BIT_NAND_OP then NOT (a AND b)
      else if Opcode = AML_BIT_OR_OP then a OR b else if Opcode = AML_BIT_NOR_OP then NOT (a OR b)
      else if Opcode = AML_BIT_XOR_OP then a XOR b else 0)"

lemmas math_opcodes = AML_ADD_OP_def AML_SUBTRACT_OP_def AML_MULTIPLY_OP_def AML_SHIFT_LEFT_OP_def AML_SHIFT_RIGHT_OP_def
  AML_BIT_AND_OP_def AML_BIT_NAND_OP_def AML_BIT_OR_OP_def AML_BIT_NOR_OP_def AML_BIT_XOR_OP_def

lemma truncated_take_bit:
  assumes "W = AcpiUtSetIntegerWidth revision"
  shows "uint (truncated W v) = take_bit (unat (AcpiGbl_IntegerBitWidth W)) (uint v)"
proof -
  have "v AND ACPI_UINT32_MAX = take_bit 32 v" by (simp add: ACPI_UINT32_MAX_def take_bit_eq_mask mask_eq_exp_minus_1)
  then show ?thesis
    using uint_lt2p [of v]
    by (rule_tac r = revision in width_cases) (simp_all add: assms truncated_def unsigned_take_bit_eq take_bit_int_eq_self)
qed

lemma shift_left_take_bit: "w \<le> b \<Longrightarrow> take_bit w (a * 2 ^ b) = (0 :: int)"
  by (simp add: take_bit_eq_mod mod_eq_0_iff_dvd le_imp_power_dvd)

lemma math_take_bit:
  assumes "w = 32 \<or> w = 64" and "uint a < 2 ^ w" and "ucast (AcpiGbl_IntegerBitWidth W) = (of_nat w :: u64)"
  shows "take_bit w (uint (AcpiExDoMathOp W Opcode a b)) = take_bit w (arithmetic Opcode (uint a) (uint b))"
proof -
  have tt: "take_bit w (take_bit 64 x) = take_bit w x" for x :: int using assms(1) by auto
  have ge: "b \<ge> of_nat w \<longleftrightarrow> w \<le> unat b" using assms(1) by (auto simp: word_le_nat_alt)
  have nat: "nat (uint b) = unat b" by simp
  consider "Opcode = AML_SHIFT_LEFT_OP" | "Opcode = AML_SHIFT_RIGHT_OP" | "Opcode \<notin> {AML_SHIFT_LEFT_OP, AML_SHIFT_RIGHT_OP}" by blast
  then show ?thesis
  proof cases
    case 1
    have "uint (push_bit (unat b) a) = take_bit 64 (uint a * 2 ^ unat b)" by (subst unsigned_push_bit_eq) (simp add: push_bit_eq_mult)
    then show ?thesis
      using 1 shift_left_take_bit [of w "unat b" "uint a"] tt
      by (simp add: AcpiExDoMathOp_def arithmetic_def math_opcodes assms(3) ge nat)
  next
    case 2
    have "uint (drop_bit (unat b) a) = uint a div 2 ^ unat b" 
      using uint_lt2p [of a] by (subst unsigned_drop_bit_eq) (simp add: drop_bit_eq_div take_bit_int_eq_self)
    moreover have "uint a div 2 ^ unat b = 0" if "w \<le> unat b"
      using that assms(2) power_increasing [OF that, of "2 :: int"] by (intro div_pos_pos_trivial) (simp, linarith)
    ultimately show ?thesis
      using 2 by (simp add: AcpiExDoMathOp_def arithmetic_def math_opcodes assms(3) ge nat)
  next
    case 3
    have t64: "take_bit 64 (uint x) = uint x" for x :: u64 using uint_lt2p [of x] by (simp add: take_bit_int_eq_self)
    have m64: "x mod 18446744073709551616 = take_bit 64 x" for x :: int by (simp add: take_bit_eq_mod)
    from 3 have "uint (AcpiExDoMathOp W Opcode a b) = take_bit 64 (arithmetic Opcode (uint a) (uint b))"
      by (simp add: AcpiExDoMathOp_def arithmetic_def math_opcodes uint_word_ariths t64 m64 unsigned_not_eq unsigned_and_eq
          unsigned_or_eq unsigned_xor_eq)
    then show ?thesis using tt by simp
  qed
qed

section \<open>The order of byte strings\<close>

lemma memcmp_lists_eq: "n \<le> length bs \<Longrightarrow> n \<le> length cs \<Longrightarrow> memcmp_lists n bs cs = Some (lex_cmp (take n bs) (take n cs))"
  by (induction n bs cs rule: memcmp_lists.induct) auto

lemma lex_cmp_take:
  fixes x y :: "u8 list"
  defines "n \<equiv> min (length x) (length y)"
  shows "ord_class.lexordp x y \<longleftrightarrow> lex_cmp (take n x) (take n y) < 0 \<or> lex_cmp (take n x) (take n y) = 0 \<and> length x < length y"
  unfolding n_def by (induction x y rule: lex_cmp.induct) (auto simp: word_less_def word_uint_eq_iff)

fun aml_less :: "aml_value \<Rightarrow> aml_value \<Rightarrow> bool" where
  "aml_less (IntV m) (IntV n) \<longleftrightarrow> m < n"
| "aml_less (StrV x) (StrV y) \<longleftrightarrow> ord_class.lexordp x y"
| "aml_less (BufV x) (BufV y) \<longleftrightarrow> ord_class.lexordp x y"
| "aml_less _ _ \<longleftrightarrow> False"

text \<open>The second value as one of the type of the first.\<close>

fun like :: "integer_width \<Rightarrow> aml_value \<Rightarrow> aml_value \<Rightarrow> aml_value option" where
  "like W (IntV _) v = map_option IntV (to_integer W True v)"
| "like W (StrV _) v = Some (StrV (to_string W ACPI_IMPLICIT_CONVERT_HEX v))"
| "like W (BufV _) v = Some (BufV (to_buffer W v))"

definition compared :: "u16 \<Rightarrow> aml_value \<Rightarrow> aml_value \<Rightarrow> bool" where
  "compared Opcode v w = (if Opcode = AML_LOGICAL_EQUAL_OP then v = w else if Opcode = AML_LOGICAL_GREATER_OP then aml_less w v else aml_less v w)"

lemma memory_bytes:
  "holds ob (StrV x) \<or> holds ob (BufV x) \<Longrightarrow> unat (op_Length ob) = length x \<and> take (length x) (storage ob) = x \<and> op_Type ob \<noteq> ACPI_TYPE_INTEGER"
  by (auto simp: storage_def)

lemma compare_bytes_eq:
  assumes "unat L0 = length x" and "unat L1 = length y" and m: "take (length x) m0 = x" "take (length y) m1 = y"
    and op: "Opcode \<in> {AML_LOGICAL_EQUAL_OP, AML_LOGICAL_GREATER_OP, AML_LOGICAL_LESS_OP}"
  shows "map_option (compare_bytes Opcode L0 L1) (memcmp_lists (unat (if L0 > L1 then L1 else L0)) m0 m1) =
    Some (AE_OK, if Opcode = AML_LOGICAL_EQUAL_OP then x = y else if Opcode = AML_LOGICAL_GREATER_OP then ord_class.lexordp y x else ord_class.lexordp x y)"
proof -
  let ?n = "min (length x) (length y)"
  have n: "unat (if L0 > L1 then L1 else L0) = ?n" using assms(1,2) by (auto simp: word_less_nat_alt)
  have len: "length x \<le> length m0" "length y \<le> length m1" using arg_cong [OF m(1), of length] arg_cong [OF m(2), of length] by simp_all
  have t: "take ?n m0 = take ?n x" "take ?n m1 = take ?n y"
    using arg_cong [OF m(1), of "take ?n"] arg_cong [OF m(2), of "take ?n"] by (simp_all add: min.commute min.left_commute)
  let ?c = "lex_cmp (take ?n x) (take ?n y)"
  have mc: "memcmp_lists ?n m0 m1 = Some ?c" using memcmp_lists_eq [of ?n m0 m1] len t by simp
  have l: "L0 = L1 \<longleftrightarrow> length x = length y" "L0 < L1 \<longleftrightarrow> length x < length y" "L0 > L1 \<longleftrightarrow> length y < length x"
    using assms(1,2) by (simp_all add: word_less_nat_alt word_unat_eq_iff)
  have eq: "length x = length y \<and> ?c = 0 \<longleftrightarrow> x = y" using lex_cmp_eq_0_length [of x y] by auto
  have less: "ord_class.lexordp x y \<longleftrightarrow> ?c < 0 \<or> ?c = 0 \<and> length x < length y" by (rule lex_cmp_take)
  have greater: "ord_class.lexordp y x \<longleftrightarrow> ?c > 0 \<or> ?c = 0 \<and> length y < length x"
    using lex_cmp_take [of y x] lex_cmp_antisym [of "take ?n x" "take ?n y"] by (simp add: min.commute)
  have ops: "AML_LOGICAL_EQUAL_OP \<noteq> AML_LOGICAL_GREATER_OP" "AML_LOGICAL_EQUAL_OP \<noteq> AML_LOGICAL_LESS_OP" "AML_LOGICAL_GREATER_OP \<noteq> AML_LOGICAL_LESS_OP"
    by (simp_all add: AML_LOGICAL_EQUAL_OP_def AML_LOGICAL_GREATER_OP_def AML_LOGICAL_LESS_OP_def)
  define c where "c = ?c"
  note facts = eq [folded c_def] less [folded c_def] greater [folded c_def]
  have "compare_bytes Opcode L0 L1 c = (AE_OK, if Opcode = AML_LOGICAL_EQUAL_OP then x = y
      else if Opcode = AML_LOGICAL_GREATER_OP then ord_class.lexordp y x else ord_class.lexordp x y)"
    using op
  proof (elim insertE emptyE)
    assume "Opcode = AML_LOGICAL_EQUAL_OP"
    then show ?thesis using facts(1) by (simp add: compare_bytes_def l)
  next
    assume "Opcode = AML_LOGICAL_GREATER_OP"
    then show ?thesis unfolding facts using ops by (simp add: compare_bytes_def l)
  next
    assume "Opcode = AML_LOGICAL_LESS_OP"
    then show ?thesis unfolding facts using ops by (simp add: compare_bytes_def l)
  qed
  then show ?thesis unfolding n mc option.map c_def by (rule arg_cong [where f = Some])
qed

lemma compare_values:
  assumes "holds ob0 v0" and "holds ob1 v" and "like W v0 w = Some v"
    and op: "Opcode \<in> {AML_LOGICAL_EQUAL_OP, AML_LOGICAL_GREATER_OP, AML_LOGICAL_LESS_OP}"
  shows "(if op_Type ob0 = ACPI_TYPE_INTEGER then Some (compare_integers Opcode (op_Value ob0) (op_Value ob1))
          else let Length0 = op_Length ob0; Length1 = op_Length ob1 in
            map_option (compare_bytes Opcode Length0 Length1)
              (memcmp_lists (unat (if Length0 > Length1 then Length1 else Length0)) (storage ob0) (storage ob1))) =
    Some (AE_OK, compared Opcode v0 v)"
proof (cases v0)
  case (IntV m)
  then obtain n where v: "v = IntV n" using assms(3) by auto
  then have "op_Type ob0 = ACPI_TYPE_INTEGER" "op_Value ob0 = m" "op_Value ob1 = n" using assms(1,2) IntV by simp_all
  then show ?thesis
    using op v IntV
    by (elim insertE) (simp_all add: compare_integers_def compared_def AML_LOGICAL_EQUAL_OP_def AML_LOGICAL_GREATER_OP_def AML_LOGICAL_LESS_OP_def)
next
  case (StrV x)
  then obtain y where v: "v = StrV y" using assms(3) by auto
  have t: "op_Type ob0 \<noteq> ACPI_TYPE_INTEGER" using memory_bytes [of ob0 x] assms(1) StrV by simp
  have e: "map_option (compare_bytes Opcode (op_Length ob0) (op_Length ob1))
      (memcmp_lists (unat (if op_Length ob0 > op_Length ob1 then op_Length ob1 else op_Length ob0)) (storage ob0) (storage ob1)) =
    Some (AE_OK, if Opcode = AML_LOGICAL_EQUAL_OP then x = y else if Opcode = AML_LOGICAL_GREATER_OP then ord_class.lexordp y x else ord_class.lexordp x y)"
    by (rule compare_bytes_eq [OF _ _ _ _ op]) (use memory_bytes [of ob0 x] memory_bytes [of ob1 y] assms(1,2) StrV v in blast)+
  show ?thesis unfolding if_not_P [OF t] Let_def unfolding e by (simp add: compared_def StrV v)
next
  case (BufV x)
  then obtain y where v: "v = BufV y" using assms(3) by auto
  have t: "op_Type ob0 \<noteq> ACPI_TYPE_INTEGER" using memory_bytes [of ob0 x] assms(1) BufV by simp
  have e: "map_option (compare_bytes Opcode (op_Length ob0) (op_Length ob1))
      (memcmp_lists (unat (if op_Length ob0 > op_Length ob1 then op_Length ob1 else op_Length ob0)) (storage ob0) (storage ob1)) =
    Some (AE_OK, if Opcode = AML_LOGICAL_EQUAL_OP then x = y else if Opcode = AML_LOGICAL_GREATER_OP then ord_class.lexordp y x else ord_class.lexordp x y)"
    by (rule compare_bytes_eq [OF _ _ _ _ op]) (use memory_bytes [of ob0 x] memory_bytes [of ob1 y] assms(1,2) BufV v in blast)+
  show ?thesis unfolding if_not_P [OF t] Let_def unfolding e by (simp add: compared_def BufV v)
qed

section \<open>The operators on objects\<close>

text \<open>The conversion of the second operand to the type of the first.\<close>

definition second_operand :: "('c, 'd) op_env \<Rightarrow> integer_width \<Rightarrow> operand_object \<Rightarrow> addr \<Rightarrow> ('c, 'd) ostate \<Rightarrow> ('c, 'd) converted" where
  "second_operand env W ob0 a s =
     (if op_Type ob0 = ACPI_TYPE_INTEGER then AcpiExConvertToInteger env W a True s
      else if op_Type ob0 = ACPI_TYPE_STRING then AcpiExConvertToString env W a ACPI_IMPLICIT_CONVERT_HEX s
      else if op_Type ob0 = ACPI_TYPE_BUFFER then AcpiExConvertToBuffer env W a s
      else Some (AE_AML_INTERNAL, None, s))"

lemma second_operand_like:
  assumes "caches_ok s" and "holds ob0 v0" and "objects s a = Some ob" and "holds ob v" and "in_range W v" and W: "W = AcpiUtSetIntegerWidth revision"
    and env: "env = acpi_env pick pick' alloc ext"
  shows "case like W v0 v of
      None \<Rightarrow> second_operand env W ob0 a s = Some (AE_AML_BUFFER_LIMIT, None, s)
    | Some w \<Rightarrow> converts caches_ok s a w (second_operand env W ob0 a s)"
proof (cases v0)
  case (IntV n)
  then have "op_Type ob0 = ACPI_TYPE_INTEGER" using assms(2) by simp
  then show ?thesis
    using acpi_to_integer [OF assms(1,3,4), where W = W and imp = True and pick = pick and pick' = pick' and alloc = alloc and ext = ext] IntV
    by (cases "to_integer W True v") (simp_all add: second_operand_def env)
next
  case (StrV t)
  then have "op_Type ob0 = ACPI_TYPE_STRING" using assms(2) by simp
  then show ?thesis using acpi_to_string [OF assms(1,3,4)] assms(5) StrV by (simp add: second_operand_def env W)
next
  case (BufV bs)
  have "0 < AcpiGbl_IntegerByteWidth W" by (rule width_cases [of revision]) (simp_all add: W)
  moreover have "op_Type ob0 = ACPI_TYPE_BUFFER" using assms(2) BufV by simp
  ultimately show ?thesis using acpi_to_buffer [OF assms(1,3,4)] assms(5) BufV by (simp add: second_operand_def env)
qed

text \<open>A temporary object is released again.\<close>

lemma remove_unshared:
  assumes "caches_ok s" and "objects s d = Some ob" and "unshared ob"
  shows "\<exists>s'. AcpiUtRemoveReference (acpi_env pick pick' alloc ext) d s = Some s' \<and> caches_ok s' \<and> objects s' = (objects s)(d := None)
    \<and> live (SHeap s') = live (SHeap s)"
  using acpi_objects.remove_last [unfolded objects_ok, OF assms(1,2)] assms(3) by (auto simp: unshared_def)

lemma logical_op:
  assumes s: "caches_ok s" and a0: "objects s a0 = Some ob0" "holds ob0 v0" and a1: "objects s a1 = Some ob1" "holds ob1 v1" "in_range W v1"
    and W: "W = AcpiUtSetIntegerWidth revision" and env: "env = acpi_env pick pick' alloc ext"
    and op: "Opcode \<in> {AML_LOGICAL_EQUAL_OP, AML_LOGICAL_GREATER_OP, AML_LOGICAL_LESS_OP}"
  shows "\<exists>st r s'. AcpiExDoLogicalOp env W Opcode a0 a1 s = Some (st, r, s') \<and> caches_ok s' \<and> objects s' = objects s \<and> live (SHeap s') = live (SHeap s)
    \<and> (case like W v0 v1 of None \<Rightarrow> st = AE_AML_BUFFER_LIMIT \<and> \<not> r
       | Some v \<Rightarrow> st = AE_OK \<and> r = compared Opcode v0 v \<or> st = AE_NO_MEMORY \<and> \<not> r)"
proof -
  note conv = second_operand_like [OF s a0(2) a1 W env]
  show ?thesis
  proof (cases "like W v0 v1")
    case None
    then show ?thesis using conv s a0(1) by (auto simp: AcpiExDoLogicalOp_def second_operand_def [symmetric] ACPI_FAILURE_def)
  next
    case (Some v)
    with conv have "converts caches_ok s a1 v (second_operand env W ob0 a1 s)" by simp
    then show ?thesis
    proof (cases rule: convertsE)
      case (same ob)
      then show ?thesis
        using compare_values [OF a0(2) same(3) Some op] a0(1) s Some
        by (simp add: AcpiExDoLogicalOp_def second_operand_def [symmetric] ACPI_FAILURE_def del: if_split)
    next
      case (memory s')
      then show ?thesis using a0(1) Some by (auto simp: AcpiExDoLogicalOp_def second_operand_def [symmetric] ACPI_FAILURE_def)
    next
      case (new d ob s')
      then have "d \<noteq> a1" "d \<noteq> a0" "objects s' d = Some ob" using a0(1) a1(1) by auto
      moreover from remove_unshared [OF new(2) this(3) new(8), of pick pick' alloc ext, folded env] obtain s2 where
        "AcpiUtRemoveReference env d s' = Some s2" "caches_ok s2" "objects s2 = objects s" "live (SHeap s2) = live (SHeap s)"
        using new(3,6) fun_upd_idem [of "objects s" d None, OF new(5)] by auto
      ultimately show ?thesis
        using compare_values [OF a0(2) new(7) Some op] a0(1) Some new(1,6)
        by (simp add: AcpiExDoLogicalOp_def second_operand_def [symmetric] ACPI_FAILURE_def)
    qed
  qed
qed

lemma objects_keep:
  assumes "objects s d = None" and "objects s' = (objects s)(d \<mapsto> ob)" and "objects s a = Some x"
  shows "objects s' a = Some x" "d \<noteq> a"
  using assms by auto

lemma acpi_set_op:
  "caches_ok s \<Longrightarrow> objects s a = Some ob \<Longrightarrow>
     \<exists>s'. set_op a f s = Some s' \<and> caches_ok s' \<and> objects s' = (objects s)(a \<mapsto> f ob) \<and> live (SHeap s') = live (SHeap s)"
  using acpi_objects.set_op_ok [unfolded objects_ok, of s a ob f] by auto

text \<open>The new integer, with the value of the truth or released after an error.\<close>

lemma logical_result:
  assumes s: "caches_ok s" "objects s d = Some (new_operand ACPI_TYPE_INTEGER)" and env: "env = acpi_env pick pick' alloc ext"
  shows "\<exists>s'. Option.bind (map_option (Pair st) (if r then set_op d (\<lambda>ob. ob\<lparr>op_Value := ACPI_UINT64_MAX\<rparr>) s else Some s))
      (\<lambda>(Status, s). if ACPI_FAILURE Status then map_option (\<lambda>s. (Status, None, s)) (AcpiUtRemoveReference env d s) else Some (Status, Some d, s)) =
      Some (st, if st = AE_OK then Some d else None, s') \<and> caches_ok s' \<and> live (SHeap s') = live (SHeap s)
    \<and> objects s' = (objects s)(d := if st = AE_OK then Some (new_operand ACPI_TYPE_INTEGER\<lparr>op_Value := if r then ACPI_UINT64_MAX else 0\<rparr>) else None)"
proof -
  let ?ob = "new_operand ACPI_TYPE_INTEGER\<lparr>op_Value := if r then ACPI_UINT64_MAX else 0\<rparr>"
  obtain s1 where s1: "(if r then set_op d (\<lambda>ob. ob\<lparr>op_Value := ACPI_UINT64_MAX\<rparr>) s else Some s) = Some s1" "caches_ok s1"
      "objects s1 = (objects s)(d \<mapsto> ?ob)" "live (SHeap s1) = live (SHeap s)"
  proof (cases r)
    case True
    then show ?thesis using acpi_set_op [OF s, of "\<lambda>ob. ob\<lparr>op_Value := ACPI_UINT64_MAX\<rparr>"] that by auto
  next
    case False
    have "new_operand ACPI_TYPE_INTEGER\<lparr>op_Value := 0\<rparr> = new_operand ACPI_TYPE_INTEGER" by (simp add: new_operand_def zero_operand_def)
    then show ?thesis using False s that [of s] by (simp add: fun_upd_idem)
  qed
  show ?thesis
  proof (cases "st = AE_OK")
    case True
    then show ?thesis using s1 by simp
  next
    case False
    have "objects s1 d = Some ?ob" using s1(3) by simp
    from remove_unshared [OF s1(2) this unshared_operand(1), of pick pick' alloc ext] obtain s2 where
      "AcpiUtRemoveReference env d s1 = Some s2" "caches_ok s2" "objects s2 = (objects s1)(d := None)" "live (SHeap s2) = live (SHeap s1)"
      by (auto simp: env)
    then show ?thesis using False s1 by (simp add: ACPI_FAILURE_def)
  qed
qed

section \<open>Properties\<close>

text \<open>
  C18. The operators compute, and the truncation that follows cuts off, exactly the arithmetic on integers: for operands in the range of a table, the truncated result is the integer result modulo
  two to the width of the table's integers. For the shifts the mathematical definition needs no case for large counts; the one in the code gives just that.
\<close>

theorem math_op_arithmetic:
  assumes "in_range W (IntV a)" and "in_range W (IntV b)" and "W = AcpiUtSetIntegerWidth revision"
  shows "uint (truncated W (AcpiExDoMathOp W Opcode a b)) = arithmetic Opcode (uint a) (uint b) mod 2 ^ unat (AcpiGbl_IntegerBitWidth W)"
proof -
  define w where "w = unat (AcpiGbl_IntegerBitWidth W)"
  have w: "w = 32 \<or> w = 64" "w = 8 * unat (AcpiGbl_IntegerByteWidth W)" "ucast (AcpiGbl_IntegerBitWidth W) = (of_nat w :: u64)"
    by (rule width_cases [of revision]; simp add: w_def assms(3))+
  have "unat a < 2 ^ w" using assms(1) w(2) by simp
  then have "int (unat a) < int (2 ^ w)" by (simp only: of_nat_less_iff)
  then have "uint a < 2 ^ w" by simp
  from math_take_bit [OF w(1) this w(3)] truncated_take_bit [OF assms(3)] show ?thesis by (simp add: w_def take_bit_eq_mod)
qed

theorem math_op_arithmetic_witness:
  "uint (truncated (AcpiUtSetIntegerWidth 1) (AcpiExDoMathOp (AcpiUtSetIntegerWidth 1) AML_SUBTRACT_OP 1 3)) = 0xFFFFFFFE
   \<and> uint (truncated (AcpiUtSetIntegerWidth 1) (AcpiExDoMathOp (AcpiUtSetIntegerWidth 1) AML_SHIFT_LEFT_OP 3 31)) = 0x80000000"
proof -
  let ?W = "AcpiUtSetIntegerWidth 1"
  have r: "in_range ?W (IntV 1)" "in_range ?W (IntV 3)" "in_range ?W (IntV 31)" and w: "unat (AcpiGbl_IntegerBitWidth ?W) = 32"
    by (simp_all add: AcpiUtSetIntegerWidth_def)
  have v: "arithmetic AML_SUBTRACT_OP (uint (1 :: u64)) (uint (3 :: u64)) mod 2 ^ 32 = 0xFFFFFFFE"
    "arithmetic AML_SHIFT_LEFT_OP (uint (3 :: u64)) (uint (31 :: u64)) mod 2 ^ 32 = 0x80000000"
    by (simp_all add: arithmetic_def math_opcodes)
  show ?thesis
    using math_op_arithmetic [OF r(1,2) refl, of AML_SUBTRACT_OP] math_op_arithmetic [OF r(2,3) refl, of AML_SHIFT_LEFT_OP]
    by (simp only: w v)
qed

text \<open>
  C6. \<open>LEqual\<close>, \<open>LGreater\<close> and \<open>LLess\<close> on integers, strings and buffers give a new integer, all ones or zero, that says how the first operand compares
  with the second one after its implicit conversion to the first one's type: integers by value, strings and buffers in the lexicographic order of their bytes, a proper prefix being less.
  Temporary objects are released: apart from the result nothing changes. The errors, a missing memory or an empty buffer in place of an integer, release the result as well.
\<close>

theorem logical_opcode_compares:
  assumes s: "caches_ok s" and a0: "objects s a0 = Some ob0" "holds ob0 v0" and a1: "objects s a1 = Some ob1" "holds ob1 v1" "in_range W v1"
    and W: "W = AcpiUtSetIntegerWidth revision" and env: "env = acpi_env pick pick' alloc ext"
    and op: "Opcode \<in> {AML_LOGICAL_EQUAL_OP, AML_LOGICAL_GREATER_OP, AML_LOGICAL_LESS_OP}"
    and flags: "Flags AND AML_LOGICAL_NUMERIC = 0" "Flags AND AML_LOGICAL \<noteq> 0"
  shows "\<exists>st r s'. AcpiExOpcode_2A_0T_1R env W sync Opcode Flags a0 a1 s = Some (st, r, s') \<and> caches_ok s' \<and> live (SHeap s') = live (SHeap s)
    \<and> (st = AE_OK \<and> (\<exists>d ob v. r = Some d \<and> objects s d = None \<and> objects s' = (objects s)(d \<mapsto> ob) \<and> like W v0 v1 = Some v
          \<and> holds ob (IntV (if compared Opcode v0 v then ACPI_UINT64_MAX else 0)))
       \<or> (st = AE_NO_MEMORY \<or> st = AE_AML_BUFFER_LIMIT \<and> like W v0 v1 = None) \<and> r = None \<and> objects s' = objects s)"
  using acpi_objects.create_object [unfolded objects_ok, OF s new_operand_ok(5), of ACPI_TYPE_INTEGER pick pick' alloc ext, folded env, simplified]
proof (rule acpi_objects.createdE [unfolded objects_ok], goal_cases null new)
  case (null s')
  then show ?thesis by (simp add: AcpiExOpcode_2A_0T_1R_def AcpiUtRemoveReference_def AcpiUtValidInternalObject_def ACPI_FAILURE_def)
next
  case (new d s1)
  have d: "objects s1 d = Some (new_operand ACPI_TYPE_INTEGER)" using new(6) by simp
  note keep = objects_keep [OF new(5,6)]
  from logical_op [OF new(3) keep(1) [OF a0(1)] a0(2) keep(1) [OF a1(1)] a1(2,3) W env op] obtain st r s2 where
    s2: "AcpiExDoLogicalOp env W Opcode a0 a1 s1 = Some (st, r, s2)" "caches_ok s2" "objects s2 = objects s1" "live (SHeap s2) = live (SHeap s)"
      "case like W v0 v1 of None \<Rightarrow> st = AE_AML_BUFFER_LIMIT \<and> \<not> r
       | Some v \<Rightarrow> st = AE_OK \<and> r = compared Opcode v0 v \<or> st = AE_NO_MEMORY \<and> \<not> r"
    using new(4) by auto
  from logical_result [OF s2(2) _ env, of d st r] d s2(3,4) obtain s3 where
    s3: "AcpiExOpcode_2A_0T_1R env W sync Opcode Flags a0 a1 s = Some (st, if st = AE_OK then Some d else None, s3)" "caches_ok s3"
      "live (SHeap s3) = live (SHeap s)"
      "objects s3 = (objects s1)(d := if st = AE_OK then Some (new_operand ACPI_TYPE_INTEGER\<lparr>op_Value := if r then ACPI_UINT64_MAX else 0\<rparr>) else None)"
    using new(1,2) s2(1) flags by (auto simp: AcpiExOpcode_2A_0T_1R_def)
  show ?thesis
  proof (cases "like W v0 v1")
    case None
    then show ?thesis using s2(5) s3 new(5,6) by (simp add: fun_upd_idem)
  next
    case (Some v)
    then show ?thesis using s2(5) s3 new(5,6) by (auto simp: fun_upd_idem)
  qed
qed

definition sample_operands :: "(memory_list, memory_list) ostate" where
  "sample_operands = sample_store\<lparr>OHeap :=
     [0x1000 \<mapsto> Object (new_operand ACPI_TYPE_STRING\<lparr>op_Pointer := Some [48, 65, 0], op_Length := 2\<rparr>),
      0x1800 \<mapsto> Object (new_operand ACPI_TYPE_BUFFER\<lparr>op_Pointer := Some [9], op_Length := 1\<rparr>)]\<rparr>"

lemma sample_operands: "caches_ok sample_operands"
  "objects sample_operands 0x1000 = Some (new_operand ACPI_TYPE_STRING\<lparr>op_Pointer := Some [48, 65, 0], op_Length := 2\<rparr>)"
  "objects sample_operands 0x1800 = Some (new_operand ACPI_TYPE_BUFFER\<lparr>op_Pointer := Some [9], op_Length := 1\<rparr>)"
  using sample_inv(2) by (simp_all add: caches_ok_def sample_operands_def sample_store_def cache_inv_def live_def)

theorem logical_opcode_compares_witness:
  "\<exists>st r s'. AcpiExOpcode_2A_0T_1R sample_env (AcpiUtSetIntegerWidth 2) (\<lambda>_ _ _ s. (AE_OK, s)) AML_LOGICAL_LESS_OP AML_LOGICAL 0x1000 0x1800 sample_operands =
      Some (st, r, s')
    \<and> (st = AE_OK \<longrightarrow> (\<exists>d ob. r = Some d \<and> objects s' = (objects sample_operands)(d \<mapsto> ob) \<and> holds ob (IntV ACPI_UINT64_MAX)))"
proof -
  let ?ob0 = "new_operand ACPI_TYPE_STRING\<lparr>op_Pointer := Some [48, 65, 0], op_Length := 2\<rparr>" and ?ob1 = "new_operand ACPI_TYPE_BUFFER\<lparr>op_Pointer := Some [9], op_Length := 1\<rparr>"
  have v: "holds ?ob0 (StrV [48, 65])" "holds ?ob1 (BufV [9])" "in_range (AcpiUtSetIntegerWidth 2) (BufV [9])" by (simp_all add: storage_def)
  have op: "AML_LOGICAL_LESS_OP \<in> {AML_LOGICAL_EQUAL_OP, AML_LOGICAL_GREATER_OP, AML_LOGICAL_LESS_OP}" by simp
  have flags: "AML_LOGICAL AND AML_LOGICAL_NUMERIC = 0" "AML_LOGICAL AND AML_LOGICAL \<noteq> 0" by (simp_all add: AML_LOGICAL_def AML_LOGICAL_NUMERIC_def)
  have val: "like (AcpiUtSetIntegerWidth 2) (StrV [48, 65]) (BufV [9]) = Some (StrV [48, 120, 48, 57])"
    by (simp add: byte_text_def ascii_def hex_digits_def AcpiGbl_HexToAscii_def upt_rec ACPI_IMPLICIT_CONVERT_HEX_def ACPI_EXPLICIT_CONVERT_DECIMAL_def)
  have "compared AML_LOGICAL_LESS_OP (StrV [48, 65]) (StrV [48, 120, 48, 57])"
    by (simp add: compared_def AML_LOGICAL_LESS_OP_def AML_LOGICAL_EQUAL_OP_def AML_LOGICAL_GREATER_OP_def)
  with logical_opcode_compares [OF sample_operands(1,2) v(1) sample_operands(3) v(2,3) refl sample_env_def op flags, of "\<lambda>_ _ _ s. (AE_OK, s)"] val
  show ?thesis by (simp only: option.inject) (elim exE conjE disjE; fastforce)
qed

text \<open>
  C40. A store through a target subject to implicit conversion converts an integer, string or buffer to the type of the destination, a field taking an integer; if that is not possible, the source itself is
  the result, with an error for a lack of memory or an empty buffer, and nothing has changed. A source of any other type is no error: the destination is to be overwritten by it.
\<close>

theorem store_conversion:
  assumes s: "caches_ok s" and a: "objects s a = Some ob" and W: "W = AcpiUtSetIntegerWidth revision" and env: "env = acpi_env pick pick' alloc ext"
    and arg: "GET_CURRENT_ARG_TYPE RuntimeArgs = ARGI_TARGETREF \<or> GET_CURRENT_ARG_TYPE RuntimeArgs = ARGI_STORE_TARGET"
    and dest: "kind = IntV 0 \<and> DestinationType \<in> {ACPI_TYPE_INTEGER, ACPI_TYPE_BUFFER_FIELD, ACPI_TYPE_LOCAL_BANK_FIELD, ACPI_TYPE_LOCAL_INDEX_FIELD}
      \<or> kind = StrV [] \<and> DestinationType = ACPI_TYPE_STRING \<or> kind = BufV [] \<and> DestinationType = ACPI_TYPE_BUFFER"
  shows "(holds ob v \<and> in_range W v \<longrightarrow>
      (\<exists>st d s'. AcpiExConvertToTargetType env W DestinationType RuntimeArgs a s = Some (st, d, s') \<and> caches_ok s'
        \<and> (st = AE_OK \<and> (\<exists>w ob'. like W kind v = Some w \<and> objects s' d = Some ob' \<and> holds ob' w) \<and> (\<forall>x. x \<noteq> d \<longrightarrow> objects s' x = objects s x)
           \<or> (st = AE_NO_MEMORY \<or> st = AE_AML_BUFFER_LIMIT \<and> like W kind v = None) \<and> d = a \<and> objects s' = objects s)))
    \<and> (op_Type ob \<notin> {ACPI_TYPE_INTEGER, ACPI_TYPE_STRING, ACPI_TYPE_BUFFER} \<longrightarrow>
        AcpiExConvertToTargetType env W DestinationType RuntimeArgs a s = Some (AE_OK, a, s))"
proof -
  obtain ob0 where k: "holds ob0 kind" "op_Type ob0 = (case kind of IntV _ \<Rightarrow> ACPI_TYPE_INTEGER | StrV _ \<Rightarrow> ACPI_TYPE_STRING | BufV _ \<Rightarrow> ACPI_TYPE_BUFFER)"
  proof -
    have "holds (new_operand ACPI_TYPE_INTEGER) (IntV 0)" "holds (new_operand ACPI_TYPE_STRING\<lparr>op_Pointer := Some [0]\<rparr>) (StrV [])"
      "holds (new_operand ACPI_TYPE_BUFFER) (BufV [])" by (simp_all add: new_operand_def zero_operand_def)
    then show ?thesis
      using that [of "new_operand ACPI_TYPE_INTEGER"] that [of "new_operand ACPI_TYPE_STRING\<lparr>op_Pointer := Some [0]\<rparr>"] that [of "new_operand ACPI_TYPE_BUFFER"] dest
      by (auto simp del: holds.simps)
  qed
  have types: "ARGI_TARGETREF \<notin> {ARGI_SIMPLE_TARGET, ARGI_FIXED_TARGET, ARGI_INTEGER_REF}" "ARGI_STORE_TARGET \<notin> {ARGI_SIMPLE_TARGET, ARGI_FIXED_TARGET, ARGI_INTEGER_REF}"
    "ACPI_TYPE_STRING \<notin> {ACPI_TYPE_INTEGER, ACPI_TYPE_BUFFER_FIELD, ACPI_TYPE_LOCAL_BANK_FIELD, ACPI_TYPE_LOCAL_INDEX_FIELD}"
    "ACPI_TYPE_BUFFER \<notin> {ACPI_TYPE_INTEGER, ACPI_TYPE_BUFFER_FIELD, ACPI_TYPE_LOCAL_BANK_FIELD, ACPI_TYPE_LOCAL_INDEX_FIELD}"
    by (simp_all add: ARGI_TARGETREF_def ARGI_STORE_TARGET_def ARGI_SIMPLE_TARGET_def ARGI_FIXED_TARGET_def ARGI_INTEGER_REF_def simple_types
        ACPI_TYPE_LOCAL_INDEX_FIELD_def)
  have def: "AcpiExConvertToTargetType env W DestinationType RuntimeArgs a s =
      map_option (\<lambda>(Status, Result, s). (if Status = AE_TYPE then AE_OK else Status, case Result of None \<Rightarrow> a | Some d \<Rightarrow> d, s)) (second_operand env W ob0 a s)"
    using arg dest k(2) types unfolding AcpiExConvertToTargetType_def a option.case Let_def
    by (elim disjE conjE) (simp_all add: second_operand_def)
  have "\<exists>st d s'. AcpiExConvertToTargetType env W DestinationType RuntimeArgs a s = Some (st, d, s') \<and> caches_ok s'
        \<and> (st = AE_OK \<and> (\<exists>w ob'. like W kind v = Some w \<and> objects s' d = Some ob' \<and> holds ob' w) \<and> (\<forall>x. x \<noteq> d \<longrightarrow> objects s' x = objects s x)
           \<or> (st = AE_NO_MEMORY \<or> st = AE_AML_BUFFER_LIMIT \<and> like W kind v = None) \<and> d = a \<and> objects s' = objects s)"
    if "holds ob v" "in_range W v"
  proof (cases "like W kind v")
    case None
    then have "AcpiExConvertToTargetType env W DestinationType RuntimeArgs a s = Some (AE_AML_BUFFER_LIMIT, a, s)"
      using second_operand_like [OF s k(1) a that W env] by (simp add: def)
    then show ?thesis using s None by auto
  next
    case (Some w)
    then have "converts caches_ok s a w (second_operand env W ob0 a s)" using second_operand_like [OF s k(1) a that W env] by simp
    then show ?thesis
    proof (cases rule: convertsE)
      case same
      then have "AcpiExConvertToTargetType env W DestinationType RuntimeArgs a s = Some (AE_OK, a, s)" by (simp add: def)
      then show ?thesis using same s Some by auto
    next
      case (memory s')
      then have "AcpiExConvertToTargetType env W DestinationType RuntimeArgs a s = Some (AE_NO_MEMORY, a, s')" by (simp add: def)
      then show ?thesis using memory by auto
    next
      case (new d ob1 s')
      then have "AcpiExConvertToTargetType env W DestinationType RuntimeArgs a s = Some (AE_OK, d, s')" by (simp add: def)
      then show ?thesis using new Some by auto
    qed
  qed
  moreover have "AcpiExConvertToTargetType env W DestinationType RuntimeArgs a s = Some (AE_OK, a, s)"
    if "op_Type ob \<notin> {ACPI_TYPE_INTEGER, ACPI_TYPE_STRING, ACPI_TYPE_BUFFER}"
    using that k(2) a unfolding def
    by (cases kind) (simp_all add: second_operand_def AcpiExConvertToInteger_def AcpiExConvertToString_def AcpiExConvertToBuffer_def)
  ultimately show ?thesis by blast
qed

theorem store_conversion_witness:
  "AcpiExConvertToTargetType sample_env (AcpiUtSetIntegerWidth 2) ACPI_TYPE_STRING 0xF 0x1000 (store_with (new_operand ACPI_TYPE_PACKAGE)) =
     Some (AE_OK, 0x1000, store_with (new_operand ACPI_TYPE_PACKAGE))"
proof -
  have "GET_CURRENT_ARG_TYPE 0xF = ARGI_TARGETREF" by (simp add: GET_CURRENT_ARG_TYPE_def ARGI_TARGETREF_def)
  moreover have "op_Type (new_operand ACPI_TYPE_PACKAGE) \<notin> {ACPI_TYPE_INTEGER, ACPI_TYPE_STRING, ACPI_TYPE_BUFFER}" by (simp add: simple_types)
  ultimately show ?thesis
    using store_conversion [OF store_with, of "AcpiUtSetIntegerWidth 2" 2 sample_env "\<lambda>_. 0x2000" "\<lambda>_. 0" "\<lambda>_ _. True" "\<lambda>_ _. None" "0xF" "StrV []" ACPI_TYPE_STRING
        "new_operand ACPI_TYPE_PACKAGE" undefined, OF refl sample_env_def] by simp
qed

end
