(* ===== verification/Spec2Isabelle.thy ===== *)
theory Spec2Isabelle
  imports Clib Ctype Math64 StrConv OwnerId KString Bitmap ScopeStack AddressRange Mutex FieldPrep NsWalk NsNames ExLogic
begin

text \<open>
  A verification of core parts of WorkbenchOS, an operating system for x86\_64. The repository has the kernel and its
  libraries in C++ (\<^verbatim>\<open>src/Kernel\<close>, \<^verbatim>\<open>src/Libraries/LibStd\<close>, \<^verbatim>\<open>src/Library\<close>, \<^verbatim>\<open>src/Bootloader\<close>) and, as the kernel's ACPI
  interpreter, the ACPICA sources in C (\<^verbatim>\<open>src/Libraries/LibACPICA/ACPICA/source\<close>, below without this prefix), which are
  compiled for the kernel with \<^verbatim>\<open>include/platform/acworkbenchos.h\<close>. Most of the development is about ACPICA:
  its run-time library, its resource management, its locks, its namespace, its objects with the operators on them and the access to fields. From the kernel it
  has the allocator of physical pages and the memory routines.

  \<^bold>\<open>How the parts work together.\<close> The interpreter loads AML tables into a namespace, a tree of named nodes
  (\<^verbatim>\<open>components/namespace\<close>), and executes methods (parser, dispatcher, executer). A walk over the AML keeps
  its scopes, results and operands on stacks of state objects, which come from an object cache. The
  nodes that a table or a method creates carry its owner ID. Fields are accessed bit by bit through address space handlers.
  The objects that AML computes with carry the number of references to them and are converted to each other where an operator or a store
  requires it. What the interpreter shares between threads is protected by numbered mutexes and reader/writer locks on the semaphores of the host.
  Numbers and strings are converted by ACPICA's own library. Below all this the kernel hands out pages
  of physical memory with a bitmap.

  \<^bold>\<open>Theories.\<close>

  \<^item> \<open>Prelude\<close>: machine integers as words, the byte memory, the status codes of \<^verbatim>\<open>include/acexcep.h\<close>, and the
    lemmas that lead from words to natural numbers (\<open>word_nat\<close>) and describe memory regions (\<open>mem_simps\<close>).
  \<^item> \<open>Clib\<close>, \<open>Ctype\<close>: \<^verbatim>\<open>components/utilities/utclib.c\<close> and \<^verbatim>\<open>include/acclib.h\<close>. Every string and memory routine against its C
    standard meaning; the character table against ASCII.
  \<^item> \<open>Math64\<close>: \<^verbatim>\<open>utmath.c\<close>, the portable 64-bit arithmetic on 32-bit halves against the native one, with the
    range in which the division is right.
  \<^item> \<open>StrConv\<close>: \<^verbatim>\<open>uthex.c\<close>, \<^verbatim>\<open>utstrsuppt.c\<close>, \<^verbatim>\<open>utstrtoul64.c\<close> and \<open>strtoul\<close>: literals in three bases, overflow, the AML conversions.
  \<^item> \<open>Pool\<close>: the locale \<open>id_pool\<close>, an allocator of identifiers, with what its clients may rely on. \<open>OwnerId\<close>
    (\<^verbatim>\<open>utownerid.c\<close>) and \<open>Bitmap\<close> (\<^verbatim>\<open>src/Kernel/Memory/Bitmap.cpp\<close>) interpret it.
  \<^item> \<open>KString\<close>: \<^verbatim>\<open>src/Libraries/LibStd/CString.cpp\<close>.
  \<^item> \<open>Cache\<close>: \<^verbatim>\<open>utcache.c\<close>, free lists of objects, with the contract of an object store. \<open>GenericState\<close> (\<^verbatim>\<open>utstate.c\<close>), \<open>ResultStack\<close>
    (\<^verbatim>\<open>components/dispatcher/dswstate.c\<close>) and \<open>ScopeStack\<close> (\<^verbatim>\<open>components/parser/psscope.c\<close>, \<^verbatim>\<open>components/dispatcher/dswscope.c\<close>) build their
    stacks on it: linked state objects that implement bounded stacks, and are all released in the end.
  \<^item> \<open>AddressRange\<close>: \<^verbatim>\<open>utaddress.c\<close>, linked lists of address ranges and the check for conflicts.
  \<^item> \<open>Semaphore\<close>: the semaphores of \<^verbatim>\<open>os_specific/service_layers/osunixxf.c\<close> and the locale \<open>os_mutex\<close> of what the locks need of them;
    \<open>Draining\<close>: a locale for step systems in which every started call returns; \<open>RwLock\<close> (\<^verbatim>\<open>utlock.c\<close>) and \<open>Mutex\<close>
    (\<^verbatim>\<open>utmutex.c\<close>): the routines split at the calls that may wait, all interleavings of any number of threads,
    mutual exclusion as an invariant and freedom from deadlock.
  \<^item> \<open>FieldIo\<close>, \<open>FieldRegion\<close>, \<open>FieldPrep\<close>: \<^verbatim>\<open>components/executer/exfldio.c\<close>, the data table handler of \<^verbatim>\<open>exregion.c\<close>
    and the field descriptors of \<^verbatim>\<open>exprep.c\<close>. The locale \<open>datum_store\<close> is the contract of the access to one datum; in it the loops over the datums are proved
    correct bit by bit. Buffers in memory and data table regions interpret it.
  \<^item> \<open>Namespace\<close>, \<open>NsWalk\<close>, \<open>NsAlloc\<close>, \<open>NsOwner\<close>, \<open>NsEnter\<close>, \<open>NsLookup\<close>, \<open>NsNames\<close>: \<^verbatim>\<open>components/namespace\<close>, with the nodes in a heap and the tree they form as a
    datatype. \<open>Namespace\<close> has the node, the searches (\<^verbatim>\<open>nssearch.c\<close>) and the installation of a node; \<open>NsWalk\<close> the iterative walk of \<^verbatim>\<open>nswalk.c\<close> against a recursive one, for callbacks that leave the namespace as it is;
    \<open>NsAlloc\<close> the deletion of nodes and subtrees (\<^verbatim>\<open>nsalloc.c\<close>, \<open>AcpiNsDetachObject\<close>); \<open>NsOwner\<close> what the deletion of all nodes of an owner does to the tree; \<open>NsEnter\<close>
    searching and entering a name in a scope, with the repair of names (\<^verbatim>\<open>utascii.c\<close>, \<^verbatim>\<open>utstring.c\<close>), and that names stay unique; \<open>NsLookup\<close> the lookup of AML names
    (\<^verbatim>\<open>nsaccess.c\<close>) against the name search rules on trees; \<open>NsNames\<close> names as strings (\<^verbatim>\<open>nsutils.c\<close>), their conversion to AML names and back, and the lookup of a node by such a name.
  \<^item> \<open>AcpiTypes\<close>, \<open>Operand\<close>: the codes of the object types; operand objects (\<^verbatim>\<open>utobject.c\<close>) and their reference counts (\<^verbatim>\<open>utdelete.c\<close>), in a heap with the
    cache of operand objects and the one of states. The abstract view of the graph of objects from an object on is the tree of all ways through it; the iterative update with its list of
    states is proved to count these ways. The locale \<open>operand_store\<close> is what this relies on, two object caches, and ACPICA's caches interpret it.
  \<^item> \<open>ExText\<close>, \<open>ExConvert\<close>, \<open>ExLogic\<close>: numbers as text (\<^verbatim>\<open>exconvrt.c\<close>, \<^verbatim>\<open>exutils.c\<close>), each byte stored within its memory; the conversions between integer, string and buffer objects against
    conversions of values; the arithmetic and logical operators (\<^verbatim>\<open>exmisc.c\<close>, \<open>AcpiExOpcode_2A_0T_1R\<close> of \<^verbatim>\<open>exoparg2.c\<close>) against integer arithmetic and the order of values, and the conversion of a store.

  \<^bold>\<open>Modelling.\<close> C functions are HOL functions on explicit state: a byte memory or a heap of records for what
  pointers reach, records for globals. Integers keep their width, so that arithmetic wraps as in the code. A status
  is a value, and every early return is a branch. Where C has no defined result (a null or dangling pointer) the
  result is \<open>None\<close>. A loop is a terminating recursion, or a \<open>partial_function\<close> whose results are proved
  to exist; no loop is cut off by fuel. Host services, AML evaluation and handlers are arguments of the definitions, and the
  statements hold for all of them or name what they require.

  \<^bold>\<open>What the theorems show.\<close> Functional correctness on every branch, errors included; refinement of abstract
  stacks, lists, pools and trees; invariants over all sequences or interleavings of calls; termination
  and progress; round trips of conversions and fields; bounds of array and region accesses. Where the code
  does not do what it means to, a theorem states what it does (the last token of \<open>strtok\<close>, the portable division, the kernel's
  \<open>memmove\<close> and contiguous allocation, the result stack after a null push, a failed read lock, the nodes that a deletion by owner loses,
  a namespace node in an update of reference counts).

  \<^bold>\<open>Bounds.\<close> Reference counts are required not to wrap at 16 bits and texts to have a 32-bit length. Field lengths are below \<open>2 ^ 32 - 128\<close> bits, so that the rounding macros of the code do not wrap; region accesses are stated for offsets whose 32-bit
  sum does not wrap. Bitmaps have less than \<open>2 ^ 31\<close> blocks and the kernel's \<open>memmove\<close> gets less than \<open>2 ^ 34\<close> bytes, so that the \<open>int\<close> counters of these loops do not
  overflow; a tree that is walked has less than \<open>2 ^ 32 - 1\<close> levels. Callbacks of a walk and the services around a deletion leave the namespace as it is, and
  the objects of an update of reference counts contain no namespace nodes and no notify handlers. The other hypotheses are those of a well-formed state, which the operations are shown to keep.

  \<^bold>\<open>Not modelled.\<close> Output (debug prints, warnings, traces) has no effect on the state and is left out. Of the interpreter the remaining opcodes, stores into objects,
  the parse loop, method calls, the creation of field objects around their common part (the access width of embedded controller fields included), the copying of objects to and from callers, events, resource descriptors and tables are not modelled; they build on the namespace and the objects, which are. The deletion of device, thermal
  zone, processor, mutex and region objects is an argument of the deletion of an object, as are \<open>Acquire\<close> and \<open>Wait\<close> of the logical opcodes. The hardware access of ACPICA and most of the kernel
  (interrupts, page tables, drivers, file systems, process switches) is I/O on devices and the processor. The debugger, disassembler, compiler and the tools
  of ACPICA are not part of the operating system, nor are the experiments and the web inspector.
\<close>

end
